(* ===== verification/Prelude.thy ===== *)
theory Prelude
  imports Main "HOL-Library.Word"
begin

text \<open>
  Shared vocabulary of the development: the machine integer types of
  \<^verbatim>\<open>src/common/defines.h\<close>, the outcomes of a C function that may panic, block
  or touch memory it does not own, the state-and-fault combinators in which
  stateful kernel code is written, and the generic lemmas on lists and words
  that the component theories share.
\<close>

unbundle bit_operations_syntax

section \<open>Machine integers\<close>

type_synonym u8 = "8 word"
type_synonym u16 = "16 word"
type_synonym u32 = "32 word"
type_synonym u64 = "64 word"
type_synonym usize = "64 word"

section \<open>Faults\<close>

text \<open>
  A kernel function either returns or ends in one of three ways.
  \<^term>\<open>Panic\<close> is \<^verbatim>\<open>PANIC\<close> or a failed \<^verbatim>\<open>assert\<close>, which print a message and
  never return. \<^term>\<open>Blocked\<close> is a wait that only another thread can end:
  spinning on a lock that is held, or \<^verbatim>\<open>sleep\<close>. \<^term>\<open>BadAccess\<close> is an access the C
  source does not check: a null pointer, an array index out of range, an object
  that was freed.
\<close>

datatype fault = Panic string | Blocked | BadAccess

type_synonym ('s, 'a) cm = "'s \<Rightarrow> fault + 'a \<times> 's"

definition ret :: "'a \<Rightarrow> ('s, 'a) cm" where
  "ret a = (\<lambda>s. Inr (a, s))"

definition fail :: "fault \<Rightarrow> ('s, 'a) cm" where
  "fail e = (\<lambda>s. Inl e)"

definition bind :: "('s, 'a) cm \<Rightarrow> ('a \<Rightarrow> ('s, 'b) cm) \<Rightarrow> ('s, 'b) cm" where
  "bind m f = (\<lambda>s. case m s of Inl e \<Rightarrow> Inl e | Inr (a, s') \<Rightarrow> f a s')"

definition andthen :: "('s, 'a) cm \<Rightarrow> ('s, 'b) cm \<Rightarrow> ('s, 'b) cm" where
  "andthen m n = bind m (\<lambda>_. n)"

definition gets :: "('s \<Rightarrow> 'a) \<Rightarrow> ('s, 'a) cm" where
  "gets f = (\<lambda>s. Inr (f s, s))"

definition modify :: "('s \<Rightarrow> 's) \<Rightarrow> ('s, unit) cm" where
  "modify f = (\<lambda>s. Inr ((), f s))"

definition guard_cm :: "fault \<Rightarrow> ('s \<Rightarrow> bool) \<Rightarrow> ('s, unit) cm" where
  "guard_cm e P = (\<lambda>s. if P s then Inr ((), s) else Inl e)"

named_theorems cm_simps \<open>one-step execution of the fault-and-state combinators\<close>

lemma ret_run [cm_simps]: "ret a s = Inr (a, s)"
  by (simp add: ret_def)

lemma fail_run [cm_simps]: "fail e s = Inl e"
  by (simp add: fail_def)

lemma gets_run [cm_simps]: "gets f s = Inr (f s, s)"
  by (simp add: gets_def)

lemma modify_run [cm_simps]: "modify f s = Inr ((), f s)"
  by (simp add: modify_def)

lemma guard_cm_run [cm_simps]: "guard_cm e P s = (if P s then Inr ((), s) else Inl e)"
  by (simp add: guard_cm_def)

lemma bind_run [cm_simps]:
  "bind m f s = (case m s of Inl e \<Rightarrow> Inl e | Inr (a, s') \<Rightarrow> f a s')"
  by (simp add: bind_def)

lemma andthen_run [cm_simps]:
  "andthen m n s = (case m s of Inl e \<Rightarrow> Inl e | Inr (a, s') \<Rightarrow> n s')"
  by (simp add: andthen_def bind_def)

lemma bind_InrE:
  assumes "bind m f s = Inr r"
  obtains a s' where "m s = Inr (a, s')" and "f a s' = Inr r"
  using assms by (auto simp: bind_def split: sum.splits)

lemma andthen_InrE:
  assumes "andthen m n s = Inr r"
  obtains a s' where "m s = Inr (a, s')" and "n s' = Inr r"
  using assms by (auto simp: andthen_def bind_def split: sum.splits)

lemma bind_assoc: "bind (bind m f) g = bind m (\<lambda>a. bind (f a) g)"
  by (rule ext) (auto simp: bind_def split: sum.splits)

text \<open>
  Total correctness: \<open>runs m s Q\<close> says that \<open>m\<close> returns from \<open>s\<close> and that its result and the state it
  leaves satisfy \<open>Q\<close>. The equations in \<open>wp\<close> push it through a program one combinator at a time.
\<close>

definition runs :: "('s, 'a) cm \<Rightarrow> 's \<Rightarrow> ('a \<Rightarrow> 's \<Rightarrow> bool) \<Rightarrow> bool" where
  "runs m s Q \<longleftrightarrow> (\<exists>a s'. m s = Inr (a, s') \<and> Q a s')"

named_theorems wp \<open>weakest preconditions of the combinators\<close>

lemma runs_ret [wp]: "runs (ret a) s Q \<longleftrightarrow> Q a s"
  by (simp add: runs_def ret_def)

lemma runs_fail [wp]: "runs (fail e) s Q \<longleftrightarrow> False"
  by (simp add: runs_def fail_def)

lemma runs_gets [wp]: "runs (gets f) s Q \<longleftrightarrow> Q (f s) s"
  by (simp add: runs_def gets_def)

lemma runs_modify [wp]: "runs (modify f) s Q \<longleftrightarrow> Q () (f s)"
  by (simp add: runs_def modify_def)

lemma runs_guard [wp]: "runs (guard_cm e P) s Q \<longleftrightarrow> P s \<and> Q () s"
  by (simp add: runs_def guard_cm_def)

lemma runs_bind [wp]: "runs (bind m f) s Q \<longleftrightarrow> runs m s (\<lambda>a s'. runs (f a) s' Q)"
  by (auto simp: runs_def bind_def split: sum.splits)

lemma runs_andthen [wp]: "runs (andthen m n) s Q \<longleftrightarrow> runs m s (\<lambda>_ s'. runs n s' Q)"
  by (simp add: andthen_def runs_bind)

lemma runs_if [wp]: "runs (if b then m else n) s Q \<longleftrightarrow> (if b then runs m s Q else runs n s Q)"
  by simp

lemma runs_mono: "runs m s Q \<Longrightarrow> (\<And>a s'. Q a s' \<Longrightarrow> R a s') \<Longrightarrow> runs m s R"
  by (auto simp: runs_def)

lemma runs_conj: "runs m s P \<Longrightarrow> runs m s Q \<Longrightarrow> runs m s (\<lambda>a t. P a t \<and> Q a t)"
  by (auto simp: runs_def)

lemma runsI: "m s = Inr (a, s') \<Longrightarrow> Q a s' \<Longrightarrow> runs m s Q"
  by (auto simp: runs_def)

lemma runsE:
  assumes "runs m s Q"
  obtains a s' where "m s = Inr (a, s')" "Q a s'"
  using assms by (auto simp: runs_def)

section \<open>Words\<close>

lemma unat_plus1: "(i :: 'a::len word) < n \<Longrightarrow> unat (i + 1) = Suc (unat i)"
proof -
  assume "i < n"
  then have "unat i < unat n" by (simp add: word_less_nat_alt)
  moreover have "unat n < 2 ^ LENGTH('a)" by (rule unsigned_less)
  ultimately have "Suc (unat i) < 2 ^ LENGTH('a)" by linarith
  then show ?thesis by (simp add: unat_word_ariths)
qed

lemma unat_minus_word: "b \<le> (a :: 'a::len word) \<Longrightarrow> unat (a - b) = unat a - unat b"
  by (rule unat_sub)

lemma unat_of_nat_lt: "n < 2 ^ LENGTH('a) \<Longrightarrow> unat (of_nat n :: 'a::len word) = n"
  by (simp add: unat_of_nat take_bit_nat_eq_self)

text \<open>Two's complement at the widths the kernel reads signed values at.\<close>

lemma sint_u64: "sint (w :: u64) = (if uint w < 2 ^ 63 then uint w else uint w - 2 ^ 64)"
proof -
  have 1: "sint w = (uint w + 2 ^ 63) mod 2 ^ 64 - 2 ^ 63"
    by (simp add: sint_uint signed_take_bit_eq_take_bit_shift take_bit_eq_mod)
  have u: "0 \<le> uint w" "uint w < 2 ^ 64" using unsigned_less [of w, where ?'a = int] by simp_all
  show ?thesis
  proof (cases "uint w < 2 ^ 63")
    case True
    then show ?thesis using 1 u by simp
  next
    case False
    then have "(uint w + 2 ^ 63) mod 2 ^ 64 = uint w - 2 ^ 63"
      using u mod_pos_pos_trivial [of "uint w - 2 ^ 63" "2 ^ 64"] mod_add_self2 [of "uint w - 2 ^ 63" "2 ^ 64"]
      by (simp add: add.commute)
    then show ?thesis using 1 False by simp
  qed
qed

lemma sint_u32: "sint (w :: u32) = (if uint w < 2 ^ 31 then uint w else uint w - 2 ^ 32)"
proof -
  have 1: "sint w = (uint w + 2 ^ 31) mod 2 ^ 32 - 2 ^ 31"
    by (simp add: sint_uint signed_take_bit_eq_take_bit_shift take_bit_eq_mod)
  have u: "0 \<le> uint w" "uint w < 2 ^ 32" using unsigned_less [of w, where ?'a = int] by simp_all
  show ?thesis
  proof (cases "uint w < 2 ^ 31")
    case True
    then show ?thesis using 1 u by simp
  next
    case False
    then have "(uint w + 2 ^ 31) mod 2 ^ 32 = uint w - 2 ^ 31"
      using u mod_pos_pos_trivial [of "uint w - 2 ^ 31" "2 ^ 32"] mod_add_self2 [of "uint w - 2 ^ 31" "2 ^ 32"]
      by (simp add: add.commute)
    then show ?thesis using 1 False by simp
  qed
qed

lemma ucast_up_down [simp]: "ucast (ucast (x :: u32) :: u64) = x"
  by (rule bit_word_eqI) (simp add: bit_simps)

end
