(* ===== verification/CString.thy ===== *)
theory CString
  imports Prelude
begin

text \<open>
  Byte memory and the routines of \<^verbatim>\<open>src/common/string.c\<close> over it. A memory maps
  64-bit addresses to bytes; a pointer increment is an addition on addresses,
  so it wraps as it does on the machine. \<^verbatim>\<open>char\<close> is unsigned on AArch64, and an
  \<^verbatim>\<open>int\<close> result is an integer (the differences of two bytes never overflow).
\<close>

type_synonym mem = "u64 \<Rightarrow> u8"

section \<open>The routines\<close>

function memset_from :: "mem \<Rightarrow> u64 \<Rightarrow> u8 \<Rightarrow> usize \<Rightarrow> usize \<Rightarrow> mem" where
  "memset_from m s c i n =
     (if i < n then memset_from (m(s + i := c)) s c (i + 1) n else m)"
  by pat_completeness auto
termination
  by (relation "measure (\<lambda>(m, s, c, i, n). unat n - unat i)")
    (auto simp: unat_plus1 word_less_nat_alt)

definition memset :: "mem \<Rightarrow> u64 \<Rightarrow> u32 \<Rightarrow> usize \<Rightarrow> mem" where
  "memset m s c n = memset_from m s (ucast (c AND 0xff)) 0 n"

function memcpy_from :: "mem \<Rightarrow> u64 \<Rightarrow> u64 \<Rightarrow> usize \<Rightarrow> usize \<Rightarrow> mem" where
  "memcpy_from m dest src i n =
     (if i < n then memcpy_from (m(dest + i := m (src + i))) dest src (i + 1) n else m)"
  by pat_completeness auto
termination
  by (relation "measure (\<lambda>(m, d, s, i, n). unat n - unat i)")
    (auto simp: unat_plus1 word_less_nat_alt)

definition memcpy :: "mem \<Rightarrow> u64 \<Rightarrow> u64 \<Rightarrow> usize \<Rightarrow> mem" where
  "memcpy m dest src n = memcpy_from m dest src 0 n"

function memcmp_from :: "mem \<Rightarrow> u64 \<Rightarrow> u64 \<Rightarrow> usize \<Rightarrow> usize \<Rightarrow> int" where
  "memcmp_from m s1 s2 i n =
     (if i < n then
        let c1 = uint (m (s1 + i)); c2 = uint (m (s2 + i))
        in if c1 \<noteq> c2 then c1 - c2 else memcmp_from m s1 s2 (i + 1) n
      else 0)"
  by pat_completeness auto
termination
  by (relation "measure (\<lambda>(m, a, b, i, n). unat n - unat i)")
    (auto simp: unat_plus1 word_less_nat_alt)

definition memcmp :: "mem \<Rightarrow> u64 \<Rightarrow> u64 \<Rightarrow> usize \<Rightarrow> int" where
  "memcmp m s1 s2 n = memcmp_from m s1 s2 0 n"

text \<open>The two loops of \<^verbatim>\<open>memmove\<close>: \<^verbatim>\<open>n\<close> counts down, the pointers move.\<close>

fun memmove_down :: "mem \<Rightarrow> u64 \<Rightarrow> u64 \<Rightarrow> nat \<Rightarrow> mem" where
  "memmove_down m d s 0 = m"
| "memmove_down m d s (Suc n) = memmove_down (m(d - 1 := m (s - 1))) (d - 1) (s - 1) n"

fun memmove_up :: "mem \<Rightarrow> u64 \<Rightarrow> u64 \<Rightarrow> nat \<Rightarrow> mem" where
  "memmove_up m d s 0 = m"
| "memmove_up m d s (Suc n) = memmove_up (m(d := m s)) (d + 1) (s + 1) n"

definition memmove :: "mem \<Rightarrow> u64 \<Rightarrow> u64 \<Rightarrow> usize \<Rightarrow> mem" where
  "memmove m d s n =
     (if s < d \<and> d - s < n then memmove_down m (d + n) (s + n) (unat n)
      else memmove_up m d s (unat n))"

function strncpy_copy :: "mem \<Rightarrow> u64 \<Rightarrow> u64 \<Rightarrow> usize \<Rightarrow> usize \<Rightarrow> usize \<times> mem" where
  "strncpy_copy m dest src i n =
     (if i < n \<and> m (src + i) \<noteq> 0
      then strncpy_copy (m(dest + i := m (src + i))) dest src (i + 1) n
      else (i, m))"
  by pat_completeness auto
termination
  by (relation "measure (\<lambda>(m, d, s, i, n). unat n - unat i)")
    (auto simp: unat_plus1 word_less_nat_alt)

definition strncpy :: "mem \<Rightarrow> u64 \<Rightarrow> u64 \<Rightarrow> usize \<Rightarrow> mem" where
  "strncpy m dest src n =
     (case strncpy_copy m dest src 0 n of (i, m') \<Rightarrow> memset_from m' dest 0 i n)"

definition strncpy_fast :: "mem \<Rightarrow> u64 \<Rightarrow> u64 \<Rightarrow> usize \<Rightarrow> mem" where
  "strncpy_fast m dest src n =
     (case strncpy_copy m dest src 0 n of (i, m') \<Rightarrow> if i < n then m'(dest + i := 0) else m')"

function strncmp_from :: "mem \<Rightarrow> u64 \<Rightarrow> u64 \<Rightarrow> usize \<Rightarrow> usize \<Rightarrow> int" where
  "strncmp_from m s1 s2 i n =
     (if i < n then
        if m (s1 + i) \<noteq> m (s2 + i) then uint (m (s1 + i)) - uint (m (s2 + i))
        else if m (s1 + i) = 0 \<or> m (s2 + i) = 0 then 0
        else strncmp_from m s1 s2 (i + 1) n
      else 0)"
  by pat_completeness auto
termination
  by (relation "measure (\<lambda>(m, a, b, i, n). unat n - unat i)")
    (auto simp: unat_plus1 word_less_nat_alt)

definition strncmp :: "mem \<Rightarrow> u64 \<Rightarrow> u64 \<Rightarrow> usize \<Rightarrow> int" where
  "strncmp m s1 s2 n = strncmp_from m s1 s2 0 n"

text \<open>\<^verbatim>\<open>strlen\<close> does not return when no byte from \<open>s\<close> on is zero.\<close>

partial_function (option) strlen_from :: "mem \<Rightarrow> u64 \<Rightarrow> usize \<Rightarrow> usize option" where
  "strlen_from m s i = (if m (s + i) \<noteq> 0 then strlen_from m s (i + 1) else Some i)"

definition strlen :: "mem \<Rightarrow> u64 \<Rightarrow> usize option" where
  "strlen m s = strlen_from m s 0"

declare memset_from.simps [simp del] memcpy_from.simps [simp del] memcmp_from.simps [simp del]
  strncpy_copy.simps [simp del] strncmp_from.simps [simp del]

section \<open>What they compute\<close>

lemma word_Suc_range: "(i :: 'a::len word) < n \<Longrightarrow> i \<le> k \<and> k < n \<longleftrightarrow> k = i \<or> i + 1 \<le> k \<and> k < n"
  using unat_plus1 [of i n] by (auto simp: word_le_nat_alt word_less_nat_alt word_unat_eq_iff)

lemma memset_from_apply:
  "memset_from m s c i n a = (if i \<le> a - s \<and> a - s < n then c else m a)"
proof (induction m s c i n rule: memset_from.induct)
  case (1 m s c i n)
  show ?case
  proof (cases "i < n")
    case True
    have "memset_from m s c i n a = memset_from (m(s + i := c)) s c (i + 1) n a"
      using True by (simp add: memset_from.simps [of m s c i n])
    also have "\<dots> = (if i + 1 \<le> a - s \<and> a - s < n then c else (m(s + i := c)) a)"
      by (rule "1.IH" [OF True])
    also have "\<dots> = (if i \<le> a - s \<and> a - s < n then c else m a)"
      using word_Suc_range [OF True, of "a - s"] by (auto simp: algebra_simps)
    finally show ?thesis .
  next
    case False
    then show ?thesis by (auto simp: memset_from.simps [of m s c i n])
  qed
qed

lemma memset_apply:
  "memset m s c n a = (if a - s < n then ucast (c AND 0xff) else m a)"
  by (simp add: memset_def memset_from_apply)

text \<open>
  A run of \<open>n\<close> bytes from \<open>s\<close> to \<open>d\<close>: upwards is right when no write hits a byte
  still to be read, that is when \<open>d\<close> is not one of \<open>s + 1\<close>, \dots, \<open>s + n - 1\<close>;
  downwards when \<open>s\<close> is not one of \<open>d + 1\<close>, \dots, \<open>d + n - 1\<close>.
\<close>

definition moved :: "mem \<Rightarrow> u64 \<Rightarrow> u64 \<Rightarrow> nat \<Rightarrow> mem" where
  "moved m d s n = (\<lambda>a. if unat (a - d) < n then m (s + (a - d)) else m a)"

lemma unat_diff_Suc: "a \<noteq> (d :: 'a::len word) \<Longrightarrow> unat (a - d) = Suc (unat (a - (d + 1)))"
proof -
  assume "a \<noteq> d"
  then have "a - d \<noteq> 0" by simp
  then have "0 < unat (a - d)" by (simp add: unat_gt_0)
  moreover have "unat (a - d - 1) = unat (a - d) - 1"
    using \<open>a - d \<noteq> 0\<close> by (metis One_nat_def unat_1 unat_minus_word word_not_simps(1) linorder_not_less
        inc_le word_gt_0 add_0)
  ultimately show ?thesis by (simp add: diff_diff_eq)
qed

lemma unat_diff_wrap: "unat (d - (d + 1) :: 'a::len word) = 2 ^ LENGTH('a) - 1"
  by (simp add: unsigned_minus_1_eq_mask mask_eq_exp_minus_1)

lemma memmove_up_apply:
  assumes "n \<le> 2 ^ 64" and "\<And>j. 0 < j \<Longrightarrow> j < n \<Longrightarrow> d \<noteq> s + of_nat j"
  shows "memmove_up m d s n = moved m d s n"
  using assms
proof (induction m d s n rule: memmove_up.induct)
  case (1 m d s)
  then show ?case by (simp add: moved_def)
next
  case (2 m d s n)
  have IH: "memmove_up (m(d := m s)) (d + 1) (s + 1) n = moved (m(d := m s)) (d + 1) (s + 1) n"
  proof (rule "2.IH")
    show "d + 1 \<noteq> s + 1 + of_nat j" if "0 < j" "j < n" for j
      using "2.prems"(2) [of j] that by (auto simp: algebra_simps)
  qed (use "2.prems" in simp)
  show ?case
  proof
    fix a
    show "memmove_up m d s (Suc n) a = moved m d s (Suc n) a"
    proof (cases "a = d")
      case True
      then show ?thesis
        using "2.prems"(1) by (simp add: IH moved_def unat_diff_wrap)
    next
      case False
      let ?j = "unat (a - d)"
      have j: "unat (a - d) = Suc (unat (a - (d + 1)))" using False by (rule unat_diff_Suc)
      have "s + (a - d) \<noteq> d" if "?j < Suc n"
        using "2.prems"(2) [of ?j] that j by auto
      moreover have "s + 1 + (a - (d + 1)) = s + (a - d)" by simp
      ultimately show ?thesis using False j
        unfolding memmove_up.simps IH moved_def by auto
    qed
  qed
qed

lemma memmove_down_apply:
  assumes "n \<le> 2 ^ 64" and "\<And>j. 0 < j \<Longrightarrow> j < n \<Longrightarrow> s \<noteq> d + of_nat j"
  shows "memmove_down m (d + of_nat n) (s + of_nat n) n = moved m d s n"
  using assms
proof (induction n arbitrary: m)
  case 0
  then show ?case by (simp add: moved_def)
next
  case (Suc n)
  let ?e = "d + of_nat n" and ?f = "s + of_nat n"
  have IH: "memmove_down (m(?e := m ?f)) ?e ?f n = moved (m(?e := m ?f)) d s n"
    using Suc by simp
  show ?case
  proof
    fix a
    have n: "unat (of_nat n :: u64) = n" using Suc.prems(1) by (simp add: unat_of_nat_lt)
    show "memmove_down m (d + of_nat (Suc n)) (s + of_nat (Suc n)) (Suc n) a = moved m d s (Suc n) a"
    proof (cases "a = ?e")
      case True
      then show ?thesis using n by (simp add: IH moved_def)
    next
      case False
      have "unat (a - d) \<noteq> n" using False n by (metis add_diff_cancel_left' diff_add_cancel word_unat_eq_iff add.commute)
      moreover have "s + (a - d) \<noteq> ?e" if "unat (a - d) < n"
      proof
        assume e: "s + (a - d) = ?e"
        have "s = d + of_nat (n - unat (a - d))"
          using e that by (simp add: of_nat_diff algebra_simps)
        with Suc.prems(2) [of "n - unat (a - d)"] that show False by force
      qed
      ultimately show ?thesis using False by (auto simp: IH moved_def)
    qed
  qed
qed

lemma memmove_moved:
  assumes s: "unat s + unat n \<le> 2 ^ 64" and d: "unat d + unat n \<le> 2 ^ 64"
  shows "memmove m d s n = moved m d s (unat n)"
proof (cases "s < d \<and> d - s < n")
  case True
  have "s \<noteq> d + of_nat j" if "0 < j" "j < unat n" for j
  proof -
    have "unat (d + of_nat j) = unat d + j"
      using that d unsigned_less [of n, where ?'a = nat]
      by (simp add: unat_plus_if' unat_of_nat_lt)
    then show ?thesis using True by (auto simp: word_less_nat_alt)
  qed
  then have "memmove_down m (d + of_nat (unat n)) (s + of_nat (unat n)) (unat n) = moved m d s (unat n)"
    by (intro memmove_down_apply) (use unsigned_less [of n, where ?'a = nat] in auto)
  with True show ?thesis by (simp add: memmove_def)
next
  case False
  have "d \<noteq> s + of_nat j" if "0 < j" "j < unat n" for j
  proof
    assume e: "d = s + of_nat j"
    have j: "unat (of_nat j :: u64) = j"
      using that unsigned_less [of n, where ?'a = nat] by (simp add: unat_of_nat_lt)
    have "unat d = unat s + j" using that s j by (simp add: e unat_plus_if')
    moreover have "unat (d - s) = j" using j by (simp add: e)
    ultimately show False using False that by (auto simp: word_less_nat_alt)
  qed
  then have "memmove_up m d s (unat n) = moved m d s (unat n)"
    by (intro memmove_up_apply) (use unsigned_less [of n, where ?'a = nat] in auto)
  with False show ?thesis by (auto simp: memmove_def)
qed

lemma memcpy_from_up:
  "i \<le> n \<Longrightarrow> memcpy_from m d s i n = memmove_up m (d + i) (s + i) (unat n - unat i)"
proof (induction m d s i n rule: memcpy_from.induct)
  case (1 m d s i n)
  show ?case
  proof (cases "i < n")
    case True
    have "memcpy_from m d s i n = memcpy_from (m(d + i := m (s + i))) d s (i + 1) n"
      using True by (simp add: memcpy_from.simps [of m d s i n])
    also have "\<dots> = memmove_up (m(d + i := m (s + i))) (d + (i + 1)) (s + (i + 1)) (unat n - unat (i + 1))"
      using True by (intro "1.IH") (auto simp: inc_le)
    also have "unat n - unat (i + 1) = unat n - Suc (unat i)" using unat_plus1 [OF True] by simp
    finally have "memcpy_from m d s i n =
        memmove_up m (d + i) (s + i) (Suc (unat n - Suc (unat i)))"
      unfolding memmove_up.simps by (simp add: add.assoc fun_upd_def)
    moreover have "unat n - unat i = Suc (unat n - Suc (unat i))"
      using True by (simp add: word_less_nat_alt Suc_diff_Suc)
    ultimately show ?thesis by (simp only:)
  next
    case False
    with "1.prems" have "i = n" by simp
    then show ?thesis by (simp add: memcpy_from.simps [of m d s n n])
  qed
qed

lemma memcpy_up: "memcpy m d s n = memmove_up m d s (unat n)"
  using memcpy_from_up [of 0 n m d s] by (simp add: memcpy_def)

lemma strncmp_from_0:
  "strncmp_from m s1 s2 i n = 0 \<longleftrightarrow>
     (\<forall>k. i \<le> k \<and> k < n \<and> (\<forall>j. i \<le> j \<and> j < k \<longrightarrow> m (s1 + j) \<noteq> 0) \<longrightarrow> m (s1 + k) = m (s2 + k))"
  (is "_ \<longleftrightarrow> (\<forall>k. ?P i k)")
proof (induction m s1 s2 i n rule: strncmp_from.induct)
  case (1 m s1 s2 i n)
  let ?Q = "\<lambda>i k. i \<le> k \<and> k < n \<and> (\<forall>j. i \<le> j \<and> j < k \<longrightarrow> m (s1 + j) \<noteq> 0) \<longrightarrow> m (s1 + k) = m (s2 + k)"
  show ?case
  proof (cases "i < n")
    case False
    then show ?thesis by (auto simp: strncmp_from.simps [of m s1 s2 i n])
  next
    case True
    show ?thesis
    proof (cases "m (s1 + i) = m (s2 + i) \<and> m (s1 + i) \<noteq> 0")
      case stop: False
      show ?thesis
      proof (cases "m (s1 + i) = m (s2 + i)")
        case False
        then have "\<not> ?Q i i" using True by auto
        moreover have "strncmp_from m s1 s2 i n \<noteq> 0"
          using False True by (simp add: strncmp_from.simps [of m s1 s2 i n] word_uint_eq_iff)
        ultimately show ?thesis by blast
      next
        case eq: True
        then have "?Q i k" for k using stop by (cases "k = i") (auto dest: order_le_imp_less_or_eq)
        with eq stop True show ?thesis by (auto simp: strncmp_from.simps [of m s1 s2 i n])
      qed
    next
      case same: True
      have step: "(i \<le> j \<and> j < k) \<longleftrightarrow> j = i \<and> i < k \<or> i + 1 \<le> j \<and> j < k" if "i \<le> k" "k < n" for j k
        using that True unat_plus1 [OF True] by (auto simp: word_le_nat_alt word_less_nat_alt word_unat_eq_iff)
      have "?Q i k \<longleftrightarrow> ?Q (i + 1) k" for k
      proof (cases "k = i")
        case False
        have "(\<forall>j. i \<le> j \<and> j < k \<longrightarrow> m (s1 + j) \<noteq> 0) \<longleftrightarrow> (\<forall>j. i + 1 \<le> j \<and> j < k \<longrightarrow> m (s1 + j) \<noteq> 0)"
          if "i \<le> k" "k < n" using step [OF that] same by metis
        then show ?thesis using False word_Suc_range [OF True, of k] by blast
      qed (simp add: same)
      moreover have "strncmp_from m s1 s2 (i + 1) n = 0 \<longleftrightarrow> (\<forall>k. ?Q (i + 1) k)"
        by (rule "1.IH") (use True same in auto)
      moreover have "strncmp_from m s1 s2 i n = strncmp_from m s1 s2 (i + 1) n"
        using True same by (auto simp: strncmp_from.simps [of m s1 s2 i n])
      ultimately show ?thesis by simp
    qed
  qed
qed

lemma strncpy_copy_spec:
  assumes "strncpy_copy m d s i n = (k, m')"
    and "i \<le> n" and "\<And>x y. x < n \<Longrightarrow> y < n \<Longrightarrow> d + x \<noteq> s + y"
  shows "i \<le> k \<and> k \<le> n \<and> (\<forall>j. i \<le> j \<and> j < k \<longrightarrow> m (s + j) \<noteq> 0)
    \<and> (k < n \<longrightarrow> m (s + k) = 0)
    \<and> (\<forall>a. m' a = (if i \<le> a - d \<and> a - d < k then m (s + (a - d)) else m a))"
  using assms
proof (induction m d s i n rule: strncpy_copy.induct)
  case (1 m d s i n)
  show ?case
  proof (cases "i < n \<and> m (s + i) \<noteq> 0")
    case False
    with "1.prems" show ?thesis by (auto simp: strncpy_copy.simps [of m d s i n] split: if_splits)
  next
    case True
    then have i: "i < n" by simp
    let ?m = "m(d + i := m (s + i))"
    have src: "?m (s + j) = m (s + j)" if "j < n" for j
      using "1.prems"(3) [OF i that] by auto
    have "strncpy_copy ?m d s (i + 1) n = (k, m')"
      using "1.prems"(1) True by (simp add: strncpy_copy.simps [of m d s i n])
    then have IH: "i + 1 \<le> k \<and> k \<le> n \<and> (\<forall>j. i + 1 \<le> j \<and> j < k \<longrightarrow> ?m (s + j) \<noteq> 0)
      \<and> (k < n \<longrightarrow> ?m (s + k) = 0)
      \<and> (\<forall>a. m' a = (if i + 1 \<le> a - d \<and> a - d < k then ?m (s + (a - d)) else ?m a))"
      using "1.IH" [OF True] "1.prems"(3) inc_le [OF i] by blast
    have ik: "i < k" using IH i unat_plus1 [OF i] by (auto simp: word_le_nat_alt word_less_nat_alt)
    have "m (s + j) \<noteq> 0" if "i \<le> j" "j < k" for j
    proof (cases "j = i")
      case False
      then have "i + 1 \<le> j" using word_Suc_range [OF ik, of j] that by blast
      then have "?m (s + j) \<noteq> 0" using IH that by blast
      moreover have "j < n" using that IH order_less_le_trans by blast
      ultimately show ?thesis using src by metis
    qed (use True in simp)
    moreover have "m' a = (if i \<le> a - d \<and> a - d < k then m (s + (a - d)) else m a)" for a
    proof (cases "a - d = i")
      case True
      then have "a = d + i" by (metis add.commute diff_add_cancel)
      moreover have "\<not> (i + 1 \<le> i \<and> i < k)"
        using unat_plus1 [OF ik] by (simp add: word_le_nat_alt)
      ultimately show ?thesis using IH ik True by auto
    next
      case False
      then have "a \<noteq> d + i" by auto
      moreover have "?m (s + (a - d)) = m (s + (a - d))" if "a - d < k"
        using src [of "a - d"] that IH order_less_le_trans by blast
      ultimately show ?thesis using word_Suc_range [OF ik, of "a - d"] IH False by auto
    qed
    ultimately show ?thesis using IH ik src [of k] by auto
  qed
qed

lemma strncpy_apply:
  assumes "\<And>x y. x < n \<Longrightarrow> y < n \<Longrightarrow> d + x \<noteq> s + y"
  shows "strncpy m d s n a =
    (if a - d < n then (if \<exists>j \<le> a - d. m (s + j) = 0 then 0 else m (s + (a - d))) else m a)"
proof -
  obtain k m' where c: "strncpy_copy m d s 0 n = (k, m')" by fastforce
  have spec: "k \<le> n" "\<And>j. j < k \<Longrightarrow> m (s + j) \<noteq> 0" "k < n \<Longrightarrow> m (s + k) = 0"
    "\<And>a. m' a = (if a - d < k then m (s + (a - d)) else m a)"
    using strncpy_copy_spec [OF c _ assms] by auto
  have "(\<exists>j \<le> a - d. m (s + j) = 0) \<longleftrightarrow> k \<le> a - d" if "a - d < n"
  proof
    assume "\<exists>j \<le> a - d. m (s + j) = 0"
    then obtain j where "j \<le> a - d" "m (s + j) = 0" by blast
    with spec(2) [of j] show "k \<le> a - d" by fastforce
  next
    assume "k \<le> a - d"
    with that spec(3) show "\<exists>j \<le> a - d. m (s + j) = 0" by (blast intro: order_le_less_trans)
  qed
  then show ?thesis using spec(1,4)
    by (auto simp: strncpy_def c memset_from_apply dest: order_less_le_trans)
qed

lemma strncmp_0:
  "strncmp m s1 s2 n = 0 \<longleftrightarrow>
     (\<forall>k < n. (\<forall>j < k. m (s1 + j) \<noteq> 0) \<longrightarrow> m (s1 + k) = m (s2 + k))"
  by (auto simp: strncmp_def strncmp_from_0)

lemma strlen_from_Some:
  "i \<le> k \<Longrightarrow> m (s + k) = 0 \<Longrightarrow> (\<And>j. i \<le> j \<Longrightarrow> j < k \<Longrightarrow> m (s + j) \<noteq> 0)
    \<Longrightarrow> strlen_from m s i = Some k"
proof (induction "unat k - unat i" arbitrary: i rule: less_induct)
  case less
  show ?case
  proof (cases "i = k")
    case True
    then show ?thesis using less.prems by (simp add: strlen_from.simps)
  next
    case False
    then have ik: "i < k" using less.prems(1) by simp
    have "strlen_from m s (i + 1) = Some k"
    proof (rule less.hyps)
      show "unat k - unat (i + 1) < unat k - unat i"
        using unat_plus1 [OF ik] ik by (simp add: word_less_nat_alt)
      show "i + 1 \<le> k" using ik by (rule inc_le)
      show "m (s + j) \<noteq> 0" if "i + 1 \<le> j" "j < k" for j
        using word_Suc_range [OF ik, of j] that less.prems(3) by blast
    qed (use less.prems in simp)
    then show ?thesis using less.prems(3) [of i] ik by (simp add: strlen_from.simps)
  qed
qed

lemma strlen_from_Some_0:
  assumes ret: "strlen_from m s i = Some k"
  shows "m (s + k) = 0"
  by (rule strlen_from.raw_induct [where P = "\<lambda>m s i k. m (s + k) = 0", OF _ ret])
    (auto split: if_splits)

section \<open>Properties\<close>

text \<open>
  C23. \<^verbatim>\<open>memmove\<close> copies \<open>n\<close> bytes from \<open>s\<close> to \<open>d\<close> whatever the overlap of the two
  regions: afterwards byte \<open>i\<close> of the destination is what byte \<open>i\<close> of the source was
  before, and every byte outside the destination is unchanged. Neither region
  wraps around the address space.
\<close>

theorem memmove_correct:
  assumes "unat s + unat n \<le> 2 ^ 64" and "unat d + unat n \<le> 2 ^ 64"
  shows "(\<forall>i < n. memmove m d s n (d + i) = m (s + i)) \<and>
    (\<forall>a. \<not> a - d < n \<longrightarrow> memmove m d s n a = m a)"
  using memmove_moved [OF assms] by (auto simp: moved_def word_less_nat_alt)

theorem memmove_correct_witness:
  "memmove (\<lambda>a. ucast a) 101 100 3 (101 + 2) = ucast (100 + 2 :: u64) \<and>
   memmove (\<lambda>a. ucast a) 101 100 3 104 = 104"
proof -
  let ?m = "\<lambda>a :: u64. ucast a :: u8"
  have "unat (100 :: u64) + unat (3 :: u64) \<le> 2 ^ 64" "unat (101 :: u64) + unat (3 :: u64) \<le> 2 ^ 64"
    by simp_all
  note c = memmove_correct [OF this, of ?m]
  have "(2 :: u64) < 3" "\<not> 104 - 101 < (3 :: u64)" by simp_all
  then have "memmove ?m 101 100 3 (101 + 2) = ?m (100 + 2)" "memmove ?m 101 100 3 104 = ?m 104"
    using c by blast+
  then show ?thesis by simp
qed

text \<open>
  C34. A name stored with \<^verbatim>\<open>strncpy(dest, src, n)\<close> compares equal under
  \<^verbatim>\<open>strncmp(dest, other, n)\<close> with exactly the strings that the original compared
  equal with, when \<open>dest\<close> overlaps neither string. Directory entries rely on this:
  \<^verbatim>\<open>inode_insert\<close> stores a name with the one, \<^verbatim>\<open>inode_lookup\<close> searches with the other.
\<close>

theorem strncpy_strncmp:
  assumes "\<And>x y. x < n \<Longrightarrow> y < n \<Longrightarrow> dest + x \<noteq> src + y"
    and "\<And>x y. x < n \<Longrightarrow> y < n \<Longrightarrow> dest + x \<noteq> other + y"
  shows "strncmp (strncpy m dest src n) dest other n = 0 \<longleftrightarrow> strncmp m src other n = 0"
proof -
  let ?m = "strncpy m dest src n"
  have d: "?m (dest + k) = (if \<exists>j \<le> k. m (src + j) = 0 then 0 else m (src + k))" if "k < n" for k
    using strncpy_apply [OF assms(1), of n m "dest + k"] that by simp
  have o: "?m (other + k) = m (other + k)" if "k < n" for k
  proof -
    have "\<not> other + k - dest < n" using assms(2) [of "other + k - dest" k] that by auto
    then show ?thesis using strncpy_apply [OF assms(1)] by auto
  qed
  have "(\<forall>j < k. ?m (dest + j) \<noteq> 0) \<longleftrightarrow> (\<forall>j < k. m (src + j) \<noteq> 0)" if "k < n" for k
  proof
    assume l: "\<forall>j < k. ?m (dest + j) \<noteq> 0"
    have "m (src + j) \<noteq> 0" if "j < k" for j
      using l d [of j] that \<open>k < n\<close> by (metis order.refl order.strict_trans)
    then show "\<forall>j < k. m (src + j) \<noteq> 0" by blast
  next
    assume r: "\<forall>j < k. m (src + j) \<noteq> 0"
    have "?m (dest + j) \<noteq> 0" if "j < k" for j
    proof -
      have "j < n" using that \<open>k < n\<close> by (rule order.strict_trans)
      moreover have "\<not> (\<exists>i \<le> j. m (src + i) = 0)" using r that by (blast intro: order_le_less_trans)
      ultimately show ?thesis using d [of j] r that by simp
    qed
    then show "\<forall>j < k. ?m (dest + j) \<noteq> 0" by blast
  qed
  moreover have "?m (dest + k) = m (src + k)" if "k < n" "\<forall>j < k. m (src + j) \<noteq> 0" for k
    using d [OF that(1)] that(2) by (auto simp: order_le_less)
  ultimately show ?thesis using o by (auto simp: strncmp_0)
qed

theorem strncpy_strncmp_witness:
  "strncmp (strncpy (\<lambda>a. if a = 0 then 97 else 0) 200 0 14) 200 0 14 = 0"
proof -
  have "200 + x \<noteq> (0 :: u64) + y" if "x < 14" "y < 14" for x y
  proof -
    have "unat (200 + x) = 200 + unat x" using that(1) by (simp add: unat_plus_if' word_less_nat_alt)
    with that(2) show ?thesis by (auto simp: word_less_nat_alt)
  qed
  from strncpy_strncmp [OF this this] show ?thesis
    by (simp add: strncmp_0)
qed

end
