(* ===== verification/Locks.thy ===== *)
theory Locks
  imports Prelude
begin

text \<open>
  Spinlocks (\<^verbatim>\<open>src/common/spinlock.c\<close>) and reference counts
  (\<^verbatim>\<open>src/common/rc.c\<close>). The spinlock operations are given twice. As functions on
  one lock they are what sequential kernel code calls: acquiring a lock that is
  held spins for ever (\<^term>\<open>Blocked\<close>). As a step relation every access to shared
  memory is one step and any number of CPUs interleave, which is where mutual
  exclusion is proved.
\<close>

section \<open>The lock and its operations\<close>

record SpinLock =
  locked :: bool
  cpu :: "nat option"
  lock_name :: string

definition init_spinlock :: "string \<Rightarrow> SpinLock" where
  "init_spinlock name = \<lparr>locked = False, cpu = None, lock_name = name\<rparr>"

definition try_acquire_spinlock :: "nat \<Rightarrow> SpinLock \<Rightarrow> bool \<times> SpinLock" where
  "try_acquire_spinlock me l =
     (if \<not> locked l then (True, l\<lparr>locked := True, cpu := Some me\<rparr>) else (False, l))"

definition holding_spinlock :: "SpinLock \<Rightarrow> bool" where
  "holding_spinlock l = locked l"

definition acquire_spinlock :: "nat \<Rightarrow> SpinLock \<Rightarrow> fault + SpinLock" where
  "acquire_spinlock me l =
     (case try_acquire_spinlock me l of
        (True, l') \<Rightarrow> Inr l'
      | (False, _) \<Rightarrow> Inl Blocked)"

definition release_spinlock :: "SpinLock \<Rightarrow> fault + SpinLock" where
  "release_spinlock l =
     (if \<not> holding_spinlock l then Inl (Panic ''release: lock not held'')
      else Inr (l\<lparr>cpu := None, locked := False\<rparr>))"

definition wait_spinlock :: "nat \<Rightarrow> SpinLock \<Rightarrow> fault + SpinLock" where
  "wait_spinlock me l =
     (case acquire_spinlock me l of
        Inl e \<Rightarrow> Inl e
      | Inr l' \<Rightarrow> release_spinlock l')"

lemmas spinlock_defs =
  init_spinlock_def try_acquire_spinlock_def holding_spinlock_def acquire_spinlock_def
  release_spinlock_def wait_spinlock_def

section \<open>Interleaved execution\<close>

text \<open>
  Where a CPU is inside the lock code. \<open>Idle\<close> is outside of it; \<open>Load\<close>, \<open>TestSet\<close> and
  \<open>SetCpu\<close> are the plain load, the atomic exchange and the store of
  \<^verbatim>\<open>try_acquire_spinlock\<close>; \<open>Critical\<close> is the caller's critical section;
  \<open>Check\<close>, \<open>ClearCpu\<close> and \<open>Clear\<close> are the load in \<^verbatim>\<open>holding_spinlock\<close> and the two
  stores of \<^verbatim>\<open>release_spinlock\<close>; \<open>Panicked\<close> is its PANIC.
\<close>

datatype spin_pc = Idle | Load | TestSet | SetCpu | Critical | Check | ClearCpu | Clear | Panicked

record spin_state =
  slock :: SpinLock
  spc :: "nat \<Rightarrow> spin_pc"

definition goto :: "nat \<Rightarrow> spin_pc \<Rightarrow> spin_state \<Rightarrow> spin_state" where
  "goto c q s = s\<lparr>spc := (spc s)(c := q)\<rparr>"

text \<open>One step of a CPU inside \<^verbatim>\<open>acquire_spinlock\<close>: the loop retries from the load.\<close>

inductive acquire_step :: "nat \<Rightarrow> spin_state \<Rightarrow> spin_state \<Rightarrow> bool" for c where
  acq_call: "spc s c = Idle \<Longrightarrow> acquire_step c s (goto c Load s)"
| acq_load_busy: "spc s c = Load \<Longrightarrow> locked (slock s) \<Longrightarrow> acquire_step c s (goto c Load s)"
| acq_load_free: "spc s c = Load \<Longrightarrow> \<not> locked (slock s) \<Longrightarrow> acquire_step c s (goto c TestSet s)"
| acq_tas_lost: "spc s c = TestSet \<Longrightarrow> locked (slock s) \<Longrightarrow> acquire_step c s (goto c Load s)"
| acq_tas_won: "spc s c = TestSet \<Longrightarrow> \<not> locked (slock s) \<Longrightarrow>
    acquire_step c s (goto c SetCpu (s\<lparr>slock := (slock s)\<lparr>locked := True\<rparr>\<rparr>))"
| acq_cpu: "spc s c = SetCpu \<Longrightarrow>
    acquire_step c s (goto c Critical (s\<lparr>slock := (slock s)\<lparr>cpu := Some c\<rparr>\<rparr>))"

inductive release_step :: "nat \<Rightarrow> spin_state \<Rightarrow> spin_state \<Rightarrow> bool" for c where
  rel_call: "spc s c = Critical \<Longrightarrow> release_step c s (goto c Check s)"
| rel_panic: "spc s c = Check \<Longrightarrow> \<not> holding_spinlock (slock s) \<Longrightarrow>
    release_step c s (goto c Panicked s)"
| rel_check: "spc s c = Check \<Longrightarrow> holding_spinlock (slock s) \<Longrightarrow>
    release_step c s (goto c ClearCpu s)"
| rel_cpu: "spc s c = ClearCpu \<Longrightarrow>
    release_step c s (goto c Clear (s\<lparr>slock := (slock s)\<lparr>cpu := None\<rparr>\<rparr>))"
| rel_clear: "spc s c = Clear \<Longrightarrow>
    release_step c s (goto c Idle (s\<lparr>slock := (slock s)\<lparr>locked := False\<rparr>\<rparr>))"

definition spin_init :: "string \<Rightarrow> spin_state" where
  "spin_init name = \<lparr>slock = init_spinlock name, spc = (\<lambda>_. Idle)\<rparr>"

inductive spin_reach :: "string \<Rightarrow> spin_state \<Rightarrow> bool" for name where
  spin_start: "spin_reach name (spin_init name)"
| spin_acquire: "spin_reach name s \<Longrightarrow> acquire_step c s s' \<Longrightarrow> spin_reach name s'"
| spin_release: "spin_reach name s \<Longrightarrow> release_step c s s' \<Longrightarrow> spin_reach name s'"

definition inside :: "spin_pc \<Rightarrow> bool" where
  "inside q \<longleftrightarrow> q \<in> {SetCpu, Critical, Check, ClearCpu, Clear}"

text \<open>
  The invariant: the lock word is set exactly while some CPU is between winning the
  exchange and clearing it, at most one CPU is, and \<^verbatim>\<open>cpu\<close> names it in its critical section.
\<close>

definition spin_inv_at :: "nat \<Rightarrow> spin_state \<Rightarrow> bool" where
  "spin_inv_at h s \<longleftrightarrow>
     (\<forall>c. (inside (spc s c) \<longleftrightarrow> locked (slock s) \<and> c = h) \<and> spc s c \<noteq> Panicked) \<and>
     (spc s h \<in> {Critical, Check, ClearCpu} \<longrightarrow> cpu (slock s) = Some h)"

definition spin_inv :: "spin_state \<Rightarrow> bool" where
  "spin_inv s \<longleftrightarrow> (\<exists>h. spin_inv_at h s)"

inductive_cases acquire_stepE: "acquire_step c s s'"
inductive_cases release_stepE: "release_step c s s'"

lemma inside_simps [simp]:
  "inside SetCpu" "inside Critical" "inside Check" "inside ClearCpu" "inside Clear"
  "\<not> inside Idle" "\<not> inside Load" "\<not> inside TestSet" "\<not> inside Panicked"
  by (simp_all add: inside_def)

lemma spin_inv_acquire:
  assumes "acquire_step c s s'" and inv: "spin_inv_at h s"
  shows "spin_inv_at (if spc s c = TestSet \<and> \<not> locked (slock s) then c else h) s'"
proof -
  have "inside (spc s c) \<longleftrightarrow> locked (slock s) \<and> c = h" using inv by (simp add: spin_inv_at_def)
  with inv show ?thesis
    by (cases rule: acquire_stepE [OF assms(1)]) (auto simp: spin_inv_at_def goto_def)
qed

lemma spin_inv_release:
  assumes "release_step c s s'" and inv: "spin_inv_at h s"
  shows "spin_inv_at h s'"
proof -
  have "inside (spc s c) \<longleftrightarrow> locked (slock s) \<and> c = h" using inv by (simp add: spin_inv_at_def)
  with inv show ?thesis
    by (cases rule: release_stepE [OF assms(1)])
      (auto simp: spin_inv_at_def goto_def holding_spinlock_def)
qed

lemma spin_inv_reach: "spin_reach name s \<Longrightarrow> spin_inv s"
  unfolding spin_inv_def
proof (induction rule: spin_reach.induct)
  case spin_start
  show ?case by (simp add: spin_inv_at_def spin_init_def spinlock_defs)
qed (blast intro: spin_inv_acquire spin_inv_release)+

section \<open>Reference counts\<close>

record RefCount =
  count :: u64

definition init_rc :: RefCount where
  "init_rc = \<lparr>count = 0\<rparr>"

definition increment_rc :: "RefCount \<Rightarrow> RefCount" where
  "increment_rc rc = rc\<lparr>count := count rc + 1\<rparr>"

definition decrement_rc :: "RefCount \<Rightarrow> bool \<times> RefCount" where
  "decrement_rc rc = (let n = count rc - 1 in (sint n \<le> 0, rc\<lparr>count := n\<rparr>))"

lemma increment_rc_iter: "count ((increment_rc ^^ n) rc) = count rc + of_nat n"
  by (induction n) (simp_all add: increment_rc_def)

lemma decrement_rc_iter: "count (((snd \<circ> decrement_rc) ^^ n) rc) = count rc - of_nat n"
  by (induction n) (simp_all add: decrement_rc_def Let_def)

lemma sint_of_nat_small: "n < 2 ^ 63 \<Longrightarrow> sint (of_nat n :: u64) = int n"
  by (simp add: signed_of_nat signed_take_bit_int_eq_self)

section \<open>Claims\<close>

text \<open>
  C13. In every interleaving of CPUs that acquire and release a spinlock, at most one CPU
  is between winning the atomic exchange and clearing the lock word, no release panics, and
  a CPU in its critical section finds the lock word set and its own number in \<^verbatim>\<open>cpu\<close>.
\<close>

theorem spin_mutual_exclusion:
  assumes "spin_reach name s"
  shows "(\<forall>c d. inside (spc s c) \<longrightarrow> inside (spc s d) \<longrightarrow> c = d) \<and>
         (\<forall>c. spc s c \<noteq> Panicked \<and>
              (spc s c = Critical \<longrightarrow> locked (slock s) \<and> cpu (slock s) = Some c))"
proof -
  obtain h where h: "spin_inv_at h s" using spin_inv_reach [OF assms] by (auto simp: spin_inv_def)
  have "locked (slock s) \<and> cpu (slock s) = Some c" if "spc s c = Critical" for c
  proof -
    have "inside (spc s c)" by (simp add: that)
    then have "locked (slock s)" "c = h" using h by (simp_all add: spin_inv_at_def)
    then show ?thesis using h that by (simp add: spin_inv_at_def)
  qed
  then show ?thesis using h by (simp add: spin_inv_at_def)
qed

text \<open>Two CPUs race to the exchange and the first one wins it.\<close>

definition spin_race :: spin_state where
  "spin_race =
     (let s = goto 1 TestSet (goto 1 Load (goto 0 TestSet (goto 0 Load (spin_init ''l'')))) in
      goto 0 SetCpu (s\<lparr>slock := (slock s)\<lparr>locked := True\<rparr>\<rparr>))"

lemma spin_race_reach: "spin_reach ''l'' spin_race"
proof -
  have 1: "spin_reach ''l'' (goto 0 Load (spin_init ''l''))"
    by (rule spin_acquire [OF spin_start acq_call]) (simp add: spin_init_def)
  have 2: "spin_reach ''l'' (goto 0 TestSet (goto 0 Load (spin_init ''l'')))"
    by (rule spin_acquire [OF 1 acq_load_free]) (simp_all add: goto_def spin_init_def init_spinlock_def)
  have 3: "spin_reach ''l'' (goto 1 Load (goto 0 TestSet (goto 0 Load (spin_init ''l''))))"
    by (rule spin_acquire [OF 2 acq_call]) (simp add: goto_def spin_init_def)
  have 4: "spin_reach ''l'' (goto 1 TestSet (goto 1 Load (goto 0 TestSet (goto 0 Load (spin_init ''l'')))))"
    by (rule spin_acquire [OF 3 acq_load_free]) (simp_all add: goto_def spin_init_def init_spinlock_def)
  show ?thesis unfolding spin_race_def Let_def
    by (rule spin_acquire [OF 4 acq_tas_won]) (simp_all add: goto_def spin_init_def init_spinlock_def)
qed

theorem spin_mutual_exclusion_witness:
  "spin_reach ''l'' spin_race \<and> inside (spc spin_race 0) \<and> spc spin_race 1 = TestSet \<and>
   \<not> inside (spc spin_race 1) \<and> spc spin_race 1 \<noteq> Panicked"
proof -
  have "inside (spc spin_race 0)" "spc spin_race 1 = TestSet"
    by (simp_all add: spin_race_def Let_def goto_def)
  then show ?thesis using spin_mutual_exclusion [OF spin_race_reach] spin_race_reach by (metis zero_neq_one)
qed

text \<open>
  A reference count set to zero and incremented \<open>n\<close> times reports the last reference on
  exactly the \<open>n\<close>-th decrement: the first \<open>k\<close> decrements with \<open>k < n\<close> leave the count
  positive and answer false, and the \<open>n\<close>-th answers true (for every \<open>n\<close> that fits in \<^verbatim>\<open>isize\<close>).
\<close>

theorem rc_last_reference:
  assumes "n < 2 ^ 63" and "k < n"
  shows "fst (decrement_rc (((snd \<circ> decrement_rc) ^^ k) ((increment_rc ^^ n) init_rc)))
           \<longleftrightarrow> Suc k = n"
proof -
  have "of_nat n - of_nat k - (1 :: u64) = of_nat (n - Suc k)"
    using assms(2) by (simp add: of_nat_diff)
  moreover have "sint (of_nat (n - Suc k) :: u64) = int (n - Suc k)"
    using assms by (intro sint_of_nat_small) linarith
  ultimately show ?thesis
    using assms(2)
    by (auto simp: decrement_rc_def Let_def decrement_rc_iter increment_rc_iter init_rc_def
        simp del: of_nat_diff)
qed

theorem rc_last_reference_witness:
  "fst (decrement_rc (((snd \<circ> decrement_rc) ^^ 2) ((increment_rc ^^ 3) init_rc))) \<and>
   \<not> fst (decrement_rc (((snd \<circ> decrement_rc) ^^ 1) ((increment_rc ^^ 3) init_rc)))"
  using rc_last_reference [of 3 2] rc_last_reference [of 3 1] by simp

end
