(* ===== verification/SleepLock.thy ===== *)
theory SleepLock
  imports Locks
begin

text \<open>
  Sleeplocks (\<^verbatim>\<open>src/core/sleeplock.c\<close>) over the \<^verbatim>\<open>sleep\<close> and \<^verbatim>\<open>wakeup\<close> of
  \<^verbatim>\<open>src/core/proc.c\<close> and the hand-over to the scheduler in \<^verbatim>\<open>src/core/sched.c\<close>.
  Any number of processes of one process table use one sleeplock; each access to the
  lock's spinlock, to the process-table lock or to a field they protect is one step, and
  the steps of different processes interleave freely. The spinlocks are taken as
  their mutual-exclusion theorem describes them: a lock has at most one holder.
\<close>

section \<open>State\<close>

datatype procstate = UNUSED | EMBRYO | SLEEPING | RUNNABLE | RUNNING | ZOMBIE

text \<open>
  Program points. \<open>A_\<close> is \<^verbatim>\<open>acquire_sleeplock\<close>: take the spinlock, test \<^verbatim>\<open>locked\<close>, set it,
  release the spinlock. \<open>Held\<close> is the caller's section. \<open>R_\<close> is \<^verbatim>\<open>release_sleeplock\<close>: take the
  spinlock, clear \<^verbatim>\<open>locked\<close>, release it. \<open>S_\<close> is \<^verbatim>\<open>sleep\<close>: take the table lock, release the
  spinlock, mark the process, enter \<^verbatim>\<open>sched\<close>, be off the CPU, come back and clear \<^verbatim>\<open>chan\<close>,
  release the table lock, take the spinlock again. \<open>W_\<close> is \<^verbatim>\<open>wakeup\<close>: take the table
  lock, scan, release it.
\<close>

datatype sl_pc =
    Out | A_Spin | A_Test | A_Set | A_Rel | Held | R_Spin | R_Clear | R_Rel
  | S_Pt | S_Rel | S_Mark | S_Sched | S_Off | S_Unmark | S_PtRel | S_Spin
  | W_Pt | W_Scan | W_PtRel | Sched_Panic

record sl_state =
  inner :: "nat option"
  ptlock :: "nat option"
  slocked :: bool
  pstate :: "nat \<Rightarrow> procstate"
  on_chan :: "nat \<Rightarrow> bool"
  pat :: "nat \<Rightarrow> sl_pc"

definition jump :: "nat \<Rightarrow> sl_pc \<Rightarrow> sl_state \<Rightarrow> sl_state" where
  "jump p q s = s\<lparr>pat := (pat s)(p := q)\<rparr>"

section \<open>Steps\<close>

inductive acquire_sleeplock_step :: "nat \<Rightarrow> sl_state \<Rightarrow> sl_state \<Rightarrow> bool" for p where
  a_call: "pat s p = Out \<Longrightarrow> acquire_sleeplock_step p s (jump p A_Spin s)"
| a_spin: "pat s p = A_Spin \<Longrightarrow> inner s = None \<Longrightarrow>
    acquire_sleeplock_step p s (jump p A_Test (s\<lparr>inner := Some p\<rparr>))"
| a_sleep: "pat s p = A_Test \<Longrightarrow> slocked s \<Longrightarrow> acquire_sleeplock_step p s (jump p S_Pt s)"
| a_exit: "pat s p = A_Test \<Longrightarrow> \<not> slocked s \<Longrightarrow> acquire_sleeplock_step p s (jump p A_Set s)"
| a_set: "pat s p = A_Set \<Longrightarrow> acquire_sleeplock_step p s (jump p A_Rel (s\<lparr>slocked := True\<rparr>))"
| a_rel: "pat s p = A_Rel \<Longrightarrow> acquire_sleeplock_step p s (jump p Held (s\<lparr>inner := None\<rparr>))"

inductive release_sleeplock_step :: "nat \<Rightarrow> sl_state \<Rightarrow> sl_state \<Rightarrow> bool" for p where
  r_call: "pat s p = Held \<Longrightarrow> release_sleeplock_step p s (jump p R_Spin s)"
| r_spin: "pat s p = R_Spin \<Longrightarrow> inner s = None \<Longrightarrow>
    release_sleeplock_step p s (jump p R_Clear (s\<lparr>inner := Some p\<rparr>))"
| r_clear: "pat s p = R_Clear \<Longrightarrow>
    release_sleeplock_step p s (jump p R_Rel (s\<lparr>slocked := False\<rparr>))"
| r_rel: "pat s p = R_Rel \<Longrightarrow>
    release_sleeplock_step p s (jump p W_Pt (s\<lparr>inner := None\<rparr>))"

text \<open>\<^verbatim>\<open>sleep(lock, &lock->lock)\<close> up to and after the call of \<^verbatim>\<open>sched\<close>; the caller's loop test is next.\<close>

inductive sleep_step :: "nat \<Rightarrow> sl_state \<Rightarrow> sl_state \<Rightarrow> bool" for p where
  s_pt: "pat s p = S_Pt \<Longrightarrow> ptlock s = None \<Longrightarrow> sleep_step p s (jump p S_Rel (s\<lparr>ptlock := Some p\<rparr>))"
| s_rel: "pat s p = S_Rel \<Longrightarrow> sleep_step p s (jump p S_Mark (s\<lparr>inner := None\<rparr>))"
| s_mark: "pat s p = S_Mark \<Longrightarrow> sleep_step p s (jump p S_Sched
      (s\<lparr>on_chan := (on_chan s)(p := True), pstate := (pstate s)(p := SLEEPING)\<rparr>))"
| s_unmark: "pat s p = S_Unmark \<Longrightarrow>
    sleep_step p s (jump p S_PtRel (s\<lparr>on_chan := (on_chan s)(p := False)\<rparr>))"
| s_ptrel: "pat s p = S_PtRel \<Longrightarrow> sleep_step p s (jump p S_Spin (s\<lparr>ptlock := None\<rparr>))"
| s_spin: "pat s p = S_Spin \<Longrightarrow> inner s = None \<Longrightarrow>
    sleep_step p s (jump p A_Test (s\<lparr>inner := Some p\<rparr>))"

inductive wakeup_step :: "nat \<Rightarrow> sl_state \<Rightarrow> sl_state \<Rightarrow> bool" for p where
  w_pt: "pat s p = W_Pt \<Longrightarrow> ptlock s = None \<Longrightarrow>
    wakeup_step p s (jump p W_Scan (s\<lparr>ptlock := Some p\<rparr>))"
| w_scan: "pat s p = W_Scan \<Longrightarrow> wakeup_step p s (jump p W_PtRel
      (s\<lparr>pstate := (\<lambda>q. if q \<noteq> p \<and> pstate s q = SLEEPING \<and> on_chan s q
                         then RUNNABLE else pstate s q)\<rparr>))"
| w_ptrel: "pat s p = W_PtRel \<Longrightarrow> wakeup_step p s (jump p Out (s\<lparr>ptlock := None\<rparr>))"

text \<open>
  \<^verbatim>\<open>sched_simple\<close> checks that the table lock is held and the process is not RUNNING and
  switches to the scheduler, which releases the table lock. The scheduler later takes the
  lock, picks a RUNNABLE process, marks it RUNNING and switches to it with the lock held.
\<close>

inductive sched_step :: "nat \<Rightarrow> sl_state \<Rightarrow> sl_state \<Rightarrow> bool" for p where
  c_panic: "pat s p = S_Sched \<Longrightarrow> ptlock s = None \<or> pstate s p = RUNNING \<Longrightarrow>
    sched_step p s (jump p Sched_Panic s)"
| c_off: "pat s p = S_Sched \<Longrightarrow> ptlock s \<noteq> None \<Longrightarrow> pstate s p \<noteq> RUNNING \<Longrightarrow>
    sched_step p s (jump p S_Off (s\<lparr>ptlock := None\<rparr>))"
| c_on: "pat s p = S_Off \<Longrightarrow> ptlock s = None \<Longrightarrow> pstate s p = RUNNABLE \<Longrightarrow>
    sched_step p s (jump p S_Unmark
      (s\<lparr>ptlock := Some p, pstate := (pstate s)(p := RUNNING)\<rparr>))"

definition sl_init :: sl_state where
  "sl_init = \<lparr>inner = None, ptlock = None, slocked = False, pstate = (\<lambda>_. RUNNING),
     on_chan = (\<lambda>_. False), pat = (\<lambda>_. Out)\<rparr>"

inductive sl_reach :: "sl_state \<Rightarrow> bool" where
  sl_start: "sl_reach sl_init"
| sl_acquire: "sl_reach s \<Longrightarrow> acquire_sleeplock_step p s s' \<Longrightarrow> sl_reach s'"
| sl_release: "sl_reach s \<Longrightarrow> release_sleeplock_step p s s' \<Longrightarrow> sl_reach s'"
| sl_sleep: "sl_reach s \<Longrightarrow> sleep_step p s s' \<Longrightarrow> sl_reach s'"
| sl_wakeup: "sl_reach s \<Longrightarrow> wakeup_step p s s' \<Longrightarrow> sl_reach s'"
| sl_sched: "sl_reach s \<Longrightarrow> sched_step p s s' \<Longrightarrow> sl_reach s'"

section \<open>The invariant\<close>

fun has_inner :: "sl_pc \<Rightarrow> bool" where
  "has_inner A_Test = True" | "has_inner A_Set = True" | "has_inner A_Rel = True"
| "has_inner R_Clear = True" | "has_inner R_Rel = True"
| "has_inner S_Pt = True" | "has_inner S_Rel = True"
| "has_inner _ = False"

fun has_pt :: "sl_pc \<Rightarrow> bool" where
  "has_pt S_Rel = True" | "has_pt S_Mark = True" | "has_pt S_Sched = True"
| "has_pt S_Unmark = True" | "has_pt S_PtRel = True" | "has_pt W_Scan = True"
| "has_pt W_PtRel = True"
| "has_pt _ = False"

fun owns :: "sl_pc \<Rightarrow> bool" where
  "owns A_Rel = True" | "owns Held = True" | "owns R_Spin = True" | "owns R_Clear = True"
| "owns _ = False"

fun state_ok :: "sl_pc \<Rightarrow> procstate \<Rightarrow> bool \<Rightarrow> bool" where
  "state_ok S_Sched st ch = (st = SLEEPING \<and> ch)"
| "state_ok S_Off st ch = ((st = SLEEPING \<or> st = RUNNABLE) \<and> ch)"
| "state_ok S_Unmark st ch = (st = RUNNING)"
| "state_ok Sched_Panic st ch = False"
| "state_ok _ st ch = (st = RUNNING \<and> \<not> ch)"

fun test_ok :: "sl_pc \<Rightarrow> bool \<Rightarrow> bool" where
  "test_ok A_Set b = (\<not> b)" | "test_ok S_Pt b = b" | "test_ok S_Rel b = b"
| "test_ok _ b = True"

text \<open>
  What the program point of process \<open>p\<close> says of the two locks, of \<^verbatim>\<open>locked\<close> and of its own
  entry in the process table, with \<open>h\<close> the owner of the sleeplock.
\<close>

definition proc_ok ::
  "nat \<Rightarrow> nat \<Rightarrow> nat option \<Rightarrow> nat option \<Rightarrow> bool \<Rightarrow> sl_pc \<Rightarrow> procstate \<Rightarrow> bool \<Rightarrow> bool" where
  "proc_ok h p inn pt sl q st ch \<longleftrightarrow>
     (has_inner q \<longleftrightarrow> inn = Some p) \<and> (has_pt q \<longleftrightarrow> pt = Some p) \<and>
     (owns q \<longleftrightarrow> sl \<and> p = h) \<and> state_ok q st ch \<and> test_ok q sl"

definition sl_locks :: "nat \<Rightarrow> sl_state \<Rightarrow> bool" where
  "sl_locks h s \<longleftrightarrow>
     (\<forall>p. proc_ok h p (inner s) (ptlock s) (slocked s) (pat s p) (pstate s p) (on_chan s p))"

text \<open>
  No wakeup is lost: whoever is asleep on the lock, or is on the way to it behind the table lock,
  has an owner ahead of it or a releaser that has yet to scan the table.
\<close>

definition waker :: "sl_state \<Rightarrow> bool" where
  "waker s \<longleftrightarrow> slocked s \<or> (\<exists>q. pat s q = R_Rel \<or> pat s q = W_Pt)"

definition sl_wake :: "sl_state \<Rightarrow> bool" where
  "sl_wake s \<longleftrightarrow> (\<forall>p.
     (pat s p = S_Mark \<or> pat s p = S_Sched \<longrightarrow> waker s) \<and>
     (pat s p = S_Off \<and> pstate s p = SLEEPING \<longrightarrow> waker s \<or> (\<exists>q. pat s q = W_Scan)))"


inductive_cases acquire_sleeplock_stepE: "acquire_sleeplock_step p s s'"
inductive_cases release_sleeplock_stepE: "release_sleeplock_step p s s'"
inductive_cases sleep_stepE: "sleep_step p s s'"
inductive_cases wakeup_stepE: "wakeup_step p s s'"
inductive_cases sched_stepE: "sched_step p s s'"

lemma test_ok_outside: "\<not> has_inner q \<Longrightarrow> test_ok q b"
  by (cases q) simp_all

lemma state_ok_woken: "\<not> has_pt q \<Longrightarrow> state_ok q SLEEPING True \<Longrightarrow> state_ok q RUNNABLE True"
  by (cases q) simp_all

text \<open>To a process that is not the holder a lock held by another is as good as free.\<close>

lemma proc_ok_other [simp]:
  assumes "p \<noteq> c"
  shows "proc_ok h p (Some c) pt sl q st ch = proc_ok h p None pt sl q st ch"
    and "proc_ok h p inn (Some c) sl q st ch = proc_ok h p inn None sl q st ch"
  using assms by (auto simp: proc_ok_def)

lemma proc_ok_take: "p \<noteq> c \<Longrightarrow> proc_ok h p None pt False q st ch \<Longrightarrow> proc_ok c p None pt True q st ch"
  using test_ok_outside [of q] by (auto simp: proc_ok_def)

lemma proc_ok_give: "p \<noteq> h \<Longrightarrow> proc_ok h p None pt True q st ch \<Longrightarrow> proc_ok h p None pt False q st ch"
  using test_ok_outside [of q] by (auto simp: proc_ok_def)

lemma proc_ok_woken:
  "proc_ok h p inn None sl q SLEEPING True \<Longrightarrow> proc_ok h p inn None sl q RUNNABLE True"
  using state_ok_woken [of q] by (auto simp: proc_ok_def)

lemma sl_locks_step:
  assumes "sl_locks h s"
    and "proc_ok h' c (inner s') (ptlock s') (slocked s') (pat s' c) (pstate s' c) (on_chan s' c)"
    and "\<And>p. p \<noteq> c \<Longrightarrow>
      proc_ok h p (inner s) (ptlock s) (slocked s) (pat s p) (pstate s p) (on_chan s p) \<Longrightarrow>
      proc_ok h' p (inner s') (ptlock s') (slocked s') (pat s' p) (pstate s' p) (on_chan s' p)"
  shows "sl_locks h' s'"
  using assms unfolding sl_locks_def by metis

lemma sl_locksD:
  assumes "sl_locks h s"
  shows "has_inner (pat s p) \<longleftrightarrow> inner s = Some p" "has_pt (pat s p) \<longleftrightarrow> ptlock s = Some p"
    "owns (pat s p) \<longleftrightarrow> slocked s \<and> p = h"
    "state_ok (pat s p) (pstate s p) (on_chan s p)" "test_ok (pat s p) (slocked s)"
  using assms by (simp_all add: sl_locks_def proc_ok_def)

lemma acquire_locks:
  assumes "acquire_sleeplock_step c s s'" "sl_locks h s"
  shows "sl_locks (if pat s c = A_Set then c else h) s'"
  using sl_locksD [OF assms(2), of c]
  by (cases rule: acquire_sleeplock_stepE [OF assms(1)])
    (rule sl_locks_step [OF assms(2), of _ c], simp add: proc_ok_def jump_def,
      simp add: jump_def proc_ok_take)+

lemma release_locks:
  assumes "release_sleeplock_step c s s'" "sl_locks h s"
  shows "sl_locks h s'"
  using sl_locksD [OF assms(2), of c]
  by (cases rule: release_sleeplock_stepE [OF assms(1)])
    (rule sl_locks_step [OF assms(2), of _ c], simp add: proc_ok_def jump_def,
      simp add: jump_def proc_ok_give)+

lemma sleep_locks:
  assumes "sleep_step c s s'" "sl_locks h s"
  shows "sl_locks h s'"
  using sl_locksD [OF assms(2), of c]
  by (cases rule: sleep_stepE [OF assms(1)])
    (rule sl_locks_step [OF assms(2), of _ c], simp add: proc_ok_def jump_def,
      simp add: jump_def)+

lemma wakeup_locks:
  assumes "wakeup_step c s s'" "sl_locks h s"
  shows "sl_locks h s'"
  using sl_locksD [OF assms(2), of c]
  by (cases rule: wakeup_stepE [OF assms(1)])
    (rule sl_locks_step [OF assms(2), of _ c], simp add: proc_ok_def jump_def,
      auto simp: jump_def proc_ok_woken)+

lemma sched_locks:
  assumes "sched_step c s s'" "sl_locks h s"
  shows "sl_locks h s'"
  using sl_locksD [OF assms(2), of c]
  by (cases rule: sched_stepE [OF assms(1)])
    (rule sl_locks_step [OF assms(2), of _ c], simp add: proc_ok_def jump_def,
      simp add: jump_def)+

text \<open>
  A step outside \<^verbatim>\<open>wakeup\<close> keeps the waker, and only brings a process in front of the
  table lock or to sleep when there is one.
\<close>

lemma sl_wake_step:
  assumes wake: "sl_wake s"
    and sl: "slocked s \<Longrightarrow> slocked s' \<or> pat s' c = R_Rel"
    and rel: "pat s c = R_Rel \<or> pat s c = W_Pt \<Longrightarrow> pat s' c = R_Rel \<or> pat s' c = W_Pt"
    and scan: "pat s c \<noteq> W_Scan"
    and other: "\<And>p. p \<noteq> c \<Longrightarrow> pat s' p = pat s p \<and> pstate s' p = pstate s p"
    and here: "pat s' c = S_Mark \<or> pat s' c = S_Sched \<or> pat s' c = S_Off \<Longrightarrow> waker s"
  shows "sl_wake s'"
  unfolding sl_wake_def
proof
  fix p
  have waker: "waker s \<Longrightarrow> waker s'"
    using sl rel other unfolding waker_def by metis
  have scan': "pat s q = W_Scan \<Longrightarrow> pat s' q = W_Scan" for q
    using scan other by (cases "q = c") auto
  show "(pat s' p = S_Mark \<or> pat s' p = S_Sched \<longrightarrow> waker s') \<and>
      (pat s' p = S_Off \<and> pstate s' p = SLEEPING \<longrightarrow> waker s' \<or> (\<exists>q. pat s' q = W_Scan))"
    using wake waker scan' here other [of p] unfolding sl_wake_def by (cases "p = c") metis+
qed

lemma acquire_wake:
  assumes "acquire_sleeplock_step c s s'" "sl_wake s"
  shows "sl_wake s'"
  by (cases rule: acquire_sleeplock_stepE [OF assms(1)])
    (rule sl_wake_step [OF assms(2), of _ c]; auto simp: waker_def jump_def)+

lemma release_wake:
  assumes "release_sleeplock_step c s s'" "sl_wake s"
  shows "sl_wake s'"
  by (cases rule: release_sleeplock_stepE [OF assms(1)])
    (rule sl_wake_step [OF assms(2), of _ c]; auto simp: waker_def jump_def)+

lemma sleep_wake:
  assumes "sleep_step c s s'" "sl_wake s" "sl_locks h s"
  shows "sl_wake s'"
proof -
  have "pat s c = S_Rel \<Longrightarrow> waker s" using sl_locksD(5) [OF assms(3), of c] by (simp add: waker_def)
  moreover have "pat s c = S_Mark \<Longrightarrow> waker s" using assms(2) by (simp add: sl_wake_def)
  ultimately show ?thesis
    by (cases rule: sleep_stepE [OF assms(1)])
      (rule sl_wake_step [OF assms(2), of _ c]; auto simp: waker_def jump_def)+
qed

lemma sched_wake:
  assumes "sched_step c s s'" "sl_wake s"
  shows "sl_wake s'"
proof -
  have "pat s c = S_Sched \<Longrightarrow> waker s" using assms(2) by (simp add: sl_wake_def)
  then show ?thesis
    by (cases rule: sched_stepE [OF assms(1)])
      (rule sl_wake_step [OF assms(2), of _ c]; auto simp: waker_def jump_def)+
qed

lemma wakeup_wake:
  assumes "wakeup_step c s s'" "sl_wake s" "sl_locks h s"
  shows "sl_wake s'"
proof -
  have off: "pat s p \<noteq> S_Mark \<and> pat s p \<noteq> S_Sched" if "ptlock s = None \<or> ptlock s = Some c" "p \<noteq> c" for p
    using sl_locksD(2) [OF assms(3), of p] that by auto
  have awake: "on_chan s p" if "pat s p = S_Off" for p
    using sl_locksD(4) [OF assms(3), of p] that by simp
  have ptl: "pat s c = W_Scan \<Longrightarrow> ptlock s = Some c"
    using sl_locksD(2) [OF assms(3), of c] by simp
  from assms(1) show ?thesis
  proof (cases rule: wakeup_step.cases)
    case w_pt
    then have "pat s' c = W_Scan" "pat s' p \<noteq> S_Mark \<and> pat s' p \<noteq> S_Sched" for p
      using off by (auto simp: jump_def)
    then show ?thesis by (auto simp: sl_wake_def)
  next
    case w_scan
    then have "pat s' p \<noteq> S_Mark \<and> pat s' p \<noteq> S_Sched \<and> \<not> (pat s' p = S_Off \<and> pstate s' p = SLEEPING)" for p
      using off [of p] ptl awake [of p] by (auto simp: jump_def)
    then show ?thesis by (auto simp: sl_wake_def)
  next
    case w_ptrel
    then show ?thesis
      by (intro sl_wake_step [OF assms(2), of _ c]) (auto simp: waker_def jump_def)
  qed
qed

lemma sl_inv_reach: "sl_reach s \<Longrightarrow> \<exists>h. sl_locks h s \<and> sl_wake s"
proof (induction rule: sl_reach.induct)
  case sl_start
  show ?case by (simp add: sl_init_def sl_locks_def proc_ok_def sl_wake_def)
qed (blast intro: acquire_locks release_locks sleep_locks wakeup_locks sched_locks
    acquire_wake release_wake sleep_wake wakeup_wake sched_wake)+

section \<open>Claims\<close>

text \<open>
  C6. In every interleaving of processes that take and give up a sleeplock, at most one of
  them owns it, \<^verbatim>\<open>sched\<close> never panics, and no wakeup is lost: while a process
  sleeps on the lock there is an owner still to release it, or a releasing process that has yet to
  finish scanning the process table for sleepers.
\<close>

theorem sleeplock_no_lost_wakeup:
  assumes "sl_reach s"
  shows "(\<forall>p q. owns (pat s p) \<longrightarrow> owns (pat s q) \<longrightarrow> p = q) \<and>
         (\<forall>p. pat s p \<noteq> Sched_Panic) \<and>
         (\<forall>p. pstate s p = SLEEPING \<longrightarrow>
              (\<exists>q. owns (pat s q) \<or> pat s q \<in> {R_Rel, W_Pt, W_Scan}))"
proof -
  obtain h where l: "sl_locks h s" and w: "sl_wake s" using sl_inv_reach [OF assms] by blast
  note D = sl_locksD [OF l]
  have "waker s \<or> (\<exists>q. pat s q = W_Scan)" if "pstate s p = SLEEPING" for p
  proof -
    have "pat s p = S_Sched \<or> pat s p = S_Off"
      using D(4) [of p] that by (cases "pat s p") simp_all
    then show ?thesis using w that unfolding sl_wake_def by blast
  qed
  moreover have "slocked s \<Longrightarrow> owns (pat s h)" using D(3) [of h] by simp
  ultimately have "\<exists>q. owns (pat s q) \<or> pat s q \<in> {R_Rel, W_Pt, W_Scan}"
    if "pstate s p = SLEEPING" for p
    using that unfolding waker_def by blast
  moreover have "pat s p \<noteq> Sched_Panic" for p
    using D(4) [of p] by (cases "pat s p") simp_all
  moreover have "owns (pat s p) \<Longrightarrow> owns (pat s q) \<Longrightarrow> p = q" for p q
    using D(3) [of p] D(3) [of q] by simp
  ultimately show ?thesis by blast
qed

text \<open>Process 0 takes the lock; process 1 then goes to sleep on it.\<close>

definition sl_held :: sl_state where
  "sl_held = sl_init\<lparr>slocked := True, pat := (\<lambda>_. Out)(0 := Held)\<rparr>"

definition sl_asleep :: sl_state where
  "sl_asleep = sl_held\<lparr>pstate := (\<lambda>_. RUNNING)(1 := SLEEPING), on_chan := (\<lambda>_. False)(1 := True),
     pat := (\<lambda>_. Out)(0 := Held, 1 := S_Off)\<rparr>"

lemma sl_held_reach: "sl_reach sl_held"
proof -
  define s1 where "s1 = jump 0 A_Spin sl_init"
  define s2 where "s2 = jump 0 A_Test (s1\<lparr>inner := Some 0\<rparr>)"
  define s3 where "s3 = jump 0 A_Set s2"
  define s4 where "s4 = jump 0 A_Rel (s3\<lparr>slocked := True\<rparr>)"
  note defs = s1_def s2_def s3_def s4_def jump_def sl_init_def
  have "sl_reach s1" unfolding s1_def
    by (rule sl_acquire [OF sl_start a_call]) (simp add: defs)
  then have "sl_reach s2" unfolding s2_def
    by (rule sl_acquire [OF _ a_spin]) (simp_all add: defs)
  then have "sl_reach s3" unfolding s3_def
    by (rule sl_acquire [OF _ a_exit]) (simp_all add: defs)
  then have "sl_reach s4" unfolding s4_def
    by (rule sl_acquire [OF _ a_set]) (simp_all add: defs)
  then have "sl_reach (jump 0 Held (s4\<lparr>inner := None\<rparr>))"
    by (rule sl_acquire [OF _ a_rel]) (simp_all add: defs)
  then show ?thesis by (simp add: defs sl_held_def)
qed

lemma sl_asleep_reach: "sl_reach sl_asleep"
proof -
  define s1 where "s1 = jump 1 A_Spin sl_held"
  define s2 where "s2 = jump 1 A_Test (s1\<lparr>inner := Some 1\<rparr>)"
  define s3 where "s3 = jump 1 S_Pt s2"
  define s4 where "s4 = jump 1 S_Rel (s3\<lparr>ptlock := Some 1\<rparr>)"
  define s5 where "s5 = jump 1 S_Mark (s4\<lparr>inner := None\<rparr>)"
  define s6 where "s6 = jump 1 S_Sched
      (s5\<lparr>on_chan := (on_chan s5)(1 := True), pstate := (pstate s5)(1 := SLEEPING)\<rparr>)"
  note defs = s1_def s2_def s3_def s4_def s5_def s6_def jump_def sl_init_def sl_held_def
  have "sl_reach s1" unfolding s1_def
    by (rule sl_acquire [OF sl_held_reach a_call]) (simp add: defs)
  then have "sl_reach s2" unfolding s2_def
    by (rule sl_acquire [OF _ a_spin]) (simp_all add: defs)
  then have "sl_reach s3" unfolding s3_def
    by (rule sl_acquire [OF _ a_sleep]) (simp_all add: defs)
  then have "sl_reach s4" unfolding s4_def
    by (rule sl_sleep [OF _ s_pt]) (simp_all add: defs)
  then have "sl_reach s5" unfolding s5_def
    by (rule sl_sleep [OF _ s_rel]) (simp_all add: defs)
  then have "sl_reach s6" unfolding s6_def
    by (rule sl_sleep [OF _ s_mark]) (simp_all add: defs)
  then have "sl_reach (jump 1 S_Off (s6\<lparr>ptlock := None\<rparr>))"
    by (rule sl_sched [OF _ c_off]) (simp_all add: defs)
  then show ?thesis by (simp add: defs sl_asleep_def fun_upd_twist)
qed

theorem sleeplock_no_lost_wakeup_witness:
  "sl_reach sl_asleep \<and> pstate sl_asleep 1 = SLEEPING \<and>
   (\<exists>q. owns (pat sl_asleep q) \<or> pat sl_asleep q \<in> {R_Rel, W_Pt, W_Scan})"
proof -
  have "pstate sl_asleep 1 = SLEEPING" by (simp add: sl_asleep_def)
  then show ?thesis using sleeplock_no_lost_wakeup [OF sl_asleep_reach] sl_asleep_reach by blast
qed

end
