(* ===== verification/Format.thy ===== *)
theory Format
  imports Prelude
begin

text \<open>
  The formatter behind the kernel's \<^verbatim>\<open>printf\<close> (\<^verbatim>\<open>src/common/format.c\<close>). The
  characters handed to the \<^verbatim>\<open>put_char\<close> callback are collected in a string, the variadic
  arguments are a list of 64-bit slots and strings, and reading an argument that is not
  there, a digit outside the table or a place outside the 64-byte buffer is
  \<^term>\<open>BadAccess\<close>. What is printed for a number can be read back.
\<close>

section \<open>Printing an integer\<close>

text \<open>The digit table with the terminating NUL of the C string.\<close>

definition digit :: string where
  "digit = ''0123456789abcdef'' @ [CHR 0x00]"

text \<open>The first loop of \<^verbatim>\<open>_print_int\<close>, with \<open>n\<close> places left in \<^verbatim>\<open>buf\<close>: least significant digit first.\<close>

fun fill_buf :: "nat \<Rightarrow> u64 \<Rightarrow> u64 \<Rightarrow> fault + string" where
  "fill_buf 0 v base = Inl BadAccess"
| "fill_buf (Suc n) v base =
     (if base = 0 \<or> \<not> unat (v mod base) < length digit then Inl BadAccess
      else let c = digit ! unat (v mod base); v' = v div base in
           if v' = 0 then Inr [c]
           else case fill_buf n v' base of Inl e \<Rightarrow> Inl e | Inr cs \<Rightarrow> Inr (c # cs))"

definition print_int :: "u64 \<Rightarrow> int \<Rightarrow> bool \<Rightarrow> fault + string" where
  "print_int u base_arg is_signed =
     (let base = word_of_int base_arg :: u64;
          neg = (is_signed \<and> sint u < 0);
          v = (if neg then - u else u)
      in case fill_buf 64 v base of
           Inl e \<Rightarrow> Inl e
         | Inr cs \<Rightarrow> Inr ((if neg then ''-'' else []) @ rev cs))"

section \<open>Format strings\<close>

datatype va_arg = AInt u64 | AStr "string option"

text \<open>
  The rows of the \<^verbatim>\<open>_INT_CASE\<close> macro: the identifier after the percent sign, whether the argument type
  is 32 bits wide, whether it is signed, and the base.
\<close>

definition int_cases :: "(string \<times> bool \<times> bool \<times> int) list" where
  "int_cases =
     [(''u'', True, False, 10), (''llu'', False, False, 10), (''d'', True, True, 10),
      (''lld'', False, True, 10), (''x'', True, False, 16), (''llx'', False, False, 16),
      (''p'', False, False, 16), (''zu'', False, False, 10), (''zd'', False, True, 10)]"

text \<open>\<^verbatim>\<open>(i64)va_arg(arg, type)\<close>: a 32-bit argument is the low half of its slot, extended by its sign.\<close>

definition fetch_int :: "bool \<Rightarrow> bool \<Rightarrow> u64 \<Rightarrow> u64" where
  "fetch_int narrow is_signed w =
     (if narrow then (if is_signed then scast (ucast w :: u32) else ucast (ucast w :: u32)) else w)"

definition out :: "string \<Rightarrow> fault + string \<Rightarrow> fault + string" where
  "out s r = (case r of Inl e \<Rightarrow> Inl e | Inr t \<Rightarrow> Inr (s @ t))"

fun find_case :: "string \<Rightarrow> (string \<times> bool \<times> bool \<times> int) list \<Rightarrow> (string \<times> bool \<times> bool \<times> int) option" where
  "find_case pos [] = None"
| "find_case pos ((ident, k) # cs) =
     (if take (length ident) pos = ident then Some (ident, k) else find_case pos cs)"

function vformat :: "string \<Rightarrow> va_arg list \<Rightarrow> fault + string" where
  "vformat [] args = Inr []"
| "vformat (c # pos) args =
     (if c = CHR ''%'' then
        (if take 1 pos = ''%'' then out ''%'' (vformat (drop 1 pos) args)
         else if take 1 pos = ''c'' then
           (case args of
              AInt w # rest \<Rightarrow> out [char_of (unat (ucast w :: u8))] (vformat (drop 1 pos) rest)
            | _ \<Rightarrow> Inl BadAccess)
         else if take 1 pos = ''s'' then
           (case args of
              AStr None # rest \<Rightarrow> out ''(null)'' (vformat (drop 1 pos) rest)
            | AStr (Some s) # rest \<Rightarrow> out s (vformat (drop 1 pos) rest)
            | _ \<Rightarrow> Inl BadAccess)
         else case find_case pos int_cases of
             None \<Rightarrow> out [c] (vformat pos args)
           | Some (ident, narrow, is_signed, base) \<Rightarrow>
              (case args of
                 AInt w # rest \<Rightarrow>
                   (case print_int (fetch_int narrow is_signed w) base is_signed of
                      Inl e \<Rightarrow> Inl e
                    | Inr s \<Rightarrow> out s (vformat (drop (length ident) pos) rest))
               | _ \<Rightarrow> Inl BadAccess))
      else out [c] (vformat pos args))"
  by pat_completeness auto
termination by (relation "measure (\<lambda>(f, a). length f)") auto

section \<open>Reading a number back\<close>

definition digit_val :: "char \<Rightarrow> nat" where
  "digit_val c = (if c \<in> set ''0123456789'' then of_char c - 48 else of_char c - 87)"

primrec num_of :: "nat \<Rightarrow> string \<Rightarrow> nat" where
  "num_of b [] = 0"
| "num_of b (c # cs) = digit_val c * b ^ length cs + num_of b cs"

definition read_int :: "nat \<Rightarrow> string \<Rightarrow> int" where
  "read_int b s = (case s of
       [] \<Rightarrow> 0
     | c # cs \<Rightarrow> if c = CHR ''-'' then - int (num_of b cs) else int (num_of b s))"

lemma num_of_append: "num_of b (xs @ ys) = num_of b xs * b ^ length ys + num_of b ys"
  by (induction xs) (simp_all add: algebra_simps power_add)

lemma digit_table: "\<forall>n \<in> set [0..<16]. digit_val (digit ! n) = n \<and> digit ! n \<noteq> CHR ''-''"
  by code_simp

lemma digit_val_digit: "n < 16 \<Longrightarrow> digit_val (digit ! n) = n"
  and digit_neq_minus: "n < 16 \<Longrightarrow> digit ! n \<noteq> CHR ''-''"
  using digit_table by (simp_all del: upt_rec_numeral)

text \<open>
  With room for the digits the loop ends, and the digits, read from the last one stored, are the value;
  the last one stored is not a zero unless the value is.
\<close>

lemma fill_buf_value:
  assumes "2 \<le> unat base" "unat base \<le> 16" "0 < n" "unat v < unat base ^ n"
  shows "\<exists>cs. fill_buf n v base = Inr cs \<and> cs \<noteq> [] \<and> num_of (unat base) (rev cs) = unat v \<and>
              (\<forall>c \<in> set cs. \<exists>k < 16. c = digit ! k) \<and>
              (unat v = 0 \<or> last cs \<noteq> CHR ''0'')"
  using assms
proof (induction n arbitrary: v)
  case 0
  then show ?case by simp
next
  case (Suc n)
  let ?b = "unat base"
  have b: "base \<noteq> 0" using Suc.prems(1) by auto
  have m: "unat (v mod base) = unat v mod ?b" by (simp add: unat_mod)
  have d: "unat (v div base) = unat v div ?b" by (simp add: unat_div)
  have lt: "unat v mod ?b < 16"
    by (rule less_le_trans [OF mod_less_divisor]) (use Suc.prems in auto)
  have len: "unat v mod ?b < length digit" using lt by (simp add: digit_def)
  show ?case
  proof (cases "v div base = 0")
    case True
    then have 0: "unat v div ?b = 0" using d by simp
    then have v: "unat v mod ?b = unat v" using Suc.prems(1) by (metis div_eq_0_iff mod_less not_numeral_le_zero)
    have nz: "digit ! unat v \<noteq> CHR ''0''" if "unat v \<noteq> 0"
      using digit_val_digit [of "unat v"] lt v that by (auto simp: digit_val_def)
    show ?thesis using True b len lt v nz by (auto simp: m digit_val_digit Let_def)
  next
    case False
    then have "unat v div ?b \<noteq> 0" using d by (metis unat_eq_zero)
    then have n: "0 < n" using Suc.prems by (cases n) (auto simp: div_eq_0_iff)
    have "unat (v div base) < ?b ^ n"
      using Suc.prems(4) by (simp add: d less_mult_imp_div_less mult.commute)
    from Suc.IH [OF Suc.prems(1,2) n this] obtain cs where cs:
      "fill_buf n (v div base) base = Inr cs" "cs \<noteq> []" "num_of ?b (rev cs) = unat v div ?b"
      "\<forall>c \<in> set cs. \<exists>k < 16. c = digit ! k" "last cs \<noteq> CHR ''0''"
      using d \<open>unat v div ?b \<noteq> 0\<close> by auto
    show ?thesis using False b len lt cs
      by (auto simp: m num_of_append digit_val_digit Let_def)
  qed
qed

lemma word_pow_16: "unat (v :: u64) < 16 ^ 64" "unat (v :: u64) < 10 ^ 64"
  using unsigned_less [of v, where ?'a = nat] by simp_all

lemma fill_buf_zero: "0 < n \<Longrightarrow> base \<noteq> 0 \<Longrightarrow> fill_buf n 0 base = Inr ''0''"
  by (cases n) (simp_all add: digit_def)

lemma neg_magnitude:
  assumes "sint (u :: u64) < 0"
  shows "uint (- u) = - sint u"
proof -
  have s: "sint u = uint u - 2 ^ 64"
    using assms unsigned_greater_eq [of u, where ?'a = int] by (simp add: sint_u64 split: if_splits)
  moreover have "uint u < 2 ^ 64" using unsigned_less [of u, where ?'a = int] by simp
  moreover have "uint u \<noteq> 0" using assms sint_u64 [of u] by auto
  ultimately have "- uint u mod 2 ^ 64 = 2 ^ 64 - uint u"
    by (simp add: zmod_zminus1_eq_if)
  then show ?thesis using s by (simp add: uint_word_ariths)
qed

lemma pos_magnitude: "\<not> sint (u :: u64) < 0 \<Longrightarrow> uint u = sint u"
  using unsigned_less [of u, where ?'a = int] by (simp add: sint_u64 split: if_splits)

text \<open>The number printed, as the argument's type reads it.\<close>

definition int_value :: "bool \<Rightarrow> bool \<Rightarrow> u64 \<Rightarrow> int" where
  "int_value narrow is_signed w =
     (if narrow then (if is_signed then sint (ucast w :: u32) else uint (ucast w :: u32))
      else (if is_signed then sint w else uint w))"

text \<open>A printed number: it reads back as \<open>i\<close> and has no leading zero.\<close>

definition prints :: "int \<Rightarrow> int \<Rightarrow> string \<Rightarrow> bool" where
  "prints b i s \<longleftrightarrow> read_int (nat b) s = i \<and>
     (s = ''0'' \<or> (let ds = (if i < 0 then tl s else s) in ds \<noteq> [] \<and> hd ds \<noteq> CHR ''0''))"

lemma prints_signed:
  assumes "int (num_of (nat b) ds) = \<bar>i\<bar>" "ds \<noteq> []" "hd ds \<noteq> CHR ''-''"
    and "i = 0 \<Longrightarrow> ds = ''0''" "i \<noteq> 0 \<Longrightarrow> hd ds \<noteq> CHR ''0''"
  shows "prints b i ((if i < 0 then ''-'' else []) @ ds)"
  using assms by (cases ds) (auto simp: prints_def read_int_def Let_def)

lemma print_int_prints:
  assumes "b = 10 \<or> b = 16"
  shows "\<exists>s. print_int u b sg = Inr s \<and> prints b (if sg then sint u else uint u) s"
proof -
  let ?neg = "sg \<and> sint u < 0"
  let ?v = "if ?neg then - u else u"
  let ?i = "if sg then sint u else uint u"
  have b: "unat (word_of_int b :: u64) = nat b" using assms by auto
  obtain cs where cs: "fill_buf 64 ?v (word_of_int b) = Inr cs" "cs \<noteq> []"
      "num_of (nat b) (rev cs) = unat ?v" "\<forall>c \<in> set cs. \<exists>k < 16. c = digit ! k"
      "unat ?v = 0 \<or> last cs \<noteq> CHR ''0''"
    using fill_buf_value [of "word_of_int b" 64 ?v] assms word_pow_16 [of ?v] b by auto
  have val: "int (unat ?v) = \<bar>?i\<bar>"
    using neg_magnitude [of u] pos_magnitude [of u] by auto
  then have nat_val: "unat ?v = nat \<bar>?i\<bar>" by (metis nat_int)
  have hd: "hd (rev cs) = last cs" using cs(2) by (simp add: hd_rev)
  have no_minus: "last cs \<noteq> CHR ''-''" using cs(2,4) digit_neq_minus by (metis last_in_set)
  have zero: "rev cs = ''0''" if "unat ?v = 0"
    using cs(1) that assms by (auto simp: fill_buf_zero unat_eq_zero)
  have "print_int u b sg = Inr ((if ?i < 0 then ''-'' else []) @ rev cs)"
    using cs(1) by (auto simp: print_int_def Let_def)
  moreover have "prints b ?i ((if ?i < 0 then ''-'' else []) @ rev cs)"
  proof (rule prints_signed)
    show "int (num_of (nat b) (rev cs)) = \<bar>?i\<bar>" using cs(3) val by simp
    show "?i = 0 \<Longrightarrow> rev cs = ''0''" using nat_val zero by simp
    show "?i \<noteq> 0 \<Longrightarrow> hd (rev cs) \<noteq> CHR ''0''" using nat_val cs(5) hd by auto
  qed (use cs(2) hd no_minus in simp_all)
  ultimately show ?thesis by blast
qed

text \<open>\<^verbatim>\<open>fetch_int\<close> leaves the value of the argument's type in the 64-bit slot that is printed.\<close>

lemma fetch_int_value:
  "(if sg then sint (fetch_int narrow sg w) else uint (fetch_int narrow sg w)) = int_value narrow sg w"
proof -
  have "sint (scast (ucast w :: u32) :: u64) = sint (ucast w :: u32)"
    by (rule sint_up_scast) (simp add: is_up_def source_size_def target_size_def word_size)
  moreover have "uint (ucast (ucast w :: u32) :: u64) = uint (ucast w :: u32)"
    by (rule uint_up_ucast) (simp add: is_up_def source_size_def target_size_def word_size)
  ultimately show ?thesis by (simp add: fetch_int_def int_value_def)
qed

lemma find_int_case:
  assumes "(ident, k) \<in> set int_cases"
  shows "find_case (ident @ rest) int_cases = Some (ident, k)"
  using assms unfolding int_cases_def by (simp only: set_simps insert_iff empty_iff) (elim disjE; simp)

lemma int_case_ident:
  assumes "(ident, k) \<in> set int_cases"
  shows "take 1 (ident @ rest) \<noteq> ''%''" "take 1 (ident @ rest) \<noteq> ''c''" "take 1 (ident @ rest) \<noteq> ''s''"
  using assms unfolding int_cases_def
  by (simp_all only: set_simps insert_iff empty_iff) (elim disjE; simp)+

lemma vformat_int:
  assumes "(ident, narrow, sg, base) \<in> set int_cases"
  shows "\<exists>s. prints base (int_value narrow sg w) s \<and>
    vformat (CHR ''%'' # ident @ rest) (AInt w # args) = out s (vformat rest args)"
proof -
  have "base = 10 \<or> base = 16"
    using assms unfolding int_cases_def by (simp only: set_simps insert_iff empty_iff) (elim disjE; simp)
  from print_int_prints [OF this, of "fetch_int narrow sg w" sg]
  obtain s where "print_int (fetch_int narrow sg w) base sg = Inr s"
      "prints base (int_value narrow sg w) s"
    by (simp add: fetch_int_value) blast
  then show ?thesis
    using find_int_case [OF assms, of rest] int_case_ident [OF assms, of rest] by auto
qed

section \<open>Claims\<close>

text \<open>
  C24. Every integer directive of \<^verbatim>\<open>vformat\<close> prints its argument so that it reads back: the text
  put out for the directive is the canonical numeral, in the directive's base, of the value the argument has at the
  directive's type (32 or 64 bits, signed or not, \<^verbatim>\<open>INT64_MIN\<close> included), exactly that argument is
  consumed, the digit buffer does not overflow, and formatting goes on after the directive.
\<close>

theorem vformat_int_directive:
  assumes "(ident, narrow, sg, base) \<in> set int_cases"
    and "vformat rest args = Inr tail"
  shows "\<exists>s. vformat (CHR ''%'' # ident @ rest) (AInt w # args) = Inr (s @ tail) \<and>
             read_int (nat base) s = int_value narrow sg w"
  using vformat_int [OF assms(1), of w rest args] assms(2) by (auto simp: out_def prints_def)

theorem vformat_int_directive_witness:
  "\<exists>s. vformat ''%d!'' [AInt (- 1)] = Inr (s @ ''!'') \<and> read_int 10 s = - 1"
proof -
  have "int_value True True (- 1) = - 1" by code_simp
  moreover have "(''d'', True, True, 10) \<in> set int_cases" by (simp add: int_cases_def)
  moreover have "vformat ''!'' [] = Inr ''!''" by (simp add: out_def)
  ultimately show ?thesis
    using vformat_int_directive [of "''d''" True True 10 "''!''" "[]" "''!''" "- 1"]
    by (simp del: vformat.simps)
qed

text \<open>
  A directive with a width or a zero flag, such as \<^verbatim>\<open>%08x\<close>, is not
  recognised: its text is put out as it stands and its argument is left for the next directive.
\<close>

theorem vformat_width_ignored:
  assumes "d \<in> set ''0123456789''"
  shows "vformat (CHR ''%'' # d # rest) args = out [CHR ''%'', d] (vformat rest args)"
proof -
  have "find_case (d # rest) int_cases = None" using assms by (auto simp: int_cases_def)
  moreover have "d \<noteq> CHR ''%''" "d \<noteq> CHR ''c''" "d \<noteq> CHR ''s''" using assms by auto
  ultimately show ?thesis by (auto simp: out_def split: sum.splits)
qed

theorem vformat_width_ignored_witness:
  "vformat ''%08x'' [AInt 255] = Inr ''%08x''"
  using vformat_width_ignored [of "CHR ''0''" "''8x''" "[AInt 255]"] by (simp add: out_def)

end
