(* ===== verification/ListNode.thy ===== *)
theory ListNode
  imports Prelude
begin

text \<open>
  Circular doubly linked lists: \<^verbatim>\<open>src/common/list.h\<close> and \<^verbatim>\<open>src/common/list.c\<close>.
  A heap maps the address of a node to its two pointers; the operations are the
  source's pointer assignments in the source's order. \<^verbatim>\<open>ring\<close> relates a heap to the
  sequence of nodes met by following \<^verbatim>\<open>next\<close>, and the lemmas show what each
  operation does to that sequence.
\<close>

section \<open>Nodes and operations\<close>

record 'p ListNode =
  prev_ptr :: 'p
  next_ptr :: 'p

type_synonym 'p lheap = "'p \<Rightarrow> 'p ListNode"

definition set_prev :: "'p \<Rightarrow> 'p \<Rightarrow> 'p lheap \<Rightarrow> 'p lheap" where
  "set_prev n p h = h(n := (h n)\<lparr>prev_ptr := p\<rparr>)"

definition set_next :: "'p \<Rightarrow> 'p \<Rightarrow> 'p lheap \<Rightarrow> 'p lheap" where
  "set_next n p h = h(n := (h n)\<lparr>next_ptr := p\<rparr>)"

definition init_list_node :: "'p \<Rightarrow> 'p lheap \<Rightarrow> 'p lheap" where
  "init_list_node node h = set_next node node (set_prev node node h)"

fun merge_list :: "'p option \<Rightarrow> 'p option \<Rightarrow> 'p lheap \<Rightarrow> 'p option \<times> 'p lheap" where
  "merge_list None node2 h = (node2, h)"
| "merge_list (Some node1) None h = (Some node1, h)"
| "merge_list (Some node1) (Some node2) h =
     (let node3 = next_ptr (h node1);
          node4 = prev_ptr (h node2);
          h1 = set_next node1 node2 h;
          h2 = set_prev node2 node1 h1;
          h3 = set_next node4 node3 h2;
          h4 = set_prev node3 node4 h3
      in (Some node1, h4))"

definition detach_from_list :: "'p \<Rightarrow> 'p lheap \<Rightarrow> 'p option \<times> 'p lheap" where
  "detach_from_list node h =
     (let prev = prev_ptr (h node);
          h1 = set_next (prev_ptr (h node)) (next_ptr (h node)) h;
          h2 = set_prev (next_ptr (h1 node)) (prev_ptr (h1 node)) h1;
          h3 = init_list_node node h2
      in (if prev = node then None else Some prev, h3))"

section \<open>The sequence of nodes of a list\<close>

fun links :: "'p lheap \<Rightarrow> 'p list \<Rightarrow> bool" where
  "links h (x # y # zs) \<longleftrightarrow> next_ptr (h x) = y \<and> prev_ptr (h y) = x \<and> links h (y # zs)"
| "links h _ \<longleftrightarrow> True"

definition ring :: "'p lheap \<Rightarrow> 'p list \<Rightarrow> bool" where
  "ring h xs \<longleftrightarrow> xs \<noteq> [] \<and> distinct xs \<and> links h (xs @ [hd xs])"

lemma set_next_apply [simp]:
  "next_ptr (set_next n p h x) = (if x = n then p else next_ptr (h x))"
  "prev_ptr (set_next n p h x) = prev_ptr (h x)"
  by (simp_all add: set_next_def)

lemma set_prev_apply [simp]:
  "prev_ptr (set_prev n p h x) = (if x = n then p else prev_ptr (h x))"
  "next_ptr (set_prev n p h x) = next_ptr (h x)"
  by (simp_all add: set_prev_def)

lemma links_append: "links h (xs @ y # ys) \<longleftrightarrow> links h (xs @ [y]) \<and> links h (y # ys)"
  by (induction xs rule: induct_list012) auto

lemma links_cong:
  assumes "\<And>x. x \<in> set (butlast xs) \<Longrightarrow> next_ptr (h' x) = next_ptr (h x)"
    and "\<And>x. x \<in> set (tl xs) \<Longrightarrow> prev_ptr (h' x) = prev_ptr (h x)"
  shows "links h' xs = links h xs"
  using assms by (induction h xs rule: links.induct) auto

lemma ring_Cons: "ring h (a # xs) \<longleftrightarrow> a \<notin> set xs \<and> distinct xs \<and> links h (a # xs @ [a])"
  by (auto simp: ring_def)

lemma ring_distinct: "ring h xs \<Longrightarrow> distinct xs"
  by (simp add: ring_def)

lemma links_last_prev: "links h (xs @ [x, y]) \<Longrightarrow> prev_ptr (h y) = x"
  using links_append [of h xs x "[y]"] by simp

lemma ring_prev_hd: "ring h (a # xs) \<Longrightarrow> prev_ptr (h a) = last (a # xs)"
proof (cases xs rule: rev_cases)
  case Nil
  then show "ring h (a # xs) \<Longrightarrow> ?thesis" by (simp add: ring_Cons)
next
  case (snoc ys y)
  then show "ring h (a # xs) \<Longrightarrow> ?thesis"
    using links_last_prev [of h "a # ys" y a] by (simp add: ring_Cons)
qed

lemma ring_next_hd: "ring h (a # xs) \<Longrightarrow> next_ptr (h a) = hd (xs @ [a])"
  by (cases xs) (auto simp: ring_Cons)

lemma ring_rotate: "ring h (a # xs) \<Longrightarrow> ring h (xs @ [a])"
proof (cases xs)
  case Nil
  then show "ring h (a # xs) \<Longrightarrow> ?thesis" by simp
next
  case (Cons y ys)
  then show "ring h (a # xs) \<Longrightarrow> ?thesis"
    using links_append [of h "y # ys" a "[y]"] by (auto simp: ring_def)
qed

lemma ring_rotate_list: "ring h (as @ bs) \<Longrightarrow> ring h (bs @ as)"
proof (induction as arbitrary: bs)
  case (Cons a as)
  then have "ring h (as @ (bs @ [a]))" using ring_rotate [of h a "as @ bs"] by simp
  then have "ring h ((bs @ [a]) @ as)" by (rule Cons.IH)
  then show ?case by simp
qed simp

section \<open>Effect of the operations\<close>

lemma init_list_node_ring: "ring (init_list_node a h) [a]"
  by (simp add: ring_Cons init_list_node_def)

lemma links_prefix: "links h (xs @ ys) \<Longrightarrow> links h xs"
  by (induction xs rule: induct_list012) auto

lemma links_suffix: "links h (xs @ ys) \<Longrightarrow> links h ys"
  by (cases ys) (auto dest: links_append [THEN iffD1])

lemma links_join:
  assumes "links h (xs @ [x])" and "links h (y # ys)"
    and "next_ptr (h x) = y" and "prev_ptr (h y) = x"
  shows "links h (xs @ x # y # ys)"
  using assms links_append [of h xs x "y # ys"] by simp

lemma last_notin_butlast: "distinct xs \<Longrightarrow> xs \<noteq> [] \<Longrightarrow> last xs \<notin> set (butlast xs)"
  by (metis append_butlast_last_id distinct_butlast not_distinct_conv_prefix)

lemma merge_list_ring:
  assumes a: "ring h (a # xs)" and b: "ring h (b # ys)"
    and disj: "set (a # xs) \<inter> set (b # ys) = {}"
  shows "ring (snd (merge_list (Some a) (Some b) h)) (a # b # ys @ xs)"
proof -
  define n3 where "n3 = hd (xs @ [a])"
  define n4 where "n4 = last (b # ys)"
  have n3: "next_ptr (h a) = n3" using ring_next_hd [OF a] by (simp add: n3_def)
  have n4: "prev_ptr (h b) = n4" using ring_prev_hd [OF b] by (simp add: n4_def)
  have n3_in: "n3 \<in> set (a # xs)" by (cases xs) (auto simp: n3_def)
  have n4_in: "n4 \<in> set (b # ys)" by (auto simp: n4_def)
  define k where "k = set_prev n3 n4 (set_next n4 n3 (set_prev b a (set_next a b h)))"
  have h: "snd (merge_list (Some a) (Some b) h) = k"
    by (simp add: Let_def n3 n4 k_def)
  have ab: "a \<noteq> b" "a \<noteq> n4" "n3 \<noteq> b" "n3 \<notin> set ys" "n4 \<notin> set xs"
    using disj n3_in n4_in by auto
  have "links h (b # ys)"
    using b links_prefix [of h "b # ys" "[b]"] by (simp add: ring_Cons)
  moreover have "links k (b # ys) = links h (b # ys)"
    using ab b disj last_notin_butlast [of "b # ys"]
    by (intro links_cong) (auto simp: k_def n4_def ring_Cons dest: in_set_butlastD)
  ultimately have lb: "links k (butlast (b # ys) @ [n4])"
    by (simp add: n4_def)
  have "links h (xs @ [a])"
    using a links_suffix [of h "[a]" "xs @ [a]"] by (simp add: ring_Cons)
  moreover have "links k (xs @ [a]) = links h (xs @ [a])"
    using ab a disj by (intro links_cong) (cases xs; auto simp: k_def n3_def ring_Cons)+
  ultimately have la: "links k (n3 # tl (xs @ [a]))"
    by (cases xs) (auto simp: n3_def)
  have "links k (butlast (b # ys) @ n4 # n3 # tl (xs @ [a]))"
    using lb la ab by (intro links_join) (auto simp: k_def)
  moreover have "butlast (b # ys) @ n4 # n3 # tl (xs @ [a]) = b # ys @ xs @ [a]"
    by (cases xs) (simp_all add: n3_def n4_def append_butlast_last_id)
  ultimately have "links k (a # b # (ys @ xs) @ [a])"
    using ab by (simp add: k_def)
  then show ?thesis unfolding h using a b disj by (auto simp: ring_Cons)
qed

lemma detach_from_list_single:
  assumes "ring h [a]"
  shows "fst (detach_from_list a h) = None" and "ring (snd (detach_from_list a h)) [a]"
  using assms by (simp_all add: ring_Cons detach_from_list_def Let_def init_list_node_def)

lemma detach_from_list_ring:
  assumes r: "ring h (a # xs)" and xs: "xs \<noteq> []"
  shows "fst (detach_from_list a h) = Some (last xs)"
    and "ring (snd (detach_from_list a h)) xs"
    and "ring (snd (detach_from_list a h)) [a]"
proof -
  have p: "prev_ptr (h a) = last xs" using ring_prev_hd [OF r] xs by simp
  have n: "next_ptr (h a) = hd xs" using ring_next_hd [OF r] xs by simp
  have neq: "last xs \<noteq> a" "hd xs \<noteq> a" using r xs by (auto simp: ring_Cons)
  define k where "k = init_list_node a (set_prev (hd xs) (last xs) (set_next (last xs) (hd xs) h))"
  have k: "detach_from_list a h = (Some (last xs), k)"
    using neq by (simp add: detach_from_list_def Let_def p n k_def)
  show "fst (detach_from_list a h) = Some (last xs)" by (simp add: k)
  show "ring (snd (detach_from_list a h)) [a]" by (simp add: k k_def init_list_node_ring)
  have "links h (xs @ [a])" using r links_suffix [of h "[a]" "xs @ [a]"] by (simp add: ring_Cons)
  then have "links h xs" by (rule links_prefix)
  moreover have "links k xs = links h xs"
    using r xs last_notin_butlast [of xs]
    by (intro links_cong) (cases xs; auto simp: k_def init_list_node_def ring_Cons dest: in_set_butlastD)+
  ultimately have "links k (butlast xs @ [last xs])" using xs by simp
  moreover have "next_ptr (k (last xs)) = hd xs" "prev_ptr (k (hd xs)) = last xs"
    using neq by (simp_all add: k_def init_list_node_def)
  moreover have "xs @ [hd xs] = butlast xs @ last xs # hd xs # []"
    using xs by (metis append.assoc append_Cons append_Nil append_butlast_last_id)
  ultimately have "links k (xs @ [hd xs])"
    using links_join [of k "butlast xs" "last xs" "hd xs" "[]"] by (simp only: links.simps)
  then show "ring (snd (detach_from_list a h)) xs"
    using r xs by (simp add: k ring_def)
qed

lemma ring_in_set:
  assumes r: "ring h xs" and x: "x \<in> set xs"
  shows "next_ptr (h x) \<in> set xs" and "prev_ptr (h x) \<in> set xs"
proof -
  from x obtain as bs where xs: "xs = as @ x # bs" by (meson split_list)
  have "ring h (x # bs @ as)" using r ring_rotate_list [of h as "x # bs"] by (simp add: xs)
  from ring_next_hd [OF this] ring_prev_hd [OF this]
  show "next_ptr (h x) \<in> set xs" and "prev_ptr (h x) \<in> set xs"
    by (auto simp: xs hd_append last_append)
qed

text \<open>A list that shares no node with the arguments is left as it was.\<close>

lemma ring_frame:
  assumes "\<And>x. x \<in> set xs \<Longrightarrow> h' x = h x"
  shows "ring h' xs = ring h xs"
proof -
  have "links h' (xs @ [hd xs]) = links h (xs @ [hd xs])" if "xs \<noteq> []"
    using that assms by (intro links_cong) (auto dest: list.set_sel(2))
  then show ?thesis by (auto simp: ring_def)
qed

lemma init_list_node_other: "x \<noteq> a \<Longrightarrow> init_list_node a h x = h x"
  by (simp add: init_list_node_def set_next_def set_prev_def)

lemma merge_list_other:
  assumes "ring h (a # xs)" "ring h (b # ys)" "x \<notin> set (a # xs)" "x \<notin> set (b # ys)"
  shows "snd (merge_list (Some a) (Some b) h) x = h x"
  using assms ring_in_set(1) [OF assms(1), of a] ring_in_set(2) [OF assms(2), of b]
  by (auto simp: Let_def set_next_def set_prev_def)

lemma detach_from_list_other:
  assumes "ring h xs" "a \<in> set xs" "x \<notin> set xs"
  shows "snd (detach_from_list a h) x = h x"
  using assms ring_in_set [OF assms(1,2)]
  by (auto simp: detach_from_list_def Let_def init_list_node_def set_next_def set_prev_def)

section \<open>The list interface its clients rely on\<close>

text \<open>
  The block cache, the inode table and the page arena keep their objects on such
  lists. What they rely on is stated once: \<open>rep h xs\<close> says that the heap \<open>h\<close> holds
  a circular list with the nodes \<open>xs\<close>, in the order of \<^verbatim>\<open>next\<close>.
\<close>

locale node_list =
  fixes rep :: "'h \<Rightarrow> 'p list \<Rightarrow> bool"
    and single :: "'p \<Rightarrow> 'h \<Rightarrow> 'h"
    and splice :: "'p \<Rightarrow> 'p \<Rightarrow> 'h \<Rightarrow> 'h"
    and unlink :: "'p \<Rightarrow> 'h \<Rightarrow> 'h"
  assumes rep_distinct: "rep h xs \<Longrightarrow> distinct xs"
    and rep_single: "rep (single a h) [a]"
    and rep_single_frame: "rep h xs \<Longrightarrow> a \<notin> set xs \<Longrightarrow> rep (single a h) xs"
    and rep_splice: "rep h (a # xs) \<Longrightarrow> rep h (b # ys) \<Longrightarrow> set (a # xs) \<inter> set (b # ys) = {}
      \<Longrightarrow> rep (splice a b h) (a # b # ys @ xs)"
    and rep_unlink: "rep h (xs @ a # ys) \<Longrightarrow> xs @ ys \<noteq> []
      \<Longrightarrow> rep (unlink a h) (xs @ ys) \<and> rep (unlink a h) [a]"
begin

text \<open>A new object is put right behind the list head.\<close>

lemma insert_front:
  assumes "rep h (hp # xs)" and "a \<notin> set (hp # xs)"
  shows "rep (splice hp a (single a h)) (hp # a # xs)"
  using rep_splice [OF rep_single_frame [OF assms] rep_single] assms(2) by simp

text \<open>An object that is used again moves right behind the list head.\<close>

lemma move_to_front:
  assumes r: "rep h (hp # xs @ a # ys)"
  shows "rep (splice hp a (unlink a h)) (hp # a # xs @ ys)"
proof -
  have "rep (unlink a h) (hp # xs @ ys)" "rep (unlink a h) [a]"
    using rep_unlink [of h "hp # xs" a ys] r by simp_all
  moreover have "a \<notin> set (hp # xs @ ys)" using rep_distinct [OF r] by auto
  ultimately show ?thesis using rep_splice [of "unlink a h" hp "xs @ ys" a "[]"] by simp
qed

end

definition list_splice :: "'p \<Rightarrow> 'p \<Rightarrow> 'p lheap \<Rightarrow> 'p lheap" where
  "list_splice a b h = snd (merge_list (Some a) (Some b) h)"

definition list_unlink :: "'p \<Rightarrow> 'p lheap \<Rightarrow> 'p lheap" where
  "list_unlink a h = snd (detach_from_list a h)"

lemma detach_from_list_anywhere:
  assumes r: "ring h (xs @ a # ys)" and ne: "xs @ ys \<noteq> []"
  shows "ring (snd (detach_from_list a h)) (xs @ ys)"
    and "ring (snd (detach_from_list a h)) [a]"
    and "fst (detach_from_list a h) = Some (last (ys @ xs))"
proof -
  have "ring h (a # ys @ xs)" using r ring_rotate_list [of h xs "a # ys"] by simp
  from detach_from_list_ring [OF this] ne
  have "ring (snd (detach_from_list a h)) (ys @ xs)" by auto
  then show "ring (snd (detach_from_list a h)) (xs @ ys)" by (rule ring_rotate_list)
  show "ring (snd (detach_from_list a h)) [a]"
    and "fst (detach_from_list a h) = Some (last (ys @ xs))"
    using detach_from_list_ring [OF \<open>ring h (a # ys @ xs)\<close>] ne by auto
qed

lemma init_list_node_frame: "ring h xs \<Longrightarrow> a \<notin> set xs \<Longrightarrow> ring (init_list_node a h) xs"
  using ring_frame [of xs "init_list_node a h" h] init_list_node_other by metis

interpretation nl: node_list ring init_list_node list_splice list_unlink
  by unfold_locales
    (simp_all add: init_list_node_ring init_list_node_frame list_splice_def list_unlink_def
      merge_list_ring detach_from_list_anywhere ring_distinct del: merge_list.simps)

text \<open>
  C35. Moving a node to the front, the way the block cache does on a hit: in a
  circular list with head \<open>hp\<close>, \<^verbatim>\<open>detach_from_list(p)\<close> followed by
  \<^verbatim>\<open>merge_list(&head, p)\<close> leaves a well-formed circular list with \<open>p\<close> right behind
  the head and every other node in its old order; the calls return the old
  predecessor of \<open>p\<close> and the head.
\<close>

theorem list_move_to_front:
  assumes "ring h (hp # xs @ p # ys)"
  shows "let (t, h1) = detach_from_list p h;
             (r, h2) = merge_list (Some hp) (Some p) h1
         in t = Some (last (ys @ hp # xs)) \<and> r = Some hp \<and> ring h2 (hp # p # xs @ ys)"
proof -
  obtain t h1 where d: "detach_from_list p h = (t, h1)" by fastforce
  have "t = Some (last (ys @ hp # xs))"
    using detach_from_list_anywhere(3) [of h "hp # xs" p ys] assms d by simp
  moreover have "ring (snd (merge_list (Some hp) (Some p) h1)) (hp # p # xs @ ys)"
    using nl.move_to_front [OF assms] d by (simp add: list_splice_def list_unlink_def)
  moreover have "fst (merge_list (Some hp) (Some p) h1) = Some hp"
    by (simp add: Let_def)
  ultimately show ?thesis using d by (auto simp: case_prod_beta Let_def)
qed

definition ring3 :: "nat lheap" where
  "ring3 n = (if n = 0 then \<lparr>prev_ptr = 2, next_ptr = 1\<rparr>
              else if n = 1 then \<lparr>prev_ptr = 0, next_ptr = 2\<rparr>
              else \<lparr>prev_ptr = 1, next_ptr = 0\<rparr>)"

theorem list_move_to_front_witness:
  "ring ring3 [0, 1, 2] \<and>
   ring (snd (merge_list (Some 0) (Some 2) (snd (detach_from_list 2 ring3)))) [0, 2, 1]"
proof -
  have r: "ring ring3 [0, 1, 2]" by (simp add: ring_def ring3_def)
  then have "ring ring3 (0 # [1] @ 2 # [])" by simp
  from list_move_to_front [OF this] r show ?thesis by (simp add: case_prod_beta Let_def)
qed

end
