(* ===== verification/Bitmap.thy ===== *)
theory Bitmap
  imports Prelude
begin

text \<open>
  Bit arrays. \<^verbatim>\<open>src/common/bitmap.h\<close> packs booleans into 64-bit cells (used by the
  page arena); the on-disk block bitmap packs them into bytes. Both are lists of
  words of some width, so the bit-level facts are proved once, for any width,
  and the interface the allocators rely on is the locale \<open>bit_array\<close>.
\<close>

section \<open>Bits of a list of words\<close>

definition cell_get :: "'w::len word list \<Rightarrow> nat \<Rightarrow> bool" where
  "cell_get bm i = bit (bm ! (i div LENGTH('w))) (i mod LENGTH('w))"

definition cell_set :: "'w::len word list \<Rightarrow> nat \<Rightarrow> 'w word list" where
  "cell_set bm i =
     bm[i div LENGTH('w) := bm ! (i div LENGTH('w)) OR push_bit (i mod LENGTH('w)) 1]"

definition cell_clear :: "'w::len word list \<Rightarrow> nat \<Rightarrow> 'w word list" where
  "cell_clear bm i =
     bm[i div LENGTH('w) := bm ! (i div LENGTH('w)) AND NOT (push_bit (i mod LENGTH('w)) 1)]"

lemma cell_index: "i < LENGTH('w::len) * n \<Longrightarrow> i div LENGTH('w) < n"
  by (simp add: less_mult_imp_div_less mult.commute)

lemma cell_get_set:
  assumes "i < LENGTH('w) * length bm"
  shows "cell_get (cell_set (bm :: 'w::len word list) i) j \<longleftrightarrow> j = i \<or> cell_get bm j"
proof (cases "j div LENGTH('w) = i div LENGTH('w)")
  case True
  have "j mod LENGTH('w) = i mod LENGTH('w) \<longleftrightarrow> j = i"
    using True by (metis div_mult_mod_eq)
  moreover have "j mod LENGTH('w) < LENGTH('w)" by simp
  ultimately show ?thesis
    using True assms cell_index [OF assms]
    by (auto simp: cell_get_def cell_set_def bit_or_iff bit_exp_iff)
next
  case False
  then show ?thesis by (auto simp: cell_get_def cell_set_def)
qed

lemma cell_get_clear:
  assumes "i < LENGTH('w) * length bm"
  shows "cell_get (cell_clear (bm :: 'w::len word list) i) j \<longleftrightarrow> j \<noteq> i \<and> cell_get bm j"
proof (cases "j div LENGTH('w) = i div LENGTH('w)")
  case True
  have "j mod LENGTH('w) = i mod LENGTH('w) \<longleftrightarrow> j = i"
    using True by (metis div_mult_mod_eq)
  moreover have "j mod LENGTH('w) < LENGTH('w)" by simp
  ultimately show ?thesis
    using True assms cell_index [OF assms]
    by (auto simp: cell_get_def cell_clear_def bit_and_iff bit_not_iff bit_exp_iff)
next
  case False
  then show ?thesis by (auto simp: cell_get_def cell_clear_def)
qed

lemma length_cell_set [simp]: "length (cell_set bm i) = length bm"
  by (simp add: cell_set_def)

lemma length_cell_clear [simp]: "length (cell_clear bm i) = length bm"
  by (simp add: cell_clear_def)

section \<open>The interface\<close>

locale bit_array =
  fixes get :: "'b \<Rightarrow> nat \<Rightarrow> bool"
    and set1 :: "'b \<Rightarrow> nat \<Rightarrow> 'b"
    and clear1 :: "'b \<Rightarrow> nat \<Rightarrow> 'b"
    and cap :: "'b \<Rightarrow> nat"
  assumes get_set1: "i < cap b \<Longrightarrow> get (set1 b i) j \<longleftrightarrow> j = i \<or> get b j"
    and get_clear1: "i < cap b \<Longrightarrow> get (clear1 b i) j \<longleftrightarrow> j \<noteq> i \<and> get b j"
    and cap_set1: "cap (set1 b i) = cap b"
    and cap_clear1: "cap (clear1 b i) = cap b"
begin

text \<open>Setting a clear bit adds one to the number of set bits, clearing a set bit takes one off.\<close>

lemma count_set1:
  assumes "i < cap b" "i < n" "\<not> get b i"
  shows "card {j. j < n \<and> get (set1 b i) j} = Suc (card {j. j < n \<and> get b j})"
proof -
  have "{j. j < n \<and> get (set1 b i) j} = insert i {j. j < n \<and> get b j}"
    using assms by (auto simp: get_set1)
  then show ?thesis using assms(3) by simp
qed

lemma count_clear1:
  assumes "i < cap b" "i < n" "get b i"
  shows "Suc (card {j. j < n \<and> get (clear1 b i) j}) = card {j. j < n \<and> get b j}"
proof -
  have "{j. j < n \<and> get b j} = insert i {j. j < n \<and> get (clear1 b i) j}"
    using assms by (auto simp: get_clear1)
  then show ?thesis using assms(1) by (simp add: get_clear1)
qed

text \<open>An array with fewer set bits than places has a clear one.\<close>

lemma clear_bit_exists:
  assumes "card {j. j < n \<and> get b j} < n"
  shows "\<exists>i < n. \<not> get b i"
proof (rule ccontr)
  assume "\<not> ?thesis"
  then have "{j. j < n \<and> get b j} = {..<n}" by auto
  with assms show False by simp
qed

lemma clear1_set1: "i < cap b \<Longrightarrow> \<not> get b i \<Longrightarrow> get (clear1 (set1 b i) i) j = get b j"
  by (auto simp: get_set1 get_clear1 cap_set1)

end

interpretation cells: bit_array cell_get cell_set cell_clear "\<lambda>bm :: 'w::len word list. LENGTH('w) * length bm"
  by unfold_locales (simp_all add: cell_get_set cell_get_clear)

section \<open>The 64-bit bitmap of the kernel\<close>

definition BITMAP_BITS_PER_CELL :: usize where
  "BITMAP_BITS_PER_CELL = 8 * 8"

definition BITMAP_TO_NUM_CELLS :: "usize \<Rightarrow> usize" where
  "BITMAP_TO_NUM_CELLS sz = (sz + BITMAP_BITS_PER_CELL - 1) div BITMAP_BITS_PER_CELL"

definition BITMAP_PARSE_INDEX :: "usize \<Rightarrow> usize \<times> usize" where
  "BITMAP_PARSE_INDEX index = (index div BITMAP_BITS_PER_CELL, index mod BITMAP_BITS_PER_CELL)"

definition init_bitmap :: "u64 list \<Rightarrow> usize \<Rightarrow> fault + u64 list" where
  "init_bitmap bm sz =
     (let n = unat (BITMAP_TO_NUM_CELLS sz) in
      if n \<le> length bm then Inr (replicate n 0 @ drop n bm) else Inl BadAccess)"

definition bitmap_get :: "u64 list \<Rightarrow> usize \<Rightarrow> fault + bool" where
  "bitmap_get bm index =
     (case BITMAP_PARSE_INDEX index of (idx, offset) \<Rightarrow>
        if unat idx < length bm
        then Inr (drop_bit (unat offset) (bm ! unat idx) AND 1 \<noteq> 0)
        else Inl BadAccess)"

definition bitmap_set :: "u64 list \<Rightarrow> usize \<Rightarrow> fault + u64 list" where
  "bitmap_set bm index =
     (case BITMAP_PARSE_INDEX index of (idx, offset) \<Rightarrow>
        if unat idx < length bm
        then Inr (bm[unat idx := bm ! unat idx OR push_bit (unat offset) 1])
        else Inl BadAccess)"

definition bitmap_clear :: "u64 list \<Rightarrow> usize \<Rightarrow> fault + u64 list" where
  "bitmap_clear bm index =
     (case BITMAP_PARSE_INDEX index of (idx, offset) \<Rightarrow>
        if unat idx < length bm
        then Inr (bm[unat idx := bm ! unat idx AND NOT (push_bit (unat offset) 1)])
        else Inl BadAccess)"

lemma parse_index:
  "BITMAP_PARSE_INDEX i = (idx, off) \<Longrightarrow> unat idx = unat i div 64 \<and> unat off = unat i mod 64"
  by (auto simp: BITMAP_PARSE_INDEX_def BITMAP_BITS_PER_CELL_def unat_div unat_mod)

lemma drop_bit_and_1: "(drop_bit n (w :: 'a::len word) AND 1 \<noteq> 0) = bit w n"
  by (simp add: and_one_eq odd_iff_mod_2_eq_one [symmetric] bit_iff_odd_drop_bit)

lemma bitmap_ops:
  assumes "unat i < 64 * length bm"
  shows bitmap_get_in: "bitmap_get bm i = Inr (cell_get bm (unat i))"
    and bitmap_set_in: "bitmap_set bm i = Inr (cell_set bm (unat i))"
    and bitmap_clear_in: "bitmap_clear bm i = Inr (cell_clear bm (unat i))"
  using assms parse_index [of i]
  by (auto simp: bitmap_get_def bitmap_set_def bitmap_clear_def cell_get_def cell_set_def
      cell_clear_def drop_bit_and_1 less_mult_imp_div_less mult.commute split: prod.splits)

end
