(* ===== verification/Bytes.thy ===== *)
theory Bytes
  imports CString
begin

text \<open>
  Little-endian words in byte memory, and pages. The kernel reads and writes pointers,
  page-table entries and on-disk integers through casts of byte addresses; these are
  the loads and stores such a cast stands for on AArch64, with the facts about
  aliasing that the allocators and the page tables need.
\<close>

section \<open>Loads and stores\<close>

primrec read_le :: "nat \<Rightarrow> mem \<Rightarrow> u64 \<Rightarrow> u64" where
  "read_le 0 m a = 0"
| "read_le (Suc n) m a = ucast (m a) OR push_bit 8 (read_le n m (a + 1))"

definition read64 :: "mem \<Rightarrow> u64 \<Rightarrow> u64" where
  "read64 m a = read_le 8 m a"

definition write64 :: "mem \<Rightarrow> u64 \<Rightarrow> u64 \<Rightarrow> mem" where
  "write64 m a v =
     (\<lambda>x. if x - a < 8 then ucast (drop_bit (8 * unat (x - a)) v) else m x)"

lemma bit_read_le:
  "bit (read_le n m a) k \<longleftrightarrow> k < 64 \<and> k < 8 * n \<and> bit (m (a + of_nat (k div 8))) (k mod 8)"
proof (induction n arbitrary: a k)
  case 0
  then show ?case by simp
next
  case (Suc n)
  show ?case
  proof (cases "k < 8")
    case True
    then show ?thesis by (simp add: bit_simps)
  next
    case False
    then have "k = (k - 8) + 8" by simp
    then have "k div 8 = Suc ((k - 8) div 8)" "k mod 8 = (k - 8) mod 8"
      by (metis div_add_self2 Suc_eq_plus1 zero_neq_numeral, metis mod_add_self2)
    moreover have "\<not> bit (m a) k" using False bit_imp_le_length [of "m a" k] by auto
    ultimately show ?thesis using False Suc.IH [of "a + 1" "k - 8"]
      by (auto simp: bit_simps algebra_simps)
  qed
qed

lemma read64_write64 [simp]: "read64 (write64 m a v) a = v"
proof (rule bit_word_eqI)
  fix k :: nat
  assume "k < LENGTH(64)"
  then have k: "k < 64" by simp
  let ?i = "of_nat (k div 8) :: u64"
  have "unat ?i = k div 8" using k by (intro unat_of_nat_lt) simp
  moreover have "?i < 8" using calculation k by (simp add: word_less_nat_alt)
  moreover have "8 * (k div 8) + k mod 8 = k" by simp
  ultimately show "bit (read64 (write64 m a v) a) k = bit v k"
    using k by (simp add: read64_def bit_read_le write64_def bit_simps)
qed

lemma read64_cong:
  assumes "\<And>x. x - a < 8 \<Longrightarrow> m x = m' x"
  shows "read64 m a = read64 m' a"
proof (rule bit_word_eqI)
  fix k :: nat
  assume "k < LENGTH(64)"
  then have k: "k < 64" by simp
  let ?i = "of_nat (k div 8) :: u64"
  have "unat ?i = k div 8" using k by (intro unat_of_nat_lt) simp
  then have "?i < 8" using k by (simp add: word_less_nat_alt)
  then have "m (a + ?i) = m' (a + ?i)" by (intro assms) simp
  then show "bit (read64 m a) k = bit (read64 m' a) k"
    using k by (simp add: read64_def bit_read_le)
qed

lemma write64_outside: "\<not> x - a < 8 \<Longrightarrow> write64 m a v x = m x"
  by (simp add: write64_def)

lemma read64_zero: "(\<And>x. x - a < 8 \<Longrightarrow> m x = 0) \<Longrightarrow> read64 m a = 0"
proof -
  assume "\<And>x. x - a < 8 \<Longrightarrow> m x = 0"
  then have "read64 m a = read64 (\<lambda>_. 0) a" by (intro read64_cong)
  moreover have "read64 (\<lambda>_. 0) a = 0"
    by (rule bit_word_eqI) (simp add: read64_def bit_read_le)
  ultimately show ?thesis by simp
qed

section \<open>Pages\<close>

text \<open>\<^verbatim>\<open>round_down\<close> and \<^verbatim>\<open>round_up\<close> of \<^verbatim>\<open>src/common/defines.h\<close>.\<close>

definition round_down :: "u64 \<Rightarrow> u64 \<Rightarrow> u64" where
  "round_down a b = a - a mod b"

definition round_up :: "u64 \<Rightarrow> u64 \<Rightarrow> u64" where
  "round_up a b = round_down (a + b - 1) b"

definition PAGE_SIZE :: u64 where
  "PAGE_SIZE = 4096"

definition aligned :: "u64 \<Rightarrow> bool" where
  "aligned p \<longleftrightarrow> p mod PAGE_SIZE = 0"

definition in_page :: "u64 \<Rightarrow> u64 \<Rightarrow> bool" where
  "in_page p x \<longleftrightarrow> x - p < PAGE_SIZE"

lemma aligned_unat: "aligned p \<longleftrightarrow> unat p mod 4096 = 0"
  by (simp add: aligned_def PAGE_SIZE_def word_unat_eq_iff unat_mod)

lemma in_page_div:
  assumes "aligned p"
  shows "in_page p x \<longleftrightarrow> unat x div 4096 = unat p div 4096"
proof
  obtain k where k: "unat p = 4096 * k" using assms by (auto simp: aligned_unat)
  have kb: "k < 2 ^ 52" using unsigned_less [of p, where ?'a = nat] k by simp
  have lx: "unat x < 2 ^ 64" using unsigned_less [of x, where ?'a = nat] by simp
  {
    assume "in_page p x"
    then have d: "unat (x - p) < 4096"
      by (simp add: in_page_def PAGE_SIZE_def word_less_nat_alt)
    have "unat x = unat (p + (x - p))" by simp
    also have "\<dots> = 4096 * k + unat (x - p)"
      using d k kb by (subst unat_plus_if') simp
    finally show "unat x div 4096 = unat p div 4096" using d k by simp
  }
  {
    assume "unat x div 4096 = unat p div 4096"
    then have "4096 * k \<le> unat x" "unat x < 4096 * k + 4096" using k by auto
    moreover from this have "p \<le> x" using k by (simp add: word_le_nat_alt)
    ultimately show "in_page p x"
      using k by (simp add: in_page_def PAGE_SIZE_def word_less_nat_alt unat_minus_word)
  }
qed

lemma in_page_self [simp]: "in_page p p"
  by (simp add: in_page_def PAGE_SIZE_def)

lemma pages_disjoint:
  assumes "aligned p" "aligned q" "in_page p x" "in_page q x"
  shows "p = q"
proof -
  have "unat p div 4096 = unat q div 4096" using assms by (simp add: in_page_div)
  then show ?thesis using assms(1,2) by (simp add: aligned_unat word_unat_eq_iff) (metis div_mod_decomp)
qed

lemma word_in_page: "x - p < 8 \<Longrightarrow> in_page p x"
  by (simp add: in_page_def PAGE_SIZE_def word_less_nat_alt)

end
