(* ===== verification/PhysMem.thy ===== *)
theory PhysMem
  imports Bytes Locks
begin

text \<open>
  The physical page allocator (\<^verbatim>\<open>src/core/physical_memory.c\<close>): a free list threaded
  through the first word of every free page, behind one spinlock. The model keeps the
  byte memory, so the list really lives in the pages it hands out. The linker symbol
  \<^verbatim>\<open>end\<close> is the parameter \<open>kend\<close>. The contract the rest of the kernel relies on is the locale
  \<open>page_allocator\<close>.
\<close>

section \<open>State and operations\<close>

definition KSPACE_MASK :: u64 where
  "KSPACE_MASK = 0xffff000000000000"

definition P2K :: "u64 \<Rightarrow> u64" where
  "P2K addr = addr + KSPACE_MASK"

definition K2P :: "u64 \<Rightarrow> u64" where
  "K2P addr = addr - KSPACE_MASK"

definition ROUNDDOWN :: "u64 \<Rightarrow> u64 \<Rightarrow> u64" where
  "ROUNDDOWN a n = a - a mod n"

definition ROUNDUP :: "u64 \<Rightarrow> u64 \<Rightarrow> u64" where
  "ROUNDUP a n = ROUNDDOWN (a + n - 1) n"

definition phystop :: u64 where
  "phystop = 0x3F000000"

record PMemory =
  kmem :: mem
  head_next :: u64
  pm_lock :: SpinLock

text \<open>The byte loop that clears a page.\<close>

fun clear_bytes :: "nat \<Rightarrow> mem \<Rightarrow> u64 \<Rightarrow> mem" where
  "clear_bytes 0 m p = m"
| "clear_bytes (Suc n) m p = clear_bytes n (m(p := 0)) (p + 1)"

definition freelist_alloc :: "PMemory \<Rightarrow> u64 \<times> PMemory" where
  "freelist_alloc s =
     (let f = head_next s in
      if f \<noteq> 0
      then (f, s\<lparr>head_next := read64 (kmem s) f, kmem := clear_bytes 4096 (kmem s) f\<rparr>)
      else (f, s))"

definition freelist_free :: "u64 \<Rightarrow> u64 \<Rightarrow> PMemory \<Rightarrow> fault + PMemory" where
  "freelist_free kend page_address s =
     (if page_address mod PAGE_SIZE \<noteq> 0 \<or> page_address < kend \<or> P2K phystop \<le> page_address
      then Inl (Panic ''ERR ADDR'')
      else let m = clear_bytes 4096 (kmem s) page_address
           in Inr (s\<lparr>kmem := write64 m page_address (head_next s), head_next := page_address\<rparr>))"

text \<open>The loop stops at the end of the range; a pointer past the end of the address space is an error.\<close>

function free_range :: "u64 \<Rightarrow> u64 \<Rightarrow> u64 \<Rightarrow> PMemory \<Rightarrow> fault + PMemory" where
  "free_range kend p stop s =
     (if p + PAGE_SIZE < p then Inl BadAccess
      else if p + PAGE_SIZE \<le> stop then
        (case freelist_free kend p s of
           Inl e \<Rightarrow> Inl e
         | Inr s' \<Rightarrow> free_range kend (p + PAGE_SIZE) stop s')
      else Inr s)"
  by pat_completeness auto
termination
proof (relation "measure (\<lambda>(kend, p, stop, s). 2 ^ 64 - unat p)")
  fix kend p stop :: u64 and s s' :: PMemory
  assume "\<not> p + PAGE_SIZE < p"
  then have "unat p \<le> unat (p + PAGE_SIZE)" by (simp add: word_le_nat_alt [symmetric] not_less)
  moreover have "unat p \<noteq> unat (p + PAGE_SIZE)"
    by (simp add: PAGE_SIZE_def word_unat_eq_iff [symmetric])
  moreover have "unat (p + PAGE_SIZE) < 2 ^ 64"
    using unsigned_less [of "p + PAGE_SIZE", where ?'a = nat] by simp
  ultimately show "((kend, p + PAGE_SIZE, stop, s'), kend, p, stop, s)
      \<in> measure (\<lambda>(kend, p, stop, s). 2 ^ 64 - unat p)"
    by simp
qed simp

declare free_range.simps [simp del]

definition init_memory_manager :: "u64 \<Rightarrow> PMemory \<Rightarrow> fault + PMemory" where
  "init_memory_manager kend s =
     (case free_range kend (ROUNDUP kend PAGE_SIZE) (P2K phystop) s of
        Inl e \<Rightarrow> Inl e
      | Inr s' \<Rightarrow> Inr (s'\<lparr>pm_lock := init_spinlock ''pmem''\<rparr>))"

definition kalloc :: "nat \<Rightarrow> PMemory \<Rightarrow> fault + u64 \<times> PMemory" where
  "kalloc me s =
     (case acquire_spinlock me (pm_lock s) of
        Inl e \<Rightarrow> Inl e
      | Inr l \<Rightarrow>
         (case freelist_alloc (s\<lparr>pm_lock := l\<rparr>) of (p, s1) \<Rightarrow>
            (case release_spinlock (pm_lock s1) of
               Inl e \<Rightarrow> Inl e
             | Inr l' \<Rightarrow> Inr (p, s1\<lparr>pm_lock := l'\<rparr>))))"

definition kfree :: "u64 \<Rightarrow> nat \<Rightarrow> u64 \<Rightarrow> PMemory \<Rightarrow> fault + PMemory" where
  "kfree kend me p s =
     (case acquire_spinlock me (pm_lock s) of
        Inl e \<Rightarrow> Inl e
      | Inr l \<Rightarrow>
         (case freelist_free kend p (s\<lparr>pm_lock := l\<rparr>) of
            Inl e \<Rightarrow> Inl e
          | Inr s1 \<Rightarrow>
             (case release_spinlock (pm_lock s1) of
                Inl e \<Rightarrow> Inl e
              | Inr l' \<Rightarrow> Inr (s1\<lparr>pm_lock := l'\<rparr>))))"

section \<open>The invariant\<close>

fun freelist :: "mem \<Rightarrow> u64 \<Rightarrow> u64 list \<Rightarrow> bool" where
  "freelist m a [] \<longleftrightarrow> a = 0"
| "freelist m a (p # ps) \<longleftrightarrow> a = p \<and> p \<noteq> 0 \<and> freelist m (read64 m p) ps"

definition valid_page :: "u64 \<Rightarrow> u64 \<Rightarrow> bool" where
  "valid_page kend p \<longleftrightarrow> aligned p \<and> p \<noteq> 0 \<and> kend \<le> p \<and> p < P2K phystop"

definition pm_inv :: "u64 \<Rightarrow> PMemory \<Rightarrow> u64 list \<Rightarrow> bool" where
  "pm_inv kend s ps \<longleftrightarrow> freelist (kmem s) (head_next s) ps \<and> distinct ps \<and>
     (\<forall>p \<in> set ps. valid_page kend p)"

lemma clear_bytes_apply:
  "n \<le> 4096 \<Longrightarrow> clear_bytes n m p x = (if unat (x - p) < n then 0 else m x)"
proof (induction n arbitrary: m p)
  case 0
  then show ?case by simp
next
  case (Suc n)
  have *: "unat (x - (p + 1)) < n \<longleftrightarrow> unat (x - p) < Suc n \<and> x \<noteq> p"
  proof (cases "x = p")
    case True
    have "unat (- 1 :: u64) = 2 ^ 64 - 1" by (simp add: unsigned_minus_1_eq_mask mask_eq_exp_minus_1)
    then show ?thesis using True Suc.prems by simp
  next
    case False
    then have "unat (x - p - 1) = unat (x - p) - 1" by (intro unat_minus_one) simp
    moreover have "unat (x - p) \<noteq> 0" using False by (simp add: unat_eq_zero)
    ultimately show ?thesis using False by (auto simp: diff_diff_eq)
  qed
  have "clear_bytes (Suc n) m p x = (if unat (x - (p + 1)) < n then 0 else (m(p := 0)) x)"
    unfolding clear_bytes.simps by (rule Suc.IH) (use Suc.prems in simp)
  then show ?case using * by auto
qed

lemma clear_page_apply: "clear_bytes 4096 m p x = (if in_page p x then 0 else m x)"
  by (simp add: clear_bytes_apply in_page_def PAGE_SIZE_def word_less_nat_alt)

lemma freelist_frame:
  assumes "freelist m a ps" "\<And>p x. p \<in> set ps \<Longrightarrow> in_page p x \<Longrightarrow> m' x = m x"
  shows "freelist m' a ps"
  using assms
proof (induction ps arbitrary: a)
  case (Cons p ps)
  have "read64 m' p = read64 m p"
    by (intro read64_cong Cons.prems(2) [of p] word_in_page) simp_all
  moreover have "freelist m' (read64 m p) ps" using Cons.prems by (intro Cons.IH) auto
  ultimately show ?case using Cons.prems(1) by simp
qed simp


lemma freelist_free_inv:
  assumes "pm_inv kend s ps" "valid_page kend p" "p \<notin> set ps"
  shows "\<exists>s'. freelist_free kend p s = Inr s' \<and> pm_inv kend s' (p # ps) \<and>
              pm_lock s' = pm_lock s \<and> (\<forall>x. \<not> in_page p x \<longrightarrow> kmem s' x = kmem s x)"
proof -
  let ?m = "write64 (clear_bytes 4096 (kmem s) p) p (head_next s)"
  have out: "?m x = kmem s x" if "\<not> in_page p x" for x
    using that word_in_page [of x p] by (auto simp: write64_def clear_page_apply)
  have "freelist ?m (head_next s) ps"
  proof (rule freelist_frame)
    show "?m x = kmem s x" if "q \<in> set ps" "in_page q x" for q x
      using that assms pages_disjoint [of p q x] by (intro out) (auto simp: pm_inv_def valid_page_def)
  qed (use assms in \<open>simp add: pm_inv_def\<close>)
  then show ?thesis
    using assms out by (auto simp: freelist_free_def pm_inv_def valid_page_def aligned_def Let_def)
qed

lemma freelist_alloc_inv:
  assumes "pm_inv kend s ps"
  shows "case ps of
      [] \<Rightarrow> freelist_alloc s = (0, s)
    | p # qs \<Rightarrow> \<exists>s'. freelist_alloc s = (p, s') \<and> pm_inv kend s' qs \<and> pm_lock s' = pm_lock s \<and>
        (\<forall>x. kmem s' x = (if in_page p x then 0 else kmem s x))"
proof (cases ps)
  case Nil
  then show ?thesis using assms by (simp add: pm_inv_def freelist_alloc_def)
next
  case (Cons p qs)
  let ?m = "clear_bytes 4096 (kmem s) p"
  have "freelist ?m (read64 (kmem s) p) qs"
  proof (rule freelist_frame)
    show "?m x = kmem s x" if "q \<in> set qs" "in_page q x" for q x
      using that assms Cons pages_disjoint [of p q x]
      by (auto simp: clear_page_apply pm_inv_def valid_page_def)
  qed (use assms Cons in \<open>simp add: pm_inv_def\<close>)
  then show ?thesis
    using assms Cons by (auto simp: freelist_alloc_def pm_inv_def Let_def clear_page_apply)
qed

text \<open>A write outside the free pages does not disturb the allocator.\<close>

lemma pm_inv_write:
  assumes "pm_inv kend s ps" "\<And>p x. p \<in> set ps \<Longrightarrow> in_page p x \<Longrightarrow> m' x = kmem s x"
  shows "pm_inv kend (s\<lparr>kmem := m'\<rparr>) ps"
  using assms freelist_frame [of "kmem s" "head_next s" ps m'] by (simp add: pm_inv_def)

section \<open>The contract\<close>

text \<open>
  A client's use of the allocator: allocate, or give back one of the pages it holds.
  \<open>run_pages\<close> carries the pages the client holds.
\<close>

datatype page_op = KAlloc | KFree nat

fun run_pages ::
  "('s \<Rightarrow> fault + u64 \<times> 's) \<Rightarrow> (u64 \<Rightarrow> 's \<Rightarrow> fault + 's) \<Rightarrow> page_op list \<Rightarrow> u64 list \<Rightarrow> 's \<Rightarrow>
   fault + u64 list \<times> 's" where
  "run_pages alloc free [] used s = Inr (used, s)"
| "run_pages alloc free (KAlloc # ops) used s =
     (case alloc s of
        Inl e \<Rightarrow> Inl e
      | Inr (p, s') \<Rightarrow> run_pages alloc free ops (if p = 0 then used else p # used) s')"
| "run_pages alloc free (KFree i # ops) used s =
     (if i < length used then
        (case free (used ! i) s of
           Inl e \<Rightarrow> Inl e
         | Inr s' \<Rightarrow> run_pages alloc free ops (remove1 (used ! i) used) s')
      else run_pages alloc free ops used s)"

locale page_allocator =
  fixes rep :: "'s \<Rightarrow> u64 list \<Rightarrow> bool"
    and alloc :: "'s \<Rightarrow> fault + u64 \<times> 's"
    and free :: "u64 \<Rightarrow> 's \<Rightarrow> fault + 's"
    and ok :: "u64 \<Rightarrow> bool"
    and mem_of :: "'s \<Rightarrow> mem"
  assumes alloc_none: "rep s [] \<Longrightarrow> \<exists>s'. alloc s = Inr (0, s') \<and> rep s' [] \<and> mem_of s' = mem_of s"
    and alloc_some: "rep s (p # ps) \<Longrightarrow> \<exists>s'. alloc s = Inr (p, s') \<and> rep s' ps \<and>
          mem_of s' = (\<lambda>x. if in_page p x then 0 else mem_of s x)"
    and free_page: "rep s ps \<Longrightarrow> ok p \<Longrightarrow> p \<notin> set ps \<Longrightarrow> \<exists>s'. free p s = Inr s' \<and> rep s' (p # ps) \<and>
          (\<forall>x. \<not> in_page p x \<longrightarrow> mem_of s' x = mem_of s x)"
    and rep_ok: "rep s ps \<Longrightarrow> distinct ps \<and> (\<forall>p \<in> set ps. ok p)"
    and ok_page: "ok p \<Longrightarrow> p \<noteq> 0 \<and> aligned p"
begin

lemma run_pages_conserves:
  assumes "rep s ps" "distinct (used @ ps)" "\<forall>p \<in> set used. ok p"
  shows "\<exists>used' ps' s'. run_pages alloc free ops used s = Inr (used', s') \<and> rep s' ps' \<and>
    distinct (used' @ ps') \<and> set (used' @ ps') = set (used @ ps)"
  using assms
proof (induction ops arbitrary: used ps s)
  case Nil
  then show ?case by auto
next
  case (Cons op ops)
  show ?case
  proof (cases op)
    case KAlloc
    show ?thesis
    proof (cases ps)
      case Nil
      then obtain s' where "alloc s = Inr (0, s')" "rep s' []" using alloc_none Cons.prems by blast
      then show ?thesis using Cons.IH [of s' "[]" used] Cons.prems Nil KAlloc by simp
    next
      case (Cons p qs)
      then obtain s' where s': "alloc s = Inr (p, s')" "rep s' qs" using alloc_some Cons.prems by blast
      have "p \<noteq> 0" "ok p" using rep_ok [of s ps] ok_page [of p] Cons.prems Cons by auto
      then show ?thesis using Cons.IH [of s' qs "p # used"] Cons.prems Cons KAlloc s' by auto
    qed
  next
    case (KFree i)
    show ?thesis
    proof (cases "i < length used")
      case True
      let ?p = "used ! i"
      have "?p \<in> set used" using True by simp
      then have "ok ?p" "?p \<notin> set ps" using Cons.prems by auto
      then obtain s' where s': "free ?p s = Inr s'" "rep s' (?p # ps)"
        using free_page [of s ps ?p] Cons.prems by blast
      have "set (remove1 ?p used @ ?p # ps) = set (used @ ps)"
        using \<open>?p \<in> set used\<close> Cons.prems by auto
      moreover have "distinct (remove1 ?p used @ ?p # ps)"
        using Cons.prems \<open>?p \<notin> set ps\<close> by (auto simp: distinct_remove1)
      moreover have "\<forall>p \<in> set (remove1 ?p used). ok p"
        using Cons.prems set_remove1_subset [of ?p used] by blast
      ultimately show ?thesis
        using Cons.IH [of s' "?p # ps" "remove1 ?p used"] True KFree s' by simp
    next
      case False
      then show ?thesis using Cons KFree by simp
    qed
  qed
qed

end

definition pm_rep :: "u64 \<Rightarrow> PMemory \<Rightarrow> u64 list \<Rightarrow> bool" where
  "pm_rep kend s ps \<longleftrightarrow> pm_inv kend s ps \<and> \<not> locked (pm_lock s)"

lemma pm_inv_lock [simp]: "pm_inv kend (s\<lparr>pm_lock := l\<rparr>) ps = pm_inv kend s ps"
  by (simp add: pm_inv_def)

lemma kalloc_free_lock:
  assumes "\<not> locked (pm_lock s)" "freelist_alloc (s\<lparr>pm_lock := (pm_lock s)\<lparr>locked := True, cpu := Some me\<rparr>\<rparr>) = (p, s1)"
    "pm_lock s1 = (pm_lock s)\<lparr>locked := True, cpu := Some me\<rparr>"
  shows "kalloc me s = Inr (p, s1\<lparr>pm_lock := (pm_lock s)\<lparr>locked := False, cpu := None\<rparr>\<rparr>)"
  using assms by (simp add: kalloc_def spinlock_defs)

lemma kfree_free_lock:
  assumes "\<not> locked (pm_lock s)" "freelist_free kend p (s\<lparr>pm_lock := (pm_lock s)\<lparr>locked := True, cpu := Some me\<rparr>\<rparr>) = Inr s1"
    "pm_lock s1 = (pm_lock s)\<lparr>locked := True, cpu := Some me\<rparr>"
  shows "kfree kend me p s = Inr (s1\<lparr>pm_lock := (pm_lock s)\<lparr>locked := False, cpu := None\<rparr>\<rparr>)"
  using assms by (simp add: kfree_def spinlock_defs)

interpretation pm: page_allocator "pm_rep kend" "kalloc me" "kfree kend me" "valid_page kend" kmem
  for kend me
proof
  fix s :: PMemory and p ps
  let ?s = "s\<lparr>pm_lock := (pm_lock s)\<lparr>locked := True, cpu := Some me\<rparr>\<rparr>"
  show "\<exists>s'. kalloc me s = Inr (0, s') \<and> pm_rep kend s' [] \<and> kmem s' = kmem s" if "pm_rep kend s []"
    using that freelist_alloc_inv [of kend ?s "[]"] kalloc_free_lock [of s me 0 ?s]
    by (auto simp: pm_rep_def)
  show "\<exists>s'. kalloc me s = Inr (p, s') \<and> pm_rep kend s' ps \<and>
      kmem s' = (\<lambda>x. if in_page p x then 0 else kmem s x)" if "pm_rep kend s (p # ps)"
    using that freelist_alloc_inv [of kend ?s "p # ps"] kalloc_free_lock [of s me p]
    by (fastforce simp: pm_rep_def)
  show "\<exists>s'. kfree kend me p s = Inr s' \<and> pm_rep kend s' (p # ps) \<and>
      (\<forall>x. \<not> in_page p x \<longrightarrow> kmem s' x = kmem s x)"
    if "pm_rep kend s ps" "valid_page kend p" "p \<notin> set ps"
    using that freelist_free_inv [of kend ?s ps p] kfree_free_lock [of s kend p me]
    by (fastforce simp: pm_rep_def)
qed (auto simp: pm_rep_def pm_inv_def valid_page_def)

section \<open>Initialisation\<close>

definition all_pages :: "u64 \<Rightarrow> u64 set" where
  "all_pages lo = {q. aligned q \<and> lo \<le> q \<and> q < P2K phystop}"

lemma P2K_phystop: "P2K phystop = 0xffff00003f000000"
  by (simp add: P2K_def phystop_def KSPACE_MASK_def)

text \<open>Below the top of memory the next page starts 4096 higher, without wrapping, and nothing lies between.\<close>

lemma next_page:
  assumes "aligned p" "p < P2K phystop"
  shows "unat (p + PAGE_SIZE) = unat p + 4096" "aligned (p + PAGE_SIZE)" "p + PAGE_SIZE \<le> P2K phystop"
    and "all_pages p = insert p (all_pages (p + PAGE_SIZE))"
proof -
  have top: "unat (P2K phystop) = 0xffff00003f000000" by (simp add: P2K_phystop)
  have lt: "unat p < 0xffff00003f000000" using assms(2) top by (simp add: word_less_nat_alt)
  obtain k where k: "unat p = 4096 * k" using assms(1) by (auto simp: aligned_unat)
  show 1: "unat (p + PAGE_SIZE) = unat p + 4096"
    using lt by (subst unat_plus_if') (simp add: PAGE_SIZE_def)
  then show "aligned (p + PAGE_SIZE)" using k by (simp add: aligned_unat)
  have "unat p + 4096 \<le> 0xffff00003f000000" using lt k by simp
  then show "p + PAGE_SIZE \<le> P2K phystop" using 1 top by (simp add: word_le_nat_alt)
  have "q = p \<or> p + PAGE_SIZE \<le> q" if al: "aligned q" and "p \<le> q" for q
  proof -
    obtain j where j: "unat q = 4096 * j" using al by (auto simp: aligned_unat)
    have "unat p \<le> unat q" using that(2) by (simp add: word_le_nat_alt)
    then have "j = k \<or> Suc k \<le> j" using j k by auto
    then show ?thesis using 1 j k by (auto simp: word_le_nat_alt word_unat_eq_iff)
  qed
  moreover have "p \<le> p + PAGE_SIZE" using 1 by (simp add: word_le_nat_alt)
  ultimately show "all_pages p = insert p (all_pages (p + PAGE_SIZE))"
    using assms unfolding all_pages_def by auto
qed

lemma free_range_all:
  assumes "pm_inv kend s ps" "aligned p" "p \<noteq> 0" "kend \<le> p" "p \<le> P2K phystop" "set ps \<inter> all_pages p = {}"
  shows "\<exists>s' qs. free_range kend p (P2K phystop) s = Inr s' \<and> pm_inv kend s' qs \<and>
    set qs = set ps \<union> all_pages p"
  using assms
proof (induction "unat (P2K phystop) - unat p" arbitrary: p s ps rule: less_induct)
  case less
  show ?case
  proof (cases "p = P2K phystop")
    case True
    have "\<not> P2K phystop + PAGE_SIZE < P2K phystop" "\<not> P2K phystop + PAGE_SIZE \<le> P2K phystop"
      by (simp_all add: P2K_phystop PAGE_SIZE_def)
    moreover have "all_pages (P2K phystop) = {}" by (auto simp: all_pages_def)
    ultimately show ?thesis using less.prems True by (subst free_range.simps) auto
  next
    case False
    then have lt: "p < P2K phystop" using less.prems(5) by simp
    note np = next_page [OF less.prems(2) lt]
    have vp: "valid_page kend p" using less.prems lt by (simp add: valid_page_def)
    have "p \<notin> set ps" using less.prems(6) np(4) by auto
    then obtain s1 where s1: "freelist_free kend p s = Inr s1" "pm_inv kend s1 (p # ps)"
      using freelist_free_inv [OF less.prems(1) vp] by blast
    have "unat (P2K phystop) - unat (p + PAGE_SIZE) < unat (P2K phystop) - unat p"
      using np(1) lt by (simp add: word_less_nat_alt)
    moreover have "p + PAGE_SIZE \<noteq> 0" using np(1) by (metis add_eq_0_iff_both_eq_0 unat_0 zero_neq_numeral)
    moreover have "kend \<le> p + PAGE_SIZE" using less.prems(4) np(1) by (simp add: word_le_nat_alt)
    moreover have "p \<notin> all_pages (p + PAGE_SIZE)" using np(1) by (simp add: all_pages_def word_le_nat_alt)
    ultimately obtain s' qs where "free_range kend (p + PAGE_SIZE) (P2K phystop) s1 = Inr s'"
        "pm_inv kend s' qs" "set qs = set (p # ps) \<union> all_pages (p + PAGE_SIZE)"
      using less.hyps [OF _ s1(2) np(2) _ _ np(3)] less.prems(6) np(4) by auto
    moreover have "\<not> p + PAGE_SIZE < p" using np(1) by (simp add: word_less_nat_alt)
    ultimately show ?thesis using np(3,4) s1(1) by (subst free_range.simps) auto
  qed
qed

lemma roundup_page:
  assumes "0 < kend" "kend \<le> P2K phystop"
  shows "aligned (ROUNDUP kend PAGE_SIZE)" "ROUNDUP kend PAGE_SIZE \<noteq> 0" "kend \<le> ROUNDUP kend PAGE_SIZE"
    "ROUNDUP kend PAGE_SIZE \<le> P2K phystop" "all_pages (ROUNDUP kend PAGE_SIZE) = all_pages kend"
proof -
  let ?r = "ROUNDUP kend PAGE_SIZE"
  have top: "unat kend \<le> 0xffff00003f000000" using assms(2) by (simp add: P2K_phystop word_le_nat_alt)
  have pos: "0 < unat kend" using assms(1) by (simp add: word_less_nat_alt)
  have e: "unat (kend + PAGE_SIZE - 1) = unat kend + 4095"
    using top by (simp add: PAGE_SIZE_def unat_plus_if')
  have "(kend + PAGE_SIZE - 1) mod PAGE_SIZE \<le> kend + PAGE_SIZE - 1"
    by (simp add: word_le_nat_alt unat_mod)
  then have u: "unat ?r = (unat kend + 4095) - (unat kend + 4095) mod 4096"
    by (simp add: ROUNDUP_def ROUNDDOWN_def unat_minus_word unat_mod e) (simp add: PAGE_SIZE_def)
  then have r: "unat ?r = 4096 * ((unat kend + 4095) div 4096)" by (simp add: minus_mod_eq_mult_div)
  show a: "aligned ?r" using r by (simp add: aligned_unat)
  have "unat kend \<le> unat ?r" using r by (simp add: minus_mod_eq_mult_div [symmetric])
  then show k: "kend \<le> ?r" by (simp add: word_le_nat_alt)
  then show "?r \<noteq> 0" using pos by (auto simp: word_le_nat_alt)
  have "unat ?r \<le> 0xffff00003f000000" using r top by (simp; presburger)
  then show "?r \<le> P2K phystop" by (simp add: word_le_nat_alt P2K_phystop)
  have "?r \<le> q" if al: "aligned q" and "kend \<le> q" for q
  proof -
    obtain j where j: "unat q = 4096 * j" using al by (auto simp: aligned_unat)
    then have "unat kend \<le> 4096 * j" using that(2) by (simp add: word_le_nat_alt)
    then show ?thesis using r j by (simp add: word_le_nat_alt)
  qed
  then show "all_pages ?r = all_pages kend" using k unfolding all_pages_def by auto
qed

section \<open>Claims\<close>

definition one_page :: PMemory where
  "one_page = \<lparr>kmem = (\<lambda>_. 0), head_next = 0xffff000000100000, pm_lock = init_spinlock ''pmem''\<rparr>"

lemma one_page_rep: "pm_rep 0xffff000000100000 one_page [0xffff000000100000]"
  by (simp add: pm_rep_def pm_inv_def one_page_def init_spinlock_def read64_zero valid_page_def
      aligned_def PAGE_SIZE_def P2K_phystop)

text \<open>
  C9. However a client interleaves \<^verbatim>\<open>kalloc\<close> with \<^verbatim>\<open>kfree\<close> of pages it holds, no call panics, the
  pages it holds and the pages on the free list are pairwise distinct (so no page is handed
  out twice), and together they are always the pages there were at the start.
\<close>

theorem kalloc_kfree_conserve_pages:
  assumes "pm_rep kend s ps"
  shows "\<exists>used ps' s'. run_pages (kalloc me) (kfree kend me) ops [] s = Inr (used, s') \<and>
    pm_rep kend s' ps' \<and> distinct (used @ ps') \<and> set (used @ ps') = set ps"
  using pm.run_pages_conserves [OF assms, of "[]" me ops] pm.rep_ok [OF assms] by simp

theorem kalloc_kfree_conserve_pages_witness:
  "\<exists>used ps' s'. run_pages (kalloc 0) (kfree 0xffff000000100000 0) [KAlloc, KAlloc, KFree 0, KAlloc] [] one_page =
      Inr (used, s') \<and> distinct (used @ ps') \<and> set (used @ ps') = {0xffff000000100000}"
  using kalloc_kfree_conserve_pages [OF one_page_rep, of 0 "[KAlloc, KAlloc, KFree 0, KAlloc]"]
  by (metis list.simps(15) empty_set)

text \<open>
  C33. A page \<^verbatim>\<open>kalloc\<close> returns is the first page of the free list, its 4096 bytes are all zero, and
  no byte outside it has changed; the rest of the list stays free.
\<close>

theorem kalloc_zeroed:
  assumes "pm_rep kend s (p # ps)"
  shows "\<exists>s'. kalloc me s = Inr (p, s') \<and> pm_rep kend s' ps \<and>
    (\<forall>x. kmem s' x = (if in_page p x then 0 else kmem s x))"
  using pm.alloc_some [OF assms, of me] by auto

theorem kalloc_zeroed_witness:
  "\<exists>s'. kalloc 0 one_page = Inr (0xffff000000100000, s') \<and> kmem s' 0xffff000000100007 = 0"
  using kalloc_zeroed [OF one_page_rep, of 0] by (auto simp: in_page_def PAGE_SIZE_def)

text \<open>
  C25. \<^verbatim>\<open>init_memory_manager\<close> puts every page between the end of the kernel image and the top of
  physical memory on the free list, each once, and no other page, and leaves the lock free.
\<close>

theorem init_memory_manager_pages:
  assumes "0 < kend" and "kend \<le> P2K phystop" and "head_next s = 0"
  shows "\<exists>s' ps. init_memory_manager kend s = Inr s' \<and> pm_rep kend s' ps \<and> distinct ps \<and>
    set ps = {q. aligned q \<and> kend \<le> q \<and> q < P2K phystop}"
proof -
  note r = roundup_page [OF assms(1,2)]
  have "pm_inv kend s []" using assms(3) by (simp add: pm_inv_def)
  from free_range_all [OF this r(1-4)] obtain s' qs where
    "free_range kend (ROUNDUP kend PAGE_SIZE) (P2K phystop) s = Inr s'" "pm_inv kend s' qs"
    "set qs = all_pages kend"
    using r(5) by auto
  then have "init_memory_manager kend s = Inr (s'\<lparr>pm_lock := init_spinlock ''pmem''\<rparr>)"
    "pm_rep kend (s'\<lparr>pm_lock := init_spinlock ''pmem''\<rparr>) qs" "distinct qs"
    by (simp_all add: init_memory_manager_def pm_rep_def init_spinlock_def pm_inv_def)
  then show ?thesis using \<open>set qs = all_pages kend\<close> unfolding all_pages_def by blast
qed

theorem init_memory_manager_pages_witness:
  "\<exists>s' ps. init_memory_manager 0xffff000000100123 \<lparr>kmem = (\<lambda>_. 7), head_next = 0, pm_lock = init_spinlock []\<rparr> = Inr s' \<and>
     pm_rep 0xffff000000100123 s' ps \<and> 0xffff000000101000 \<in> set ps"
proof -
  let ?s = "\<lparr>kmem = (\<lambda>_. 7), head_next = 0, pm_lock = init_spinlock []\<rparr>"
  have 1: "0 < (0xffff000000100123 :: u64)" "(0xffff000000100123 :: u64) \<le> P2K phystop" "head_next ?s = 0"
    by (simp_all add: P2K_phystop)
  have 2: "0xffff000000101000 \<in> {q. aligned q \<and> 0xffff000000100123 \<le> q \<and> q < P2K phystop}"
    by (simp add: P2K_phystop aligned_def PAGE_SIZE_def)
  show ?thesis using init_memory_manager_pages [OF 1] 2 by blast
qed

end
