(* ===== verification/Arena.thy ===== *)
theory Arena
  imports ListNode Bitmap PhysMem
begin

text \<open>
  The object arena (\<^verbatim>\<open>src/core/arena.c\<close>): fixed-size objects carved out of whole pages,
  each page with a header holding a bitmap of used slots, a count and a node of a circular list.
  Page headers are kept in a map from page addresses to records and list nodes in the heap of
  \<^verbatim>\<open>ListNode\<close>; the payload of an object is never touched. The page allocator is a pair of function
  parameters, as the C code has it, and what the arena needs of it is the locale
  \<open>page_allocator\<close>; the results are then stated for \<^verbatim>\<open>kalloc\<close> and \<^verbatim>\<open>kfree\<close>.
\<close>

section \<open>State\<close>

definition ARENA_MIN_OBJECT_SIZE :: usize where
  "ARENA_MIN_OBJECT_SIZE = 16"

definition ARENA_BITMAP_SIZE :: usize where
  "ARENA_BITMAP_SIZE = PAGE_SIZE div ARENA_MIN_OBJECT_SIZE"

text \<open>The header: a pointer, a list node of two pointers, four bitmap cells and a count, 64 bytes.\<close>

record ArenaPage =
  pg_arena :: nat
  used :: "u64 list"
  pcount :: usize

definition sizeof_ArenaPage :: usize where
  "sizeof_ArenaPage = 8 + 16 + 8 * BITMAP_TO_NUM_CELLS ARENA_BITMAP_SIZE + 8"

definition ARENA_PAGE_CAPACITY :: usize where
  "ARENA_PAGE_CAPACITY = PAGE_SIZE - sizeof_ArenaPage"

record Arena =
  alock :: SpinLock
  object_size :: usize
  max_count :: usize
  pages :: "u64 option"
  num_objects :: usize
  num_pages :: usize

record 'k arena_st =
  arena :: Arena
  hdr :: "u64 \<Rightarrow> ArenaPage"
  lnk :: "u64 lheap"
  ker :: 'k

section \<open>Operations\<close>

definition init_arena :: "usize \<Rightarrow> 'k arena_st \<Rightarrow> fault + 'k arena_st" where
  "init_arena osize s =
     (if \<not> ARENA_MIN_OBJECT_SIZE \<le> osize then Inl (Panic ''object_size is too small'')
      else if \<not> osize \<le> ARENA_PAGE_CAPACITY then Inl (Panic ''object_size is too large'')
      else Inr (s\<lparr>arena := \<lparr>alock = init_spinlock ''arena'', object_size = osize,
             max_count = ARENA_PAGE_CAPACITY div osize, pages = None, num_objects = 0, num_pages = 0\<rparr>\<rparr>))"

text \<open>The loop of \<^verbatim>\<open>clear_arena\<close>: \<open>None\<close> is a list that never comes back to its head.\<close>

partial_function (option) clear_pages ::
  "(u64 \<Rightarrow> 'k \<Rightarrow> fault + 'k) \<Rightarrow> u64 lheap \<Rightarrow> u64 \<Rightarrow> u64 \<Rightarrow> 'k \<Rightarrow> (fault + 'k) option" where
  "clear_pages free l head_ptr current k =
     (let nxt = next_ptr (l current) in
      case free current k of
        Inl e \<Rightarrow> Some (Inl e)
      | Inr k' \<Rightarrow> if nxt \<noteq> head_ptr then clear_pages free l head_ptr nxt k' else Some (Inr k'))"

definition clear_arena ::
  "(u64 \<Rightarrow> 'k \<Rightarrow> fault + 'k) \<Rightarrow> nat \<Rightarrow> 'k arena_st \<Rightarrow> (fault + 'k arena_st) option" where
  "clear_arena free me s =
     (case acquire_spinlock me (alock (arena s)) of
        Inl e \<Rightarrow> Some (Inl e)
      | Inr lk \<Rightarrow>
         (let s1 = s\<lparr>arena := (arena s)\<lparr>alock := lk\<rparr>\<rparr>;
              r = (case pages (arena s1) of
                     None \<Rightarrow> Some (Inr s1)
                   | Some h \<Rightarrow>
                      (case clear_pages free (lnk s1) h h (ker s1) of
                         None \<Rightarrow> None
                       | Some (Inl e) \<Rightarrow> Some (Inl e)
                       | Some (Inr k) \<Rightarrow>
                           Some (Inr (s1\<lparr>ker := k, arena := (arena s1)\<lparr>pages := None, num_objects := 0,
                                         num_pages := 0\<rparr>\<rparr>))))
          in case r of
               Some (Inr s2) \<Rightarrow>
                 (case release_spinlock (alock (arena s2)) of
                    Inl e \<Rightarrow> Some (Inl e)
                  | Inr lk' \<Rightarrow> Some (Inr (s2\<lparr>arena := (arena s2)\<lparr>alock := lk'\<rparr>\<rparr>)))
             | _ \<Rightarrow> r))"

definition init_arena_page :: "nat \<Rightarrow> u64 \<Rightarrow> 'k arena_st \<Rightarrow> fault + 'k arena_st" where
  "init_arena_page self page s =
     (case init_bitmap (used (hdr s page)) ARENA_BITMAP_SIZE of
        Inl e \<Rightarrow> Inl e
      | Inr u \<Rightarrow> Inr (s\<lparr>lnk := init_list_node page (lnk s),
                       hdr := (hdr s)(page := \<lparr>pg_arena = self, used = u, pcount = 0\<rparr>)\<rparr>))"

definition insert_page :: "u64 \<Rightarrow> 'k arena_st \<Rightarrow> 'k arena_st" where
  "insert_page page s =
     (case pages (arena s) of
        Some h \<Rightarrow>
          (case merge_list (Some page) (Some h) (lnk s) of
             (hp, l) \<Rightarrow> s\<lparr>lnk := l, arena := (arena s)\<lparr>pages := hp\<rparr>\<rparr>)
      | None \<Rightarrow> s\<lparr>arena := (arena s)\<lparr>pages := Some page\<rparr>\<rparr>)"

definition add_page ::
  "('k \<Rightarrow> fault + u64 \<times> 'k) \<Rightarrow> nat \<Rightarrow> 'k arena_st \<Rightarrow> fault + 'k arena_st" where
  "add_page alloc self s =
     (case alloc (ker s) of
        Inl e \<Rightarrow> Inl e
      | Inr (page, k) \<Rightarrow>
         (let s1 = s\<lparr>ker := k\<rparr> in
          if page mod PAGE_SIZE \<noteq> 0 then Inl (Panic ''page address must be aligned on ARENA_PAGE_SIZE'')
          else if page \<noteq> 0 then
            (case init_arena_page self page s1 of
               Inl e \<Rightarrow> Inl e
             | Inr s2 \<Rightarrow>
                (let s3 = insert_page page s2
                 in Inr (s3\<lparr>arena := (arena s3)\<lparr>num_pages := num_pages (arena s3) + 1\<rparr>\<rparr>)))
          else Inr s1))"

text \<open>The loop that looks for a clear bit.\<close>

function scan :: "u64 list \<Rightarrow> usize \<Rightarrow> usize \<Rightarrow> fault + usize option" where
  "scan bm index n =
     (if index < n then
        (case bitmap_get bm index of
           Inl e \<Rightarrow> Inl e
         | Inr b \<Rightarrow> if b = False then Inr (Some index) else scan bm (index + 1) n)
      else Inr None)"
  by pat_completeness auto
termination
  by (relation "measure (\<lambda>(bm, i, n). unat n - unat i)")
    (auto simp: unat_plus1 word_less_nat_alt)

declare scan.simps [simp del]

definition take_slot :: "u64 \<Rightarrow> usize \<Rightarrow> 'k arena_st \<Rightarrow> fault + 'k arena_st" where
  "take_slot page index s =
     (case bitmap_set (used (hdr s page)) index of
        Inl e \<Rightarrow> Inl e
      | Inr u \<Rightarrow> Inr (s\<lparr>hdr := (hdr s)(page := (hdr s page)\<lparr>used := u, pcount := pcount (hdr s page) + 1\<rparr>),
                       arena := (arena s)\<lparr>num_objects := num_objects (arena s) + 1\<rparr>\<rparr>))"

definition object_addr :: "usize \<Rightarrow> u64 \<Rightarrow> usize \<Rightarrow> u64" where
  "object_addr osize page index = page + sizeof_ArenaPage + index * osize"

text \<open>The second half of \<^verbatim>\<open>alloc_object\<close>: find an empty slot in the first page and take it.\<close>

definition alloc_slot :: "'k arena_st \<Rightarrow> fault + u64 \<times> 'k arena_st" where
  "alloc_slot s1 =
     (case pages (arena s1) of
        None \<Rightarrow> Inl BadAccess
      | Some page \<Rightarrow>
         (case scan (used (hdr s1 page)) 0 (max_count (arena s1)) of
            Inl e \<Rightarrow> Inl e
          | Inr None \<Rightarrow> Inl (Panic ''arena failed to allocate object'')
          | Inr (Some index) \<Rightarrow>
             (case take_slot page index s1 of
                Inl e \<Rightarrow> Inl e
              | Inr s2 \<Rightarrow>
                 (let s3 = (if max_count (arena s2) \<le> pcount (hdr s2 page)
                            then s2\<lparr>arena := (arena s2)\<lparr>pages := Some (next_ptr (lnk s2 page))\<rparr>\<rparr>
                            else s2)
                  in case release_spinlock (alock (arena s3)) of
                       Inl e \<Rightarrow> Inl e
                     | Inr lk' \<Rightarrow>
                         Inr (object_addr (object_size (arena s3)) page index,
                              s3\<lparr>arena := (arena s3)\<lparr>alock := lk'\<rparr>\<rparr>)))))"

definition alloc_object ::
  "('k \<Rightarrow> fault + u64 \<times> 'k) \<Rightarrow> nat \<Rightarrow> nat \<Rightarrow> 'k arena_st \<Rightarrow> fault + u64 \<times> 'k arena_st" where
  "alloc_object alloc self me s =
     (case acquire_spinlock me (alock (arena s)) of
        Inl e \<Rightarrow> Inl e
      | Inr lk \<Rightarrow>
         (let s0 = s\<lparr>arena := (arena s)\<lparr>alock := lk\<rparr>\<rparr>;
              no_slot = (case pages (arena s0) of
                           None \<Rightarrow> True
                         | Some h \<Rightarrow> max_count (arena s0) \<le> pcount (hdr s0 h))
          in case (if no_slot then add_page alloc self s0 else Inr s0) of
               Inl e \<Rightarrow> Inl e
             | Inr s1 \<Rightarrow> alloc_slot s1))"

definition get_container_page :: "u64 \<Rightarrow> u64" where
  "get_container_page object = round_down object PAGE_SIZE"

definition move_page_to_head :: "u64 \<Rightarrow> 'k arena_st \<Rightarrow> 'k arena_st" where
  "move_page_to_head page s =
     (if pages (arena s) \<noteq> Some page
      then insert_page page (s\<lparr>lnk := snd (detach_from_list page (lnk s))\<rparr>)
      else s)"

definition drop_slot :: "u64 \<Rightarrow> usize \<Rightarrow> 'k arena_st \<Rightarrow> fault + 'k arena_st" where
  "drop_slot page index s =
     (case bitmap_clear (used (hdr s page)) index of
        Inl e \<Rightarrow> Inl e
      | Inr u \<Rightarrow> Inr (s\<lparr>hdr := (hdr s)(page := (hdr s page)\<lparr>used := u, pcount := pcount (hdr s page) - 1\<rparr>),
                       arena := (arena s)\<lparr>num_objects := num_objects (arena s) - 1\<rparr>\<rparr>))"

text \<open>\<^verbatim>\<open>page->arena\<close> of an object of another arena names an arena outside this state.\<close>

definition free_object :: "nat \<Rightarrow> nat \<Rightarrow> u64 \<Rightarrow> 'k arena_st \<Rightarrow> fault + 'k arena_st" where
  "free_object self me object s =
     (let page = get_container_page object in
      if pg_arena (hdr s page) \<noteq> self then Inl BadAccess
      else case acquire_spinlock me (alock (arena s)) of
          Inl e \<Rightarrow> Inl e
        | Inr lk \<Rightarrow>
           (let s0 = s\<lparr>arena := (arena s)\<lparr>alock := lk\<rparr>\<rparr>;
                offset = object - (page + sizeof_ArenaPage);
                index = offset div object_size (arena s0)
            in if offset mod object_size (arena s0) \<noteq> 0 then Inl (Panic ''unexpected object offset'')
               else case bitmap_get (used (hdr s0 page)) index of
                   Inl e \<Rightarrow> Inl e
                 | Inr b \<Rightarrow>
                    if b \<noteq> True then Inl (Panic ''double free object'')
                    else case drop_slot page index s0 of
                        Inl e \<Rightarrow> Inl e
                      | Inr s1 \<Rightarrow>
                         (let s2 = move_page_to_head page s1
                          in case release_spinlock (alock (arena s2)) of
                               Inl e \<Rightarrow> Inl e
                             | Inr lk' \<Rightarrow> Inr (s2\<lparr>arena := (arena s2)\<lparr>alock := lk'\<rparr>\<rparr>))))"

section \<open>The invariant\<close>

abbreviation maxc :: "'k arena_st \<Rightarrow> nat" where
  "maxc s \<equiv> unat (max_count (arena s))"

definition slots :: "'k arena_st \<Rightarrow> u64 \<Rightarrow> nat set" where
  "slots s p = {i. i < maxc s \<and> cell_get (used (hdr s p)) i}"

definition sizes_ok :: "'k arena_st \<Rightarrow> bool" where
  "sizes_ok s \<longleftrightarrow> 16 \<le> unat (object_size (arena s)) \<and> unat (object_size (arena s)) \<le> 4032 \<and>
     maxc s = 4032 div unat (object_size (arena s))"

definition page_ok :: "nat \<Rightarrow> 'k arena_st \<Rightarrow> u64 \<Rightarrow> bool" where
  "page_ok self s p \<longleftrightarrow> aligned p \<and> p \<noteq> 0 \<and> pg_arena (hdr s p) = self \<and>
     length (used (hdr s p)) = 4 \<and> (\<forall>i. maxc s \<le> i \<longrightarrow> i < 256 \<longrightarrow> \<not> cell_get (used (hdr s p)) i) \<and>
     unat (pcount (hdr s p)) = card (slots s p)"

definition arena_list :: "'k arena_st \<Rightarrow> u64 list \<Rightarrow> bool" where
  "arena_list s ps \<longleftrightarrow>
     (case pages (arena s) of None \<Rightarrow> ps = [] | Some h \<Rightarrow> ps \<noteq> [] \<and> h = hd ps \<and> ring (lnk s) ps)"

text \<open>Pages with a free slot come before the full ones, so a full first page means no free slot at all.\<close>

definition full_last :: "'k arena_st \<Rightarrow> u64 list \<Rightarrow> bool" where
  "full_last s ps \<longleftrightarrow> (\<exists>as bs. ps = as @ bs \<and>
     (\<forall>p \<in> set as. card (slots s p) < maxc s) \<and> (\<forall>p \<in> set bs. card (slots s p) = maxc s))"

definition arena_core :: "nat \<Rightarrow> 'k arena_st \<Rightarrow> u64 list \<Rightarrow> bool" where
  "arena_core self s ps \<longleftrightarrow> sizes_ok s \<and> arena_list s ps \<and> (\<forall>p \<in> set ps. page_ok self s p) \<and>
     num_pages (arena s) = of_nat (length ps) \<and>
     num_objects (arena s) = of_nat (\<Sum>p\<leftarrow>ps. card (slots s p))"

definition arena_inv :: "nat \<Rightarrow> 'k arena_st \<Rightarrow> u64 list \<Rightarrow> bool" where
  "arena_inv self s ps \<longleftrightarrow> arena_core self s ps \<and> full_last s ps \<and> \<not> locked (alock (arena s))"

lemma sizes_bounds: "sizes_ok s \<Longrightarrow> 1 \<le> maxc s" "sizes_ok s \<Longrightarrow> maxc s \<le> 252"
proof -
  assume s: "sizes_ok s"
  let ?o = "unat (object_size (arena s))"
  have m: "maxc s = 4032 div ?o" and o: "16 \<le> ?o" "?o \<le> 4032" using s by (simp_all add: sizes_ok_def)
  show "1 \<le> maxc s" using o unfolding m by (simp add: div_greater_zero_iff Suc_le_eq)
  have "4032 div ?o \<le> 4032 div 16" using o by (intro div_le_mono2) simp_all
  then show "maxc s \<le> 252" unfolding m by simp
qed

lemma finite_slots [simp]: "finite (slots s p)"
  by (rule finite_subset [of _ "{..<maxc s}"]) (auto simp: slots_def)

lemma slots_subset: "slots s p \<subseteq> {..<maxc s}"
  by (auto simp: slots_def)

lemma card_slots_le: "card (slots s p) \<le> maxc s"
  using card_mono [OF finite_lessThan slots_subset] by simp

lemma arena_update_id [simp]: "s\<lparr>arena := arena s\<rparr> = s"
  by simp

lemma alock_update [simp]:
  "slots (s\<lparr>arena := a\<lparr>alock := l\<rparr>\<rparr>) p = slots (s\<lparr>arena := a\<rparr>) p"
  "arena_core self (s\<lparr>arena := a\<lparr>alock := l\<rparr>\<rparr>) ps = arena_core self (s\<lparr>arena := a\<rparr>) ps"
  "full_last (s\<lparr>arena := a\<lparr>alock := l\<rparr>\<rparr>) ps = full_last (s\<lparr>arena := a\<rparr>) ps"
  by (simp_all add: slots_def arena_core_def full_last_def sizes_ok_def arena_list_def page_ok_def
      cong: option.case_cong)

lemma ker_update [simp]:
  "slots (s\<lparr>ker := k\<rparr>) p = slots s p"
  "arena_core self (s\<lparr>ker := k\<rparr>) ps = arena_core self s ps"
  "full_last (s\<lparr>ker := k\<rparr>) ps = full_last s ps"
  by (simp_all add: slots_def arena_core_def full_last_def sizes_ok_def arena_list_def page_ok_def
      cong: option.case_cong)

lemma arena_core_distinct: "arena_core self s ps \<Longrightarrow> distinct ps"
  by (auto simp: arena_core_def arena_list_def ring_distinct split: option.splits)

section \<open>Slots\<close>

lemma scan_spec:
  assumes "length bm = 4" "unat n \<le> 256"
  shows "(\<exists>j. scan bm i n = Inr (Some j) \<and> unat j < unat n \<and> \<not> cell_get bm (unat j)) \<or>
         scan bm i n = Inr None \<and> (\<forall>j. unat i \<le> j \<longrightarrow> j < unat n \<longrightarrow> cell_get bm j)"
  using assms
proof (induction bm i n rule: scan.induct)
  case (1 bm i n)
  show ?case
  proof (cases "i < n")
    case True
    then have b: "bitmap_get bm i = Inr (cell_get bm (unat i))"
      using "1.prems" by (intro bitmap_get_in) (simp add: word_less_nat_alt)
    show ?thesis
    proof (cases "cell_get bm (unat i)")
      case False
      then show ?thesis using True b by (subst scan.simps) (auto simp: word_less_nat_alt scan.simps)
    next
      case set: True
      have step: "scan bm i n = scan bm (i + 1) n" using True b set by (subst scan.simps) simp
      have "unat (i + 1) = Suc (unat i)" using True by (rule unat_plus1)
      then have "(\<forall>j. unat (i + 1) \<le> j \<longrightarrow> j < unat n \<longrightarrow> cell_get bm j) \<Longrightarrow>
          (\<forall>j. unat i \<le> j \<longrightarrow> j < unat n \<longrightarrow> cell_get bm j)"
        using set by (metis Suc_leI le_neq_implies_less)
      then show ?thesis using "1.IH" [OF True b] set "1.prems" unfolding step by auto
    qed
  next
    case False
    then show ?thesis by (subst scan.simps) (auto simp: word_less_nat_alt scan.simps)
  qed
qed

lemma sum_list_point:
  assumes "distinct xs" "p \<in> set xs" "\<And>q. q \<noteq> p \<Longrightarrow> f q = g q"
  shows "sum_list (map f xs) + g p = sum_list (map g xs) + (f p :: nat)"
  using assms
proof (induction xs)
  case (Cons x xs)
  show ?case
  proof (cases "x = p")
    case True
    have "map f xs = map g xs"
    proof (rule map_cong [OF refl])
      fix q
      assume "q \<in> set xs"
      then have "q \<noteq> p" using Cons.prems(1) True by auto
      then show "f q = g q" by (rule Cons.prems(3))
    qed
    then have "sum_list (map f xs) = sum_list (map g xs)" by (rule arg_cong)
    then show ?thesis using True by simp
  next
    case False
    then show ?thesis using Cons by simp
  qed
qed simp

text \<open>Changing the bitmap and the count of one page, and the number of objects with them.\<close>

definition upd_page :: "u64 \<Rightarrow> u64 list \<Rightarrow> usize \<Rightarrow> usize \<Rightarrow> 'k arena_st \<Rightarrow> 'k arena_st" where
  "upd_page p u c n s =
     s\<lparr>hdr := (hdr s)(p := (hdr s p)\<lparr>used := u, pcount := c\<rparr>), arena := (arena s)\<lparr>num_objects := n\<rparr>\<rparr>"

lemma upd_page_simps [simp]:
  "lnk (upd_page p u c n s) = lnk s" "ker (upd_page p u c n s) = ker s"
  "pages (arena (upd_page p u c n s)) = pages (arena s)"
  "max_count (arena (upd_page p u c n s)) = max_count (arena s)"
  "object_size (arena (upd_page p u c n s)) = object_size (arena s)"
  "alock (arena (upd_page p u c n s)) = alock (arena s)"
  "q \<noteq> p \<Longrightarrow> hdr (upd_page p u c n s) q = hdr s q"
  "q \<noteq> p \<Longrightarrow> slots (upd_page p u c n s) q = slots s q"
  "slots (upd_page p u c n s) p = {i. i < maxc s \<and> cell_get u i}"
  "pcount (hdr (upd_page p u c n s) p) = c"
  by (simp_all add: upd_page_def slots_def)

lemma upd_page_hdr:
  "used (hdr (upd_page p u c n s) p) = u" "pg_arena (hdr (upd_page p u c n s) p) = pg_arena (hdr s p)"
  by (simp_all add: upd_page_def)

lemma arena_core_upd:
  assumes core: "arena_core self s ps" and p: "p \<in> set ps" and u: "length u = 4"
    and hi: "\<And>i. maxc s \<le> i \<Longrightarrow> i < 256 \<Longrightarrow> \<not> cell_get u i"
    and c: "unat c = card {i. i < maxc s \<and> cell_get u i}"
    and n: "n + of_nat (card (slots s p)) = num_objects (arena s) + of_nat (card {i. i < maxc s \<and> cell_get u i})"
  shows "arena_core self (upd_page p u c n s) ps"
proof -
  let ?s = "upd_page p u c n s"
  have "page_ok self ?s q" if "q \<in> set ps" for q
  proof (cases "q = p")
    case True
    have "page_ok self s p" using core p by (simp add: arena_core_def)
    then show ?thesis using True u hi c by (simp add: page_ok_def upd_page_hdr)
  next
    case False
    have "page_ok self s q" using core that by (simp add: arena_core_def)
    then show ?thesis using False by (simp add: page_ok_def)
  qed
  moreover have "(\<Sum>q\<leftarrow>ps. card (slots ?s q)) + card (slots s p) =
      (\<Sum>q\<leftarrow>ps. card (slots s q)) + card (slots ?s p)"
    by (rule sum_list_point) (use arena_core_distinct [OF core] p in auto)
  then have "(of_nat (\<Sum>q\<leftarrow>ps. card (slots ?s q)) :: u64) + of_nat (card (slots s p)) =
      of_nat (\<Sum>q\<leftarrow>ps. card (slots s q)) + of_nat (card (slots ?s p))"
    by (metis of_nat_add)
  then have "n + of_nat (card (slots s p)) =
      of_nat (\<Sum>q\<leftarrow>ps. card (slots ?s q)) + of_nat (card (slots s p))"
    using n core by (simp add: arena_core_def)
  then have "n = of_nat (\<Sum>q\<leftarrow>ps. card (slots ?s q))" by (rule add_right_imp_eq)
  ultimately show ?thesis
    using core unfolding arena_core_def
    by (simp add: sizes_ok_def arena_list_def upd_page_def cong: option.case_cong)
qed

lemma take_slot_core:
  assumes core: "arena_core self s ps" and p: "p \<in> set ps" and i: "unat i < maxc s" "unat i \<notin> slots s p"
  shows "\<exists>u c n. take_slot p i s = Inr (upd_page p u c n s) \<and> arena_core self (upd_page p u c n s) ps \<and>
    slots (upd_page p u c n s) p = insert (unat i) (slots s p) \<and> unat c = Suc (card (slots s p))"
proof -
  let ?b = "used (hdr s p)"
  let ?u = "cell_set ?b (unat i)" and ?c = "pcount (hdr s p) + 1" and ?n = "num_objects (arena s) + 1"
  have ok: "page_ok self s p" and sz: "sizes_ok s" using core p by (simp_all add: arena_core_def)
  note bnd = sizes_bounds(2) [OF sz]
  have len: "length ?b = 4" using ok by (simp add: page_ok_def)
  have cap: "unat i < 64 * length ?b" using i(1) bnd len by simp
  have get: "cell_get ?u j \<longleftrightarrow> j = unat i \<or> cell_get ?b j" for j
    using cap by (intro cell_get_set) simp
  have sl: "{j. j < maxc s \<and> cell_get ?u j} = insert (unat i) (slots s p)"
    using i(1) by (auto simp: get slots_def)
  have "card (insert (unat i) (slots s p)) \<le> card {..<maxc s}"
    using i(1) slots_subset [of s p] by (intro card_mono) auto
  then have "card (slots s p) < maxc s" using i(2) by simp
  then have c: "unat ?c = Suc (card (slots s p))"
    using ok bnd by (simp add: page_ok_def unat_word_ariths)
  have "arena_core self (upd_page p ?u ?c ?n s) ps"
  proof (rule arena_core_upd [OF core p])
    show "\<not> cell_get ?u j" if "maxc s \<le> j" "j < 256" for j
      using that ok i(1) by (auto simp: get page_ok_def)
  qed (use len c i sl in auto)
  moreover have "take_slot p i s = Inr (upd_page p ?u ?c ?n s)"
    using bitmap_set_in [OF cap] by (simp add: take_slot_def upd_page_def)
  ultimately show ?thesis using c sl by fastforce
qed

lemma drop_slot_core:
  assumes core: "arena_core self s ps" and p: "p \<in> set ps" and i: "unat i \<in> slots s p"
  shows "\<exists>u c n. drop_slot p i s = Inr (upd_page p u c n s) \<and> arena_core self (upd_page p u c n s) ps \<and>
    slots (upd_page p u c n s) p = slots s p - {unat i}"
proof -
  let ?b = "used (hdr s p)"
  let ?u = "cell_clear ?b (unat i)" and ?c = "pcount (hdr s p) - 1" and ?n = "num_objects (arena s) - 1"
  have ok: "page_ok self s p" and sz: "sizes_ok s" using core p by (simp_all add: arena_core_def)
  have len: "length ?b = 4" using ok by (simp add: page_ok_def)
  have lt: "unat i < maxc s" using i by (simp add: slots_def)
  have cap: "unat i < 64 * length ?b" using lt sizes_bounds(2) [OF sz] len by simp
  have get: "cell_get ?u j \<longleftrightarrow> j \<noteq> unat i \<and> cell_get ?b j" for j
    using cap by (intro cell_get_clear) simp
  have sl: "{j. j < maxc s \<and> cell_get ?u j} = slots s p - {unat i}"
    by (auto simp: get slots_def)
  have pos: "0 < card (slots s p)" using i by (auto simp: card_gt_0_iff)
  have "pcount (hdr s p) \<noteq> 0" using ok pos by (auto simp: page_ok_def)
  then have c: "unat ?c = card (slots s p - {unat i})"
    using ok i by (simp add: page_ok_def unat_minus_one)
  have "(of_nat (card (slots s p)) :: u64) = 1 + of_nat (card (slots s p - {unat i}))"
    using i pos by (simp add: card_Diff_singleton of_nat_diff)
  then have "arena_core self (upd_page p ?u ?c ?n s) ps"
    using ok len c sl by (intro arena_core_upd [OF core p]) (auto simp: get page_ok_def)
  moreover have "drop_slot p i s = Inr (upd_page p ?u ?c ?n s)"
    using bitmap_clear_in [OF cap] by (simp add: drop_slot_def upd_page_def)
  ultimately show ?thesis using sl by fastforce
qed

section \<open>The list of pages\<close>

lemma set_pages_simps [simp]:
  "slots (s\<lparr>arena := (arena s)\<lparr>pages := h\<rparr>\<rparr>) p = slots s p"
  "page_ok self (s\<lparr>arena := (arena s)\<lparr>pages := h\<rparr>\<rparr>) p = page_ok self s p"
  "sizes_ok (s\<lparr>arena := (arena s)\<lparr>pages := h\<rparr>\<rparr>) = sizes_ok s"
  "full_last (s\<lparr>arena := (arena s)\<lparr>pages := h\<rparr>\<rparr>) ps = full_last s ps"
  by (simp_all add: slots_def page_ok_def sizes_ok_def full_last_def)

lemma arena_rotate:
  assumes "arena_core self s (p # qs)"
  shows "arena_core self (s\<lparr>arena := (arena s)\<lparr>pages := Some (next_ptr (lnk s p))\<rparr>\<rparr>) (qs @ [p])"
proof -
  have r: "ring (lnk s) (p # qs)" using assms by (auto simp: arena_core_def arena_list_def split: option.splits)
  have "arena_list (s\<lparr>arena := (arena s)\<lparr>pages := Some (next_ptr (lnk s p))\<rparr>\<rparr>) (qs @ [p])"
    using ring_next_hd [OF r] ring_rotate [OF r] by (simp add: arena_list_def)
  then show ?thesis using assms by (simp add: arena_core_def)
qed

lemma insert_page_frame [simp]:
  "hdr (insert_page p s) = hdr s" "ker (insert_page p s) = ker s"
  "max_count (arena (insert_page p s)) = max_count (arena s)"
  "object_size (arena (insert_page p s)) = object_size (arena s)"
  "num_pages (arena (insert_page p s)) = num_pages (arena s)"
  "num_objects (arena (insert_page p s)) = num_objects (arena s)"
  "alock (arena (insert_page p s)) = alock (arena s)"
  "slots (insert_page p s) q = slots s q" "page_ok self (insert_page p s) q = page_ok self s q"
  "sizes_ok (insert_page p s) = sizes_ok s"
  by (simp_all add: insert_page_def slots_def page_ok_def sizes_ok_def split: option.splits prod.splits)

lemma insert_page_list:
  assumes "arena_list s ps" "p \<notin> set ps" "ring (lnk s) [p]"
  shows "arena_list (insert_page p s) (p # ps)"
proof (cases "pages (arena s)")
  case None
  then show ?thesis using assms by (simp add: arena_list_def insert_page_def)
next
  case (Some h)
  then obtain qs where ps: "ps = h # qs" "ring (lnk s) (h # qs)"
    using assms(1) by (cases ps) (auto simp: arena_list_def)
  have "ring (list_splice p h (lnk s)) (p # h # qs)"
    using nl.rep_splice [OF assms(3) ps(2)] assms(2) ps(1) by auto
  moreover have "fst (merge_list (Some p) (Some h) (lnk s)) = Some p" by (simp add: Let_def)
  ultimately show ?thesis using Some ps
    by (simp add: arena_list_def insert_page_def list_splice_def case_prod_beta del: merge_list.simps)
qed

lemma move_page_frame [simp]:
  "hdr (move_page_to_head p s) = hdr s" "ker (move_page_to_head p s) = ker s"
  "max_count (arena (move_page_to_head p s)) = max_count (arena s)"
  "object_size (arena (move_page_to_head p s)) = object_size (arena s)"
  "num_pages (arena (move_page_to_head p s)) = num_pages (arena s)"
  "num_objects (arena (move_page_to_head p s)) = num_objects (arena s)"
  "alock (arena (move_page_to_head p s)) = alock (arena s)"
  "slots (move_page_to_head p s) q = slots s q"
  "page_ok self (move_page_to_head p s) q = page_ok self s q"
  "sizes_ok (move_page_to_head p s) = sizes_ok s"
  by (simp_all add: move_page_to_head_def slots_def page_ok_def sizes_ok_def)

lemma move_page_core:
  assumes core: "arena_core self s ps" and p: "p \<in> set ps"
  shows "arena_core self (move_page_to_head p s) (p # remove1 p ps)"
proof -
  have d: "distinct ps" by (rule arena_core_distinct [OF core])
  have l: "arena_list s ps" using core by (simp add: arena_core_def)
  have "arena_list (move_page_to_head p s) (p # remove1 p ps)"
  proof (cases "pages (arena s) = Some p")
    case True
    then have "p # remove1 p ps = ps" using l by (cases ps) (auto simp: arena_list_def)
    then show ?thesis using True l by (simp add: move_page_to_head_def)
  next
    case False
    then obtain h as bs where h: "pages (arena s) = Some h" "ps = (h # as) @ p # bs"
      using l p by (cases ps) (auto simp: arena_list_def in_set_conv_decomp split: option.splits)
    then have r: "ring (lnk s) ((h # as) @ p # bs)" using l by (simp add: arena_list_def)
    let ?t = "s\<lparr>lnk := snd (detach_from_list p (lnk s))\<rparr>"
    have un: "ring (lnk ?t) ((h # as) @ bs)" "ring (lnk ?t) [p]"
      using detach_from_list_anywhere [OF r] by simp_all
    have rm: "remove1 p ps = (h # as) @ bs" using h(2) d by (auto simp: remove1_append)
    have "arena_list ?t (remove1 p ps)" using h un rm by (simp add: arena_list_def)
    moreover have "p \<notin> set (remove1 p ps)" using d by simp
    ultimately show ?thesis
      using insert_page_list [of ?t "remove1 p ps" p] un False by (simp add: move_page_to_head_def)
  qed
  moreover have "set (p # remove1 p ps) = set ps" using p d by auto
  moreover have "length (p # remove1 p ps) = length ps" using length_pos_if_in_set [OF p] p by (simp add: length_remove1)
  moreover have "(\<Sum>q\<leftarrow>p # remove1 p ps. card (slots s q)) = (\<Sum>q\<leftarrow>ps. card (slots s q))"
    using p sum_list_map_remove1 [of p ps "\<lambda>q. card (slots s q)"] by simp
  ultimately show ?thesis using core by (simp add: arena_core_def del: length_Cons sum_list.Cons list.map)
qed

section \<open>Adding a page\<close>

definition hdr_typed :: "'k arena_st \<Rightarrow> bool" where
  "hdr_typed s \<longleftrightarrow> (\<forall>p. length (used (hdr s p)) = 4)"

lemma bitmap_cells: "unat (BITMAP_TO_NUM_CELLS ARENA_BITMAP_SIZE) = 4" "sizeof_ArenaPage = 64"
  "ARENA_PAGE_CAPACITY = 4032"
  by (simp_all add: BITMAP_TO_NUM_CELLS_def ARENA_BITMAP_SIZE_def PAGE_SIZE_def ARENA_MIN_OBJECT_SIZE_def
      BITMAP_BITS_PER_CELL_def sizeof_ArenaPage_def ARENA_PAGE_CAPACITY_def)

lemma cell_get_zeros: "i < LENGTH('w) * n \<Longrightarrow> \<not> cell_get (replicate n (0 :: 'w::len word)) i"
  using cell_index [where ?'w = 'w, of i n] by (simp add: cell_get_def)

lemma init_arena_page_fresh:
  assumes "hdr_typed s"
  obtains t where "init_arena_page self p s = Inr t" "t = s\<lparr>lnk := init_list_node p (lnk s),
      hdr := (hdr s)(p := \<lparr>pg_arena = self, used = replicate 4 0, pcount = 0\<rparr>)\<rparr>"
  using assms that by (simp add: init_arena_page_def init_bitmap_def bitmap_cells hdr_typed_def Let_def)

lemma new_page_core:
  assumes core: "arena_core self s ps" and p: "p \<notin> set ps" "aligned p" "p \<noteq> 0"
    and t: "t = s\<lparr>lnk := init_list_node p (lnk s),
        hdr := (hdr s)(p := \<lparr>pg_arena = self, used = replicate 4 0, pcount = 0\<rparr>)\<rparr>"
    and s': "s' = (insert_page p t)\<lparr>arena := (arena (insert_page p t))\<lparr>num_pages := num_pages (arena (insert_page p t)) + 1\<rparr>\<rparr>"
  shows "arena_core self s' (p # ps)" "slots s' p = {}" "\<And>q. q \<noteq> p \<Longrightarrow> slots s' q = slots s q"
proof -
  have "cell_get (replicate 4 (0 :: u64)) i = False" if "i < 256" for i
    using that by (simp add: cell_get_zeros)
  moreover have sz: "sizes_ok s" using core by (simp add: arena_core_def)
  moreover note sizes_bounds(2) [OF sz]
  ultimately have sp: "slots t p = {}" and okp: "page_ok self t p"
    using p by (auto simp: slots_def page_ok_def t)
  have sq: "slots t q = slots s q" "page_ok self t q = page_ok self s q" if "q \<noteq> p" for q
    using that by (simp_all add: slots_def page_ok_def t)
  have "arena_list t ps"
    using core p(1) init_list_node_frame [of "lnk s" ps p]
    by (auto simp: arena_core_def arena_list_def t split: option.splits)
  moreover have "ring (lnk t) [p]" by (simp add: t init_list_node_ring)
  ultimately have l: "arena_list (insert_page p t) (p # ps)" using p(1) by (intro insert_page_list)
  have upd: "slots s' q = slots t q" "page_ok self s' q = page_ok self t q" "sizes_ok s' = sizes_ok t" for q
    unfolding s' by (simp_all add: slots_def page_ok_def sizes_ok_def)
  show "slots s' p = {}" using sp upd by simp
  show eq: "slots s' q = slots s q" if "q \<noteq> p" for q using sq that upd by simp
  have "card (slots s' q) = card (slots s q)" if "q \<in> set ps" for q
  proof -
    have "q \<noteq> p" using that p(1) by auto
    from eq [OF this] show ?thesis by (rule arg_cong)
  qed
  then have "map (\<lambda>q. card (slots s' q)) ps = map (\<lambda>q. card (slots s q)) ps"
    by (intro map_cong [OF refl])
  then have "(\<Sum>q\<leftarrow>p # ps. card (slots s' q)) = (\<Sum>q\<leftarrow>ps. card (slots s q))"
    by (simp only: list.map sum_list.Cons \<open>slots s' p = {}\<close> card.empty add_0)
  moreover have "page_ok self s' q" if "q \<in> set (p # ps)" for q
    using that okp sq upd core by (cases "q = p") (auto simp: arena_core_def)
  moreover have "arena_list s' (p # ps)" using l unfolding s' by (simp add: arena_list_def cong: option.case_cong)
  moreover have "num_pages (arena s') = of_nat (length (p # ps))"
    "num_objects (arena s') = num_objects (arena s)"
    using core unfolding s' by (simp_all add: t arena_core_def)
  moreover have "sizes_ok s'" using sz upd by (simp add: t sizes_ok_def)
  ultimately show "arena_core self s' (p # ps)"
    using core by (simp add: arena_core_def del: sum_list.Cons list.map length_Cons)
qed

section \<open>Object addresses\<close>

lemma slot_fits:
  assumes "sizes_ok s" "i < maxc s"
  shows "64 + i * unat (object_size (arena s)) + unat (object_size (arena s)) \<le> 4096"
proof -
  let ?o = "unat (object_size (arena s))"
  have "Suc i * ?o \<le> (4032 div ?o) * ?o" using assms by (intro mult_le_mono1) (simp add: sizes_ok_def)
  also have "\<dots> \<le> 4032" by simp
  finally show ?thesis by simp
qed

lemma aligned_room: "aligned p \<Longrightarrow> unat p + 4096 \<le> 2 ^ 64"
proof -
  assume "aligned p"
  then obtain k where k: "unat p = 4096 * k" by (auto simp: aligned_unat)
  moreover have "unat p < 2 ^ 64" using unsigned_less [of p, where ?'a = nat] by simp
  ultimately show ?thesis by simp
qed

lemma object_addr_unat:
  assumes "sizes_ok s" "aligned p" "unat i < maxc s"
  shows "unat (object_addr (object_size (arena s)) p i) =
    unat p + 64 + unat i * unat (object_size (arena s))"
proof -
  let ?o = "object_size (arena s)"
  have fit: "64 + unat i * unat ?o + unat ?o \<le> 4096" using slot_fits [OF assms(1,3)] .
  have o: "16 \<le> unat ?o" using assms(1) by (simp add: sizes_ok_def)
  have m: "unat (i * ?o) = unat i * unat ?o" using fit by (simp add: unat_word_ariths)
  have a: "unat (p + 64) = unat p + 64"
    using aligned_room [OF assms(2)] by (subst unat_plus_if') simp
  have "unat (p + 64) + unat (i * ?o) < 2 ^ 64"
    using aligned_room [OF assms(2)] fit o m a by linarith
  then show ?thesis using m a by (simp add: object_addr_def bitmap_cells unat_plus_if')
qed

text \<open>The page and the slot number are read back from the address.\<close>

lemma object_addr_page:
  assumes "sizes_ok s" "aligned p" "unat i < maxc s"
  shows "get_container_page (object_addr (object_size (arena s)) p i) = p"
    and "(object_addr (object_size (arena s)) p i - (p + sizeof_ArenaPage)) mod object_size (arena s) = 0"
    and "(object_addr (object_size (arena s)) p i - (p + sizeof_ArenaPage)) div object_size (arena s) = i"
proof -
  let ?o = "object_size (arena s)"
  let ?x = "object_addr ?o p i"
  have fit: "64 + unat i * unat ?o + unat ?o \<le> 4096" using slot_fits [OF assms(1,3)] .
  have o: "16 \<le> unat ?o" using assms(1) by (simp add: sizes_ok_def)
  obtain k where k: "unat p = 4096 * k" using assms(2) by (auto simp: aligned_unat)
  have x: "unat ?x = 4096 * k + (64 + unat i * unat ?o)"
    using object_addr_unat [OF assms] k by simp
  have "64 + unat i * unat ?o < 4096" using fit o by linarith
  then have md: "unat ?x mod 4096 = 64 + unat i * unat ?o" unfolding x by simp
  have "?x mod PAGE_SIZE \<le> ?x" by (simp add: word_le_nat_alt unat_mod PAGE_SIZE_def)
  then show "get_container_page ?x = p"
    using md x k
    by (simp add: get_container_page_def round_down_def word_unat_eq_iff unat_minus_word unat_mod)
      (simp add: PAGE_SIZE_def)
  have m: "unat (i * ?o) = unat i * unat ?o" using fit by (simp add: unat_word_ariths)
  have off: "?x - (p + sizeof_ArenaPage) = i * ?o" by (simp add: object_addr_def)
  show "(?x - (p + sizeof_ArenaPage)) mod ?o = 0"
    unfolding off by (simp add: word_unat_eq_iff unat_mod m)
  show "(?x - (p + sizeof_ArenaPage)) div ?o = i"
    unfolding off using o by (simp add: word_unat_eq_iff unat_div m)
qed

section \<open>What the operations do\<close>

text \<open>The objects handed out, by page and slot, and by address.\<close>

definition allocated :: "'k arena_st \<Rightarrow> u64 list \<Rightarrow> (u64 \<times> nat) set" where
  "allocated s ps = {(p, i). p \<in> set ps \<and> i \<in> slots s p}"

definition objects :: "'k arena_st \<Rightarrow> u64 list \<Rightarrow> u64 set" where
  "objects s ps = (\<lambda>(p, i). object_addr (object_size (arena s)) p (of_nat i)) ` allocated s ps"

lemma full_last_hd:
  assumes "full_last s (p # qs)"
  shows "card (slots s p) < maxc s \<or> (\<forall>q \<in> set (p # qs). card (slots s q) = maxc s)"
proof -
  obtain as bs where ab: "p # qs = as @ bs" "\<forall>q \<in> set as. card (slots s q) < maxc s"
      "\<forall>q \<in> set bs. card (slots s q) = maxc s"
    using assms by (auto simp: full_last_def)
  show ?thesis
  proof (cases as)
    case Nil
    then show ?thesis using ab by simp
  next
    case (Cons a as')
    then show ?thesis using ab by simp
  qed
qed

text \<open>Filling a slot of the first page keeps the order: a page that gets full goes to the end.\<close>

lemma full_last_take:
  assumes f: "full_last s (p # qs)" and p: "card (slots s p) < maxc s" "p \<notin> set qs"
    and m: "maxc s' = maxc s" and q: "\<And>q. q \<in> set qs \<Longrightarrow> slots s' q = slots s q"
  shows "card (slots s' p) < maxc s \<Longrightarrow> full_last s' (p # qs)"
    and "card (slots s' p) = maxc s \<Longrightarrow> full_last s' (qs @ [p])"
proof -
  obtain as bs where ab: "p # qs = as @ bs" "\<forall>q \<in> set as. card (slots s q) < maxc s"
      "\<forall>q \<in> set bs. card (slots s q) = maxc s"
    using f by (auto simp: full_last_def)
  then obtain as' where as': "as = p # as'" "qs = as' @ bs" using p(1) by (cases as) auto
  have 1: "\<forall>q \<in> set as'. card (slots s' q) < maxc s'" "\<forall>q \<in> set bs. card (slots s' q) = maxc s'"
    using ab as' q m by auto
  show "full_last s' (p # qs)" if "card (slots s' p) < maxc s"
    unfolding full_last_def using 1 as' m that by (intro exI [of _ "p # as'"] exI [of _ bs]) auto
  show "full_last s' (qs @ [p])" if "card (slots s' p) = maxc s"
    unfolding full_last_def using 1 as' m that by (intro exI [of _ as'] exI [of _ "bs @ [p]"]) auto
qed

lemma alloc_slot_spec:
  assumes core: "arena_core self s (p # qs)" and lk: "locked (alock (arena s))"
    and free: "card (slots s p) < maxc s" and f: "full_last s (p # qs)" and hty: "hdr_typed s"
  shows "\<exists>i s' ps'. alloc_slot s = Inr (object_addr (object_size (arena s)) p (of_nat i), s') \<and>
    i < maxc s \<and> i \<notin> slots s p \<and> arena_inv self s' ps' \<and> set ps' = set (p # qs) \<and>
    slots s' p = insert i (slots s p) \<and> (\<forall>q. q \<noteq> p \<longrightarrow> slots s' q = slots s q) \<and>
    object_size (arena s') = object_size (arena s) \<and> ker s' = ker s \<and> hdr_typed s'"
proof -
  have ok: "page_ok self s p" and sz: "sizes_ok s" and pg: "pages (arena s) = Some p"
    using core by (auto simp: arena_core_def arena_list_def split: option.splits)
  have len: "length (used (hdr s p)) = 4" using ok by (simp add: page_ok_def)
  have "\<not> (\<forall>j < maxc s. cell_get (used (hdr s p)) j)"
  proof
    assume "\<forall>j < maxc s. cell_get (used (hdr s p)) j"
    then have "slots s p = {..<maxc s}" by (auto simp: slots_def)
    then show False using free by simp
  qed
  then obtain i where i: "scan (used (hdr s p)) 0 (max_count (arena s)) = Inr (Some i)"
      "unat i < maxc s" "unat i \<notin> slots s p"
    using scan_spec [OF len, of "max_count (arena s)" 0] sizes_bounds(2) [OF sz] by (auto simp: slots_def)
  obtain u c n where t: "take_slot p i s = Inr (upd_page p u c n s)"
    and core2: "arena_core self (upd_page p u c n s) (p # qs)"
    and sl: "slots (upd_page p u c n s) p = insert (unat i) (slots s p)"
    and c: "unat c = Suc (card (slots s p))"
    using take_slot_core [OF core _ i(2,3)] by auto
  let ?s2 = "upd_page p u c n s"
  have card2: "card (slots ?s2 p) = unat c" using sl c i(3) by simp
  have hty2: "hdr_typed ?s2" using core2 hty by (auto simp: hdr_typed_def arena_core_def page_ok_def upd_page_def)
  have dist: "p \<notin> set qs" using arena_core_distinct [OF core] by simp
  have oth: "slots ?s2 q = slots s q" if "q \<in> set qs" for q using dist that by (intro upd_page_simps(8)) auto
  have mx: "maxc ?s2 = maxc s" by simp
  have fl: "card (slots ?s2 p) < maxc s \<Longrightarrow> full_last ?s2 (p # qs)"
    "card (slots ?s2 p) = maxc s \<Longrightarrow> full_last ?s2 (qs @ [p])"
    using full_last_take [of s p qs ?s2, OF f free dist mx] oth by blast+
  show ?thesis
  proof (cases "max_count (arena s) \<le> c")
    case True
    then have full: "card (slots ?s2 p) = maxc s"
      using card2 c free by (simp add: word_le_nat_alt)
    let ?s3 = "?s2\<lparr>arena := (arena ?s2)\<lparr>pages := Some (next_ptr (lnk ?s2 p))\<rparr>\<rparr>"
    have inv: "arena_inv self (?s3\<lparr>arena := (arena ?s3)\<lparr>alock := (alock (arena s))\<lparr>cpu := None, locked := False\<rparr>\<rparr>\<rparr>) (qs @ [p])"
      using arena_rotate [OF core2] fl(2) [OF full] by (simp add: arena_inv_def)
    show ?thesis using True i t lk inv sl hty2
      by (intro exI [of _ "unat i"] exI [of _ "?s3\<lparr>arena := (arena ?s3)\<lparr>alock := (alock (arena s))\<lparr>cpu := None, locked := False\<rparr>\<rparr>\<rparr>"] exI [of _ "qs @ [p]"])
        (auto simp: alloc_slot_def pg release_spinlock_def holding_spinlock_def Let_def hdr_typed_def)
  next
    case False
    then have nf: "card (slots ?s2 p) < maxc s" using card2 by (simp add: word_le_nat_alt)
    have inv: "arena_inv self (?s2\<lparr>arena := (arena ?s2)\<lparr>alock := (alock (arena s))\<lparr>cpu := None, locked := False\<rparr>\<rparr>\<rparr>) (p # qs)"
      using core2 fl(1) [OF nf] by (simp add: arena_inv_def)
    show ?thesis using False i t lk inv sl hty2
      by (intro exI [of _ "unat i"] exI [of _ "?s2\<lparr>arena := (arena ?s2)\<lparr>alock := (alock (arena s))\<lparr>cpu := None, locked := False\<rparr>\<rparr>\<rparr>"] exI [of _ "p # qs"])
        (auto simp: alloc_slot_def pg release_spinlock_def holding_spinlock_def Let_def hdr_typed_def)
  qed
qed

text \<open>
  What an allocation gives its caller: a slot that was free, of a page of the arena, and the arena
  with exactly that slot taken.
\<close>

definition gives_slot :: "nat \<Rightarrow> 'k arena_st \<Rightarrow> u64 list \<Rightarrow> u64 \<Rightarrow> 'k arena_st \<Rightarrow> u64 list \<Rightarrow> bool" where
  "gives_slot self s ps x s' ps' \<longleftrightarrow>
     (\<exists>p i. x = object_addr (object_size (arena s)) p (of_nat i) \<and> p \<in> set ps' \<and> i < maxc s \<and>
        (p, i) \<notin> allocated s ps \<and> allocated s' ps' = insert (p, i) (allocated s ps)) \<and>
     arena_inv self s' ps' \<and> object_size (arena s') = object_size (arena s) \<and> hdr_typed s'"

context page_allocator
begin

lemma alloc_object_has_slot:
  assumes inv: "arena_inv self s (p # qs)" and free: "card (slots s p) < maxc s" and hty: "hdr_typed s"
  shows "\<exists>x s' ps'. alloc_object alloc self me s = Inr (x, s') \<and> gives_slot self s (p # qs) x s' ps' \<and>
    set ps' = set (p # qs) \<and> ker s' = ker s"
proof -
  let ?s0 = "s\<lparr>arena := (arena s)\<lparr>alock := (alock (arena s))\<lparr>locked := True, cpu := Some me\<rparr>\<rparr>\<rparr>"
  have core: "arena_core self s (p # qs)" and f: "full_last s (p # qs)" and lk: "\<not> locked (alock (arena s))"
    using inv by (simp_all add: arena_inv_def)
  have pg: "pages (arena s) = Some p" and ok: "page_ok self s p"
    using core by (auto simp: arena_core_def arena_list_def split: option.splits)
  have "\<not> max_count (arena s) \<le> pcount (hdr s p)"
    using ok free by (simp add: page_ok_def word_le_nat_alt)
  then have a: "alloc_object alloc self me s = alloc_slot ?s0"
    using lk pg by (simp add: alloc_object_def spinlock_defs)
  have "arena_core self ?s0 (p # qs)" "full_last ?s0 (p # qs)" "card (slots ?s0 p) < maxc ?s0" "hdr_typed ?s0"
    using core f free hty by (simp_all add: hdr_typed_def)
  from alloc_slot_spec [OF this(1) _ this(3,2,4)] obtain i s' ps' where
    i: "alloc_slot ?s0 = Inr (object_addr (object_size (arena s)) p (of_nat i), s')" "i < maxc s"
      "i \<notin> slots s p" and r: "arena_inv self s' ps'" "set ps' = set (p # qs)"
      "slots s' p = insert i (slots s p)" "\<forall>q. q \<noteq> p \<longrightarrow> slots s' q = slots s q"
      "object_size (arena s') = object_size (arena s)" "ker s' = ker s" "hdr_typed s'"
    by auto
  have "allocated s' ps' = insert (p, i) (allocated s (p # qs))"
  proof (rule set_eqI, clarify)
    fix q j
    show "(q, j) \<in> allocated s' ps' \<longleftrightarrow> (q, j) \<in> insert (p, i) (allocated s (p # qs))"
      using r(2-4) by (cases "q = p") (auto simp: allocated_def)
  qed
  then have "gives_slot self s (p # qs) (object_addr (object_size (arena s)) p (of_nat i)) s' ps'"
    using i r unfolding gives_slot_def by (auto simp: allocated_def)
  then show ?thesis using a i r by auto
qed

lemma add_page_some:
  assumes core: "arena_core self s ps" and rep: "rep (ker s) (p # F)" and disj: "p \<notin> set ps"
    and hty: "hdr_typed s"
  shows "\<exists>s'. add_page alloc self s = Inr s' \<and> arena_core self s' (p # ps) \<and> slots s' p = {} \<and>
    (\<forall>q. q \<noteq> p \<longrightarrow> slots s' q = slots s q) \<and> rep (ker s') F \<and> hdr_typed s' \<and>
    alock (arena s') = alock (arena s) \<and> object_size (arena s') = object_size (arena s) \<and> maxc s' = maxc s"
proof -
  obtain k where k: "alloc (ker s) = Inr (p, k)" "rep k F" using alloc_some [OF rep] by blast
  have p: "p \<noteq> 0" "aligned p" using rep_ok [OF rep] ok_page [of p] by auto
  let ?s1 = "s\<lparr>ker := k\<rparr>"
  have "hdr_typed ?s1" using hty by (simp add: hdr_typed_def)
  then obtain t where t: "init_arena_page self p ?s1 = Inr t" "t = ?s1\<lparr>lnk := init_list_node p (lnk ?s1),
      hdr := (hdr ?s1)(p := \<lparr>pg_arena = self, used = replicate 4 0, pcount = 0\<rparr>)\<rparr>"
    by (rule init_arena_page_fresh)
  have "arena_core self ?s1 ps" using core by simp
  note n = new_page_core [OF this disj p(2,1) t(2) refl]
  have "add_page alloc self s = Inr ((insert_page p t)\<lparr>arena := (arena (insert_page p t))
      \<lparr>num_pages := num_pages (arena (insert_page p t)) + 1\<rparr>\<rparr>)"
    using k(1) p t(1) by (simp add: add_page_def Let_def aligned_def)
  then show ?thesis using n k(2) hty by (auto simp: t(2) hdr_typed_def)
qed

end

text \<open>The first test of \<^verbatim>\<open>alloc_object\<close> asks for a new page exactly when no page has a free slot.\<close>

lemma no_slot_iff:
  assumes "arena_core self s ps" "full_last s ps"
  shows "(case pages (arena s) of None \<Rightarrow> True | Some h \<Rightarrow> max_count (arena s) \<le> pcount (hdr s h)) \<longleftrightarrow>
    (\<forall>q \<in> set ps. card (slots s q) = maxc s)"
proof (cases ps)
  case Nil
  then show ?thesis using assms(1) by (auto simp: arena_core_def arena_list_def split: option.splits)
next
  case (Cons p qs)
  then have pg: "pages (arena s) = Some p" and ok: "page_ok self s p"
    using assms(1) by (auto simp: arena_core_def arena_list_def split: option.splits)
  show ?thesis
    using pg ok full_last_hd [of s p qs] assms(2) Cons card_slots_le [of s p]
    by (auto simp: page_ok_def word_le_nat_alt)
qed

context page_allocator
begin

lemma alloc_object_new_page:
  assumes inv: "arena_inv self s ps" and full: "\<forall>q \<in> set ps. card (slots s q) = maxc s"
    and rep: "rep (ker s) (p # F)" and disj: "p \<notin> set ps" and hty: "hdr_typed s"
  shows "\<exists>x s' ps'. alloc_object alloc self me s = Inr (x, s') \<and> gives_slot self s ps x s' ps' \<and>
    set ps' = insert p (set ps) \<and> rep (ker s') F"
proof -
  let ?s0 = "s\<lparr>arena := (arena s)\<lparr>alock := (alock (arena s))\<lparr>locked := True, cpu := Some me\<rparr>\<rparr>\<rparr>"
  have core: "arena_core self ?s0 ps" and f: "full_last ?s0 ps" and lk: "\<not> locked (alock (arena s))"
    using inv by (simp_all add: arena_inv_def)
  have "hdr_typed ?s0" using hty by (simp add: hdr_typed_def)
  then obtain s1 where s1: "add_page alloc self ?s0 = Inr s1" "arena_core self s1 (p # ps)" "slots s1 p = {}"
      "\<forall>q. q \<noteq> p \<longrightarrow> slots s1 q = slots s q" "rep (ker s1) F" "hdr_typed s1"
      "alock (arena s1) = alock (arena ?s0)" "object_size (arena s1) = object_size (arena s)" "maxc s1 = maxc s"
    using add_page_some [OF core, of p F] rep disj by auto
  have a: "alloc_object alloc self me s = alloc_slot s1"
    using no_slot_iff [OF core f] full lk s1(1) by (simp add: alloc_object_def spinlock_defs)
  have "1 \<le> maxc s" using core sizes_bounds(1) [of s] by (simp add: arena_core_def sizes_ok_def)
  then have free: "card (slots s1 p) < maxc s1" using s1(3,9) by simp
  have eq: "slots s1 q = slots s q" if "q \<in> set ps" for q using s1(4) that disj by metis
  have "full_last s1 (p # ps)"
    unfolding full_last_def using free full eq s1(9)
    by (intro exI [of _ "[p]"] exI [of _ ps]) simp
  from alloc_slot_spec [OF s1(2) _ free this s1(6)] s1(7) obtain i s' ps' where
    i: "alloc_slot s1 = Inr (object_addr (object_size (arena s)) p (of_nat i), s')" "i < maxc s"
    and r: "arena_inv self s' ps'" "set ps' = set (p # ps)" "slots s' p = {i}"
      "\<forall>q. q \<noteq> p \<longrightarrow> slots s' q = slots s1 q" "object_size (arena s') = object_size (arena s)"
      "ker s' = ker s1" "hdr_typed s'"
    using s1(3,8,9) by auto
  have "allocated s' ps' = insert (p, i) (allocated s ps)"
  proof (rule set_eqI, clarify)
    fix q j
    show "(q, j) \<in> allocated s' ps' \<longleftrightarrow> (q, j) \<in> insert (p, i) (allocated s ps)"
      using r(2-4) eq disj s1(4) by (cases "q = p") (auto simp: allocated_def)
  qed
  then have "gives_slot self s ps (object_addr (object_size (arena s)) p (of_nat i)) s' ps'"
    using i r disj unfolding gives_slot_def by (auto simp: allocated_def)
  then show ?thesis using a i r s1(5) by auto
qed

lemma alloc_object_exhausted:
  assumes inv: "arena_inv self s ps" and full: "\<forall>q \<in> set ps. card (slots s q) = maxc s"
    and rep: "rep (ker s) []"
  shows "alloc_object alloc self me s =
    Inl (if ps = [] then BadAccess else Panic ''arena failed to allocate object'')"
proof -
  let ?s0 = "s\<lparr>arena := (arena s)\<lparr>alock := (alock (arena s))\<lparr>locked := True, cpu := Some me\<rparr>\<rparr>\<rparr>"
  have core: "arena_core self ?s0 ps" and f: "full_last ?s0 ps" and lk: "\<not> locked (alock (arena s))"
    using inv by (simp_all add: arena_inv_def)
  obtain k where "alloc (ker s) = Inr (0, k)" using alloc_none [OF rep] by blast
  then have "add_page alloc self ?s0 = Inr (?s0\<lparr>ker := k\<rparr>)" by (simp add: add_page_def Let_def PAGE_SIZE_def)
  then have a: "alloc_object alloc self me s = alloc_slot (?s0\<lparr>ker := k\<rparr>)"
    using no_slot_iff [OF core f] full lk by (simp add: alloc_object_def spinlock_defs)
  show ?thesis
  proof (cases ps)
    case Nil
    then have "pages (arena s) = None" using core by (auto simp: arena_core_def arena_list_def split: option.splits)
    then show ?thesis using a Nil by (simp add: alloc_slot_def)
  next
    case (Cons p qs)
    then have pg: "pages (arena s) = Some p" and ok: "page_ok self s p" and sz: "sizes_ok s"
      using core by (auto simp: arena_core_def arena_list_def page_ok_def sizes_ok_def slots_def split: option.splits)
    have "slots s p = {..<maxc s}"
      using full Cons by (intro card_subset_eq [OF finite_lessThan slots_subset]) simp
    then have all: "\<forall>j < maxc s. cell_get (used (hdr s p)) j" by (auto simp: slots_def)
    have "scan (used (hdr s p)) 0 (max_count (arena s)) = Inr None"
      using scan_spec [of "used (hdr s p)" "max_count (arena s)" 0] all ok sizes_bounds(2) [OF sz]
      by (auto simp: page_ok_def)
    then show ?thesis using a pg Cons by (simp add: alloc_slot_def)
  qed
qed

end

text \<open>A page that has got a free slot goes to the front.\<close>

lemma full_last_move:
  assumes "full_last s ps" "distinct ps" and m: "maxc s' = maxc s" "card (slots s' p) < maxc s"
    and eq: "\<And>q. q \<noteq> p \<Longrightarrow> slots s' q = slots s q"
  shows "full_last s' (p # remove1 p ps)"
proof -
  obtain as bs where ab: "ps = as @ bs" "\<forall>q \<in> set as. card (slots s q) < maxc s"
      "\<forall>q \<in> set bs. card (slots s q) = maxc s"
    using assms(1) by (auto simp: full_last_def)
  have "p # remove1 p ps = (p # removeAll p as) @ removeAll p bs"
    using assms(2) ab(1) by (simp add: distinct_remove1_removeAll)
  moreover have "card (slots s' q) < maxc s'" if "q \<in> set (p # removeAll p as)" for q
    using that ab(2) eq [of q] m by (cases "q = p") simp_all
  moreover have "card (slots s' q) = maxc s'" if "q \<in> set (removeAll p bs)" for q
    using that ab(3) eq [of q] m by simp
  ultimately show ?thesis unfolding full_last_def by blast
qed

lemma free_object_spec:
  assumes inv: "arena_inv self s ps" and p: "p \<in> set ps" and i: "i < maxc s"
  shows "i \<in> slots s p \<Longrightarrow> \<exists>s' ps'.
      free_object self me (object_addr (object_size (arena s)) p (of_nat i)) s = Inr s' \<and>
      arena_inv self s' ps' \<and> set ps' = set ps \<and> allocated s' ps' = allocated s ps - {(p, i)} \<and>
      object_size (arena s') = object_size (arena s) \<and> ker s' = ker s \<and> (hdr_typed s \<longrightarrow> hdr_typed s')"
    and "i \<notin> slots s p \<Longrightarrow>
      free_object self me (object_addr (object_size (arena s)) p (of_nat i)) s = Inl (Panic ''double free object'')"
proof -
  let ?x = "object_addr (object_size (arena s)) p (of_nat i)"
  let ?s0 = "s\<lparr>arena := (arena s)\<lparr>alock := (alock (arena s))\<lparr>locked := True, cpu := Some me\<rparr>\<rparr>\<rparr>"
  have core: "arena_core self s ps" and f: "full_last s ps" and lk: "\<not> locked (alock (arena s))"
    using inv by (simp_all add: arena_inv_def)
  have ok: "page_ok self s p" and sz: "sizes_ok s" using core p by (simp_all add: arena_core_def)
  have iw: "unat (of_nat i :: u64) = i"
    using i sizes_bounds(2) [OF sz] by (intro unat_of_nat_lt) simp
  have al: "aligned p" and own: "pg_arena (hdr s p) = self" and len: "length (used (hdr s p)) = 4"
    using ok by (simp_all add: page_ok_def)
  note x = object_addr_page [OF sz al, of "of_nat i", unfolded iw, OF i]
  have get: "bitmap_get (used (hdr s p)) (of_nat i) = Inr (i \<in> slots s p)"
    using bitmap_get_in [of "of_nat i" "used (hdr s p)"] iw i len sizes_bounds(2) [OF sz]
    by (simp add: slots_def)
  show "free_object self me ?x s = Inl (Panic ''double free object'')" if "i \<notin> slots s p"
    using that x own lk get by (simp add: free_object_def Let_def spinlock_defs)
  assume set: "i \<in> slots s p"
  have core0: "arena_core self ?s0 ps" using core by simp
  obtain u c n where d: "drop_slot p (of_nat i) ?s0 = Inr (upd_page p u c n ?s0)"
    and core1: "arena_core self (upd_page p u c n ?s0) ps"
    and sl: "slots (upd_page p u c n ?s0) p = slots s p - {i}"
    using drop_slot_core [OF core0 p, of "of_nat i"] set iw by auto
  let ?s1 = "upd_page p u c n ?s0"
  let ?s2 = "move_page_to_head p ?s1"
  let ?s3 = "?s2\<lparr>arena := (arena ?s2)\<lparr>alock := (alock (arena s))\<lparr>cpu := None, locked := False\<rparr>\<rparr>\<rparr>"
  let ?ps = "p # remove1 p ps"
  have dist: "distinct ps" by (rule arena_core_distinct [OF core])
  have "arena_core self ?s2 ?ps" by (rule move_page_core [OF core1 p])
  moreover have "card (slots ?s2 p) < card (slots s p)"
    using sl card_Diff1_less [OF finite_slots set] by simp
  then have "full_last ?s2 ?ps"
    using card_slots_le [of s p] by (intro full_last_move [OF f dist]) simp_all
  ultimately have "arena_inv self ?s3 ?ps" by (simp add: arena_inv_def)
  moreover have "free_object self me ?x s = Inr ?s3"
    using x own lk get set d by (simp add: free_object_def Let_def spinlock_defs)
  moreover have ps: "set ?ps = set ps" using p dist by auto
  moreover have "hdr_typed s \<longrightarrow> hdr_typed ?s3"
    using core1 p by (auto simp: hdr_typed_def arena_core_def page_ok_def upd_page_def)
  moreover have "allocated ?s3 ?ps = allocated s ps - {(p, i)}"
  proof (rule set_eqI, clarify)
    fix q j
    show "(q, j) \<in> allocated ?s3 ?ps \<longleftrightarrow> (q, j) \<in> allocated s ps - {(p, i)}"
      unfolding allocated_def ps using sl by (cases "q = p") auto
  qed
  ultimately show "\<exists>s' ps'. free_object self me ?x s = Inr s' \<and> arena_inv self s' ps' \<and> set ps' = set ps \<and>
      allocated s' ps' = allocated s ps - {(p, i)} \<and> object_size (arena s') = object_size (arena s) \<and>
      ker s' = ker s \<and> (hdr_typed s \<longrightarrow> hdr_typed s')"
    by (intro exI [of _ ?s3] exI [of _ ?ps]) simp
qed

lemma objects_inj:
  assumes "arena_core self s ps"
  shows "inj_on (\<lambda>(p, i). object_addr (object_size (arena s)) p (of_nat i)) {(p, i). p \<in> set ps \<and> i < maxc s}"
proof (rule inj_onI, clarify)
  fix p i q j
  assume a: "p \<in> set ps" "i < maxc s" "q \<in> set ps" "j < maxc s"
    "object_addr (object_size (arena s)) p (of_nat i) = object_addr (object_size (arena s)) q (of_nat j)"
  have sz: "sizes_ok s" and al: "aligned p" "aligned q"
    using assms a by (auto simp: arena_core_def page_ok_def)
  have w: "unat (of_nat i :: u64) = i" "unat (of_nat j :: u64) = j"
    using a sizes_bounds(2) [OF sz] by (auto intro!: unat_of_nat_lt)
  note P = object_addr_page [OF sz al(1), of "of_nat i", unfolded w, OF a(2)]
    and Q = object_addr_page [OF sz al(2), of "of_nat j", unfolded w, OF a(4)]
  have "p = q" using P(1) [unfolded a(5)] Q(1) by (rule trans [OF sym])
  moreover have "(of_nat i :: u64) = of_nat j"
    using P(3) [unfolded a(5), unfolded \<open>p = q\<close>] Q(3) by (rule trans [OF sym])
  then have "unat (of_nat i :: u64) = unat (of_nat j :: u64)" by (rule arg_cong)
  ultimately show "p = q \<and> i = j" by (simp only: w simp_thms)
qed

lemma allocated_sub: "allocated s ps \<subseteq> {(p, i). p \<in> set ps \<and> i < maxc s}"
  by (auto simp: allocated_def slots_def)

text \<open>One more slot is one more object, one slot less one object less.\<close>

lemma gives_slot_objects:
  assumes "gives_slot self s ps x s' ps'" "maxc s' = maxc s" "set ps \<subseteq> set ps'"
  shows "x \<notin> objects s ps" "objects s' ps' = insert x (objects s ps)"
proof -
  let ?f = "\<lambda>(p, i). object_addr (object_size (arena s)) p (of_nat i)"
  obtain p i where x: "x = ?f (p, i)" "p \<in> set ps'" "i < maxc s" "(p, i) \<notin> allocated s ps"
      "allocated s' ps' = insert (p, i) (allocated s ps)"
    and inv: "arena_inv self s' ps'" "object_size (arena s') = object_size (arena s)"
    using assms(1) unfolding gives_slot_def by auto
  show "objects s' ps' = insert x (objects s ps)" using x inv(2) by (simp add: objects_def)
  have 1: "inj_on ?f {(p, i). p \<in> set ps' \<and> i < maxc s}"
    using objects_inj [of self s' ps'] inv assms(2) by (simp add: arena_inv_def)
  have 2: "(p, i) \<in> {(p, i). p \<in> set ps' \<and> i < maxc s}" using x(2,3) by simp
  have 3: "allocated s ps \<subseteq> {(p, i). p \<in> set ps' \<and> i < maxc s}"
    using allocated_sub [of s ps] assms(3) by auto
  show "x \<notin> objects s ps"
    using inj_on_image_mem_iff [OF 1 2 3] x(4) unfolding objects_def x(1) by blast
qed

context page_allocator
begin

lemma clear_pages_spec:
  assumes "links l (c # cs @ [h])" "h \<notin> set cs" "rep k F" "\<forall>p \<in> set (c # cs). ok p" "distinct (c # cs @ F)"
  shows "\<exists>k'. clear_pages free l h c k = Some (Inr k') \<and> rep k' (rev (c # cs) @ F)"
  using assms
proof (induction cs arbitrary: c k F)
  case Nil
  then obtain k' where "free c k = Inr k'" "rep k' (c # F)" using free_page [of k F c] by auto
  then show ?case using Nil by (subst clear_pages.simps) simp
next
  case (Cons d cs)
  then obtain k1 where k1: "free c k = Inr k1" "rep k1 (c # F)" using free_page [of k F c] by auto
  have "next_ptr (l c) = d" "d \<noteq> h" using Cons.prems by auto
  then have "clear_pages free l h c k = clear_pages free l h d k1"
    using k1(1) by (subst clear_pages.simps) simp
  then show ?case using Cons.IH [of d k1 "c # F"] Cons.prems k1(2) by auto
qed

end

section \<open>The arena over the kernel's page allocator\<close>

definition arena_sys :: "u64 \<Rightarrow> nat \<Rightarrow> PMemory arena_st \<Rightarrow> u64 list \<Rightarrow> u64 list \<Rightarrow> bool" where
  "arena_sys kend self s ps F \<longleftrightarrow> arena_inv self s ps \<and> pm_rep kend (ker s) F \<and> hdr_typed s \<and>
     set ps \<inter> set F = {} \<and> (\<forall>p \<in> set ps. valid_page kend p)"

definition has_slot :: "'k arena_st \<Rightarrow> u64 list \<Rightarrow> bool" where
  "has_slot s ps \<longleftrightarrow> (\<exists>p \<in> set ps. card (slots s p) < maxc s)"

lemma arena_inv_max:
  "arena_inv self s ps \<Longrightarrow> arena_inv self s' ps' \<Longrightarrow> object_size (arena s') = object_size (arena s) \<Longrightarrow>
   maxc s' = maxc s"
  by (simp add: arena_inv_def arena_core_def sizes_ok_def)

lemma arena_alloc_sys:
  assumes sys: "arena_sys kend self s ps F" and room: "has_slot s ps \<or> F \<noteq> []"
  shows "\<exists>x s' ps' F'. alloc_object (kalloc me) self me s = Inr (x, s') \<and> arena_sys kend self s' ps' F' \<and>
    x \<notin> objects s ps \<and> objects s' ps' = insert x (objects s ps) \<and> maxc s' = maxc s \<and>
    object_size (arena s') = object_size (arena s) \<and> (if has_slot s ps then set ps' = set ps \<and> F' = F else set ps' = insert (hd F) (set ps) \<and> F' = tl F)"
proof (cases "has_slot s ps")
  case True
  then obtain p qs where ps: "ps = p # qs" by (cases ps) (auto simp: has_slot_def)
  have "card (slots s p) < maxc s"
    using True full_last_hd [of s p qs] sys ps by (auto simp: arena_sys_def arena_inv_def has_slot_def)
  then obtain x s' ps' where a: "alloc_object (kalloc me) self me s = Inr (x, s')" "gives_slot self s ps x s' ps'"
      "set ps' = set ps" "ker s' = ker s"
    using pm.alloc_object_has_slot [of self s p qs me me] sys ps by (auto simp: arena_sys_def)
  have m: "maxc s' = maxc s" using a(2) sys arena_inv_max by (auto simp: gives_slot_def arena_sys_def)
  have "arena_sys kend self s' ps' F" using a sys by (auto simp: arena_sys_def gives_slot_def)
  moreover have "object_size (arena s') = object_size (arena s)" using a(2) by (auto simp: gives_slot_def)
  ultimately show ?thesis using a gives_slot_objects [OF a(2) m] True m by auto
next
  case False
  then obtain p F' where F: "F = p # F'" using room by (cases F) auto
  have full: "\<forall>q \<in> set ps. card (slots s q) = maxc s"
    using False card_slots_le [of s] by (auto simp: has_slot_def le_less)
  obtain x s' ps' where a: "alloc_object (kalloc me) self me s = Inr (x, s')" "gives_slot self s ps x s' ps'"
      "set ps' = insert p (set ps)" "pm_rep kend (ker s') F'"
    using pm.alloc_object_new_page [of self s ps kend p F' me me] full sys F by (auto simp: arena_sys_def)
  have m: "maxc s' = maxc s" using a(2) sys arena_inv_max by (auto simp: gives_slot_def arena_sys_def)
  have "valid_page kend p" "p \<notin> set F'" using pm.rep_ok [of kend "ker s" F] sys F by (auto simp: arena_sys_def)
  then have "arena_sys kend self s' ps' F'"
    using a sys F by (auto simp: arena_sys_def gives_slot_def)
  moreover have "object_size (arena s') = object_size (arena s)" using a(2) by (auto simp: gives_slot_def)
  ultimately show ?thesis using a gives_slot_objects [OF a(2) m] False F m by auto
qed

lemma arena_free_sys:
  assumes sys: "arena_sys kend self s ps F" and x: "x \<in> objects s ps"
  shows "\<exists>s' ps'. free_object self me x s = Inr s' \<and> arena_sys kend self s' ps' F \<and> set ps' = set ps \<and>
    objects s' ps' = objects s ps - {x} \<and> maxc s' = maxc s \<and> object_size (arena s') = object_size (arena s) \<and>
    free_object self me x s' = Inl (Panic ''double free object'')"
proof -
  let ?f = "\<lambda>(p, i). object_addr (object_size (arena s)) p (of_nat i)"
  obtain p i where pi: "x = ?f (p, i)" "p \<in> set ps" "i \<in> slots s p"
    using x by (auto simp: objects_def allocated_def)
  have inv: "arena_inv self s ps" using sys by (simp add: arena_sys_def)
  have i: "i < maxc s" using pi(3) by (simp add: slots_def)
  obtain s' ps' where a: "free_object self me x s = Inr s'" "arena_inv self s' ps'" "set ps' = set ps"
      "allocated s' ps' = allocated s ps - {(p, i)}" "object_size (arena s') = object_size (arena s)" "ker s' = ker s"
      "hdr_typed s \<longrightarrow> hdr_typed s'"
    using free_object_spec(1) [OF inv pi(2) i pi(3), of me] pi(1) by auto
  have m: "maxc s' = maxc s" by (rule arena_inv_max [OF inv a(2,5)])
  have ns: "i \<notin> slots s' p" using a(3,4) pi(2) by (auto simp: allocated_def)
  have "inj_on ?f {(p, i). p \<in> set ps \<and> i < maxc s}"
    using objects_inj [of self s ps] inv by (simp add: arena_inv_def)
  then have "inj_on ?f (allocated s ps)" using allocated_sub by (rule inj_on_subset)
  moreover have "(p, i) \<in> allocated s ps" using pi by (simp add: allocated_def)
  ultimately have "?f ` (allocated s ps - {(p, i)}) = ?f ` allocated s ps - {?f (p, i)}"
    by (simp add: inj_on_image_set_diff)
  then have "objects s' ps' = objects s ps - {x}" using a(4,5) pi(1) by (simp add: objects_def)
  moreover have "free_object self me x s' = Inl (Panic ''double free object'')"
    using free_object_spec(2) [OF a(2), of p i me] a(3,5) pi(1,2) i m ns by simp
  moreover have "arena_sys kend self s' ps' F" using a sys by (simp add: arena_sys_def)
  ultimately show ?thesis using a m by blast
qed

text \<open>The bytes of an object: inside its page, behind the header, and its slot can be read off each of them.\<close>

definition object_bytes :: "'k arena_st \<Rightarrow> u64 \<Rightarrow> u64 set" where
  "object_bytes s x = {y. y - x < object_size (arena s)}"

lemma object_byte:
  assumes "sizes_ok s" "aligned p" "i < maxc s" "y \<in> object_bytes s (object_addr (object_size (arena s)) p (of_nat i))"
  shows "unat p + 64 \<le> unat y" "unat y < unat p + 4096"
    "(unat y - unat p - 64) div unat (object_size (arena s)) = i"
proof -
  let ?o = "object_size (arena s)"
  let ?x = "object_addr ?o p (of_nat i)"
  have iw: "unat (of_nat i :: u64) = i"
    using assms(3) sizes_bounds(2) [OF assms(1)] by (intro unat_of_nat_lt) simp
  have x: "unat ?x = unat p + 64 + i * unat ?o"
    using object_addr_unat [OF assms(1,2), of "of_nat i"] assms(3) iw by simp
  have fit: "64 + i * unat ?o + unat ?o \<le> 4096" by (rule slot_fits [OF assms(1,3)])
  have d: "unat (y - ?x) < unat ?o" using assms(4) by (simp add: object_bytes_def word_less_nat_alt)
  have "unat y = unat (?x + (y - ?x))" by simp
  also have "\<dots> = unat ?x + unat (y - ?x)"
    using aligned_room [OF assms(2)] x fit d by (subst unat_plus_if') simp
  finally have y: "unat y = unat p + 64 + i * unat ?o + unat (y - ?x)" using x by simp
  show "unat p + 64 \<le> unat y" "unat y < unat p + 4096" using y d fit by linarith+
  have "unat y - unat p - 64 = i * unat ?o + unat (y - ?x)" using y by linarith
  then show "(unat y - unat p - 64) div unat ?o = i" using d by simp
qed

lemma objects_disjoint:
  assumes "arena_core self s ps" "x \<in> objects s ps" "x' \<in> objects s ps"
    "y \<in> object_bytes s x" "y \<in> object_bytes s x'"
  shows "x = x'"
proof -
  obtain p i where p: "x = object_addr (object_size (arena s)) p (of_nat i)" "p \<in> set ps" "i < maxc s"
    using assms(2) by (auto simp: objects_def allocated_def slots_def)
  obtain q j where q: "x' = object_addr (object_size (arena s)) q (of_nat j)" "q \<in> set ps" "j < maxc s"
    using assms(3) by (auto simp: objects_def allocated_def slots_def)
  have sz: "sizes_ok s" and al: "aligned p" "aligned q"
    using assms(1) p(2) q(2) by (auto simp: arena_core_def page_ok_def)
  note P = object_byte [OF sz al(1) p(3) assms(4) [unfolded p(1)]]
  note Q = object_byte [OF sz al(2) q(3) assms(5) [unfolded q(1)]]
  have "p \<le> y" "q \<le> y" using P(1) Q(1) by (simp_all add: word_le_nat_alt)
  then have "in_page p y" "in_page q y"
    using P(2) Q(2) by (simp_all add: in_page_def PAGE_SIZE_def word_less_nat_alt unat_minus_word)
  then have "p = q" using al pages_disjoint by blast
  then show ?thesis using P(3) Q(3) p(1) q(1) by simp
qed

lemma num_objects_card:
  assumes "arena_core self s ps"
  shows "num_objects (arena s) = of_nat (card (objects s ps))"
proof -
  have "card (objects s ps) = card (allocated s ps)"
    unfolding objects_def
    by (rule card_image) (rule inj_on_subset [OF objects_inj [OF assms] allocated_sub])
  also have "allocated s ps = Sigma (set ps) (slots s)" by (auto simp: allocated_def)
  also have "card \<dots> = (\<Sum>p \<in> set ps. card (slots s p))" by simp
  also have "\<dots> = (\<Sum>p\<leftarrow>ps. card (slots s p))"
    using arena_core_distinct [OF assms] by (simp add: sum_list_distinct_conv_sum_set)
  finally show ?thesis using assms by (simp add: arena_core_def)
qed

lemma clear_arena_sys:
  assumes sys: "arena_sys kend self s ps F"
  shows "\<exists>s' F'. clear_arena (kfree kend me) me s = Some (Inr s') \<and> arena_sys kend self s' [] F' \<and>
    set F' = set ps \<union> set F"
proof (cases ps)
  case Nil
  have "pages (arena s) = None" using sys Nil
    by (auto simp: arena_sys_def arena_inv_def arena_core_def arena_list_def split: option.splits)
  then have "clear_arena (kfree kend me) me s =
      Some (Inr (s\<lparr>arena := (arena s)\<lparr>alock := (alock (arena s))\<lparr>cpu := None, locked := False\<rparr>\<rparr>\<rparr>))"
    using sys by (simp add: clear_arena_def spinlock_defs arena_sys_def arena_inv_def)
  then show ?thesis using sys Nil
    by (intro exI [of _ "s\<lparr>arena := (arena s)\<lparr>alock := (alock (arena s))\<lparr>cpu := None, locked := False\<rparr>\<rparr>\<rparr>"] exI [of _ F])
      (simp add: arena_sys_def arena_inv_def hdr_typed_def)
next
  case (Cons h qs)
  have core: "arena_core self s (h # qs)" and lk: "\<not> locked (alock (arena s))"
    using sys Cons by (simp_all add: arena_sys_def arena_inv_def)
  have pg: "pages (arena s) = Some h" and r: "ring (lnk s) (h # qs)" and sz: "sizes_ok s"
    using core by (auto simp: arena_core_def arena_list_def split: option.splits)
  have "links (lnk s) (h # qs @ [h])" "h \<notin> set qs" using r by (simp_all add: ring_Cons)
  moreover have "pm_rep kend (ker s) F" "\<forall>p \<in> set (h # qs). valid_page kend p" "distinct (h # qs @ F)"
    using sys Cons arena_core_distinct [OF core] pm.rep_ok [of kend "ker s" F]
    by (auto simp: arena_sys_def)
  ultimately obtain k where k: "clear_pages (kfree kend me) (lnk s) h h (ker s) = Some (Inr k)"
      "pm_rep kend k (rev (h # qs) @ F)"
    using pm.clear_pages_spec [of "lnk s" h qs h kend "ker s" F me] by auto
  let ?s = "s\<lparr>ker := k, arena := (arena s)\<lparr>alock := (alock (arena s))\<lparr>cpu := None, locked := False\<rparr>,
      pages := None, num_objects := 0, num_pages := 0\<rparr>\<rparr>"
  have "clear_arena (kfree kend me) me s = Some (Inr ?s)"
    using k(1) lk pg by (simp add: clear_arena_def spinlock_defs Let_def)
  moreover have "arena_sys kend self ?s [] (rev (h # qs) @ F)"
    using k(2) sys sz
    by (simp add: arena_sys_def arena_inv_def arena_core_def arena_list_def full_last_def sizes_ok_def hdr_typed_def)
  ultimately show ?thesis using Cons by (intro exI [of _ ?s] exI [of _ "rev (h # qs) @ F"]) auto
qed

text \<open>A fresh arena for 584-byte objects (the size of a cache block) over a single free page.\<close>

definition arena0 :: "PMemory arena_st" where
  "arena0 = \<lparr>arena = \<lparr>alock = init_spinlock ''arena'', object_size = 584, max_count = 6, pages = None,
       num_objects = 0, num_pages = 0\<rparr>,
     hdr = (\<lambda>_. \<lparr>pg_arena = 9, used = [1, 2, 3, 4], pcount = 5\<rparr>),
     lnk = (\<lambda>_. \<lparr>prev_ptr = 0, next_ptr = 0\<rparr>), ker = one_page\<rparr>"

lemma arena0_sys: "arena_sys 0xffff000000100000 0 arena0 [] [0xffff000000100000]"
  using one_page_rep
  by (simp add: arena_sys_def arena_inv_def arena_core_def arena_list_def full_last_def sizes_ok_def
      hdr_typed_def arena0_def init_spinlock_def)

text \<open>
  What clients of the arena can do after \<^verbatim>\<open>init_arena\<close>: take objects and give back objects they hold. \<open>X\<close> are the addresses
  that were handed out and not given back.
\<close>

inductive arena_run :: "u64 \<Rightarrow> nat \<Rightarrow> usize \<Rightarrow> PMemory arena_st \<Rightarrow> u64 set \<Rightarrow> bool" for kend self osize where
  init: "pm_rep kend (ker s) F \<Longrightarrow> hdr_typed s \<Longrightarrow> init_arena osize s = Inr t \<Longrightarrow> arena_run kend self osize t {}"
| alloc: "arena_run kend self osize s X \<Longrightarrow> alloc_object (kalloc me) self me s = Inr (x, t) \<Longrightarrow> arena_run kend self osize t (insert x X)"
| free: "arena_run kend self osize s X \<Longrightarrow> x \<in> X \<Longrightarrow> free_object self me x s = Inr t \<Longrightarrow> arena_run kend self osize t (X - {x})"

lemma init_arena_sys:
  assumes "pm_rep kend (ker s) F" "hdr_typed s" "init_arena osize s = Inr t"
  shows "arena_sys kend self t [] F" "objects t [] = {}" "object_size (arena t) = osize"
proof -
  have o: "16 \<le> osize" "osize \<le> 4032" using assms(3) by (auto simp: init_arena_def ARENA_MIN_OBJECT_SIZE_def bitmap_cells split: if_splits)
  have t: "t = s\<lparr>arena := \<lparr>alock = init_spinlock ''arena'', object_size = osize, max_count = 4032 div osize, pages = None,
      num_objects = 0, num_pages = 0\<rparr>\<rparr>"
    using assms(3) by (auto simp: init_arena_def bitmap_cells split: if_splits)
  show "arena_sys kend self t [] F"
    using assms(1,2) o
    by (simp add: t arena_sys_def arena_inv_def arena_core_def arena_list_def full_last_def sizes_ok_def hdr_typed_def init_spinlock_def
        word_le_nat_alt unat_div_distrib)
  show "objects t [] = {}" "object_size (arena t) = osize" by (simp_all add: objects_def allocated_def t)
qed

lemma arena_run_sys:
  "arena_run kend self osize s X \<Longrightarrow> \<exists>ps F. arena_sys kend self s ps F \<and> X = objects s ps \<and> object_size (arena s) = osize"
proof (induction rule: arena_run.induct)
  case (init s F t)
  then show ?case using init_arena_sys(1) [OF init(1-3), of self] init_arena_sys(2,3) [OF init(1-3)] by blast
next
  case (alloc s X me x t)
  then obtain ps F where s: "arena_sys kend self s ps F" "X = objects s ps" "object_size (arena s) = osize" by blast
  have "has_slot s ps \<or> F \<noteq> []"
  proof (rule ccontr)
    assume n: "\<not> (has_slot s ps \<or> F \<noteq> [])"
    then have "\<forall>q \<in> set ps. card (slots s q) = maxc s" using card_slots_le [of s] by (auto simp: has_slot_def le_less)
    then have "alloc_object (kalloc me) self me s = Inl (if ps = [] then BadAccess else Panic ''arena failed to allocate object'')"
      using s(1) n by (intro pm.alloc_object_exhausted [where kend = kend]) (simp_all add: arena_sys_def)
    then show False using alloc(2) by simp
  qed
  from arena_alloc_sys [OF s(1) this, of me] show ?case using alloc(2) s(2,3) by fastforce
next
  case (free s X x me t)
  then obtain ps F where s: "arena_sys kend self s ps F" "X = objects s ps" "object_size (arena s) = osize" by blast
  from arena_free_sys [OF s(1), of x me] show ?case using free(2,3) s(2,3) by fastforce
qed

lemma arena0_max: "maxc arena0 = 6"
  by (simp add: arena0_def)

lemma arena0_run: "arena_run 0xffff000000100000 self 584 arena0 {}"
  by (rule arena_run.init [of _ arena0 "[0xffff000000100000]"])
    (use one_page_rep in \<open>simp_all add: hdr_typed_def arena0_def init_arena_def ARENA_MIN_OBJECT_SIZE_def bitmap_cells\<close>)

section \<open>Claims\<close>

text \<open>
  C14. While a page of the arena has a free slot or the kernel a free page, \<^verbatim>\<open>alloc_object\<close> returns the
  address of an object that was not handed out and marks exactly that object used; it takes a new page,
  and only one, exactly when every slot of every page is in use. The arena's invariant and the page
  allocator's are kept.
\<close>

theorem alloc_object_fresh:
  assumes "arena_sys kend self s ps F" and "has_slot s ps \<or> F \<noteq> []"
  shows "\<exists>x s' ps' F'. alloc_object (kalloc me) self me s = Inr (x, s') \<and> arena_sys kend self s' ps' F' \<and>
    x \<notin> objects s ps \<and> objects s' ps' = insert x (objects s ps) \<and>
    (if has_slot s ps then set ps' = set ps \<and> F' = F else set ps' = insert (hd F) (set ps) \<and> F' = tl F)"
  using arena_alloc_sys [OF assms, of me] by blast

theorem alloc_object_fresh_witness:
  "\<exists>x s' ps'. alloc_object (kalloc 0) 0 0 arena0 = Inr (x, s') \<and> objects s' ps' = {x} \<and>
     set ps' = {0xffff000000100000}"
  using alloc_object_fresh [OF arena0_sys, of 0] by (auto simp: has_slot_def objects_def allocated_def)

text \<open>
  C31. \<^verbatim>\<open>free_object\<close> of an object that was handed out succeeds and takes exactly that object out of use,
  keeping every page; freeing it once more is caught as a double free.
\<close>

theorem free_object_once:
  assumes "arena_sys kend self s ps F" and "x \<in> objects s ps"
  shows "\<exists>s' ps'. free_object self me x s = Inr s' \<and> arena_sys kend self s' ps' F \<and> set ps' = set ps \<and>
    objects s' ps' = objects s ps - {x} \<and>
    free_object self me x s' = Inl (Panic ''double free object'')"
  using arena_free_sys [OF assms, of me] by blast

theorem free_object_once_witness:
  "\<exists>x s s'. alloc_object (kalloc 0) 0 0 arena0 = Inr (x, s) \<and> free_object 0 0 x s = Inr s' \<and>
     free_object 0 0 x s' = Inl (Panic ''double free object'')"
proof -
  obtain x s ps F where "alloc_object (kalloc 0) 0 0 arena0 = Inr (x, s)"
      "arena_sys 0xffff000000100000 0 s ps F" "x \<in> objects s ps"
    using arena_alloc_sys [OF arena0_sys, of 0] by auto
  then show ?thesis using free_object_once [of "0xffff000000100000" 0 s ps F x 0] by blast
qed

text \<open>
  C21. Whatever sequence of \<^verbatim>\<open>alloc_object\<close> and \<^verbatim>\<open>free_object\<close> follows \<^verbatim>\<open>init_arena\<close>, the objects that were handed out and not
  given back never overlap, each lies in one page behind the header, \<^verbatim>\<open>num_objects\<close> counts them, and giving any of them back succeeds.
\<close>

theorem objects_separate:
  assumes "arena_run kend self osize s X" and "x \<in> X"
  shows "(\<forall>x' \<in> X. x' \<noteq> x \<longrightarrow> {y. y - x < osize} \<inter> {y. y - x' < osize} = {}) \<and>
    (\<exists>p. valid_page kend p \<and> (\<forall>y. y - x < osize \<longrightarrow> unat p + 64 \<le> unat y \<and> unat y < unat p + 4096)) \<and>
    num_objects (arena s) = of_nat (card X) \<and> (\<exists>s'. free_object self me x s = Inr s')"
proof -
  obtain ps F where sys: "arena_sys kend self s ps F" and X: "X = objects s ps" and o: "object_size (arena s) = osize"
    using arena_run_sys [OF assms(1)] by blast
  have x: "x \<in> objects s ps" using assms(2) X by simp
  have core: "arena_core self s ps" using sys by (simp add: arena_sys_def arena_inv_def)
  obtain p i where p: "x = object_addr (object_size (arena s)) p (of_nat i)" "p \<in> set ps" "i < maxc s"
    using x by (auto simp: objects_def allocated_def slots_def)
  have "sizes_ok s" "aligned p" "valid_page kend p" using core sys p(2) by (auto simp: arena_core_def page_ok_def arena_sys_def)
  then have "\<forall>y \<in> object_bytes s x. unat p + 64 \<le> unat y \<and> unat y < unat p + 4096"
    using object_byte(1,2) [of s p i] p(1,3) by blast
  then show ?thesis
    using objects_disjoint [OF core x] num_objects_card [OF core] \<open>valid_page kend p\<close> arena_free_sys [OF sys x, of me]
    unfolding object_bytes_def o X by blast
qed

theorem objects_separate_witness:
  "\<exists>x x' s s'. alloc_object (kalloc 0) 0 0 arena0 = Inr (x, s) \<and> alloc_object (kalloc 0) 0 0 s = Inr (x', s') \<and>
     {y. y - x < 584} \<inter> {y. y - x' < 584} = {} \<and> num_objects (arena s') = 2"
proof -
  obtain x s ps F where a: "alloc_object (kalloc 0) 0 0 arena0 = Inr (x, s)" "arena_sys 0xffff000000100000 0 s ps F"
      "objects s ps = {x}" "maxc s = 6" "set ps = {0xffff000000100000}"
    using arena_alloc_sys [OF arena0_sys, of 0] arena0_max
    by (auto simp: has_slot_def objects_def [of arena0] allocated_def [of arena0])
  have slot: "has_slot s ps"
  proof -
    obtain q where q: "q \<in> set ps" using a(5) by blast
    have "finite (allocated s ps)" by (rule finite_subset [OF allocated_sub]) simp
    have inj: "inj_on (\<lambda>(p, i). object_addr (object_size (arena s)) p (of_nat i)) (allocated s ps)"
      using a(2) by (intro inj_on_subset [OF objects_inj [of 0] allocated_sub]) (simp add: arena_sys_def arena_inv_def)
    then have "card (allocated s ps) = 1" using a(3) card_image [OF inj] by (simp add: objects_def)
    moreover have "Pair q ` slots s q \<subseteq> allocated s ps" using q by (auto simp: allocated_def)
    then have "card (slots s q) \<le> card (allocated s ps)"
      using card_mono [OF \<open>finite (allocated s ps)\<close>, of "Pair q ` slots s q"] card_image [of "Pair q" "slots s q"] by (simp add: inj_on_def)
    ultimately show ?thesis unfolding has_slot_def using q a(4) by (intro bexI [of _ q]) simp_all
  qed
  obtain x' s' where b: "alloc_object (kalloc 0) 0 0 s = Inr (x', s')" "x' \<noteq> x"
    using arena_alloc_sys [OF a(2), of 0] slot a(3) by auto
  have "arena_run 0xffff000000100000 0 584 s' (insert x' (insert x {}))"
    by (rule arena_run.alloc [OF arena_run.alloc [OF arena0_run a(1)] b(1)])
  from objects_separate [OF this, of x 0] show ?thesis using a(1) b by auto
qed

text \<open>
  C29. \<^verbatim>\<open>clear_arena\<close> comes to an end and gives every page of the arena back to the page allocator, exactly
  once, leaving an empty arena.
\<close>

theorem clear_arena_returns_pages:
  assumes "arena_sys kend self s ps F"
  shows "\<exists>s' F'. clear_arena (kfree kend me) me s = Some (Inr s') \<and> arena_sys kend self s' [] F' \<and>
    set F' = set ps \<union> set F"
  using assms by (rule clear_arena_sys)

theorem clear_arena_returns_pages_witness:
  "\<exists>x s s' F'. alloc_object (kalloc 0) 0 0 arena0 = Inr (x, s) \<and>
     clear_arena (kfree 0xffff000000100000 0) 0 s = Some (Inr s') \<and>
     pm_rep 0xffff000000100000 (ker s') F' \<and> 0xffff000000100000 \<in> set F'"
proof -
  obtain x s ps F where "alloc_object (kalloc 0) 0 0 arena0 = Inr (x, s)"
      "arena_sys 0xffff000000100000 0 s ps F" "set ps = {0xffff000000100000}"
    using arena_alloc_sys [OF arena0_sys, of 0] by (auto simp: has_slot_def)
  then show ?thesis
    using clear_arena_returns_pages [of "0xffff000000100000" 0 s ps F 0] unfolding arena_sys_def by blast
qed

end
