(* ===== verification/Cache.thy ===== *)
theory Cache
  imports Arena
begin

text \<open>
  The block cache and its write-ahead log (\<^verbatim>\<open>src/fs/cache.c\<close>) over the block device
  (\<^verbatim>\<open>src/fs/block_device.c\<close>). The circular list of cached blocks is kept as the list of
  its nodes behind the head, most recently used first, which is what the ring of
  theory \<open>ListNode\<close> stands for; blocks are records by address; the arena that blocks come from is a pair of
  function parameters with the contract \<open>object_pool\<close>. The disk is a map from
  sectors to 512-byte contents together with the history of writes, so that a crash is a
  prefix of that history. One thread runs: a spinlock that is held and a
  \<^verbatim>\<open>sleep\<close> are \<^term>\<open>Blocked\<close>.
\<close>

section \<open>On-disk structures\<close>

definition BLOCK_SIZE :: nat where "BLOCK_SIZE = 512"

definition LOG_MAX_SIZE :: nat where "LOG_MAX_SIZE = (BLOCK_SIZE - 8) div 8"

definition BIT_PER_BLOCK :: nat where "BIT_PER_BLOCK = BLOCK_SIZE * 8"

record SuperBlock =
  num_blocks :: u32
  num_data_blocks :: u32
  num_inodes :: u32
  num_log_blocks :: u32
  log_start :: u32
  inode_start :: u32
  bitmap_start :: u32

record LogHeader =
  hnum :: usize
  hblock :: "usize list"

text \<open>A 64-bit integer in memory, low byte first; the header block is 64 of them.\<close>

definition bytes_of64 :: "u64 \<Rightarrow> u8 list" where
  "bytes_of64 w = map (\<lambda>i. ucast (drop_bit (8 * i) w)) [0..<8]"

fun of_bytes64 :: "u8 list \<Rightarrow> u64" where
  "of_bytes64 [] = 0"
| "of_bytes64 (b # bs) = ucast b OR push_bit 8 (of_bytes64 bs)"

definition header_bytes :: "LogHeader \<Rightarrow> u8 list" where
  "header_bytes h = concat (map bytes_of64 (hnum h # hblock h))"

definition header_of :: "u8 list \<Rightarrow> LogHeader" where
  "header_of bs =
     \<lparr>hnum = of_bytes64 (take 8 bs),
      hblock = map (\<lambda>i. of_bytes64 (take 8 (drop (8 * Suc i) bs))) [0..<LOG_MAX_SIZE]\<rparr>"

section \<open>State\<close>

record Block =
  block_no :: usize
  acquired :: bool
  pinned :: bool
  block_lock :: bool
  valid :: bool
  data :: "u8 list"

record OpContext =
  ts :: usize
  rm :: usize

record LOG =
  outstanding :: int
  committing :: bool
  mu :: int
  mx :: int

text \<open>\<^verbatim>\<open>disk\<close> is what the device holds, \<^verbatim>\<open>history\<close> the writes so far, latest first.\<close>

record 'a bcache =
  disk :: "u32 \<Rightarrow> u8 list"
  history :: "(u32 \<times> u8 list) list"
  lru :: "u64 list"
  blk :: "u64 \<Rightarrow> Block"
  header :: LogHeader
  log :: LOG
  cache_locked :: bool
  log_locked :: bool
  pool :: 'a

record 'a arena_ops =
  oalloc :: "'a \<Rightarrow> fault + u64 \<times> 'a"
  ofree :: "u64 \<Rightarrow> 'a \<Rightarrow> fault + 'a"

definition EVICTION_THRESHOLD :: nat where "EVICTION_THRESHOLD = 20"

definition OP_MAX_NUM_BLOCKS :: int where "OP_MAX_NUM_BLOCKS = 10"

definition upd_blk :: "u64 \<Rightarrow> (Block \<Rightarrow> Block) \<Rightarrow> ('a bcache, unit) cm" where
  "upd_blk p f = modify (\<lambda>s. s\<lparr>blk := (blk s)(p := f (blk s p))\<rparr>)"

section \<open>Locks and the device\<close>

definition lock_cache :: "('a bcache, unit) cm" where
  "lock_cache = andthen (guard_cm Blocked (\<lambda>s. \<not> cache_locked s)) (modify (\<lambda>s. s\<lparr>cache_locked := True\<rparr>))"

definition unlock_cache :: "('a bcache, unit) cm" where
  "unlock_cache = andthen (guard_cm (Panic ''release: lock not held'') cache_locked)
     (modify (\<lambda>s. s\<lparr>cache_locked := False\<rparr>))"

definition lock_log :: "('a bcache, unit) cm" where
  "lock_log = andthen (guard_cm Blocked (\<lambda>s. \<not> log_locked s)) (modify (\<lambda>s. s\<lparr>log_locked := True\<rparr>))"

definition unlock_log :: "('a bcache, unit) cm" where
  "unlock_log = andthen (guard_cm (Panic ''release: lock not held'') log_locked)
     (modify (\<lambda>s. s\<lparr>log_locked := False\<rparr>))"

definition acquire_block :: "u64 \<Rightarrow> ('a bcache, unit) cm" where
  "acquire_block p = andthen (guard_cm Blocked (\<lambda>s. \<not> block_lock (blk s p)))
     (upd_blk p (\<lambda>b. b\<lparr>block_lock := True\<rparr>))"

definition release_block :: "u64 \<Rightarrow> ('a bcache, unit) cm" where
  "release_block p = upd_blk p (\<lambda>b. b\<lparr>block_lock := False\<rparr>)"

text \<open>\<^verbatim>\<open>sd_read\<close> and \<^verbatim>\<open>sd_write\<close>: the block number is cut to the 32 bits of \<^verbatim>\<open>struct buf\<close>.\<close>

definition sd_read :: "usize \<Rightarrow> ('a bcache, u8 list) cm" where
  "sd_read n = gets (\<lambda>s. disk s (ucast n))"

definition sd_write :: "usize \<Rightarrow> u8 list \<Rightarrow> ('a bcache, unit) cm" where
  "sd_write n d = modify (\<lambda>s. s\<lparr>disk := (disk s)(ucast n := d), history := (ucast n, d) # history s\<rparr>)"

definition device_read :: "u64 \<Rightarrow> ('a bcache, unit) cm" where
  "device_read p = bind (gets (\<lambda>s. block_no (blk s p))) (\<lambda>n.
     bind (sd_read (n + 0x20800)) (\<lambda>d. upd_blk p (\<lambda>b. b\<lparr>data := d\<rparr>)))"

definition device_write :: "u64 \<Rightarrow> ('a bcache, unit) cm" where
  "device_write p = bind (gets (\<lambda>s. blk s p)) (\<lambda>b. sd_write (block_no b + 0x20800) (data b))"

definition read_header :: "SuperBlock \<Rightarrow> ('a bcache, unit) cm" where
  "read_header sb = bind (sd_read (ucast (log_start sb))) (\<lambda>d. modify (\<lambda>s. s\<lparr>header := header_of d\<rparr>))"

definition write_header :: "SuperBlock \<Rightarrow> ('a bcache, unit) cm" where
  "write_header sb = bind (gets header) (\<lambda>h. sd_write (ucast (log_start sb)) (header_bytes h))"

section \<open>Cached blocks\<close>

definition init_block :: "u64 \<Rightarrow> ('a bcache, unit) cm" where
  "init_block p = upd_blk p (\<lambda>_. \<lparr>block_no = 0, acquired = False, pinned = False, block_lock = False,
     valid = False, data = replicate BLOCK_SIZE 0\<rparr>)"

definition get_num_cached_blocks :: "('a bcache, nat) cm" where
  "get_num_cached_blocks = gets (\<lambda>s. length (lru s))"

text \<open>The search loop of \<^verbatim>\<open>cache_acquire\<close>: the first node, from the front, with this number.\<close>

fun find_block :: "(u64 \<Rightarrow> Block) \<Rightarrow> usize \<Rightarrow> u64 list \<Rightarrow> u64 option" where
  "find_block h n [] = None"
| "find_block h n (p # ps) = (if block_no (h p) = n then Some p else find_block h n ps)"

text \<open>
  The eviction loop, walking from the back of the list: \<open>qs\<close> are the nodes still to visit, \<open>sz\<close> the
  number of cached blocks. A block that is neither pinned nor acquired is unlinked and freed.
\<close>

fun evict :: "'a arena_ops \<Rightarrow> nat \<Rightarrow> u64 list \<Rightarrow> ('a bcache, unit) cm" where
  "evict A sz [] = ret ()"
| "evict A sz (q # qs) =
     (if sz \<ge> EVICTION_THRESHOLD then
        bind (gets (\<lambda>s. blk s q)) (\<lambda>b.
          if pinned b = False \<and> acquired b = False then
            andthen (modify (\<lambda>s. s\<lparr>lru := remove1 q (lru s)\<rparr>))
              (andthen (\<lambda>s. case ofree A q (pool s) of Inl e \<Rightarrow> Inl e | Inr k \<Rightarrow> Inr ((), s\<lparr>pool := k\<rparr>))
                (evict A (sz - 1) qs))
          else evict A sz qs)
      else ret ())"

definition alloc_block :: "'a arena_ops \<Rightarrow> ('a bcache, u64) cm" where
  "alloc_block A = (\<lambda>s. case oalloc A (pool s) of Inl e \<Rightarrow> Inl e | Inr (p, k) \<Rightarrow> Inr (p, s\<lparr>pool := k\<rparr>))"

definition cache_acquire :: "'a arena_ops \<Rightarrow> usize \<Rightarrow> ('a bcache, u64) cm" where
  "cache_acquire A n = andthen lock_cache
     (bind (gets (\<lambda>s. find_block (blk s) n (lru s))) (\<lambda>r.
        case r of
          Some p \<Rightarrow>
            andthen (modify (\<lambda>s. s\<lparr>lru := p # remove1 p (lru s)\<rparr>))
              (andthen unlock_cache (andthen (acquire_block p) (ret p)))
        | None \<Rightarrow>
            bind get_num_cached_blocks (\<lambda>sz.
              andthen (if sz \<ge> EVICTION_THRESHOLD then bind (gets lru) (\<lambda>l. evict A sz (rev l)) else ret ())
                (bind (alloc_block A) (\<lambda>p.
                   andthen (init_block p)
                     (andthen (modify (\<lambda>s. s\<lparr>lru := p # lru s\<rparr>))
                        (andthen (upd_blk p (\<lambda>b. b\<lparr>block_no := n\<rparr>))
                           (andthen unlock_cache
                              (andthen (acquire_block p)
                                 (andthen (device_read p)
                                    (andthen (upd_blk p (\<lambda>b. b\<lparr>valid := True, acquired := True\<rparr>))
                                       (ret p))))))))))))"

definition cache_release :: "u64 \<Rightarrow> ('a bcache, unit) cm" where
  "cache_release p = andthen (upd_blk p (\<lambda>b. b\<lparr>acquired := False\<rparr>)) (release_block p)"

section \<open>The log\<close>

text \<open>\<^verbatim>\<open>sblock->log_start + tail + 1\<close> in 32-bit arithmetic.\<close>

definition log_block :: "SuperBlock \<Rightarrow> nat \<Rightarrow> usize" where
  "log_block sb tail = ucast (log_start sb + of_nat tail + 1)"

text \<open>The loops over the log: an index past the array of the header is an error.\<close>

function install_from :: "'a arena_ops \<Rightarrow> SuperBlock \<Rightarrow> bool \<Rightarrow> nat \<Rightarrow> ('a bcache, unit) cm" where
  "install_from A sb recovering tail = bind (gets header) (\<lambda>h.
     if tail < unat (hnum h) then
       if tail < LOG_MAX_SIZE then
         bind (cache_acquire A (log_block sb tail)) (\<lambda>lbuf.
         bind (cache_acquire A (hblock h ! tail)) (\<lambda>dbuf.
           andthen (bind (gets (\<lambda>s. data (blk s lbuf))) (\<lambda>d. upd_blk dbuf (\<lambda>b. b\<lparr>data := d\<rparr>)))
           (andthen (device_write dbuf)
           (andthen (if recovering then upd_blk dbuf (\<lambda>b. b\<lparr>pinned := False\<rparr>) else ret ())
           (andthen (cache_release lbuf)
           (andthen (cache_release dbuf)
             (install_from A sb recovering (Suc tail))))))))
       else fail BadAccess
     else ret ())"
  by pat_completeness auto
termination by (relation "measure (\<lambda>(A, sb, r, tail). LOG_MAX_SIZE - tail)") auto

definition install_trans :: "'a arena_ops \<Rightarrow> SuperBlock \<Rightarrow> bool \<Rightarrow> ('a bcache, unit) cm" where
  "install_trans A sb recovering = install_from A sb recovering 0"

definition clear_header :: "('a bcache, unit) cm" where
  "clear_header = modify (\<lambda>s. s\<lparr>header := (header s)\<lparr>hnum := 0\<rparr>\<rparr>)"

definition recover_from_log :: "'a arena_ops \<Rightarrow> SuperBlock \<Rightarrow> ('a bcache, unit) cm" where
  "recover_from_log A sb =
     andthen (read_header sb) (andthen (install_trans A sb True) (andthen clear_header (write_header sb)))"

definition log_max :: "SuperBlock \<Rightarrow> int" where
  "log_max sb = (let a = unat (num_log_blocks sb - 1) in int (if a \<le> LOG_MAX_SIZE then a else LOG_MAX_SIZE))"

text \<open>\<^verbatim>\<open>log.outstanding\<close> and \<^verbatim>\<open>log.committing\<close> keep the zero of static storage. \<open>k\<close> is the initialised arena.\<close>

definition init_bcache :: "'a arena_ops \<Rightarrow> SuperBlock \<Rightarrow> 'a \<Rightarrow> ('a bcache, unit) cm" where
  "init_bcache A sb k =
     andthen (modify (\<lambda>s. s\<lparr>lru := [], cache_locked := False, pool := k, log_locked := False,
                log := (log s)\<lparr>mu := 0, mx := log_max sb\<rparr>\<rparr>))
       (recover_from_log A sb)"

definition cache_begin_op :: "('a bcache, OpContext) cm" where
  "cache_begin_op = andthen lock_log
     (bind (gets (\<lambda>s. s)) (\<lambda>s.
        if committing (log s) then fail Blocked
        else if int (unat (hnum (header s))) + mu (log s) + OP_MAX_NUM_BLOCKS > mx (log s) then fail Blocked
        else andthen (modify (\<lambda>s. s\<lparr>log := (log s)\<lparr>outstanding := outstanding (log s) + 1,
                                      mu := mu (log s) + OP_MAX_NUM_BLOCKS\<rparr>\<rparr>))
               (bind (gets (\<lambda>s. \<lparr>ts = word_of_int (outstanding (log s)), rm = word_of_int OP_MAX_NUM_BLOCKS\<rparr>))
                 (\<lambda>ctx. andthen unlock_log (ret ctx)))))"

text \<open>The loop that looks for a block number among the first \<open>cnt\<close> of the header.\<close>

fun find_logged :: "usize \<Rightarrow> usize list \<Rightarrow> nat" where
  "find_logged n [] = 0"
| "find_logged n (b # bs) = (if b = n then 0 else Suc (find_logged n bs))"

definition cache_sync :: "OpContext option \<Rightarrow> u64 \<Rightarrow> ('a bcache, OpContext option) cm" where
  "cache_sync ctx p = (case ctx of
     Some c \<Rightarrow>
       andthen lock_log
       (andthen (guard_cm (Panic ''too big a transaction'') (\<lambda>s. \<not> int (unat (hnum (header s))) \<ge> mx (log s)))
       (andthen (guard_cm (Panic ''log_write outside of trans'') (\<lambda>s. \<not> outstanding (log s) < 1))
       (bind (gets (\<lambda>s. (header s, block_no (blk s p)))) (\<lambda>(h, n).
         (let cnt = unat (hnum h); i = find_logged n (take cnt (hblock h)) in
          andthen (guard_cm BadAccess (\<lambda>s. i < length (hblock h)))
          (andthen (modify (\<lambda>s. s\<lparr>header := h\<lparr>hblock := (hblock h)[i := n]\<rparr>\<rparr>))
          (bind (if i = cnt then
                   andthen (modify (\<lambda>s. s\<lparr>header := (header s)\<lparr>hnum := hnum (header s) + 1\<rparr>\<rparr>))
                   (andthen (upd_blk p (\<lambda>b. b\<lparr>pinned := True\<rparr>))
                   (if rm c > 0
                    then andthen (modify (\<lambda>s. s\<lparr>log := (log s)\<lparr>mu := mu (log s) - 1\<rparr>\<rparr>)) (ret (c\<lparr>rm := rm c - 1\<rparr>))
                    else fail (Panic ''OP_MAX_BLOCK exceeded'')))
                 else ret c)
            (\<lambda>c'. andthen unlock_log (ret (Some c'))))))))))
   | None \<Rightarrow> andthen (device_write p) (ret None))"

function write_log_from :: "'a arena_ops \<Rightarrow> SuperBlock \<Rightarrow> nat \<Rightarrow> ('a bcache, unit) cm" where
  "write_log_from A sb tail = bind (gets header) (\<lambda>h.
     if tail < unat (hnum h) then
       if tail < LOG_MAX_SIZE then
         bind (cache_acquire A (hblock h ! tail)) (\<lambda>from_blk.
         bind (cache_acquire A (log_block sb tail)) (\<lambda>to_blk.
           andthen (bind (gets (\<lambda>s. data (blk s from_blk))) (\<lambda>d. upd_blk to_blk (\<lambda>b. b\<lparr>data := d\<rparr>)))
           (andthen (device_write to_blk)
           (andthen (cache_release from_blk)
           (andthen (cache_release to_blk)
             (write_log_from A sb (Suc tail)))))))
       else fail BadAccess
     else ret ())"
  by pat_completeness auto
termination by (relation "measure (\<lambda>(A, sb, tail). LOG_MAX_SIZE - tail)") auto

definition write_log :: "'a arena_ops \<Rightarrow> SuperBlock \<Rightarrow> ('a bcache, unit) cm" where
  "write_log A sb = write_log_from A sb 0"

definition commit :: "'a arena_ops \<Rightarrow> SuperBlock \<Rightarrow> ('a bcache, unit) cm" where
  "commit A sb = bind (gets header) (\<lambda>h.
     if hnum h > 0 then
       andthen (write_log A sb) (andthen (write_header sb) (andthen (install_trans A sb False)
         (andthen clear_header (write_header sb))))
     else ret ())"

text \<open>
  The first half of \<^verbatim>\<open>cache_end_op\<close>, up to the release of the log lock: true when this operation is the
  last one and has to commit, false when it goes to sleep on \<^verbatim>\<open>log.outstanding\<close> until another one has.
\<close>

definition end_op_enter :: "OpContext \<Rightarrow> ('a bcache, bool) cm" where
  "end_op_enter c = andthen lock_log
     (andthen (modify (\<lambda>s. s\<lparr>log := (log s)\<lparr>outstanding := outstanding (log s) - 1,
                                 mu := mu (log s) - sint (ucast (rm c) :: u32)\<rparr>\<rparr>))
     (andthen (guard_cm (Panic ''log committing'') (\<lambda>s. \<not> committing (log s)))
     (bind (gets (\<lambda>s. outstanding (log s) = 0)) (\<lambda>last.
        andthen (if last then modify (\<lambda>s. s\<lparr>log := (log s)\<lparr>committing := True\<rparr>\<rparr>) else ret ())
          (andthen unlock_log (ret last))))))"

definition cache_end_op :: "'a arena_ops \<Rightarrow> SuperBlock \<Rightarrow> OpContext \<Rightarrow> ('a bcache, unit) cm" where
  "cache_end_op A sb c = bind (end_op_enter c) (\<lambda>do_commit.
     if do_commit then
       andthen (commit A sb) (andthen lock_log
         (andthen (modify (\<lambda>s. s\<lparr>log := (log s)\<lparr>committing := False\<rparr>\<rparr>)) unlock_log))
     else fail Blocked)"

section \<open>Block allocation\<close>

definition BBLOCK :: "usize \<Rightarrow> SuperBlock \<Rightarrow> usize" where
  "BBLOCK b sb = b div of_nat BIT_PER_BLOCK + ucast (bitmap_start sb)"

definition bzero :: "'a arena_ops \<Rightarrow> OpContext option \<Rightarrow> u32 \<Rightarrow> ('a bcache, OpContext option) cm" where
  "bzero A ctx n = bind (cache_acquire A (ucast n)) (\<lambda>bp.
     andthen (upd_blk bp (\<lambda>b. b\<lparr>data := replicate BLOCK_SIZE 0\<rparr>))
     (bind (cache_sync ctx bp) (\<lambda>ctx'.
     andthen (cache_release bp) (ret ctx'))))"

text \<open>The inner loop of \<^verbatim>\<open>cache_alloc\<close>: the first clear bit of this bitmap block.\<close>

function find_clear :: "u8 list \<Rightarrow> u32 \<Rightarrow> u32 \<Rightarrow> nat \<Rightarrow> nat option" where
  "find_clear d b n bi =
     (if bi < BIT_PER_BLOCK \<and> b + of_nat bi < n then
        if d ! (bi div 8) AND push_bit (bi mod 8) 1 = 0 then Some bi
        else find_clear d b n (Suc bi)
      else None)"
  by pat_completeness auto
termination by (relation "measure (\<lambda>(d, b, n, bi). BIT_PER_BLOCK - bi)") auto

text \<open>
  The outer loop, one bitmap block at a time. If the counter wraps around it starts again at zero, with
  no free block in sight, and never ends.
\<close>

function alloc_from :: "'a arena_ops \<Rightarrow> SuperBlock \<Rightarrow> OpContext option \<Rightarrow> u32 \<Rightarrow>
    ('a bcache, u32 \<times> OpContext option) cm" where
  "alloc_from A sb ctx b =
     (if b < num_blocks sb then
        bind (cache_acquire A (BBLOCK (ucast b) sb)) (\<lambda>bp.
        bind (gets (\<lambda>s. data (blk s bp))) (\<lambda>d.
          case find_clear d b (num_blocks sb) 0 of
            Some bi \<Rightarrow>
              andthen (upd_blk bp (\<lambda>k. k\<lparr>data := (data k)[bi div 8 := data k ! (bi div 8) OR push_bit (bi mod 8) 1]\<rparr>))
              (bind (cache_sync ctx bp) (\<lambda>ctx1.
              andthen (cache_release bp)
              (bind (bzero A ctx1 (b + of_nat bi)) (\<lambda>ctx2.
                 ret (b + of_nat bi, ctx2)))))
          | None \<Rightarrow>
              andthen (cache_release bp)
                (if b < b + of_nat BIT_PER_BLOCK then alloc_from A sb ctx (b + of_nat BIT_PER_BLOCK)
                 else fail Blocked)))
      else fail (Panic ''cache_alloc: no free block''))"
  by pat_completeness auto
termination
proof (relation "measure (\<lambda>(A, sb, ctx, b). 2 ^ 32 - unat b)")
  fix A :: "'a arena_ops" and sb ctx and b :: u32
  assume "b < b + of_nat BIT_PER_BLOCK"
  moreover have "unat (b + of_nat BIT_PER_BLOCK) < 2 ^ 32"
    using unsigned_less [of "b + of_nat BIT_PER_BLOCK", where ?'a = nat] by simp
  ultimately show "((A, sb, ctx, b + of_nat BIT_PER_BLOCK), A, sb, ctx, b)
      \<in> measure (\<lambda>(A, sb, ctx, b). 2 ^ 32 - unat b)"
    by (simp add: word_less_nat_alt)
qed simp

definition cache_alloc :: "'a arena_ops \<Rightarrow> SuperBlock \<Rightarrow> OpContext option \<Rightarrow> ('a bcache, usize \<times> OpContext option) cm" where
  "cache_alloc A sb ctx = bind (alloc_from A sb ctx 0) (\<lambda>(n, ctx'). ret (ucast n, ctx'))"

definition cache_free :: "'a arena_ops \<Rightarrow> SuperBlock \<Rightarrow> OpContext option \<Rightarrow> usize \<Rightarrow> ('a bcache, OpContext option) cm" where
  "cache_free A sb ctx n = bind (cache_acquire A (BBLOCK n sb)) (\<lambda>bp.
     (let bi = unat (n mod of_nat BIT_PER_BLOCK); m = push_bit (bi mod 8) 1 in
      andthen (guard_cm (Panic ''freeing free block'') (\<lambda>s. \<not> data (blk s bp) ! (bi div 8) AND m = 0))
      (andthen (upd_blk bp (\<lambda>k. k\<lparr>data := (data k)[bi div 8 := data k ! (bi div 8) AND NOT m]\<rparr>))
      (bind (cache_sync ctx bp) (\<lambda>ctx'.
      andthen (cache_release bp) (ret ctx'))))))"

declare install_from.simps [simp del] write_log_from.simps [simp del] find_clear.simps [simp del] alloc_from.simps [simp del]

section \<open>The pool of block objects\<close>

text \<open>
  What the cache needs of the arena: \<open>orep k X n\<close> says that the objects in \<open>X\<close> are handed out and
  that \<open>n\<close> more can be.
\<close>

locale object_pool =
  fixes A :: "'a arena_ops"
    and orep :: "'a \<Rightarrow> u64 set \<Rightarrow> nat \<Rightarrow> bool"
  assumes pool_alloc: "orep k X (Suc n) \<Longrightarrow> \<exists>p k'. oalloc A k = Inr (p, k') \<and> p \<notin> X \<and> orep k' (insert p X) n"
    and pool_free: "orep k X n \<Longrightarrow> p \<in> X \<Longrightarrow> \<exists>k'. ofree A p k = Inr k' \<and> orep k' (X - {p}) (Suc n)"

definition arena_pool :: "u64 \<Rightarrow> nat \<Rightarrow> nat \<Rightarrow> PMemory arena_st arena_ops" where
  "arena_pool kend self me = \<lparr>oalloc = alloc_object (kalloc me) self me, ofree = free_object self me\<rparr>"

definition pool_rep :: "u64 \<Rightarrow> nat \<Rightarrow> PMemory arena_st \<Rightarrow> u64 set \<Rightarrow> nat \<Rightarrow> bool" where
  "pool_rep kend self s X n \<longleftrightarrow> (\<exists>ps F. arena_sys kend self s ps F \<and> X = objects s ps \<and>
     n + card X = maxc s * (length ps + length F))"

lemma sys_lengths:
  assumes "arena_sys kend self s ps F" "arena_sys kend self s' ps' F'" "set ps \<union> set F = set ps' \<union> set F'"
  shows "length ps + length F = length ps' + length F'"
proof -
  have "distinct (qs @ G)" if "arena_sys kend self t qs G" for t qs G
    using that arena_core_distinct [of self t qs] pm.rep_ok [of kend "ker t" G]
    by (auto simp: arena_sys_def arena_inv_def)
  then have "distinct (ps @ F)" "distinct (ps' @ F')" using assms(1,2) by blast+
  then show ?thesis
    using assms(3) distinct_card [of "ps @ F"] distinct_card [of "ps' @ F'"] by simp
qed

lemma sys_finite: "arena_sys kend self s ps F \<Longrightarrow> finite (objects s ps)"
  by (rule finite_subset [of _ "(\<lambda>(p, i). object_addr (object_size (arena s)) p (of_nat i)) ` (set ps \<times> {..<maxc s})"])
    (auto simp: objects_def allocated_def slots_def)

lemma sys_full:
  assumes sys: "arena_sys kend self s ps F" and "\<not> has_slot s ps"
  shows "card (objects s ps) = maxc s * length ps"
proof -
  have core: "arena_core self s ps" using sys by (simp add: arena_sys_def arena_inv_def)
  have "card (objects s ps) = card (allocated s ps)"
    unfolding objects_def
    by (rule card_image) (rule inj_on_subset [OF objects_inj [OF core] allocated_sub])
  also have "allocated s ps = Sigma (set ps) (slots s)" by (auto simp: allocated_def)
  also have "card \<dots> = (\<Sum>p \<in> set ps. card (slots s p))" by simp
  also have "\<dots> = (\<Sum>p \<in> set ps. maxc s)"
    using assms(2) card_slots_le [of s] by (intro sum.cong) (auto simp: has_slot_def le_less)
  finally show ?thesis using distinct_card [OF arena_core_distinct [OF core]] by (simp add: mult.commute)
qed

lemma arena_pool_alloc:
  assumes "pool_rep kend self s X (Suc n)"
  shows "\<exists>p s'. oalloc (arena_pool kend self me) s = Inr (p, s') \<and> p \<notin> X \<and> pool_rep kend self s' (insert p X) n"
proof -
  obtain ps F where a: "arena_sys kend self s ps F" "X = objects s ps"
      "Suc n + card X = maxc s * (length ps + length F)"
    using assms by (auto simp: pool_rep_def)
  have "has_slot s ps \<or> F \<noteq> []" using sys_full [OF a(1)] a(2,3) by auto
  from arena_alloc_sys [OF a(1) this, of me] obtain x s' ps' F' where
    r: "alloc_object (kalloc me) self me s = Inr (x, s')" "arena_sys kend self s' ps' F'" "x \<notin> X"
      "objects s' ps' = insert x X" "maxc s' = maxc s"
      "if has_slot s ps then set ps' = set ps \<and> F' = F else set ps' = insert (hd F) (set ps) \<and> F' = tl F"
    using a(2) by blast
  have "set ps \<union> set F = set ps' \<union> set F'"
    using r(6) \<open>has_slot s ps \<or> F \<noteq> []\<close> by (cases F) (auto split: if_splits)
  then have len: "length ps + length F = length ps' + length F'" by (rule sys_lengths [OF a(1) r(2)])
  have "n + card (insert x X) = maxc s' * (length ps' + length F')"
    using a(2,3) len r(3,5) sys_finite [OF a(1)] by simp
  then show ?thesis using r by (auto simp: arena_pool_def pool_rep_def)
qed

lemma arena_pool_free:
  assumes "pool_rep kend self s X n" "x \<in> X"
  shows "\<exists>s'. ofree (arena_pool kend self me) x s = Inr s' \<and> pool_rep kend self s' (X - {x}) (Suc n)"
proof -
  obtain ps F where a: "arena_sys kend self s ps F" "X = objects s ps"
      "n + card X = maxc s * (length ps + length F)"
    using assms(1) by (auto simp: pool_rep_def)
  obtain s' ps' where r: "free_object self me x s = Inr s'" "arena_sys kend self s' ps' F" "set ps' = set ps"
      "objects s' ps' = X - {x}" "maxc s' = maxc s"
    using arena_free_sys [OF a(1), of x me] assms(2) a(2) by blast
  have len: "length ps + length F = length ps' + length F" by (rule sys_lengths [OF a(1) r(2)]) (simp add: r(3))
  have "card X = Suc (card (X - {x}))"
    using card_Suc_Diff1 [of X x] assms(2) sys_finite [OF a(1)] a(2) by simp
  then have "Suc n + card (X - {x}) = maxc s' * (length ps' + length F)"
    using a(3) len r(5) by simp
  then show ?thesis using r by (auto simp: arena_pool_def pool_rep_def)
qed

interpretation ap: object_pool "arena_pool kend self me" "pool_rep kend self" for kend self me
  by unfold_locales (fact arena_pool_alloc, fact arena_pool_free)

end
