(* ===== verification/CacheInv.thy ===== *)
theory CacheInv
  imports Cache
begin

text \<open>
  The invariant of the block cache and what its operations do to the contents of blocks.
  \<open>content s n\<close> is what a reader of block \<open>n\<close> gets: the cached copy if there is one, the
  disk otherwise. Acquiring a block shows its content and changes nobody's; the lemmas are
  proved over the contract \<open>object_pool\<close> of the arena.
\<close>

section \<open>Contents\<close>

definition sector :: "usize \<Rightarrow> u32" where
  "sector n = ucast (n + 0x20800)"

definition cached :: "'a bcache \<Rightarrow> usize \<Rightarrow> u64 option" where
  "cached s n = find_block (blk s) n (lru s)"

definition content :: "'a bcache \<Rightarrow> usize \<Rightarrow> u8 list" where
  "content s n = (case cached s n of Some p \<Rightarrow> data (blk s p) | None \<Rightarrow> disk s (sector n))"

definition pinned_no :: "'a bcache \<Rightarrow> usize \<Rightarrow> bool" where
  "pinned_no s n \<longleftrightarrow> (case cached s n of Some p \<Rightarrow> pinned (blk s p) | None \<Rightarrow> False)"

text \<open>
  The invariant, for a thread that holds the blocks in \<open>H\<close>: nodes are distinct and so are the block
  numbers, which fit the 32 bits of a sector number, exactly the blocks in \<open>H\<close> are locked, a block that is neither pinned nor held agrees
  with the disk, the cache lock is free, and the pool has handed out exactly the nodes.
\<close>

definition cache_body :: "('a \<Rightarrow> u64 set \<Rightarrow> nat \<Rightarrow> bool) \<Rightarrow> u64 set \<Rightarrow> nat \<Rightarrow> 'a bcache \<Rightarrow> bool" where
  "cache_body orep H m s \<longleftrightarrow> distinct (lru s) \<and> distinct (map (\<lambda>p. block_no (blk s p)) (lru s)) \<and>
     (\<forall>p \<in> set (lru s). block_no (blk s p) < 2 ^ 32) \<and>
     H \<subseteq> set (lru s) \<and> (\<forall>p \<in> set (lru s). block_lock (blk s p) \<longleftrightarrow> p \<in> H) \<and>
     (\<forall>p \<in> set (lru s). \<not> pinned (blk s p) \<longrightarrow> p \<notin> H \<longrightarrow> data (blk s p) = disk s (sector (block_no (blk s p)))) \<and>
     orep (pool s) (set (lru s)) m"

definition cache_ok :: "('a \<Rightarrow> u64 set \<Rightarrow> nat \<Rightarrow> bool) \<Rightarrow> u64 set \<Rightarrow> nat \<Rightarrow> 'a bcache \<Rightarrow> bool" where
  "cache_ok orep H m s \<longleftrightarrow> cache_body orep H m s \<and> \<not> cache_locked s"

text \<open>Parts of the state the cache operations leave alone.\<close>

definition same_rest :: "'a bcache \<Rightarrow> 'a bcache \<Rightarrow> bool" where
  "same_rest s t \<longleftrightarrow> disk t = disk s \<and> history t = history s \<and> header t = header s \<and> log t = log s \<and>
     log_locked t = log_locked s"

lemma same_rest_refl [simp]: "same_rest s s"
  by (simp add: same_rest_def)

lemma same_rest_trans: "same_rest s t \<Longrightarrow> same_rest t u \<Longrightarrow> same_rest s u"
  by (simp add: same_rest_def)

lemma find_block_Some: "find_block h n ps = Some p \<Longrightarrow> p \<in> set ps \<and> block_no (h p) = n"
  by (induction ps) (auto split: if_splits)

lemma find_block_None: "find_block h n ps = None \<longleftrightarrow> (\<forall>p \<in> set ps. block_no (h p) \<noteq> n)"
  by (induction ps) auto

lemma find_block_eq:
  assumes "distinct (map (\<lambda>p. block_no (h p)) ps)" "p \<in> set ps" "block_no (h p) = n"
  shows "find_block h n ps = Some p"
  using assms by (induction ps) auto

lemma cached_iff:
  assumes "distinct (map (\<lambda>p. block_no (blk s p)) (lru s))"
  shows "cached s n = Some p \<longleftrightarrow> p \<in> set (lru s) \<and> block_no (blk s p) = n"
  using assms find_block_Some find_block_eq unfolding cached_def by metis

lemma cached_None: "cached s n = None \<longleftrightarrow> (\<forall>p \<in> set (lru s). block_no (blk s p) \<noteq> n)"
  by (simp add: cached_def find_block_None)

text \<open>
  Two states with the same nodes up to order and the same numbers, data and disk show the same contents.
\<close>

lemma cached_cong:
  assumes "distinct (map (\<lambda>p. block_no (blk s p)) (lru s))" "distinct (lru s)" "distinct (lru t)"
    and "set (lru t) = set (lru s)" "\<And>p. p \<in> set (lru s) \<Longrightarrow> block_no (blk t p) = block_no (blk s p)"
  shows "cached t n = cached s n" "distinct (map (\<lambda>p. block_no (blk t p)) (lru t))"
proof -
  have "inj_on (\<lambda>p. block_no (blk s p)) (set (lru s))" using assms(1) by (simp add: distinct_map)
  then have "inj_on (\<lambda>p. block_no (blk t p)) (set (lru t))"
    using assms(4,5) by (simp add: inj_on_def)
  then show d: "distinct (map (\<lambda>p. block_no (blk t p)) (lru t))"
    using assms(3) by (simp add: distinct_map)
  show "cached t n = cached s n"
  proof (cases "cached s n")
    case None
    then have "cached t n = None" using assms(4,5) by (simp add: cached_None)
    then show ?thesis using None by simp
  next
    case (Some p)
    then have "p \<in> set (lru s)" "block_no (blk s p) = n" by (simp_all add: cached_iff [OF assms(1)])
    then have "cached t n = Some p" using assms(4,5) by (simp add: cached_iff [OF d])
    then show ?thesis using Some by simp
  qed
qed

lemma cache_locked_frame [simp]:
  "cached (s\<lparr>cache_locked := b\<rparr>) n = cached s n" "content (s\<lparr>cache_locked := b\<rparr>) n = content s n"
  "pinned_no (s\<lparr>cache_locked := b\<rparr>) n = pinned_no s n"
  "cache_body orep H m (s\<lparr>cache_locked := b\<rparr>) = cache_body orep H m s"
  "same_rest (s\<lparr>cache_locked := b\<rparr>) t = same_rest s t" "same_rest s (t\<lparr>cache_locked := b\<rparr>) = same_rest s t"
  by (simp_all add: cached_def content_def pinned_no_def cache_body_def same_rest_def split: option.split)

section \<open>Eviction\<close>

text \<open>Dropping blocks that agree with the disk changes no content.\<close>

lemma drop_clean:
  assumes body: "cache_body orep H m s" and E: "\<And>q. q \<in> E \<Longrightarrow> \<not> pinned (blk s q) \<and> q \<notin> H"
    and t: "lru t = filter (\<lambda>p. p \<notin> E) (lru s)" "blk t = blk s" "disk t = disk s" "orep (pool t) (set (lru t)) m'"
  shows "cache_body orep H m' t" "content t n = content s n" "pinned_no t n = pinned_no s n"
    "cached s n = None \<Longrightarrow> cached t n = None"
proof -
  have ds: "distinct (map (\<lambda>p. block_no (blk s p)) (lru s))" using body by (simp add: cache_body_def)
  have dt: "distinct (map (\<lambda>p. block_no (blk t p)) (lru t))"
    using ds t(1,2) by (simp add: distinct_map_filter)
  show "cache_body orep H m' t" using body E t dt by (auto simp: cache_body_def)
  show "cached s n = None \<Longrightarrow> cached t n = None" using t(1,2) by (simp add: cached_None)
  have "content t n = content s n \<and> pinned_no t n = pinned_no s n"
  proof (cases "cached s n")
    case None
    then have "cached t n = None" using t(1,2) by (simp add: cached_None)
    then show ?thesis using None t by (simp add: content_def pinned_no_def)
  next
    case (Some p)
    then have p: "p \<in> set (lru s)" "block_no (blk s p) = n" by (simp_all add: cached_iff [OF ds])
    show ?thesis
    proof (cases "p \<in> E")
      case True
      have "block_no (blk t q) \<noteq> n" if "q \<in> set (lru t)" for q
      proof
        assume "block_no (blk t q) = n"
        then have "cached s n = Some q" using that t(1,2) by (simp add: cached_iff [OF ds])
        then show False using Some True that t(1) by simp
      qed
      then have "cached t n = None" by (simp add: cached_None)
      moreover have "data (blk s p) = disk s (sector n)" "\<not> pinned (blk s p)"
        using body E [OF True] p by (auto simp: cache_body_def)
      ultimately show ?thesis using Some t by (simp add: content_def pinned_no_def)
    next
      case False
      then have "cached t n = Some p" using p t(1,2) by (simp add: cached_iff [OF dt])
      then show ?thesis using Some t by (simp add: content_def pinned_no_def)
    qed
  qed
  then show "content t n = content s n" "pinned_no t n = pinned_no s n" by simp_all
qed

lemma evict_keep:
  assumes "sz \<ge> EVICTION_THRESHOLD" "\<not> (pinned (blk s q) = False \<and> acquired (blk s q) = False)"
  shows "runs (evict A sz (q # qs)) s Q = runs (evict A sz qs) s Q"
  using assms by (auto simp: wp)

lemma evict_drop:
  assumes "sz \<ge> EVICTION_THRESHOLD" "pinned (blk s q) = False \<and> acquired (blk s q) = False" "ofree A q (pool s) = Inr k"
  shows "runs (evict A sz (q # qs)) s Q = runs (evict A (sz - 1) qs) (s\<lparr>lru := remove1 q (lru s), pool := k\<rparr>) Q"
  using assms by (simp add: runs_def cm_simps)

context object_pool
begin

lemma evict_runs:
  assumes "distinct qs" "set qs \<subseteq> set (lru s)" "distinct (lru s)" "orep (pool s) (set (lru s)) m"
  shows "runs (evict A sz qs) s (\<lambda>_ t. \<exists>E m'. E \<subseteq> set qs \<and>
    (\<forall>q \<in> E. \<not> pinned (blk s q) \<and> \<not> acquired (blk s q)) \<and> lru t = filter (\<lambda>p. p \<notin> E) (lru s) \<and>
    m \<le> m' \<and> orep (pool t) (set (lru t)) m' \<and> blk t = blk s \<and> same_rest s t \<and> cache_locked t = cache_locked s)"
  using assms
proof (induction qs arbitrary: sz s m)
  case Nil
  then show ?case by (auto simp: wp intro!: exI [of _ "{}"] exI [of _ m])
next
  case (Cons q qs)
  show ?case
  proof (cases "sz \<ge> EVICTION_THRESHOLD")
    case False
    then show ?thesis using Cons.prems by (auto simp: wp intro!: exI [of _ "{}"] exI [of _ m])
  next
    case sz: True
    show ?thesis
    proof (cases "pinned (blk s q) = False \<and> acquired (blk s q) = False")
      case False
      have "runs (evict A sz qs) s (\<lambda>_ t. \<exists>E m'. E \<subseteq> set qs \<and>
        (\<forall>q \<in> E. \<not> pinned (blk s q) \<and> \<not> acquired (blk s q)) \<and> lru t = filter (\<lambda>p. p \<notin> E) (lru s) \<and>
        m \<le> m' \<and> orep (pool t) (set (lru t)) m' \<and> blk t = blk s \<and> same_rest s t \<and> cache_locked t = cache_locked s)"
        using Cons.prems by (intro Cons.IH) auto
      then have "runs (evict A sz qs) s (\<lambda>_ t. \<exists>E m'. E \<subseteq> set (q # qs) \<and>
        (\<forall>q \<in> E. \<not> pinned (blk s q) \<and> \<not> acquired (blk s q)) \<and> lru t = filter (\<lambda>p. p \<notin> E) (lru s) \<and>
        m \<le> m' \<and> orep (pool t) (set (lru t)) m' \<and> blk t = blk s \<and> same_rest s t \<and> cache_locked t = cache_locked s)"
        by (rule runs_mono) fastforce
      then show ?thesis unfolding evict_keep [OF sz False] .
    next
      case True
      obtain k where k: "ofree A q (pool s) = Inr k" "orep k (set (lru s) - {q}) (Suc m)"
        using pool_free [OF Cons.prems(4), of q] Cons.prems(2) by auto
      let ?t = "s\<lparr>lru := remove1 q (lru s), pool := k\<rparr>"
      have lru: "lru ?t = filter (\<lambda>p. p \<noteq> q) (lru s)"
        using Cons.prems(3) by (simp add: distinct_remove1_removeAll removeAll_filter_not_eq) metis
      have set: "set (lru ?t) = set (lru s) - {q}" using Cons.prems(3) by simp
      have "set qs \<subseteq> set (lru ?t)" using Cons.prems(1,2) set by auto
      then have "runs (evict A (sz - 1) qs) ?t (\<lambda>_ t. \<exists>E m'. E \<subseteq> set qs \<and>
        (\<forall>q \<in> E. \<not> pinned (blk ?t q) \<and> \<not> acquired (blk ?t q)) \<and> lru t = filter (\<lambda>p. p \<notin> E) (lru ?t) \<and>
        Suc m \<le> m' \<and> orep (pool t) (set (lru t)) m' \<and> blk t = blk ?t \<and> same_rest ?t t \<and> cache_locked t = cache_locked ?t)"
        using Cons.prems k(2) set by (intro Cons.IH) auto
      then have "runs (evict A (sz - 1) qs) ?t (\<lambda>_ t. \<exists>E m'. E \<subseteq> set (q # qs) \<and>
        (\<forall>q \<in> E. \<not> pinned (blk s q) \<and> \<not> acquired (blk s q)) \<and> lru t = filter (\<lambda>p. p \<notin> E) (lru s) \<and>
        m \<le> m' \<and> orep (pool t) (set (lru t)) m' \<and> blk t = blk s \<and> same_rest s t \<and> cache_locked t = cache_locked s)"
      proof (rule runs_mono, elim exE conjE)
        fix t E m'
        assume E: "E \<subseteq> set qs" "\<forall>q \<in> E. \<not> pinned (blk ?t q) \<and> \<not> acquired (blk ?t q)"
          "lru t = filter (\<lambda>p. p \<notin> E) (lru ?t)" "Suc m \<le> m'" "orep (pool t) (set (lru t)) m'" "blk t = blk ?t"
          "same_rest ?t t" "cache_locked t = cache_locked ?t"
        have "lru t = filter (\<lambda>p. p \<notin> insert q E) (lru s)" unfolding E(3) lru by (auto intro: filter_cong)
        then show "\<exists>E m'. E \<subseteq> set (q # qs) \<and>
          (\<forall>q \<in> E. \<not> pinned (blk s q) \<and> \<not> acquired (blk s q)) \<and> lru t = filter (\<lambda>p. p \<notin> E) (lru s) \<and>
          m \<le> m' \<and> orep (pool t) (set (lru t)) m' \<and> blk t = blk s \<and> same_rest s t \<and> cache_locked t = cache_locked s"
          using E True by (intro exI [of _ "insert q E"] exI [of _ m']) (auto simp: same_rest_def)
      qed
      then show ?thesis unfolding evict_drop [OF sz True k(1)] .
    qed
  qed
qed

end

section \<open>Acquiring and releasing a block\<close>

lemma mod_once: "x < 2 * n \<Longrightarrow> x mod n = (if x < n then x else x - n)" for x n :: nat
  by (simp add: le_mod_geq)

lemma sector_inj:
  assumes "m < 2 ^ 32" "n < 2 ^ 32" "sector m = sector n"
  shows "m = n"
proof -
  have "unat (sector k) = (unat k + 0x20800) mod 2 ^ 32" if "k < 2 ^ 32" for k
    using that by (simp add: sector_def unsigned_ucast_eq take_bit_eq_mod unat_word_ariths word_less_nat_alt)
  then have "(unat m + 0x20800) mod 2 ^ 32 = (unat n + 0x20800) mod 2 ^ 32" using assms by metis
  moreover have "unat m < 2 ^ 32" "unat n < 2 ^ 32" using assms(1,2) by (simp_all add: word_less_nat_alt)
  ultimately have "unat m = unat n"
    using mod_once [of "unat m + 0x20800" "2 ^ 32"] mod_once [of "unat n + 0x20800" "2 ^ 32"]
    by (simp split: if_splits)
  then show ?thesis by (simp add: word_unat_eq_iff)
qed

definition acq_rel :: "u64 set \<Rightarrow> 'a bcache \<Rightarrow> usize \<Rightarrow> u64 \<Rightarrow> 'a bcache \<Rightarrow> bool" where
  "acq_rel H s n p t \<longleftrightarrow> p \<notin> H \<and> cached t n = Some p \<and>
     (\<forall>k. content t k = content s k \<and> pinned_no t k = pinned_no s k) \<and>
     (\<forall>q \<in> H. blk t q = blk s q) \<and> (cached s n = None \<longrightarrow> acquired (blk t p)) \<and>
     (\<forall>k. k \<noteq> n \<longrightarrow> cached s k = None \<longrightarrow> cached t k = None) \<and> same_rest s t"

lemma acquire_hit:
  assumes body: "cache_body orep H m s" and p: "cached s n = Some p" "p \<notin> H"
    and t: "lru t = p # remove1 p (lru s)" "blk t = (blk s)(p := (blk s p)\<lparr>block_lock := True\<rparr>)"
      "pool t = pool s" "same_rest s t"
  shows "cache_body orep (insert p H) m t" "acq_rel H s n p t"
proof -
  have d: "distinct (map (\<lambda>p. block_no (blk s p)) (lru s))" "distinct (lru s)"
    using body by (simp_all add: cache_body_def)
  have pin: "p \<in> set (lru s)" "block_no (blk s p) = n" using p(1) by (simp_all add: cached_iff [OF d(1)])
  have dt: "distinct (lru t)" "set (lru t) = set (lru s)" using d(2) pin(1) t by auto
  have no: "block_no (blk t q) = block_no (blk s q)" "data (blk t q) = data (blk s q)" "pinned (blk t q) = pinned (blk s q)"
    for q using t by simp_all
  have dk: "disk t = disk s" using t by (simp add: same_rest_def)
  note c = cached_cong [OF d dt, OF no(1)]
  show "cache_body orep (insert p H) m t"
    using body c(2) dt no pin t dk by (auto simp: cache_body_def)
  have "content t k = content s k" "pinned_no t k = pinned_no s k" for k
    using no dk by (simp_all add: content_def pinned_no_def c(1) split: option.split)
  then show "acq_rel H s n p t" using p c(1) t by (auto simp: acq_rel_def same_rest_def)
qed

lemma acquire_miss:
  assumes body: "cache_body orep H m s" and n: "cached s n = None" "n < 2 ^ 32"
    and p: "p \<notin> set (lru s)" "orep k (insert p (set (lru s))) m'"
    and b: "block_no b = n" "\<not> pinned b" "block_lock b" "acquired b" "data b = disk s (sector n)"
    and t: "lru t = p # lru s" "blk t = (blk s)(p := b)" "pool t = k" "same_rest s t"
  shows "cache_body orep (insert p H) m' t" "acq_rel H s n p t"
proof -
  have d: "distinct (map (\<lambda>p. block_no (blk s p)) (lru s))" using body by (simp add: cache_body_def)
  have HS: "H \<subseteq> set (lru s)" using body by (simp add: cache_body_def)
  have old: "blk t q = blk s q" if "q \<in> set (lru s)" for q using that p t by auto
  have f: "lru t = p # lru s" "blk t p = b" "disk t = disk s" "pool t = k" using t by (simp_all add: same_rest_def)
  have no: "n \<notin> (\<lambda>p. block_no (blk s p)) ` set (lru s)" using n(1) by (auto simp: cached_None)
  have "map (\<lambda>p. block_no (blk t p)) (lru t) = n # map (\<lambda>p. block_no (blk s p)) (lru s)"
    using b(1) old f by simp
  then have dt: "distinct (map (\<lambda>p. block_no (blk t p)) (lru t))" using d no by simp
  have ct: "cached t n = Some p" using b(1) f by (simp add: cached_iff [OF dt])
  have other: "cached t j = cached s j" if "j \<noteq> n" for j
  proof (cases "cached s j")
    case None
    then have "cached t j = None" using that b(1) f old by (auto simp: cached_None)
    then show ?thesis using None by simp
  next
    case (Some q)
    then have q: "q \<in> set (lru s)" "block_no (blk s q) = j" by (simp_all add: cached_iff [OF d])
    then have "cached t j = Some q" using old f by (simp add: cached_iff [OF dt])
    then show ?thesis using Some by simp
  qed
  have "content t j = content s j \<and> pinned_no t j = pinned_no s j" for j
  proof (cases "j = n")
    case True
    then show ?thesis using ct n(1) b f by (simp add: content_def pinned_no_def)
  next
    case False
    have "q \<in> set (lru s)" if "cached s j = Some q" for q using that by (simp add: cached_iff [OF d])
    then show ?thesis using other [OF False] old f by (auto simp: content_def pinned_no_def split: option.split)
  qed
  then show "acq_rel H s n p t" using ct other HS old p t b(4) by (auto simp: acq_rel_def same_rest_def)
  show "cache_body orep (insert p H) m' t"
    unfolding cache_body_def using body dt b n(2) p f old by (auto simp: cache_body_def)
qed

lemma runs_cache_steps [wp]:
  "runs lock_cache s Q \<longleftrightarrow> \<not> cache_locked s \<and> Q () (s\<lparr>cache_locked := True\<rparr>)"
  "runs unlock_cache s Q \<longleftrightarrow> cache_locked s \<and> Q () (s\<lparr>cache_locked := False\<rparr>)"
  "runs lock_log s Q \<longleftrightarrow> \<not> log_locked s \<and> Q () (s\<lparr>log_locked := True\<rparr>)"
  "runs unlock_log s Q \<longleftrightarrow> log_locked s \<and> Q () (s\<lparr>log_locked := False\<rparr>)"
  "runs (upd_blk p f) s Q \<longleftrightarrow> Q () (s\<lparr>blk := (blk s)(p := f (blk s p))\<rparr>)"
  "runs (acquire_block p) s Q \<longleftrightarrow>
     \<not> block_lock (blk s p) \<and> Q () (s\<lparr>blk := (blk s)(p := (blk s p)\<lparr>block_lock := True\<rparr>)\<rparr>)"
  "runs (device_read p) s Q \<longleftrightarrow>
     Q () (s\<lparr>blk := (blk s)(p := (blk s p)\<lparr>data := disk s (sector (block_no (blk s p)))\<rparr>)\<rparr>)"
  "runs (device_write p) s Q \<longleftrightarrow>
     Q () (s\<lparr>disk := (disk s)(sector (block_no (blk s p)) := data (blk s p)),
             history := (sector (block_no (blk s p)), data (blk s p)) # history s\<rparr>)"
  "runs (cache_release p) s Q \<longleftrightarrow>
     Q () (s\<lparr>blk := (blk s)(p := (blk s p)\<lparr>acquired := False, block_lock := False\<rparr>)\<rparr>)"
  by (auto simp: runs_def cm_simps lock_cache_def unlock_cache_def lock_log_def unlock_log_def upd_blk_def
      acquire_block_def device_read_def device_write_def sd_read_def sd_write_def cache_release_def
      release_block_def sector_def)

lemma runs_alloc_block:
  "oalloc A (pool s) = Inr (p, k) \<Longrightarrow> runs (alloc_block A) s Q \<longleftrightarrow> Q p (s\<lparr>pool := k\<rparr>)"
  by (simp add: runs_def alloc_block_def)

context object_pool
begin

lemma evict_spec:
  assumes "cache_body orep H m s" "length (lru s) < EVICTION_THRESHOLD \<or> (\<forall>p \<in> H. pinned (blk s p) \<or> acquired (blk s p))"
  shows "runs (if length (lru s) \<ge> EVICTION_THRESHOLD then bind (gets lru) (\<lambda>l. evict A (length (lru s)) (rev l)) else ret ()) s
    (\<lambda>_ t. \<exists>m'. m \<le> m' \<and> cache_body orep H m' t \<and> blk t = blk s \<and> same_rest s t \<and> cache_locked t = cache_locked s \<and>
      (\<forall>k. content t k = content s k \<and> pinned_no t k = pinned_no s k \<and> (cached s k = None \<longrightarrow> cached t k = None)))"
proof (cases "length (lru s) \<ge> EVICTION_THRESHOLD")
  case False
  then show ?thesis using assms by (auto simp: wp)
next
  case True
  have "distinct (rev (lru s))" "set (rev (lru s)) \<subseteq> set (lru s)" "distinct (lru s)" "orep (pool s) (set (lru s)) m"
    using assms(1) by (simp_all add: cache_body_def)
  from evict_runs [OF this]
  have "runs (evict A (length (lru s)) (rev (lru s))) s
    (\<lambda>_ t. \<exists>m'. m \<le> m' \<and> cache_body orep H m' t \<and> blk t = blk s \<and> same_rest s t \<and> cache_locked t = cache_locked s \<and>
      (\<forall>k. content t k = content s k \<and> pinned_no t k = pinned_no s k \<and> (cached s k = None \<longrightarrow> cached t k = None)))"
  proof (rule runs_mono, elim exE conjE)
    fix t E m'
    assume e: "\<forall>q \<in> E. \<not> pinned (blk s q) \<and> \<not> acquired (blk s q)" "lru t = filter (\<lambda>p. p \<notin> E) (lru s)" "m \<le> m'"
      "orep (pool t) (set (lru t)) m'" "blk t = blk s" "same_rest s t" "cache_locked t = cache_locked s"
    have E: "\<not> pinned (blk s q) \<and> q \<notin> H" if "q \<in> E" for q using e(1) assms(2) that True by auto
    have "disk t = disk s" using e(6) by (simp add: same_rest_def)
    note d = drop_clean [of orep H m s E t m', OF assms(1) E e(2,5) this e(4)]
    show "\<exists>m'. m \<le> m' \<and> cache_body orep H m' t \<and> blk t = blk s \<and> same_rest s t \<and> cache_locked t = cache_locked s \<and>
      (\<forall>k. content t k = content s k \<and> pinned_no t k = pinned_no s k \<and> (cached s k = None \<longrightarrow> cached t k = None))"
      using d e by (intro exI [of _ m']) simp
  qed
  then show ?thesis using True by (simp add: wp)
qed

lemma acquire_spec:
  assumes ok: "cache_ok orep H m s" "n < 2 ^ 32" and free: "\<And>p. cached s n = Some p \<Longrightarrow> p \<notin> H"
    and room: "cached s n = None \<Longrightarrow> 0 < m \<and> (length (lru s) < EVICTION_THRESHOLD \<or> (\<forall>p \<in> H. pinned (blk s p) \<or> acquired (blk s p)))"
  shows "runs (cache_acquire A n) s
    (\<lambda>p t. \<exists>m'. m \<le> Suc m' \<and> cache_ok orep (insert p H) m' t \<and> acq_rel H s n p t)"
proof (cases "cached s n")
  case (Some p)
  let ?t = "s\<lparr>lru := p # remove1 p (lru s), cache_locked := False, blk := (blk s)(p := (blk s p)\<lparr>block_lock := True\<rparr>)\<rparr>"
  have body: "cache_body orep H m s" "\<not> cache_locked s" using ok by (simp_all add: cache_ok_def)
  have "distinct (map (\<lambda>p. block_no (blk s p)) (lru s))" using body(1) by (simp add: cache_body_def)
  then have "p \<in> set (lru s)" using Some by (simp add: cached_iff)
  then have "\<not> block_lock (blk s p)" using body(1) free [OF Some] by (auto simp: cache_body_def)
  moreover have "cache_ok orep (insert p H) m ?t" "acq_rel H s n p ?t"
    using acquire_hit [OF body(1) Some free [OF Some], of ?t] body(2) by (simp_all add: cache_ok_def same_rest_def)
  ultimately show ?thesis
    using Some body(2) unfolding cache_acquire_def by (auto simp: wp cached_def [symmetric] intro!: exI [of _ m])
next
  case None
  let ?s = "s\<lparr>cache_locked := True\<rparr>"
  have body: "cache_body orep H m ?s" "\<not> cache_locked s" using ok by (simp_all add: cache_ok_def)
  have H: "length (lru ?s) < EVICTION_THRESHOLD \<or> (\<forall>p \<in> H. pinned (blk ?s p) \<or> acquired (blk ?s p))" using room [OF None] by simp
  define R where "R = bind (alloc_block A) (\<lambda>p. andthen (init_block p) (andthen (modify (\<lambda>s. s\<lparr>lru := p # lru s\<rparr>))
      (andthen (upd_blk p (\<lambda>b. b\<lparr>block_no := n\<rparr>)) (andthen unlock_cache (andthen (acquire_block p)
      (andthen (device_read p) (andthen (upd_blk p (\<lambda>b. b\<lparr>valid := True, acquired := True\<rparr>)) (ret p))))))))"
  have R: "runs R t
    (\<lambda>p u. \<exists>m'. m \<le> Suc m' \<and> cache_ok orep (insert p H) m' u \<and> acq_rel H s n p u)"
    if t: "m \<le> m1" "cache_body orep H m1 t" "blk t = blk ?s" "same_rest ?s t" "cache_locked t = cache_locked ?s"
      "\<forall>k. content t k = content ?s k \<and> pinned_no t k = pinned_no ?s k \<and> (cached ?s k = None \<longrightarrow> cached t k = None)" for t m1
  proof -
    obtain m' where m': "m1 = Suc m'" using t(1) room [OF None] by (cases m1) auto
    have "orep (pool t) (set (lru t)) (Suc m')" using t(2) m' by (simp add: cache_body_def)
    from pool_alloc [OF this] obtain p k where p: "oalloc A (pool t) = Inr (p, k)" "p \<notin> set (lru t)"
      "orep k (insert p (set (lru t))) m'" by blast
    let ?b = "\<lparr>block_no = n, acquired = True, pinned = False, block_lock = True, valid = True, data = disk t (sector n)\<rparr>"
    let ?u = "t\<lparr>pool := k, lru := p # lru t, cache_locked := False, blk := (blk t)(p := ?b)\<rparr>"
    have nt: "cached t n = None" using t(6) None by simp
    have miss: "cache_body orep (insert p H) m' ?u" "acq_rel H t n p ?u"
      using acquire_miss [OF t(2) nt ok(2) p(2,3), of ?b ?u] by (simp_all add: same_rest_def)
    have "acq_rel H s n p ?u"
      using miss(2) t None unfolding acq_rel_def by (auto simp: same_rest_def)
    then show ?thesis using miss(1) p(1) m' t
      unfolding R_def by (auto simp: wp runs_alloc_block [OF p(1)] init_block_def cache_ok_def)
  qed
  have "runs (andthen (if length (lru ?s) \<ge> EVICTION_THRESHOLD
      then bind (gets lru) (\<lambda>l. evict A (length (lru ?s)) (rev l)) else ret ()) R) ?s
    (\<lambda>p u. \<exists>m'. m \<le> Suc m' \<and> cache_ok orep (insert p H) m' u \<and> acq_rel H s n p u)"
    unfolding runs_andthen by (rule runs_mono [OF evict_spec [OF body(1) H]], elim exE conjE) (rule R; assumption)
  then show ?thesis
    using None body(2) unfolding cache_acquire_def R_def [symmetric]
    by (simp add: runs_andthen runs_bind runs_gets runs_cache_steps cached_def get_num_cached_blocks_def)
qed

end

section \<open>Copying a block through the cache\<close>

text \<open>
  Both loops of the log copy one block over another: acquire both, move the data, write the copy to the
  disk, perhaps unpin it, release both.
\<close>

lemma clean_content:
  assumes "cache_body orep H m s" "\<not> pinned_no s n" "\<And>p. cached s n = Some p \<Longrightarrow> p \<notin> H"
  shows "content s n = disk s (sector n)"
proof (cases "cached s n")
  case (Some p)
  have "distinct (map (\<lambda>p. block_no (blk s p)) (lru s))" using assms(1) by (simp add: cache_body_def)
  then have "p \<in> set (lru s)" "block_no (blk s p) = n" using Some by (simp_all add: cached_iff)
  then show ?thesis using assms Some by (auto simp: content_def pinned_no_def cache_body_def)
qed (simp add: content_def)

lemma copy_state:
  assumes t: "cache_body orep {p, q} m t" "p \<noteq> q" "cached t a = Some p" "cached t b = Some q" "b < 2 ^ 32"
    and clean: "\<not> pinned (blk t p) \<Longrightarrow> data (blk t p) = disk t (sector a)"
    and u: "lru u = lru t" "pool u = pool t" "disk u = (disk t)(sector b := data (blk t p))"
      "blk u = (blk t)(p := (blk t p)\<lparr>acquired := False, block_lock := False\<rparr>,
         q := (blk t q)\<lparr>data := data (blk t p), pinned := pinned (blk t q) \<and> \<not> r, acquired := False, block_lock := False\<rparr>)"
  shows "cache_body orep {} m u" "cached u k = cached t k"
    "k < 2 ^ 32 \<Longrightarrow> content u k = (if k = b then content t a else content t k)"
    "pinned_no u k = (if k = b then pinned_no t b \<and> \<not> r else pinned_no t k)"
proof -
  have d: "distinct (map (\<lambda>p. block_no (blk t p)) (lru t))" "distinct (lru t)" using t(1) by (simp_all add: cache_body_def)
  have pq: "p \<in> set (lru t)" "q \<in> set (lru t)" "block_no (blk t p) = a" "block_no (blk t q) = b"
    using t(3,4) by (simp_all add: cached_iff [OF d(1)])
  have ab: "a \<noteq> b" using t(2,3,4) by auto
  have no: "block_no (blk u x) = block_no (blk t x)" for x using u by simp
  have small: "block_no (blk t x) < 2 ^ 32" if "x \<in> set (lru t)" for x using t(1) that by (simp add: cache_body_def)
  have sec: "sector (block_no (blk t x)) \<noteq> sector b" if "x \<in> set (lru t)" "x \<noteq> q" for x
    using sector_inj [OF small [OF that(1)] t(5)] d(1) pq(2,4) that by (auto simp: distinct_map inj_on_def)
  note c = cached_cong [OF d, of u, unfolded u(1), OF d(2) refl no]
  show ck: "cached u k = cached t k" for k by (rule c(1))
  have data_u: "data (blk u x) = (if x = q then data (blk t p) else data (blk t x))"
    "pinned (blk u x) = (if x = q then pinned (blk t q) \<and> \<not> r else pinned (blk t x))"
    "\<not> block_lock (blk u x)" if "x \<in> set (lru t)" for x
    using u t(1) that by (auto simp: cache_body_def)
  have "data (blk u x) = disk u (sector (block_no (blk u x)))" if x: "x \<in> set (lru t)" "\<not> pinned (blk u x)" for x
  proof (cases "x = q")
    case False
    then have "data (blk t x) = disk t (sector (block_no (blk t x)))"
      using x data_u(2) [OF x(1)] clean pq(3) t(1) by (cases "x = p") (auto simp: cache_body_def)
    then show ?thesis using False data_u(1) [OF x(1)] sec [OF x(1) False] no u(3) by simp
  qed (use data_u(1) [OF x(1)] no pq(4) u(3) in simp)
  then show "cache_body orep {} m u"
    using t(1) c(2) data_u(3) no u(1,2) by (simp add: cache_body_def)
  have in_lru: "x \<in> set (lru t) \<and> block_no (blk t x) = k" if "cached t k = Some x" for x k
    using that by (simp add: cached_iff [OF d(1)])
  show "pinned_no u k = (if k = b then pinned_no t b \<and> \<not> r else pinned_no t k)"
    using in_lru [of k] data_u(2) pq t(3,4) by (auto simp: pinned_no_def ck split: option.split)
  show "content u k = (if k = b then content t a else content t k)" if k: "k < 2 ^ 32"
  proof (cases "cached t k")
    case None
    then have "k \<noteq> b" using t(4) by auto
    then have "sector k \<noteq> sector b" using sector_inj [OF k t(5)] by blast
    then show ?thesis using None \<open>k \<noteq> b\<close> u(3) by (simp add: content_def ck)
  next
    case (Some x)
    then show ?thesis using in_lru [OF Some] data_u(1) pq t(3,4) by (auto simp: content_def ck)
  qed
qed

definition copied :: "'a bcache \<Rightarrow> usize \<Rightarrow> usize \<Rightarrow> bool \<Rightarrow> 'a bcache \<Rightarrow> bool" where
  "copied s a b r u \<longleftrightarrow> (\<forall>k. k < 2 ^ 32 \<longrightarrow> content u k = (if k = b then content s a else content s k)) \<and>
     (\<forall>k. pinned_no u k = (if k = b then pinned_no s b \<and> \<not> r else pinned_no s k)) \<and>
     (\<forall>k. k \<noteq> a \<longrightarrow> k \<noteq> b \<longrightarrow> cached s k = None \<longrightarrow> cached u k = None) \<and>
     disk u = (disk s)(sector b := content s a) \<and> history u = (sector b, content s a) # history s \<and>
     header u = header s \<and> log u = log s \<and> log_locked u = log_locked s"

lemma acq_relD:
  assumes "acq_rel H s n p t"
  shows "p \<notin> H" "cached t n = Some p" "content t k = content s k" "pinned_no t k = pinned_no s k"
    "q \<in> H \<Longrightarrow> blk t q = blk s q" "cached s n = None \<Longrightarrow> acquired (blk t p)"
    "k \<noteq> n \<Longrightarrow> cached s k = None \<Longrightarrow> cached t k = None" "same_rest s t"
    "data (blk t p) = content s n" "pinned (blk t p) = pinned_no s n"
proof -
  show 1: "content t k = content s k" "pinned_no t k = pinned_no s k" "cached t n = Some p" for k
    using assms by (auto simp: acq_rel_def)
  show "data (blk t p) = content s n" "pinned (blk t p) = pinned_no s n"
    using 1(1,2) [of n] 1(3) by (simp_all add: content_def pinned_no_def)
qed (use assms in \<open>auto simp: acq_rel_def\<close>)

lemma copy_end:
  assumes s: "cache_ok orep {} m s" and t: "acq_rel {} s a p t" and v: "acq_rel {p} t b q v" "cache_ok orep {p, q} m' v"
    and ab: "a \<noteq> b" "b < 2 ^ 32"
    and u: "lru u = lru v" "pool u = pool v" "cache_locked u = cache_locked v" "log_locked u = log_locked v"
      "header u = header v" "log u = log v"
      "disk u = (disk v)(sector b := data (blk v p))" "history u = (sector b, data (blk v p)) # history v"
      "blk u = (blk v)(p := (blk v p)\<lparr>acquired := False, block_lock := False\<rparr>,
         q := (blk v q)\<lparr>data := data (blk v p), pinned := pinned (blk v q) \<and> \<not> r, acquired := False, block_lock := False\<rparr>)"
  shows "cache_ok orep {} m' u" "copied s a b r u"
proof -
  note T = acq_relD [OF t] and V = acq_relD [OF v(1)]
  have vp: "blk v p = blk t p" using V(5) by simp
  have p: "data (blk v p) = content s a" "pinned (blk v p) = pinned_no s a" using T(9,10) vp by simp_all
  have body: "cache_body orep {p, q} m' v" using v(2) by (simp add: cache_ok_def)
  have pq: "p \<noteq> q" using V(1) by auto
  have d: "distinct (map (\<lambda>p. block_no (blk v p)) (lru v))" using body by (simp add: cache_body_def)
  have ta: "p \<in> set (lru v)" using body by (simp add: cache_body_def)
  have "cached t a = Some p" by (rule T(2))
  then have "block_no (blk t p) = a" using find_block_Some unfolding cached_def by fastforce
  then have va: "cached v a = Some p" using ta vp by (simp add: cached_iff [OF d])
  have dk: "disk v = disk s" "history v = history s" "header v = header s" "log v = log s" "log_locked v = log_locked s"
    using T(8) V(8) by (simp_all add: same_rest_def)
  have clean: "data (blk v p) = disk v (sector a)" if "\<not> pinned (blk v p)"
    using that p dk(1) clean_content [of orep "{}" m s a] s by (simp add: cache_ok_def)
  have vb: "cached v b = Some q" by (rule V(2))
  note c = copy_state [where u = u and r = r, OF body pq va vb ab(2) clean u(1,2,7,9)]
  show "cache_ok orep {} m' u" using c(1) u(3) v(2) by (simp add: cache_ok_def)
  have cu: "cached u k = None" if "k \<noteq> a" "k \<noteq> b" "cached s k = None" for k
    using c(2) T(7) [OF that(1,3)] V(7) [OF that(2)] by simp
  show "copied s a b r u"
    unfolding copied_def using c(3,4) cu T(3,4) V(3,4) u(4-8) dk p(1) by simp
qed

context object_pool
begin

lemma copy_rule:
  assumes ok: "cache_ok orep {} m s" "2 \<le> m" "a < 2 ^ 32" "b < 2 ^ 32" "a \<noteq> b"
    and safe: "cached s a = None \<or> pinned_no s a \<or> pinned_no s b"
    and K: "\<And>u m'. m \<le> m' + 2 \<Longrightarrow> copied s a b r u \<Longrightarrow> cache_ok orep {} m' u \<Longrightarrow> runs K u Q"
  shows "runs (bind (cache_acquire A a) (\<lambda>p. bind (cache_acquire A b) (\<lambda>q.
      andthen (bind (gets (\<lambda>s. data (blk s p))) (\<lambda>d. upd_blk q (\<lambda>b. b\<lparr>data := d\<rparr>)))
      (andthen (device_write q)
      (andthen (if r then upd_blk q (\<lambda>b. b\<lparr>pinned := False\<rparr>) else ret ())
      (andthen (cache_release p) (andthen (cache_release q) K))))))) s Q"
proof -
  have K2: "runs (andthen (bind (gets (\<lambda>s. data (blk s p))) (\<lambda>d. upd_blk q (\<lambda>b. b\<lparr>data := d\<rparr>)))
      (andthen (device_write q) (andthen (if r then upd_blk q (\<lambda>b. b\<lparr>pinned := False\<rparr>) else ret ())
      (andthen (cache_release p) (andthen (cache_release q) K))))) v Q"
    if t: "acq_rel {} s a p t" and m: "m \<le> m' + 2" "cache_ok orep {p, q} m' v" and v: "acq_rel {p} t b q v" for p q t v m'
  proof -
    have "p \<noteq> q" using acq_relD(1) [OF v] by auto
    have "cached v b = Some q" by (rule acq_relD(2) [OF v])
    then have qb: "block_no (blk v q) = b" using find_block_Some unfolding cached_def by fastforce
    note e = copy_end [where r = r, OF ok(1) t v m(2) ok(5,4)]
    let ?u = "v\<lparr>disk := (disk v)(sector b := data (blk v p)), history := (sector b, data (blk v p)) # history v,
      blk := (blk v)(p := (blk v p)\<lparr>acquired := False, block_lock := False\<rparr>,
        q := (blk v q)\<lparr>data := data (blk v p), pinned := pinned (blk v q) \<and> \<not> r, acquired := False, block_lock := False\<rparr>)\<rparr>"
    have "runs K ?u Q" by (rule K [OF m(1)]) (rule e; simp)+
    then show ?thesis using \<open>p \<noteq> q\<close> by (cases r) (simp_all add: wp qb fun_upd_twist)
  qed
  have "runs (cache_acquire A b) t (\<lambda>q v. runs (andthen (bind (gets (\<lambda>s. data (blk s p))) (\<lambda>d. upd_blk q (\<lambda>b. b\<lparr>data := d\<rparr>)))
      (andthen (device_write q) (andthen (if r then upd_blk q (\<lambda>b. b\<lparr>pinned := False\<rparr>) else ret ())
      (andthen (cache_release p) (andthen (cache_release q) K))))) v Q)"
    if t: "m \<le> Suc m1" "cache_ok orep {p} m1 t" "acq_rel {} s a p t" for p t m1
  proof (rule runs_mono [OF acquire_spec [OF t(2) ok(4)]])
    note T = acq_relD [OF t(3)]
    have "distinct (map (\<lambda>p. block_no (blk t p)) (lru t))" using t(2) by (simp add: cache_ok_def cache_body_def)
    then show "x \<notin> {p}" if "cached t b = Some x" for x using T(2) that ok(5) by (auto simp: cached_iff)
    show "0 < m1 \<and> (length (lru t) < EVICTION_THRESHOLD \<or> (\<forall>p \<in> {p}. pinned (blk t p) \<or> acquired (blk t p)))" if "cached t b = None"
      using ok(2) t(1) safe T(4) [of b] T(6,10) that by (auto simp: pinned_no_def)
  next
    fix q v
    assume "\<exists>m'. m1 \<le> Suc m' \<and> cache_ok orep (insert q {p}) m' v \<and> acq_rel {p} t b q v"
    then obtain m' where v: "m1 \<le> Suc m'" "cache_ok orep {p, q} m' v" "acq_rel {p} t b q v"
      by (auto simp: insert_commute)
    show "runs (andthen (bind (gets (\<lambda>s. data (blk s p))) (\<lambda>d. upd_blk q (\<lambda>b. b\<lparr>data := d\<rparr>)))
      (andthen (device_write q) (andthen (if r then upd_blk q (\<lambda>b. b\<lparr>pinned := False\<rparr>) else ret ())
      (andthen (cache_release p) (andthen (cache_release q) K))))) v Q"
      by (rule K2 [OF t(3) _ v(2,3)]) (use v(1) t(1) in simp)
  qed
  moreover have "runs (cache_acquire A a) s (\<lambda>p t. \<exists>m'. m \<le> Suc m' \<and> cache_ok orep (insert p {}) m' t \<and> acq_rel {} s a p t)"
    by (rule acquire_spec [OF ok(1,3)]) (use ok(2) in auto)
  ultimately show ?thesis unfolding runs_bind by (elim runs_mono) blast
qed

end

end
