(* ===== verification/CacheLog.thy ===== *)
theory CacheLog
  imports CacheInv
begin

text \<open>
  The write-ahead log of the block cache: what the two copying loops do, which writes a
  commit sends to the disk and in which order, what recovery makes of a disk, and that a crash at any
  moment of a commit leaves, after recovery, either all of the old or all of the new contents.
\<close>

section \<open>The copying loops\<close>

definition replay :: "(u32 \<times> u8 list) list \<Rightarrow> (u32 \<Rightarrow> u8 list) \<Rightarrow> u32 \<Rightarrow> u8 list" where
  "replay ws d = fold (\<lambda>(a, v) d. d(a := v)) ws d"

lemma replay_simps [simp]:
  "replay [] d = d" "replay (w # ws) d = replay ws (d(fst w := snd w))" "replay (us @ ws) d = replay ws (replay us d)"
  by (simp_all add: replay_def split_beta)

lemma replay_other: "a \<notin> fst ` set ws \<Longrightarrow> replay ws d a = d a"
  by (induction ws arbitrary: d) auto

lemma replay_hit: "(a, v) \<in> set ws \<Longrightarrow> distinct (map fst ws) \<Longrightarrow> replay ws d a = v"
proof (induction ws arbitrary: d)
  case (Cons w ws)
  show ?case
  proof (cases "w = (a, v)")
    case True
    then have "a \<notin> fst ` set ws" using Cons.prems(2) by auto
    then show ?thesis using True by (simp add: replay_other)
  qed (use Cons in auto)
qed simp

definition writes_of :: "'a bcache \<Rightarrow> (usize \<times> usize) list \<Rightarrow> (u32 \<times> u8 list) list" where
  "writes_of s cs = map (\<lambda>(a, b). (sector b, content s a)) cs"

text \<open>What a sequence of copies does when no source is also a destination.\<close>

definition copied_all :: "'a bcache \<Rightarrow> (usize \<times> usize) list \<Rightarrow> bool \<Rightarrow> 'a bcache \<Rightarrow> bool" where
  "copied_all s cs r u \<longleftrightarrow>
     (\<forall>k. k < 2 ^ 32 \<longrightarrow> k \<notin> snd ` set cs \<longrightarrow> content u k = content s k) \<and>
     (\<forall>(a, b) \<in> set cs. content u b = content s a) \<and>
     (\<forall>k. pinned_no u k \<longleftrightarrow> pinned_no s k \<and> \<not> (r \<and> k \<in> snd ` set cs)) \<and>
     (\<forall>k. k \<notin> fst ` set cs \<longrightarrow> k \<notin> snd ` set cs \<longrightarrow> cached s k = None \<longrightarrow> cached u k = None) \<and>
     disk u = replay (writes_of s cs) (disk s) \<and> history u = rev (writes_of s cs) @ history s \<and>
     header u = header s \<and> log u = log s \<and> log_locked u = log_locked s"

lemma copied_all_Nil: "copied_all s [] r s"
  by (simp add: copied_all_def writes_of_def)

lemma copied_all_Cons:
  assumes t: "copied s a b r t" and u: "copied_all t cs r u"
    and ab: "b < 2 ^ 32" "b \<notin> fst ` set cs" "b \<notin> snd ` set cs"
    and small: "\<And>c. c \<in> fst ` set cs \<Longrightarrow> c < 2 ^ 32"
  shows "copied_all s ((a, b) # cs) r u"
proof -
  have same: "content t c = content s c" if "c \<in> fst ` set cs" for c
    using t that ab small by (auto simp: copied_def)
  then have ws: "writes_of t cs = writes_of s cs" by (force simp: writes_of_def)
  have ub: "content u b = content s a" using t u ab by (simp add: copied_def copied_all_def)
  have uc: "content u d = content s c" if "(c, d) \<in> set cs" for c d
    using u that same by (force simp: copied_all_def)
  have pin: "pinned_no u k \<longleftrightarrow> pinned_no s k \<and> \<not> (r \<and> k \<in> snd ` set ((a, b) # cs))" for k
    using t u by (auto simp: copied_def copied_all_def)
  have none: "cached u k = None" if "k \<notin> fst ` set ((a, b) # cs)" "k \<notin> snd ` set ((a, b) # cs)" "cached s k = None" for k
    using t u that by (simp add: copied_def copied_all_def)
  have other: "content u k = content s k" if "k < 2 ^ 32" "k \<notin> snd ` set ((a, b) # cs)" for k
    using t u that by (simp add: copied_def copied_all_def)
  have "writes_of s ((a, b) # cs) = (sector b, content s a) # writes_of s cs" by (simp add: writes_of_def)
  then show ?thesis
    unfolding copied_all_def using t u ws ub uc pin none other by (auto simp: copied_def copied_all_def)
qed

lemma andthen_ret: "andthen (ret ()) m = m"
  by (simp add: andthen_def bind_def ret_def)

context object_pool
begin

text \<open>
  One induction for both loops: \<open>f\<close> and \<open>g\<close> name the source and the destination of a log entry.
\<close>

lemma copy_loop:
  assumes L: "\<And>tail. L tail = bind (gets header) (\<lambda>h.
      if tail < unat (hnum h) then
        if tail < LOG_MAX_SIZE then
          bind (cache_acquire A (f h tail)) (\<lambda>p. bind (cache_acquire A (g h tail)) (\<lambda>q.
            andthen (bind (gets (\<lambda>s. data (blk s p))) (\<lambda>d. upd_blk q (\<lambda>b. b\<lparr>data := d\<rparr>)))
            (andthen (device_write q)
            (andthen (if r then upd_blk q (\<lambda>b. b\<lparr>pinned := False\<rparr>) else ret ())
            (andthen (cache_release p) (andthen (cache_release q) (L (Suc tail))))))))
        else fail BadAccess
      else ret ())"
    and h: "unat (hnum h) \<le> LOG_MAX_SIZE"
      "\<And>i. i < unat (hnum h) \<Longrightarrow> f h i < 2 ^ 32 \<and> g h i < 2 ^ 32"
      "\<And>i j. i < unat (hnum h) \<Longrightarrow> j < unat (hnum h) \<Longrightarrow> f h i \<noteq> g h j"
      "\<And>i j. i < j \<Longrightarrow> j < unat (hnum h) \<Longrightarrow> f h i \<noteq> f h j \<and> g h i \<noteq> g h j"
    and s: "header s = h" "cache_ok orep {} m s" "2 * (unat (hnum h) - tail) \<le> m"
      "(\<forall>i. tail \<le> i \<longrightarrow> i < unat (hnum h) \<longrightarrow> cached s (f h i) = None) \<or>
       (\<not> r \<and> (\<forall>i < unat (hnum h). pinned_no s (f h i))) \<or> (\<not> r \<and> (\<forall>i < unat (hnum h). pinned_no s (g h i)))"
  shows "runs (L tail) s (\<lambda>_ u. \<exists>m'. m \<le> m' + 2 * (unat (hnum h) - tail) \<and> cache_ok orep {} m' u \<and>
    copied_all s (map (\<lambda>i. (f h i, g h i)) [tail..<unat (hnum h)]) r u)"
  using s
proof (induction "unat (hnum h) - tail" arbitrary: tail s m)
  case 0
  then show ?case using copied_all_Nil by (subst L) (auto simp: wp)
next
  case (Suc x)
  let ?n = "unat (hnum h)"
  have tail: "tail < ?n" using Suc.hyps(2) by simp
  have "runs (L (Suc tail)) u (\<lambda>_ u. \<exists>m'. m \<le> m' + 2 * (?n - tail) \<and> cache_ok orep {} m' u \<and>
      copied_all s (map (\<lambda>i. (f h i, g h i)) [tail..<?n]) r u)"
    if u: "m \<le> m1 + 2" "copied s (f h tail) (g h tail) r u" "cache_ok orep {} m1 u" for u m1
  proof (rule runs_mono [OF Suc.hyps(1) [of "Suc tail" u m1]])
    show "x = ?n - Suc tail" "2 * (?n - Suc tail) \<le> m1" using Suc.hyps(2) Suc.prems(3) u(1) by simp_all
    show "header u = h" "cache_ok orep {} m1 u" using u Suc.prems(1) by (simp_all add: copied_def)
    have pin: "pinned_no u k = pinned_no s k" if "\<not> r" for k using u(2) that by (simp add: copied_def)
    show "(\<forall>i. Suc tail \<le> i \<longrightarrow> i < ?n \<longrightarrow> cached u (f h i) = None) \<or>
       (\<not> r \<and> (\<forall>i < ?n. pinned_no u (f h i))) \<or> (\<not> r \<and> (\<forall>i < ?n. pinned_no u (g h i)))"
      using Suc.prems(4)
    proof (elim disjE)
      assume none: "\<forall>i. tail \<le> i \<longrightarrow> i < ?n \<longrightarrow> cached s (f h i) = None"
      have "cached u (f h i) = None" if "Suc tail \<le> i" "i < ?n" for i
        using u(2) none h(3) [OF that(2) tail] h(4) [of tail i] that by (auto simp: copied_def)
      then show ?thesis by blast
    qed (use pin in simp_all)
  next
    fix a v
    assume "\<exists>m'. m1 \<le> m' + 2 * (?n - Suc tail) \<and> cache_ok orep {} m' v \<and>
      copied_all u (map (\<lambda>i. (f h i, g h i)) [Suc tail..<?n]) r v"
    then obtain m' where v: "m1 \<le> m' + 2 * (?n - Suc tail)" "cache_ok orep {} m' v"
      "copied_all u (map (\<lambda>i. (f h i, g h i)) [Suc tail..<?n]) r v" by blast
    have "copied_all s ((f h tail, g h tail) # map (\<lambda>i. (f h i, g h i)) [Suc tail..<?n]) r v"
    proof (rule copied_all_Cons [OF u(2) v(3)])
      have "g h tail \<noteq> f h i \<and> g h tail \<noteq> g h i" if "Suc tail \<le> i" "i < ?n" for i
        using h(3) [OF that(2) tail] h(4) [of tail i] that by auto
      then show "g h tail \<notin> fst ` set (map (\<lambda>i. (f h i, g h i)) [Suc tail..<?n])"
        "g h tail \<notin> snd ` set (map (\<lambda>i. (f h i, g h i)) [Suc tail..<?n])" by force+
    qed (use h(2) tail in auto)
    moreover have "[tail..<?n] = tail # [Suc tail..<?n]" using tail by (simp add: upt_rec)
    ultimately show "\<exists>m'. m \<le> m' + 2 * (?n - tail) \<and> cache_ok orep {} m' v \<and>
      copied_all s (map (\<lambda>i. (f h i, g h i)) [tail..<?n]) r v"
      using v(1,2) u(1) tail by (intro exI [of _ m']) simp
  qed
  note K = this
  have safe: "cached s (f h tail) = None \<or> pinned_no s (f h tail) \<or> pinned_no s (g h tail)"
    using Suc.prems(4) tail by blast
  have "2 \<le> m" using Suc.prems(3) tail by simp
  moreover have "f h tail < 2 ^ 32" "g h tail < 2 ^ 32" "f h tail \<noteq> g h tail"
    using h(2) [OF tail] h(3) [OF tail tail] by simp_all
  ultimately show ?case using h(1) tail Suc.prems(1)
    by (subst L) (simp add: runs_bind [of "gets header"] runs_gets, rule copy_rule [OF Suc.prems(2) _ _ _ _ safe K]; simp)
qed

end

section \<open>The log header on the disk\<close>

lemma of_bytes64_map: "of_bytes64 (map (\<lambda>i. ucast (drop_bit (8 * i) w)) [0..<k]) = take_bit (8 * k) w"
proof (induction k arbitrary: w)
  case (Suc k)
  have "map (\<lambda>i. ucast (drop_bit (8 * i) w)) [0..<Suc k] =
      (ucast w :: u8) # map (\<lambda>i. ucast (drop_bit (8 * i) (drop_bit 8 w))) [0..<k]"
    by (simp add: upt_conv_Cons map_Suc_upt [symmetric] comp_def add.commute del: upt_Suc)
  then have "of_bytes64 (map (\<lambda>i. ucast (drop_bit (8 * i) w)) [0..<Suc k]) =
      ucast (ucast w :: u8) OR push_bit 8 (take_bit (8 * k) (drop_bit 8 w))"
    using Suc [of "drop_bit 8 w"] by (simp del: upt_Suc)
  also have "\<dots> = take_bit (8 * Suc k) w"
    by (rule bit_word_eqI) (auto simp: bit_simps)
  finally show ?case .
qed simp

lemma of_bytes64_bytes: "of_bytes64 (bytes_of64 w) = w"
  using of_bytes64_map [of w 8] by (simp add: bytes_of64_def take_bit_word_eq_self)

lemma length_bytes_of64 [simp]: "length (bytes_of64 w) = 8"
  by (simp add: bytes_of64_def)

lemma word_in_concat: "i < length ws \<Longrightarrow> take 8 (drop (8 * i) (concat (map bytes_of64 ws))) = bytes_of64 (ws ! i)"
  by (induction ws arbitrary: i) (auto simp: nth_Cons split: nat.split)

lemma header_roundtrip:
  assumes "length (hblock h) = LOG_MAX_SIZE"
  shows "header_of (header_bytes h) = h"
proof -
  have w: "of_bytes64 (take 8 (drop (8 * i) (header_bytes h))) = (hnum h # hblock h) ! i" if "i \<le> LOG_MAX_SIZE" for i
    using that assms word_in_concat [of i "hnum h # hblock h"] by (simp add: header_bytes_def of_bytes64_bytes)
  have "of_bytes64 (take 8 (header_bytes h)) = hnum h" using w [of 0] by simp
  moreover have "map (\<lambda>i. of_bytes64 (take 8 (drop (8 * Suc i) (header_bytes h)))) [0..<LOG_MAX_SIZE] = hblock h"
    using w [of "Suc _"] assms by (intro nth_equalityI) (simp_all del: mult_Suc_right)
  ultimately show ?thesis unfolding header_of_def by (cases h) (simp del: mult_Suc_right)
qed

lemma length_header_bytes: "length (hblock h) = LOG_MAX_SIZE \<Longrightarrow> length (header_bytes h) = BLOCK_SIZE"
  by (simp add: header_bytes_def length_concat comp_def sum_list_triv LOG_MAX_SIZE_def BLOCK_SIZE_def)

section \<open>Commit and recovery\<close>

text \<open>The number of the block that lives in the sector of the log header.\<close>

definition hdr_no :: "SuperBlock \<Rightarrow> usize" where
  "hdr_no sb = ucast (log_start sb - 0x20800)"

text \<open>
  A header the log can be committed and recovered with: it fits the array, its block numbers are
  distinct and are 32-bit numbers, and home blocks, log blocks and the header do not overlap.
\<close>

definition wf_log :: "SuperBlock \<Rightarrow> LogHeader \<Rightarrow> bool" where
  "wf_log sb h \<longleftrightarrow> unat (hnum h) \<le> LOG_MAX_SIZE \<and> length (hblock h) = LOG_MAX_SIZE \<and>
     unat (log_start sb) + LOG_MAX_SIZE < 2 ^ 32 \<and>
     (\<forall>i < unat (hnum h). hblock h ! i < 2 ^ 32 \<and> hblock h ! i \<noteq> hdr_no sb \<and> log_block sb i \<noteq> hdr_no sb \<and>
        (\<forall>j < unat (hnum h). hblock h ! i \<noteq> log_block sb j \<and> (i < j \<longrightarrow> hblock h ! i \<noteq> hblock h ! j)))"

definition home_pairs :: "SuperBlock \<Rightarrow> LogHeader \<Rightarrow> (usize \<times> usize) list" where
  "home_pairs sb h = map (\<lambda>i. (log_block sb i, hblock h ! i)) [0..<unat (hnum h)]"

definition log_pairs :: "SuperBlock \<Rightarrow> LogHeader \<Rightarrow> (usize \<times> usize) list" where
  "log_pairs sb h = map (\<lambda>i. (hblock h ! i, log_block sb i)) [0..<unat (hnum h)]"

lemma hdr_no_small: "hdr_no sb < 2 ^ 32"
  using unsigned_less [of "log_start sb - 0x20800", where ?'a = nat]
  by (simp add: hdr_no_def word_less_nat_alt unsigned_ucast_eq take_bit_nat_eq_self)

lemma sector_hdr_no [simp]: "sector (hdr_no sb) = log_start sb"
proof -
  have "unat (sector (hdr_no sb)) = (unat (log_start sb - 0x20800) + 0x20800) mod 2 ^ 32"
    using hdr_no_small [of sb] unsigned_less [of "log_start sb - 0x20800", where ?'a = nat]
    by (simp add: sector_def hdr_no_def unsigned_ucast_eq take_bit_eq_mod unat_word_ariths word_less_nat_alt)
  also have "\<dots> = unat (log_start sb - 0x20800 + 0x20800)" by (simp only: unat_word_ariths) simp
  finally show ?thesis by (simp add: word_unat_eq_iff)
qed

lemma log_block_small: "log_block sb i < 2 ^ 32"
  using unsigned_less [of "log_start sb + of_nat i + 1", where ?'a = nat]
  by (simp add: log_block_def word_less_nat_alt unsigned_ucast_eq take_bit_nat_eq_self)

lemma unat_log_block: "unat (log_start sb) + Suc i < 2 ^ 32 \<Longrightarrow> unat (log_block sb i) = unat (log_start sb) + Suc i"
  by (simp add: log_block_def unsigned_ucast_eq take_bit_nat_eq_self unat_word_ariths unat_of_nat)

lemma log_block_inj:
  assumes "unat (log_start sb) + LOG_MAX_SIZE < 2 ^ 32" "i < LOG_MAX_SIZE" "j < LOG_MAX_SIZE" "log_block sb i = log_block sb j"
  shows "i = j"
proof -
  have "unat (log_block sb i) = unat (log_start sb) + Suc i" "unat (log_block sb j) = unat (log_start sb) + Suc j"
    by (rule unat_log_block, use assms(1-3) in linarith)+
  then show ?thesis unfolding assms(4) by linarith
qed

lemma wf_logD:
  assumes "wf_log sb h" "i < unat (hnum h)"
  shows "hblock h ! i < 2 ^ 32" "hblock h ! i \<noteq> hdr_no sb" "log_block sb i \<noteq> hdr_no sb"
    "j < unat (hnum h) \<Longrightarrow> hblock h ! i \<noteq> log_block sb j"
    "i < j \<Longrightarrow> j < unat (hnum h) \<Longrightarrow> hblock h ! i \<noteq> hblock h ! j \<and> log_block sb i \<noteq> log_block sb j"
  using assms log_block_inj [of sb i j] by (auto simp: wf_log_def)

lemma runs_headers [wp]:
  "runs (write_header sb) s Q \<longleftrightarrow> Q () (s\<lparr>disk := (disk s)(log_start sb := header_bytes (header s)),
     history := (log_start sb, header_bytes (header s)) # history s\<rparr>)"
  "runs (read_header sb) s Q \<longleftrightarrow> Q () (s\<lparr>header := header_of (disk s (log_start sb))\<rparr>)"
  "runs clear_header s Q \<longleftrightarrow> Q () (s\<lparr>header := (header s)\<lparr>hnum := 0\<rparr>\<rparr>)"
  by (simp_all add: write_header_def read_header_def clear_header_def sd_write_def sd_read_def wp)

lemma header_frame [simp]:
  "cached (s\<lparr>header := h\<rparr>) n = cached s n" "content (s\<lparr>header := h\<rparr>) n = content s n"
  "pinned_no (s\<lparr>header := h\<rparr>) n = pinned_no s n" "cache_ok orep H m (s\<lparr>header := h\<rparr>) = cache_ok orep H m s"
  by (simp_all add: cached_def content_def pinned_no_def cache_ok_def cache_body_def split: option.split)

lemma header_write:
  assumes "cache_ok orep H m s" "cached s (hdr_no sb) = None"
    and "t = s\<lparr>disk := (disk s)(log_start sb := d), history := ws\<rparr>"
  shows "cache_ok orep H m t" "cached t k = cached s k" "pinned_no t k = pinned_no s k"
    "k < 2 ^ 32 \<Longrightarrow> k \<noteq> hdr_no sb \<Longrightarrow> content t k = content s k"
proof -
  have sec: "sector k \<noteq> log_start sb" if "k < 2 ^ 32" "k \<noteq> hdr_no sb" for k
    using sector_inj [OF that(1) hdr_no_small [of sb]] that(2) by auto
  have f: "lru t = lru s" "blk t = blk s" "pool t = pool s" "cache_locked t = cache_locked s"
    "disk t = (disk s)(log_start sb := d)" using assms(3) by simp_all
  have "sector (block_no (blk s p)) \<noteq> log_start sb" if "p \<in> set (lru s)" for p
    by (rule sec) (use that assms(1,2) in \<open>auto simp: cached_None cache_ok_def cache_body_def\<close>)
  then show "cache_ok orep H m t" using assms(1) f by (simp add: cache_ok_def cache_body_def)
  show c: "cached t k = cached s k" for k using f by (simp add: cached_def)
  show "pinned_no t k = pinned_no s k" using f c by (simp add: pinned_no_def split: option.split)
  show "content t k = content s k" if "k < 2 ^ 32" "k \<noteq> hdr_no sb"
    using sec [OF that] f c by (simp add: content_def split: option.split)
qed

definition commit_writes :: "SuperBlock \<Rightarrow> 'a bcache \<Rightarrow> (u32 \<times> u8 list) list" where
  "commit_writes sb s =
     writes_of s (log_pairs sb (header s)) @ [(log_start sb, header_bytes (header s))] @
     map (\<lambda>i. (sector (hblock (header s) ! i), content s (hblock (header s) ! i))) [0..<unat (hnum (header s))] @
     [(log_start sb, header_bytes ((header s)\<lparr>hnum := 0\<rparr>))]"

context object_pool
begin

lemma write_log_spec:
  assumes "wf_log sb h" "header s = h" "cache_ok orep {} m s" "2 * unat (hnum h) \<le> m"
    and "\<And>i. i < unat (hnum h) \<Longrightarrow> pinned_no s (hblock h ! i)"
  shows "runs (write_log A sb) s (\<lambda>_ u. \<exists>m'. m \<le> m' + 2 * unat (hnum h) \<and> cache_ok orep {} m' u \<and>
    copied_all s (log_pairs sb h) False u)"
proof -
  note D = wf_logD [OF assms(1)]
  have "runs (write_log_from A sb 0) s (\<lambda>_ u. \<exists>m'. m \<le> m' + 2 * (unat (hnum h) - 0) \<and> cache_ok orep {} m' u \<and>
    copied_all s (map (\<lambda>i. (hblock h ! i, log_block sb i)) [0..<unat (hnum h)]) False u)"
    by (rule copy_loop [where f = "\<lambda>h i. hblock h ! i" and g = "\<lambda>h. log_block sb"])
      (unfold if_False andthen_ret, rule write_log_from.simps, use D assms log_block_small in \<open>simp_all add: wf_log_def\<close>)
  then show ?thesis by (simp add: write_log_def log_pairs_def)
qed

lemma install_spec:
  assumes "wf_log sb h" "header s = h" "cache_ok orep {} m s" "2 * unat (hnum h) \<le> m"
    and "(\<forall>i < unat (hnum h). cached s (log_block sb i) = None) \<or> \<not> r \<and> (\<forall>i < unat (hnum h). pinned_no s (hblock h ! i))"
  shows "runs (install_trans A sb r) s (\<lambda>_ u. \<exists>m'. m \<le> m' + 2 * unat (hnum h) \<and> cache_ok orep {} m' u \<and>
    copied_all s (home_pairs sb h) r u)"
proof -
  note D = wf_logD [OF assms(1)]
  have "runs (install_from A sb r 0) s (\<lambda>_ u. \<exists>m'. m \<le> m' + 2 * (unat (hnum h) - 0) \<and> cache_ok orep {} m' u \<and>
    copied_all s (map (\<lambda>i. (log_block sb i, hblock h ! i)) [0..<unat (hnum h)]) r u)"
    by (rule copy_loop [where f = "\<lambda>h. log_block sb" and g = "\<lambda>h i. hblock h ! i"])
      (rule install_from.simps, use D D(4) [symmetric] assms log_block_small in \<open>(simp_all add: wf_log_def, blast)\<close>)
  then show ?thesis by (simp add: install_trans_def home_pairs_def)
qed

lemma commit_spec:
  assumes wf: "wf_log sb h" and s: "header s = h" "cache_ok orep {} m s" "4 * unat (hnum h) \<le> m" "0 < hnum h"
      "\<forall>i < unat (hnum h). pinned_no s (hblock h ! i)" "cached s (hdr_no sb) = None"
  shows "runs (commit A sb) s (\<lambda>_ u. \<exists>m'. m \<le> m' + 4 * unat (hnum h) \<and> cache_ok orep {} m' u \<and>
    disk u = replay (commit_writes sb s) (disk s) \<and> history u = rev (commit_writes sb s) @ history s \<and>
    header u = h\<lparr>hnum := 0\<rparr> \<and> log u = log s \<and> log_locked u = log_locked s \<and> cached u (hdr_no sb) = None \<and>
    (\<forall>k. pinned_no u k = pinned_no s k) \<and>
    (\<forall>k. k < 2 ^ 32 \<longrightarrow> k \<noteq> hdr_no sb \<longrightarrow> k \<notin> fst ` set (home_pairs sb h) \<longrightarrow> content u k = content s k))"
proof -
  note D = wf_logD [OF wf]
  let ?n = "unat (hnum h)" and ?h0 = "h\<lparr>hnum := 0\<rparr>"
  have hdr: "hdr_no sb \<notin> fst ` set (log_pairs sb h)" "hdr_no sb \<notin> snd ` set (log_pairs sb h)"
    "hdr_no sb \<notin> fst ` set (home_pairs sb h)" "hdr_no sb \<notin> snd ` set (home_pairs sb h)"
    using D(2,3) by (force simp: log_pairs_def home_pairs_def)+
  have sets: "snd ` set (log_pairs sb h) = fst ` set (home_pairs sb h)" by (force simp: log_pairs_def home_pairs_def)
  let ?R = "\<lambda>_ u. \<exists>m'. m \<le> m' + 4 * ?n \<and> cache_ok orep {} m' u \<and>
    disk u = replay (commit_writes sb s) (disk s) \<and> history u = rev (commit_writes sb s) @ history s \<and>
    header u = h\<lparr>hnum := 0\<rparr> \<and> log u = log s \<and> log_locked u = log_locked s \<and> cached u (hdr_no sb) = None \<and>
    (\<forall>k. pinned_no u k = pinned_no s k) \<and>
    (\<forall>k. k < 2 ^ 32 \<longrightarrow> k \<noteq> hdr_no sb \<longrightarrow> k \<notin> fst ` set (home_pairs sb h) \<longrightarrow> content u k = content s k)"
  have "runs (andthen (write_header sb) (andthen (install_trans A sb False) (andthen clear_header (write_header sb)))) t ?R"
    if m1: "m \<le> m1 + 2 * ?n" and t: "cache_ok orep {} m1 t" "copied_all s (log_pairs sb h) False t" for t m1
  proof -
    define t2 where "t2 = t\<lparr>disk := (disk t)(log_start sb := header_bytes h), history := (log_start sb, header_bytes h) # history t\<rparr>"
    have th: "header t = h" "cached t (hdr_no sb) = None" using t(2) s(1,6) hdr by (simp_all add: copied_all_def)
    note w = header_write [OF t(1) th(2) t2_def]
    have f: "header t2 = h" "log t2 = log s" "log_locked t2 = log_locked s"
      "history t2 = (log_start sb, header_bytes h) # rev (writes_of s (log_pairs sb h)) @ history s"
      "disk t2 = (replay (writes_of s (log_pairs sb h)) (disk s))(log_start sb := header_bytes h)"
      using t(2) th(1) s(1) by (simp_all add: t2_def copied_all_def)
    have ct: "content t2 (log_block sb i) = content s (hblock h ! i)" if "i < ?n" for i
      using t(2) w(4) [OF log_block_small D(3) [OF that]] that
      by (auto simp: copied_all_def log_pairs_def)
    then have ws: "writes_of t2 (home_pairs sb h) = map (\<lambda>i. (sector (hblock h ! i), content s (hblock h ! i))) [0..<?n]"
      by (simp add: writes_of_def home_pairs_def)
    have pin: "pinned_no t2 k = pinned_no s k" for k using w(3) t(2) by (simp add: copied_all_def)
    have "runs (andthen clear_header (write_header sb)) u ?R"
      if m2: "m1 \<le> m2 + 2 * ?n" and u: "cache_ok orep {} m2 u" "copied_all t2 (home_pairs sb h) False u" for u m2
    proof -
      define u2 where "u2 = u\<lparr>header := ?h0\<rparr>\<lparr>disk := (disk u)(log_start sb := header_bytes ?h0),
        history := (log_start sb, header_bytes ?h0) # history u\<rparr>"
      have hu: "header u = h" "cached u (hdr_no sb) = None" using u(2) f(1) th(2) w(2) hdr by (simp_all add: copied_all_def)
      note v = header_write [where s = "u\<lparr>header := ?h0\<rparr>" and t = u2 and sb = sb, simplified, OF u(1) hu(2), unfolded u2_def, OF refl, folded u2_def]
      have "content u2 k = content s k" if k: "k < 2 ^ 32" "k \<noteq> hdr_no sb" "k \<notin> fst ` set (home_pairs sb h)" for k
      proof -
        have tk: "content t2 k = content s k" using w(4) k t(2) sets by (simp add: copied_all_def)
        have "content u k = content s k"
        proof (cases "k \<in> snd ` set (home_pairs sb h)")
          case True
          then obtain i where i: "i < ?n" "k = hblock h ! i" by (auto simp: home_pairs_def)
          then have "content u k = content t2 (log_block sb i)" using u(2) by (auto simp: copied_all_def home_pairs_def)
          then show ?thesis using ct i by simp
        qed (use u(2) k(1) tk in \<open>simp add: copied_all_def\<close>)
        then show ?thesis using v(4) k by simp
      qed
      moreover have "disk u2 = replay (commit_writes sb s) (disk s)" "history u2 = rev (commit_writes sb s) @ history s"
        using u(2) f(4,5) ws s(1) by (simp_all add: u2_def commit_writes_def copied_all_def)
      moreover have "pinned_no u2 k = pinned_no s k" for k using v(3) u(2) pin by (simp add: copied_all_def)
      moreover have "header u2 = ?h0" "log u2 = log s" "log_locked u2 = log_locked s" "cached u2 (hdr_no sb) = None"
        using u(2) f hu v(2) by (simp_all add: u2_def copied_all_def)
      ultimately have "?R () u2" using v(1) m1 m2 by (intro exI [of _ m2]) simp
      then show ?thesis using hu(1) by (simp add: wp u2_def)
    qed
    then have "runs (andthen (install_trans A sb False) (andthen clear_header (write_header sb))) t2 ?R"
      unfolding runs_andthen [of "install_trans A sb False"]
      using m1 s(3,5) pin w(1) by (intro runs_mono [OF install_spec [OF wf f(1), of m1]]) auto
    then show ?thesis unfolding runs_andthen [of "write_header sb"] runs_headers(1) using th(1) by (simp add: t2_def)
  qed
  then have "runs (andthen (write_log A sb) (andthen (write_header sb) (andthen (install_trans A sb False)
      (andthen clear_header (write_header sb))))) s ?R"
    unfolding runs_andthen [of "write_log A sb"]
    using s by (intro runs_mono [OF write_log_spec [OF wf s(1,2)]]) auto
  then show ?thesis using s(1,4) by (simp add: commit_def runs_bind runs_gets)
qed

lemma recover_spec:
  assumes wf: "wf_log sb h" and s: "header_of (disk s (log_start sb)) = h" "cache_ok orep {} m s" "2 * unat (hnum h) \<le> m"
      "\<And>i. i < unat (hnum h) \<Longrightarrow> cached s (log_block sb i) = None" "cached s (hdr_no sb) = None"
  shows "runs (recover_from_log A sb) s (\<lambda>_ u. \<exists>m'. m \<le> m' + 2 * unat (hnum h) \<and> cache_ok orep {} m' u \<and>
    disk u = (replay (writes_of s (home_pairs sb h)) (disk s))(log_start sb := header_bytes (h\<lparr>hnum := 0\<rparr>)) \<and>
    header u = h\<lparr>hnum := 0\<rparr> \<and> log u = log s \<and> log_locked u = log_locked s)"
proof -
  let ?n = "unat (hnum h)" and ?t = "s\<lparr>header := h\<rparr>"
  have hdr: "hdr_no sb \<notin> fst ` set (home_pairs sb h)" "hdr_no sb \<notin> snd ` set (home_pairs sb h)"
    using wf_logD(2,3) [OF wf] by (force simp: home_pairs_def)+
  let ?R = "\<lambda>_ u. \<exists>m'. m \<le> m' + 2 * ?n \<and> cache_ok orep {} m' u \<and>
    disk u = (replay (writes_of s (home_pairs sb h)) (disk s))(log_start sb := header_bytes (h\<lparr>hnum := 0\<rparr>)) \<and>
    header u = h\<lparr>hnum := 0\<rparr> \<and> log u = log s \<and> log_locked u = log_locked s"
  have "runs (andthen clear_header (write_header sb)) u ?R"
    if m2: "m \<le> m2 + 2 * ?n" and u: "cache_ok orep {} m2 u" "copied_all ?t (home_pairs sb h) True u" for u m2
  proof -
    have "cached u (hdr_no sb) = None" "header u = h" using u(2) s(5) hdr by (simp_all add: copied_all_def)
    then show ?thesis
      using u m2 header_write(1) [where s = "u\<lparr>header := h\<lparr>hnum := 0\<rparr>\<rparr>" and sb = sb, OF _ _ refl]
      by (auto simp: wp copied_all_def writes_of_def intro!: exI [of _ m2])
  qed
  moreover have "runs (install_trans A sb True) ?t (\<lambda>_ u. \<exists>m'. m \<le> m' + 2 * ?n \<and> cache_ok orep {} m' u \<and>
      copied_all ?t (home_pairs sb h) True u)"
    by (rule install_spec [OF wf]) (use s in simp_all)
  ultimately have "runs (andthen (install_trans A sb True) (andthen clear_header (write_header sb))) ?t ?R"
    unfolding runs_andthen [of "install_trans A sb True"] by (elim runs_mono) blast
  then show ?thesis using s(1) by (simp add: recover_from_log_def runs_andthen [of "read_header sb"] runs_headers)
qed

end

section \<open>Crashes\<close>

definition log_sectors :: "SuperBlock \<Rightarrow> LogHeader \<Rightarrow> u32 set" where
  "log_sectors sb h = (\<lambda>i. sector (log_block sb i)) ` {..<unat (hnum h)}"

lemma take_replay_other: "x \<notin> fst ` set ws \<Longrightarrow> replay (take j ws) d x = d x"
  by (rule replay_other) (meson image_mono set_take_subset subsetD)

lemma replay_agree: "(x \<notin> fst ` set ws \<Longrightarrow> d x = e x) \<Longrightarrow> replay ws d x = replay ws e x"
proof (induction ws arbitrary: d e)
  case (Cons w ws)
  have "replay ws (d(fst w := snd w)) x = replay ws (e(fst w := snd w)) x" by (rule Cons.IH) (use Cons.prems in auto)
  then show ?case by simp
qed simp

lemma wf_log_empty: "wf_log sb h \<Longrightarrow> hnum (header_of d) = 0 \<Longrightarrow> wf_log sb (header_of d)"
  by (simp add: wf_log_def header_of_def)

text \<open>Sectors of a well-formed log do not collide.\<close>

lemma wf_log_sectors:
  assumes "wf_log sb h" "i < unat (hnum h)" "j < unat (hnum h)"
  shows "sector (hblock h ! i) \<noteq> log_start sb" "sector (log_block sb i) \<noteq> log_start sb"
    "sector (hblock h ! i) \<noteq> sector (log_block sb j)"
    "i \<noteq> j \<Longrightarrow> sector (hblock h ! i) \<noteq> sector (hblock h ! j) \<and> sector (log_block sb i) \<noteq> sector (log_block sb j)"
proof -
  note D = wf_logD [OF assms(1,2)] and E = wf_logD [OF assms(1,3)]
  show "sector (hblock h ! i) \<noteq> log_start sb" "sector (log_block sb i) \<noteq> log_start sb"
    using sector_inj [OF D(1) hdr_no_small [of sb]] sector_inj [OF log_block_small hdr_no_small [of sb]] D(2,3) by auto
  show "sector (hblock h ! i) \<noteq> sector (log_block sb j)"
    using sector_inj [OF D(1) log_block_small] D(4) assms(3) by blast
  show "sector (hblock h ! i) \<noteq> sector (hblock h ! j) \<and> sector (log_block sb i) \<noteq> sector (log_block sb j)" if "i \<noteq> j"
    using sector_inj [OF D(1) E(1)] sector_inj [OF log_block_small log_block_small, of sb i sb j]
      D(5) [of j] E(5) [of i] assms that by (metis linorder_neqE_nat)
qed

text \<open>The disk after the first \<open>j\<close> writes of a commit.\<close>

lemma crash_disk:
  assumes wf: "wf_log sb (header s)" and h: "h = header s" "n = unat (hnum h)"
    and d: "d = replay (take j (commit_writes sb s)) (disk s)"
  shows "j \<le> n \<Longrightarrow> d (log_start sb) = disk s (log_start sb)"
    "n < j \<Longrightarrow> i < n \<Longrightarrow> d (sector (log_block sb i)) = content s (hblock h ! i)"
    "n < j \<Longrightarrow> j \<le> 2 * n + 1 \<Longrightarrow> d (log_start sb) = header_bytes h"
    "2 * n + 1 < j \<Longrightarrow> d = replay (commit_writes sb s) (disk s)"
    "x \<noteq> log_start sb \<Longrightarrow> x \<notin> log_sectors sb h \<Longrightarrow> j \<le> n \<or> (\<forall>i < n. x \<noteq> sector (hblock h ! i)) \<Longrightarrow> d x = disk s x"
proof -
  note S = wf_log_sectors [OF wf, folded h(1), folded h(2)]
  let ?L = "writes_of s (log_pairs sb h)" and ?H = "map (\<lambda>i. (sector (hblock h ! i), content s (hblock h ! i))) [0..<n]"
  let ?x = "(log_start sb, header_bytes h)" and ?y = "(log_start sb, header_bytes (h\<lparr>hnum := 0\<rparr>))"
  have cw: "commit_writes sb s = ?L @ [?x] @ ?H @ [?y]" using h by (simp add: commit_writes_def)
  have len: "length ?L = n" by (simp add: writes_of_def log_pairs_def h(2))
  have fL: "fst ` set ?L = log_sectors sb h" by (force simp: writes_of_def log_pairs_def log_sectors_def h(2))
  have fH: "fst ` set ?H = (\<lambda>i. sector (hblock h ! i)) ` {..<n}" by force
  have hL: "log_start sb \<notin> fst ` set ?L" unfolding fL log_sectors_def using S(2) h(2) by fastforce
  have hH: "log_start sb \<notin> fst ` set ?H" unfolding fH using S(1) by fastforce
  have early: "d = replay (take j ?L) (disk s)" if "j \<le> n" using that d cw len by simp
  show "j \<le> n \<Longrightarrow> d (log_start sb) = disk s (log_start sb)" using early take_replay_other [OF hL] by simp
  have late: "d = replay (take (j - n - 1) (?H @ [?y])) ((replay ?L (disk s))(log_start sb := header_bytes h))" if "n < j"
    using that d cw len by (cases "j - n") auto
  have mid: "d = replay (take (j - n - 1) ?H) ((replay ?L (disk s))(log_start sb := header_bytes h))"
    if "n < j" "j \<le> 2 * n + 1" using late [OF that(1)] that by simp
  show "n < j \<Longrightarrow> j \<le> 2 * n + 1 \<Longrightarrow> d (log_start sb) = header_bytes h"
    using mid take_replay_other [OF hH] by simp
  show "2 * n + 1 < j \<Longrightarrow> d = replay (commit_writes sb s) (disk s)"
    using d cw len by simp
  show "d (sector (log_block sb i)) = content s (hblock h ! i)" if "n < j" "i < n"
  proof -
    have "sector (log_block sb i) \<noteq> sector (hblock h ! k)" if "k < n" for k using S(3) [OF that \<open>i < n\<close>] by (rule not_sym)
    then have "sector (log_block sb i) \<notin> fst ` set ?H" unfolding fH by blast
    then have "sector (log_block sb i) \<notin> fst ` set (?H @ [?y])" using S(2) [OF that(2,2)] by simp
    then have "d (sector (log_block sb i)) = replay ?L (disk s) (sector (log_block sb i))"
      using late [OF that(1)] take_replay_other S(2) [OF that(2,2)] by simp
    moreover have "(sector (log_block sb i), content s (hblock h ! i)) \<in> set ?L"
      using that(2) h(2) by (auto simp: writes_of_def log_pairs_def)
    moreover have "inj_on (\<lambda>i. sector (log_block sb i)) {0..<n}"
      by (rule inj_onI) (use S(4) in \<open>metis atLeastLessThan_iff\<close>)
    then have "distinct (map fst ?L)"
      using h(2) by (simp add: writes_of_def log_pairs_def comp_def distinct_map)
    ultimately show ?thesis by (simp add: replay_hit)
  qed
  show "d x = disk s x" if x: "x \<noteq> log_start sb" "x \<notin> log_sectors sb h" "j \<le> n \<or> (\<forall>i < n. x \<noteq> sector (hblock h ! i))"
  proof (cases "j \<le> n")
    case True
    then show ?thesis using early take_replay_other [of x ?L] x(2) fL by simp
  next
    case False
    then have "x \<notin> fst ` set (?L @ [?x] @ ?H @ [?y])" using x fL fH by (auto simp del: set_map)
    then show ?thesis using d cw take_replay_other by metis
  qed
qed

lemma commit_home:
  assumes "wf_log sb (header s)" "i < unat (hnum (header s))"
  shows "replay (commit_writes sb s) (disk s) (sector (hblock (header s) ! i)) = content s (hblock (header s) ! i)"
proof -
  let ?h = "header s" and ?n = "unat (hnum (header s))"
  note S = wf_log_sectors [OF assms(1)]
  let ?H = "map (\<lambda>i. (sector (hblock ?h ! i), content s (hblock ?h ! i))) [0..<?n]"
  have "inj_on (\<lambda>i. sector (hblock ?h ! i)) {0..<?n}"
    by (rule inj_onI) (use S(4) in \<open>metis atLeastLessThan_iff\<close>)
  then have "distinct (map fst ?H)" by (simp add: comp_def distinct_map)
  moreover have "(sector (hblock ?h ! i), content s (hblock ?h ! i)) \<in> set ?H" using assms(2) by auto
  ultimately have "replay ?H d (sector (hblock ?h ! i)) = content s (hblock ?h ! i)" for d by (simp add: replay_hit)
  then show ?thesis using S(1) [OF assms(2,2)] by (simp add: commit_writes_def)
qed

context object_pool
begin

lemma crash_spec:
  assumes wf: "wf_log sb h" and s: "header s = h" "cache_ok orep {} m s" "4 * unat (hnum h) \<le> m" "0 < hnum h"
      "\<forall>i < unat (hnum h). pinned_no s (hblock h ! i)" "cached s (hdr_no sb) = None"
    and old: "hnum (header_of (disk s (log_start sb))) = 0"
    and r: "cache_ok orep {} m' r" "lru r = []" "2 * unat (hnum h) \<le> m'" "disk r = replay (take j (commit_writes sb s)) (disk s)"
  shows "runs (recover_from_log A sb) r (\<lambda>_ v. \<forall>x. x \<noteq> log_start sb \<longrightarrow> x \<notin> log_sectors sb h \<longrightarrow>
    disk v x = (if j \<le> unat (hnum h) then disk s x else replay (commit_writes sb s) (disk s) x))"
proof -
  let ?n = "unat (hnum h)" and ?h = "header_of (disk r (log_start sb))"
  note C = crash_disk [OF wf [folded s(1)] s(1) [symmetric] refl r(4)]
  have none: "cached r k = None" for k using r(2) by (simp add: cached_None)
  have len: "length (hblock h) = LOG_MAX_SIZE" using wf by (simp add: wf_log_def)
  have cont: "content r k = disk r (sector k)" for k using none by (simp add: content_def)
  have h: "?h = h \<and> ?n < j \<and> j \<le> 2 * ?n + 1 \<or> hnum ?h = 0 \<and> (j \<le> ?n \<or> 2 * ?n + 1 < j)"
  proof -
    consider "j \<le> ?n" | "?n < j" "j \<le> 2 * ?n + 1" | "2 * ?n + 1 < j" by linarith
    then show ?thesis
    proof cases
      case 3
      have "disk r (log_start sb) = header_bytes (h\<lparr>hnum := 0\<rparr>)" using C(4) [OF 3] s(1) by (simp add: commit_writes_def)
      then show ?thesis using 3 header_roundtrip [of "h\<lparr>hnum := 0\<rparr>"] len by simp
    qed (use C(1,3) old header_roundtrip [OF len] in simp_all)
  qed
  have wf': "wf_log sb ?h" using h wf wf_log_empty [OF wf] by auto
  have "2 * unat (hnum ?h) \<le> m'" using h r(3) by auto
  note R = recover_spec [OF wf' refl r(1) this none none]
  show ?thesis
  proof (rule runs_mono [OF R], elim exE conjE, intro allI impI)
    fix v x
    assume v: "disk v = (replay (writes_of r (home_pairs sb ?h)) (disk r))(log_start sb := header_bytes (?h\<lparr>hnum := 0\<rparr>))"
      and x: "x \<noteq> log_start sb" "x \<notin> log_sectors sb h"
    show "disk v x = (if j \<le> ?n then disk s x else replay (commit_writes sb s) (disk s) x)"
    proof (cases "?h = h \<and> ?n < j \<and> j \<le> 2 * ?n + 1")
      case True
      let ?H = "map (\<lambda>i. (sector (hblock h ! i), content s (hblock h ! i))) [0..<?n]"
      have H: "writes_of r (home_pairs sb ?h) = ?H" using True C(2) cont by (simp add: writes_of_def home_pairs_def)
      have L: "fst ` set (writes_of s (log_pairs sb h)) = log_sectors sb h"
        by (force simp: writes_of_def log_pairs_def log_sectors_def)
      have "replay (commit_writes sb s) (disk s) x =
          replay ?H ((replay (writes_of s (log_pairs sb h)) (disk s))(log_start sb := header_bytes h)) x"
        using s(1) x(1) by (simp add: commit_writes_def)
      also have "\<dots> = replay ?H (disk r) x"
      proof (rule replay_agree)
        assume "x \<notin> fst ` set ?H"
        then have "\<forall>i < ?n. x \<noteq> sector (hblock h ! i)" by force
        then have "disk r x = disk s x" using C(5) x by blast
        moreover have "replay (writes_of s (log_pairs sb h)) (disk s) x = disk s x" using x(2) L by (intro replay_other) simp
        ultimately show "((replay (writes_of s (log_pairs sb h)) (disk s))(log_start sb := header_bytes h)) x = disk r x"
          using x(1) by simp
      qed
      finally show ?thesis using v x(1) H True by simp
    next
      case False
      then have "hnum ?h = 0" using h by blast
      then have "disk v x = disk r x" using v x(1) by (simp add: home_pairs_def writes_of_def)
      then show ?thesis using C(4,5) x h False by auto
    qed
  qed
qed

end

section \<open>An example state\<close>

text \<open>A cache that holds block 100 alone, logged and not yet committed; the log starts at block 2.\<close>

definition sb1 :: SuperBlock where
  "sb1 = \<lparr>num_blocks = 1000, num_data_blocks = 700, num_inodes = 200, num_log_blocks = 40, log_start = 2,
     inode_start = 50, bitmap_start = 90\<rparr>"

definition cache1 :: "u64 \<Rightarrow> 'a \<Rightarrow> 'a bcache" where
  "cache1 p k = \<lparr>disk = (\<lambda>_. replicate BLOCK_SIZE 0), history = [], lru = [p],
     blk = (\<lambda>_. \<lparr>block_no = 100, acquired = False, pinned = True, block_lock = False, valid = True,
        data = replicate BLOCK_SIZE 7\<rparr>),
     header = \<lparr>hnum = 1, hblock = 100 # replicate 62 0\<rparr>,
     log = \<lparr>outstanding = 0, committing = True, mu = 0, mx = 39\<rparr>,
     cache_locked = False, log_locked = False, pool = k\<rparr>"

lemma pool0: "pool_rep 0xffff000000100000 0 arena0 {} 6"
  unfolding pool_rep_def
  by (rule exI [of _ "[]"], rule exI [of _ "[0xffff000000100000]"])
    (use arena0_sys in \<open>simp add: objects_def allocated_def arena0_def\<close>)

lemma pool1: "\<exists>p k. pool_rep 0xffff000000100000 0 k {p} 5"
proof -
  have "pool_rep 0xffff000000100000 0 arena0 {} (Suc 5)" using pool0 by (simp add: eval_nat_numeral)
  from ap.pool_alloc [OF this, of 0] show ?thesis by blast
qed

lemma cache1_ok: "pool_rep kend self k {p} m \<Longrightarrow> cache_ok (pool_rep kend self) {} m (cache1 p k)"
  by (simp add: cache1_def cache_ok_def cache_body_def)

lemma cache1_cached: "cached (cache1 p k) n = (if n = 100 then Some p else None)"
  by (simp add: cached_def cache1_def)

lemma cache1_log: "wf_log sb1 (header (cache1 p k))"
  by (simp add: wf_log_def sb1_def cache1_def hdr_no_def log_block_def LOG_MAX_SIZE_def BLOCK_SIZE_def)

lemma of_bytes64_zero: "of_bytes64 (replicate n 0) = 0"
  by (induction n) simp_all

lemma cache1_old: "hnum (header_of (disk (cache1 p k) (log_start sb1))) = 0"
  by (simp add: cache1_def header_of_def of_bytes64_zero BLOCK_SIZE_def min_def)

lemma cache1_pinned: "\<forall>i < unat (hnum (header (cache1 p k))). pinned_no (cache1 p k) (hblock (header (cache1 p k)) ! i)"
proof -
  have "hnum (header (cache1 p k)) = 1" "hblock (header (cache1 p k)) ! 0 = 100" "pinned (blk (cache1 p k) p)"
    by (simp_all add: cache1_def)
  then show ?thesis by (simp add: pinned_no_def cache1_cached)
qed

lemma cache1_content: "content (cache1 p k) 100 = replicate BLOCK_SIZE 7"
  by (simp add: content_def cache1_cached) (simp add: cache1_def)

lemma cache1_facts:
  "hnum (header (cache1 p k)) = 1" "hblock (header (cache1 p k)) ! 0 = 100" "cached (cache1 p k) (hdr_no sb1) = None"
  by (simp add: cache1_def, simp add: cache1_def, simp add: cache1_cached hdr_no_def sb1_def)

section \<open>Claims\<close>

text \<open>
  C1. A commit is atomic: whatever prefix of its writes reaches the disk before a crash, recovery brings
  every sector outside the log to its state before the commit, if the crash came before the header was written, or to
  its state after the whole commit otherwise; and a whole commit leaves the logged contents in the home blocks.
\<close>

theorem commit_crash_atomic:
  assumes "wf_log sb (header s)" "cache_ok (pool_rep kend self) {} m s" "4 * unat (hnum (header s)) \<le> m" "0 < hnum (header s)"
    and "\<forall>i < unat (hnum (header s)). pinned_no s (hblock (header s) ! i)" "cached s (hdr_no sb) = None"
    and "hnum (header_of (disk s (log_start sb))) = 0"
  shows "runs (commit (arena_pool kend self me) sb) s (\<lambda>_ u. \<exists>ws. history u = rev ws @ history s \<and>
    disk u = replay ws (disk s) \<and>
    (\<forall>i < unat (hnum (header s)). disk u (sector (hblock (header s) ! i)) = content s (hblock (header s) ! i)) \<and>
    (\<forall>j r m'. cache_ok (pool_rep kend self) {} m' r \<longrightarrow> lru r = [] \<longrightarrow> 2 * unat (hnum (header s)) \<le> m' \<longrightarrow>
       disk r = replay (take j ws) (disk s) \<longrightarrow>
       runs (recover_from_log (arena_pool kend self me) sb) r (\<lambda>_ v. \<forall>x. x \<noteq> log_start sb \<longrightarrow>
         x \<notin> log_sectors sb (header s) \<longrightarrow> disk v x = (if j \<le> unat (hnum (header s)) then disk s x else disk u x))))"
proof -
  note hyps = assms(1) refl assms(2-6)
  have *: "runs (recover_from_log (arena_pool kend self me) sb) r (\<lambda>_ v. \<forall>x. x \<noteq> log_start sb \<longrightarrow>
      x \<notin> log_sectors sb (header s) \<longrightarrow> disk v x =
        (if j \<le> unat (hnum (header s)) then disk s x else replay (commit_writes sb s) (disk s) x))"
    if "cache_ok (pool_rep kend self) {} m' r" "lru r = []" "2 * unat (hnum (header s)) \<le> m'"
      "disk r = replay (take j (commit_writes sb s)) (disk s)" for j r m'
    by (rule ap.crash_spec [OF hyps assms(7) that])
  have "runs (commit (arena_pool kend self me) sb) s (\<lambda>_ u. history u = rev (commit_writes sb s) @ history s \<and>
    disk u = replay (commit_writes sb s) (disk s))"
    by (rule runs_mono [OF ap.commit_spec [OF hyps]], elim exE conjE) simp
  then show ?thesis
  proof (rule runs_mono, intro exI [of _ "commit_writes sb s"] conjI)
    fix u :: "PMemory arena_st bcache"
    assume u: "history u = rev (commit_writes sb s) @ history s \<and> disk u = replay (commit_writes sb s) (disk s)"
    then show "history u = rev (commit_writes sb s) @ history s" "disk u = replay (commit_writes sb s) (disk s)" by simp_all
    show "\<forall>i < unat (hnum (header s)). disk u (sector (hblock (header s) ! i)) = content s (hblock (header s) ! i)"
      using u commit_home [OF assms(1)] by simp
    show "\<forall>j r m'. cache_ok (pool_rep kend self) {} m' r \<longrightarrow> lru r = [] \<longrightarrow> 2 * unat (hnum (header s)) \<le> m' \<longrightarrow>
       disk r = replay (take j (commit_writes sb s)) (disk s) \<longrightarrow>
       runs (recover_from_log (arena_pool kend self me) sb) r (\<lambda>_ v. \<forall>x. x \<noteq> log_start sb \<longrightarrow>
         x \<notin> log_sectors sb (header s) \<longrightarrow> disk v x = (if j \<le> unat (hnum (header s)) then disk s x else disk u x))"
      unfolding conjunct2 [OF u] using * by blast
  qed
qed

theorem commit_crash_atomic_witness:
  "\<exists>p k u. commit (arena_pool 0xffff000000100000 0 0) sb1 (cache1 p k) = Inr ((), u) \<and>
     disk u (sector 100) = replicate BLOCK_SIZE 7"
proof -
  obtain p k where k: "pool_rep 0xffff000000100000 0 k {p} 5" using pool1 by blast
  have "runs (commit (arena_pool 0xffff000000100000 0 0) sb1) (cache1 p k)
      (\<lambda>_ u. disk u (sector 100) = replicate BLOCK_SIZE 7)"
    by (rule runs_mono [OF commit_crash_atomic [OF cache1_log cache1_ok [OF k] _ _ cache1_pinned cache1_facts(3) cache1_old, of 0]])
      (auto simp: cache1_facts cache1_content)
  then show ?thesis by (auto simp: runs_def)
qed

end
