(* ===== verification/Transaction.thy ===== *)
theory Transaction
  imports CacheLog
begin

text \<open>
  Operations on the file system's log between commits: the accounting of log space in
  \<^verbatim>\<open>cache_begin_op\<close>, \<^verbatim>\<open>cache_sync\<close> and \<^verbatim>\<open>cache_end_op\<close>, what a synced change of a block does to
  the contents, and the allocation of data blocks in the bitmap on top of it.
\<close>

section \<open>Synchronising a block\<close>

declare of_nat_unat [simp del]

definition logged :: "'a bcache \<Rightarrow> usize list" where
  "logged s = take (unat (hnum (header s))) (hblock (header s))"

definition log_ok :: "'a bcache \<Rightarrow> bool" where
  "log_ok s \<longleftrightarrow> length (hblock (header s)) = LOG_MAX_SIZE \<and> distinct (logged s) \<and> (\<forall>n \<in> set (logged s). pinned_no s n) \<and>
     int (unat (hnum (header s))) + mu (log s) \<le> mx (log s) \<and> mx (log s) \<le> int LOG_MAX_SIZE \<and> \<not> log_locked s"

lemma find_logged_le: "find_logged n xs \<le> length xs"
  by (induction xs) auto

lemma find_logged_in: "n \<in> set xs \<Longrightarrow> find_logged n xs < length xs \<and> xs ! find_logged n xs = n"
  by (induction xs) auto

lemma find_logged_out: "n \<notin> set xs \<Longrightarrow> find_logged n xs = length xs"
  by (induction xs) auto

text \<open>A block that is logged already is absorbed: nothing changes.\<close>

lemma sync_absorb:
  assumes "block_no (blk s p) \<in> set (logged s)" "\<not> log_locked s" "outstanding (log s) \<ge> 1"
    "int (unat (hnum (header s))) < mx (log s)" "unat (hnum (header s)) \<le> length (hblock (header s))"
  shows "cache_sync (Some c) p s = Inr (Some c, s)"
proof -
  let ?n = "block_no (blk s p)" and ?k = "unat (hnum (header s))"
  have i: "find_logged ?n (take ?k (hblock (header s))) < ?k"
    "hblock (header s) ! find_logged ?n (take ?k (hblock (header s))) = ?n"
    using find_logged_in [OF assms(1)] assms(5) by (auto simp: logged_def)
  then have "(hblock (header s))[find_logged ?n (take ?k (hblock (header s))) := ?n] = hblock (header s)"
    by (metis list_update_id)
  then show ?thesis using assms i
    by (simp add: cache_sync_def cm_simps lock_log_def unlock_log_def Let_def)
qed

text \<open>A new block takes the next slot of the header, is pinned and is charged to the operation.\<close>

lemma sync_new:
  assumes "block_no (blk s p) \<notin> set (logged s)" "\<not> log_locked s" "outstanding (log s) \<ge> 1" "rm c > 0"
    "int (unat (hnum (header s))) < mx (log s)" "unat (hnum (header s)) < length (hblock (header s))"
  shows "cache_sync (Some c) p s = Inr (Some (c\<lparr>rm := rm c - 1\<rparr>),
    s\<lparr>header := (header s)\<lparr>hblock := (hblock (header s))[unat (hnum (header s)) := block_no (blk s p)], hnum := hnum (header s) + 1\<rparr>,
      blk := (blk s)(p := (blk s p)\<lparr>pinned := True\<rparr>), log := (log s)\<lparr>mu := mu (log s) - 1\<rparr>\<rparr>)"
proof -
  let ?n = "block_no (blk s p)" and ?k = "unat (hnum (header s))"
  have "find_logged ?n (take ?k (hblock (header s))) = ?k"
    using find_logged_out [OF assms(1)] assms(6) by (simp add: logged_def)
  then show ?thesis using assms
    by (simp add: cache_sync_def cm_simps lock_log_def unlock_log_def upd_blk_def Let_def)
qed

text \<open>An operation that has used up its reservation, or runs when the log is full, is stopped.\<close>

lemma sync_over_budget:
  assumes "block_no (blk s p) \<notin> set (logged s)" "\<not> log_locked s" "outstanding (log s) \<ge> 1" "rm c = 0"
    "int (unat (hnum (header s))) < mx (log s)" "unat (hnum (header s)) < length (hblock (header s))"
  shows "cache_sync (Some c) p s = Inl (Panic ''OP_MAX_BLOCK exceeded'')"
proof -
  let ?n = "block_no (blk s p)" and ?k = "unat (hnum (header s))"
  have "find_logged ?n (take ?k (hblock (header s))) = ?k"
    using find_logged_out [OF assms(1)] assms(6) by (simp add: logged_def)
  then show ?thesis using assms
    by (simp add: cache_sync_def cm_simps lock_log_def unlock_log_def upd_blk_def Let_def)
qed

section \<open>Log space\<close>

text \<open>
  Any number of operations run between two commits; \<open>cs\<close> are their contexts. A step begins an
  operation, syncs a block in one, ends one that is not the last, or changes what is not the log's.
\<close>

inductive txn_step :: "'a bcache \<times> OpContext list \<Rightarrow> 'a bcache \<times> OpContext list \<Rightarrow> bool" where
  "cache_begin_op s = Inr (c, t) \<Longrightarrow> txn_step (s, cs) (t, c # cs)"
| "i < length cs \<Longrightarrow> cache_sync (Some (cs ! i)) p s = Inr (Some c, t) \<Longrightarrow> txn_step (s, cs) (t, cs[i := c])"
| "i < length cs \<Longrightarrow> end_op_enter (cs ! i) s = Inr (False, t) \<Longrightarrow> txn_step (s, cs) (t, take i cs @ drop (Suc i) cs)"
| "header t = header s \<Longrightarrow> log t = log s \<Longrightarrow> log_locked t = log_locked s \<Longrightarrow> txn_step (s, cs) (t, cs)"

definition txn_ok :: "'a bcache \<times> OpContext list \<Rightarrow> bool" where
  "txn_ok = (\<lambda>(s, cs). length (hblock (header s)) = LOG_MAX_SIZE \<and> \<not> log_locked s \<and> distinct (logged s) \<and>
     mu (log s) = (\<Sum>c \<leftarrow> cs. int (unat (rm c))) \<and> outstanding (log s) = int (length cs) \<and>
     (\<forall>c \<in> set cs. unat (rm c) \<le> 10) \<and>
     int (unat (hnum (header s))) + mu (log s) \<le> mx (log s) \<and> mx (log s) \<le> int LOG_MAX_SIZE)"

lemma sum_split:
  fixes f :: "'b \<Rightarrow> int"
  assumes "i < length cs"
  shows "(\<Sum>c \<leftarrow> cs. f c) = (\<Sum>c \<leftarrow> take i cs. f c) + f (cs ! i) + (\<Sum>c \<leftarrow> drop (Suc i) cs. f c)"
  using arg_cong [OF id_take_nth_drop [OF assms], of "\<lambda>l. sum_list (map f l)"] by simp

lemma sum_update: "i < length cs \<Longrightarrow> (\<Sum>c \<leftarrow> cs[i := d]. f c) = (\<Sum>c \<leftarrow> cs. f c) - f (cs ! i) + f d" for f :: "'b \<Rightarrow> int"
  by (simp add: upd_conv_take_nth_drop sum_split [of i cs])

lemma sum_remove: "i < length cs \<Longrightarrow> (\<Sum>c \<leftarrow> take i cs @ drop (Suc i) cs. f c) = (\<Sum>c \<leftarrow> cs. f c) - f (cs ! i)" for f :: "'b \<Rightarrow> int"
  by (simp add: sum_split [of i cs])

lemma begin_op_eq:
  "cache_begin_op s = Inr (c, t) \<longleftrightarrow> \<not> log_locked s \<and> \<not> committing (log s) \<and>
     int (unat (hnum (header s))) + mu (log s) + 10 \<le> mx (log s) \<and>
     c = \<lparr>ts = word_of_int (outstanding (log s) + 1), rm = 10\<rparr> \<and>
     t = s\<lparr>log := (log s)\<lparr>outstanding := outstanding (log s) + 1, mu := mu (log s) + 10\<rparr>\<rparr>"
  by (auto simp: cache_begin_op_def cm_simps lock_log_def unlock_log_def OP_MAX_NUM_BLOCKS_def)

lemma end_op_enter_eq:
  assumes "end_op_enter c s = Inr (False, t)" "unat (rm c) \<le> 10"
  shows "\<not> log_locked s \<and> t = s\<lparr>log := (log s)\<lparr>outstanding := outstanding (log s) - 1, mu := mu (log s) - int (unat (rm c))\<rparr>\<rparr>"
proof -
  have "unat (ucast (rm c) :: u32) = unat (rm c)"
    using assms(2) by (simp add: unsigned_ucast_eq take_bit_nat_eq_self)
  then have "uint (ucast (rm c) :: u32) = int (unat (rm c))" by (metis uint_nat)
  then have "sint (ucast (rm c) :: u32) = int (unat (rm c))" using assms(2) by (simp add: sint_u32)
  then show ?thesis using assms(1)
    by (auto simp: end_op_enter_def cm_simps lock_log_def unlock_log_def split: if_splits)
qed

text \<open>A successful sync is one of the two above, with space in the header.\<close>

lemma sync_cases:
  assumes "cache_sync (Some c) p s = Inr (Some d, t)"
  shows "\<not> log_locked s \<and> int (unat (hnum (header s))) < mx (log s) \<and> outstanding (log s) \<ge> 1 \<and>
    (block_no (blk s p) \<notin> set (logged s) \<longrightarrow> unat (hnum (header s)) \<le> length (hblock (header s)) \<longrightarrow> rm c > 0)"
proof -
  have 1: "\<not> log_locked s" "int (unat (hnum (header s))) < mx (log s)" "outstanding (log s) \<ge> 1"
    using assms by (auto simp: cache_sync_def cm_simps lock_log_def split: if_splits)
  have "rm c > 0" if n: "block_no (blk s p) \<notin> set (logged s)" "unat (hnum (header s)) \<le> length (hblock (header s))"
  proof (rule ccontr)
    assume "\<not> rm c > 0"
    then have "rm c = 0" by (simp add: word_less_nat_alt unat_eq_0)
    moreover have "find_logged (block_no (blk s p)) (take (unat (hnum (header s))) (hblock (header s))) = unat (hnum (header s))"
      using find_logged_out [OF n(1)] n(2) by (simp add: logged_def)
    ultimately show False using assms
      by (auto simp: cache_sync_def cm_simps lock_log_def upd_blk_def Let_def split: if_splits)
  qed
  then show ?thesis using 1 by blast
qed

lemma logged_new:
  assumes "unat (hnum h) < length (hblock h)" "length (hblock h) = LOG_MAX_SIZE"
  shows "take (unat (hnum h + 1)) ((hblock h)[unat (hnum h) := n]) = take (unat (hnum h)) (hblock h) @ [n]"
    "unat (hnum h + 1) = Suc (unat (hnum h))"
proof -
  show *: "unat (hnum h + 1) = Suc (unat (hnum h))"
    using assms unat_plus1 [of "hnum h" 63] by (simp add: LOG_MAX_SIZE_def BLOCK_SIZE_def word_less_nat_alt)
  show "take (unat (hnum h + 1)) ((hblock h)[unat (hnum h) := n]) = take (unat (hnum h)) (hblock h) @ [n]"
    unfolding * using assms(1) by (simp add: take_Suc_conv_app_nth)
qed

lemma txn_step_ok:
  assumes "txn_step x y" "txn_ok x"
  shows "txn_ok y"
  using assms
proof (cases rule: txn_step.cases)
  case (1 s c t cs)
  then show ?thesis using assms(2) by (auto simp: begin_op_eq txn_ok_def logged_def)
next
  case (2 i cs p s c t)
  let ?n = "block_no (blk s p)" and ?k = "unat (hnum (header s))"
  have ok: "txn_ok (s, cs)" using assms(2) 2(1) by simp
  note S = sync_cases [OF 2(4)]
  have k: "?k < length (hblock (header s))" using S ok by (auto simp: txn_ok_def)
  have ci: "cs ! i \<in> set cs" using 2(3) by simp
  show ?thesis
  proof (cases "?n \<in> set (logged s)")
    case True
    then have "t = s" "c = cs ! i" using sync_absorb [of s p "cs ! i"] S 2(4) k by auto
    then show ?thesis using 2 ok by simp
  next
    case False
    then have rm: "rm (cs ! i) > 0" using S k by simp
    then have t: "t = s\<lparr>header := (header s)\<lparr>hblock := (hblock (header s))[?k := ?n], hnum := hnum (header s) + 1\<rparr>,
      blk := (blk s)(p := (blk s p)\<lparr>pinned := True\<rparr>), log := (log s)\<lparr>mu := mu (log s) - 1\<rparr>\<rparr>"
      "c = (cs ! i)\<lparr>rm := rm (cs ! i) - 1\<rparr>"
      using sync_new [OF False, of "cs ! i"] S 2(4) k by auto
    have len: "length (hblock (header s)) = LOG_MAX_SIZE" using ok by (simp add: txn_ok_def)
    have u: "unat (rm (cs ! i) - 1) = unat (rm (cs ! i)) - 1" "unat (rm (cs ! i)) \<ge> 1"
      using rm unat_minus_word [of 1 "rm (cs ! i)"] by (simp_all add: word_less_nat_alt word_le_nat_alt)
    have "logged t = logged s @ [?n]" using logged_new(1) [OF k len, of ?n] t(1) by (simp add: logged_def)
    moreover have "mu (log t) = (\<Sum>c \<leftarrow> cs[i := c]. int (unat (rm c)))"
      using sum_update [OF 2(3), of "\<lambda>c. int (unat (rm c))" c] ok t u by (simp add: txn_ok_def)
    moreover have "\<forall>d \<in> set (cs[i := c]). unat (rm d) \<le> 10"
      using ok t(2) u ci set_update_subset_insert [of cs i c] by (fastforce simp: txn_ok_def)
    ultimately show ?thesis using ok t(1) 2(2) False logged_new(2) [OF k len] by (simp add: txn_ok_def)
  qed
next
  case (3 i cs s t)
  have ci: "cs ! i \<in> set cs" using 3(3) by simp
  then have "t = s\<lparr>log := (log s)\<lparr>outstanding := outstanding (log s) - 1, mu := mu (log s) - int (unat (rm (cs ! i)))\<rparr>\<rparr>"
    using end_op_enter_eq [OF 3(4)] assms(2) 3(1) by (auto simp: txn_ok_def)
  moreover have "set (take i cs @ drop (Suc i) cs) \<subseteq> set cs" using set_take_subset set_drop_subset by fastforce
  ultimately show ?thesis
    using assms(2) 3 sum_remove [OF 3(3), of "\<lambda>c. int (unat (rm c))"] by (auto simp: txn_ok_def logged_def)
next
  case (4 t s cs)
  then show ?thesis using assms(2) by (simp add: txn_ok_def logged_def)
qed

lemma txn_reach_ok: "txn_step\<^sup>*\<^sup>* x y \<Longrightarrow> txn_ok x \<Longrightarrow> txn_ok y"
  by (induction rule: rtranclp_induct) (auto intro: txn_step_ok)

lemma txn_sync:
  assumes ok: "txn_ok (s, cs)" and i: "i < length cs" "rm (cs ! i) > 0"
  shows "\<exists>c t. cache_sync (Some (cs ! i)) p s = Inr (Some c, t)"
proof -
  have "int (unat (rm (cs ! i))) \<le> (\<Sum>c \<leftarrow> cs. int (unat (rm c)))"
    using i(1) by (intro member_le_sum_list) auto
  moreover have "unat (rm (cs ! i)) \<ge> 1" using i(2) by (simp add: word_less_nat_alt)
  ultimately have k: "int (unat (hnum (header s))) < mx (log s)" "unat (hnum (header s)) < length (hblock (header s))"
    using ok by (auto simp: txn_ok_def)
  have o: "outstanding (log s) \<ge> 1" "\<not> log_locked s" using ok i(1) by (auto simp: txn_ok_def)
  show ?thesis
    using sync_absorb [OF _ o(2,1) k(1), of p "cs ! i"] sync_new [OF _ o(2,1) i(2) k(1,2), of p] k(2)
    by (cases "block_no (blk s p) \<in> set (logged s)") auto
qed

section \<open>Changing a block in an operation\<close>

text \<open>
  The pattern of the file system: acquire a block, change its data, sync it, release it. \<open>edited s n d t\<close>
  says that block \<open>n\<close> now shows \<open>d\<close>, is logged and pinned, and that no other block and nothing on
  the disk has changed.
\<close>

definition edited :: "'a bcache \<Rightarrow> usize \<Rightarrow> u8 list \<Rightarrow> 'a bcache \<Rightarrow> bool" where
  "edited s n d t \<longleftrightarrow> content t n = d \<and> (\<forall>k. k \<noteq> n \<longrightarrow> content t k = content s k) \<and>
     set (logged t) = insert n (set (logged s)) \<and> disk t = disk s \<and> history t = history s \<and>
     outstanding (log t) = outstanding (log s) \<and> committing (log t) = committing (log s) \<and> mx (log t) = mx (log s)"

text \<open>An operation with context \<open>c\<close> that may still log \<open>k\<close> blocks.\<close>

definition may_log :: "'a bcache \<Rightarrow> OpContext \<Rightarrow> nat \<Rightarrow> bool" where
  "may_log s c k \<longleftrightarrow> log_ok s \<and> outstanding (log s) \<ge> 1 \<and> k \<le> unat (rm c) \<and> int (unat (rm c)) \<le> mu (log s)"

text \<open>The state after the block's data is set, its pin, and its release.\<close>

lemma edit_state:
  assumes body: "cache_body orep (insert p H) m t" and p: "cached t n = Some p" "p \<notin> H"
    and u: "lru u = lru t" "pool u = pool t" "disk u = disk t"
      "blk u = (blk t)(p := (blk t p)\<lparr>data := d, pinned := pinned (blk t p) \<or> g, acquired := False, block_lock := False\<rparr>)"
    and g: "pinned (blk t p) \<or> g"
  shows "cache_body orep H m u" "content u n = d" "k \<noteq> n \<Longrightarrow> content u k = content t k"
    "pinned_no u k = (k = n \<or> pinned_no t k)"
proof -
  have d: "distinct (map (\<lambda>p. block_no (blk t p)) (lru t))" "distinct (lru t)" using body by (simp_all add: cache_body_def)
  have pn: "p \<in> set (lru t)" "block_no (blk t p) = n" using p(1) by (simp_all add: cached_iff [OF d(1)])
  have no: "block_no (blk u q) = block_no (blk t q)" for q using u(4) by simp
  have f: "blk u p = (blk t p)\<lparr>data := d, pinned := True, acquired := False, block_lock := False\<rparr>"
    "\<And>q. q \<noteq> p \<Longrightarrow> blk u q = blk t q" using u(4) g by auto
  note c = cached_cong [OF d, of u, unfolded u(1), OF d(2) refl no]
  have "(block_lock (blk u q) \<longleftrightarrow> q \<in> H) \<and> (\<not> pinned (blk u q) \<longrightarrow> q \<notin> H \<longrightarrow> data (blk u q) = disk u (sector (block_no (blk u q))))"
    if "q \<in> set (lru t)" for q
    using that f body u(3) p(2) by (cases "q = p") (auto simp: cache_body_def)
  then show "cache_body orep H m u" using body c(2) no u(1-3) by (simp add: cache_body_def)
  show "content u n = d" using c(1) p(1) f(1) by (simp add: content_def)
  have other: "q \<noteq> p" if "cached t k = Some q" "k \<noteq> n" for q k using that pn(2) by (auto simp: cached_iff [OF d(1)])
  show "k \<noteq> n \<Longrightarrow> content u k = content t k"
    using other f(2) u(3) by (auto simp: content_def c(1) split: option.split)
  show "pinned_no u k = (k = n \<or> pinned_no t k)"
    using other f p(1) by (cases "k = n") (auto simp: pinned_no_def c(1) split: option.split)
qed

lemma logged_len: "log_ok s \<Longrightarrow> may_log s c (Suc k) \<Longrightarrow>
    int (unat (hnum (header s))) < mx (log s) \<and> unat (hnum (header s)) < length (hblock (header s)) \<and> rm c > 0"
  by (auto simp: may_log_def log_ok_def word_less_nat_alt)

lemma edit_absorbed:
  assumes t: "cache_body orep (insert p H) m t" "cached t n = Some p" "may_log t c (Suc k)" "n \<in> set (logged t)" "p \<notin> H"
    and u: "u = t\<lparr>blk := (blk t)(p := (blk t p)\<lparr>data := d, acquired := False, block_lock := False\<rparr>)\<rparr>"
  shows "cache_body orep H m u" "edited t n d u" "may_log u c k" "q \<in> H \<Longrightarrow> blk u q = blk t q"
proof -
  have lg: "log_ok t" using t(3) by (simp add: may_log_def)
  have pin: "pinned (blk t p)" using lg t(2,4) by (auto simp: log_ok_def pinned_no_def)
  have pre: "lru u = lru t" "pool u = pool t" "disk u = disk t"
    "blk u = (blk t)(p := (blk t p)\<lparr>data := d, pinned := pinned (blk t p) \<or> False, acquired := False, block_lock := False\<rparr>)"
    using u by simp_all
  note E = edit_state [OF t(1,2,5) pre disjI1 [OF pin]]
  have same: "header u = header t" "log u = log t" "log_locked u = log_locked t" "history u = history t" "logged u = logged t"
    using u by (simp_all add: logged_def)
  show "q \<in> H \<Longrightarrow> blk u q = blk t q" using t(5) u by auto
  show "cache_body orep H m u" by (rule E(1))
  show "edited t n d u" using E(2,3) same pre(3) t(4) by (auto simp: edited_def)
  show "may_log u c k" using t(3) E(4) same by (auto simp: may_log_def log_ok_def)
qed

lemma edit_logged:
  assumes t: "cache_body orep (insert p H) m t" "cached t n = Some p" "may_log t c (Suc k)" "n \<notin> set (logged t)" "p \<notin> H"
    and u: "u = t\<lparr>header := (header t)\<lparr>hblock := (hblock (header t))[unat (hnum (header t)) := n], hnum := hnum (header t) + 1\<rparr>,
      log := (log t)\<lparr>mu := mu (log t) - 1\<rparr>,
      blk := (blk t)(p := (blk t p)\<lparr>data := d, pinned := True, acquired := False, block_lock := False\<rparr>)\<rparr>"
  shows "cache_body orep H m u" "edited t n d u" "may_log u (c\<lparr>rm := rm c - 1\<rparr>) k" "q \<in> H \<Longrightarrow> blk u q = blk t q"
proof -
  have lg: "log_ok t" using t(3) by (simp add: may_log_def)
  note K = logged_len [OF lg t(3)]
  have pre: "lru u = lru t" "pool u = pool t" "disk u = disk t"
    "blk u = (blk t)(p := (blk t p)\<lparr>data := d, pinned := pinned (blk t p) \<or> True, acquired := False, block_lock := False\<rparr>)"
    "pinned (blk t p) \<or> True"
    using u by simp_all
  note E = edit_state [OF t(1,2,5) pre]
  have len: "length (hblock (header t)) = LOG_MAX_SIZE" using lg by (simp add: log_ok_def)
  note L = logged_new [of "header t", OF _ len]
  have lu: "logged u = logged t @ [n]" "unat (hnum (header u)) = Suc (unat (hnum (header t)))"
    using L K u by (simp_all add: logged_def)
  have rm: "unat (rm c - 1) = unat (rm c) - 1" "unat (rm c) \<ge> 1"
    using K unat_minus_word [of 1 "rm c"] by (simp_all add: word_less_nat_alt word_le_nat_alt)
  show "q \<in> H \<Longrightarrow> blk u q = blk t q" using t(5) u by auto
  show "cache_body orep H m u" by (rule E(1))
  show "edited t n d u" using E(2,3) pre(3) lu u by (simp add: edited_def)
  have "log_ok u" using lg E(4) lu t(4) u by (auto simp: log_ok_def)
  then show "may_log u (c\<lparr>rm := rm c - 1\<rparr>) k" using t(3) rm u by (auto simp: may_log_def)
qed

lemma edit_rule:
  assumes t: "acq_rel H s n p t" "cache_ok orep (insert p H) m t" and c: "may_log s c (Suc k)"
    and K: "\<And>u c'. cache_ok orep H m u \<Longrightarrow> edited s n (f (content s n)) u \<Longrightarrow> may_log u c' k \<Longrightarrow>
      \<forall>q \<in> H. blk u q = blk s q \<Longrightarrow> runs (K (Some c')) u Q"
  shows "runs (andthen (upd_blk p (\<lambda>b. b\<lparr>data := f (data b)\<rparr>))
    (bind (cache_sync (Some c) p) (\<lambda>c'. andthen (cache_release p) (K c')))) t Q"
proof -
  note T = acq_relD [OF t(1)]
  have same: "header t = header s" "log t = log s" "log_locked t = log_locked s" "disk t = disk s" "history t = history s"
    using T(8) by (simp_all add: same_rest_def)
  then have lt: "logged t = logged s" by (simp add: logged_def)
  have ct: "may_log t c (Suc k)" using c same T(4) lt by (simp add: may_log_def log_ok_def)
  have st: "edited s n d u" if "edited t n d u" for d u using that same lt T(3) by (simp add: edited_def)
  let ?t = "t\<lparr>blk := (blk t)(p := (blk t p)\<lparr>data := f (data (blk t p))\<rparr>)\<rparr>"
  have body: "cache_body orep (insert p H) m t" "\<not> cache_locked t" using t(2) by (simp_all add: cache_ok_def)
  have n0: "block_no (blk t p) = n" using T(2) find_block_Some unfolding cached_def by fastforce
  then have n: "block_no (blk ?t p) = n" by simp
  have L: "log_ok t" "outstanding (log t) \<ge> 1" "\<not> log_locked t" using ct by (auto simp: may_log_def log_ok_def)
  note k = logged_len [OF L(1) ct]
  have lt': "logged ?t = logged t" by (simp add: logged_def)
  have "runs (bind (cache_sync (Some c) p) (\<lambda>c'. andthen (cache_release p) (K c'))) ?t Q"
  proof (cases "n \<in> set (logged t)")
    case True
    have "cache_sync (Some c) p ?t = Inr (Some c, ?t)"
      by (rule sync_absorb) (use True lt' n L k in simp_all)
    moreover have "runs (andthen (cache_release p) (K (Some c))) ?t Q"
      using edit_absorbed [OF body(1) T(2) ct True T(1) refl, where d = "f (data (blk t p))"] body(2) T(5,9)
      by (auto simp: wp cache_ok_def intro!: K st)
    ultimately show ?thesis by (simp add: runs_bind runs_def [of "cache_sync (Some c) p"])
  next
    case False
    let ?u = "?t\<lparr>header := (header ?t)\<lparr>hblock := (hblock (header ?t))[unat (hnum (header ?t)) := block_no (blk ?t p)],
        hnum := hnum (header ?t) + 1\<rparr>,
      blk := (blk ?t)(p := (blk ?t p)\<lparr>pinned := True\<rparr>), log := (log ?t)\<lparr>mu := mu (log ?t) - 1\<rparr>\<rparr>"
    have "cache_sync (Some c) p ?t = Inr (Some (c\<lparr>rm := rm c - 1\<rparr>), ?u)"
      by (rule sync_new) (use False lt' n L k in simp_all)
    moreover have "runs (andthen (cache_release p) (K (Some (c\<lparr>rm := rm c - 1\<rparr>)))) ?u Q"
      using edit_logged [OF body(1) T(2) ct False T(1) refl, where d = "f (data (blk t p))"] body(2) T(5,9)
      by (auto simp: wp n0 cache_ok_def intro!: K st)
    ultimately show ?thesis by (simp add: runs_bind runs_def [of "cache_sync (Some c) p"])
  qed
  then show ?thesis by (simp add: runs_andthen [of "upd_blk p _"] runs_cache_steps)
qed

text \<open>A block that was only read.\<close>

definition same_view :: "'a bcache \<Rightarrow> 'a bcache \<Rightarrow> bool" where
  "same_view s t \<longleftrightarrow> (\<forall>k. content t k = content s k \<and> pinned_no t k = pinned_no s k) \<and> same_rest s t"

lemma same_view_log: "same_view s t \<Longrightarrow> may_log t c k = may_log s c k" "same_view s t \<Longrightarrow> edited t n d u = edited s n d u"
  by (auto simp: same_view_def same_rest_def may_log_def log_ok_def edited_def logged_def)

lemma release_clean:
  assumes s: "cache_ok orep H m' s" and t: "acq_rel H s n p t" "cache_ok orep (insert p H) m t"
    and u: "u = t\<lparr>blk := (blk t)(p := (blk t p)\<lparr>acquired := False, block_lock := False\<rparr>)\<rparr>"
    and n: "\<forall>q \<in> H. cached s n \<noteq> Some q"
  shows "cache_ok orep H m u" "same_view s u" "q \<in> H \<Longrightarrow> blk u q = blk s q"
proof -
  note T = acq_relD [OF t(1)]
  have body: "cache_body orep (insert p H) m t" "\<not> cache_locked t" using t(2) by (simp_all add: cache_ok_def)
  have d: "distinct (map (\<lambda>p. block_no (blk t p)) (lru t))" "distinct (lru t)" using body by (simp_all add: cache_body_def)
  have p: "p \<in> set (lru t)" "block_no (blk t p) = n" using T(2) by (simp_all add: cached_iff [OF d(1)])
  have f: "lru u = lru t" "disk u = disk t" "pool u = pool t" "cache_locked u = cache_locked t" using u by simp_all
  have no: "block_no (blk u q) = block_no (blk t q)" "data (blk u q) = data (blk t q)" "pinned (blk u q) = pinned (blk t q)"
    "block_lock (blk u q) = (block_lock (blk t q) \<and> q \<noteq> p)" for q using u by simp_all
  note c = cached_cong [OF d, of u, unfolded f(1), OF d(2) refl no(1)]
  have "disk t = disk s" using T(8) by (simp add: same_rest_def)
  then have clean: "data (blk t p) = disk t (sector n)" if "\<not> pinned (blk t p)"
    using that clean_content [of orep H m' s n] s n T(9,10) by (auto simp: cache_ok_def)
  show "q \<in> H \<Longrightarrow> blk u q = blk s q" using T(1,5) u by auto
  show "cache_ok orep H m u"
    using body c(2) f no clean p T(1) unfolding cache_ok_def cache_body_def by auto
  have "content u k = content t k" "pinned_no u k = pinned_no t k" for k
    using c(1) no f by (simp_all add: content_def pinned_no_def split: option.split)
  then show "same_view s u" using T(3,4,8) u by (simp add: same_view_def same_rest_def)
qed

text \<open>
  The blocks in \<open>H\<close> are safe from eviction because there is room for another block. When no block is held, nothing is to be said;
  a pool that promises no more objects than the cache keeps without evicting is roomy for every \<open>H\<close>.
\<close>

definition roomy :: "('a \<Rightarrow> u64 set \<Rightarrow> nat \<Rightarrow> bool) \<Rightarrow> u64 set \<Rightarrow> bool" where
  "roomy orep H \<longleftrightarrow> (\<forall>m s. cache_ok orep H m s \<longrightarrow> 0 < m \<longrightarrow> H = {} \<or> length (lru s) < EVICTION_THRESHOLD)"

lemma roomy_empty [simp]: "roomy orep {}"
  by (simp add: roomy_def)

lemma cached_blk: "cached s n = Some p \<Longrightarrow> block_no (blk s p) = n"
  unfolding cached_def by (drule find_block_Some) simp

context object_pool
begin

lemma acquire_one:
  assumes "cache_ok orep H m s" "n < 2 ^ 32" "0 < m" "roomy orep H" "\<forall>q \<in> H. block_no (blk s q) \<noteq> n"
    and "\<And>p t m'. m \<le> Suc m' \<Longrightarrow> cache_ok orep (insert p H) m' t \<Longrightarrow> acq_rel H s n p t \<Longrightarrow> runs (K p) t Q"
  shows "runs (bind (cache_acquire A n) K) s Q"
  unfolding runs_bind
proof (rule runs_mono [OF acquire_spec [OF assms(1,2)]])
  show "p \<notin> H" if "cached s n = Some p" for p using that assms(5) cached_blk by blast
  show "0 < m \<and> (length (lru s) < EVICTION_THRESHOLD \<or> (\<forall>p \<in> H. pinned (blk s p) \<or> acquired (blk s p)))"
    using assms(1,3,4) unfolding roomy_def by blast
qed (use assms(6) in blast)

lemma edit_block:
  assumes "cache_ok orep H m s" "n < 2 ^ 32" "0 < m" "roomy orep H" "\<forall>q \<in> H. block_no (blk s q) \<noteq> n" "may_log s c (Suc k)"
    and "\<And>u c' m'. m \<le> Suc m' \<Longrightarrow> cache_ok orep H m' u \<Longrightarrow> edited s n (f (content s n)) u \<Longrightarrow> may_log u c' k \<Longrightarrow>
      \<forall>q \<in> H. blk u q = blk s q \<Longrightarrow> runs (K (Some c')) u Q"
  shows "runs (bind (cache_acquire A n) (\<lambda>p. andthen (upd_blk p (\<lambda>b. b\<lparr>data := f (data b)\<rparr>))
    (bind (cache_sync (Some c) p) (\<lambda>c'. andthen (cache_release p) (K c'))))) s Q"
  by (rule acquire_one [OF assms(1-5)]) (rule edit_rule [OF _ _ assms(6)], assumption, assumption, rule assms(7))

lemma bzero_spec:
  assumes "cache_ok orep H m s" "0 < m" "roomy orep H" "\<forall>q \<in> H. block_no (blk s q) \<noteq> ucast n" "may_log s c (Suc k)"
  shows "runs (bzero A (Some c) n) s (\<lambda>r u. \<exists>c' m'. r = Some c' \<and> m \<le> Suc m' \<and> cache_ok orep H m' u \<and>
    edited s (ucast n) (replicate BLOCK_SIZE 0) u \<and> may_log u c' k \<and> (\<forall>q \<in> H. blk u q = blk s q))"
proof -
  have "(ucast n :: u64) < 2 ^ 32"
    using unsigned_less [of n, where ?'a = nat] by (simp add: word_less_nat_alt unsigned_ucast_eq take_bit_nat_eq_self)
  then show ?thesis unfolding bzero_def
    by (rule edit_block [OF assms(1) _ assms(2-5), where f = "\<lambda>_. replicate BLOCK_SIZE 0" and K = ret]) (auto simp: wp)
qed

end

section \<open>The block bitmap\<close>

definition used_block :: "SuperBlock \<Rightarrow> 'a bcache \<Rightarrow> nat \<Rightarrow> bool" where
  "used_block sb s n = cell_get (content s (BBLOCK (of_nat n) sb)) (n mod BIT_PER_BLOCK)"

lemma byte_bit: "d ! (i div 8) AND 2 ^ (i mod 8) = 0 \<longleftrightarrow> \<not> cell_get (d :: u8 list) i"
  by (simp add: and_exp_eq_0_iff_not_bit cell_get_def)

lemma find_clear_spec:
  assumes "unat b + BIT_PER_BLOCK \<le> 2 ^ 32"
  shows "case find_clear d b n bi of
      Some i \<Rightarrow> bi \<le> i \<and> i < BIT_PER_BLOCK \<and> unat b + i < unat n \<and> \<not> cell_get d i \<and> (\<forall>j. bi \<le> j \<longrightarrow> j < i \<longrightarrow> cell_get d j)
    | None \<Rightarrow> \<forall>j. bi \<le> j \<longrightarrow> j < BIT_PER_BLOCK \<longrightarrow> unat b + j < unat n \<longrightarrow> cell_get d j"
  using assms
proof (induction d b n bi rule: find_clear.induct)
  case (1 d b n bi)
  have lt: "b + of_nat bi < n \<longleftrightarrow> unat b + bi < unat n" if "bi < BIT_PER_BLOCK"
  proof -
    have "unat (of_nat bi :: u32) = bi" using that by (intro unat_of_nat_lt) (simp add: BIT_PER_BLOCK_def BLOCK_SIZE_def)
    then have "unat (b + of_nat bi) = unat b + bi" using 1(2) that by (simp add: unat_word_ariths)
    then show ?thesis by (simp add: word_less_nat_alt)
  qed
  consider "\<not> (bi < BIT_PER_BLOCK \<and> b + of_nat bi < n)" | "bi < BIT_PER_BLOCK \<and> b + of_nat bi < n" "\<not> cell_get d bi"
    | "bi < BIT_PER_BLOCK \<and> b + of_nat bi < n" "cell_get d bi" by blast
  then show ?case
  proof cases
    case 1
    then show ?thesis using lt by (auto simp: find_clear.simps [of d b n bi])
  next
    case 2
    then show ?thesis using lt by (simp add: find_clear.simps [of d b n bi] byte_bit)
  next
    case 3
    then have eq: "find_clear d b n bi = find_clear d b n (Suc bi)" by (simp add: find_clear.simps [of d b n bi] byte_bit)
    have *: "(\<forall>j. Suc bi \<le> j \<longrightarrow> P j) \<Longrightarrow> P bi \<Longrightarrow> (\<forall>j. bi \<le> j \<longrightarrow> P j)" for P by (metis Suc_leI le_neq_implies_less)
    show ?thesis unfolding eq using "1.IH" [OF 3(1)] 3(2) "1.prems"
      by (auto simp: byte_bit split: option.splits) (metis Suc_leI le_neq_implies_less)+
  qed
qed

definition bitmap_ok :: "SuperBlock \<Rightarrow> 'a bcache \<Rightarrow> bool" where
  "bitmap_ok sb s \<longleftrightarrow> unat (num_blocks sb) + BIT_PER_BLOCK \<le> 2 ^ 32 \<and>
     unat (bitmap_start sb) + unat (num_blocks sb) div BIT_PER_BLOCK < 2 ^ 32 \<and>
     (\<forall>n < unat (num_blocks sb). length (content s (BBLOCK (of_nat n) sb)) = BLOCK_SIZE)"

definition alloc_post :: "SuperBlock \<Rightarrow> 'a bcache \<Rightarrow> nat \<Rightarrow> nat \<Rightarrow> 'a bcache \<Rightarrow> bool" where
  "alloc_post sb s b n u \<longleftrightarrow> b \<le> n \<and> n < unat (num_blocks sb) \<and> \<not> used_block sb s n \<and>
     (\<forall>j. b \<le> j \<longrightarrow> j < n \<longrightarrow> used_block sb s j) \<and>
     (\<exists>t. edited s (BBLOCK (of_nat n) sb) (cell_set (content s (BBLOCK (of_nat n) sb)) (n mod BIT_PER_BLOCK)) t \<and>
        edited t (of_nat n) (replicate BLOCK_SIZE 0) u)"

lemma unat_BBLOCK:
  assumes "n < 2 ^ 32"
  shows "unat (BBLOCK (of_nat n) sb) = n div BIT_PER_BLOCK + unat (bitmap_start sb)"
proof -
  have 1: "unat (of_nat n :: u64) = n" "unat (of_nat BIT_PER_BLOCK :: u64) = BIT_PER_BLOCK"
    using assms by (intro unat_of_nat_lt, simp add: BIT_PER_BLOCK_def BLOCK_SIZE_def)+
  have 2: "unat (ucast (bitmap_start sb) :: u64) = unat (bitmap_start sb)" "unat (bitmap_start sb) < 2 ^ 32"
    using unsigned_less [of "bitmap_start sb", where ?'a = nat] by (simp_all add: unsigned_ucast_eq take_bit_nat_eq_self)
  have "n div BIT_PER_BLOCK < 2 ^ 32" using assms by (rule le_less_trans [OF div_le_dividend])
  then have "n div BIT_PER_BLOCK + unat (bitmap_start sb) < 2 ^ 64" using 2(2) by simp
  then show ?thesis by (simp add: BBLOCK_def unat_word_ariths unat_div_distrib 1 2 del: of_nat_numeral)
qed

lemma BBLOCK_same:
  assumes "unat b mod BIT_PER_BLOCK = 0" "i < BIT_PER_BLOCK" "unat b + i < 2 ^ 32"
  shows "BBLOCK (of_nat (unat b + i)) sb = BBLOCK (ucast (b :: u32)) sb" "(unat b + i) mod BIT_PER_BLOCK = i"
proof -
  have "unat (BBLOCK (of_nat (unat b + i)) sb) = unat (BBLOCK (of_nat (unat b)) sb)"
    using assms by (simp only: unat_BBLOCK) (simp add: div_add1_eq div_eq_0_iff)
  then show "BBLOCK (of_nat (unat b + i)) sb = BBLOCK (ucast b) sb" by (simp add: word_unat_eq_iff of_nat_unat)
  show "(unat b + i) mod BIT_PER_BLOCK = i" using assms by (metis add.left_neutral mod_add_left_eq mod_less)
qed

text \<open>Blocks that the allocation of a block does not touch: no bitmap blocks, and blocks in use.\<close>

definition apart :: "SuperBlock \<Rightarrow> u64 set \<Rightarrow> 'a bcache \<Rightarrow> bool" where
  "apart sb H s \<longleftrightarrow> (\<forall>q \<in> H. \<forall>j < unat (num_blocks sb). block_no (blk s q) \<noteq> BBLOCK (of_nat j) sb \<and>
     (\<not> used_block sb s j \<longrightarrow> block_no (blk s q) \<noteq> of_nat j))"

lemma apart_empty [simp]: "apart sb {} s"
  by (simp add: apart_def)

lemma cell_set_byte: "d[i div 8 := d ! (i div 8) OR push_bit (i mod 8) 1] = cell_set (d :: u8 list) i"
  by (simp add: cell_set_def)

context object_pool
begin

lemma alloc_found:
  assumes t: "cache_ok orep (insert p H) m t" "acq_rel H s (BBLOCK (of_nat n) sb) p t" "0 < m" "may_log s c (Suc (Suc k))"
    and H: "roomy orep H" "apart sb H s"
    and n: "n = unat b + bi" "n mod BIT_PER_BLOCK = bi" "b \<le> b + of_nat bi" "unat (b + of_nat bi) = n" "n < unat (num_blocks sb)"
      "\<not> used_block sb s n" "\<And>j. unat b \<le> j \<Longrightarrow> j < n \<Longrightarrow> used_block sb s j"
  shows "runs (andthen (upd_blk p (\<lambda>k. k\<lparr>data := (data k)[bi div 8 := data k ! (bi div 8) OR push_bit (bi mod 8) 1]\<rparr>))
      (bind (cache_sync (Some c) p) (\<lambda>ctx1. andthen (cache_release p)
        (bind (bzero A ctx1 (b + of_nat bi)) (\<lambda>ctx2. ret (b + of_nat bi, ctx2)))))) t
    (\<lambda>(r, c') u. \<exists>n d m'. r = of_nat n \<and> c' = Some d \<and> m \<le> Suc m' \<and> cache_ok orep H m' u \<and> may_log u d k \<and> alloc_post sb s (unat b) n u \<and>
      (\<forall>q \<in> H. blk u q = blk s q))"
proof (rule edit_rule [OF t(2,1,4), where f = "\<lambda>d. d[bi div 8 := d ! (bi div 8) OR push_bit (bi mod 8) 1]"])
  fix u c'
  assume u: "cache_ok orep H m u" "edited s (BBLOCK (of_nat n) sb) ((content s (BBLOCK (of_nat n) sb))[bi div 8 :=
      content s (BBLOCK (of_nat n) sb) ! (bi div 8) OR push_bit (bi mod 8) 1]) u" "may_log u c' (Suc k)"
    "\<forall>q \<in> H. blk u q = blk s q"
  have w: "b + of_nat bi = of_nat n" "ucast (b + of_nat bi) = (of_nat n :: u64)"
    unfolding n(4) [symmetric] by (simp_all only: of_nat_unat ucast_id)
  have nH: "\<forall>q \<in> H. block_no (blk u q) \<noteq> ucast (b + of_nat bi)" using H(2) u(4) n(5,6) w(2) by (simp add: apart_def)
  show "runs (bind (bzero A (Some c') (b + of_nat bi)) (\<lambda>ctx2. ret (b + of_nat bi, ctx2))) u
    (\<lambda>(r, c') u. \<exists>n d m'. r = of_nat n \<and> c' = Some d \<and> m \<le> Suc m' \<and> cache_ok orep H m' u \<and> may_log u d k \<and> alloc_post sb s (unat b) n u \<and>
      (\<forall>q \<in> H. blk u q = blk s q))"
    unfolding runs_bind
  proof (rule runs_mono [OF bzero_spec [OF u(1) t(3) H(1) nH u(3)]], elim exE conjE)
    fix a v d m'
    assume v: "a = Some d" "m \<le> Suc m'" "cache_ok orep H m' v" "edited u (ucast (b + of_nat bi)) (replicate BLOCK_SIZE 0) v" "may_log v d k"
      "\<forall>q \<in> H. blk v q = blk u q"
    have "alloc_post sb s (unat b) n v"
      unfolding alloc_post_def using u(2) v(4) n w(2) by (auto simp: cell_set_byte [symmetric])
    then show "runs (ret (b + of_nat bi, a)) v (\<lambda>(r, c') u. \<exists>n d m'. r = of_nat n \<and> c' = Some d \<and> m \<le> Suc m' \<and> cache_ok orep H m' u \<and>
        may_log u d k \<and> alloc_post sb s (unat b) n u \<and> (\<forall>q \<in> H. blk u q = blk s q))"
      using v w(1) u(4) by (auto simp: wp)
  qed
qed

lemma alloc_from_spec:
  assumes "cache_ok orep H m s" "bitmap_ok sb s" "may_log s c (Suc (Suc k))" "unat b mod BIT_PER_BLOCK = 0"
    "\<exists>n. unat b \<le> n \<and> n < unat (num_blocks sb) \<and> \<not> used_block sb s n"
    "(unat (num_blocks sb) - unat b) div BIT_PER_BLOCK + 3 \<le> m" "roomy orep H" "apart sb H s"
  shows "runs (alloc_from A sb (Some c) b) s (\<lambda>(r, c') u. \<exists>n d m'. r = of_nat n \<and> c' = Some d \<and> cache_ok orep H m' u \<and>
    may_log u d k \<and> alloc_post sb s (unat b) n u \<and> (\<forall>q \<in> H. blk u q = blk s q) \<and> m \<le> m' + (unat (num_blocks sb) - unat b) div BIT_PER_BLOCK + 3)"
  using assms
proof (induction "unat (num_blocks sb) - unat b" arbitrary: b s m rule: less_induct)
  case less
  let ?P = "\<lambda>b s m (r, c') u. \<exists>n d m'. r = of_nat n \<and> c' = Some d \<and> cache_ok orep H m' u \<and>
    may_log u d k \<and> alloc_post sb s (unat b) n u \<and> (\<forall>q \<in> H. blk u q = blk s q) \<and> m \<le> m' + (unat (num_blocks sb) - unat b) div BIT_PER_BLOCK + 3"
  let ?n = "unat (num_blocks sb)" and ?B = "BBLOCK (ucast b) sb"
  obtain n0 where n0: "unat b \<le> n0" "n0 < ?n" "\<not> used_block sb s n0" using less.prems(5) by blast
  have nb: "?n + BIT_PER_BLOCK \<le> 2 ^ 32" using less.prems(2) by (simp add: bitmap_ok_def)
  have b: "b < num_blocks sb" using n0(1,2) by (simp add: word_less_nat_alt)
  have same: "BBLOCK (of_nat (unat b + i)) sb = ?B" "(unat b + i) mod BIT_PER_BLOCK = i" if "i < BIT_PER_BLOCK" for i
    using BBLOCK_same [OF less.prems(4) that] b nb that by (auto simp: word_less_nat_alt)
  have B: "?B < 2 ^ 32"
  proof -
    have "unat ?B = unat b div BIT_PER_BLOCK + unat (bitmap_start sb)"
      using same(1) [of 0] unat_BBLOCK [of "unat b" sb] b nb by (simp add: word_less_nat_alt BIT_PER_BLOCK_def BLOCK_SIZE_def)
    moreover have "unat b div BIT_PER_BLOCK \<le> ?n div BIT_PER_BLOCK" using b by (intro div_le_mono) (simp add: word_less_nat_alt)
    ultimately show ?thesis using less.prems(2) by (simp add: bitmap_ok_def word_less_nat_alt)
  qed
  have fc: "unat b + BIT_PER_BLOCK \<le> 2 ^ 32" using b nb by (simp add: word_less_nat_alt)
  have noH: "\<forall>q \<in> H. block_no (blk s q) \<noteq> ?B"
  proof
    fix q assume q: "q \<in> H"
    have "block_no (blk s q) \<noteq> BBLOCK (of_nat (unat b)) sb" using less.prems(8) q b unfolding apart_def word_less_nat_alt by blast
    then show "block_no (blk s q) \<noteq> ?B" using same(1) [of 0] by (simp add: BIT_PER_BLOCK_def BLOCK_SIZE_def)
  qed
  then have notH: "\<forall>q \<in> H. cached s ?B \<noteq> Some q" using cached_blk by blast
  have used: "used_block sb s (unat b + i) = cell_get (content s ?B) i" if "i < BIT_PER_BLOCK" for i
    using same [OF that] by (simp add: used_block_def)
  have "runs (bind (gets (\<lambda>s. data (blk s p))) (\<lambda>d.
          case find_clear d b (num_blocks sb) 0 of
            Some bi \<Rightarrow>
              andthen (upd_blk p (\<lambda>k. k\<lparr>data := (data k)[bi div 8 := data k ! (bi div 8) OR push_bit (bi mod 8) 1]\<rparr>))
              (bind (cache_sync (Some c) p) (\<lambda>ctx1.
              andthen (cache_release p)
              (bind (bzero A ctx1 (b + of_nat bi)) (\<lambda>ctx2.
                 ret (b + of_nat bi, ctx2)))))
          | None \<Rightarrow>
              andthen (cache_release p)
                (if b < b + of_nat BIT_PER_BLOCK then alloc_from A sb (Some c) (b + of_nat BIT_PER_BLOCK)
                 else fail Blocked))) t (?P b s m)"
    if t: "m \<le> Suc m'" "cache_ok orep (insert p H) m' t" "acq_rel H s ?B p t" for p t m'
  proof (cases "find_clear (content s ?B) b (num_blocks sb) 0")
    case (Some bi)
    note F = find_clear_spec [OF fc, where d = "content s ?B" and n = "num_blocks sb" and bi = 0, unfolded Some option.case]
    have ub: "unat (b + of_nat bi) = unat b + bi"
      using F fc by (simp add: unat_word_ariths unat_of_nat_lt BIT_PER_BLOCK_def BLOCK_SIZE_def)
    have below: "used_block sb s j" if "unat b \<le> j" "j < unat b + bi" for j
      using used [of "j - unat b"] F that by auto
    have "runs (andthen (upd_blk p (\<lambda>k. k\<lparr>data := (data k)[bi div 8 := data k ! (bi div 8) OR push_bit (bi mod 8) 1]\<rparr>))
      (bind (cache_sync (Some c) p) (\<lambda>ctx1. andthen (cache_release p)
        (bind (bzero A ctx1 (b + of_nat bi)) (\<lambda>ctx2. ret (b + of_nat bi, ctx2)))))) t (?P b s m)"
    proof (rule runs_mono)
      show "runs (andthen (upd_blk p (\<lambda>k. k\<lparr>data := (data k)[bi div 8 := data k ! (bi div 8) OR push_bit (bi mod 8) 1]\<rparr>))
        (bind (cache_sync (Some c) p) (\<lambda>ctx1. andthen (cache_release p)
          (bind (bzero A ctx1 (b + of_nat bi)) (\<lambda>ctx2. ret (b + of_nat bi, ctx2)))))) t
        (\<lambda>(r, c') u. \<exists>n d m''. r = of_nat n \<and> c' = Some d \<and> m' \<le> Suc m'' \<and> cache_ok orep H m'' u \<and> may_log u d k \<and>
          alloc_post sb s (unat b) n u \<and> (\<forall>q \<in> H. blk u q = blk s q))"
        by (rule alloc_found [OF t(2), where n = "unat b + bi"])
          (use t less.prems(3,6,7,8) F same [of bi] used [of bi] ub below in \<open>simp_all add: word_le_nat_alt\<close>)
    qed (use t(1) in force)
    then show ?thesis using Some acq_relD(9) [OF t(3)] by (simp add: runs_bind [of "gets _"] runs_gets)
  next
    case None
    note F = find_clear_spec [OF fc, where d = "content s ?B" and n = "num_blocks sb" and bi = 0, unfolded None option.case]
    have full: "used_block sb s j" if "unat b \<le> j" "j < unat b + BIT_PER_BLOCK" "j < ?n" for j
      using used [of "j - unat b"] F that by auto
    then have far: "unat b + BIT_PER_BLOCK \<le> n0" using n0 by (meson not_le)
    have ub: "unat (b + of_nat BIT_PER_BLOCK) = unat b + BIT_PER_BLOCK"
      using far n0(2) nb by (simp add: unat_word_ariths unat_of_nat_lt BIT_PER_BLOCK_def BLOCK_SIZE_def)
    let ?b = "b + of_nat BIT_PER_BLOCK" and ?u = "t\<lparr>blk := (blk t)(p := (blk t p)\<lparr>acquired := False, block_lock := False\<rparr>)\<rparr>"
    note R = release_clean [OF less.prems(1) t(3,2) refl notH]
    have view: "content ?u k = content s k" for k using R(2) by (simp add: same_view_def)
    have usame: "used_block sb ?u j = used_block sb s j" for j using view by (simp add: used_block_def)
    have "(?n - unat b) div BIT_PER_BLOCK = Suc ((?n - unat ?b) div BIT_PER_BLOCK)"
      using far n0(2) unfolding ub by (subst le_div_geq) (simp_all add: BIT_PER_BLOCK_def BLOCK_SIZE_def)
    then have m': "(?n - unat ?b) div BIT_PER_BLOCK + 3 \<le> m'" "m' \<le> x + (?n - unat ?b) div BIT_PER_BLOCK + 3 \<Longrightarrow>
        m \<le> x + (?n - unat b) div BIT_PER_BLOCK + 3" for x using less.prems(6) t(1) by simp_all
    have "runs (alloc_from A sb (Some c) ?b) ?u (?P ?b ?u m')"
    proof (rule less.hyps [OF _ R(1) _ _ _ _ m'(1) less.prems(7)])
      show "?n - unat ?b < ?n - unat b" "\<exists>n \<ge> unat ?b. n < ?n \<and> \<not> used_block sb ?u n"
        using ub far n0 usame by (auto simp: BIT_PER_BLOCK_def BLOCK_SIZE_def)
      show "unat ?b mod BIT_PER_BLOCK = 0" using ub less.prems(4) by simp
      show "bitmap_ok sb ?u" using less.prems(2) view by (simp add: bitmap_ok_def)
      show "may_log ?u c (Suc (Suc k))" using less.prems(3) same_view_log(1) [OF R(2)] by simp
      show "apart sb H ?u" using less.prems(8) R(3) usame by (simp add: apart_def)
    qed
    moreover have "alloc_post sb s (unat b) n v" if "alloc_post sb ?u (unat ?b) n v" for n v
      using that full ub usame view unfolding alloc_post_def same_view_log(2) [OF R(2)]
      by (auto simp: not_less) (metis not_le order.strict_trans)
    ultimately have "runs (alloc_from A sb (Some c) ?b) ?u (?P b s m)" using m'(2) R(3) by (elim runs_mono) fastforce
    moreover have "b < ?b" using ub by (simp add: word_less_nat_alt BIT_PER_BLOCK_def BLOCK_SIZE_def)
    ultimately show ?thesis using None acq_relD(9) [OF t(3)] by (simp add: wp)
  qed
  then show ?case
    by (subst alloc_from.simps, simp only: b if_True) (rule acquire_one [OF less.prems(1) B _ less.prems(7) noH], use less.prems(6) in simp_all)
qed

lemma free_spec:
  assumes "cache_ok orep {} m s" "0 < m" "bitmap_ok sb s" "may_log s c (Suc k)" "n < unat (num_blocks sb)"
  shows "used_block sb s n \<Longrightarrow> runs (cache_free A sb (Some c) (of_nat n)) s (\<lambda>r u. \<exists>c' m'. r = Some c' \<and> m \<le> Suc m' \<and>
      cache_ok orep {} m' u \<and> may_log u c' k \<and>
      edited s (BBLOCK (of_nat n) sb) (cell_clear (content s (BBLOCK (of_nat n) sb)) (n mod BIT_PER_BLOCK)) u)"
    "\<not> used_block sb s n \<Longrightarrow> cache_free A sb (Some c) (of_nat n) s = Inl (Panic ''freeing free block'')"
proof -
  let ?B = "BBLOCK (of_nat n) sb" and ?i = "n mod BIT_PER_BLOCK"
  have n: "n < 2 ^ 32" using assms(3,5) by (simp add: bitmap_ok_def)
  have "n div BIT_PER_BLOCK \<le> unat (num_blocks sb) div BIT_PER_BLOCK" using assms(5) by (intro div_le_mono) simp
  then have B: "?B < 2 ^ 32" using assms(3) unat_BBLOCK [OF n, of sb] by (simp add: bitmap_ok_def word_less_nat_alt)
  have i: "unat ((of_nat n :: u64) mod of_nat BIT_PER_BLOCK) = ?i"
    using n by (simp add: unat_mod_distrib unat_of_nat_lt BIT_PER_BLOCK_def BLOCK_SIZE_def)
  have f: "d[?i div 8 := d ! (?i div 8) AND NOT (push_bit (?i mod 8) 1)] = cell_clear d ?i" for d :: "u8 list"
    by (simp add: cell_clear_def)
  let ?K = "\<lambda>p. andthen (upd_blk p (\<lambda>k. k\<lparr>data := (data k)[?i div 8 := data k ! (?i div 8) AND NOT (push_bit (?i mod 8) 1)]\<rparr>))
    (bind (cache_sync (Some c) p) (\<lambda>ctx'. andthen (cache_release p) (ret ctx')))"
  have eq: "cache_free A sb (Some c) (of_nat n) = bind (cache_acquire A ?B) (\<lambda>p.
      andthen (guard_cm (Panic ''freeing free block'') (\<lambda>s. cell_get (data (blk s p)) ?i)) (?K p))"
    using byte_bit [of _ ?i] unfolding cache_free_def i Let_def by simp
  show "runs (cache_free A sb (Some c) (of_nat n)) s (\<lambda>r u. \<exists>c' m'. r = Some c' \<and> m \<le> Suc m' \<and> cache_ok orep {} m' u \<and>
      may_log u c' k \<and> edited s ?B (cell_clear (content s ?B) ?i) u)" if u: "used_block sb s n"
    unfolding eq
  proof (rule acquire_one [OF assms(1) B assms(2) roomy_empty], simp)
    fix p t m'
    assume t: "m \<le> Suc m'" "cache_ok orep {p} m' t" "acq_rel {} s ?B p t"
    then have t2: "cache_ok orep (insert p {}) m' t" by simp
    have "runs (?K p) t (\<lambda>r u. \<exists>c' m'. r = Some c' \<and> m \<le> Suc m' \<and> cache_ok orep {} m' u \<and>
      may_log u c' k \<and> edited s ?B (cell_clear (content s ?B) ?i) u)"
      by (rule edit_rule [OF t(3) t2 assms(4), where f = "\<lambda>d. d[?i div 8 := d ! (?i div 8) AND NOT (push_bit (?i mod 8) 1)]"])
        (use t(1) f in \<open>auto simp: wp\<close>)
    then show "runs (andthen (guard_cm (Panic ''freeing free block'') (\<lambda>s. cell_get (data (blk s p)) ?i)) (?K p)) t
      (\<lambda>r u. \<exists>c' m'. r = Some c' \<and> m \<le> Suc m' \<and> cache_ok orep {} m' u \<and>
      may_log u c' k \<and> edited s ?B (cell_clear (content s ?B) ?i) u)"
      unfolding runs_andthen [of "guard_cm _ _"] runs_guard using u acq_relD(9) [OF t(3)] by (simp add: used_block_def)
  qed
  show "cache_free A sb (Some c) (of_nat n) s = Inl (Panic ''freeing free block'')" if u: "\<not> used_block sb s n"
  proof -
    obtain p t where t: "cache_acquire A ?B s = Inr (p, t)" "acq_rel {} s ?B p t"
      using acquire_spec [OF assms(1) B] assms(2) by (auto simp: runs_def)
    then have "\<not> cell_get (data (blk t p)) ?i" using u acq_relD(9) [OF t(2)] by (simp add: used_block_def)
    then show ?thesis unfolding eq by (simp add: cm_simps t(1))
  qed
qed

end

section \<open>A block that eviction does not spare\<close>

lemma evict_skip:
  assumes "\<forall>q \<in> set qs. pinned (blk s q) \<or> acquired (blk s q)"
  shows "evict A sz (qs @ rs) s = (if sz \<ge> EVICTION_THRESHOLD then evict A sz rs s else Inr ((), s))"
  using assms by (induction qs) (cases rs; auto simp: cm_simps)+

lemma evict_only:
  assumes "\<forall>q \<in> set qs. pinned (blk s q) \<or> acquired (blk s q)" "\<not> pinned (blk s p)" "\<not> acquired (blk s p)"
    and "sz \<ge> EVICTION_THRESHOLD" "ofree A p (pool s) = Inr k"
  shows "evict A sz (qs @ [p]) s = Inr ((), s\<lparr>lru := remove1 p (lru s), pool := k\<rparr>)"
  using assms by (simp add: evict_skip cm_simps)

text \<open>Such a block goes first, and acquiring goes on as if it had not been there.\<close>

lemma acquire_evicts:
  assumes "cached t n = None" "lru t = p # ps" "p \<notin> set ps" "\<not> cache_locked t" "\<not> pinned (blk t p)" "\<not> acquired (blk t p)"
    and "\<forall>q \<in> set ps. pinned (blk t q) \<or> acquired (blk t q)" "length (lru t) \<ge> EVICTION_THRESHOLD" "ofree A p (pool t) = Inr k"
  shows "cache_acquire A n t = cache_acquire A n (t\<lparr>lru := ps, pool := k\<rparr>)"
proof -
  have f: "find_block (blk t) n (p # ps) = None" "find_block (blk t) n ps = None"
    using assms(1,2) by (auto simp: cached_def split: if_splits)
  have e: "evict A (length (lru t)) (rev ps @ [p]) (t\<lparr>cache_locked := True\<rparr>) = Inr ((), t\<lparr>lru := ps, pool := k, cache_locked := True\<rparr>)"
    by (subst evict_only [where k = k]) (use assms in simp_all)
  have e': "evict A (length ps) (rev ps) (t\<lparr>lru := ps, pool := k, cache_locked := True\<rparr>) = Inr ((), t\<lparr>lru := ps, pool := k, cache_locked := True\<rparr>)"
    using evict_skip [of "rev ps" "t\<lparr>lru := ps, pool := k, cache_locked := True\<rparr>" A "length ps" "[]"] assms(7) by (simp add: cm_simps)
  show ?thesis using assms(2,4,8) f e e' unfolding cache_acquire_def
    by (simp add: cm_simps lock_cache_def get_num_cached_blocks_def)
qed

text \<open>The rest of the cache is in order without it.\<close>

lemma held_dropped:
  assumes s: "cache_ok orep H m s" and p: "cached s n = Some p" "p \<notin> H" and k: "orep k (set (lru s) - {p}) m'"
  shows "cache_ok orep H m' (s\<lparr>lru := remove1 p (lru s), blk := (blk s)(p := b), pool := k\<rparr>)"
    "cached (s\<lparr>lru := remove1 p (lru s), blk := (blk s)(p := b), pool := k\<rparr>) n = None"
proof -
  have d: "distinct (map (\<lambda>p. block_no (blk s p)) (lru s))" "distinct (lru s)" using s by (simp_all add: cache_ok_def cache_body_def)
  have r: "set (remove1 p (lru s)) = set (lru s) - {p}" using d(2) by simp
  have m: "map (\<lambda>q. block_no (if q = p then b else blk s q)) (remove1 p (lru s)) = map (\<lambda>q. block_no (blk s q)) (remove1 p (lru s))"
    using r by auto
  have i: "inj_on (\<lambda>q. block_no (blk s q)) (set (lru s))" using d(1) by (simp add: distinct_map)
  have "distinct (map (\<lambda>q. block_no (blk s q)) (remove1 p (lru s)))"
    using d(2) inj_on_subset [OF i, of "set (remove1 p (lru s))"] r by (auto simp: distinct_map)
  then have "distinct (map (\<lambda>q. block_no (if q = p then b else blk s q)) (remove1 p (lru s)))" unfolding m .
  then show "cache_ok orep H m' (s\<lparr>lru := remove1 p (lru s), blk := (blk s)(p := b), pool := k\<rparr>)"
    using s p(2) k r d(2) by (auto simp: cache_ok_def cache_body_def)
  show "cached (s\<lparr>lru := remove1 p (lru s), blk := (blk s)(p := b), pool := k\<rparr>) n = None"
    using i p(1) r by (auto simp: cached_None cached_iff [OF d(1)] inj_on_def)
qed

section \<open>An example state\<close>

text \<open>An empty cache over a zeroed disk, with one operation that has just begun.\<close>

definition cache0 :: "PMemory arena_st bcache" where
  "cache0 = (cache1 0 arena0)\<lparr>lru := [], header := \<lparr>hnum = 0, hblock = replicate 63 0\<rparr>,
     log := \<lparr>outstanding = 1, committing = False, mu = 10, mx = 39\<rparr>\<rparr>"

definition ctx0 :: OpContext where "ctx0 = \<lparr>ts = 1, rm = 10\<rparr>"

lemma cache0_ok: "cache_ok (pool_rep 0xffff000000100000 0) {} 6 cache0"
  using pool0 by (simp add: cache0_def cache1_def cache_ok_def cache_body_def)

lemma cache0_cached: "cached cache0 n = None"
  by (simp add: cached_def cache0_def)

lemma cache0_content: "content cache0 n = replicate BLOCK_SIZE 0"
  by (simp add: content_def cache0_cached) (simp add: cache0_def cache1_def)

lemma cache0_log: "may_log cache0 ctx0 (Suc (Suc 0))"
  by (simp add: may_log_def log_ok_def logged_def cache0_def cache1_def ctx0_def LOG_MAX_SIZE_def BLOCK_SIZE_def)

lemma cache0_bitmap: "bitmap_ok sb1 cache0"
  by (simp add: bitmap_ok_def cache0_content sb1_def BIT_PER_BLOCK_def BLOCK_SIZE_def)

lemma cell_get_zero: "i < 8 * n \<Longrightarrow> \<not> cell_get (replicate n 0 :: u8 list) i"
  by (simp add: cell_get_def less_mult_imp_div_less mult.commute)

lemma cache0_unused: "\<not> used_block sb1 cache0 n"
  unfolding used_block_def cache0_content
  by (rule cell_get_zero) (simp add: BIT_PER_BLOCK_def BLOCK_SIZE_def)

lemma txn0: "txn_ok (cache0, [ctx0])"
  by (simp add: txn_ok_def logged_def cache0_def cache1_def ctx0_def LOG_MAX_SIZE_def BLOCK_SIZE_def)

text \<open>A full cache of twenty blocks, of which all but the last are pinned. Four free pages hold the arena.\<close>

lemma add_page: "pm_rep kend m F \<Longrightarrow> valid_page kend p \<Longrightarrow> p \<notin> set F \<Longrightarrow> \<exists>m'. pm_rep kend m' (p # F)"
  using pm.free_page [of kend m F p 0] by auto

lemma pool4: "\<exists>k. pool_rep 0xffff000000100000 0 k {} 24"
proof -
  have v: "valid_page 0xffff000000100000 0xffff000000101000" "valid_page 0xffff000000100000 0xffff000000102000"
    "valid_page 0xffff000000100000 0xffff000000103000"
    by (simp_all add: valid_page_def aligned_def PAGE_SIZE_def P2K_phystop)
  obtain m1 where "pm_rep 0xffff000000100000 m1 [0xffff000000101000, 0xffff000000100000]"
    using add_page [OF one_page_rep v(1)] by auto
  from add_page [OF this v(2)] obtain m2 where
    "pm_rep 0xffff000000100000 m2 [0xffff000000102000, 0xffff000000101000, 0xffff000000100000]" by auto
  from add_page [OF this v(3)] obtain m where
    m: "pm_rep 0xffff000000100000 m [0xffff000000103000, 0xffff000000102000, 0xffff000000101000, 0xffff000000100000]" by auto
  let ?F = "[0xffff000000103000, 0xffff000000102000, 0xffff000000101000, 0xffff000000100000] :: u64 list"
  have "arena_sys 0xffff000000100000 0 (arena0\<lparr>ker := m\<rparr>) [] ?F"
    using m by (simp add: arena_sys_def arena_inv_def arena_core_def arena_list_def full_last_def sizes_ok_def
        hdr_typed_def arena0_def init_spinlock_def)
  then show ?thesis unfolding pool_rep_def
    by (intro exI [of _ "arena0\<lparr>ker := m\<rparr>"] exI [of _ "[]"] exI [of _ ?F]) (simp add: objects_def allocated_def arena0_def)
qed

lemma pool_takes:
  assumes "\<exists>k. pool_rep kend self k {} (n + m)"
  shows "\<exists>ps k. length ps = n \<and> distinct ps \<and> pool_rep kend self k (set ps) m"
  using assms
proof (induction n arbitrary: m)
  case (Suc n)
  then obtain ps k where k: "length ps = n" "distinct ps" "pool_rep kend self k (set ps) (Suc m)"
    using Suc.IH [of "Suc m"] Suc.prems unfolding add_Suc_right add_Suc by blast
  from ap.pool_alloc [OF k(3), of 0] obtain p k' where "p \<notin> set ps" "pool_rep kend self k' (insert p (set ps)) m" by blast
  then show ?case using k by (intro exI [of _ "p # ps"] exI [of _ k']) simp
qed auto

definition cache20 :: "u64 list \<Rightarrow> PMemory arena_st \<Rightarrow> PMemory arena_st bcache" where
  "cache20 ps k = (cache1 0 k)\<lparr>lru := ps, blk := (\<lambda>q. \<lparr>block_no = of_nat (length (takeWhile (\<lambda>p. p \<noteq> q) ps)),
     acquired = False, pinned = (q \<noteq> last ps), block_lock = False, valid = True, data = replicate BLOCK_SIZE 0\<rparr>)\<rparr>"

lemma takeWhile_nth: "distinct ps \<Longrightarrow> i < length ps \<Longrightarrow> length (takeWhile (\<lambda>p. p \<noteq> ps ! i) ps) = i"
  by (induction ps arbitrary: i) (auto simp: nth_Cons split: nat.split)

lemma cache20_blk:
  assumes "distinct ps" "i < length ps"
  shows "block_no (blk (cache20 ps k) (ps ! i)) = of_nat i" "pinned (blk (cache20 ps k) (ps ! i)) \<longleftrightarrow> i \<noteq> length ps - 1"
    "\<not> acquired (blk (cache20 ps k) (ps ! i))"
proof -
  have "last ps = ps ! (length ps - 1)" "length ps - 1 < length ps" using assms(2) by (cases "ps = []"; simp add: last_conv_nth)+
  then have "ps ! i = last ps \<longleftrightarrow> i = length ps - 1" using nth_eq_iff_index_eq [OF assms] by simp
  then show "block_no (blk (cache20 ps k) (ps ! i)) = of_nat i" "pinned (blk (cache20 ps k) (ps ! i)) \<longleftrightarrow> i \<noteq> length ps - 1"
    "\<not> acquired (blk (cache20 ps k) (ps ! i))" using takeWhile_nth [OF assms] by (simp_all add: cache20_def)
qed

lemma cache20_ok:
  assumes "distinct ps" "length ps = 20" "pool_rep kend self k (set ps) m"
  shows "cache_ok (pool_rep kend self) {} m (cache20 ps k)"
proof -
  have m: "map (\<lambda>p. block_no (blk (cache20 ps k) p)) ps = map of_nat [0 ..< 20]"
    by (rule nth_equalityI) (use assms cache20_blk(1) in simp_all)
  have f: "lru (cache20 ps k) = ps" "pool (cache20 ps k) = k" "disk (cache20 ps k) = (\<lambda>_. replicate BLOCK_SIZE 0)"
    "\<not> cache_locked (cache20 ps k)" "data (blk (cache20 ps k) p) = replicate BLOCK_SIZE 0" "\<not> block_lock (blk (cache20 ps k) p)" for p
    by (simp_all add: cache20_def cache1_def)
  have "distinct (map of_nat [0 ..< 20] :: u64 list)" by (simp add: upt_rec)
  moreover have "block_no (blk (cache20 ps k) p) < 2 ^ 32" if p: "p \<in> set ps" for p
  proof -
    obtain i where "i < 20" "p = ps ! i" using p assms(2) unfolding in_set_conv_nth by auto
    then show ?thesis using cache20_blk(1) [OF assms(1), of i k] assms(2) by (simp add: word_less_nat_alt unat_of_nat_lt)
  qed
  ultimately show ?thesis using assms m f by (simp add: cache_ok_def cache_body_def)
qed

lemma cache20_cached:
  assumes "distinct ps" "length ps = 20"
  shows "cached (cache20 ps k) 19 = Some (ps ! 19)" "cached (cache20 ps k) 20 = None"
proof -
  have m: "map (\<lambda>p. block_no (blk (cache20 ps k) p)) ps = map of_nat [0 ..< 20]"
    by (rule nth_equalityI) (use assms cache20_blk(1) in simp_all)
  have l: "lru (cache20 ps k) = ps" by (simp add: cache20_def)
  have "distinct (map of_nat [0 ..< 20] :: u64 list)" by (simp add: upt_rec)
  then show "cached (cache20 ps k) 19 = Some (ps ! 19)"
    using cache20_blk(1) [OF assms(1), of 19 k] assms(2) l m unfolding cached_def by (intro find_block_eq) simp_all
  have "(20 :: u64) \<notin> set (map of_nat [0 ..< 20])" by (simp add: upt_rec)
  then show "cached (cache20 ps k) 20 = None" unfolding cached_None l m [symmetric] by auto
qed

section \<open>Claims\<close>

lemma ucast_of_nat_small: "n < 2 ^ 32 \<Longrightarrow> (ucast (of_nat n :: u32) :: u64) = of_nat n"
  by (simp add: word_unat_eq_iff unsigned_ucast_eq unat_of_nat_lt take_bit_nat_eq_self)

text \<open>What the bitmap says after a bit of it was changed.\<close>

lemma used_block_edited:
  assumes "edited s (BBLOCK (of_nat n) sb) (g (content s (BBLOCK (of_nat n) sb)) (n mod BIT_PER_BLOCK)) t"
    and "bitmap_ok sb s" "n < unat (num_blocks sb)" "j < unat (num_blocks sb)"
    and g: "\<And>d i j. i < 8 * length d \<Longrightarrow> cell_get (g d i) j = h (j = i) (cell_get d j)" and h: "\<And>b. h False b = b"
  shows "used_block sb t j = h (j = n) (used_block sb s j)"
proof (cases "BBLOCK (of_nat j) sb = BBLOCK (of_nat n) sb")
  case True
  have "n < 2 ^ 32" "j < 2 ^ 32" using assms(2-4) by (simp_all add: bitmap_ok_def)
  then have "j div BIT_PER_BLOCK = n div BIT_PER_BLOCK" using True unat_BBLOCK [of j sb] unat_BBLOCK [of n sb] by simp
  then have eq: "j mod BIT_PER_BLOCK = n mod BIT_PER_BLOCK \<longleftrightarrow> j = n" by (metis div_mult_mod_eq)
  have "length (content s (BBLOCK (of_nat n) sb)) = BLOCK_SIZE" using assms(2,3) by (simp add: bitmap_ok_def)
  then have "n mod BIT_PER_BLOCK < 8 * length (content s (BBLOCK (of_nat n) sb))"
    by (simp add: BIT_PER_BLOCK_def BLOCK_SIZE_def)
  from g [OF this, of "j mod BIT_PER_BLOCK"] show ?thesis
    using assms(1) True eq by (simp add: used_block_def edited_def)
next
  case False
  then have "j \<noteq> n" by auto
  then show ?thesis using assms(1) False h by (simp add: used_block_def edited_def)
qed

lemma alloc_post_view:
  assumes "alloc_post sb s b n u" "bitmap_ok sb s" "\<forall>j < unat (num_blocks sb). BBLOCK (of_nat j) sb \<noteq> of_nat n"
  shows "j < unat (num_blocks sb) \<Longrightarrow> used_block sb u j \<longleftrightarrow> j = n \<or> used_block sb s j"
    "content u (of_nat n) = replicate BLOCK_SIZE 0"
    "x \<noteq> of_nat n \<Longrightarrow> \<forall>j < unat (num_blocks sb). x \<noteq> BBLOCK (of_nat j) sb \<Longrightarrow> content u x = content s x"
proof -
  obtain t where t: "edited s (BBLOCK (of_nat n) sb) (cell_set (content s (BBLOCK (of_nat n) sb)) (n mod BIT_PER_BLOCK)) t"
    "edited t (of_nat n) (replicate BLOCK_SIZE 0) u" and n: "n < unat (num_blocks sb)"
    using assms(1) by (auto simp: alloc_post_def)
  show "used_block sb u j \<longleftrightarrow> j = n \<or> used_block sb s j" if j: "j < unat (num_blocks sb)"
  proof -
    have "used_block sb t j \<longleftrightarrow> j = n \<or> used_block sb s j"
      by (rule used_block_edited [where g = cell_set and h = "(\<or>)", OF t(1) assms(2) n j]) (simp_all add: cell_get_set)
    moreover have "used_block sb u j = used_block sb t j"
      using t(2) assms(3) j by (simp add: used_block_def edited_def)
    ultimately show ?thesis by simp
  qed
  show "content u (of_nat n) = replicate BLOCK_SIZE 0" using t(2) by (simp add: edited_def)
  show "content u x = content s x" if "x \<noteq> of_nat n" "\<forall>j < unat (num_blocks sb). x \<noteq> BBLOCK (of_nat j) sb"
    using t that n by (simp add: edited_def)
qed

text \<open>
  C15. \<^verbatim>\<open>cache_alloc\<close> returns the smallest block that is free in the bitmap, marks it and no other block
  used, and shows it zeroed; every block that is neither it nor a bitmap block keeps its content.
\<close>

theorem cache_alloc_least_free:
  assumes "cache_ok (pool_rep kend self) {} m s" "bitmap_ok sb s" "may_log s c (Suc (Suc k))"
    and "n < unat (num_blocks sb)" "\<not> used_block sb s n" "\<forall>j < n. used_block sb s j"
    and "unat (num_blocks sb) div BIT_PER_BLOCK + 3 \<le> m" "\<forall>j < unat (num_blocks sb). BBLOCK (of_nat j) sb \<noteq> of_nat n"
  shows "runs (cache_alloc (arena_pool kend self me) sb (Some c)) s (\<lambda>(r, c') u. r = of_nat n \<and>
    (\<exists>d. c' = Some d \<and> may_log u d k) \<and> content u (of_nat n) = replicate BLOCK_SIZE 0 \<and>
    (\<forall>j < unat (num_blocks sb). used_block sb u j \<longleftrightarrow> j = n \<or> used_block sb s j) \<and>
    (\<forall>x. x \<noteq> of_nat n \<longrightarrow> (\<forall>j < unat (num_blocks sb). x \<noteq> BBLOCK (of_nat j) sb) \<longrightarrow> content u x = content s x))"
proof -
  have base: "runs (alloc_from (arena_pool kend self me) sb (Some c) 0) s (\<lambda>(r, c') u. \<exists>n d m'. r = of_nat n \<and> c' = Some d \<and>
      cache_ok (pool_rep kend self) {} m' u \<and> may_log u d k \<and> alloc_post sb s (unat (0 :: u32)) n u \<and>
      m \<le> m' + (unat (num_blocks sb) - unat (0 :: u32)) div BIT_PER_BLOCK + 3)"
    by (rule runs_mono [OF ap.alloc_from_spec [OF assms(1-3)]]) (use assms in auto)
  have uniq: "i = n" if "alloc_post sb s (unat (0 :: u32)) i u" for i u
    using that assms(4-6) by (auto simp: alloc_post_def) (metis linorder_neqE_nat)
  have small: "(ucast (of_nat n :: u32) :: u64) = of_nat n"
    using assms(2,4) by (intro ucast_of_nat_small) (simp add: bitmap_ok_def)
  show ?thesis unfolding cache_alloc_def runs_bind
  proof (rule runs_mono [OF base], clarify)
    fix u i d m'
    assume i: "may_log u d k" "alloc_post sb s (unat (0 :: u32)) i u"
    then have "i = n" using uniq by blast
    then show "runs (ret (ucast (of_nat i :: u32), Some d)) u (\<lambda>(r, c') u. r = (of_nat n :: u64) \<and>
      (\<exists>d. c' = Some d \<and> may_log u d k) \<and> content u (of_nat n) = replicate BLOCK_SIZE 0 \<and>
      (\<forall>j < unat (num_blocks sb). used_block sb u j \<longleftrightarrow> j = n \<or> used_block sb s j) \<and>
      (\<forall>x. x \<noteq> of_nat n \<longrightarrow> (\<forall>j < unat (num_blocks sb). x \<noteq> BBLOCK (of_nat j) sb) \<longrightarrow> content u x = content s x))"
      using i alloc_post_view [OF _ assms(2,8)] small by (simp add: wp)
  qed
qed

theorem cache_alloc_least_free_witness:
  "\<exists>d u. cache_alloc (arena_pool 0xffff000000100000 0 0) sb1 (Some ctx0) cache0 = Inr ((0, Some d), u) \<and>
     used_block sb1 u 0 \<and> \<not> used_block sb1 u 1"
proof -
  have "\<forall>j < unat (num_blocks sb1). BBLOCK (of_nat j) sb1 \<noteq> of_nat 0"
  proof (intro allI impI)
    fix j assume "j < unat (num_blocks sb1)"
    then have "unat (BBLOCK (of_nat j) sb1) = j div BIT_PER_BLOCK + 90" by (subst unat_BBLOCK) (simp_all add: sb1_def)
    then show "BBLOCK (of_nat j) sb1 \<noteq> of_nat 0" by (auto dest: arg_cong [where f = unat])
  qed
  moreover have n: "0 < unat (num_blocks sb1)" "unat (num_blocks sb1) div BIT_PER_BLOCK + 3 \<le> 6" "1 < unat (num_blocks sb1)"
    by (simp_all add: sb1_def BIT_PER_BLOCK_def BLOCK_SIZE_def)
  moreover have "\<forall>j < 0. used_block sb1 cache0 j" by simp
  ultimately have "runs (cache_alloc (arena_pool 0xffff000000100000 0 0) sb1 (Some ctx0)) cache0
      (\<lambda>x u. \<exists>d. x = (0, Some d) \<and> used_block sb1 u 0 \<and> \<not> used_block sb1 u 1)"
    using cache0_unused n
    by (intro runs_mono [OF cache_alloc_least_free [OF cache0_ok cache0_bitmap cache0_log n(1) cache0_unused _ n(2), of 0]]) auto
  then show ?thesis by (auto simp: runs_def)
qed

text \<open>
  C30. \<^verbatim>\<open>cache_free\<close> of a used block marks it, and only it, free and changes no block outside the bitmap;
  freeing a block that is free already is caught.
\<close>

theorem cache_free_frees:
  assumes "cache_ok (pool_rep kend self) {} m s" "0 < m" "bitmap_ok sb s" "may_log s c (Suc k)" "n < unat (num_blocks sb)"
  shows "if used_block sb s n
    then runs (cache_free (arena_pool kend self me) sb (Some c) (of_nat n)) s (\<lambda>r u. (\<exists>d. r = Some d \<and> may_log u d k) \<and>
      (\<forall>j < unat (num_blocks sb). used_block sb u j \<longleftrightarrow> j \<noteq> n \<and> used_block sb s j) \<and>
      (\<forall>x. x \<noteq> BBLOCK (of_nat n) sb \<longrightarrow> content u x = content s x))
    else cache_free (arena_pool kend self me) sb (Some c) (of_nat n) s = Inl (Panic ''freeing free block'')"
proof (cases "used_block sb s n")
  case True
  have "used_block sb u j \<longleftrightarrow> j \<noteq> n \<and> used_block sb s j"
    if "edited s (BBLOCK (of_nat n) sb) (cell_clear (content s (BBLOCK (of_nat n) sb)) (n mod BIT_PER_BLOCK)) u"
      "j < unat (num_blocks sb)" for u j
    by (rule used_block_edited [where g = cell_clear and h = "\<lambda>a b. \<not> a \<and> b", OF that(1) assms(3,5) that(2)])
      (simp_all add: cell_get_clear)
  then show ?thesis using ap.free_spec(1) [OF assms True, of me] True
    by (simp, elim runs_mono) (auto simp: edited_def)
qed (use ap.free_spec(2) [OF assms] in simp)

theorem cache_free_frees_witness:
  "cache_free (arena_pool 0xffff000000100000 0 0) sb1 (Some ctx0) 7 cache0 = Inl (Panic ''freeing free block'')"
  using cache_free_frees [OF cache0_ok _ cache0_bitmap cache0_log, of 7 0] cache0_unused by (simp add: sb1_def)

text \<open>
  C7. However operations begin, sync blocks and end between two commits, the reservations of the running
  operations and the logged blocks together fit the log, the header's array is never overrun, and a sync of an
  operation that has reservations left succeeds.
\<close>

theorem log_space_suffices:
  assumes "txn_ok x" "txn_step\<^sup>*\<^sup>* x (s, cs)" "i < length cs" "rm (cs ! i) > 0"
  shows "unat (hnum (header s)) < LOG_MAX_SIZE \<and> distinct (logged s) \<and>
    (\<exists>c t. cache_sync (Some (cs ! i)) p s = Inr (Some c, t) \<and> unat (hnum (header t)) \<le> LOG_MAX_SIZE)"
proof -
  have ok: "txn_ok (s, cs)" using txn_reach_ok [OF assms(2,1)] .
  obtain c t where t: "cache_sync (Some (cs ! i)) p s = Inr (Some c, t)" using txn_sync [OF ok assms(3,4)] by blast
  have t': "txn_ok (t, cs[i := c])" using txn_step_ok [OF txn_step.intros(2) [OF assms(3) t] ok] .
  moreover have "0 \<le> (\<Sum>c \<leftarrow> cs[i := c]. int (unat (rm c)))" by (rule sum_list_nonneg) auto
  ultimately have "unat (hnum (header t)) \<le> LOG_MAX_SIZE" by (simp add: txn_ok_def)
  moreover have "unat (hnum (header s)) < LOG_MAX_SIZE" using sync_cases [OF t] ok by (auto simp: txn_ok_def)
  ultimately show ?thesis using t ok by (auto simp: txn_ok_def)
qed

theorem log_space_suffices_witness:
  "\<exists>c t. cache_sync (Some ctx0) 0 cache0 = Inr (Some c, t) \<and> unat (hnum (header t)) \<le> LOG_MAX_SIZE"
  using log_space_suffices [OF txn0 rtranclp.rtrancl_refl, of 0 0] by (auto simp: ctx0_def)

text \<open>
  C36. \<^verbatim>\<open>cache_acquire\<close> of a block that is in the cache locks it without setting \<^verbatim>\<open>acquired\<close>, and the eviction
  loop spares only pinned and \<^verbatim>\<open>acquired\<close> blocks. So when the cache is full of such blocks, acquiring
  block \<open>n\<close> and then another, uncached block \<open>n'\<close> throws block \<open>n\<close> out under its holder: it is not in the
  cache any more, and a third acquire gets it as well, although nobody released it.
\<close>

theorem held_block_evicted:
  assumes "cache_ok (pool_rep kend self) H m s" "0 < m" "cached s n = Some p" "p \<notin> H" "\<not> pinned (blk s p)" "\<not> acquired (blk s p)"
    and "\<forall>q \<in> set (lru s) - {p}. pinned (blk s q) \<or> acquired (blk s q)" "length (lru s) \<ge> EVICTION_THRESHOLD"
    and "cached s n' = None" "n' < 2 ^ 32"
  shows "\<exists>t q u p' v. cache_acquire (arena_pool kend self me) n s = Inr (p, t) \<and> block_lock (blk t p) \<and> cached t n = Some p \<and>
    cache_acquire (arena_pool kend self me) n' t = Inr (q, u) \<and> cached u n = None \<and>
    cache_acquire (arena_pool kend self me) n u = Inr (p', v) \<and> cached v n = Some p'"
proof -
  let ?A = "arena_pool kend self me" and ?t = "s\<lparr>lru := p # remove1 p (lru s), blk := (blk s)(p := (blk s p)\<lparr>block_lock := True\<rparr>)\<rparr>"
  have body: "cache_body (pool_rep kend self) H m s" "\<not> cache_locked s" using assms(1) by (simp_all add: cache_ok_def)
  have d: "distinct (map (\<lambda>p. block_no (blk s p)) (lru s))" "distinct (lru s)" using body(1) by (simp_all add: cache_body_def)
  have pn: "p \<in> set (lru s)" "block_no (blk s p) = n" "n < 2 ^ 32" using assms(3) body(1) by (auto simp: cached_iff [OF d(1)] cache_body_def)
  note hit = acquire_hit [OF body(1) assms(3,4), of ?t, simplified same_rest_def, simplified]
  have first: "cache_acquire ?A n s = Inr (p, ?t)" using assms(3,4) body pn(1) unfolding cache_acquire_def
    by (auto simp: cached_def cache_body_def cm_simps lock_cache_def unlock_cache_def acquire_block_def upd_blk_def)
  obtain k where k: "ofree ?A p (pool s) = Inr k" "pool_rep kend self k (set (lru s) - {p}) (Suc m)"
    using ap.pool_free [of kend self "pool s" "set (lru s)" m p me] body(1) pn(1) by (auto simp: cache_body_def)
  let ?w = "s\<lparr>lru := remove1 p (lru s), blk := (blk s)(p := (blk s p)\<lparr>block_lock := True\<rparr>), pool := k\<rparr>"
  have tw: "?t\<lparr>lru := remove1 p (lru s), pool := k\<rparr> = ?w" by simp
  have w: "cache_ok (pool_rep kend self) H (Suc m) ?w" "cached ?w n' = None" "cached ?w n = None"
    and safe: "\<forall>q \<in> H. pinned (blk ?w q) \<or> acquired (blk ?w q)"
    using held_dropped [OF assms(1,3,4) k(2)] assms(4,7,9) d(2) body(1) by (auto simp: cached_None cache_body_def)
  have len: "Suc (length (remove1 p (lru s))) = length (lru s)" using pn(1) by (simp add: length_remove1) (metis length_pos_if_in_set Suc_pred)
  have second: "cache_acquire ?A n' ?t = cache_acquire ?A n' ?w"
    using acquire_evicts [of ?t n' p "remove1 p (lru s)" ?A k, unfolded tw] assms(5-9) d(2) k(1) body(2) pn(1) len
    by (auto simp: cached_None)
  have "runs (cache_acquire ?A n') ?w (\<lambda>q u. cached u n = None \<and> (\<exists>p' v. cache_acquire ?A n u = Inr (p', v) \<and> cached v n = Some p'))"
  proof (rule runs_mono [OF ap.acquire_spec [OF w(1) assms(10), where me = me]], goal_cases)
    case (3 q u)
    then obtain m' where u: "m \<le> m'" "cache_ok (pool_rep kend self) (insert q H) m' u" "acq_rel H ?w n' q u" by auto
    note T = acq_relD [OF u(3)]
    have un: "cached u n = None" by (rule T(7) [OF _ w(3)]) (use assms(3,9) in auto)
    have "runs (cache_acquire ?A n) u (\<lambda>p' v. cached v n = Some p')"
      by (rule runs_mono [OF ap.acquire_spec [OF u(2) pn(3)]]) (use un u(1) assms(2) T(5,6) w(2) safe in \<open>auto dest: acq_relD(2)\<close>)
    then show ?case using un by (auto simp: runs_def)
  qed (use w(2) safe in simp_all)
  then show ?thesis using first second hit(2) by (auto simp: runs_def acq_rel_def)
qed

theorem held_block_evicted_witness:
  "\<exists>s p t q u p' v. length (lru s) = 20 \<and> cache_acquire (arena_pool 0xffff000000100000 0 0) 19 s = Inr (p, t) \<and>
     cache_acquire (arena_pool 0xffff000000100000 0 0) 20 t = Inr (q, u) \<and>
     cache_acquire (arena_pool 0xffff000000100000 0 0) 19 u = Inr (p', v)"
proof -
  obtain ps k where k: "length ps = 20" "distinct ps" "pool_rep 0xffff000000100000 0 k (set ps) 4"
    using pool_takes [of _ _ 20 4] pool4 by fastforce
  let ?s = "cache20 ps k" and ?p = "ps ! 19"
  have no: "block_no (blk ?s (ps ! i)) = of_nat i" "pinned (blk ?s (ps ! i)) \<longleftrightarrow> i \<noteq> 19" "\<not> acquired (blk ?s (ps ! i))" if "i < 20" for i
    using cache20_blk [OF k(2), of i] that k(1) by auto
  have ok: "cache_ok (pool_rep 0xffff000000100000 0) {} 4 ?s" using cache20_ok k by blast
  have c: "cached ?s 19 = Some ?p" "cached ?s 20 = None"
    using cache20_cached [OF k(2,1)] by simp_all
  have l: "lru ?s = ps" by (simp add: cache20_def)
  then have "\<forall>q \<in> set (lru ?s) - {?p}. pinned (blk ?s q) \<or> acquired (blk ?s q)"
    using k(1) no(2) by (auto simp: in_set_conv_nth)
  then show ?thesis
    using held_block_evicted [OF ok _ c(1) _ _ _ _ _ c(2), of 0] no [of 19] k(1) l
    by (intro exI [of _ ?s]) (auto simp: EVICTION_THRESHOLD_def)
qed

end
