(* ===== verification/DiskFormat.thy ===== *)
theory DiskFormat
  imports Cache
begin

text \<open>
  The on-disk structures of \<^verbatim>\<open>src/fs/defines.h\<close> as bytes: little-endian integers, inode entries, the address
  array of an indirect block and directory entries, with their round trips.
\<close>

section \<open>Little-endian integers\<close>

definition to_le :: "nat \<Rightarrow> 'w::len word \<Rightarrow> u8 list" where
  "to_le n w = map (\<lambda>i. ucast (drop_bit (8 * i) w)) [0..<n]"

fun of_le :: "u8 list \<Rightarrow> 'w::len word" where
  "of_le [] = 0"
| "of_le (b # bs) = ucast b OR push_bit 8 (of_le bs)"

lemma length_to_le [simp]: "length (to_le n w) = n"
  by (simp add: to_le_def)

lemma of_le_to_le: "of_le (to_le n w) = take_bit (8 * n) w"
proof (induction n arbitrary: w)
  case (Suc n)
  have "to_le (Suc n) w = (ucast w :: u8) # to_le n (drop_bit 8 w)"
    by (simp add: to_le_def upt_conv_Cons map_Suc_upt [symmetric] comp_def add.commute del: upt_Suc)
  then have "of_le (to_le (Suc n) w) = ucast (ucast w :: u8) OR push_bit 8 (take_bit (8 * n) (drop_bit 8 w))"
    using Suc [of "drop_bit 8 w"] by simp
  also have "\<dots> = take_bit (8 * Suc n) w" by (rule bit_word_eqI) (auto simp: bit_simps)
  finally show ?case .
qed (simp add: to_le_def)

lemma le16 [simp]: "of_le (to_le 2 (w :: u16)) = w"
  by (simp add: of_le_to_le take_bit_word_eq_self)

lemma le32 [simp]: "of_le (to_le 4 (w :: u32)) = w"
  by (simp add: of_le_to_le take_bit_word_eq_self)

section \<open>Sizes\<close>

definition INODE_NUM_DIRECT :: nat where "INODE_NUM_DIRECT = 12"

definition INODE_NUM_INDIRECT :: nat where "INODE_NUM_INDIRECT = BLOCK_SIZE div 4"

definition sizeof_InodeEntry :: nat where "sizeof_InodeEntry = 64"

definition INODE_PER_BLOCK :: nat where "INODE_PER_BLOCK = BLOCK_SIZE div sizeof_InodeEntry"

definition INODE_MAX_BLOCKS :: nat where "INODE_MAX_BLOCKS = INODE_NUM_DIRECT + INODE_NUM_INDIRECT"

definition INODE_MAX_BYTES :: nat where "INODE_MAX_BYTES = INODE_MAX_BLOCKS * BLOCK_SIZE"

definition FILE_NAME_MAX_LENGTH :: nat where "FILE_NAME_MAX_LENGTH = 14"

definition sizeof_DirEntry :: nat where "sizeof_DirEntry = 16"

definition INODE_INVALID :: u16 where "INODE_INVALID = 0"

definition INODE_DIRECTORY :: u16 where "INODE_DIRECTORY = 1"

definition INODE_REGULAR :: u16 where "INODE_REGULAR = 2"

definition INODE_DEVICE :: u16 where "INODE_DEVICE = 3"

lemmas fs_sizes = BLOCK_SIZE_def INODE_NUM_DIRECT_def INODE_NUM_INDIRECT_def sizeof_InodeEntry_def INODE_PER_BLOCK_def
  INODE_MAX_BLOCKS_def INODE_MAX_BYTES_def FILE_NAME_MAX_LENGTH_def sizeof_DirEntry_def

section \<open>Inode entries\<close>

record InodeEntry =
  itype :: u16
  major :: u16
  minor :: u16
  num_links :: u16
  num_bytes :: u32
  addrs :: "u32 list"
  indirect :: u32

definition bytes_of_entry :: "InodeEntry \<Rightarrow> u8 list" where
  "bytes_of_entry e = to_le 2 (itype e) @ to_le 2 (major e) @ to_le 2 (minor e) @ to_le 2 (num_links e) @
     to_le 4 (num_bytes e) @ concat (map (to_le 4) (addrs e)) @ to_le 4 (indirect e)"

definition field :: "nat \<Rightarrow> nat \<Rightarrow> u8 list \<Rightarrow> u8 list" where
  "field i n d = take n (drop i d)"

definition entry_of :: "u8 list \<Rightarrow> InodeEntry" where
  "entry_of d = \<lparr>itype = of_le (field 0 2 d), major = of_le (field 2 2 d), minor = of_le (field 4 2 d),
     num_links = of_le (field 6 2 d), num_bytes = of_le (field 8 4 d),
     addrs = map (\<lambda>i. of_le (field (12 + 4 * i) 4 d)) [0..<INODE_NUM_DIRECT], indirect = of_le (field 60 4 d)\<rparr>"

definition zero_entry :: InodeEntry where
  "zero_entry = \<lparr>itype = 0, major = 0, minor = 0, num_links = 0, num_bytes = 0, addrs = replicate INODE_NUM_DIRECT 0, indirect = 0\<rparr>"

lemma field_skip: "i \<ge> length a \<Longrightarrow> field i n (a @ b) = field (i - length a) n b"
  by (simp add: field_def)

lemma field_hit: "field 0 n (to_le n w @ b) = to_le n w"
  by (simp add: field_def)

lemma field_array: "i < length ws \<Longrightarrow> field (4 * i) 4 (concat (map (to_le 4) ws) @ b) = to_le 4 (ws ! i)"
proof (induction ws arbitrary: i)
  case (Cons w ws)
  show ?case
  proof (cases i)
    case (Suc j)
    then have "field (4 * i) 4 (concat (map (to_le 4) (w # ws)) @ b) = field (4 * j) 4 (concat (map (to_le 4) ws) @ b)"
      by (simp add: field_skip)
    then show ?thesis using Cons Suc by simp
  qed (simp add: field_def)
qed simp

lemma length_array [simp]: "length (concat (map (to_le 4) ws)) = 4 * length ws"
  by (induction ws) simp_all

lemma length_bytes_of_entry: "length (addrs e) = INODE_NUM_DIRECT \<Longrightarrow> length (bytes_of_entry e) = sizeof_InodeEntry"
  by (simp add: bytes_of_entry_def fs_sizes)

lemma entry_roundtrip:
  assumes "length (addrs e) = INODE_NUM_DIRECT"
  shows "entry_of (bytes_of_entry e) = e"
proof -
  have len: "length (addrs e) = 12" using assms by (simp add: fs_sizes)
  have a: "of_le (field (12 + 4 * i) 4 (bytes_of_entry e)) = addrs e ! i" if "i < 12" for i
    using that len by (simp add: bytes_of_entry_def field_skip field_array)
  have "map (\<lambda>i. of_le (field (12 + 4 * i) 4 (bytes_of_entry e))) [0..<12] = addrs e"
    using a len by (intro nth_equalityI) simp_all
  moreover have "of_le (field 60 4 (bytes_of_entry e)) = indirect e" "of_le (field 8 4 (bytes_of_entry e)) = num_bytes e"
    "of_le (field 6 2 (bytes_of_entry e)) = num_links e" "of_le (field 4 2 (bytes_of_entry e)) = minor e"
    "of_le (field 2 2 (bytes_of_entry e)) = major e" "of_le (field 0 2 (bytes_of_entry e)) = itype e"
    using len by (simp_all add: bytes_of_entry_def field_skip field_hit) (simp add: field_def)
  ultimately show ?thesis by (cases e) (simp add: entry_of_def INODE_NUM_DIRECT_def)
qed

lemma length_entry_of [simp]: "length (addrs (entry_of d)) = INODE_NUM_DIRECT"
  by (simp add: entry_of_def)

section \<open>Replacing part of a block\<close>

definition patch :: "nat \<Rightarrow> u8 list \<Rightarrow> u8 list \<Rightarrow> u8 list" where
  "patch i v d = take i d @ v @ drop (i + length v) d"

lemma length_patch [simp]: "i + length v \<le> length d \<Longrightarrow> length (patch i v d) = length d"
  by (simp add: patch_def)

lemma field_patch_same: "i + length v \<le> length d \<Longrightarrow> n = length v \<Longrightarrow> field i n (patch i v d) = v"
  by (simp add: field_def patch_def)

lemma nth_patch: "i + length v \<le> length d \<Longrightarrow> j < length d \<Longrightarrow>
    patch i v d ! j = (if i \<le> j \<and> j < i + length v then v ! (j - i) else d ! j)"
  by (auto simp: patch_def nth_append)

lemma field_nth: "i + n \<le> length d \<Longrightarrow> j < n \<Longrightarrow> field i n d ! j = d ! (i + j)"
  by (simp add: field_def)

lemma length_field [simp]: "i + n \<le> length d \<Longrightarrow> length (field i n d) = n"
  by (simp add: field_def)

lemma field_patch_other:
  assumes "i + length v \<le> length d" "j + n \<le> length d" "j + n \<le> i \<or> i + length v \<le> j"
  shows "field j n (patch i v d) = field j n d"
  using assms by (intro nth_equalityI) (auto simp: field_nth nth_patch)

end
