(* ===== verification/Inode.thy ===== *)
theory Inode
  imports DiskFormat
begin

text \<open>
  Inodes and paths (\<^verbatim>\<open>src/fs/inode.c\<close>). The block cache is the table of functions \<^verbatim>\<open>BlockCache\<close> of
  \<^verbatim>\<open>src/fs/cache.h\<close>, a parameter; so are the pool of in-memory inodes and the console, over one state
  \<open>'s\<close> below the inode layer. The operation's context is part of that state: the flag
  \<open>ctx\<close> says whether the pointer to it or \<^verbatim>\<open>NULL\<close> is passed. Names and paths are lists of bytes without the final
  zero. \<open>de0\<close> is what the stack holds where a local variable is read before it is written in full.
\<close>

section \<open>Interfaces below\<close>

record 's BlockCache =
  acquire :: "usize \<Rightarrow> ('s, u64) cm"
  release :: "u64 \<Rightarrow> ('s, unit) cm"
  begin_op :: "('s, unit) cm"
  sync :: "bool \<Rightarrow> u64 \<Rightarrow> ('s, unit) cm"
  end_op :: "('s, unit) cm"
  alloc :: "bool \<Rightarrow> ('s, usize) cm"
  bfree :: "bool \<Rightarrow> usize \<Rightarrow> ('s, unit) cm"
  get_data :: "u64 \<Rightarrow> 's \<Rightarrow> u8 list"
  set_data :: "u64 \<Rightarrow> u8 list \<Rightarrow> 's \<Rightarrow> 's"

record Inode =
  ilock :: bool
  irc :: RefCount
  inode_no :: usize
  ivalid :: bool
  entry :: InodeEntry

record 's itree =
  base :: 's
  itab :: "u64 \<Rightarrow> Inode"
  ilist :: "u64 list"
  tree_locked :: bool
  root :: u64

record 's fs_env =
  cache :: "'s BlockCache"
  ialloc :: "('s, u64) cm"
  ifree :: "u64 \<Rightarrow> ('s, unit) cm"
  con_read :: "u64 \<Rightarrow> usize \<Rightarrow> ('s itree, usize \<times> u8 list) cm"
  con_write :: "u64 \<Rightarrow> u8 list \<Rightarrow> usize \<Rightarrow> ('s itree, usize) cm"

definition below :: "('s, 'a) cm \<Rightarrow> ('s itree, 'a) cm" where
  "below m = (\<lambda>t. case m (base t) of Inl e \<Rightarrow> Inl e | Inr (a, s) \<Rightarrow> Inr (a, t\<lparr>base := s\<rparr>))"

definition assert_cm :: "('s \<Rightarrow> bool) \<Rightarrow> ('s, unit) cm" where
  "assert_cm P = guard_cm (Panic ''assertion failed'') P"

definition upd_inode :: "u64 \<Rightarrow> (Inode \<Rightarrow> Inode) \<Rightarrow> ('s itree, unit) cm" where
  "upd_inode p f = modify (\<lambda>t. t\<lparr>itab := (itab t)(p := f (itab t p))\<rparr>)"

definition upd_entry :: "u64 \<Rightarrow> (InodeEntry \<Rightarrow> InodeEntry) \<Rightarrow> ('s itree, unit) cm" where
  "upd_entry p f = upd_inode p (\<lambda>i. i\<lparr>entry := f (entry i)\<rparr>)"

definition block_data :: "'s fs_env \<Rightarrow> u64 \<Rightarrow> ('s itree, u8 list) cm" where
  "block_data E bp = gets (\<lambda>t. get_data (cache E) bp (base t))"

definition set_block :: "'s fs_env \<Rightarrow> u64 \<Rightarrow> u8 list \<Rightarrow> ('s itree, unit) cm" where
  "set_block E bp d = below (modify (set_data (cache E) bp d))"

section \<open>Inodes on disk and in memory\<close>

definition ROOT_INODE_NO :: usize where "ROOT_INODE_NO = 1"

definition to_block_no :: "SuperBlock \<Rightarrow> usize \<Rightarrow> usize" where
  "to_block_no sb n = ucast (inode_start sb) + n div of_nat INODE_PER_BLOCK"

text \<open>The place of an inode entry in its block, and reading and writing it.\<close>

definition entry_at :: "usize \<Rightarrow> nat" where
  "entry_at n = sizeof_InodeEntry * unat (n mod of_nat INODE_PER_BLOCK)"

definition get_entry :: "u8 list \<Rightarrow> usize \<Rightarrow> InodeEntry" where
  "get_entry d n = entry_of (field (entry_at n) sizeof_InodeEntry d)"

definition put_entry :: "usize \<Rightarrow> InodeEntry \<Rightarrow> u8 list \<Rightarrow> u8 list" where
  "put_entry n e d = patch (entry_at n) (bytes_of_entry e) d"

definition get_addr :: "u8 list \<Rightarrow> nat \<Rightarrow> u32" where
  "get_addr d i = of_le (field (4 * i) 4 d)"

definition put_addr :: "nat \<Rightarrow> u32 \<Rightarrow> u8 list \<Rightarrow> u8 list" where
  "put_addr i a d = patch (4 * i) (to_le 4 a) d"

definition init_inode :: "u64 \<Rightarrow> ('s itree, unit) cm" where
  "init_inode p = upd_inode p (\<lambda>i. i\<lparr>ilock := False, irc := init_rc, inode_no := 0, ivalid := False\<rparr>)"

text \<open>
  The loop of \<^verbatim>\<open>inode_alloc\<close>. With \<^verbatim>\<open>num_inodes\<close> the largest 32-bit number the counter wraps around and the loop
  never ends.
\<close>

function alloc_inode_from :: "'s fs_env \<Rightarrow> SuperBlock \<Rightarrow> bool \<Rightarrow> u16 \<Rightarrow> u32 \<Rightarrow> ('s itree, usize) cm" where
  "alloc_inode_from E sb ctx ty inum =
     (if inum \<le> num_inodes sb then
        bind (below (acquire (cache E) (to_block_no sb (ucast inum)))) (\<lambda>bp.
        bind (block_data E bp) (\<lambda>d.
          if itype (get_entry d (ucast inum)) = 0 then
            andthen (set_block E bp (put_entry (ucast inum) (zero_entry\<lparr>itype := ty\<rparr>) d))
            (andthen (below (sync (cache E) ctx bp))
            (andthen (below (release (cache E) bp))
              (ret (ucast inum))))
          else
            andthen (below (release (cache E) bp))
              (if inum < inum + 1 then alloc_inode_from E sb ctx ty (inum + 1) else fail Blocked)))
      else fail (Panic ''failed to allocate inode on disk''))"
  by pat_completeness auto
termination
proof (relation "measure (\<lambda>(E, sb, ctx, ty, inum). 2 ^ 32 - unat inum)")
  fix E :: "'s fs_env" and sb ctx ty and inum :: u32
  assume "inum < inum + 1"
  moreover have "unat (inum + 1) < 2 ^ 32" using unsigned_less [of "inum + 1", where ?'a = nat] by simp
  ultimately show "((E, sb, ctx, ty, inum + 1), E, sb, ctx, ty, inum) \<in> measure (\<lambda>(E, sb, ctx, ty, inum). 2 ^ 32 - unat inum)"
    by (simp add: word_less_nat_alt)
qed simp

definition inode_alloc :: "'s fs_env \<Rightarrow> SuperBlock \<Rightarrow> bool \<Rightarrow> u16 \<Rightarrow> ('s itree, usize) cm" where
  "inode_alloc E sb ctx ty = andthen (assert_cm (\<lambda>_. ty \<noteq> INODE_INVALID)) (alloc_inode_from E sb ctx ty 1)"

definition inode_lock :: "u64 \<Rightarrow> ('s itree, unit) cm" where
  "inode_lock p = andthen (assert_cm (\<lambda>t. sint (count (irc (itab t p))) > 0))
     (andthen (guard_cm Blocked (\<lambda>t. \<not> ilock (itab t p))) (upd_inode p (\<lambda>i. i\<lparr>ilock := True\<rparr>)))"

definition inode_unlock :: "u64 \<Rightarrow> ('s itree, unit) cm" where
  "inode_unlock p = andthen (assert_cm (\<lambda>t. ilock (itab t p)))
     (andthen (assert_cm (\<lambda>t. sint (count (irc (itab t p))) > 0)) (upd_inode p (\<lambda>i. i\<lparr>ilock := False\<rparr>)))"

definition inode_sync :: "'s fs_env \<Rightarrow> SuperBlock \<Rightarrow> bool \<Rightarrow> u64 \<Rightarrow> bool \<Rightarrow> ('s itree, unit) cm" where
  "inode_sync E sb ctx p do_write = bind (gets (\<lambda>t. itab t p)) (\<lambda>ip.
     bind (below (acquire (cache E) (to_block_no sb (inode_no ip)))) (\<lambda>bp.
     bind (block_data E bp) (\<lambda>d.
       andthen
         (if do_write \<and> ivalid ip then
            andthen (set_block E bp (put_entry (inode_no ip) (entry ip) d)) (below (sync (cache E) ctx bp))
          else if \<not> ivalid ip then
            upd_inode p (\<lambda>i. i\<lparr>ivalid := True, entry := get_entry d (inode_no ip)\<rparr>)
          else ret ())
         (below (release (cache E) bp)))))"

definition lock_tree :: "('s itree, unit) cm" where
  "lock_tree = andthen (guard_cm Blocked (\<lambda>t. \<not> tree_locked t)) (modify (\<lambda>t. t\<lparr>tree_locked := True\<rparr>))"

definition unlock_tree :: "('s itree, unit) cm" where
  "unlock_tree = andthen (guard_cm (Panic ''release: lock not held'') tree_locked) (modify (\<lambda>t. t\<lparr>tree_locked := False\<rparr>))"

text \<open>
  The search loop of \<^verbatim>\<open>inode_get\<close>: a referenced inode with this number, and the first unreferenced inode seen.
\<close>

fun scan_inodes :: "(u64 \<Rightarrow> Inode) \<Rightarrow> usize \<Rightarrow> u64 list \<Rightarrow> u64 option \<Rightarrow> u64 option \<times> u64 option" where
  "scan_inodes h n [] e = (None, e)"
| "scan_inodes h n (p # ps) e =
     (if sint (count (irc (h p))) > 0 \<and> inode_no (h p) = n then (Some p, e)
      else scan_inodes h n ps (if e = None \<and> count (irc (h p)) = 0 then Some p else e))"

definition inode_get :: "'s fs_env \<Rightarrow> SuperBlock \<Rightarrow> usize \<Rightarrow> ('s itree, u64) cm" where
  "inode_get E sb n = andthen (assert_cm (\<lambda>_. n > 0)) (andthen (assert_cm (\<lambda>_. n < ucast (num_inodes sb)))
     (andthen lock_tree
     (bind (gets (\<lambda>t. scan_inodes (itab t) n (ilist t) None)) (\<lambda>(r, empty).
        case r of
          Some p \<Rightarrow> andthen (upd_inode p (\<lambda>i. i\<lparr>irc := increment_rc (irc i)\<rparr>)) (andthen unlock_tree (ret p))
        | None \<Rightarrow>
            bind (case empty of
                    Some p \<Rightarrow> ret p
                  | None \<Rightarrow>
                      bind (below (ialloc E)) (\<lambda>p.
                        andthen (init_inode p) (andthen (modify (\<lambda>t. t\<lparr>ilist := p # ilist t\<rparr>)) (ret p))))
              (\<lambda>p. andthen (upd_inode p (\<lambda>i. i\<lparr>inode_no := n, irc := increment_rc (irc i), ivalid := False\<rparr>))
                   (andthen (inode_lock p)
                   (andthen (inode_sync E sb False p False)
                   (andthen (inode_unlock p)
                   (andthen unlock_tree (ret p))))))))))"

definition init_inodes :: "'s fs_env \<Rightarrow> SuperBlock \<Rightarrow> ('s itree, unit) cm" where
  "init_inodes E sb = andthen (modify (\<lambda>t. t\<lparr>tree_locked := False, ilist := []\<rparr>))
     (if ROOT_INODE_NO < ucast (num_inodes sb) then
        bind (inode_get E sb ROOT_INODE_NO) (\<lambda>p. modify (\<lambda>t. t\<lparr>root := p\<rparr>))
      else ret ())"

section \<open>Freeing an inode\<close>

function clear_direct :: "'s fs_env \<Rightarrow> bool \<Rightarrow> u64 \<Rightarrow> nat \<Rightarrow> ('s itree, unit) cm" where
  "clear_direct E ctx p i =
     (if i < INODE_NUM_DIRECT then
        bind (gets (\<lambda>t. addrs (entry (itab t p)) ! i)) (\<lambda>a.
          andthen
            (if a \<noteq> 0 then
               andthen (below (bfree (cache E) ctx (ucast a)))
                 (upd_entry p (\<lambda>e. e\<lparr>addrs := (addrs e)[i := 0]\<rparr>))
             else ret ())
            (clear_direct E ctx p (Suc i)))
      else ret ())"
  by pat_completeness auto
termination by (relation "measure (\<lambda>(E, ctx, p, i). INODE_NUM_DIRECT - i)") auto

function clear_indirect :: "'s fs_env \<Rightarrow> bool \<Rightarrow> u64 \<Rightarrow> nat \<Rightarrow> ('s itree, unit) cm" where
  "clear_indirect E ctx bp i =
     (if i < INODE_NUM_INDIRECT then
        bind (block_data E bp) (\<lambda>d.
          andthen (if get_addr d i \<noteq> 0 then below (bfree (cache E) ctx (ucast (get_addr d i))) else ret ())
            (clear_indirect E ctx bp (Suc i)))
      else ret ())"
  by pat_completeness auto
termination by (relation "measure (\<lambda>(E, ctx, bp, i). INODE_NUM_INDIRECT - i)") auto

definition inode_clear :: "'s fs_env \<Rightarrow> SuperBlock \<Rightarrow> bool \<Rightarrow> u64 \<Rightarrow> ('s itree, unit) cm" where
  "inode_clear E sb ctx p =
     andthen (clear_direct E ctx p 0)
     (bind (gets (\<lambda>t. indirect (entry (itab t p)))) (\<lambda>a.
        andthen
          (if a \<noteq> 0 then
             bind (below (acquire (cache E) (ucast a))) (\<lambda>bp.
               andthen (clear_indirect E ctx bp 0)
               (andthen (below (release (cache E) bp))
               (andthen (below (bfree (cache E) ctx (ucast a)))
                 (upd_entry p (\<lambda>e. e\<lparr>indirect := 0\<rparr>)))))
           else ret ())
          (andthen (upd_entry p (\<lambda>e. e\<lparr>num_bytes := 0\<rparr>))
            (inode_sync E sb ctx p True))))"

definition inode_share :: "u64 \<Rightarrow> ('s itree, u64) cm" where
  "inode_share p = andthen lock_tree
     (andthen (upd_inode p (\<lambda>i. i\<lparr>irc := increment_rc (irc i)\<rparr>)) (andthen unlock_tree (ret p)))"

definition drop_ref :: "u64 \<Rightarrow> ('s itree, unit) cm" where
  "drop_ref p = upd_inode p (\<lambda>i. i\<lparr>irc := snd (decrement_rc (irc i))\<rparr>)"

definition inode_put :: "'s fs_env \<Rightarrow> SuperBlock \<Rightarrow> bool \<Rightarrow> u64 \<Rightarrow> ('s itree, unit) cm" where
  "inode_put E sb ctx p = andthen lock_tree
     (bind (gets (\<lambda>t. itab t p)) (\<lambda>ip.
        if count (irc ip) = 1 \<and> ivalid ip \<and> num_links (entry ip) = 0 then
          andthen (inode_lock p)
          (andthen unlock_tree
          (andthen (inode_clear E sb ctx p)
          (andthen (upd_entry p (\<lambda>e. e\<lparr>itype := 0\<rparr>))
          (andthen (inode_sync E sb ctx p True)
          (andthen (upd_inode p (\<lambda>i. i\<lparr>ivalid := False\<rparr>))
          (andthen (inode_unlock p)
          (andthen lock_tree
          (andthen (modify (\<lambda>t. t\<lparr>ilist := remove1 p (ilist t)\<rparr>))
          (andthen (drop_ref p)
          (andthen unlock_tree
            (below (ifree E p))))))))))))
        else andthen (drop_ref p) unlock_tree))"

section \<open>File contents\<close>

definition inode_map :: "'s fs_env \<Rightarrow> bool \<Rightarrow> u64 \<Rightarrow> usize \<Rightarrow> ('s itree, usize \<times> bool) cm" where
  "inode_map E ctx p off =
     (if off < of_nat INODE_NUM_DIRECT then
        bind (gets (\<lambda>t. addrs (entry (itab t p)) ! unat off)) (\<lambda>a.
          if a = 0 then
            bind (below (alloc (cache E) ctx)) (\<lambda>n.
              andthen (upd_entry p (\<lambda>e. e\<lparr>addrs := (addrs e)[unat off := ucast n]\<rparr>))
                (ret (ucast (ucast n :: u32), True)))
          else ret (ucast a, False))
      else
        (let o1 = off - of_nat INODE_NUM_DIRECT in
         if o1 < of_nat INODE_NUM_INDIRECT then
           bind (gets (\<lambda>t. indirect (entry (itab t p)))) (\<lambda>a.
           bind (if a = 0 then
                   bind (below (alloc (cache E) ctx)) (\<lambda>n.
                     andthen (upd_entry p (\<lambda>e. e\<lparr>indirect := ucast n\<rparr>)) (ret (ucast n)))
                 else ret a) (\<lambda>a.
           bind (below (acquire (cache E) (ucast a))) (\<lambda>bp.
           bind (block_data E bp) (\<lambda>d.
             if get_addr d (unat o1) = 0 then
               bind (below (alloc (cache E) ctx)) (\<lambda>n.
                 andthen (bind (block_data E bp) (\<lambda>d. set_block E bp (put_addr (unat o1) (ucast n) d)))
                 (andthen (below (sync (cache E) ctx bp))
                 (andthen (below (release (cache E) bp))
                   (ret (ucast (ucast n :: u32), True)))))
             else
               andthen (below (release (cache E) bp)) (ret (ucast (get_addr d (unat o1)), False))))))
         else fail (Panic ''offset out of bound'')))"

text \<open>The copying loops: \<open>n\<close> bytes are left, from offset \<open>off\<close> on; \<open>chunk\<close> of them lie in the block at hand.\<close>

definition chunk :: "nat \<Rightarrow> nat \<Rightarrow> nat" where
  "chunk off n = min n (BLOCK_SIZE - off mod BLOCK_SIZE)"

lemma chunk_pos: "0 < n \<Longrightarrow> 0 < chunk off n \<and> chunk off n \<le> n"
  by (simp add: chunk_def BLOCK_SIZE_def)

function read_loop :: "'s fs_env \<Rightarrow> u64 \<Rightarrow> nat \<Rightarrow> nat \<Rightarrow> ('s itree, u8 list) cm" where
  "read_loop E p off n =
     (if n = 0 then ret []
      else
        bind (inode_map E False p (of_nat (off div BLOCK_SIZE))) (\<lambda>(a, _).
        bind (below (acquire (cache E) a)) (\<lambda>bp.
        bind (block_data E bp) (\<lambda>d.
          andthen (below (release (cache E) bp))
            (bind (read_loop E p (off + chunk off n) (n - chunk off n)) (\<lambda>bs.
               ret (field (off mod BLOCK_SIZE) (chunk off n) d @ bs)))))))"
  by pat_completeness auto
termination by (relation "measure (\<lambda>(E, p, off, n). n)") (use chunk_pos in auto)

definition inode_read :: "'s fs_env \<Rightarrow> u64 \<Rightarrow> usize \<Rightarrow> usize \<Rightarrow> ('s itree, usize \<times> u8 list) cm" where
  "inode_read E p offset cnt = bind (gets (\<lambda>t. entry (itab t p))) (\<lambda>e.
     if itype e = INODE_DEVICE then
       andthen (assert_cm (\<lambda>_. major e = 1)) (con_read E p cnt)
     else
       (let nb = ucast (num_bytes e); m = (if cnt + offset > nb then nb - offset else cnt) in
        andthen (assert_cm (\<lambda>_. offset \<le> nb))
        (andthen (assert_cm (\<lambda>_. offset + m \<le> nb))
        (andthen (assert_cm (\<lambda>_. offset \<le> offset + m))
        (bind (read_loop E p (unat offset) (unat m)) (\<lambda>bs. ret (m, bs)))))))"

function write_loop :: "'s fs_env \<Rightarrow> bool \<Rightarrow> u64 \<Rightarrow> u8 list \<Rightarrow> nat \<Rightarrow> nat \<Rightarrow> ('s itree, unit) cm" where
  "write_loop E ctx p src off n =
     (if n = 0 then ret ()
      else
        bind (inode_map E ctx p (of_nat (off div BLOCK_SIZE))) (\<lambda>(a, _).
        bind (below (acquire (cache E) a)) (\<lambda>bp.
        bind (block_data E bp) (\<lambda>d.
          andthen (set_block E bp (patch (off mod BLOCK_SIZE) (take (chunk off n) src) d))
          (andthen (below (sync (cache E) ctx bp))
          (andthen (below (release (cache E) bp))
            (write_loop E ctx p (drop (chunk off n) src) (off + chunk off n) (n - chunk off n))))))))"
  by pat_completeness auto
termination by (relation "measure (\<lambda>(E, ctx, p, src, off, n). n)") (use chunk_pos in auto)

text \<open>A source buffer shorter than \<^verbatim>\<open>count\<close> would be read past its end.\<close>

definition inode_write :: "'s fs_env \<Rightarrow> SuperBlock \<Rightarrow> bool \<Rightarrow> u64 \<Rightarrow> u8 list \<Rightarrow> usize \<Rightarrow> usize \<Rightarrow> ('s itree, usize) cm" where
  "inode_write E sb ctx p src offset cnt = bind (gets (\<lambda>t. entry (itab t p))) (\<lambda>e.
     if itype e = INODE_DEVICE then
       andthen (assert_cm (\<lambda>_. major e = 1)) (con_write E p src cnt)
     else
       andthen (assert_cm (\<lambda>_. offset \<le> ucast (num_bytes e)))
       (andthen (assert_cm (\<lambda>_. offset + cnt \<le> of_nat INODE_MAX_BYTES))
       (andthen (assert_cm (\<lambda>_. offset \<le> offset + cnt))
       (andthen (guard_cm BadAccess (\<lambda>_. unat cnt \<le> length src))
       (andthen (write_loop E ctx p src (unat offset) (unat cnt))
       (andthen
         (bind (gets (\<lambda>t. num_bytes (entry (itab t p)))) (\<lambda>nb.
            if cnt > 0 \<and> offset + cnt > ucast nb then
              andthen (upd_entry p (\<lambda>e. e\<lparr>num_bytes := ucast (offset + cnt)\<rparr>)) (inode_sync E sb ctx p True)
            else ret ()))
         (ret cnt)))))))"

section \<open>Directories\<close>

record DirEntry =
  dino :: u16
  dname :: "u8 list"

definition bytes_of_dirent :: "DirEntry \<Rightarrow> u8 list" where
  "bytes_of_dirent e = to_le 2 (dino e) @ dname e"

definition dirent_of :: "u8 list \<Rightarrow> DirEntry" where
  "dirent_of d = \<lparr>dino = of_le (field 0 2 d), dname = field 2 FILE_NAME_MAX_LENGTH d\<rparr>"

text \<open>\<^verbatim>\<open>strncmp\<close> and \<^verbatim>\<open>strncpy\<close> on lists of bytes; behind the end of a list is the final zero.\<close>

fun strncmp_l :: "u8 list \<Rightarrow> u8 list \<Rightarrow> nat \<Rightarrow> int" where
  "strncmp_l s1 s2 0 = 0"
| "strncmp_l s1 s2 (Suc n) =
     (let x = (case s1 of [] \<Rightarrow> 0 | c # _ \<Rightarrow> c); y = (case s2 of [] \<Rightarrow> 0 | c # _ \<Rightarrow> c) in
      if x \<noteq> y then uint x - uint y
      else if x = 0 \<or> y = 0 then 0
      else strncmp_l (tl s1) (tl s2) n)"

definition strncpy_l :: "u8 list \<Rightarrow> nat \<Rightarrow> u8 list" where
  "strncpy_l src n = take n (takeWhile (\<lambda>c. c \<noteq> 0) src @ replicate n 0)"

text \<open>What a local \<^verbatim>\<open>DirEntry\<close> holds after \<open>bs\<close> was read into it.\<close>

definition read_into :: "u8 list \<Rightarrow> u8 list \<Rightarrow> u8 list" where
  "read_into bs de = bs @ drop (length bs) de"

lemma off_step: "(off :: u32) < off + w \<Longrightarrow> 2 ^ 32 - unat (off + w) < 2 ^ 32 - unat off"
  using unsigned_less [of "off + w", where ?'a = nat] by (simp add: word_less_nat_alt)

text \<open>The loops over the entries; a 32-bit offset that wraps around would start again.\<close>

function lookup_from :: "'s fs_env \<Rightarrow> u64 \<Rightarrow> u8 list \<Rightarrow> u8 list \<Rightarrow> u32 \<Rightarrow> ('s itree, usize \<times> usize option) cm" where
  "lookup_from E p name de off = bind (gets (\<lambda>t. num_bytes (entry (itab t p)))) (\<lambda>nb.
     if off < nb then
       bind (inode_read E p (ucast off) (of_nat sizeof_DirEntry)) (\<lambda>(_, bs).
         if dino (dirent_of (read_into bs de)) \<noteq> 0 \<and>
            strncmp_l (dname (dirent_of (read_into bs de))) name FILE_NAME_MAX_LENGTH = 0
         then ret (ucast (dino (dirent_of (read_into bs de))), Some (ucast off))
         else if off < off + of_nat sizeof_DirEntry
           then lookup_from E p name (read_into bs de) (off + of_nat sizeof_DirEntry)
         else fail Blocked)
     else ret (0, None))"
  by pat_completeness auto
termination by (relation "measure (\<lambda>(E, p, name, de, off). 2 ^ 32 - unat off)") (auto dest: off_step)

definition inode_lookup :: "'s fs_env \<Rightarrow> u8 list \<Rightarrow> u64 \<Rightarrow> u8 list \<Rightarrow> ('s itree, usize \<times> usize option) cm" where
  "inode_lookup E de0 p name =
     andthen (assert_cm (\<lambda>t. itype (entry (itab t p)) = INODE_DIRECTORY)) (lookup_from E p name de0 0)"

function slot_from :: "'s fs_env \<Rightarrow> u64 \<Rightarrow> u8 list \<Rightarrow> u32 \<Rightarrow> ('s itree, u32) cm" where
  "slot_from E p de off = bind (gets (\<lambda>t. num_bytes (entry (itab t p)))) (\<lambda>nb.
     if off < nb then
       bind (inode_read E p (ucast off) (of_nat sizeof_DirEntry)) (\<lambda>(_, bs).
         if dino (dirent_of (read_into bs de)) = 0 then ret off
         else if off < off + of_nat sizeof_DirEntry
           then slot_from E p (read_into bs de) (off + of_nat sizeof_DirEntry)
         else fail Blocked)
     else ret off)"
  by pat_completeness auto
termination by (relation "measure (\<lambda>(E, p, de, off). 2 ^ 32 - unat off)") (auto dest: off_step)

definition inode_insert :: "'s fs_env \<Rightarrow> SuperBlock \<Rightarrow> u8 list \<Rightarrow> bool \<Rightarrow> u64 \<Rightarrow> u8 list \<Rightarrow> usize \<Rightarrow> ('s itree, usize) cm" where
  "inode_insert E sb de0 ctx p name n =
     andthen (assert_cm (\<lambda>t. itype (entry (itab t p)) = INODE_DIRECTORY))
     (bind (inode_lookup E de0 p name) (\<lambda>(r, _).
        if r \<noteq> 0 then ret (- 1)
        else
          bind (slot_from E p de0 0) (\<lambda>off.
            andthen (inode_write E sb ctx p
                (bytes_of_dirent \<lparr>dino = ucast n, dname = strncpy_l name FILE_NAME_MAX_LENGTH\<rparr>)
                (ucast off) (of_nat sizeof_DirEntry))
              (ret (ucast off)))))"

definition inode_remove :: "'s fs_env \<Rightarrow> SuperBlock \<Rightarrow> bool \<Rightarrow> u64 \<Rightarrow> usize \<Rightarrow> ('s itree, unit) cm" where
  "inode_remove E sb ctx p index =
     andthen (assert_cm (\<lambda>t. itype (entry (itab t p)) = INODE_DIRECTORY))
       (andthen (inode_write E sb ctx p (replicate sizeof_DirEntry 0) index (of_nat sizeof_DirEntry)) (ret ()))"

section \<open>Paths\<close>

definition slash :: u8 where "slash = 47"

text \<open>\<^verbatim>\<open>name\<close> is a buffer of 14 bytes: a shorter element is copied with a final zero, the rest stays.\<close>

definition skipelem :: "u8 list \<Rightarrow> u8 list \<Rightarrow> u8 list option \<times> u8 list" where
  "skipelem path name =
     (let s = dropWhile (\<lambda>c. c = slash) path in
      if s = [] then (None, name)
      else
        (let el = takeWhile (\<lambda>c. c \<noteq> slash) s; len = length el in
         (Some (dropWhile (\<lambda>c. c = slash) (dropWhile (\<lambda>c. c \<noteq> slash) s)),
          if len \<ge> FILE_NAME_MAX_LENGTH then take FILE_NAME_MAX_LENGTH el
          else el @ 0 # drop (Suc len) name)))"

lemma skipelem_shorter: "skipelem path name = (Some rest, name') \<Longrightarrow> length rest < length path"
proof -
  assume a: "skipelem path name = (Some rest, name')"
  define s where "s = dropWhile (\<lambda>c. c = slash) path"
  have s: "s \<noteq> []" "rest = dropWhile (\<lambda>c. c = slash) (dropWhile (\<lambda>c. c \<noteq> slash) s)"
    using a by (auto simp: skipelem_def s_def Let_def split: if_splits)
  have "hd s \<noteq> slash" using s(1) hd_dropWhile [of "\<lambda>c. c = slash" path] by (simp add: s_def)
  then have "length (dropWhile (\<lambda>c. c \<noteq> slash) s) < length s"
    using s(1) by (cases s) (auto simp: le_imp_less_Suc length_dropWhile_le)
  then show "length rest < length path"
    using s(2) length_dropWhile_le [of "\<lambda>c. c = slash" path] length_dropWhile_le [of "\<lambda>c. c = slash" "dropWhile (\<lambda>c. c \<noteq> slash) s"]
    by (simp add: s_def)
qed

function namex_loop :: "'s fs_env \<Rightarrow> SuperBlock \<Rightarrow> u8 list \<Rightarrow> bool \<Rightarrow> bool \<Rightarrow> u8 list \<Rightarrow> u8 list \<Rightarrow> u64 \<Rightarrow>
    ('s itree, u64 \<times> u8 list) cm" where
  "namex_loop E sb de0 ctx parent path name ip =
     (case skipelem path name of
        (Some rest, name) \<Rightarrow>
          andthen (inode_lock ip)
          (bind (gets (\<lambda>t. itype (entry (itab t ip)))) (\<lambda>ty.
             if ty \<noteq> INODE_DIRECTORY then
               andthen (inode_unlock ip) (andthen (inode_put E sb ctx ip) (ret (0, name)))
             else if parent \<and> rest = [] then andthen (inode_unlock ip) (ret (ip, name))
             else
               bind (inode_lookup E de0 ip name) (\<lambda>(ind_no, _).
                 if ind_no = 0 then andthen (inode_unlock ip) (ret (0, name))
                 else
                   bind (inode_get E sb ind_no) (\<lambda>nx.
                     if nx = 0 then andthen (inode_unlock ip) (andthen (inode_put E sb ctx ip) (ret (0, name)))
                     else
                       andthen (inode_unlock ip)
                         (andthen (inode_put E sb ctx ip)
                           (namex_loop E sb de0 ctx parent rest name nx))))))
      | (None, name) \<Rightarrow>
          if parent then andthen (inode_put E sb ctx ip) (ret (0, name)) else ret (ip, name))"
  by pat_completeness auto
termination
  by (relation "measure (\<lambda>(E, sb, de0, ctx, parent, path, name, ip). length path)") (auto dest!: skipelem_shorter [OF sym])

text \<open>\<open>cwd\<close> is the current directory of the running process.\<close>

definition namex :: "'s fs_env \<Rightarrow> SuperBlock \<Rightarrow> u8 list \<Rightarrow> bool \<Rightarrow> bool \<Rightarrow> u64 \<Rightarrow> u8 list \<Rightarrow> u8 list \<Rightarrow>
    ('s itree, u64 \<times> u8 list) cm" where
  "namex E sb de0 ctx parent cwd path name =
     bind (if path \<noteq> [] \<and> hd path = slash then inode_get E sb ROOT_INODE_NO else inode_share cwd)
       (\<lambda>ip. namex_loop E sb de0 ctx parent path name ip)"

definition namei :: "'s fs_env \<Rightarrow> SuperBlock \<Rightarrow> u8 list \<Rightarrow> bool \<Rightarrow> u64 \<Rightarrow> u8 list \<Rightarrow> ('s itree, u64) cm" where
  "namei E sb de0 ctx cwd path =
     bind (namex E sb de0 ctx False cwd path (replicate FILE_NAME_MAX_LENGTH 0)) (\<lambda>(ip, _). ret ip)"

definition nameiparent :: "'s fs_env \<Rightarrow> SuperBlock \<Rightarrow> u8 list \<Rightarrow> bool \<Rightarrow> u64 \<Rightarrow> u8 list \<Rightarrow> u8 list \<Rightarrow> ('s itree, u64 \<times> u8 list) cm" where
  "nameiparent E sb de0 ctx cwd path name = namex E sb de0 ctx True cwd path name"

record stat =
  st_dev :: u64
  st_ino :: u64
  st_mode :: u32
  st_nlink :: u16
  st_size :: u32

text \<open>\<open>S_IFREG\<close> and \<open>S_IFDIR\<close> come from the C library's headers.\<close>

definition stati :: "u32 \<Rightarrow> u32 \<Rightarrow> u64 \<Rightarrow> ('s itree, stat) cm" where
  "stati S_IFREG S_IFDIR p = bind (gets (\<lambda>t. itab t p)) (\<lambda>ip.
     bind (if itype (entry ip) = INODE_REGULAR then ret S_IFREG
           else if itype (entry ip) = INODE_DIRECTORY then ret S_IFDIR
           else if itype (entry ip) = INODE_DEVICE then ret 0
           else fail (Panic ''unexpected stat type''))
       (\<lambda>mode. ret \<lparr>st_dev = 1, st_ino = inode_no ip, st_mode = mode, st_nlink = num_links (entry ip),
                    st_size = num_bytes (entry ip)\<rparr>))"

declare alloc_inode_from.simps [simp del] clear_direct.simps [simp del] clear_indirect.simps [simp del]
  read_loop.simps [simp del] write_loop.simps [simp del] lookup_from.simps [simp del] slot_from.simps [simp del]
  namex_loop.simps [simp del]

end
