(* ===== verification/InodeFile.thy ===== *)
theory InodeFile
  imports Inode
begin

text \<open>
  Files over the contract of the block cache. \<open>block_store\<close> says what the inode layer needs of the cache: it
  keeps a partial map \<open>V\<close> from the numbers of blocks in use to their contents. \<open>binv s V r l\<close> holds of a
  state that shows \<open>V\<close>, where \<open>r\<close> more blocks can be brought into memory and \<open>l\<close> more can be logged;
  \<open>held s p n V r l\<close> is the same with block \<open>n\<close> acquired at address \<open>p\<close>. A store is \<open>deep\<close> when it can allocate
  a block while another one is held, which mapping a block behind the indirect one does.
  The bytes of a file are the abstract value; reading returns them and writing changes
  exactly the bytes written.
\<close>

section \<open>The contract of the block cache\<close>

locale block_store =
  fixes C :: "'s BlockCache"
    and binv :: "'s \<Rightarrow> (usize \<rightharpoonup> u8 list) \<Rightarrow> nat \<Rightarrow> nat \<Rightarrow> bool"
    and held :: "'s \<Rightarrow> u64 \<Rightarrow> usize \<Rightarrow> (usize \<rightharpoonup> u8 list) \<Rightarrow> nat \<Rightarrow> nat \<Rightarrow> bool"
    and acost :: nat
    and space :: "usize set"
    and deep :: bool
  assumes block_size: "binv s V r l \<Longrightarrow> V n = Some d \<Longrightarrow> length d = BLOCK_SIZE"
    and acquire_law: "binv s V (Suc r) l \<Longrightarrow> V n = Some d \<Longrightarrow>
      runs (acquire C n) s (\<lambda>p t. held t p n V r l \<and> get_data C p t = d)"
    and set_data_law: "held s p n V r l \<Longrightarrow> length d = BLOCK_SIZE \<Longrightarrow>
      held (set_data C p d s) p n V r l \<and> get_data C p (set_data C p d s) = d"
    and sync_law: "held s p n V r (Suc l) \<Longrightarrow>
      runs (sync C True p) s (\<lambda>_ t. held t p n (V(n \<mapsto> get_data C p s)) r l \<and> get_data C p t = get_data C p s)"
    and release_law: "held s p n V r l \<Longrightarrow> V n = Some (get_data C p s) \<Longrightarrow> runs (release C p) s (\<lambda>_ t. binv t V r l)"
    and alloc_law: "binv s V (r + acost) (Suc (Suc l)) \<Longrightarrow> \<exists>n \<in> space. V n = None \<Longrightarrow>
      runs (alloc C True) s (\<lambda>n t. n \<in> space \<and> V n = None \<and> binv t (V(n \<mapsto> replicate BLOCK_SIZE 0)) r l)"
    and alloc_held_law: "deep \<Longrightarrow> held s p n V (r + acost) (Suc (Suc l)) \<Longrightarrow> V n = Some (get_data C p s) \<Longrightarrow> \<exists>m \<in> space. V m = None \<Longrightarrow>
      runs (alloc C True) s (\<lambda>m t. m \<in> space \<and> V m = None \<and> held t p n (V(m \<mapsto> replicate BLOCK_SIZE 0)) r l \<and>
        get_data C p t = get_data C p s)"
    and free_law: "binv s V (Suc r) (Suc l) \<Longrightarrow> n \<in> space \<Longrightarrow> V n \<noteq> None \<Longrightarrow>
      runs (bfree C True n) s (\<lambda>_ t. binv t (V(n := None)) r l)"
    and budget: "binv s V r l \<Longrightarrow> r' \<le> r \<Longrightarrow> l' \<le> l \<Longrightarrow> binv s V r' l'"
    and space_ok: "n \<in> space \<Longrightarrow> n \<noteq> 0 \<and> n < 2 ^ 32" "finite space"

section \<open>Symbolic execution of the inode layer\<close>

lemma runs_inode_steps [wp]:
  "runs (below m) t Q \<longleftrightarrow> runs m (base t) (\<lambda>a s. Q a (t\<lparr>base := s\<rparr>))"
  "runs (assert_cm P) t' Q' \<longleftrightarrow> P t' \<and> Q' () t'"
  "runs (upd_inode p f) t R \<longleftrightarrow> R () (t\<lparr>itab := (itab t)(p := f (itab t p))\<rparr>)"
  "runs (upd_entry p g) t R \<longleftrightarrow> R () (t\<lparr>itab := (itab t)(p := (itab t p)\<lparr>entry := g (entry (itab t p))\<rparr>)\<rparr>)"
  "runs (block_data E bp) t S \<longleftrightarrow> S (get_data (cache E) bp (base t)) t"
  "runs (set_block E bp d) t R \<longleftrightarrow> R () (t\<lparr>base := set_data (cache E) bp d (base t)\<rparr>)"
  by (auto simp: runs_def below_def assert_cm_def upd_inode_def upd_entry_def block_data_def set_block_def cm_simps
      split: sum.splits)

context block_store
begin

text \<open>The laws as rules on states of the inode layer.\<close>

lemma acquire_rule:
  assumes "binv (base t) V (Suc r) l" "V n = Some d"
    and "\<And>p s. held s p n V r l \<Longrightarrow> get_data C p s = d \<Longrightarrow> R p (t\<lparr>base := s\<rparr>)"
  shows "runs (below (acquire C n)) t R"
  unfolding runs_inode_steps by (rule runs_mono [OF acquire_law [OF assms(1,2)]]) (use assms(3) in auto)

lemma release_rule:
  assumes "held (base t) p n V r l" "V n = Some (get_data C p (base t))" "\<And>s. binv s V r l \<Longrightarrow> R () (t\<lparr>base := s\<rparr>)"
  shows "runs (below (release C p)) t R"
  unfolding runs_inode_steps by (rule runs_mono [OF release_law [OF assms(1,2)]]) (use assms(3) in auto)

lemma sync_rule:
  assumes "held (base t) p n V r (Suc l)" "get_data C p (base t) = d"
    and "\<And>s. held s p n (V(n \<mapsto> d)) r l \<Longrightarrow> get_data C p s = d \<Longrightarrow> R () (t\<lparr>base := s\<rparr>)"
  shows "runs (below (sync C True p)) t R"
  unfolding runs_inode_steps by (rule runs_mono [OF sync_law [OF assms(1)]]) (use assms(2,3) in auto)

text \<open>Reading a block, and changing one.\<close>

lemma read_block:
  assumes "binv (base t) V (Suc r) l" "V n = Some d" "\<And>s. binv s V r l \<Longrightarrow> R (t\<lparr>base := s\<rparr>)"
  shows "runs (below (acquire C n)) t (\<lambda>bp t. get_data C bp (base t) = d \<and> runs (below (release C bp)) t (\<lambda>_. R))"
  by (rule acquire_rule [OF assms(1,2)]) (use assms(2,3) in \<open>auto intro!: release_rule\<close>)

lemma write_block:
  assumes "binv (base t) V (Suc r) (Suc l)" "V n = Some d" "length (f d) = BLOCK_SIZE"
    and "\<And>s. binv s (V(n \<mapsto> f d)) r l \<Longrightarrow> R (t\<lparr>base := s\<rparr>)"
  shows "runs (below (acquire C n)) t (\<lambda>bp t. runs (below (sync C True bp))
    (t\<lparr>base := set_data C bp (f (get_data C bp (base t))) (base t)\<rparr>) (\<lambda>_ t. runs (below (release C bp)) t (\<lambda>_. R)))"
proof (rule acquire_rule [OF assms(1,2)])
  fix p s
  assume h: "held s p n V r (Suc l)" "get_data C p s = d"
  note S = set_data_law [OF h(1) assms(3)]
  show "runs (below (sync C True p)) (t\<lparr>base := s, base := set_data C p (f (get_data C p (base (t\<lparr>base := s\<rparr>)))) (base (t\<lparr>base := s\<rparr>))\<rparr>)
      (\<lambda>_ t. runs (below (release C p)) t (\<lambda>_. R))"
    by (rule sync_rule) (use S h(2) assms(4) in \<open>auto intro!: release_rule\<close>)
qed

end

section \<open>The bytes of a file\<close>

type_synonym bview = "usize \<rightharpoonup> u8 list"

definition bmap :: "InodeEntry \<Rightarrow> bview \<Rightarrow> nat \<Rightarrow> u32" where
  "bmap e V i = (if i < INODE_NUM_DIRECT then addrs e ! i
     else if indirect e = 0 then 0 else get_addr (the (V (ucast (indirect e)))) (i - INODE_NUM_DIRECT))"

definition fbyte :: "InodeEntry \<Rightarrow> bview \<Rightarrow> nat \<Rightarrow> u8" where
  "fbyte e V k = (if bmap e V (k div BLOCK_SIZE) = 0 then 0
     else the (V (ucast (bmap e V (k div BLOCK_SIZE)))) ! (k mod BLOCK_SIZE))"

text \<open>Blocks of a file are in use, lie in the data area, and no block is used twice.\<close>

definition file_ok :: "usize set \<Rightarrow> InodeEntry \<Rightarrow> bview \<Rightarrow> bool" where
  "file_ok space e V \<longleftrightarrow> length (addrs e) = INODE_NUM_DIRECT \<and>
     (indirect e \<noteq> 0 \<longrightarrow> ucast (indirect e) \<in> space \<and> V (ucast (indirect e)) \<noteq> None) \<and>
     (\<forall>i < INODE_MAX_BLOCKS. bmap e V i \<noteq> 0 \<longrightarrow> ucast (bmap e V i) \<in> space \<and> V (ucast (bmap e V i)) \<noteq> None \<and>
        bmap e V i \<noteq> indirect e \<and> (\<forall>j < INODE_MAX_BLOCKS. bmap e V j = bmap e V i \<longrightarrow> j = i))"

text \<open>A file without holes.\<close>

definition file_full :: "InodeEntry \<Rightarrow> bview \<Rightarrow> bool" where
  "file_full e V \<longleftrightarrow> unat (num_bytes e) \<le> INODE_MAX_BYTES \<and>
     (\<forall>k < unat (num_bytes e). bmap e V (k div BLOCK_SIZE) \<noteq> 0)"

definition blocks_in :: "nat \<Rightarrow> nat \<Rightarrow> nat" where
  "blocks_in off n = (if n = 0 then 0 else Suc ((off + n - 1) div BLOCK_SIZE - off div BLOCK_SIZE))"

lemma chunk_block:
  assumes "0 < n" "k < chunk off n"
  shows "(off + k) div BLOCK_SIZE = off div BLOCK_SIZE" "(off + k) mod BLOCK_SIZE = off mod BLOCK_SIZE + k"
proof -
  have "k < BLOCK_SIZE - off mod BLOCK_SIZE" using assms(2) by (simp add: chunk_def)
  then have lt: "off mod BLOCK_SIZE + k < BLOCK_SIZE" by linarith
  have "off + k = BLOCK_SIZE * (off div BLOCK_SIZE) + (off mod BLOCK_SIZE + k)" by simp
  then show "(off + k) div BLOCK_SIZE = off div BLOCK_SIZE" "(off + k) mod BLOCK_SIZE = off mod BLOCK_SIZE + k"
    using lt by (metis add.right_neutral div_less div_mult_self4 BLOCK_SIZE_def zero_neq_numeral,
      metis mod_less mod_mult_self4)
qed

lemma chunk_next:
  assumes "chunk off n < n"
  shows "(off + chunk off n) div BLOCK_SIZE = Suc (off div BLOCK_SIZE)"
proof -
  have "chunk off n = BLOCK_SIZE - off mod BLOCK_SIZE" using assms by (simp add: chunk_def min_def split: if_splits)
  then have "off + chunk off n = BLOCK_SIZE * Suc (off div BLOCK_SIZE)"
    using mult_div_mod_eq [of BLOCK_SIZE off] mod_less_divisor [of BLOCK_SIZE off]
    unfolding mult_Suc_right BLOCK_SIZE_def by linarith
  then show ?thesis by (simp add: BLOCK_SIZE_def)
qed

lemma blocks_in_step:
  assumes "0 < n"
  shows "blocks_in off n = Suc (blocks_in (off + chunk off n) (n - chunk off n))"
proof (cases "chunk off n < n")
  case True
  have "off + chunk off n \<le> off + n - 1" using True by simp
  then have "Suc (off div BLOCK_SIZE) \<le> (off + n - 1) div BLOCK_SIZE"
    using chunk_next [OF True] div_le_mono [of "off + chunk off n" "off + n - 1" BLOCK_SIZE] by simp
  then show ?thesis using True chunk_next [OF True] by (simp add: blocks_in_def)
next
  case False
  then have c: "chunk off n = n" using chunk_pos [OF assms, of off] by simp
  then have "(off + (n - 1)) div BLOCK_SIZE = off div BLOCK_SIZE" using assms by (intro chunk_block(1) [OF assms]) simp
  then show ?thesis using c assms by (simp add: blocks_in_def)
qed

lemma unat_of_nat_block: "i < INODE_MAX_BLOCKS \<Longrightarrow> unat (of_nat i :: u64) = i"
  by (intro unat_of_nat_lt) (simp add: fs_sizes)

text \<open>How \<^verbatim>\<open>inode_map\<close> splits the numbers of blocks into direct and indirect ones.\<close>

lemma block_split:
  assumes "i < INODE_MAX_BLOCKS"
  shows "(of_nat i :: u64) < of_nat INODE_NUM_DIRECT \<longleftrightarrow> i < INODE_NUM_DIRECT"
    "\<not> i < INODE_NUM_DIRECT \<Longrightarrow> (of_nat i :: u64) - of_nat INODE_NUM_DIRECT < of_nat INODE_NUM_INDIRECT"
    "\<not> i < INODE_NUM_DIRECT \<Longrightarrow> unat ((of_nat i :: u64) - of_nat INODE_NUM_DIRECT) = i - INODE_NUM_DIRECT"
proof -
  note u = unat_of_nat_block [OF assms]
  have 1: "unat (of_nat INODE_NUM_DIRECT :: u64) = INODE_NUM_DIRECT" "unat (of_nat INODE_NUM_INDIRECT :: u64) = INODE_NUM_INDIRECT"
    by (simp_all add: fs_sizes)
  show "(of_nat i :: u64) < of_nat INODE_NUM_DIRECT \<longleftrightarrow> i < INODE_NUM_DIRECT"
    unfolding word_less_nat_alt u 1 ..
  show 2: "unat ((of_nat i :: u64) - of_nat INODE_NUM_DIRECT) = i - INODE_NUM_DIRECT" if "\<not> i < INODE_NUM_DIRECT"
    by (subst unat_minus_word) (use that in \<open>simp_all add: word_le_nat_alt u 1\<close>)
  show "(of_nat i :: u64) - of_nat INODE_NUM_DIRECT < of_nat INODE_NUM_INDIRECT" if "\<not> i < INODE_NUM_DIRECT"
    unfolding word_less_nat_alt 2 [OF that] 1 using assms that by (simp add: INODE_MAX_BLOCKS_def)
qed

section \<open>Reading\<close>

context block_store
begin

lemma map_mapped:
  assumes E: "cache E = C" and t: "binv (base t) V (Suc r) l" "file_ok space (entry (itab t p)) V" "i < INODE_MAX_BLOCKS"
    "bmap (entry (itab t p)) V i \<noteq> 0"
    and R: "\<And>s. binv s V r l \<Longrightarrow> R (ucast (bmap (entry (itab t p)) V i), False) (t\<lparr>base := s\<rparr>)"
  shows "runs (inode_map E ctx p (of_nat i)) t R"
proof (cases "i < INODE_NUM_DIRECT")
  case True
  then have "addrs (entry (itab t p)) ! i \<noteq> 0" "bmap (entry (itab t p)) V i = addrs (entry (itab t p)) ! i"
    using t(4) by (simp_all add: bmap_def)
  moreover have "R (ucast (bmap (entry (itab t p)) V i), False) (t\<lparr>base := base t\<rparr>)"
    by (rule R) (use budget [OF t(1)] in simp)
  ultimately show ?thesis
    using True by (simp add: inode_map_def wp block_split [OF t(3)] unat_of_nat_block [OF t(3)])
next
  case False
  let ?e = "entry (itab t p)"
  have ind: "indirect ?e \<noteq> 0" "bmap ?e V i = get_addr (the (V (ucast (indirect ?e)))) (i - INODE_NUM_DIRECT)"
    using False t(4) by (auto simp: bmap_def split: if_splits)
  obtain d where d: "V (ucast (indirect ?e)) = Some d" using t(2) ind(1) by (auto simp: file_ok_def)
  then have a: "get_addr d (i - INODE_NUM_DIRECT) = bmap ?e V i" using ind(2) by simp
  have "runs (below (acquire C (ucast (indirect ?e)))) t (\<lambda>bp t. get_data C bp (base t) = d \<and>
      runs (below (release C bp)) t (\<lambda>_. R (ucast (bmap ?e V i), False)))"
    by (rule read_block [OF t(1) d]) (rule R)
  then show ?thesis
    by (simp add: inode_map_def E False ind(1) Let_def block_split [OF t(3)] runs_bind runs_gets runs_ret runs_inode_steps(5))
      (elim runs_mono, elim conjE, simp add: a t(4) runs_andthen runs_ret)
qed

text \<open>The bytes of a chunk.\<close>

lemma chunk_bytes:
  assumes "bmap e V (off div BLOCK_SIZE) \<noteq> 0" "V (ucast (bmap e V (off div BLOCK_SIZE))) = Some d" "length d = BLOCK_SIZE" "0 < n"
  shows "field (off mod BLOCK_SIZE) (chunk off n) d = map (fbyte e V) [off..<off + chunk off n]"
proof (rule nth_equalityI)
  have c: "off mod BLOCK_SIZE + chunk off n \<le> length d" using assms(3) by (simp add: chunk_def BLOCK_SIZE_def)
  then show "length (field (off mod BLOCK_SIZE) (chunk off n) d) = length (map (fbyte e V) [off..<off + chunk off n])" by simp
  fix k assume "k < length (field (off mod BLOCK_SIZE) (chunk off n) d)"
  then have k: "k < chunk off n" using c by simp
  then show "field (off mod BLOCK_SIZE) (chunk off n) d ! k = map (fbyte e V) [off..<off + chunk off n] ! k"
    using c assms(1,2) chunk_block [OF assms(4) k] by (simp add: field_nth fbyte_def)
qed

lemma read_loop_spec:
  assumes E: "cache E = C" and "binv (base t) V (r + 2 * blocks_in off n) l" "file_ok space (entry (itab t p)) V"
    "off + n \<le> INODE_MAX_BYTES" "\<forall>k. off \<le> k \<longrightarrow> k < off + n \<longrightarrow> bmap (entry (itab t p)) V (k div BLOCK_SIZE) \<noteq> 0"
    and R: "\<And>s. binv s V r l \<Longrightarrow> R (map (fbyte (entry (itab t p)) V) [off..<off + n]) (t\<lparr>base := s\<rparr>)"
  shows "runs (read_loop E p off n) t R"
  using assms(2-)
proof (induction n arbitrary: off t R rule: less_induct)
  case (less n)
  show ?case
  proof (cases "n = 0")
    case True
    then have "R [] (t\<lparr>base := base t\<rparr>)" using less.prems(1) less.prems(5) [of "base t"] by (simp add: blocks_in_def)
    then show ?thesis using True by (subst read_loop.simps) (simp add: wp)
  next
    case False
    let ?e = "entry (itab t p)" and ?c = "chunk off n" and ?i = "off div BLOCK_SIZE"
    have n: "0 < n" and c: "0 < ?c" "?c \<le> n" using False chunk_pos [of n off] by simp_all
    have b: "r + 2 * blocks_in off n = Suc (Suc (r + 2 * blocks_in (off + ?c) (n - ?c)))" by (simp add: blocks_in_step [OF n])
    have i: "?i < INODE_MAX_BLOCKS"
      using less.prems(3) n unfolding INODE_MAX_BYTES_def by (intro less_mult_imp_div_less) linarith
    have m: "bmap ?e V ?i \<noteq> 0" using less.prems(4) n by auto
    obtain d where d: "V (ucast (bmap ?e V ?i)) = Some d" using less.prems(2) i m by (fastforce simp: file_ok_def)
    have len: "length d = BLOCK_SIZE" by (rule block_size [OF less.prems(1) d])
    note field = chunk_bytes [OF m d len n]
    have split: "map (fbyte ?e V) [off..<off + n] = map (fbyte ?e V) [off..<off + ?c] @ map (fbyte ?e V) [off + ?c..<off + n]"
      using upt_add_eq_append [of off "off + ?c" "n - ?c"] c(2) by simp
    have rest: "runs (read_loop E p (off + ?c) (n - ?c)) (t\<lparr>base := s\<rparr>) (\<lambda>bs u. R (field (off mod BLOCK_SIZE) ?c d @ bs) u)"
      if "binv s V (r + 2 * blocks_in (off + ?c) (n - ?c)) l" for s
      by (rule less.IH) (use that less.prems c field split in \<open>auto\<close>)
    have "runs (below (acquire C (ucast (bmap ?e V ?i)))) (t\<lparr>base := s\<rparr>) (\<lambda>bp t. get_data C bp (base t) = d \<and>
        runs (below (release C bp)) t (\<lambda>_ t. runs (read_loop E p (off + ?c) (n - ?c)) t
          (\<lambda>bs u. R (field (off mod BLOCK_SIZE) ?c d @ bs) u)))"
      if "binv s V (Suc (r + 2 * blocks_in (off + ?c) (n - ?c))) l" for s
      by (rule read_block [where V = V]) (use that rest d in auto)
    then have "runs (inode_map E False p (of_nat ?i)) t (\<lambda>(a, _) t. runs (below (acquire C a)) t (\<lambda>bp t. get_data C bp (base t) = d \<and>
        runs (below (release C bp)) t (\<lambda>_ t. runs (read_loop E p (off + ?c) (n - ?c)) t
          (\<lambda>bs u. R (field (off mod BLOCK_SIZE) ?c d @ bs) u))))"
      by (intro map_mapped [OF E _ less.prems(2) i m]) (use less.prems(1) b in auto)
    moreover have "runs (bind (below (acquire C a)) (\<lambda>bp. bind (block_data E bp) (\<lambda>d. andthen (below (release C bp))
        (bind (read_loop E p (off + ?c) (n - ?c)) (\<lambda>bs. ret (field (off mod BLOCK_SIZE) ?c d @ bs)))))) u R"
      if "runs (below (acquire C a)) u (\<lambda>bp t. get_data C bp (base t) = d \<and>
        runs (below (release C bp)) t (\<lambda>_ t. runs (read_loop E p (off + ?c) (n - ?c)) t
          (\<lambda>bs u. R (field (off mod BLOCK_SIZE) ?c d @ bs) u)))" for a u
      using that by (simp add: runs_bind runs_inode_steps(5) runs_andthen runs_ret E) (elim runs_mono, elim conjE, simp)
    ultimately show ?thesis
      unfolding read_loop.simps [of E p off n] using n
      by (simp add: E runs_bind [of "inode_map _ _ _ _"]) (erule runs_mono, auto)
  qed
qed

lemma read_spec:
  assumes E: "cache E = C" and t: "e = entry (itab t p)" "itype e \<noteq> INODE_DEVICE" "file_ok space e V" "file_full e V"
    and off: "unat off \<le> unat (num_bytes e)" "unat off + unat cnt < 2 ^ 64" "m = min (unat cnt) (unat (num_bytes e) - unat off)"
    and b: "binv (base t) V (r + 2 * blocks_in (unat off) m) l"
    and R: "\<And>s. binv s V r l \<Longrightarrow> R (of_nat m, map (fbyte e V) [unat off..<unat off + m]) (t\<lparr>base := s\<rparr>)"
  shows "runs (inode_read E p off cnt) t R"
proof -
  let ?nb = "ucast (num_bytes e) :: u64"
  have nb: "unat ?nb = unat (num_bytes e)" "unat (num_bytes e) < 2 ^ 32"
    using unsigned_less [of "num_bytes e", where ?'a = nat] by (simp_all add: unsigned_ucast_eq take_bit_nat_eq_self)
  have sum: "unat (cnt + off) = unat cnt + unat off" using off(2) by (simp add: unat_word_ariths)
  define w where "w = (if cnt + off > ?nb then ?nb - off else cnt)"
  have w: "unat w = m" "w = of_nat m"
  proof -
    show "unat w = m"
      using off(1,3) nb sum unat_minus_word [of off ?nb] by (auto simp: w_def word_less_nat_alt word_le_nat_alt)
    then show "w = of_nat m" by (simp add: word_unat_eq_iff unat_of_nat_lt [of m] del: of_nat_unat) (metis unsigned_less unat_of_nat_lt)
  qed
  have ow: "unat (off + w) = unat off + m"
    using off w nb by (simp add: unat_word_ariths min_def split: if_splits)
  have a: "off \<le> ?nb" "off + w \<le> ?nb" "off \<le> off + w"
    using off ow nb by (auto simp: word_le_nat_alt min_def)
  have "runs (read_loop E p (unat off) m) t (\<lambda>bs. R (w, bs))"
    by (rule read_loop_spec [OF E b]) (use t off(1,3) R w(2) in \<open>auto simp: file_full_def min_def split: if_splits\<close>)
  then show ?thesis
    unfolding inode_read_def runs_bind runs_gets t(1) [symmetric] Let_def w_def [symmetric] using t(2) a
    by (simp add: wp w(1))
qed

end

section \<open>Writing\<close>

definition fblocks :: "InodeEntry \<Rightarrow> bview \<Rightarrow> usize set" where
  "fblocks e V = {ucast (bmap e V i) | i. i < INODE_MAX_BLOCKS \<and> bmap e V i \<noteq> 0}"

lemma ucast_u32_inj: "(ucast (a :: u32) :: u64) = ucast b \<longleftrightarrow> a = b"
  using ucast_up_down [of a] ucast_up_down [of b] by metis

lemma ucast_down_up: "n < 2 ^ 32 \<Longrightarrow> ucast (ucast (n :: u64) :: u32) = n"
  by (simp add: word_unat_eq_iff unsigned_ucast_eq unsigned_take_bit_eq take_bit_nat_eq_self word_less_nat_alt)

lemma div_block: "k < INODE_MAX_BYTES \<Longrightarrow> k div BLOCK_SIZE < INODE_MAX_BLOCKS"
  unfolding INODE_MAX_BYTES_def by (rule less_mult_imp_div_less)

text \<open>The blocks of a file, with the indirect one.\<close>

definition ablocks :: "InodeEntry \<Rightarrow> bview \<Rightarrow> usize set" where
  "ablocks e V = fblocks e V \<union> (if indirect e = 0 then {} else {ucast (indirect e)})"

lemma get_addr_zero: "i < INODE_NUM_INDIRECT \<Longrightarrow> get_addr (replicate BLOCK_SIZE 0) i = 0"
proof -
  assume "i < INODE_NUM_INDIRECT"
  then have "field (4 * i) 4 (replicate BLOCK_SIZE 0 :: u8 list) = replicate 4 0" by (simp add: field_def fs_sizes min_def)
  then show ?thesis by (simp add: get_addr_def numeral_eq_Suc)
qed

lemma get_put_addr:
  assumes "length d = BLOCK_SIZE" "i < INODE_NUM_INDIRECT" "j < INODE_NUM_INDIRECT"
  shows "get_addr (put_addr i a d) j = (if j = i then a else get_addr d j)" "length (put_addr i a d) = BLOCK_SIZE"
proof -
  have b: "4 * i + 4 \<le> BLOCK_SIZE" "4 * j + 4 \<le> BLOCK_SIZE" using assms(2,3) by (simp_all add: fs_sizes)
  then show "length (put_addr i a d) = BLOCK_SIZE" using assms(1) by (simp add: put_addr_def)
  show "get_addr (put_addr i a d) j = (if j = i then a else get_addr d j)"
  proof (cases "j = i")
    case True
    then show ?thesis using b assms(1) by (simp add: get_addr_def put_addr_def field_patch_same)
  next
    case False
    then have "4 * j + 4 \<le> 4 * i \<or> 4 * i + 4 \<le> 4 * j" by linarith
    then show ?thesis using False b assms(1) by (simp add: get_addr_def put_addr_def field_patch_other)
  qed
qed

lemma bmap_cong:
  assumes "addrs e' = addrs e" "indirect e' = indirect e" "indirect e \<noteq> 0 \<Longrightarrow> V' (ucast (indirect e)) = V (ucast (indirect e))"
  shows "bmap e' V' i = bmap e V i"
  using assms by (simp add: bmap_def)

text \<open>A new indirect block maps nothing.\<close>

lemma new_indirect:
  assumes ok: "file_ok S e V" and e: "indirect e = 0" and n: "ucast n \<in> S" "V (ucast n) = None" "n \<noteq> 0"
    and e': "e' = e\<lparr>indirect := n\<rparr>" and V': "V' = V(ucast n \<mapsto> replicate BLOCK_SIZE 0)"
  shows "file_ok S e' V'" "i < INODE_MAX_BLOCKS \<Longrightarrow> bmap e' V' i = bmap e V i" "k < INODE_MAX_BYTES \<Longrightarrow> fbyte e' V' k = fbyte e V k"
proof -
  have bm: "bmap e' V' i = bmap e V i" if "i < INODE_MAX_BLOCKS" for i
    using that e n(3) by (simp add: bmap_def e' V' get_addr_zero INODE_MAX_BLOCKS_def)
  then show "i < INODE_MAX_BLOCKS \<Longrightarrow> bmap e' V' i = bmap e V i" .
  have K: "ucast (bmap e V j) \<in> S" "V (ucast (bmap e V j)) \<noteq> None" if "j < INODE_MAX_BLOCKS" "bmap e V j \<noteq> 0" for j
    using ok that by (auto simp: file_ok_def)
  have old: "V' (ucast (bmap e V j)) = V (ucast (bmap e V j))" "bmap e V j \<noteq> n" if "j < INODE_MAX_BLOCKS" "bmap e V j \<noteq> 0" for j
    using K(2) [OF that] n(2) by (auto simp: V')
  have ie: "indirect e' = n" by (simp add: e')
  show "file_ok S e' V'"
    unfolding file_ok_def
  proof (intro conjI allI impI)
    show "length (addrs e') = INODE_NUM_DIRECT" using ok by (simp add: file_ok_def e')
    show "ucast (indirect e') \<in> S" "V' (ucast (indirect e')) \<noteq> None" using n by (simp_all add: e' V')
    fix j assume "j < INODE_MAX_BLOCKS" "bmap e' V' j \<noteq> 0"
    then have j: "j < INODE_MAX_BLOCKS" "bmap e V j \<noteq> 0" by (simp_all add: bm)
    show "ucast (bmap e' V' j) \<in> S" "V' (ucast (bmap e' V' j)) \<noteq> None" "bmap e' V' j \<noteq> indirect e'"
      using K [OF j] old [OF j] j(1) ie by (simp_all add: bm)
    show "j' = j" if "j' < INODE_MAX_BLOCKS" "bmap e' V' j' = bmap e' V' j" for j'
      using ok that j by (simp add: bm file_ok_def)
  qed
  show "fbyte e' V' k = fbyte e V k" if "k < INODE_MAX_BYTES"
    using old(1) [OF div_block [OF that]] by (simp add: fbyte_def bm div_block [OF that])
qed

text \<open>A new block behind the indirect one.\<close>

lemma new_via_indirect:
  assumes ok: "file_ok S e V" and e: "indirect e \<noteq> 0" "V (ucast (indirect e)) = Some d" "length d = BLOCK_SIZE"
    and j: "j < INODE_NUM_INDIRECT" "get_addr d j = 0" and n: "ucast n \<in> S" "V (ucast n) = None" "n \<noteq> 0"
    and V': "V' = V(ucast n \<mapsto> replicate BLOCK_SIZE 0, ucast (indirect e) \<mapsto> put_addr j n d)"
  shows "file_ok S e V'" "i < INODE_MAX_BLOCKS \<Longrightarrow> bmap e V' i = (if i = INODE_NUM_DIRECT + j then n else bmap e V i)"
    "k < INODE_MAX_BYTES \<Longrightarrow> fbyte e V' k = fbyte e V k"
proof -
  have ni: "n \<noteq> indirect e" using e n(2) by auto
  have bm: "bmap e V' i = (if i = INODE_NUM_DIRECT + j then n else bmap e V i)" if "i < INODE_MAX_BLOCKS" for i
    using that e j get_put_addr(1) [OF e(3) j(1), of "i - INODE_NUM_DIRECT" n] by (auto simp: bmap_def V' INODE_MAX_BLOCKS_def)
  then show "i < INODE_MAX_BLOCKS \<Longrightarrow> bmap e V' i = (if i = INODE_NUM_DIRECT + j then n else bmap e V i)" .
  have K: "ucast (bmap e V x) \<in> S" "V (ucast (bmap e V x)) \<noteq> None" "bmap e V x \<noteq> indirect e"
    if "x < INODE_MAX_BLOCKS" "bmap e V x \<noteq> 0" for x
    using ok that by (auto simp: file_ok_def)
  have old: "V' (ucast (bmap e V x)) = V (ucast (bmap e V x))" "bmap e V x \<noteq> n" if "x < INODE_MAX_BLOCKS" "bmap e V x \<noteq> 0" for x
    using K(2,3) [OF that] n(2) by (auto simp: V' ucast_u32_inj)
  have new: "V' (ucast n) = Some (replicate BLOCK_SIZE 0)" using ni by (simp add: V' ucast_u32_inj)
  have z: "bmap e V (INODE_NUM_DIRECT + j) = 0" using e j by (simp add: bmap_def)
  show "file_ok S e V'"
    unfolding file_ok_def
  proof (intro conjI allI impI)
    show "length (addrs e) = INODE_NUM_DIRECT" "ucast (indirect e) \<in> S" using ok e by (simp_all add: file_ok_def)
    show "V' (ucast (indirect e)) \<noteq> None" by (simp add: V')
    fix x assume x: "x < INODE_MAX_BLOCKS" "bmap e V' x \<noteq> 0"
    show "ucast (bmap e V' x) \<in> S" "V' (ucast (bmap e V' x)) \<noteq> None" "bmap e V' x \<noteq> indirect e"
      using K [OF x(1)] old [OF x(1)] x n(1) ni new by (cases "x = INODE_NUM_DIRECT + j"; simp add: bm)+
    show "y = x" if "y < INODE_MAX_BLOCKS" "bmap e V' y = bmap e V' x" for y
      using ok that x old(2) [OF x(1)] old(2) [OF that(1)] n(3) unfolding file_ok_def
      by (cases "x = INODE_NUM_DIRECT + j"; cases "y = INODE_NUM_DIRECT + j") (auto simp: bm)
  qed
  show "fbyte e V' k = fbyte e V k" if k: "k < INODE_MAX_BYTES"
  proof (cases "k div BLOCK_SIZE = INODE_NUM_DIRECT + j")
    case True
    then show ?thesis using n(3) new z div_block [OF k] by (simp add: fbyte_def bm BLOCK_SIZE_def)
  next
    case False
    then show ?thesis using old(1) [OF div_block [OF k]] by (simp add: fbyte_def bm div_block [OF k])
  qed
qed

lemma ablocks_sub:
  assumes "\<And>i. i < INODE_MAX_BLOCKS \<Longrightarrow> bmap e' V' i \<noteq> 0 \<Longrightarrow> bmap e' V' i = bmap e V i \<or> ucast (bmap e' V' i) \<in> B"
    "indirect e' = 0 \<or> indirect e' = indirect e \<or> ucast (indirect e') \<in> B"
  shows "ablocks e' V' \<subseteq> ablocks e V \<union> B"
proof
  fix x
  assume x: "x \<in> ablocks e' V'"
  show "x \<in> ablocks e V \<union> B"
  proof (cases "x \<in> fblocks e' V'")
    case True
    then obtain i where i: "i < INODE_MAX_BLOCKS" "bmap e' V' i \<noteq> 0" "x = ucast (bmap e' V' i)" unfolding fblocks_def by blast
    from assms(1) [OF i(1,2)] show ?thesis
    proof
      assume "bmap e' V' i = bmap e V i"
      then have "x \<in> fblocks e V" using i unfolding fblocks_def by auto
      then show ?thesis by (simp add: ablocks_def)
    qed (use i(3) in simp)
  next
    case False
    then have "indirect e' \<noteq> 0" "x = ucast (indirect e')" using x by (simp_all add: ablocks_def split: if_splits)
    then show ?thesis using assms(2) by (auto simp: ablocks_def)
  qed
qed

text \<open>
  From file \<open>e\<close>, \<open>V\<close> to \<open>e'\<close>, \<open>V'\<close> the bytes \<open>src\<close> were written at \<open>off\<close>: no other byte, no block of another file and
  no field but the addresses has changed, and the blocks written are mapped.
\<close>

definition wrote :: "InodeEntry \<Rightarrow> bview \<Rightarrow> nat \<Rightarrow> u8 list \<Rightarrow> InodeEntry \<Rightarrow> bview \<Rightarrow> bool" where
  "wrote e V off src e' V' \<longleftrightarrow>
     (\<forall>k < INODE_MAX_BYTES. fbyte e' V' k = (if off \<le> k \<and> k < off + length src then src ! (k - off) else fbyte e V k)) \<and>
     (\<forall>i < INODE_MAX_BLOCKS. bmap e V i \<noteq> 0 \<longrightarrow> bmap e' V' i = bmap e V i) \<and>
     (\<forall>k. off \<le> k \<longrightarrow> k < off + length src \<longrightarrow> bmap e' V' (k div BLOCK_SIZE) \<noteq> 0) \<and>
     (\<forall>x. V x \<noteq> None \<longrightarrow> x \<notin> ablocks e V \<longrightarrow> V' x = V x) \<and> (\<forall>x. V x \<noteq> None \<longrightarrow> V' x \<noteq> None) \<and>
     ablocks e' V' \<subseteq> ablocks e V \<union> {x. V x = None} \<and> e' = e\<lparr>addrs := addrs e', indirect := indirect e'\<rparr>"

text \<open>A new direct block.\<close>

lemma file_alloc:
  assumes ok: "file_ok space e V" and i: "i < INODE_NUM_DIRECT" "addrs e ! i = 0"
    and n: "n \<in> space" "V n = None" "n \<noteq> 0" "n < 2 ^ 32"
    and e': "e' = e\<lparr>addrs := (addrs e)[i := ucast n]\<rparr>" and V': "V' = V(n \<mapsto> replicate BLOCK_SIZE 0)"
  shows "file_ok space e' V'" "wrote e V off [] e' V'" "bmap e' V' i = ucast n"
proof -
  have len: "length (addrs e) = INODE_NUM_DIRECT" using ok by (simp add: file_ok_def)
  have i': "i < INODE_MAX_BLOCKS" using i(1) by (simp add: INODE_MAX_BLOCKS_def)
  have un: "ucast (ucast n :: u32) = n" "(ucast n :: u32) \<noteq> 0"
    using ucast_down_up [OF n(4)] n(3) by (simp, metis ucast_0)
  have ind: "V' (ucast (indirect e)) = V (ucast (indirect e))" if "indirect e \<noteq> 0"
    using ok that n(2) V' by (auto simp: file_ok_def)
  have bm: "bmap e' V' j = (if j = i then ucast n else bmap e V j)" for j
    using i len ind by (auto simp: bmap_def e')
  have old: "V' (ucast (bmap e V j)) = V (ucast (bmap e V j)) \<and> bmap e V j \<noteq> ucast n"
    if "j < INODE_MAX_BLOCKS" "bmap e V j \<noteq> 0" for j
  proof -
    have "V (ucast (bmap e V j)) \<noteq> None" using ok that by (auto simp: file_ok_def)
    then show ?thesis using n(2) V' un(1) by auto
  qed
  have bi: "bmap e V i = 0" using i by (simp add: bmap_def)
  show "bmap e' V' i = ucast n" by (simp add: bm)
  have indn: "ucast n \<noteq> indirect e"
    using ok n(2) un by (auto simp: file_ok_def)
  have K: "ucast (bmap e V j) \<in> space \<and> V (ucast (bmap e V j)) \<noteq> None \<and> bmap e V j \<noteq> indirect e"
    if "j < INODE_MAX_BLOCKS" "bmap e V j \<noteq> 0" for j using ok that by (auto simp: file_ok_def)
  have Vz: "V' n = Some (replicate BLOCK_SIZE 0)" by (simp add: V')
  have V'n: "V' n \<noteq> None" and ie: "indirect e' = indirect e" by (simp_all add: V' e')
  show "file_ok space e' V'"
    unfolding file_ok_def
  proof (intro conjI allI impI)
    show "length (addrs e') = INODE_NUM_DIRECT" using len by (simp add: e')
    show "ucast (indirect e') \<in> space" "V' (ucast (indirect e')) \<noteq> None" if "indirect e' \<noteq> 0"
      using ok that ind by (auto simp: file_ok_def e')
    fix j assume j: "j < INODE_MAX_BLOCKS" "bmap e' V' j \<noteq> 0"
    show "ucast (bmap e' V' j) \<in> space" "V' (ucast (bmap e' V' j)) \<noteq> None" "bmap e' V' j \<noteq> indirect e'"
      using K [of j] old [of j] j n(1) un indn V'n ie by (cases "j = i"; simp add: bm)+
    show "j' = j" if "j' < INODE_MAX_BLOCKS" "bmap e' V' j' = bmap e' V' j" for j'
      using ok that j old [of j] old [of j'] un(2) unfolding bm file_ok_def
      by (metis (no_types, lifting))
  qed
  have fb: "fbyte e' V' k = fbyte e V k" if "k < INODE_MAX_BYTES" for k
    using old [OF div_block [OF that]] un bi Vz by (cases "k div BLOCK_SIZE = i") (simp_all add: fbyte_def bm BLOCK_SIZE_def)
  have "ablocks e' V' \<subseteq> ablocks e V \<union> {x. V x = None}"
    by (rule ablocks_sub) (use n(2) un(1) ie in \<open>auto simp: bm\<close>)
  moreover have "V' x = V x" if "V x \<noteq> None" for x using that n(2) by (auto simp: V')
  moreover have "e' = e\<lparr>addrs := addrs e', indirect := indirect e'\<rparr>" by (simp add: e')
  ultimately show "wrote e V off [] e' V'"
    unfolding wrote_def using fb bm bi n(2) by auto
qed

text \<open>A new block behind the indirect one, which may be new as well.\<close>

lemma wrote_indirect:
  assumes "file_ok S e V" "indirect e = 0" "ucast n \<in> S" "V (ucast n) = None" "n \<noteq> 0"
    and e': "e' = e\<lparr>indirect := n\<rparr>" and V': "V' = V(ucast n \<mapsto> replicate BLOCK_SIZE 0)"
  shows "wrote e V off [] e' V'"
proof -
  note N = new_indirect [OF assms]
  have "ablocks e' V' \<subseteq> ablocks e V \<union> {x. V x = None}"
    by (rule ablocks_sub) (use N(2) assms(4) e' in auto)
  moreover have "V' x = V x" if "V x \<noteq> None" for x using that assms(4) by (auto simp: V')
  moreover have "e' = e\<lparr>addrs := addrs e', indirect := indirect e'\<rparr>" by (simp add: e')
  ultimately show ?thesis unfolding wrote_def using N(2,3) by auto
qed

lemma wrote_via:
  assumes "file_ok S e V" "indirect e \<noteq> 0" "V (ucast (indirect e)) = Some d" "length d = BLOCK_SIZE" "j < INODE_NUM_INDIRECT"
      "get_addr d j = 0" "ucast n \<in> S" "V (ucast n) = None" "n \<noteq> 0"
    and V': "V' = V(ucast n \<mapsto> replicate BLOCK_SIZE 0, ucast (indirect e) \<mapsto> put_addr j n d)"
  shows "wrote e V off [] e V'"
proof -
  note N = new_via_indirect [OF assms]
  have "ablocks e V' \<subseteq> ablocks e V \<union> {x. V x = None}"
    by (rule ablocks_sub) (use N(2) assms(8) in \<open>auto split: if_splits\<close>)
  moreover have "ucast (indirect e) \<in> ablocks e V" using assms(2) by (simp add: ablocks_def)
  moreover have "bmap e V (INODE_NUM_DIRECT + j) = 0" using assms(3,6) by (simp add: bmap_def)
  ultimately show ?thesis unfolding wrote_def using N(2,3) assms(8) by (auto simp: V')
qed

text \<open>New contents for a block of the file.\<close>

lemma file_patch:
  assumes ok: "file_ok space e V" and i: "i < INODE_MAX_BLOCKS" "bmap e V i \<noteq> 0"
    and d: "V (ucast (bmap e V i)) = Some d" "length d = BLOCK_SIZE" "length d' = BLOCK_SIZE"
    and V': "V' = V(ucast (bmap e V i) \<mapsto> d')"
  shows "file_ok space e V'" "bmap e V' j = bmap e V j"
    "k < INODE_MAX_BYTES \<Longrightarrow> fbyte e V' k = (if k div BLOCK_SIZE = i then d' ! (k mod BLOCK_SIZE) else fbyte e V k)"
proof -
  have ni: "bmap e V i \<noteq> indirect e" using ok i by (auto simp: file_ok_def)
  then have "V' (ucast (indirect e)) = V (ucast (indirect e))" by (auto simp: V' ucast_u32_inj)
  then have bm: "bmap e V' j = bmap e V j" for j by (simp add: bmap_def)
  then show "bmap e V' j = bmap e V j" .
  have dom: "V' x \<noteq> None \<longleftrightarrow> V x \<noteq> None" for x using d(1) by (auto simp: V')
  show "file_ok space e V'" using ok by (auto simp: file_ok_def bm dom simp del: not_None_eq)
  show "fbyte e V' k = (if k div BLOCK_SIZE = i then d' ! (k mod BLOCK_SIZE) else fbyte e V k)" if k: "k < INODE_MAX_BYTES"
  proof (cases "k div BLOCK_SIZE = i")
    case True
    have "V' (ucast (bmap e V i)) = Some d'" by (simp add: V')
    then show ?thesis using True i(2) by (simp add: fbyte_def bm)
  next
    case False
    then have "bmap e V (k div BLOCK_SIZE) \<noteq> bmap e V i \<or> bmap e V (k div BLOCK_SIZE) = 0"
      using ok i div_block [OF k] by (auto simp: file_ok_def)
    then have "bmap e V (k div BLOCK_SIZE) \<noteq> 0 \<Longrightarrow> V' (ucast (bmap e V (k div BLOCK_SIZE))) = V (ucast (bmap e V (k div BLOCK_SIZE)))"
      by (auto simp: V' ucast_u32_inj)
    then show ?thesis using False by (simp add: fbyte_def bm)
  qed
qed

lemma file_chunk:
  assumes ok: "file_ok space e V" and n: "0 < n" "off + n \<le> INODE_MAX_BYTES" "length src = chunk off n"
    and d: "bmap e V (off div BLOCK_SIZE) \<noteq> 0" "V (ucast (bmap e V (off div BLOCK_SIZE))) = Some d" "length d = BLOCK_SIZE"
    and V': "V' = V(ucast (bmap e V (off div BLOCK_SIZE)) \<mapsto> patch (off mod BLOCK_SIZE) src d)"
  shows "file_ok space e V'" "wrote e V off src e V'"
proof -
  have c: "off mod BLOCK_SIZE + length src \<le> length d" using d(3) n(3) by (simp add: chunk_def BLOCK_SIZE_def)
  have i: "off div BLOCK_SIZE < INODE_MAX_BLOCKS" using n by (intro div_block) linarith
  have len: "length (patch (off mod BLOCK_SIZE) src d) = BLOCK_SIZE" using c d(3) by simp
  note P = file_patch [OF ok i d(1,2,3) len V']
  show "file_ok space e V'" by (rule P(1))
  have fb: "fbyte e V' k = (if off \<le> k \<and> k < off + length src then src ! (k - off) else fbyte e V k)"
    if k: "k < INODE_MAX_BYTES" for k
  proof (cases "k div BLOCK_SIZE = off div BLOCK_SIZE")
    case True
    have kb: "k mod BLOCK_SIZE < length d" by (simp add: d(3)) (simp add: BLOCK_SIZE_def)
    have "k = off div BLOCK_SIZE * BLOCK_SIZE + k mod BLOCK_SIZE" "off = off div BLOCK_SIZE * BLOCK_SIZE + off mod BLOCK_SIZE"
      using True div_mult_mod_eq [of k BLOCK_SIZE] by simp_all
    then have "k mod BLOCK_SIZE - off mod BLOCK_SIZE = k - off" "off mod BLOCK_SIZE \<le> k mod BLOCK_SIZE \<longleftrightarrow> off \<le> k"
      "k mod BLOCK_SIZE < off mod BLOCK_SIZE + length src \<longleftrightarrow> k < off + length src"
      by linarith+
    moreover have "fbyte e V k = d ! (k mod BLOCK_SIZE)" using True d by (simp add: fbyte_def)
    ultimately show ?thesis using P(3) [OF k] True nth_patch [OF c kb] by simp
  next
    case False
    have "\<not> (off \<le> k \<and> k < off + length src)"
      using False chunk_block(1) [OF n(1), of "k - off" off] n(3) by (auto simp: less_diff_conv2)
    then show ?thesis using P(3) [OF k] False by auto
  qed
  have "bmap e V' (k div BLOCK_SIZE) \<noteq> 0" if "off \<le> k" "k < off + length src" for k
    using chunk_block(1) [OF n(1), of "k - off" off] n(3) that d(1) P(2) by (simp add: less_diff_conv2)
  moreover have "ucast (bmap e V (off div BLOCK_SIZE)) \<in> ablocks e V" using i d(1) by (auto simp: ablocks_def fblocks_def)
  moreover have "ablocks e V' = ablocks e V" by (simp add: ablocks_def fblocks_def P(2))
  ultimately show "wrote e V off src e V'" unfolding wrote_def using fb P(2) V' by auto
qed

lemma wrote_trans:
  assumes 1: "wrote e V off s1 e1 V1" and 2: "wrote e1 V1 (off + length s1) s2 e2 V2"
    and len: "off + length s1 + length s2 \<le> INODE_MAX_BYTES"
  shows "wrote e V off (s1 @ s2) e2 V2"
proof -
  have fb: "fbyte e2 V2 k = (if off \<le> k \<and> k < off + length (s1 @ s2) then (s1 @ s2) ! (k - off) else fbyte e V k)"
    if "k < INODE_MAX_BYTES" for k
    using 1 2 that by (auto simp: wrote_def nth_append)
  have bm: "bmap e2 V2 i = bmap e V i" if "i < INODE_MAX_BLOCKS" "bmap e V i \<noteq> 0" for i
    using 1 2 that by (simp add: wrote_def)
  have mapped: "bmap e2 V2 (k div BLOCK_SIZE) \<noteq> 0" if k: "off \<le> k" "k < off + length (s1 @ s2)" for k
  proof (cases "k < off + length s1")
    case True
    then have "bmap e1 V1 (k div BLOCK_SIZE) \<noteq> 0" using 1 k by (auto simp: wrote_def)
    moreover have "k div BLOCK_SIZE < INODE_MAX_BLOCKS" using True len by (intro div_block) simp
    ultimately show ?thesis using 2 by (simp add: wrote_def)
  qed (use 2 k in \<open>auto simp: wrote_def\<close>)
  have keep: "V2 x = V x" if "V x \<noteq> None" "x \<notin> ablocks e V" for x
  proof -
    have "V1 x = V x" "x \<notin> ablocks e1 V1" using 1 that by (auto simp: wrote_def)
    then show ?thesis using 2 that by (auto simp: wrote_def)
  qed
  have sub: "ablocks e2 V2 \<subseteq> ablocks e V \<union> {x. V x = None}"
    using 1 2 unfolding wrote_def by blast
  have "e1 = e\<lparr>addrs := addrs e1, indirect := indirect e1\<rparr>" "e2 = e1\<lparr>addrs := addrs e2, indirect := indirect e2\<rparr>"
    using 1 2 unfolding wrote_def by blast+
  then have "e2 = e\<lparr>addrs := addrs e2, indirect := indirect e2\<rparr>" by (cases e; cases e1; cases e2) simp
  moreover have "V2 x \<noteq> None" if "V x \<noteq> None" for x using 1 2 that unfolding wrote_def by blast
  ultimately show ?thesis unfolding wrote_def using fb bm mapped keep sub by blast
qed

text \<open>Inode \<open>p\<close> with another entry.\<close>

definition with_entry :: "'s itree \<Rightarrow> u64 \<Rightarrow> InodeEntry \<Rightarrow> 's itree" where
  "with_entry t p e = t\<lparr>itab := (itab t)(p := (itab t p)\<lparr>entry := e\<rparr>)\<rparr>"

lemma with_entry_simps [simp]:
  "base (with_entry t p e) = base t" "entry (itab (with_entry t p e) p) = e" "q \<noteq> p \<Longrightarrow> itab (with_entry t p e) q = itab t q"
  "with_entry (with_entry t p e) p e' = with_entry t p e'" "(with_entry t p e)\<lparr>base := s\<rparr> = with_entry (t\<lparr>base := s\<rparr>) p e"
  "with_entry t p (entry (itab t p)) = t" "inode_no (itab (with_entry t p e) p) = inode_no (itab t p)"
  "ivalid (itab (with_entry t p e) p) = ivalid (itab t p)"
  by (simp_all add: with_entry_def)

lemma wrote_refl: "file_ok space e V \<Longrightarrow> wrote e V off [] e V"
  by (auto simp: wrote_def)

text \<open>
  Whether a write has to find blocks behind the indirect one is the flag \<open>w\<close> below; \<open>fresh_indirect w e\<close> is one if the indirect
  block is to be allocated for it.
\<close>

definition fresh_indirect :: "bool \<Rightarrow> InodeEntry \<Rightarrow> nat" where
  "fresh_indirect w e = of_bool (w \<and> indirect e = 0)"

lemma fresh_indirect_near [simp]: "fresh_indirect False e = 0"
  by (simp add: fresh_indirect_def)

context block_store
begin

abbreviation nfree :: "bview \<Rightarrow> nat" where "nfree V \<equiv> card {x \<in> space. V x = None}"

lemma nfree_use: "n \<in> space \<Longrightarrow> V n = None \<Longrightarrow> nfree V = Suc (nfree (V(n \<mapsto> d)))"
proof -
  assume n: "n \<in> space" "V n = None"
  have "{x \<in> space. (V(n \<mapsto> d)) x = None} = {x \<in> space. V x = None} - {n}" by auto
  moreover have "finite {x \<in> space. V x = None}" "n \<in> {x \<in> space. V x = None}" using n space_ok(2) by simp_all
  ultimately show ?thesis by (metis (no_types, lifting) card_Suc_Diff1)
qed

lemma nfree_ex: "0 < nfree V \<Longrightarrow> \<exists>n \<in> space. V n = None"
proof -
  assume "0 < nfree V"
  then have "{x \<in> space. V x = None} \<noteq> {}" by (metis card.empty less_nat_zero_code)
  then show ?thesis by blast
qed

lemma space_cast: "n \<in> space \<Longrightarrow> ucast (ucast n :: u32) = n \<and> (ucast n :: u32) \<noteq> 0"
  using space_ok(1) ucast_down_up [of n] by (metis ucast_0)

text \<open>The last part of \<^verbatim>\<open>inode_map\<close>: the indirect block is there, the data block is not.\<close>

lemma map_via:
  assumes E: "cache E = C" "deep" and b: "binv (base t) V (r + acost + 1) (l + 3)" "file_ok space (entry (itab t p)) V"
    and i: "indirect (entry (itab t p)) \<noteq> 0" "j < INODE_NUM_INDIRECT" "bmap (entry (itab t p)) V (INODE_NUM_DIRECT + j) = 0" "0 < nfree V"
    and R: "\<And>s V1. binv s V1 r l \<Longrightarrow> file_ok space (entry (itab t p)) V1 \<Longrightarrow> wrote (entry (itab t p)) V off [] (entry (itab t p)) V1 \<Longrightarrow>
      bmap (entry (itab t p)) V1 (INODE_NUM_DIRECT + j) \<noteq> 0 \<Longrightarrow> nfree V = Suc (nfree V1) \<Longrightarrow>
      R (ucast (bmap (entry (itab t p)) V1 (INODE_NUM_DIRECT + j)), True) (t\<lparr>base := s\<rparr>)"
  shows "runs (below (acquire C (ucast (indirect (entry (itab t p)))))) t (\<lambda>bp t. get_addr (get_data C bp (base t)) j = 0 \<and>
    runs (below (alloc C True)) t (\<lambda>n t. runs (below (sync C True bp))
      (t\<lparr>base := set_data C bp (put_addr j (ucast n) (get_data C bp (base t))) (base t)\<rparr>)
      (\<lambda>_ t. runs (below (release C bp)) t (\<lambda>_. R (ucast (ucast n :: u32), True)))))"
proof -
  let ?e = "entry (itab t p)"
  obtain d where d: "V (ucast (indirect ?e)) = Some d" using b(2) i(1) by (auto simp: file_ok_def)
  have len: "length d = BLOCK_SIZE" by (rule block_size [OF b(1) d])
  have z: "get_addr d j = 0" using i(1,3) d by (simp add: bmap_def)
  have iM: "INODE_NUM_DIRECT + j < INODE_MAX_BLOCKS" using i(2) by (simp add: INODE_MAX_BLOCKS_def)
  have fin: "runs (below (sync C True bp)) (t\<lparr>base := set_data C bp (put_addr j (ucast n) d) s\<rparr>)
      (\<lambda>_ t. runs (below (release C bp)) t (\<lambda>_. R (ucast (ucast n :: u32), True)))"
    if n: "n \<in> space" "V n = None" and s: "held s bp (ucast (indirect ?e)) (V(n \<mapsto> replicate BLOCK_SIZE 0)) r (Suc l)" for bp n s
  proof -
    have n': "ucast (ucast n :: u32) \<in> space" "V (ucast (ucast n :: u32)) = None" "(ucast n :: u32) \<noteq> 0" "ucast (ucast n :: u32) = n"
      using n space_cast by auto
    let ?V = "V(n \<mapsto> replicate BLOCK_SIZE 0, ucast (indirect ?e) \<mapsto> put_addr j (ucast n) d)"
    have V: "?V = V(ucast (ucast n :: u32) \<mapsto> replicate BLOCK_SIZE 0, ucast (indirect ?e) \<mapsto> put_addr j (ucast n) d)" by (simp add: n'(4))
    note N = new_via_indirect [OF b(2) i(1) d len i(2) z n'(1-3) V]
    have "nfree ?V = nfree (V(n \<mapsto> replicate BLOCK_SIZE 0))" using d n(2) by (intro arg_cong [of _ _ card]) auto
    then have "nfree V = Suc (nfree ?V)" using nfree_use [of n V, OF n] by simp
    then have fin: "R (ucast (ucast n :: u32), True) (t\<lparr>base := u\<rparr>)" if "binv u ?V r l" for u
      using R [OF that N(1) wrote_via [OF b(2) i(1) d len i(2) z n'(1-3) V]] N(2) [OF iM] n'(3) by simp
    have "length (put_addr j (ucast n) d) = BLOCK_SIZE" by (rule get_put_addr(2) [OF len i(2) i(2)])
    note S = set_data_law [OF s this]
    show ?thesis by (rule sync_rule) (use S fin in \<open>auto intro!: release_rule\<close>)
  qed
  have b': "binv (base t) V (Suc (r + acost)) (Suc (Suc (Suc l)))" using budget [OF b(1)] by simp
  show ?thesis
  proof (rule acquire_rule [OF b' d], intro conjI)
    fix bp s
    assume h: "held s bp (ucast (indirect ?e)) V (r + acost) (Suc (Suc (Suc l)))" "get_data C bp s = d"
    show "get_addr (get_data C bp (base (t\<lparr>base := s\<rparr>))) j = 0" using h(2) z by simp
    have "runs (alloc C True) s (\<lambda>m t. m \<in> space \<and> V m = None \<and> held t bp (ucast (indirect ?e)) (V(m \<mapsto> replicate BLOCK_SIZE 0)) r (Suc l) \<and>
        get_data C bp t = d)"
      using alloc_held_law [OF E(2) h(1)] nfree_ex [OF i(4)] d h(2) by simp
    then show "runs (below (alloc C True)) (t\<lparr>base := s\<rparr>) (\<lambda>n t. runs (below (sync C True bp))
        (t\<lparr>base := set_data C bp (put_addr j (ucast n) (get_data C bp (base t))) (base t)\<rparr>)
        (\<lambda>_ t. runs (below (release C bp)) t (\<lambda>_. R (ucast (ucast n :: u32), True))))"
      unfolding runs_inode_steps(1) [of "alloc C True"] by (simp, elim runs_mono) (use fin in auto)
  qed
qed

lemma map_far:
  assumes E: "cache E = C" "deep" and b: "binv (base t) V (r + acost + 1 + acost * fresh_indirect True (entry (itab t p)))
      (l + 3 + 2 * fresh_indirect True (entry (itab t p)))" "file_ok space (entry (itab t p)) V"
    and i: "i < INODE_MAX_BLOCKS" "\<not> i < INODE_NUM_DIRECT" "bmap (entry (itab t p)) V i = 0" "fresh_indirect True (entry (itab t p)) < nfree V"
      "off \<le> INODE_MAX_BYTES"
    and R: "\<And>s e1 V1. binv s V1 r l \<Longrightarrow> file_ok space e1 V1 \<Longrightarrow> wrote (entry (itab t p)) V off [] e1 V1 \<Longrightarrow>
      bmap e1 V1 i \<noteq> 0 \<Longrightarrow> indirect e1 \<noteq> 0 \<Longrightarrow> nfree V \<le> Suc (nfree V1) + fresh_indirect True (entry (itab t p)) \<Longrightarrow>
      R (ucast (bmap e1 V1 i), True) (with_entry (t\<lparr>base := s\<rparr>) p e1)"
  shows "runs (inode_map E True p (of_nat i)) t R"
proof -
  let ?e = "entry (itab t p)"
  define j where "j = i - INODE_NUM_DIRECT"
  have j: "i = INODE_NUM_DIRECT + j" "j < INODE_NUM_INDIRECT" using i(1,2) by (simp_all add: j_def INODE_MAX_BLOCKS_def)
  have via: "runs (below (acquire C (ucast (indirect e1)))) (with_entry (t\<lparr>base := s\<rparr>) p e1) (\<lambda>bp t. get_addr (get_data C bp (base t)) j = 0 \<and>
    runs (below (alloc C True)) t (\<lambda>n t. runs (below (sync C True bp))
      (t\<lparr>base := set_data C bp (put_addr j (ucast n) (get_data C bp (base t))) (base t)\<rparr>)
      (\<lambda>_ t. runs (below (release C bp)) t (\<lambda>_. R (ucast (ucast n :: u32), True)))))"
    if s: "binv s V1 (r + acost + 1) (l + 3)" "file_ok space e1 V1" "wrote ?e V off [] e1 V1" "indirect e1 \<noteq> 0" "bmap e1 V1 i = 0" "0 < nfree V1"
      "nfree V \<le> nfree V1 + fresh_indirect True ?e" for s e1 V1
  proof -
    let ?t = "with_entry (t\<lparr>base := s\<rparr>) p e1"
    have w: "wrote ?e V off [] e1 V2" if "wrote e1 V1 off [] e1 V2" for V2
      using wrote_trans [OF s(3), of "[]" e1 V2] that i(5) by simp
    show ?thesis
      using map_via [OF E, of ?t V1 r l p j off R] s i(5) j w R by simp
  qed
  have o1: "unat ((of_nat i :: u64) - of_nat INODE_NUM_DIRECT) = j" using block_split(3) [OF i(1,2)] by (simp add: j_def)
  note simps = inode_map_def E(1) i(2) Let_def block_split [OF i(1)] o1 runs_bind runs_gets runs_ret runs_andthen runs_inode_steps(4-6)
  show ?thesis
  proof (cases "indirect ?e = 0")
    case False
    then have "runs (below (acquire C (ucast (indirect ?e)))) t (\<lambda>bp t. get_addr (get_data C bp (base t)) j = 0 \<and>
      runs (below (alloc C True)) t (\<lambda>n t. runs (below (sync C True bp))
        (t\<lparr>base := set_data C bp (put_addr j (ucast n) (get_data C bp (base t))) (base t)\<rparr>)
        (\<lambda>_ t. runs (below (release C bp)) t (\<lambda>_. R (ucast (ucast n :: u32), True)))))"
      using via [of "base t" V ?e] b i(3,4) wrote_refl [OF b(2)] by (simp add: fresh_indirect_def)
    then show ?thesis using False by (simp add: simps) (elim runs_mono, elim conjE, simp add: simps)
  next
    case True
    have f: "1 < nfree V" "fresh_indirect True ?e = 1" using i(4) True by (simp_all add: fresh_indirect_def)
    have b': "binv (base t) V (r + acost + 1 + acost) (Suc (Suc (l + 3)))" using b(1) f(2) by (simp add: ac_simps)
    have new: "runs (below (acquire C (ucast (ucast n :: u32)))) (with_entry (t\<lparr>base := s\<rparr>) p (?e\<lparr>indirect := ucast n\<rparr>))
      (\<lambda>bp t. get_addr (get_data C bp (base t)) j = 0 \<and> runs (below (alloc C True)) t (\<lambda>n t. runs (below (sync C True bp))
        (t\<lparr>base := set_data C bp (put_addr j (ucast n) (get_data C bp (base t))) (base t)\<rparr>)
        (\<lambda>_ t. runs (below (release C bp)) t (\<lambda>_. R (ucast (ucast n :: u32), True)))))"
      if n: "n \<in> space" "V n = None" and s: "binv s (V(n \<mapsto> replicate BLOCK_SIZE 0)) (r + acost + 1) (l + 3)" for n s
    proof -
      let ?e1 = "?e\<lparr>indirect := ucast n\<rparr>" and ?V1 = "V(n \<mapsto> replicate BLOCK_SIZE 0)"
      have n': "ucast (ucast n :: u32) \<in> space" "V (ucast (ucast n :: u32)) = None" "(ucast n :: u32) \<noteq> 0"
        and V: "?V1 = V(ucast (ucast n :: u32) \<mapsto> replicate BLOCK_SIZE 0)" using n space_cast by auto
      note N = new_indirect [OF b(2) True n' refl V]
      show ?thesis
        using via [OF s N(1) wrote_indirect [OF b(2) True n' refl V]] n'(3) N(2) [OF i(1)] i(3) nfree_use [of n V, OF n] f by simp
    qed
    have "runs (below (alloc C True)) t (\<lambda>n u. itab u = itab t \<and> runs (below (acquire C (ucast (ucast n :: u32)))) (with_entry u p (?e\<lparr>indirect := ucast n\<rparr>))
      (\<lambda>bp t. get_addr (get_data C bp (base t)) j = 0 \<and> runs (below (alloc C True)) t (\<lambda>n t. runs (below (sync C True bp))
        (t\<lparr>base := set_data C bp (put_addr j (ucast n) (get_data C bp (base t))) (base t)\<rparr>)
        (\<lambda>_ t. runs (below (release C bp)) t (\<lambda>_. R (ucast (ucast n :: u32), True))))))"
      unfolding runs_inode_steps(1) [of "alloc C True" t] using f(1) new
      by (intro runs_mono [OF alloc_law [OF b' nfree_ex]]) auto
    then show ?thesis using True
      by (simp add: simps) (elim runs_mono, elim conjE, simp add: simps with_entry_def, elim runs_mono, elim conjE, simp add: simps)
  qed
qed

lemma map_near:
  assumes E: "cache E = C" and b: "binv (base t) V (r + acost) (Suc (Suc l))" "file_ok space (entry (itab t p)) V"
    and i: "i < INODE_NUM_DIRECT" "bmap (entry (itab t p)) V i = 0" "0 < nfree V"
    and R: "\<And>s e1 V1. binv s V1 r l \<Longrightarrow> file_ok space e1 V1 \<Longrightarrow> wrote (entry (itab t p)) V off [] e1 V1 \<Longrightarrow>
      bmap e1 V1 i \<noteq> 0 \<Longrightarrow> indirect e1 = indirect (entry (itab t p)) \<Longrightarrow> nfree V = Suc (nfree V1) \<Longrightarrow>
      R (ucast (bmap e1 V1 i), True) (with_entry (t\<lparr>base := s\<rparr>) p e1)"
  shows "runs (inode_map E True p (of_nat i)) t R"
proof -
  let ?e = "entry (itab t p)"
  have iM: "i < INODE_MAX_BLOCKS" and z: "addrs ?e ! i = 0" using i by (simp_all add: INODE_MAX_BLOCKS_def bmap_def)
  have "R (ucast (ucast n :: u32), True) (with_entry (t\<lparr>base := s\<rparr>) p (?e\<lparr>addrs := (addrs ?e)[i := ucast n]\<rparr>))"
    if n: "n \<in> space" "V n = None" and s: "binv s (V(n \<mapsto> replicate BLOCK_SIZE 0)) r l" for n s
  proof -
    have n': "n \<noteq> 0" "n < 2 ^ 32" "(ucast n :: u32) \<noteq> 0" using space_ok(1) [OF n(1)] space_cast [OF n(1)] by auto
    note F = file_alloc [OF b(2) i(1) z n n'(1,2) refl refl]
    show ?thesis using R [OF s F(1,2)] F(3) n'(3) nfree_use [of n V, OF n] by simp
  qed
  then have "runs (below (alloc C True)) t (\<lambda>n u. itab u = itab t \<and>
      R (ucast (ucast n :: u32), True) (with_entry u p (?e\<lparr>addrs := (addrs ?e)[i := ucast n]\<rparr>)))"
    unfolding runs_inode_steps by (intro runs_mono [OF alloc_law [OF b(1) nfree_ex [OF i(3)]]]) auto
  then show ?thesis
    using i(1) z unfolding inode_map_def
    by (simp add: E block_split [OF iM] unat_of_nat_block [OF iM] runs_bind runs_gets runs_andthen runs_ret runs_inode_steps(4))
      (elim runs_mono, elim conjE, simp add: with_entry_def)
qed

lemma map_spec:
  assumes E: "cache E = C" and b: "binv (base t) V (r + acost + 1 + acost * fresh_indirect w (entry (itab t p)))
      (l + 2 + of_bool w + 2 * fresh_indirect w (entry (itab t p)))"
    and ok: "file_ok space (entry (itab t p)) V" and i: "i < INODE_MAX_BLOCKS" "off \<le> INODE_MAX_BYTES" "w \<Longrightarrow> deep"
    and can: "bmap (entry (itab t p)) V i \<noteq> 0 \<or> i < INODE_NUM_DIRECT \<or> w" "fresh_indirect w (entry (itab t p)) < nfree V"
    and R: "\<And>s e1 V1 m. binv s V1 (r + acost * fresh_indirect w e1) (l + 2 * fresh_indirect w e1) \<Longrightarrow> file_ok space e1 V1 \<Longrightarrow>
      wrote (entry (itab t p)) V off [] e1 V1 \<Longrightarrow> bmap e1 V1 i \<noteq> 0 \<Longrightarrow>
      nfree V + fresh_indirect w e1 \<le> Suc (nfree V1) + fresh_indirect w (entry (itab t p)) \<Longrightarrow>
      R (ucast (bmap e1 V1 i), m) (with_entry (t\<lparr>base := s\<rparr>) p e1)"
  shows "runs (inode_map E True p (of_nat i)) t R"
proof -
  let ?e = "entry (itab t p)"
  consider "bmap ?e V i \<noteq> 0" | "bmap ?e V i = 0" "i < INODE_NUM_DIRECT" | "bmap ?e V i = 0" "\<not> i < INODE_NUM_DIRECT" w using can(1) by blast
  then show ?thesis
  proof cases
    case 1
    have b': "binv (base t) V (Suc (r + acost * fresh_indirect w ?e)) (l + 2 * fresh_indirect w ?e)" by (rule budget [OF b]) simp_all
    show ?thesis
    proof (rule map_mapped [OF E b' ok i(1) 1])
      fix s assume "binv s V (r + acost * fresh_indirect w ?e) (l + 2 * fresh_indirect w ?e)"
      from R [OF this ok wrote_refl [OF ok] 1, of False]
      show "R (ucast (bmap ?e V i), False) (t\<lparr>base := s\<rparr>)" using with_entry_simps(6) [of "t\<lparr>base := s\<rparr>" p] by simp
    qed
  next
    case 2
    have b': "binv (base t) V (r + acost * fresh_indirect w ?e + acost) (Suc (Suc (l + 2 * fresh_indirect w ?e)))" by (rule budget [OF b]) simp_all
    show ?thesis by (rule map_near [OF E b' ok 2(2,1)]) (use can(2) in \<open>auto intro!: R simp: fresh_indirect_def\<close>)
  next
    case 3
    have b': "binv (base t) V (r + acost + 1 + acost * fresh_indirect True ?e) (l + 3 + 2 * fresh_indirect True ?e)"
      by (rule budget [OF b]) (use 3(3) in simp_all)
    show ?thesis
      by (rule map_far [OF E i(3) [OF 3(3)] b' ok i(1) 3(2,1)]) (use can(2) i(2) 3(3) in \<open>auto intro!: R simp: fresh_indirect_def\<close>)
  qed
qed

lemma write_loop_spec:
  assumes E: "cache E = C" and w: "w \<Longrightarrow> deep"
    and "binv (base t) V (r + (acost + 2) * blocks_in off n + acost * fresh_indirect w (entry (itab t p)))
      (l + (3 + of_bool w) * blocks_in off n + 2 * fresh_indirect w (entry (itab t p)))"
    "file_ok space (entry (itab t p)) V" "off + n \<le> INODE_MAX_BYTES" "length src = n"
    "blocks_in off n + fresh_indirect w (entry (itab t p)) \<le> nfree V"
    "\<forall>k. off \<le> k \<longrightarrow> k < off + n \<longrightarrow> bmap (entry (itab t p)) V (k div BLOCK_SIZE) \<noteq> 0 \<or> k div BLOCK_SIZE < INODE_NUM_DIRECT \<or> w"
    and R: "\<And>s e' V'. binv s V' r l \<Longrightarrow> file_ok space e' V' \<Longrightarrow> wrote (entry (itab t p)) V off src e' V' \<Longrightarrow>
      R () (with_entry (t\<lparr>base := s\<rparr>) p e')"
  shows "runs (write_loop E True p src off n) t R"
  using assms(3-)
proof (induction n arbitrary: off t V src R rule: less_induct)
  case (less n)
  show ?case
  proof (cases "n = 0")
    case True
    then have "R () (with_entry (t\<lparr>base := base t\<rparr>) p (entry (itab t p)))"
      using budget [OF less.prems(1), of r l] less.prems(2,4) wrote_refl [OF less.prems(2)] by (intro less.prems(7)) (simp_all add: blocks_in_def)
    then show ?thesis using True by (subst write_loop.simps) (simp add: wp)
  next
    case False
    let ?e = "entry (itab t p)" and ?c = "chunk off n" and ?i = "off div BLOCK_SIZE"
    have n: "0 < n" and c: "0 < ?c" "?c \<le> n" using False chunk_pos [of n off] by simp_all
    define m where "m = blocks_in (off + ?c) (n - ?c)"
    have bn: "blocks_in off n = Suc m" using blocks_in_step [OF n] by (simp add: m_def)
    have i: "?i < INODE_MAX_BLOCKS" using less.prems(3) n by (intro div_block) linarith
    have src: "length (take ?c src) = ?c" "length (drop ?c src) = n - ?c" using less.prems(4) c by simp_all
    have step: "runs (bind (below (acquire C (ucast (bmap e1 V1 ?i)))) (\<lambda>bp. bind (block_data E bp) (\<lambda>d.
        andthen (set_block E bp (patch (off mod BLOCK_SIZE) (take ?c src) d)) (andthen (below (sync C True bp))
        (andthen (below (release C bp)) (write_loop E True p (drop ?c src) (off + ?c) (n - ?c))))))) (with_entry (t\<lparr>base := s\<rparr>) p e1) R"
      if s: "binv s V1 (Suc (r + (acost + 2) * m) + acost * fresh_indirect w e1) (Suc (l + (3 + of_bool w) * m) + 2 * fresh_indirect w e1)"
        "file_ok space e1 V1" "wrote ?e V off [] e1 V1"
        "bmap e1 V1 ?i \<noteq> 0" "nfree V + fresh_indirect w e1 \<le> Suc (nfree V1) + fresh_indirect w ?e" for s e1 V1
    proof -
      obtain d where d: "V1 (ucast (bmap e1 V1 ?i)) = Some d" using s(2,4) i by (fastforce simp: file_ok_def)
      have len: "length d = BLOCK_SIZE" by (rule block_size [OF s(1) d])
      have "off mod BLOCK_SIZE + ?c \<le> BLOCK_SIZE" by (simp add: chunk_def BLOCK_SIZE_def)
      then have len2: "length (patch (off mod BLOCK_SIZE) (take ?c src) d) = BLOCK_SIZE" using len src(1) by simp
      let ?V2 = "V1(ucast (bmap e1 V1 ?i) \<mapsto> patch (off mod BLOCK_SIZE) (take ?c src) d)"
      note F = file_chunk [OF s(2) n less.prems(3) src(1) s(4) d len refl]
      have W: "wrote ?e V off (take ?c src) e1 ?V2"
        using wrote_trans [OF s(3), of "take ?c src"] F(2) less.prems(3) src c by simp
      have nf: "nfree ?V2 = nfree V1" using d by (intro arg_cong [of _ _ card]) auto
      have "runs (write_loop E True p (drop ?c src) (off + ?c) (n - ?c)) (with_entry (t\<lparr>base := s'\<rparr>) p e1) R"
        if s': "binv s' ?V2 (r + (acost + 2) * m + acost * fresh_indirect w e1) (l + (3 + of_bool w) * m + 2 * fresh_indirect w e1)" for s'
      proof (rule less.IH)
        show "n - ?c < n" "off + ?c + (n - ?c) \<le> INODE_MAX_BYTES" "length (drop ?c src) = n - ?c" using c less.prems(3) src by simp_all
        show "file_ok space (entry (itab (with_entry (t\<lparr>base := s'\<rparr>) p e1) p)) ?V2" using F(1) by simp
        show "blocks_in (off + ?c) (n - ?c) + fresh_indirect w (entry (itab (with_entry (t\<lparr>base := s'\<rparr>) p e1) p)) \<le> nfree ?V2"
          using nf s(5) less.prems(5) bn by (simp add: m_def)
        show "binv (base (with_entry (t\<lparr>base := s'\<rparr>) p e1)) ?V2
            (r + (acost + 2) * blocks_in (off + ?c) (n - ?c) + acost * fresh_indirect w (entry (itab (with_entry (t\<lparr>base := s'\<rparr>) p e1) p)))
          (l + (3 + of_bool w) * blocks_in (off + ?c) (n - ?c) + 2 * fresh_indirect w (entry (itab (with_entry (t\<lparr>base := s'\<rparr>) p e1) p)))"
          using s' by (simp add: m_def)
        show "\<forall>k. off + ?c \<le> k \<longrightarrow> k < off + ?c + (n - ?c) \<longrightarrow>
            bmap (entry (itab (with_entry (t\<lparr>base := s'\<rparr>) p e1) p)) ?V2 (k div BLOCK_SIZE) \<noteq> 0 \<or> k div BLOCK_SIZE < INODE_NUM_DIRECT \<or> w"
        proof (intro allI impI)
          fix k assume k: "off + ?c \<le> k" "k < off + ?c + (n - ?c)"
          then have kb: "k div BLOCK_SIZE < INODE_MAX_BLOCKS" using less.prems(3) c by (intro div_block) simp
          have "bmap ?e V (k div BLOCK_SIZE) \<noteq> 0 \<or> k div BLOCK_SIZE < INODE_NUM_DIRECT \<or> w" using less.prems(6) k c by simp
          then show "bmap (entry (itab (with_entry (t\<lparr>base := s'\<rparr>) p e1) p)) ?V2 (k div BLOCK_SIZE) \<noteq> 0 \<or>
              k div BLOCK_SIZE < INODE_NUM_DIRECT \<or> w"
            using W kb unfolding wrote_def with_entry_simps by metis
        qed
        fix s2 e' V'
        assume r: "binv s2 V' r l" "file_ok space e' V'"
          "wrote (entry (itab (with_entry (t\<lparr>base := s'\<rparr>) p e1) p)) ?V2 (off + ?c) (drop ?c src) e' V'"
        have "wrote ?e V off (take ?c src @ drop ?c src) e' V'"
          using wrote_trans [OF W, of "drop ?c src" e' V'] r(3) src less.prems(3) c by simp
        from less.prems(7) [OF r(1,2)] this
        show "R () (with_entry ((with_entry (t\<lparr>base := s'\<rparr>) p e1)\<lparr>base := s2\<rparr>) p e')" by simp
      qed
      then have "runs (below (acquire C (ucast (bmap e1 V1 ?i)))) (with_entry (t\<lparr>base := s\<rparr>) p e1) (\<lambda>bp t. runs (below (sync C True bp))
        (t\<lparr>base := set_data C bp (patch (off mod BLOCK_SIZE) (take ?c src) (get_data C bp (base t))) (base t)\<rparr>)
        (\<lambda>_ t. runs (below (release C bp)) t (\<lambda>_ t. runs (write_loop E True p (drop ?c src) (off + ?c) (n - ?c)) t R)))"
        using len2 s(1) d
        by (intro write_block [where V = V1 and d = d and f = "patch (off mod BLOCK_SIZE) (take ?c src)" and
          r = "r + (acost + 2) * m + acost * fresh_indirect w e1" and l = "l + (3 + of_bool w) * m + 2 * fresh_indirect w e1"]) simp_all
      then show ?thesis by (simp add: runs_bind runs_andthen runs_inode_steps(5,6) E)
    qed
    have "runs (inode_map E True p (of_nat ?i)) t (\<lambda>(a, _) u. runs (bind (below (acquire C a)) (\<lambda>bp. bind (block_data E bp) (\<lambda>d.
        andthen (set_block E bp (patch (off mod BLOCK_SIZE) (take ?c src) d)) (andthen (below (sync C True bp))
        (andthen (below (release C bp)) (write_loop E True p (drop ?c src) (off + ?c) (n - ?c))))))) u R)"
    proof (rule map_spec [OF E _ less.prems(2) i _ w, where off = off])
      show "binv (base t) V (Suc (r + (acost + 2) * m) + acost + 1 + acost * fresh_indirect w ?e)
          (Suc (l + (3 + of_bool w) * m) + 2 + of_bool w + 2 * fresh_indirect w ?e)"
        by (rule budget [OF less.prems(1)]) (simp_all add: bn)
      show "bmap ?e V ?i \<noteq> 0 \<or> ?i < INODE_NUM_DIRECT \<or> w" "fresh_indirect w ?e < nfree V" using less.prems(5,6) n bn by auto
      show "off \<le> INODE_MAX_BYTES" using less.prems(3) by simp
    qed (use step in simp_all)
    then show ?thesis
      unfolding write_loop.simps [of E True p src off n] using n
      by (simp add: E runs_bind [of "inode_map _ _ _ _"]) (erule runs_mono, auto)
  qed
qed

end

section \<open>Entries in inode blocks\<close>

lemma entry_at_le: "entry_at n + sizeof_InodeEntry \<le> BLOCK_SIZE"
proof -
  have "n mod of_nat INODE_PER_BLOCK < of_nat INODE_PER_BLOCK" by (rule word_mod_less_divisor) (simp add: fs_sizes)
  then have "unat (n mod of_nat INODE_PER_BLOCK) < 8" by (simp add: word_less_nat_alt fs_sizes)
  then show ?thesis by (simp add: entry_at_def fs_sizes)
qed

lemma get_put_entry:
  assumes "length d = BLOCK_SIZE" "length (addrs e) = INODE_NUM_DIRECT"
  shows "get_entry (put_entry n e d) n = e" "length (put_entry n e d) = BLOCK_SIZE"
    "entry_at m \<noteq> entry_at n \<Longrightarrow> get_entry (put_entry n e d) m = get_entry d m"
proof -
  have l: "length (bytes_of_entry e) = sizeof_InodeEntry" by (rule length_bytes_of_entry [OF assms(2)])
  have c: "entry_at k + sizeof_InodeEntry \<le> length d" for k using entry_at_le assms(1) by simp
  show "get_entry (put_entry n e d) n = e"
    using c [of n] l assms(2) by (simp add: get_entry_def put_entry_def field_patch_same entry_roundtrip)
  show "length (put_entry n e d) = BLOCK_SIZE" using c [of n] l assms(1) by (simp add: put_entry_def)
  show "get_entry (put_entry n e d) m = get_entry d m" if "entry_at m \<noteq> entry_at n"
  proof -
    have "entry_at m + sizeof_InodeEntry \<le> entry_at n \<or> entry_at n + sizeof_InodeEntry \<le> entry_at m"
      using that unfolding entry_at_def by (auto simp: sizeof_InodeEntry_def)
    then show ?thesis using c [of n] c [of m] l by (simp add: get_entry_def put_entry_def field_patch_other)
  qed
qed

context block_store
begin

lemma sync_write_spec:
  assumes E: "cache E = C" and t: "binv (base t) V (Suc r) (Suc l)" "V (to_block_no sb (inode_no (itab t p))) = Some d"
    "ivalid (itab t p)" "length (addrs (entry (itab t p))) = INODE_NUM_DIRECT"
    and R: "\<And>s. binv s (V(to_block_no sb (inode_no (itab t p)) \<mapsto> put_entry (inode_no (itab t p)) (entry (itab t p)) d)) r l \<Longrightarrow>
      R () (t\<lparr>base := s\<rparr>)"
  shows "runs (inode_sync E sb True p True) t R"
proof -
  let ?n = "inode_no (itab t p)" and ?e = "entry (itab t p)"
  have "runs (below (acquire C (to_block_no sb ?n))) t (\<lambda>bp t. runs (below (sync C True bp))
      (t\<lparr>base := set_data C bp (put_entry ?n ?e (get_data C bp (base t))) (base t)\<rparr>) (\<lambda>_ t. runs (below (release C bp)) t (\<lambda>_. R ())))"
    using get_put_entry(2) [OF block_size [OF t(1,2)] t(4)]
    by (intro write_block [OF t(1,2), where f = "put_entry ?n ?e"]) (auto intro: R)
  then show ?thesis
    using t(3) by (simp add: inode_sync_def E runs_bind runs_gets runs_andthen runs_inode_steps(5,6))
qed

lemma sync_read_spec:
  assumes E: "cache E = C" and t: "binv (base t) V (Suc r) l" "V (to_block_no sb (inode_no (itab t p))) = Some d" "\<not> ivalid (itab t p)"
    and R: "\<And>s. binv s V r l \<Longrightarrow> R () (t\<lparr>itab := (itab t)(p := (itab t p)\<lparr>ivalid := True, entry := get_entry d (inode_no (itab t p))\<rparr>), base := s\<rparr>)"
  shows "runs (inode_sync E sb ctx p do_write) t R"
proof -
  let ?n = "inode_no (itab t p)"
  have "runs (below (acquire C (to_block_no sb ?n))) t (\<lambda>bp u. get_data C bp (base u) = d \<and> itab u = itab t \<and>
      runs (below (release C bp)) (u\<lparr>itab := (itab t)(p := (itab t p)\<lparr>ivalid := True, entry := get_entry d ?n\<rparr>)\<rparr>) R)"
  proof (rule acquire_rule [OF t(1,2)])
    fix bp s assume h: "held s bp (to_block_no sb ?n) V r l" "get_data C bp s = d"
    show "get_data C bp (base (t\<lparr>base := s\<rparr>)) = d \<and> itab (t\<lparr>base := s\<rparr>) = itab t \<and>
      runs (below (release C bp)) ((t\<lparr>base := s\<rparr>)\<lparr>itab := (itab t)(p := (itab t p)\<lparr>ivalid := True, entry := get_entry d ?n\<rparr>)\<rparr>) R"
      using h t(2) R by (auto intro!: release_rule)
  qed
  then show ?thesis
    using t(3) by (simp add: inode_sync_def E runs_bind runs_gets runs_andthen runs_inode_steps(3,5))
      (elim runs_mono, elim conjE, simp)
qed

end

end
