(* ===== verification/InodeDir.thy ===== *)
theory InodeDir
  imports InodeFile
begin

text \<open>
  Whole operations of the inode layer over the contract \<open>block_store\<close>: \<^verbatim>\<open>inode_write\<close>, \<^verbatim>\<open>inode_alloc\<close>, and directories as
  files of entries, with what \<^verbatim>\<open>inode_lookup\<close> finds before and after \<^verbatim>\<open>inode_insert\<close>; and the elements of a path.
\<close>

section \<open>Writing a file\<close>

lemma fbyte_num_bytes [simp]: "bmap (e\<lparr>num_bytes := n\<rparr>) V = bmap e V" "fbyte (e\<lparr>num_bytes := n\<rparr>) V = fbyte e V"
  "file_ok space (e\<lparr>num_bytes := n\<rparr>) V = file_ok space e V"
  by (auto simp: bmap_def fbyte_def file_ok_def fun_eq_iff)

text \<open>A block outside the data area is no part of a file.\<close>

lemma file_outside:
  assumes "file_ok space e V" "x \<notin> space"
  shows "i < INODE_MAX_BLOCKS \<Longrightarrow> bmap e (V(x \<mapsto> d)) i = bmap e V i"
    "k < INODE_MAX_BYTES \<Longrightarrow> fbyte e (V(x \<mapsto> d)) k = fbyte e V k"
    "file_ok space e (V(x \<mapsto> d))" "file_full e (V(x \<mapsto> d)) = file_full e V"
proof -
  have "indirect e \<noteq> 0 \<Longrightarrow> ucast (indirect e) \<noteq> x" using assms by (auto simp: file_ok_def)
  then have bm: "bmap e (V(x \<mapsto> d)) i = bmap e V i" for i by (auto simp: bmap_def)
  then show "i < INODE_MAX_BLOCKS \<Longrightarrow> bmap e (V(x \<mapsto> d)) i = bmap e V i" by simp
  have nx: "ucast (bmap e V i) \<noteq> x" if "i < INODE_MAX_BLOCKS" "bmap e V i \<noteq> 0" for i
    using assms that by (auto simp: file_ok_def)
  show "k < INODE_MAX_BYTES \<Longrightarrow> fbyte e (V(x \<mapsto> d)) k = fbyte e V k"
    using nx [OF div_block] by (auto simp: fbyte_def bm)
  have dom: "(V(x \<mapsto> d)) y \<noteq> None" if "V y \<noteq> None" for y using that by simp
  show "file_ok space e (V(x \<mapsto> d))"
    using assms(1) dom unfolding file_ok_def bm by (simp add: fun_upd_apply)
  show "file_full e (V(x \<mapsto> d)) = file_full e V" by (simp add: file_full_def bm)
qed

definition new_size :: "InodeEntry \<Rightarrow> nat \<Rightarrow> nat" where
  "new_size e n = max (unat (num_bytes e)) n"

lemma wrote_full:
  assumes "file_full e V" "wrote e V off src e1 V1" "off \<le> unat (num_bytes e)" "off + length src \<le> INODE_MAX_BYTES"
  shows "new_size e (off + length src) \<le> INODE_MAX_BYTES"
    "k < new_size e (off + length src) \<Longrightarrow> bmap e1 V1 (k div BLOCK_SIZE) \<noteq> 0"
proof -
  show m: "new_size e (off + length src) \<le> INODE_MAX_BYTES" using assms(1,4) by (simp add: new_size_def file_full_def)
  show "bmap e1 V1 (k div BLOCK_SIZE) \<noteq> 0" if k: "k < new_size e (off + length src)"
  proof (cases "k < unat (num_bytes e)")
    case True
    then have "bmap e V (k div BLOCK_SIZE) \<noteq> 0" using assms(1) by (simp add: file_full_def)
    moreover have "k div BLOCK_SIZE < INODE_MAX_BLOCKS" using k m by (intro div_block) simp
    ultimately show ?thesis using assms(2) by (simp add: wrote_def)
  next
    case False
    then show ?thesis using k assms(2,3) by (auto simp: wrote_def new_size_def)
  qed
qed

context block_store
begin

lemma write_spec:
  assumes E: "cache E = C" and t: "e = entry (itab t p)" "ivalid (itab t p)" "itype e \<noteq> INODE_DEVICE"
      "file_ok space e V" "file_full e V" "ib = to_block_no sb (inode_no (itab t p))" "ib \<notin> space" "V ib = Some d"
    and n: "off \<le> unat (num_bytes e)" "off + length src \<le> INODE_MAX_BYTES"
      "blocks_in off (length src) + fresh_indirect w e \<le> nfree V" "w \<Longrightarrow> deep"
      "\<forall>k. off \<le> k \<longrightarrow> k < off + length src \<longrightarrow> bmap e V (k div BLOCK_SIZE) \<noteq> 0 \<or> k div BLOCK_SIZE < INODE_NUM_DIRECT \<or> w"
    and b: "binv (base t) V (Suc r + (acost + 2) * blocks_in off (length src) + acost * fresh_indirect w e)
      (Suc l + (3 + of_bool w) * blocks_in off (length src) + 2 * fresh_indirect w e)"
    and R: "\<And>s e' V'. binv s V' r l \<Longrightarrow> file_ok space e' V' \<Longrightarrow> file_full e' V' \<Longrightarrow> V' ib \<noteq> None \<Longrightarrow>
      unat (num_bytes e') = new_size e (off + length src) \<Longrightarrow> itype e' = itype e \<Longrightarrow>
      (\<forall>k < INODE_MAX_BYTES. fbyte e' V' k = (if off \<le> k \<and> k < off + length src then src ! (k - off) else fbyte e V k)) \<Longrightarrow>
      (\<forall>x. V x \<noteq> None \<longrightarrow> x \<notin> ablocks e V \<longrightarrow> x \<noteq> ib \<longrightarrow> V' x = V x) \<Longrightarrow>
      V' ib = Some (if unat (num_bytes e) < off + length src then put_entry (inode_no (itab t p)) e' d else d) \<Longrightarrow>
      R (of_nat (length src)) (with_entry (t\<lparr>base := s\<rparr>) p e')"
  shows "runs (inode_write E sb True p src (of_nat off) (of_nat (length src))) t R"
proof -
  let ?n = "length src" and ?o = "of_nat off :: u64" and ?c = "of_nat (length src) :: u64"
  have max: "INODE_MAX_BYTES = 71680" by (simp add: fs_sizes)
  have u: "unat ?o = off" "unat ?c = ?n" "unat (?o + ?c) = off + ?n" "unat (of_nat INODE_MAX_BYTES :: u64) = INODE_MAX_BYTES"
    using n(2) max by (simp_all add: unat_of_nat_lt unat_word_ariths)
  have nb: "unat (ucast (num_bytes e) :: u64) = unat (num_bytes e)"
    using unsigned_less [of "num_bytes e", where ?'a = nat] by (simp add: unsigned_ucast_eq take_bit_nat_eq_self)
  have guards: "?o \<le> ucast (num_bytes e)" "?o + ?c \<le> of_nat INODE_MAX_BYTES" "?o \<le> ?o + ?c"
    using n(1,2) u nb by (simp_all add: word_le_nat_alt)
  let ?grow = "off + ?n > unat (num_bytes e)"
  have grow: "?c > 0 \<and> ?o + ?c > ucast (num_bytes e) \<longleftrightarrow> ?grow"
    using n(1) u nb by (auto simp: word_less_nat_alt)
  have tail: "runs (bind (gets (\<lambda>t. num_bytes (entry (itab t p)))) (\<lambda>nb.
      if ?c > 0 \<and> ?o + ?c > ucast nb then
        andthen (upd_entry p (\<lambda>e. e\<lparr>num_bytes := ucast (?o + ?c)\<rparr>)) (inode_sync E sb True p True)
      else ret ())) (with_entry (t\<lparr>base := s\<rparr>) p e1) (\<lambda>_. R ?c)"
    if s: "binv s V1 (Suc r) (Suc l)" "file_ok space e1 V1" "wrote e V off src e1 V1"
      and same: "num_bytes e1 = num_bytes e" "itype e1 = itype e" and ib: "V1 ib = Some d"
      and W: "\<forall>k < INODE_MAX_BYTES. fbyte e1 V1 k = (if off \<le> k \<and> k < off + length src then src ! (k - off) else fbyte e V k)"
      and F: "new_size e (off + ?n) \<le> INODE_MAX_BYTES" "\<forall>k < new_size e (off + ?n). bmap e1 V1 (k div BLOCK_SIZE) \<noteq> 0" for s e1 V1
  proof (cases ?grow)
    case False
    have "R ?c (with_entry (t\<lparr>base := s\<rparr>) p e1)"
    proof (rule R [of s V1])
      show "unat (num_bytes e1) = new_size e (off + ?n)" "itype e1 = itype e" "file_full e1 V1"
        using same False F by (auto simp: new_size_def file_full_def max_def)
    qed (use s budget [OF s(1)] ib W False in \<open>auto simp: wrote_def\<close>)
    then show ?thesis using False by (simp only: runs_bind runs_gets with_entry_simps same grow if_False runs_ret)
  next
    case True
    let ?e2 = "e1\<lparr>num_bytes := ucast (?o + ?c)\<rparr>" and ?t = "with_entry (t\<lparr>base := s\<rparr>) p e1"
    have size: "unat (num_bytes ?e2) = off + ?n"
      using u n(2) max by (simp add: unsigned_ucast_eq take_bit_nat_eq_self del: of_nat_add)
    have "runs (inode_sync E sb True p True) (with_entry (t\<lparr>base := s\<rparr>) p ?e2) (\<lambda>_. R ?c)"
    proof (rule sync_write_spec [OF E])
      show "binv (base (with_entry (t\<lparr>base := s\<rparr>) p ?e2)) V1 (Suc r) (Suc l)" using s(1) by simp
      show "V1 (to_block_no sb (inode_no (itab (with_entry (t\<lparr>base := s\<rparr>) p ?e2) p))) = Some d" using ib t(6) by simp
      show "ivalid (itab (with_entry (t\<lparr>base := s\<rparr>) p ?e2) p)" using t(2) by simp
      show "length (addrs (entry (itab (with_entry (t\<lparr>base := s\<rparr>) p ?e2) p))) = INODE_NUM_DIRECT"
        using s(2) by (simp add: file_ok_def)
      fix s2
      let ?V2 = "V1(to_block_no sb (inode_no (itab (with_entry (t\<lparr>base := s\<rparr>) p ?e2) p)) \<mapsto>
        put_entry (inode_no (itab (with_entry (t\<lparr>base := s\<rparr>) p ?e2) p)) (entry (itab (with_entry (t\<lparr>base := s\<rparr>) p ?e2) p)) d)"
      assume s2: "binv s2 ?V2 r l"
      have V2: "?V2 = V1(ib \<mapsto> put_entry (inode_no (itab t p)) ?e2 d)" using t(6) by simp
      note O = file_outside [OF s(2) t(7), where d = "put_entry (inode_no (itab t p)) ?e2 d"]
      have "R ?c (with_entry (t\<lparr>base := s2\<rparr>) p ?e2)"
      proof (rule R [OF s2])
        show "file_ok space ?e2 ?V2" "?V2 ib \<noteq> None" "itype ?e2 = itype e" "unat (num_bytes ?e2) = new_size e (off + ?n)"
          using O(3) V2 same size True by (simp_all add: new_size_def)
        show "file_full ?e2 ?V2"
          unfolding file_full_def size using O(1) [OF div_block] F True V2 by (simp add: new_size_def max_def split: if_splits)
        show "\<forall>k < INODE_MAX_BYTES. fbyte ?e2 ?V2 k = (if off \<le> k \<and> k < off + length src then src ! (k - off) else fbyte e V k)"
          using O(2) W V2 by simp
        show "?V2 ib = Some (if unat (num_bytes e) < off + length src then put_entry (inode_no (itab t p)) ?e2 d else d)" using V2 True by simp
        show "\<forall>x. V x \<noteq> None \<longrightarrow> x \<notin> ablocks e V \<longrightarrow> x \<noteq> ib \<longrightarrow> ?V2 x = V x" using s(3) V2 by (simp add: wrote_def)
      qed
      then show "R ?c ((with_entry (t\<lparr>base := s\<rparr>) p ?e2)\<lparr>base := s2\<rparr>)" by simp
    qed
    then have "runs (andthen (upd_entry p (\<lambda>e. e\<lparr>num_bytes := ucast (?o + ?c)\<rparr>)) (inode_sync E sb True p True)) ?t (\<lambda>_. R ?c)"
      by (simp add: runs_andthen runs_inode_steps(4) with_entry_def)
    then show ?thesis using True by (simp only: runs_bind runs_gets with_entry_simps same grow if_True)
  qed
  have "runs (write_loop E True p src off ?n) t (\<lambda>_ u. runs (bind (gets (\<lambda>t. num_bytes (entry (itab t p)))) (\<lambda>nb.
      if ?c > 0 \<and> ?o + ?c > ucast nb then
        andthen (upd_entry p (\<lambda>e. e\<lparr>num_bytes := ucast (?o + ?c)\<rparr>)) (inode_sync E sb True p True)
      else ret ())) u (\<lambda>_. R ?c))"
  proof (rule write_loop_spec [OF E n(4) b [unfolded t(1)]])
    fix s e1 V1
    assume s: "binv s V1 (Suc r) (Suc l)" "file_ok space e1 V1" "wrote (entry (itab t p)) V off src e1 V1"
    then have w: "wrote e V off src e1 V1" using t(1) by simp
    have "e1 = e\<lparr>addrs := addrs e1, indirect := indirect e1\<rparr>" using w unfolding wrote_def by blast
    then have same: "num_bytes e1 = num_bytes e" "itype e1 = itype e" by (cases e; cases e1; simp)+
    have "ib \<notin> ablocks e V" using t(4,7) by (auto simp: ablocks_def fblocks_def file_ok_def split: if_splits)
    then have ib1: "V1 ib = Some d" using w t(8) by (simp add: wrote_def)
    have W: "\<forall>k < INODE_MAX_BYTES. fbyte e1 V1 k = (if off \<le> k \<and> k < off + length src then src ! (k - off) else fbyte e V k)"
      using w unfolding wrote_def by (rule conjunct1)
    note F = wrote_full [OF t(5) w n(1,2)]
    show "runs (bind (gets (\<lambda>t. num_bytes (entry (itab t p)))) (\<lambda>nb.
      if ?c > 0 \<and> ?o + ?c > ucast nb then
        andthen (upd_entry p (\<lambda>e. e\<lparr>num_bytes := ucast (?o + ?c)\<rparr>)) (inode_sync E sb True p True)
      else ret ())) (with_entry (t\<lparr>base := s\<rparr>) p e1) (\<lambda>_. R ?c)"
      by (rule tail [OF s(1,2) w same ib1 W F(1)]) (use F(2) in blast)
  qed (use t n in auto)
  then show ?thesis
    unfolding inode_write_def runs_bind [of "gets _"] runs_gets t(1) [symmetric] using t(3) guards
    by (simp add: wp u del: runs_inode_steps(1))
qed

end

section \<open>Directories\<close>

definition dirent :: "InodeEntry \<Rightarrow> bview \<Rightarrow> nat \<Rightarrow> DirEntry" where
  "dirent e V k = dirent_of (map (fbyte e V) [sizeof_DirEntry * k..<sizeof_DirEntry * k + sizeof_DirEntry])"

definition matches :: "u8 list \<Rightarrow> DirEntry \<Rightarrow> bool" where
  "matches name de \<longleftrightarrow> dino de \<noteq> 0 \<and> strncmp_l (dname de) name FILE_NAME_MAX_LENGTH = 0"

definition dir_size :: "InodeEntry \<Rightarrow> nat" where
  "dir_size e = unat (num_bytes e) div sizeof_DirEntry"

definition dir_ok :: "usize set \<Rightarrow> InodeEntry \<Rightarrow> bview \<Rightarrow> bool" where
  "dir_ok space e V \<longleftrightarrow> itype e = INODE_DIRECTORY \<and> file_ok space e V \<and> file_full e V \<and>
     unat (num_bytes e) = sizeof_DirEntry * dir_size e"

text \<open>The result of a lookup: the number in the first matching entry and its offset.\<close>

definition dir_find :: "InodeEntry \<Rightarrow> bview \<Rightarrow> u8 list \<Rightarrow> nat \<Rightarrow> usize \<times> usize option" where
  "dir_find e V name k = (case find (\<lambda>j. matches name (dirent e V j)) [k..<dir_size e] of
     Some j \<Rightarrow> (ucast (dino (dirent e V j)), Some (of_nat (sizeof_DirEntry * j)))
   | None \<Rightarrow> (0, None))"

lemma dirent_read_into: "length bs = sizeof_DirEntry \<Longrightarrow> dirent_of (read_into bs de) = dirent_of bs"
  by (simp add: dirent_of_def read_into_def field_def fs_sizes)

lemma blocks_in_dirent: "blocks_in (sizeof_DirEntry * k) sizeof_DirEntry = 1"
  by (simp add: blocks_in_def fs_sizes)

lemma dir_bound:
  assumes "dir_ok space e V" "k < dir_size e"
  shows "sizeof_DirEntry * k + sizeof_DirEntry \<le> unat (num_bytes e)" "unat (num_bytes e) \<le> INODE_MAX_BYTES"
    "unat (of_nat (sizeof_DirEntry * k) :: u32) = sizeof_DirEntry * k" "ucast (of_nat (sizeof_DirEntry * k) :: u32) = (of_nat (sizeof_DirEntry * k) :: u64)"
proof -
  show b: "sizeof_DirEntry * k + sizeof_DirEntry \<le> unat (num_bytes e)" "unat (num_bytes e) \<le> INODE_MAX_BYTES"
    using assms by (auto simp: dir_ok_def file_full_def sizeof_DirEntry_def)
  then have lt: "sizeof_DirEntry * k < 2 ^ 32" by (simp add: fs_sizes)
  then show u: "unat (of_nat (sizeof_DirEntry * k) :: u32) = sizeof_DirEntry * k" by (intro unat_of_nat_lt) simp
  show "ucast (of_nat (sizeof_DirEntry * k) :: u32) = (of_nat (sizeof_DirEntry * k) :: u64)"
    unfolding word_unat_eq_iff using u lt by (simp add: unsigned_ucast_eq unat_of_nat_lt take_bit_nat_eq_self del: of_nat_mult)
qed

context block_store
begin

lemma read_dirent:
  assumes E: "cache E = C" and t: "dir_ok space (entry (itab t p)) V" "k < dir_size (entry (itab t p))" "binv (base t) V (r + 2) l"
    and R: "\<And>s bs. binv s V r l \<Longrightarrow> length bs = sizeof_DirEntry \<Longrightarrow> dirent_of bs = dirent (entry (itab t p)) V k \<Longrightarrow>
      R (of_nat sizeof_DirEntry, bs) (t\<lparr>base := s\<rparr>)"
  shows "runs (inode_read E p (ucast (of_nat (sizeof_DirEntry * k) :: u32)) (of_nat sizeof_DirEntry)) t R"
proof -
  let ?e = "entry (itab t p)" and ?o = "of_nat (sizeof_DirEntry * k) :: u64"
  note B = dir_bound [OF t(1,2)]
  have u: "unat ?o = sizeof_DirEntry * k" "unat (of_nat sizeof_DirEntry :: u64) = sizeof_DirEntry"
    using B(1,2) by (intro unat_of_nat_lt, simp add: fs_sizes)+
  show ?thesis unfolding B(4)
  proof (rule read_spec [OF E refl, where m = sizeof_DirEntry and V = V and r = r and l = l])
    show "binv (base t) V (r + 2 * blocks_in (unat ?o) sizeof_DirEntry) l" using t(3) u by (simp add: blocks_in_dirent)
    show "sizeof_DirEntry = min (unat (of_nat sizeof_DirEntry :: u64)) (unat (num_bytes ?e) - unat ?o)" using B(1) u by simp
    fix s assume "binv s V r l"
    then show "R (of_nat sizeof_DirEntry, map (fbyte ?e V) [unat ?o..<unat ?o + sizeof_DirEntry]) (t\<lparr>base := s\<rparr>)"
      unfolding u by (intro R) (simp_all add: dirent_def)
  qed (use t(1) B u in \<open>simp_all add: dir_ok_def INODE_DIRECTORY_def INODE_DEVICE_def fs_sizes\<close>)
qed

lemma off_next:
  assumes "dir_ok space e V" "k < dir_size e"
  shows "(of_nat (sizeof_DirEntry * k) :: u32) < num_bytes e"
    "(of_nat (sizeof_DirEntry * k) :: u32) < of_nat (sizeof_DirEntry * k) + of_nat sizeof_DirEntry"
    "(of_nat (sizeof_DirEntry * k) :: u32) + of_nat sizeof_DirEntry = of_nat (sizeof_DirEntry * Suc k)"
proof -
  note B = dir_bound [OF assms]
  show "(of_nat (sizeof_DirEntry * k) :: u32) < num_bytes e" using B(1,3) by (simp add: word_less_nat_alt sizeof_DirEntry_def)
  show n: "(of_nat (sizeof_DirEntry * k) :: u32) + of_nat sizeof_DirEntry = of_nat (sizeof_DirEntry * Suc k)" by simp
  have "unat (of_nat (sizeof_DirEntry * Suc k) :: u32) = sizeof_DirEntry * Suc k"
    using B(1,2) by (intro unat_of_nat_lt) (simp add: fs_sizes)
  then show "(of_nat (sizeof_DirEntry * k) :: u32) < of_nat (sizeof_DirEntry * k) + of_nat sizeof_DirEntry"
    unfolding n word_less_nat_alt B(3) by (simp add: sizeof_DirEntry_def)
qed

lemma lookup_from_spec:
  assumes E: "cache E = C" and t: "dir_ok space (entry (itab t p)) V" "k \<le> dir_size (entry (itab t p))"
      "binv (base t) V (r + 2 * (dir_size (entry (itab t p)) - k)) l"
    and R: "\<And>s. binv s V r l \<Longrightarrow> R (dir_find (entry (itab t p)) V name k) (t\<lparr>base := s\<rparr>)"
  shows "runs (lookup_from E p name de (of_nat (sizeof_DirEntry * k))) t R"
  using t R
proof (induction "dir_size (entry (itab t p)) - k" arbitrary: k t de)
  case 0
  let ?e = "entry (itab t p)"
  have "\<not> (of_nat (sizeof_DirEntry * k) :: u32) < num_bytes ?e"
  proof -
    have k: "k = dir_size ?e" using 0 by simp
    then have "sizeof_DirEntry * k = unat (num_bytes ?e)" using 0 by (simp add: dir_ok_def)
    then show ?thesis by (simp add: word_less_nat_alt unat_of_nat_lt del: of_nat_mult)
  qed
  moreover have "R (dir_find ?e V name k) (t\<lparr>base := base t\<rparr>)" by (rule 0(5)) (use 0(1,4) in simp)
  then have "R (0, None) t" using 0(1) by (simp add: dir_find_def)
  ultimately show ?case by (subst lookup_from.simps) (simp add: wp)
next
  case (Suc x)
  let ?e = "entry (itab t p)"
  have k: "k < dir_size ?e" using Suc.hyps(2) by simp
  note O = off_next [OF Suc.prems(1) k]
  have b: "binv (base t) V (r + 2 * (dir_size ?e - Suc k) + 2) l"
    by (rule budget [OF Suc.prems(3)]) (use k in simp_all)
  have nxt: "runs (lookup_from E p name de' (of_nat (sizeof_DirEntry * Suc k))) (t\<lparr>base := s\<rparr>) R"
    if "binv s V (r + 2 * (dir_size ?e - Suc k)) l" "\<not> matches name (dirent ?e V k)" for s de'
  proof (rule Suc.hyps(1))
    show "x = dir_size (entry (itab (t\<lparr>base := s\<rparr>) p)) - Suc k" "dir_ok space (entry (itab (t\<lparr>base := s\<rparr>) p)) V"
      "Suc k \<le> dir_size (entry (itab (t\<lparr>base := s\<rparr>) p))"
      "binv (base (t\<lparr>base := s\<rparr>)) V (r + 2 * (dir_size (entry (itab (t\<lparr>base := s\<rparr>) p)) - Suc k)) l"
      using Suc.hyps(2) Suc.prems(1) k that(1) by simp_all
    have "dir_find ?e V name (Suc k) = dir_find ?e V name k" using k that(2) by (simp add: dir_find_def upt_conv_Cons)
    then show "R (dir_find (entry (itab (t\<lparr>base := s\<rparr>) p)) V name (Suc k)) (t\<lparr>base := s, base := s'\<rparr>)" if "binv s' V r l" for s'
      using Suc.prems(4) [OF that] by simp
  qed
  have "R (ucast (dino (dirent ?e V k)), Some (ucast (of_nat (sizeof_DirEntry * k) :: u32))) (t\<lparr>base := s\<rparr>)"
    if "binv s V (r + 2 * (dir_size ?e - Suc k)) l" "matches name (dirent ?e V k)" for s
  proof -
    have "dir_find ?e V name k = (ucast (dino (dirent ?e V k)), Some (ucast (of_nat (sizeof_DirEntry * k) :: u32)))"
      using k that(2) dir_bound(4) [OF Suc.prems(1) k] by (simp add: dir_find_def upt_conv_Cons)
    then show ?thesis using Suc.prems(4) [OF budget [OF that(1), of r l]] by simp
  qed
  then have "runs (inode_read E p (ucast (of_nat (sizeof_DirEntry * k) :: u32)) (of_nat sizeof_DirEntry)) t (\<lambda>(_, bs) u.
      runs (if dino (dirent_of (read_into bs de)) \<noteq> 0 \<and> strncmp_l (dname (dirent_of (read_into bs de))) name FILE_NAME_MAX_LENGTH = 0
         then ret (ucast (dino (dirent_of (read_into bs de))), Some (ucast (of_nat (sizeof_DirEntry * k) :: u32)))
         else if (of_nat (sizeof_DirEntry * k) :: u32) < of_nat (sizeof_DirEntry * k) + of_nat sizeof_DirEntry
           then lookup_from E p name (read_into bs de) (of_nat (sizeof_DirEntry * k) + of_nat sizeof_DirEntry)
         else fail Blocked) u R)"
    using nxt O(2,3) by (intro read_dirent [OF E Suc.prems(1) k b]) (auto simp: dirent_read_into matches_def wp add.commute)
  then show ?case using O(1) by (subst lookup_from.simps) (simp add: runs_bind runs_gets case_prod_beta')
qed

end

definition free_slot :: "InodeEntry \<Rightarrow> bview \<Rightarrow> nat \<Rightarrow> nat" where
  "free_slot e V k = (case find (\<lambda>j. dino (dirent e V j) = 0) [k..<dir_size e] of Some j \<Rightarrow> j | None \<Rightarrow> dir_size e)"

lemma free_slot_le: "k \<le> dir_size e \<Longrightarrow> free_slot e V k \<le> dir_size e"
  by (auto simp: free_slot_def find_Some_iff split: option.split)

lemma free_slot_free: "free_slot e V k < dir_size e \<Longrightarrow> dino (dirent e V (free_slot e V k)) = 0"
  by (cases "find (\<lambda>j. dino (dirent e V j) = 0) [k..<dir_size e]") (auto simp: free_slot_def dest!: find_Some_iff [THEN iffD1])

lemma end_offset:
  assumes "dir_ok space e V"
  shows "\<not> (of_nat (sizeof_DirEntry * dir_size e) :: u32) < num_bytes e" "sizeof_DirEntry * dir_size e \<le> INODE_MAX_BYTES"
proof -
  have nb: "sizeof_DirEntry * dir_size e = unat (num_bytes e)" "unat (num_bytes e) \<le> INODE_MAX_BYTES"
    using assms by (auto simp: dir_ok_def file_full_def)
  then show "\<not> (of_nat (sizeof_DirEntry * dir_size e) :: u32) < num_bytes e"
    by (simp add: word_less_nat_alt del: of_nat_mult)
  show "sizeof_DirEntry * dir_size e \<le> INODE_MAX_BYTES" using nb by simp
qed

context block_store
begin

lemma slot_from_spec:
  assumes E: "cache E = C" and t: "dir_ok space (entry (itab t p)) V" "k \<le> dir_size (entry (itab t p))"
      "binv (base t) V (r + 2 * (dir_size (entry (itab t p)) - k)) l"
    and R: "\<And>s. binv s V r l \<Longrightarrow> R (of_nat (sizeof_DirEntry * free_slot (entry (itab t p)) V k)) (t\<lparr>base := s\<rparr>)"
  shows "runs (slot_from E p de (of_nat (sizeof_DirEntry * k))) t R"
  using t R
proof (induction "dir_size (entry (itab t p)) - k" arbitrary: k t de)
  case 0
  let ?e = "entry (itab t p)"
  have k: "k = dir_size ?e" using 0 by simp
  have "R (of_nat (sizeof_DirEntry * free_slot ?e V k)) (t\<lparr>base := base t\<rparr>)" by (rule 0(5)) (use 0(1,4) in simp)
  then have "R (of_nat (sizeof_DirEntry * dir_size ?e)) t" using k by (simp add: free_slot_def)
  then show ?case using end_offset(1) [OF 0(2)] k by (subst slot_from.simps) (simp add: wp)
next
  case (Suc x)
  let ?e = "entry (itab t p)"
  have k: "k < dir_size ?e" using Suc.hyps(2) by simp
  note O = off_next [OF Suc.prems(1) k]
  have b: "binv (base t) V (r + 2 * (dir_size ?e - Suc k) + 2) l"
    by (rule budget [OF Suc.prems(3)]) (use k in simp_all)
  have nxt: "runs (slot_from E p de' (of_nat (sizeof_DirEntry * Suc k))) (t\<lparr>base := s\<rparr>) R"
    if "binv s V (r + 2 * (dir_size ?e - Suc k)) l" "dino (dirent ?e V k) \<noteq> 0" for s de'
  proof (rule Suc.hyps(1))
    show "x = dir_size (entry (itab (t\<lparr>base := s\<rparr>) p)) - Suc k" "dir_ok space (entry (itab (t\<lparr>base := s\<rparr>) p)) V"
      "Suc k \<le> dir_size (entry (itab (t\<lparr>base := s\<rparr>) p))"
      "binv (base (t\<lparr>base := s\<rparr>)) V (r + 2 * (dir_size (entry (itab (t\<lparr>base := s\<rparr>) p)) - Suc k)) l"
      using Suc.hyps(2) Suc.prems(1) k that(1) by simp_all
    have "free_slot ?e V (Suc k) = free_slot ?e V k" using k that(2) by (simp add: free_slot_def upt_conv_Cons)
    then show "R (of_nat (sizeof_DirEntry * free_slot (entry (itab (t\<lparr>base := s\<rparr>) p)) V (Suc k))) (t\<lparr>base := s, base := s'\<rparr>)"
      if "binv s' V r l" for s'
      using Suc.prems(4) [OF that] by simp
  qed
  have "R (of_nat (sizeof_DirEntry * k)) (t\<lparr>base := s\<rparr>)"
    if "binv s V (r + 2 * (dir_size ?e - Suc k)) l" "dino (dirent ?e V k) = 0" for s
  proof -
    have "free_slot ?e V k = k" using k that(2) by (simp add: free_slot_def upt_conv_Cons)
    then show ?thesis using Suc.prems(4) [OF budget [OF that(1), of r l]] by simp
  qed
  then have "runs (inode_read E p (ucast (of_nat (sizeof_DirEntry * k) :: u32)) (of_nat sizeof_DirEntry)) t (\<lambda>(_, bs) u.
      runs (if dino (dirent_of (read_into bs de)) = 0 then ret (of_nat (sizeof_DirEntry * k))
         else if (of_nat (sizeof_DirEntry * k) :: u32) < of_nat (sizeof_DirEntry * k) + of_nat sizeof_DirEntry
           then slot_from E p (read_into bs de) (of_nat (sizeof_DirEntry * k) + of_nat sizeof_DirEntry)
         else fail Blocked) u R)"
    using nxt O(2,3) by (intro read_dirent [OF E Suc.prems(1) k b]) (auto simp: dirent_read_into wp add.commute)
  then show ?case using O(1) by (subst slot_from.simps) (simp add: runs_bind runs_gets case_prod_beta')
qed

lemma lookup_spec:
  assumes E: "cache E = C" and t: "dir_ok space (entry (itab t p)) V" "binv (base t) V (r + 2 * dir_size (entry (itab t p))) l"
    and R: "\<And>s. binv s V r l \<Longrightarrow> R (dir_find (entry (itab t p)) V name 0) (t\<lparr>base := s\<rparr>)"
  shows "runs (inode_lookup E de0 p name) t R"
  using lookup_from_spec [OF E t(1), where k = 0 and r = r and l = l and R = R and name = name and de = de0] t R
  by (simp add: inode_lookup_def wp dir_ok_def)

end

section \<open>Names\<close>

lemma strncmp_strncpy_l: "strncmp_l (strncpy_l nm n) nm n = 0"
proof (induction n arbitrary: nm)
  case (Suc n)
  show ?case
  proof (cases "nm = [] \<or> hd nm = 0")
    case True
    then have "strncpy_l nm (Suc n) = replicate (Suc n) 0" by (cases nm) (auto simp: strncpy_l_def)
    then show ?thesis using True by (cases nm) auto
  next
    case False
    then obtain c cs where nm: "nm = c # cs" "c \<noteq> 0" by (cases nm) auto
    have "strncpy_l nm (Suc n) = c # strncpy_l cs n"
      using nm by (simp add: strncpy_l_def take_append min_def flip: replicate_Suc)
    then show ?thesis using nm Suc [of cs] by simp
  qed
qed simp

lemma length_strncpy_l [simp]: "length (strncpy_l nm n) = n"
  by (simp add: strncpy_l_def)

lemma dirent_roundtrip: "length (dname de) = FILE_NAME_MAX_LENGTH \<Longrightarrow> dirent_of (bytes_of_dirent de) = de"
  by (cases de) (simp add: dirent_of_def bytes_of_dirent_def field_def FILE_NAME_MAX_LENGTH_def)

lemma length_bytes_of_dirent: "length (dname de) = FILE_NAME_MAX_LENGTH \<Longrightarrow> length (bytes_of_dirent de) = sizeof_DirEntry"
  by (simp add: bytes_of_dirent_def fs_sizes)

text \<open>The directory \<open>e'\<close> is \<open>e\<close> with the bytes of one entry replaced.\<close>

definition dir_upd :: "InodeEntry \<Rightarrow> bview \<Rightarrow> nat \<Rightarrow> DirEntry \<Rightarrow> InodeEntry \<Rightarrow> bview \<Rightarrow> bool" where
  "dir_upd e V j de e' V' \<longleftrightarrow> dir_size e' = max (dir_size e) (Suc j) \<and>
     (\<forall>k < dir_size e'. dirent e' V' k = (if k = j then de else dirent e V k))"

lemma dir_upd_bytes:
  assumes de: "length (dname de) = FILE_NAME_MAX_LENGTH" and e: "dir_ok space e V" "j \<le> dir_size e"
    and n: "unat (num_bytes e') = new_size e (sizeof_DirEntry * j + sizeof_DirEntry)" "unat (num_bytes e') \<le> INODE_MAX_BYTES"
    and W: "\<forall>k < INODE_MAX_BYTES. fbyte e' V' k =
      (if sizeof_DirEntry * j \<le> k \<and> k < sizeof_DirEntry * j + sizeof_DirEntry
       then bytes_of_dirent de ! (k - sizeof_DirEntry * j) else fbyte e V k)"
  shows "unat (num_bytes e') = sizeof_DirEntry * dir_size e'" "dir_upd e V j de e' V'"
proof -
  have nb: "unat (num_bytes e) = sizeof_DirEntry * dir_size e" using e by (simp add: dir_ok_def)
  then have s: "unat (num_bytes e') = sizeof_DirEntry * max (dir_size e) (Suc j)"
    using n(1) by (simp add: new_size_def max_def sizeof_DirEntry_def)
  then have ds: "dir_size e' = max (dir_size e) (Suc j)" by (simp add: dir_size_def sizeof_DirEntry_def)
  with s show s2: "unat (num_bytes e') = sizeof_DirEntry * dir_size e'" by simp
  have "dirent e' V' k = (if k = j then de else dirent e V k)" if "k < dir_size e'" for k
  proof -
    have k: "x < INODE_MAX_BYTES" if "x < sizeof_DirEntry * k + sizeof_DirEntry" for x
      using that \<open>k < dir_size e'\<close> s2 n(2) unfolding sizeof_DirEntry_def by linarith
    show ?thesis
    proof (cases "k = j")
      case True
      have "map (fbyte e' V') [sizeof_DirEntry * k..<sizeof_DirEntry * k + sizeof_DirEntry] = bytes_of_dirent de"
        using W k True by (intro nth_equalityI) (simp_all add: length_bytes_of_dirent [OF de])
      then show ?thesis using True de by (simp add: dirent_def dirent_roundtrip)
    next
      case False
      then have "\<not> (sizeof_DirEntry * j \<le> x \<and> x < sizeof_DirEntry * j + sizeof_DirEntry)"
        if "sizeof_DirEntry * k \<le> x" "x < sizeof_DirEntry * k + sizeof_DirEntry" for x
        using that unfolding sizeof_DirEntry_def by linarith
      then have "map (fbyte e' V') [sizeof_DirEntry * k..<sizeof_DirEntry * k + sizeof_DirEntry] =
          map (fbyte e V) [sizeof_DirEntry * k..<sizeof_DirEntry * k + sizeof_DirEntry]"
        using W k by (intro map_cong) auto
      then show ?thesis using False unfolding dirent_def by (simp only: if_False)
    qed
  qed
  then show "dir_upd e V j de e' V'" using ds by (simp add: dir_upd_def)
qed

lemma find_upt_least:
  assumes "j < n" "P j" "\<And>i. i < j \<Longrightarrow> \<not> P i"
  shows "find P [0..<n] = Some j"
  using assms by (auto simp: find_Some_iff)

lemma dir_upd_find:
  assumes "dir_upd e V j \<lparr>dino = n, dname = strncpy_l name FILE_NAME_MAX_LENGTH\<rparr> e' V'" "n \<noteq> 0"
    "dir_find e V name 0 = (0, None)" "j \<le> dir_size e"
  shows "dir_find e' V' name 0 = (ucast n, Some (of_nat (sizeof_DirEntry * j)))"
proof -
  have no: "\<not> matches name (dirent e V i)" if "i < dir_size e" for i
    using assms(3) that by (auto simp: dir_find_def find_None_iff split: option.splits)
  have "find (\<lambda>i. matches name (dirent e' V' i)) [0..<dir_size e'] = Some j"
    using assms(1,2,4) no by (intro find_upt_least) (auto simp: dir_upd_def matches_def strncmp_strncpy_l)
  then show ?thesis using assms(1) by (simp add: dir_find_def dir_upd_def)
qed

context block_store
begin

lemma insert_spec:
  assumes E: "cache E = C" and t: "e = entry (itab t p)" "ivalid (itab t p)" "dir_ok space e V"
      "ib = to_block_no sb (inode_no (itab t p))" "ib \<notin> space" "V ib = Some d"
    and n: "dir_find e V name 0 = (0, None)" "dir_size e < INODE_NUM_DIRECT * BLOCK_SIZE div sizeof_DirEntry" "1 \<le> nfree V"
    and b: "binv (base t) V (r + acost + 3 + 2 * dir_size e + 2 * dir_size e) (l + 4)"
    and R: "\<And>s e' V'. binv s V' r l \<Longrightarrow> dir_ok space e' V' \<Longrightarrow> V' ib \<noteq> None \<Longrightarrow>
      dir_upd e V (free_slot e V 0) \<lparr>dino = ucast n, dname = strncpy_l name FILE_NAME_MAX_LENGTH\<rparr> e' V' \<Longrightarrow>
      R (of_nat (sizeof_DirEntry * free_slot e V 0)) (with_entry (t\<lparr>base := s\<rparr>) p e')"
  shows "runs (inode_insert E sb de0 True p name n) t R"
proof -
  let ?j = "free_slot e V 0" and ?de = "\<lparr>dino = ucast n, dname = strncpy_l name FILE_NAME_MAX_LENGTH\<rparr> :: DirEntry"
  have j: "?j \<le> dir_size e" by (simp add: free_slot_le)
  have dir: "itype e = INODE_DIRECTORY" "file_ok space e V" "file_full e V" "unat (num_bytes e) = sizeof_DirEntry * dir_size e"
    using t(3) by (simp_all add: dir_ok_def)
  have len: "length (bytes_of_dirent ?de) = sizeof_DirEntry" by (simp add: length_bytes_of_dirent)
  have lim: "sizeof_DirEntry * ?j + sizeof_DirEntry \<le> INODE_NUM_DIRECT * BLOCK_SIZE" using j n(2) by (simp add: fs_sizes)
  have cast: "ucast (of_nat (sizeof_DirEntry * ?j) :: u32) = (of_nat (sizeof_DirEntry * ?j) :: u64)"
    unfolding word_unat_eq_iff using lim
    by (simp add: fs_sizes unsigned_ucast_eq unat_of_nat_lt take_bit_nat_eq_self del: of_nat_mult)
  have wr: "runs (inode_write E sb True p (bytes_of_dirent ?de) (of_nat (sizeof_DirEntry * ?j)) (of_nat (length (bytes_of_dirent ?de))))
      (t\<lparr>base := s\<rparr>) (\<lambda>_. R (of_nat (sizeof_DirEntry * ?j)))" if s: "binv s V (r + acost + 3) (l + 4)" for s
  proof (rule write_spec [OF E, where e = e and ib = ib and V = V and d = d and r = r and l = l and w = False])
    show "binv (base (t\<lparr>base := s\<rparr>)) V (Suc r + (acost + 2) * blocks_in (sizeof_DirEntry * ?j) (length (bytes_of_dirent ?de)) +
          acost * fresh_indirect False e)
        (Suc l + (3 + of_bool False) * blocks_in (sizeof_DirEntry * ?j) (length (bytes_of_dirent ?de)) + 2 * fresh_indirect False e)"
      using s by (simp add: len blocks_in_dirent add.commute eval_nat_numeral)
    show "\<forall>k. sizeof_DirEntry * ?j \<le> k \<longrightarrow> k < sizeof_DirEntry * ?j + length (bytes_of_dirent ?de) \<longrightarrow>
        bmap e V (k div BLOCK_SIZE) \<noteq> 0 \<or> k div BLOCK_SIZE < INODE_NUM_DIRECT \<or> False"
      using lim unfolding len by (auto simp: less_mult_imp_div_less)
    show "sizeof_DirEntry * ?j \<le> unat (num_bytes e)" "sizeof_DirEntry * ?j + length (bytes_of_dirent ?de) \<le> INODE_MAX_BYTES"
      "blocks_in (sizeof_DirEntry * ?j) (length (bytes_of_dirent ?de)) + fresh_indirect False e \<le> nfree V" "itype e \<noteq> INODE_DEVICE"
      using j dir lim n(3) unfolding len blocks_in_dirent by (simp_all add: fs_sizes INODE_DIRECTORY_def INODE_DEVICE_def)
    fix s' e' V'
    assume s': "binv s' V' r l" "file_ok space e' V'" "file_full e' V'" "V' ib \<noteq> None" "itype e' = itype e"
      "unat (num_bytes e') = new_size e (sizeof_DirEntry * ?j + length (bytes_of_dirent ?de))"
      and W: "\<forall>k < INODE_MAX_BYTES. fbyte e' V' k =
        (if sizeof_DirEntry * ?j \<le> k \<and> k < sizeof_DirEntry * ?j + length (bytes_of_dirent ?de)
         then bytes_of_dirent ?de ! (k - sizeof_DirEntry * ?j) else fbyte e V k)"
    have "unat (num_bytes e') \<le> INODE_MAX_BYTES" using s'(3) by (simp add: file_full_def)
    note D = dir_upd_bytes [OF _ t(3) j s'(6) [unfolded len] this W [unfolded len]]
    show "R (of_nat (sizeof_DirEntry * ?j)) (with_entry (t\<lparr>base := s, base := s'\<rparr>) p e')"
      using R [OF s'(1), of e'] s' D dir(1) by (simp add: dir_ok_def)
  qed (use t dir in simp_all)
  have sl: "runs (slot_from E p de0 (of_nat (sizeof_DirEntry * 0))) (t\<lparr>base := s\<rparr>) (\<lambda>off u.
      runs (inode_write E sb True p (bytes_of_dirent ?de) (ucast off) (of_nat sizeof_DirEntry)) u (\<lambda>_. R (ucast off)))"
    if "binv s V (r + acost + 3 + 2 * dir_size e) (l + 4)" for s
    by (rule slot_from_spec [OF E, where V = V and r = "r + acost + 3" and l = "l + 4"])
      (use that t(3) wr in \<open>simp_all add: t(1) [symmetric] cast len del: of_nat_mult\<close>)
  have "runs (inode_lookup E de0 p name) t (\<lambda>(r, _) u. runs (if r \<noteq> 0 then ret (- 1) else
      bind (slot_from E p de0 0) (\<lambda>off. andthen (inode_write E sb True p (bytes_of_dirent ?de) (ucast off) (of_nat sizeof_DirEntry)) (ret (ucast off)))) u R)"
    by (rule lookup_spec [OF E, where V = V and r = "r + acost + 3 + 2 * dir_size e" and l = "l + 4"])
      (use t(3) n(1) b sl in \<open>simp_all add: t(1) [symmetric] runs_bind runs_andthen runs_ret\<close>)
  then show ?thesis using dir(1) t(1) by (simp add: inode_insert_def wp case_prod_beta')
qed

end

section \<open>Paths\<close>

text \<open>
  The names that the loop of \<^verbatim>\<open>namex\<close> sees: the buffer after each successful \<^verbatim>\<open>skipelem\<close>. The reference
  cuts the path at its slashes.
\<close>

function walk :: "u8 list \<Rightarrow> u8 list \<Rightarrow> u8 list list" where
  "walk path name = (case skipelem path name of (Some rest, name') \<Rightarrow> name' # walk rest name' | (None, _) \<Rightarrow> [])"
  by pat_completeness auto
termination by (relation "measure (\<lambda>(path, name). length path)") (auto dest!: skipelem_shorter [OF sym])

declare walk.simps [simp del]

fun split_path :: "u8 list \<Rightarrow> u8 list list" where
  "split_path [] = [[]]"
| "split_path (c # cs) = (if c = slash then [] # split_path cs
     else (case split_path cs of x # xs \<Rightarrow> (c # x) # xs | [] \<Rightarrow> [[c]]))"

definition elements :: "u8 list \<Rightarrow> u8 list list" where
  "elements path = filter (\<lambda>x. x \<noteq> []) (split_path path)"

lemma split_path_cut:
  "split_path s = takeWhile (\<lambda>c. c \<noteq> slash) s # (case dropWhile (\<lambda>c. c \<noteq> slash) s of [] \<Rightarrow> [] | _ # r \<Rightarrow> split_path r)"
  by (induction s) (auto split: list.split)

lemma elements_drop: "elements (dropWhile (\<lambda>c. c = slash) s) = elements s"
  by (induction s) (simp_all add: elements_def)

lemma elements_cut:
  assumes "s \<noteq> []" "hd s \<noteq> slash"
  shows "elements s = takeWhile (\<lambda>c. c \<noteq> slash) s # elements (dropWhile (\<lambda>c. c \<noteq> slash) s)"
proof -
  have "takeWhile (\<lambda>c. c \<noteq> slash) s \<noteq> []" using assms by (cases s) auto
  moreover have "elements (dropWhile (\<lambda>c. c \<noteq> slash) s) =
      (case dropWhile (\<lambda>c. c \<noteq> slash) s of [] \<Rightarrow> [] | _ # r \<Rightarrow> elements r)"
    using hd_dropWhile [of "\<lambda>c. c \<noteq> slash" s] by (auto simp: elements_def simp del: dropWhile_eq_Nil_conv split: list.split)
  ultimately show ?thesis
    unfolding elements_def by (subst split_path_cut) (simp split: list.split del: dropWhile_eq_Nil_conv)
qed

lemma walk_elements:
  assumes "0 \<notin> set path"
  shows "map (takeWhile (\<lambda>c. c \<noteq> 0)) (walk path name) = map (take FILE_NAME_MAX_LENGTH) (elements path)"
  using assms
proof (induction path name rule: walk.induct)
  case (1 path name)
  define s where "s = dropWhile (\<lambda>c. c = slash) path"
  define el where "el = takeWhile (\<lambda>c. c \<noteq> slash) s"
  define rest where "rest = dropWhile (\<lambda>c. c = slash) (dropWhile (\<lambda>c. c \<noteq> slash) s)"
  have e: "elements path = elements s" unfolding s_def by (rule elements_drop [symmetric])
  show ?case
  proof (cases "s = []")
    case True
    then show ?thesis using e by (subst walk.simps) (simp add: skipelem_def s_def [symmetric] elements_def)
  next
    case False
    define name' where "name' = (if length el \<ge> FILE_NAME_MAX_LENGTH then take FILE_NAME_MAX_LENGTH el else el @ 0 # drop (Suc (length el)) name)"
    have sk: "skipelem path name = (Some rest, name')"
      using False by (simp add: skipelem_def s_def [symmetric] el_def [symmetric] rest_def name'_def Let_def)
    have sub: "set s \<subseteq> set path" "set el \<subseteq> set s" "set rest \<subseteq> set s"
      unfolding s_def el_def rest_def by (auto dest: set_dropWhileD set_takeWhileD)
    have nz: "0 \<notin> set el" "0 \<notin> set rest" using sub "1.prems" by auto
    have "takeWhile (\<lambda>c. c \<noteq> 0) (el @ 0 # xs) = el" for xs using nz(1) by (subst takeWhile_append2) auto
    then have "takeWhile (\<lambda>c. c \<noteq> 0) name' = take FILE_NAME_MAX_LENGTH el"
      using nz(1) by (auto simp: name'_def takeWhile_eq_all_conv dest: in_set_takeD)
    moreover have "map (takeWhile (\<lambda>c. c \<noteq> 0)) (walk rest name') = map (take FILE_NAME_MAX_LENGTH) (elements rest)"
      using "1.IH" [OF sk [symmetric] refl] nz(2) by simp
    moreover have "hd s \<noteq> slash" using False hd_dropWhile [of "\<lambda>c. c = slash" path] by (simp add: s_def)
    then have "elements s = el # elements rest"
      using elements_cut [OF False] elements_drop by (simp add: el_def rest_def)
    ultimately show ?thesis using e by (subst walk.simps) (simp add: sk)
  qed
qed

end
