(* ===== verification/InodeCache.thy ===== *)
theory InodeCache
  imports Transaction InodeDir
begin

text \<open>
  The block cache behind the interface \<^verbatim>\<open>BlockCache\<close> that \<^verbatim>\<open>inode.c\<close> is given, and the proof that it
  keeps the contract \<open>block_store\<close>. A block of the view is one that the bitmap marks used and that is
  no bitmap block; its value is what a reader of the cache gets. With it the lemmas on files and
  directories become statements on inodes over the modelled cache, log, bitmap and arena.
\<close>

section \<open>The cache as a \<^verbatim>\<open>BlockCache\<close>\<close>

text \<open>
  The state is the cache with the context of the running operation; the flag of \<open>sync\<close>, \<open>alloc\<close> and \<open>bfree\<close>
  says whether the caller passed that context or \<^verbatim>\<open>NULL\<close>.
\<close>

definition on_cache :: "('a bcache, 'b) cm \<Rightarrow> ('a bcache \<times> OpContext, 'b) cm" where
  "on_cache m x = (case m (fst x) of Inl e \<Rightarrow> Inl e | Inr (r, s) \<Rightarrow> Inr (r, (s, snd x)))"

definition ctx_of :: "bool \<Rightarrow> OpContext \<Rightarrow> OpContext option" where
  "ctx_of b c = (if b then Some c else None)"

definition with_ctx :: "bool \<Rightarrow> (OpContext option \<Rightarrow> ('a bcache, 'b \<times> OpContext option) cm) \<Rightarrow> ('a bcache \<times> OpContext, 'b) cm" where
  "with_ctx b m x = (case m (ctx_of b (snd x)) (fst x) of Inl e \<Rightarrow> Inl e
     | Inr ((r, c), s) \<Rightarrow> Inr (r, (s, case c of Some c' \<Rightarrow> c' | None \<Rightarrow> snd x)))"

definition bcache_ops :: "'a arena_ops \<Rightarrow> SuperBlock \<Rightarrow> ('a bcache \<times> OpContext) BlockCache" where
  "bcache_ops A sb = \<lparr>
     acquire = \<lambda>n. on_cache (cache_acquire A n),
     release = \<lambda>p. on_cache (cache_release p),
     begin_op = \<lambda>x. (case cache_begin_op (fst x) of Inl e \<Rightarrow> Inl e | Inr (c, s) \<Rightarrow> Inr ((), (s, c))),
     sync = \<lambda>b p. with_ctx b (\<lambda>c. bind (cache_sync c p) (\<lambda>c'. ret ((), c'))),
     end_op = \<lambda>x. on_cache (cache_end_op A sb (snd x)) x,
     alloc = \<lambda>b. with_ctx b (cache_alloc A sb),
     bfree = \<lambda>b n. with_ctx b (\<lambda>c. bind (cache_free A sb c n) (\<lambda>c'. ret ((), c'))),
     get_data = \<lambda>p x. data (blk (fst x) p),
     set_data = \<lambda>p d x. ((fst x)\<lparr>blk := (blk (fst x))(p := (blk (fst x) p)\<lparr>data := d\<rparr>)\<rparr>, snd x)\<rparr>"

lemma runs_on_cache [wp]: "runs (on_cache m) x Q \<longleftrightarrow> runs m (fst x) (\<lambda>r s. Q r (s, snd x))"
  by (auto simp: runs_def on_cache_def split: sum.split)

lemma runs_with_ctx [wp]: "runs (with_ctx True m) (s, c) Q \<longleftrightarrow>
    runs (m (Some c)) s (\<lambda>(r, c') t. Q r (t, case c' of Some d \<Rightarrow> d | None \<Rightarrow> c))"
  unfolding runs_def with_ctx_def ctx_of_def fst_conv snd_conv by (auto split: sum.split)

section \<open>The view of the disk\<close>

text \<open>The blocks before the data area, among them the bitmap, are in use for ever.\<close>

definition meta_blocks :: "SuperBlock \<Rightarrow> nat" where
  "meta_blocks sb = unat (num_blocks sb) - unat (num_data_blocks sb)"

definition bitmap_no :: "SuperBlock \<Rightarrow> usize \<Rightarrow> bool" where
  "bitmap_no sb n \<longleftrightarrow> unat (bitmap_start sb) \<le> unat n \<and> unat n \<le> unat (bitmap_start sb) + unat (num_blocks sb) div BIT_PER_BLOCK"

definition data_space :: "SuperBlock \<Rightarrow> usize set" where
  "data_space sb = {n. n \<noteq> 0 \<and> meta_blocks sb \<le> unat n \<and> unat n < unat (num_blocks sb)}"

definition disk_view :: "SuperBlock \<Rightarrow> 'a bcache \<Rightarrow> bview" where
  "disk_view sb s n = (if unat n < unat (num_blocks sb) \<and> \<not> bitmap_no sb n \<and> used_block sb s (unat n) then Some (content s n) else None)"

definition disk_ok :: "SuperBlock \<Rightarrow> 'a bcache \<Rightarrow> bool" where
  "disk_ok sb s \<longleftrightarrow> bitmap_ok sb s \<and> 0 < meta_blocks sb \<and>
     unat (bitmap_start sb) + unat (num_blocks sb) div BIT_PER_BLOCK < meta_blocks sb \<and>
     (\<forall>n. unat n < unat (num_blocks sb) \<longrightarrow> length (content s n) = BLOCK_SIZE) \<and>
     (\<forall>j < meta_blocks sb. used_block sb s j)"

definition store_inv :: "('a \<Rightarrow> u64 set \<Rightarrow> nat \<Rightarrow> bool) \<Rightarrow> SuperBlock \<Rightarrow> 'a bcache \<times> OpContext \<Rightarrow> bview \<Rightarrow> nat \<Rightarrow> nat \<Rightarrow> bool" where
  "store_inv orep sb x V r l \<longleftrightarrow> (\<exists>m \<ge> r. cache_ok orep {} m (fst x)) \<and> disk_ok sb (fst x) \<and> may_log (fst x) (snd x) l \<and>
     V = disk_view sb (fst x)"

text \<open>A held block: with the data of the view put back and the block released the state is one of the above.\<close>

definition put_back :: "u64 \<Rightarrow> u8 list \<Rightarrow> 'a bcache \<Rightarrow> 'a bcache" where
  "put_back p d s = s\<lparr>blk := (blk s)(p := (blk s p)\<lparr>data := d, acquired := False, block_lock := False\<rparr>)\<rparr>"

definition store_held :: "('a \<Rightarrow> u64 set \<Rightarrow> nat \<Rightarrow> bool) \<Rightarrow> SuperBlock \<Rightarrow> 'a bcache \<times> OpContext \<Rightarrow> u64 \<Rightarrow> usize \<Rightarrow> bview \<Rightarrow>
    nat \<Rightarrow> nat \<Rightarrow> bool" where
  "store_held orep sb x p n V r l \<longleftrightarrow> (\<exists>d. V n = Some d \<and> store_inv orep sb (put_back p d (fst x), snd x) V r l \<and>
     cached (fst x) n = Some p \<and> block_lock (blk (fst x) p) \<and> length (data (blk (fst x) p)) = BLOCK_SIZE)"

lemma BBLOCK_bitmap_no:
  assumes "bitmap_ok sb s" "j < unat (num_blocks sb)"
  shows "bitmap_no sb (BBLOCK (of_nat j) sb)"
proof -
  have "j < 2 ^ 32" using assms by (simp add: bitmap_ok_def)
  moreover have "j div BIT_PER_BLOCK \<le> unat (num_blocks sb) div BIT_PER_BLOCK" using assms(2) by (intro div_le_mono) simp
  ultimately show ?thesis by (simp add: bitmap_no_def unat_BBLOCK)
qed

lemma data_space_facts:
  assumes "disk_ok sb s" "n \<in> data_space sb"
  shows "n \<noteq> 0" "n < 2 ^ 32" "\<not> bitmap_no sb n" "unat n < unat (num_blocks sb)"
    "j < unat (num_blocks sb) \<Longrightarrow> BBLOCK (of_nat j) sb \<noteq> n"
proof -
  have "unat (num_blocks sb) < 2 ^ 32" using unsigned_less [of "num_blocks sb", where ?'a = nat] by simp
  then show "n \<noteq> 0" "n < 2 ^ 32" "\<not> bitmap_no sb n" "unat n < unat (num_blocks sb)"
    using assms by (auto simp: disk_ok_def data_space_def bitmap_no_def word_less_nat_alt)
  then show "j < unat (num_blocks sb) \<Longrightarrow> BBLOCK (of_nat j) sb \<noteq> n"
    using assms BBLOCK_bitmap_no [of sb s j] by (auto simp: disk_ok_def)
qed

lemma view_block:
  assumes "disk_ok sb s" "disk_view sb s n = Some d"
  shows "n < 2 ^ 32" "content s n = d" "length d = BLOCK_SIZE" "unat n < unat (num_blocks sb)" "\<not> bitmap_no sb n"
    "used_block sb s (unat n)"
proof -
  have "unat (num_blocks sb) < 2 ^ 32" using unsigned_less [of "num_blocks sb", where ?'a = nat] by simp
  then show "n < 2 ^ 32" "content s n = d" "length d = BLOCK_SIZE" "unat n < unat (num_blocks sb)" "\<not> bitmap_no sb n"
    "used_block sb s (unat n)"
    using assms by (auto simp: disk_view_def disk_ok_def word_less_nat_alt split: if_splits)
qed

lemma disk_cong:
  assumes "\<And>n. content t n = content s n"
  shows "disk_ok sb t = disk_ok sb s" "disk_view sb t = disk_view sb s"
  using assms by (simp_all add: disk_ok_def bitmap_ok_def used_block_def disk_view_def fun_eq_iff)

text \<open>The effect of an edit outside the bitmap.\<close>

lemma view_edited:
  assumes "disk_ok sb s" "edited s n d t" "\<not> bitmap_no sb n" "length d = BLOCK_SIZE"
  shows "disk_ok sb t" "\<And>j. j < unat (num_blocks sb) \<Longrightarrow> used_block sb t j = used_block sb s j"
    "disk_view sb s n \<noteq> None \<Longrightarrow> disk_view sb t = (disk_view sb s)(n \<mapsto> d)"
proof -
  have c: "content t k = (if k = n then d else content s k)" for k using assms(2) by (simp add: edited_def)
  have b: "bitmap_ok sb s" using assms(1) by (simp add: disk_ok_def)
  show u: "used_block sb t j = used_block sb s j" if "j < unat (num_blocks sb)" for j
    using BBLOCK_bitmap_no [OF b that] assms(3) c by (auto simp: used_block_def)
  have m: "meta_blocks sb \<le> unat (num_blocks sb)" by (simp add: meta_blocks_def)
  show "disk_ok sb t" using assms(1,4) c u m by (auto simp: disk_ok_def bitmap_ok_def)
  show "disk_view sb s n \<noteq> None \<Longrightarrow> disk_view sb t = (disk_view sb s)(n \<mapsto> d)"
    using c u by (auto simp: disk_view_def fun_eq_iff split: if_splits)
qed

section \<open>The laws\<close>

text \<open>A released block can be locked again without anybody's view changing.\<close>

lemma lock_again:
  assumes "cache_body orep {} m w" "cached w n = Some p"
    and t: "t = w\<lparr>blk := (blk w)(p := (blk w p)\<lparr>acquired := a, block_lock := True\<rparr>)\<rparr>"
  shows "cache_body orep {p} m t" "cached t k = cached w k" "content t k = content w k" "may_log t c l = may_log w c l"
    "edited t k d u = edited w k d u"
proof -
  have d: "distinct (map (\<lambda>p. block_no (blk w p)) (lru w))" "distinct (lru w)" using assms(1) by (simp_all add: cache_body_def)
  have f: "lru t = lru w" "disk t = disk w" "pool t = pool w" "header t = header w" "log t = log w" "log_locked t = log_locked w"
    "history t = history w" using t by simp_all
  have no: "block_no (blk t q) = block_no (blk w q)" "data (blk t q) = data (blk w q)" "pinned (blk t q) = pinned (blk w q)"
    "block_lock (blk t q) = (q = p \<or> block_lock (blk w q))" for q using t by simp_all
  note c = cached_cong [OF d, of t, unfolded f(1), OF d(2) refl no(1)]
  show "cached t k = cached w k" for k by (rule c(1))
  show ct: "content t k = content w k" for k using c(1) no f by (simp add: content_def split: option.split)
  have "pinned_no t k = pinned_no w k" for k using c(1) no by (simp add: pinned_no_def split: option.split)
  then show "may_log t c l = may_log w c l" "edited t k d u = edited w k d u"
    using f ct by (simp_all add: may_log_def log_ok_def logged_def edited_def)
  have "p \<in> set (lru w)" using assms(2) cached_iff [OF d(1)] by simp
  then show "cache_body orep {p} m t" using assms(1) c(2) f no by (auto simp: cache_body_def)
qed

text \<open>And a held block that was not changed can be released.\<close>

lemma unlock_view:
  assumes body: "cache_body orep (insert p H) m t" and p: "cached t n = Some p" "p \<notin> H"
    and clean: "\<not> pinned (blk t p) \<Longrightarrow> data (blk t p) = disk t (sector n)"
    and u: "u = t\<lparr>blk := (blk t)(p := (blk t p)\<lparr>acquired := False, block_lock := False\<rparr>)\<rparr>"
  shows "cache_body orep H m u" "same_view t u"
proof -
  have d: "distinct (map (\<lambda>p. block_no (blk t p)) (lru t))" "distinct (lru t)" using body by (simp_all add: cache_body_def)
  have pn: "p \<in> set (lru t)" "block_no (blk t p) = n" using p(1) by (simp_all add: cached_iff [OF d(1)])
  have f: "lru u = lru t" "disk u = disk t" "pool u = pool t" using u by simp_all
  have no: "block_no (blk u q) = block_no (blk t q)" "data (blk u q) = data (blk t q)" "pinned (blk u q) = pinned (blk t q)"
    "block_lock (blk u q) = (block_lock (blk t q) \<and> q \<noteq> p)" for q using u by simp_all
  note c = cached_cong [OF d, of u, unfolded f(1), OF d(2) refl no(1)]
  show "cache_body orep H m u" using body c(2) f no clean pn p(2) unfolding cache_body_def by auto
  have "content u k = content t k" "pinned_no u k = pinned_no t k" for k
    using c(1) no f by (simp_all add: content_def pinned_no_def split: option.split)
  then show "same_view t u" using u by (simp add: same_view_def same_rest_def)
qed

lemma find_block_same: "(\<And>q. block_no (h q) = block_no (h' q)) \<Longrightarrow> find_block h n ps = find_block h' n ps"
  by (induction ps) simp_all

lemma cached_put_back [simp]: "cached (put_back p d s) n = cached s n"
  unfolding cached_def by (simp add: put_back_def) (rule find_block_same, simp)

lemma put_back_same: "put_back p (data (blk s p)) s = s\<lparr>blk := (blk s)(p := (blk s p)\<lparr>acquired := False, block_lock := False\<rparr>)\<rparr>"
  by (simp add: put_back_def)

context object_pool
begin

lemma store_acquire:
  assumes "store_inv orep sb (s, c) V (Suc r) l" "V n = Some d"
  shows "runs (cache_acquire A n) s (\<lambda>p t. store_held orep sb (t, c) p n V r l \<and> data (blk t p) = d)"
proof -
  obtain m where m: "Suc r \<le> m" "cache_ok orep {} m s" and D: "disk_ok sb s" "may_log s c l" "V = disk_view sb s"
    using assms(1) by (auto simp: store_inv_def)
  note V = view_block [OF D(1), of n d] 
  have n: "n < 2 ^ 32" "content s n = d" "length d = BLOCK_SIZE" using V assms(2) D(3) by auto
  show ?thesis
  proof (rule runs_mono [OF acquire_spec [OF m(2) n(1)]], simp, use m(1) in simp, elim exE conjE)
    fix p t m'
    assume t: "m \<le> Suc m'" "cache_ok orep {p} m' t" "acq_rel {} s n p t"
    have d: "data (blk t p) = d" "cached t n = Some p" using acq_relD(2,9) [OF t(3)] n(2) by simp_all
    have lk: "block_lock (blk t p)" using t(2) by (auto simp: cache_ok_def cache_body_def)
    have t2: "cache_ok orep (insert p {}) m' t" "\<forall>q \<in> {}. cached s n \<noteq> Some q" using t(2) by simp_all
    note R = release_clean [OF m(2) t(3) t2(1) refl t2(2), folded put_back_same, unfolded d(1)]
    have "store_inv orep sb (put_back p d t, c) V r l"
      unfolding store_inv_def fst_conv snd_conv same_view_log(1) [OF R(2)]
      using R(1,2) m t(1) D disk_cong [of "put_back p d t" s sb] by (auto simp: same_view_def intro!: exI [of _ m'])
    then show "store_held orep sb (t, c) p n V r l \<and> data (blk t p) = d"
      using d n(3) assms(2) lk by (simp add: store_held_def)
  qed
qed

end

lemma sync_held:
  assumes h: "store_held orep sb (t, c) p n V r (Suc l)"
  shows "runs (cache_sync (Some c) p) t (\<lambda>c' u. \<exists>d. c' = Some d \<and>
    store_held orep sb (u, d) p n (V(n \<mapsto> data (blk t p))) r l \<and> data (blk u p) = data (blk t p))"
proof -
  obtain d m where d: "V n = Some d" "r \<le> m" "cache_ok orep {} m (put_back p d t)" "disk_ok sb (put_back p d t)"
      "may_log (put_back p d t) c (Suc l)" "V = disk_view sb (put_back p d t)"
      "cached t n = Some p" "length (data (blk t p)) = BLOCK_SIZE" "block_lock (blk t p)"
    using h by (auto simp: store_held_def store_inv_def)
  let ?w = "put_back p d t" and ?d = "data (blk t p)"
  let ?t = "?w\<lparr>blk := (blk ?w)(p := (blk ?w p)\<lparr>acquired := False, block_lock := True\<rparr>)\<rparr>"
  have body: "cache_body orep {} m ?w" "\<not> cache_locked ?w" using d(3) by (simp_all add: cache_ok_def)
  have cw: "cached ?w n = Some p" using d(7) by simp
  note L = lock_again [OF body(1) cw refl]
  have ct: "cached ?t n = Some p" and lt: "may_log ?t c (Suc l)" using L(2,4) cw d(5) by auto
  have same: "logged t = logged ?w" "logged ?t = logged ?w" "header t = header ?w" "log t = log ?w" "log_locked t = log_locked ?w"
    by (simp_all add: logged_def put_back_def)
  have lg: "log_ok ?w" using d(5) by (simp add: may_log_def)
  note K = logged_len [OF lg d(5)]
  have L3: "\<not> log_locked t" "outstanding (log t) \<ge> 1" "block_no (blk t p) = n"
    using lg d(5) same cached_blk [OF d(7)] by (auto simp: may_log_def log_ok_def)
  have V: "\<not> bitmap_no sb n" "disk_view sb ?w n \<noteq> None" using view_block(5) [OF d(4), of n d] d(1,6) by auto
  have fin: "store_held orep sb (u, c') p n (V(n \<mapsto> ?d)) r l"
    if "cache_body orep {} m (put_back p ?d u)" "edited ?t n ?d (put_back p ?d u)" "may_log (put_back p ?d u) c' l"
      "data (blk u p) = ?d" "cached u n = Some p" "\<not> cache_locked u" "block_lock (blk u p)" for u c'
  proof -
    have e: "edited ?w n ?d (put_back p ?d u)" using that(2) L(5) by simp
    note W = view_edited [OF d(4) e V(1) d(8)]
    have "\<not> cache_locked (put_back p ?d u)" using that(6) by (simp add: put_back_def)
    then show ?thesis using that(1,3-5,7) W(1,3) V(2) d by (auto simp: store_held_def store_inv_def cache_ok_def)
  qed
  have nl: "\<not> cache_locked t" using body(2) by (simp add: put_back_def)
  have L1: "cache_body orep (insert p {}) m ?t" using L(1) by simp
  show ?thesis
  proof (cases "n \<in> set (logged t)")
    case True
    have "cache_sync (Some c) p t = Inr (Some c, t)"
      by (rule sync_absorb) (use True L3 K same in simp_all)
    moreover have "put_back p ?d t = ?t\<lparr>blk := (blk ?t)(p := (blk ?t p)\<lparr>data := ?d, acquired := False, block_lock := False\<rparr>)\<rparr>"
      by (simp add: put_back_def)
    note E = edit_absorbed [OF L1 ct lt _ _ this]
    have "store_held orep sb (t, c) p n (V(n \<mapsto> ?d)) r l"
      by (rule fin) (use E(1-3) True same d(7,9) nl in auto)
    ultimately show ?thesis by (simp add: runs_def)
  next
    case False
    let ?u = "t\<lparr>header := (header t)\<lparr>hblock := (hblock (header t))[unat (hnum (header t)) := block_no (blk t p)], hnum := hnum (header t) + 1\<rparr>,
      blk := (blk t)(p := (blk t p)\<lparr>pinned := True\<rparr>), log := (log t)\<lparr>mu := mu (log t) - 1\<rparr>\<rparr>"
    have "cache_sync (Some c) p t = Inr (Some (c\<lparr>rm := rm c - 1\<rparr>), ?u)"
      by (rule sync_new) (use False L3 K same in simp_all)
    moreover have "put_back p ?d ?u = ?t\<lparr>header := (header ?t)\<lparr>hblock := (hblock (header ?t))[unat (hnum (header ?t)) := n], hnum := hnum (header ?t) + 1\<rparr>,
      log := (log ?t)\<lparr>mu := mu (log ?t) - 1\<rparr>,
      blk := (blk ?t)(p := (blk ?t p)\<lparr>data := ?d, pinned := True, acquired := False, block_lock := False\<rparr>)\<rparr>"
      using L3(3) by (simp add: put_back_def)
    note E = edit_logged [OF L1 ct lt _ _ this]
    have "cached ?u n = cached t n" unfolding cached_def by simp (rule find_block_same, simp)
    then have "store_held orep sb (?u, c\<lparr>rm := rm c - 1\<rparr>) p n (V(n \<mapsto> ?d)) r l"
      by (intro fin) (use E(1-3) False same d(7,9) nl in auto)
    ultimately show ?thesis by (simp add: runs_def)
  qed
qed

text \<open>The disk after the allocation of a block.\<close>

lemma alloced:
  assumes D: "disk_ok sb s" and u: "alloc_post sb s (unat (0 :: u32)) n u"
  shows "of_nat n \<in> data_space sb" "disk_view sb s (of_nat n) = None" "disk_ok sb u"
    "disk_view sb u = (disk_view sb s)(of_nat n \<mapsto> replicate BLOCK_SIZE 0)" "(ucast (of_nat n :: u32) :: u64) = of_nat n"
proof -
  have b: "bitmap_ok sb s" using D by (simp add: disk_ok_def)
  have n: "n < unat (num_blocks sb)" "\<not> used_block sb s n" using u by (auto simp: alloc_post_def)
  have M: "0 < meta_blocks sb" "\<forall>j < meta_blocks sb. used_block sb s j" using D by (simp_all add: disk_ok_def)
  then have "meta_blocks sb \<le> n" using n(2) by (meson not_le)
  then have ge: "meta_blocks sb \<le> n" "n \<noteq> 0" using M(1) by simp_all
  have small: "n < 2 ^ 32" using n(1) b by (simp add: bitmap_ok_def)
  then show "(ucast (of_nat n :: u32) :: u64) = of_nat n" by (rule ucast_of_nat_small)
  have un: "unat (of_nat n :: u64) = n" using small by (intro unat_of_nat_lt) simp
  show sp: "of_nat n \<in> data_space sb" using un ge n(1) by (auto simp: data_space_def)
  note S = data_space_facts [OF D sp]
  have other: "\<forall>j < unat (num_blocks sb). BBLOCK (of_nat j) sb \<noteq> of_nat n" using S(5) by blast
  note P = alloc_post_view [OF u b other]
  have cont: "length (content u k) = BLOCK_SIZE" if "unat k < unat (num_blocks sb)" for k
  proof -
    obtain t where t: "edited s (BBLOCK (of_nat n) sb) (cell_set (content s (BBLOCK (of_nat n) sb)) (n mod BIT_PER_BLOCK)) t"
      "edited t (of_nat n) (replicate BLOCK_SIZE 0) u" using u by (auto simp: alloc_post_def)
    have "length (content s (BBLOCK (of_nat n) sb)) = BLOCK_SIZE" using b n(1) by (simp add: bitmap_ok_def)
    then show ?thesis using t that D
      by (cases "k = of_nat n"; cases "k = BBLOCK (of_nat n) sb") (auto simp: edited_def disk_ok_def cell_set_def)
  qed
  have BB: "unat (BBLOCK (of_nat j) sb) < unat (num_blocks sb)" if "j < unat (num_blocks sb)" for j
    using BBLOCK_bitmap_no [OF b that] D by (auto simp: bitmap_no_def disk_ok_def meta_blocks_def)
  show "disk_ok sb u" using D cont BB P(1) ge by (auto simp: disk_ok_def bitmap_ok_def meta_blocks_def)
  show "disk_view sb s (of_nat n) = None" using n(2) un by (simp add: disk_view_def)
  show "disk_view sb u = (disk_view sb s)(of_nat n \<mapsto> replicate BLOCK_SIZE 0)"
  proof
    fix k
    show "disk_view sb u k = ((disk_view sb s)(of_nat n \<mapsto> replicate BLOCK_SIZE 0)) k"
    proof (cases "k = of_nat n")
      case True
      then show ?thesis using P(1,2) S un by (simp add: disk_view_def)
    next
      case False
      then have "unat k \<noteq> n" using un by (metis word_unat_eq_iff)
      moreover have "content u k = content s k" if "\<not> bitmap_no sb k"
        using P(3) [OF False] that BBLOCK_bitmap_no [OF b] by blast
      ultimately show ?thesis using False P(1) [of "unat k"] by (auto simp: disk_view_def)
    qed
  qed
qed

lemma free_block_unused:
  assumes "disk_ok sb s" "\<exists>n \<in> data_space sb. disk_view sb s n = None"
  shows "\<exists>n. unat (0 :: u32) \<le> n \<and> n < unat (num_blocks sb) \<and> \<not> used_block sb s n"
proof -
  obtain n where n: "n \<in> data_space sb" "disk_view sb s n = None" using assms(2) by blast
  then show ?thesis using data_space_facts [OF assms(1) n(1)] by (auto simp: disk_view_def split: if_splits)
qed

context object_pool
begin

lemma store_alloc:
  assumes "store_inv orep sb (s, c) V (r + (unat (num_blocks sb) div BIT_PER_BLOCK + 3)) (Suc (Suc l))"
    "\<exists>n \<in> data_space sb. V n = None"
  shows "runs (cache_alloc A sb (Some c)) s (\<lambda>(n, c') t. \<exists>d. c' = Some d \<and> n \<in> data_space sb \<and> V n = None \<and>
    store_inv orep sb (t, d) (V(n \<mapsto> replicate BLOCK_SIZE 0)) r l)"
proof -
  obtain m where m: "r + (unat (num_blocks sb) div BIT_PER_BLOCK + 3) \<le> m" "cache_ok orep {} m s"
    and D: "disk_ok sb s" "may_log s c (Suc (Suc l))" "V = disk_view sb s" using assms(1) by (auto simp: store_inv_def)
  have b: "bitmap_ok sb s" using D(1) by (simp add: disk_ok_def)
  have fin: "of_nat n \<in> data_space sb \<and> V (of_nat n) = None \<and>
      store_inv orep sb (u, d) (V(of_nat n \<mapsto> replicate BLOCK_SIZE 0)) r l \<and> (ucast (of_nat n :: u32) :: u64) = of_nat n"
    if u: "alloc_post sb s (unat (0 :: u32)) n u" "cache_ok orep {} m' u" "may_log u d l"
      "m \<le> m' + (unat (num_blocks sb) - unat (0 :: u32)) div BIT_PER_BLOCK + 3" for n d u m'
  proof -
    have "r \<le> m'" using m(1) u(4) by simp
    then show ?thesis using alloced [OF D(1) u(1)] u(2,3) D(3) by (auto simp: store_inv_def)
  qed
  have free: "\<exists>n. unat (0 :: u32) \<le> n \<and> n < unat (num_blocks sb) \<and> \<not> used_block sb s n"
    using free_block_unused [OF D(1)] assms(2) D(3) by blast
  show ?thesis unfolding cache_alloc_def runs_bind
    by (rule runs_mono [OF alloc_from_spec [OF m(2) b D(2) _ free _ roomy_empty apart_empty]]) (use m(1) fin in \<open>auto simp: wp\<close>)
qed

text \<open>Allocation while a block is held: its holder keeps it, and the data he has.\<close>

lemma store_alloc_held:
  assumes h: "store_held orep sb (t, c) p n V (r + (unat (num_blocks sb) div BIT_PER_BLOCK + 3)) (Suc (Suc l))"
    and V: "V n = Some (data (blk t p))" "\<exists>n \<in> data_space sb. V n = None" and room: "roomy orep {p}"
  shows "runs (cache_alloc A sb (Some c)) t (\<lambda>(k, c') u. \<exists>d. c' = Some d \<and> k \<in> data_space sb \<and> V k = None \<and>
    store_held orep sb (u, d) p n (V(k \<mapsto> replicate BLOCK_SIZE 0)) r l \<and> data (blk u p) = data (blk t p))"
proof -
  let ?d = "data (blk t p)" and ?w = "put_back p (data (blk t p)) t"
  obtain m where m: "r + (unat (num_blocks sb) div BIT_PER_BLOCK + 3) \<le> m" "cache_ok orep {} m ?w"
    and D: "disk_ok sb ?w" "may_log ?w c (Suc (Suc l))" "V = disk_view sb ?w"
    and t: "cached t n = Some p" "block_lock (blk t p)" "length ?d = BLOCK_SIZE"
    using h V(1) by (auto simp: store_held_def store_inv_def)
  have body: "cache_body orep {} m ?w" "\<not> cache_locked t" using m(2) by (auto simp: cache_ok_def put_back_def)
  have cw: "cached ?w n = Some p" using t(1) by simp
  have tw: "t = ?w\<lparr>blk := (blk ?w)(p := (blk ?w p)\<lparr>acquired := acquired (blk t p), block_lock := True\<rparr>)\<rparr>"
    using t(2) by (cases "blk t p") (simp add: put_back_def fun_upd_idem)
  note L = lock_again [OF body(1) cw tw]
  have Dt: "disk_ok sb t" "V = disk_view sb t" "may_log t c (Suc (Suc l))" using disk_cong [of t ?w sb] L(3,4) D by auto
  have ok: "cache_ok orep {p} m t" using L(1) body(2) by (simp add: cache_ok_def)
  have b: "bitmap_ok sb t" using Dt(1) by (simp add: disk_ok_def)
  have no: "block_no (blk t p) = n" by (rule cached_blk [OF t(1)])
  have V1: "disk_view sb t n = Some ?d" using V(1) Dt(2) by simp
  note Vn = view_block [OF Dt(1) V1]
  have ap: "apart sb {p} t"
    unfolding apart_def
  proof (intro ballI allI impI conjI)
    fix q j assume q: "q \<in> {p}" and j: "j < unat (num_blocks sb)"
    show "block_no (blk t q) \<noteq> BBLOCK (of_nat j) sb" using q no Vn(5) BBLOCK_bitmap_no [OF b j] by auto
    have "unat (of_nat j :: u64) = j" using j unsigned_less [of "num_blocks sb", where ?'a = nat] by (intro unat_of_nat_lt) simp
    then show "block_no (blk t q) \<noteq> of_nat j" if "\<not> used_block sb t j" using q no Vn(6) that by auto
  qed
  have clean: "?d = disk t (sector n)" if "\<not> pinned (blk t p)"
  proof -
    have "p \<in> set (lru ?w) \<and> block_no (blk ?w p) = n" using cw unfolding cached_def by (rule find_block_Some)
    then have "data (blk ?w p) = disk ?w (sector n)" using body(1) that by (auto simp: cache_body_def put_back_def)
    then show ?thesis by (simp add: put_back_def)
  qed
  have fin: "of_nat k \<in> data_space sb \<and> V (of_nat k) = None \<and> (ucast (of_nat k :: u32) :: u64) = of_nat k \<and>
      store_held orep sb (u, d) p n (V(of_nat k \<mapsto> replicate BLOCK_SIZE 0)) r l \<and> data (blk u p) = ?d"
    if u: "alloc_post sb t (unat (0 :: u32)) k u" "cache_ok orep {p} m' u" "may_log u d l" "blk u p = blk t p"
      "m \<le> m' + (unat (num_blocks sb) - unat (0 :: u32)) div BIT_PER_BLOCK + 3" for k d u m'
  proof -
    note N = alloced [OF Dt(1) u(1)]
    have bu: "cache_body orep (insert p {}) m' u" "\<not> cache_locked u" using u(2) by (simp_all add: cache_ok_def)
    then have cu: "cached u n = Some p" using u(4) no by (subst cached_iff) (auto simp: cache_body_def)
    have "disk u = disk t" using u(1) by (auto simp: alloc_post_def edited_def)
    then have "data (blk u p) = disk u (sector n)" if "\<not> pinned (blk u p)" using clean that u(4) by simp
    note R = unlock_view [OF bu(1) cu _ this refl, folded put_back_same, unfolded u(4)]
    have sv: "same_view u (put_back p ?d u)" using R(2) by simp
    have "disk_ok sb (put_back p ?d u)" "disk_view sb (put_back p ?d u) = disk_view sb u"
      using disk_cong [of "put_back p ?d u" u sb] N(3) sv by (auto simp: same_view_def)
    moreover have "cache_ok orep {} m' (put_back p ?d u)" using R(1) bu(2) by (simp add: cache_ok_def put_back_def)
    moreover have "may_log (put_back p ?d u) d l" using same_view_log(1) [OF sv] u(3) by simp
    moreover have "r \<le> m'" using m(1) u(5) by simp
    ultimately have "store_inv orep sb (put_back p ?d u, d) (V(of_nat k \<mapsto> replicate BLOCK_SIZE 0)) r l"
      using N(4) Dt(2) by (auto simp: store_inv_def)
    moreover have "n \<noteq> of_nat k" using N(2) V1 by auto
    ultimately show ?thesis using N cu u(4) t(2,3) V(1) Dt(2) by (auto simp: store_held_def)
  qed
  have free: "\<exists>n. unat (0 :: u32) \<le> n \<and> n < unat (num_blocks sb) \<and> \<not> used_block sb t n"
    using free_block_unused [OF Dt(1)] V(2) Dt(2) by blast
  show ?thesis unfolding cache_alloc_def runs_bind
    by (rule runs_mono [OF alloc_from_spec [OF ok b Dt(3) _ free _ room ap]]) (use m(1) fin in \<open>auto simp: wp\<close>)
qed

lemma store_free:
  assumes "store_inv orep sb (s, c) V (Suc r) (Suc l)" "n \<in> data_space sb" "V n \<noteq> None"
  shows "runs (cache_free A sb (Some c) n) s (\<lambda>c' t. \<exists>d. c' = Some d \<and> store_inv orep sb (t, d) (V(n := None)) r l)"
proof -
  obtain m where m: "Suc r \<le> m" "cache_ok orep {} m s"
    and D: "disk_ok sb s" "may_log s c (Suc l)" "V = disk_view sb s" using assms(1) by (auto simp: store_inv_def)
  have b: "bitmap_ok sb s" using D(1) by (simp add: disk_ok_def)
  note S = data_space_facts [OF D(1) assms(2)]
  let ?B = "BBLOCK (of_nat (unat n)) sb"
  have u: "used_block sb s (unat n)" using assms(3) D(3) by (auto simp: disk_view_def split: if_splits)
  have fin: "store_inv orep sb (t, d) (V(n := None)) r l"
    if t: "m \<le> Suc m'" "cache_ok orep {} m' t" "may_log t d l"
      "edited s ?B (cell_clear (content s ?B) (unat n mod BIT_PER_BLOCK)) t" for t d m'
  proof -
    have used: "used_block sb t j \<longleftrightarrow> j \<noteq> unat n \<and> used_block sb s j" if "j < unat (num_blocks sb)" for j
      by (rule used_block_edited [where g = cell_clear and h = "\<lambda>a b. \<not> a \<and> b", OF t(4) b S(4) that])
        (simp_all add: cell_get_clear)
    have B: "bitmap_no sb ?B" by (rule BBLOCK_bitmap_no [OF b S(4)])
    have cont: "content t k = content s k" if "\<not> bitmap_no sb k" for k
      using t(4) B that unfolding edited_def by metis
    have len: "length (content t k) = length (content s k)" for k
      using t(4) by (cases "k = ?B") (auto simp: edited_def cell_clear_def)
    have "meta_blocks sb \<le> unat n" using assms(2) by (simp add: data_space_def)
    then have "disk_ok sb t" using D(1) used len by (auto simp: disk_ok_def bitmap_ok_def meta_blocks_def)
    moreover have "disk_view sb t = V(n := None)"
      using used cont D(3) by (auto simp: disk_view_def fun_eq_iff word_unat_eq_iff)
    moreover have "r \<le> m'" using m(1) t(1) by simp
    ultimately show ?thesis using t(2,3) by (auto simp: store_inv_def)
  qed
  have "runs (cache_free A sb (Some c) (of_nat (unat n))) s (\<lambda>c' t. \<exists>d. c' = Some d \<and> store_inv orep sb (t, d) (V(n := None)) r l)"
    by (rule runs_mono [OF free_spec(1) [OF m(2) _ b D(2) S(4) u]]) (use m(1) fin in auto)
  then show ?thesis by (simp add: of_nat_unat)
qed

lemma store_laws:
  assumes "deep \<Longrightarrow> \<forall>p. roomy orep {p}"
  shows "block_store (bcache_ops A sb) (store_inv orep sb) (store_held orep sb) (unat (num_blocks sb) div BIT_PER_BLOCK + 3) (data_space sb) deep"
proof (unfold_locales, goal_cases)
  case (1 s V r l n d)
  then show ?case using view_block(3) by (auto simp: store_inv_def)
next
  case (2 s V r l n d)
  then show ?case using store_acquire [of sb "fst s" "snd s"] by (simp add: bcache_ops_def wp)
next
  case (3 s p n V r l d)
  have "find_block ((blk (fst s))(p := (blk (fst s) p)\<lparr>data := d\<rparr>)) n (lru (fst s)) = find_block (blk (fst s)) n (lru (fst s))"
    by (rule find_block_same) simp
  then show ?case using 3 by (auto simp: bcache_ops_def store_held_def put_back_def cached_def)
next
  case (4 s p n V r l)
  then show ?case using sync_held [of orep sb "fst s" "snd s" p n V r l]
    by (cases s) (auto simp: bcache_ops_def wp elim!: runs_mono)
next
  case (5 s p n V r l)
  then show ?case by (auto simp: bcache_ops_def wp store_held_def put_back_same)
next
  case (6 s V r l)
  then show ?case using store_alloc [of sb "fst s" "snd s" V r l]
    by (cases s) (auto simp: bcache_ops_def wp elim!: runs_mono)
next
  case (7 s p n V r l)
  then show ?case using store_alloc_held [of sb "fst s" "snd s" p n V r l] assms
    by (cases s) (auto simp: bcache_ops_def wp elim!: runs_mono)
next
  case (8 s V r l n)
  then show ?case using store_free [of sb "fst s" "snd s" V r l n]
    by (cases s) (auto simp: bcache_ops_def wp elim!: runs_mono)
next
  case (9 s V r l r' l')
  then show ?case by (auto simp: store_inv_def may_log_def intro: order_trans)
next
  case (10 n)
  have "unat (num_blocks sb) < 2 ^ 32" using unsigned_less [of "num_blocks sb", where ?'a = nat] by simp
  then show ?case using 10 by (auto simp: data_space_def word_less_nat_alt)
qed simp

end

text \<open>
  A pool of which no more is used than the cache keeps without evicting: acquiring a block that is in the cache does not protect it
  from eviction, so this is what makes it safe to acquire or allocate another block while one is held.
\<close>

definition few :: "('a \<Rightarrow> u64 set \<Rightarrow> nat \<Rightarrow> bool) \<Rightarrow> 'a \<Rightarrow> u64 set \<Rightarrow> nat \<Rightarrow> bool" where
  "few orep k X m \<longleftrightarrow> finite X \<and> card X + m \<le> EVICTION_THRESHOLD \<and> (\<exists>m' \<ge> m. orep k X m')"

lemma roomy_few: "roomy (few orep) H"
  by (auto simp: roomy_def few_def cache_ok_def cache_body_def distinct_card)

interpretation fp: object_pool "arena_pool kend self me" "few (pool_rep kend self)" for kend self me
proof
  fix k X n
  assume k: "few (pool_rep kend self) k X (Suc n)"
  then obtain m where "n \<le> m" "pool_rep kend self k X (Suc m)" by (auto simp: few_def dest: Suc_le_D)
  with ap.pool_alloc [OF this(2), of me] k
  show "\<exists>p k'. oalloc (arena_pool kend self me) k = Inr (p, k') \<and> p \<notin> X \<and> few (pool_rep kend self) k' (insert p X) n"
    by (fastforce simp: few_def)
next
  fix k X n p
  assume k: "few (pool_rep kend self) k X n" and p: "p \<in> X"
  then obtain m where m: "n \<le> m" "pool_rep kend self k X m" by (auto simp: few_def)
  have "Suc (card (X - {p})) = card X" using k p by (intro card_Suc_Diff1) (simp_all add: few_def)
  then show "\<exists>k'. ofree (arena_pool kend self me) p k = Inr k' \<and> few (pool_rep kend self) k' (X - {p}) (Suc n)"
    using ap.pool_free [OF m(2) p, of me] k m(1) by (fastforce simp: few_def)
qed

interpretation fs: block_store "bcache_ops (arena_pool kend self me) sb" "store_inv (pool_rep kend self) sb"
  "store_held (pool_rep kend self) sb" "unat (num_blocks sb) div BIT_PER_BLOCK + 3" "data_space sb" False for kend self me sb
  by (rule ap.store_laws) simp

interpretation fd: block_store "bcache_ops (arena_pool kend self me) sb" "store_inv (few (pool_rep kend self)) sb"
  "store_held (few (pool_rep kend self)) sb" "unat (num_blocks sb) div BIT_PER_BLOCK + 3" "data_space sb" True for kend self me sb
  by (rule fp.store_laws) (simp add: roomy_few)

section \<open>Files over the cache\<close>

text \<open>An inode in memory whose file is well formed and whose on-disk entry is outside the data area.\<close>

definition file_inode :: "SuperBlock \<Rightarrow> 's itree \<Rightarrow> u64 \<Rightarrow> bview \<Rightarrow> bool" where
  "file_inode sb t p V \<longleftrightarrow> ivalid (itab t p) \<and> file_ok (data_space sb) (entry (itab t p)) V \<and> file_full (entry (itab t p)) V \<and>
     to_block_no sb (inode_no (itab t p)) \<notin> data_space sb \<and> V (to_block_no sb (inode_no (itab t p))) \<noteq> None"

text \<open>
  What a write of \<open>n\<close> bytes at \<open>off\<close> has done, apart from the bytes themselves: the size is the new one, no other byte of the file has changed,
  no block has changed that is neither the file's nor the one with its entry \<open>ino\<close>, and in that one the entry was replaced if the file grew.
\<close>

definition wrote_file :: "SuperBlock \<Rightarrow> usize \<Rightarrow> InodeEntry \<Rightarrow> bview \<Rightarrow> nat \<Rightarrow> nat \<Rightarrow> InodeEntry \<Rightarrow> bview \<Rightarrow> bool" where
  "wrote_file sb ino e V off n e' V' \<longleftrightarrow> unat (num_bytes e') = max (unat (num_bytes e)) (off + n) \<and>
     (\<forall>k < INODE_MAX_BYTES. k < off \<or> off + n \<le> k \<longrightarrow> fbyte e' V' k = fbyte e V k) \<and>
     (\<forall>x. V x \<noteq> None \<longrightarrow> x \<notin> ablocks e V \<longrightarrow> x \<noteq> to_block_no sb ino \<longrightarrow> V' x = V x) \<and>
     V' (to_block_no sb ino) = (if unat (num_bytes e) < off + n then Some (put_entry ino e' (the (V (to_block_no sb ino)))) else V (to_block_no sb ino))"

text \<open>A write that has to map blocks behind the indirect one.\<close>

definition new_far :: "InodeEntry \<Rightarrow> bview \<Rightarrow> nat \<Rightarrow> nat \<Rightarrow> bool" where
  "new_far e V off n \<longleftrightarrow> (\<exists>k \<in> set [off..<off + n]. \<not> k div BLOCK_SIZE < INODE_NUM_DIRECT \<and> bmap e V (k div BLOCK_SIZE) = 0)"

context block_store
begin

lemma write_read:
  assumes E: "cache E = C" and t: "e = entry (itab t p)" "ivalid (itab t p)" "itype e \<noteq> INODE_DEVICE"
      "file_ok space e V" "file_full e V" "ib = to_block_no sb (inode_no (itab t p))" "ib \<notin> space" "V ib = Some d"
    and n: "off \<le> unat (num_bytes e)" "off + length src \<le> INODE_MAX_BYTES" "w = new_far e V off (length src)" "w \<Longrightarrow> deep"
      "blocks_in off (length src) + fresh_indirect w e \<le> nfree V"
    and b: "binv (base t) V (Suc (2 * blocks_in off (length src)) + (acost + 2) * blocks_in off (length src) + acost * fresh_indirect w e)
      (Suc 0 + (3 + of_bool w) * blocks_in off (length src) + 2 * fresh_indirect w e)"
  shows "runs (andthen (inode_write E sb True p src (of_nat off) (of_nat (length src))) (inode_read E p (of_nat off) (of_nat (length src)))) t
    (\<lambda>r u. r = (of_nat (length src), src) \<and> (\<exists>s e' V'. u = with_entry (t\<lparr>base := s\<rparr>) p e' \<and> binv s V' 0 0 \<and>
      file_ok space e' V' \<and> file_full e' V' \<and> V' ib \<noteq> None \<and> wrote_file sb (inode_no (itab t p)) e V off (length src) e' V'))"
  unfolding runs_andthen
proof (rule write_spec [OF E t, where r = "2 * blocks_in off (length src)" and l = 0 and w = w])
  show "\<forall>k. off \<le> k \<longrightarrow> k < off + length src \<longrightarrow> bmap e V (k div BLOCK_SIZE) \<noteq> 0 \<or> k div BLOCK_SIZE < INODE_NUM_DIRECT \<or> w"
    using n(3) by (auto simp: new_far_def)
  fix s e' V'
  assume s: "binv s V' (2 * blocks_in off (length src)) 0" "file_ok space e' V'" "file_full e' V'" "V' ib \<noteq> None"
    and e': "unat (num_bytes e') = new_size e (off + length src)" "itype e' = itype e"
    and W: "\<forall>k < INODE_MAX_BYTES. fbyte e' V' k = (if off \<le> k \<and> k < off + length src then src ! (k - off) else fbyte e V k)"
    and O: "\<forall>x. V x \<noteq> None \<longrightarrow> x \<notin> ablocks e V \<longrightarrow> x \<noteq> ib \<longrightarrow> V' x = V x"
      "V' ib = Some (if unat (num_bytes e) < off + length src then put_entry (inode_no (itab t p)) e' d else d)"
  have u: "unat (of_nat off :: u64) = off" "unat (of_nat (length src) :: u64) = length src"
    using n(2) by (intro unat_of_nat_lt, simp add: fs_sizes)+
  have bytes: "map (fbyte e' V') [off..<off + length src] = src"
    using W n(2) by (intro nth_equalityI) simp_all
  have wf: "wrote_file sb (inode_no (itab t p)) e V off (length src) e' V'"
    using W e' O t(6,8) by (simp add: wrote_file_def new_size_def)
  show "runs (inode_read E p (of_nat off) (of_nat (length src))) (with_entry (t\<lparr>base := s\<rparr>) p e')
    (\<lambda>r u. r = (of_nat (length src), src) \<and> (\<exists>s e' V'. u = with_entry (t\<lparr>base := s\<rparr>) p e' \<and> binv s V' 0 0 \<and>
      file_ok space e' V' \<and> file_full e' V' \<and> V' ib \<noteq> None \<and> wrote_file sb (inode_no (itab t p)) e V off (length src) e' V'))"
  proof (rule read_spec [OF E, where e = e' and m = "length src" and V = V' and r = 0 and l = 0])
    show "length src = min (unat (of_nat (length src) :: u64)) (unat (num_bytes e') - unat (of_nat off :: u64))"
      "unat (of_nat off :: u64) \<le> unat (num_bytes e')" "unat (of_nat off :: u64) + unat (of_nat (length src) :: u64) < 2 ^ 64"
      using u n(2) e' by (auto simp: new_size_def fs_sizes)
    show "binv (base (with_entry (t\<lparr>base := s\<rparr>) p e')) V' (0 + 2 * blocks_in (unat (of_nat off :: u64)) (length src)) 0"
      using s(1) u by simp
  qed (use s e' t(3) u bytes wf in auto)
qed (use n b in auto)

lemma insert_lookup:
  assumes E: "cache E = C" and t: "e = entry (itab t p)" "ivalid (itab t p)" "dir_ok space e V"
      "ib = to_block_no sb (inode_no (itab t p))" "ib \<notin> space" "V ib = Some d"
    and n: "dir_find e V name 0 = (0, None)" "dir_size e < INODE_NUM_DIRECT * BLOCK_SIZE div sizeof_DirEntry" "1 \<le> nfree V"
      "k < 2 ^ 16" "k \<noteq> 0"
    and b: "binv (base t) V (2 * Suc (dir_size e) + acost + 3 + 2 * dir_size e + 2 * dir_size e) 4"
  shows "runs (bind (inode_insert E sb de0 True p name k) (\<lambda>off. bind (inode_lookup E de1 p name) (\<lambda>r. ret (off, r)))) t
    (\<lambda>(off, r) u. r = (k, Some off) \<and> off = of_nat (sizeof_DirEntry * free_slot e V 0) \<and>
      (\<exists>s e' V'. u = with_entry (t\<lparr>base := s\<rparr>) p e' \<and> binv s V' 0 0 \<and> dir_ok space e' V' \<and>
        dir_upd e V (free_slot e V 0) \<lparr>dino = ucast k, dname = strncpy_l name FILE_NAME_MAX_LENGTH\<rparr> e' V'))"
  unfolding runs_bind [of "inode_insert E sb de0 True p name k"]
proof (rule insert_spec [OF E t n(1-3), where r = "2 * Suc (dir_size e)" and l = 0])
  fix s e' V'
  let ?j = "free_slot e V 0" and ?de = "\<lparr>dino = ucast k, dname = strncpy_l name FILE_NAME_MAX_LENGTH\<rparr> :: DirEntry"
  assume s: "binv s V' (2 * Suc (dir_size e)) 0" "dir_ok space e' V'" "dir_upd e V ?j ?de e' V'"
  have j: "?j \<le> dir_size e" by (simp add: free_slot_le)
  have c: "ucast (ucast k :: u16) = k"
    using n(4) by (simp add: word_unat_eq_iff unsigned_ucast_eq word_less_nat_alt unsigned_take_bit_eq take_bit_nat_eq_self)
  then have "(ucast k :: u16) \<noteq> 0" using n(5) by auto
  note F = dir_upd_find [OF s(3) this n(1) j, unfolded c]
  have "dir_size e' \<le> Suc (dir_size e)" using s(3) j by (simp add: dir_upd_def)
  then have "binv s V' (0 + 2 * dir_size e') 0" by (intro budget [OF s(1)]) simp_all
  then show "runs (bind (inode_lookup E de1 p name) (\<lambda>r. ret (of_nat (sizeof_DirEntry * ?j), r))) (with_entry (t\<lparr>base := s\<rparr>) p e')
    (\<lambda>(off, r) u. r = (k, Some off) \<and> off = of_nat (sizeof_DirEntry * ?j) \<and>
      (\<exists>s e' V'. u = with_entry (t\<lparr>base := s\<rparr>) p e' \<and> binv s V' 0 0 \<and> dir_ok space e' V' \<and> dir_upd e V ?j ?de e' V'))"
    unfolding runs_bind
    by (intro lookup_spec [OF E, where V = V' and r = 0 and l = 0]) (use s F in \<open>auto simp: runs_ret\<close>)
qed (use b in simp)

end

section \<open>An example state\<close>

text \<open>Two free pages make an arena of twelve blocks.\<close>

lemma pool2: "\<exists>k. pool_rep 0xffff000000100000 0 k {} 12"
proof -
  have "valid_page 0xffff000000100000 0xffff000000101000"
    by (simp add: valid_page_def aligned_def PAGE_SIZE_def P2K_phystop)
  from pm.free_page [OF one_page_rep this, of 0] obtain m where
    m: "pm_rep 0xffff000000100000 m [0xffff000000101000, 0xffff000000100000]" by auto
  then have "arena_sys 0xffff000000100000 0 (arena0\<lparr>ker := m\<rparr>) [] [0xffff000000101000, 0xffff000000100000]"
    by (simp add: arena_sys_def arena_inv_def arena_core_def arena_list_def full_last_def sizes_ok_def
        hdr_typed_def arena0_def init_spinlock_def)
  then show ?thesis unfolding pool_rep_def
    by (intro exI [of _ "arena0\<lparr>ker := m\<rparr>"] exI [of _ "[]"] exI [of _ "[0xffff000000101000, 0xffff000000100000]"])
      (simp add: objects_def allocated_def arena0_def)
qed

text \<open>A disk on which the first 320 blocks are in use, and an operation that has just begun.\<close>

definition map1 :: "u8 list" where "map1 = replicate 40 255 @ replicate 472 0"

definition store1 :: "PMemory arena_st \<Rightarrow> PMemory arena_st bcache \<times> OpContext" where
  "store1 k = ((cache1 0 k)\<lparr>lru := [], header := \<lparr>hnum = 0, hblock = replicate 63 0\<rparr>,
     log := \<lparr>outstanding = 1, committing = False, mu = 10, mx = 39\<rparr>,
     disk := (\<lambda>x. if x = sector 90 then map1 else replicate BLOCK_SIZE 0)\<rparr>, ctx0)"

definition tree1 :: "u16 \<Rightarrow> PMemory arena_st \<Rightarrow> (PMemory arena_st bcache \<times> OpContext) itree" where
  "tree1 ty k = \<lparr>base = store1 k,
     itab = (\<lambda>_. \<lparr>ilock = True, irc = \<lparr>count = 1\<rparr>, inode_no = 1, ivalid = True, entry = zero_entry\<lparr>itype := ty\<rparr>\<rparr>),
     ilist = [1], tree_locked = False, root = 1\<rparr>"

definition env1 :: "(PMemory arena_st bcache \<times> OpContext) fs_env" where
  "env1 = \<lparr>cache = bcache_ops (arena_pool 0xffff000000100000 0 0) sb1, ialloc = fail Blocked, ifree = (\<lambda>_. fail Blocked),
     con_read = (\<lambda>_ _. fail Blocked), con_write = (\<lambda>_ _ _. fail Blocked)\<rparr>"

lemma store1_content: "n < 1000 \<Longrightarrow> content (fst (store1 k)) n = (if n = 90 then map1 else replicate BLOCK_SIZE 0)"
proof -
  assume "n < 1000"
  then have "sector n = sector 90 \<longleftrightarrow> n = 90"
    using sector_inj [of n 90] by (auto simp: word_less_nat_alt)
  then show ?thesis by (simp add: content_def cached_def store1_def)
qed

lemma store1_used: "j < 1000 \<Longrightarrow> used_block sb1 (fst (store1 k)) j \<longleftrightarrow> j < 320"
proof -
  assume j: "j < 1000"
  have "unat (BBLOCK (of_nat j) sb1) = 90" using j by (subst unat_BBLOCK) (simp_all add: sb1_def BIT_PER_BLOCK_def BLOCK_SIZE_def)
  then have "BBLOCK (of_nat j) sb1 = 90" by (simp add: word_unat_eq_iff)
  then have "used_block sb1 (fst (store1 k)) j = cell_get map1 j"
    using j by (simp add: used_block_def store1_content BIT_PER_BLOCK_def BLOCK_SIZE_def)
  also have "\<dots> \<longleftrightarrow> j < 320"
  proof (cases "j < 320")
    case True
    have m: "(255 :: u8) = mask 8" by (simp add: mask_eq_exp_minus_1)
    have "bit (255 :: u8) (j mod 8)" unfolding m by (simp add: bit_mask_iff)
    moreover have "j div 8 < 40" using True by (intro less_mult_imp_div_less) simp
    ultimately show ?thesis using True by (simp add: cell_get_def map1_def nth_append)
  next
    case False
    then show ?thesis using j by (simp add: cell_get_def map1_def nth_append)
  qed
  finally show ?thesis .
qed

lemma store1_geometry: "unat (num_blocks sb1) = 1000" "meta_blocks sb1 = 300" "to_block_no sb1 1 = 50"
  "bitmap_no sb1 n \<longleftrightarrow> n = 90" "data_space sb1 = {n. 300 \<le> unat n \<and> unat n < 1000}"
  by (auto simp: sb1_def meta_blocks_def to_block_no_def bitmap_no_def data_space_def INODE_PER_BLOCK_def sizeof_InodeEntry_def
      BIT_PER_BLOCK_def BLOCK_SIZE_def word_unat_eq_iff)

lemma store1_inv:
  assumes "orep k {} 12"
  shows "store_inv orep sb1 (store1 k) (disk_view sb1 (fst (store1 k))) 12 10"
proof -
  have c: "length (content (fst (store1 k)) n) = BLOCK_SIZE" if "unat n < 1000" for n
    using that store1_content [of n k] by (simp add: word_less_nat_alt map1_def BLOCK_SIZE_def)
  have "bitmap_ok sb1 (fst (store1 k))"
    unfolding bitmap_ok_def
  proof (intro conjI allI impI)
    fix n assume "n < unat (num_blocks sb1)"
    then have "unat (BBLOCK (of_nat n) sb1) = 90"
      using store1_geometry by (subst unat_BBLOCK) (simp_all add: sb1_def BIT_PER_BLOCK_def BLOCK_SIZE_def)
    then show "length (content (fst (store1 k)) (BBLOCK (of_nat n) sb1)) = BLOCK_SIZE" by (intro c) simp
  qed (simp_all add: sb1_def BIT_PER_BLOCK_def BLOCK_SIZE_def)
  then have "disk_ok sb1 (fst (store1 k))"
    using c store1_used store1_geometry by (auto simp: disk_ok_def) (simp add: sb1_def BIT_PER_BLOCK_def BLOCK_SIZE_def)
  moreover have "cache_ok orep {} 12 (fst (store1 k))"
    using assms by (simp add: store1_def cache1_def cache_ok_def cache_body_def)
  moreover have "may_log (fst (store1 k)) (snd (store1 k)) 10"
    by (simp add: may_log_def log_ok_def logged_def store1_def cache1_def ctx0_def LOG_MAX_SIZE_def BLOCK_SIZE_def)
  ultimately show ?thesis by (auto simp: store_inv_def)
qed

lemma store1_free: "2 \<le> card {x \<in> data_space sb1. disk_view sb1 (fst (store1 k)) x = None}"
proof -
  have "{500, 501} \<subseteq> {x \<in> data_space sb1. disk_view sb1 (fst (store1 k)) x = None}"
    using store1_geometry store1_used [of 500 k] store1_used [of 501 k] by (simp add: disk_view_def)
  moreover have "finite (data_space sb1)" by simp
  ultimately have "card {500, 501 :: usize} \<le> card {x \<in> data_space sb1. disk_view sb1 (fst (store1 k)) x = None}"
    by (intro card_mono) simp_all
  then show ?thesis by simp
qed

lemma store1_view: "300 \<le> n \<Longrightarrow> n < 320 \<Longrightarrow> disk_view sb1 (fst (store1 k)) (of_nat n) \<noteq> None \<and> of_nat n \<in> data_space sb1"
proof -
  assume n: "300 \<le> n" "n < 320"
  then have u: "unat (of_nat n :: usize) = n" by (intro unat_of_nat_lt) simp
  have "(of_nat n :: usize) \<noteq> 90"
  proof
    assume "(of_nat n :: usize) = 90"
    then show False using u n by simp
  qed
  then show ?thesis using store1_geometry store1_used [of n k] n u by (simp add: disk_view_def)
qed

lemma tree1_file: "file_inode sb1 (tree1 ty k) p (disk_view sb1 (fst (store1 k)))"
  using store1_geometry store1_used [of 50 k]
  by (auto simp: file_inode_def tree1_def file_ok_def file_full_def zero_entry_def bmap_def INODE_NUM_DIRECT_def disk_view_def)

text \<open>A file that fills its twelve direct blocks.\<close>

definition entry2 :: InodeEntry where
  "entry2 = zero_entry\<lparr>itype := INODE_REGULAR, num_bytes := 6144, addrs := map (\<lambda>i. of_nat (300 + i)) [0..<12]\<rparr>"

definition tree2 :: "PMemory arena_st \<Rightarrow> (PMemory arena_st bcache \<times> OpContext) itree" where
  "tree2 k = with_entry (tree1 INODE_REGULAR k) 1 entry2"

lemma entry2_bmap: "i < INODE_MAX_BLOCKS \<Longrightarrow> bmap entry2 V i = (if i < 12 then of_nat (300 + i) else 0)"
  by (simp add: bmap_def entry2_def zero_entry_def INODE_NUM_DIRECT_def)

lemma tree2_file: "file_inode sb1 (tree2 k) 1 (disk_view sb1 (fst (store1 k)))"
proof -
  let ?V = "disk_view sb1 (fst (store1 k))"
  have w: "unat (of_nat (300 + i) :: u32) = 300 + i" "(ucast (of_nat (300 + i) :: u32) :: usize) = of_nat (300 + i)" if "i < 12" for i
    using that ucast_of_nat_small [of "300 + i"] by (simp_all add: unat_of_nat_lt del: of_nat_add)
  have nz: "(of_nat (300 + i) :: u32) \<noteq> 0" if "i < 12" for i using w(1) [OF that] by (metis unsigned_0 add_is_0 zero_neq_numeral)
  have inj: "i = j" if "of_nat (300 + i) = (of_nat (300 + j) :: u32)" "i < 12" "j < 12" for i j
    using w(1) that by (metis add_left_cancel)
  have "file_ok (data_space sb1) entry2 ?V"
    unfolding file_ok_def
  proof (intro conjI allI impI)
    show "length (addrs entry2) = INODE_NUM_DIRECT" by (simp add: entry2_def INODE_NUM_DIRECT_def)
    show "ucast (indirect entry2) \<in> data_space sb1" "?V (ucast (indirect entry2)) \<noteq> None" if "indirect entry2 \<noteq> 0"
      using that by (simp_all add: entry2_def zero_entry_def)
    fix i assume i: "i < INODE_MAX_BLOCKS" "bmap entry2 ?V i \<noteq> 0"
    then have i12: "i < 12" and bi: "bmap entry2 ?V i = of_nat (300 + i)" by (simp_all add: entry2_bmap split: if_splits)
    show "ucast (bmap entry2 ?V i) \<in> data_space sb1" "?V (ucast (bmap entry2 ?V i)) \<noteq> None"
      unfolding bi w(2) [OF i12] using store1_view [of "300 + i" k] i12 by simp_all
    show "bmap entry2 ?V i \<noteq> indirect entry2" using i(2) by (simp add: entry2_def zero_entry_def)
    show "j = i" if "j < INODE_MAX_BLOCKS" "bmap entry2 ?V j = bmap entry2 ?V i" for j
      using that inj [of j i] nz [OF i12] i12 bi by (simp add: entry2_bmap split: if_splits del: of_nat_add)
  qed
  moreover have "file_full entry2 ?V"
    unfolding file_full_def
  proof (intro conjI allI impI)
    have nb: "unat (num_bytes entry2) = 6144" by (simp add: entry2_def)
    then show "unat (num_bytes entry2) \<le> INODE_MAX_BYTES" by (simp add: fs_sizes)
    fix j assume "j < unat (num_bytes entry2)"
    then have "j div BLOCK_SIZE < 12" using nb by (intro less_mult_imp_div_less) (simp add: BLOCK_SIZE_def)
    moreover from this have "j div BLOCK_SIZE < INODE_MAX_BLOCKS" by (simp add: fs_sizes)
    ultimately show "bmap entry2 ?V (j div BLOCK_SIZE) \<noteq> 0" using nz by (simp add: entry2_bmap del: of_nat_add)
  qed
  ultimately show ?thesis using tree1_file [of INODE_REGULAR k 1] by (simp add: file_inode_def tree2_def)
qed

section \<open>Claims\<close>

text \<open>
  C2. What \<^verbatim>\<open>inode_write\<close> puts into a file of the cached disk, \<^verbatim>\<open>inode_read\<close> gets back, byte for byte, for every range up to the
  maximal size of a file: in direct blocks and behind the indirect one, which is allocated when it is missing. The file
  grows to hold the bytes, every byte outside the range keeps its value, and so does every block that is neither the file's nor the one with its entry.
  The write returns when the arena, the log reservation and the bitmap have room for the blocks it touches. When it has to map blocks behind the
  indirect one, the cache must have room for them without evicting (\<open>few\<close>), since \<^verbatim>\<open>inode_map\<close> then allocates while it holds the
  indirect block, which eviction need not spare.
\<close>

theorem inode_write_read:
  assumes "cache E = bcache_ops (arena_pool kend self me) sb" "file_inode sb t p V" "e = entry (itab t p)" "itype e \<noteq> INODE_DEVICE"
    and "b = blocks_in off (length src)" "w = new_far e V off (length src)" "f = fresh_indirect w e"
    and "b + f \<le> card {x \<in> data_space sb. V x = None}" "orep = (if w then few (pool_rep kend self) else pool_rep kend self)"
    and "store_inv orep sb (base t) V
      (Suc (2 * b) + (unat (num_blocks sb) div BIT_PER_BLOCK + 5) * b + (unat (num_blocks sb) div BIT_PER_BLOCK + 3) * f)
      (Suc ((3 + of_bool w) * b + 2 * f))"
    and "off \<le> unat (num_bytes e)" "off + length src \<le> INODE_MAX_BYTES"
  shows "runs (andthen (inode_write E sb True p src (of_nat off) (of_nat (length src))) (inode_read E p (of_nat off) (of_nat (length src)))) t
    (\<lambda>r u. r = (of_nat (length src), src) \<and> (\<exists>V'. store_inv orep sb (base u) V' 0 0 \<and> file_inode sb u p V' \<and>
      wrote_file sb (inode_no (itab t p)) e V off (length src) (entry (itab u p)) V'))"
proof -
  obtain d where f: "ivalid (itab t p)" "file_ok (data_space sb) e V" "file_full e V"
      "to_block_no sb (inode_no (itab t p)) \<notin> data_space sb" "V (to_block_no sb (inode_no (itab t p))) = Some d"
    using assms(2,3) by (auto simp: file_inode_def)
  show ?thesis
  proof (cases w)
    case True
    note o = assms(9) [unfolded if_P [OF True]]
    show ?thesis unfolding o
      by (rule runs_mono [OF fd.write_read [OF assms(1,3) f(1) assms(4) f(2,3) refl f(4,5) assms(11,12,6)]])
        (use assms(5,7,8,10) f(1,4) o in \<open>auto simp: file_inode_def add.commute\<close>)
  next
    case False
    note o = assms(9) [unfolded if_not_P [OF False]]
    show ?thesis unfolding o
      by (rule runs_mono [OF fs.write_read [OF assms(1,3) f(1) assms(4) f(2,3) refl f(4,5) assms(11,12,6)]])
        (use assms(5,7,8,10) f(1,4) o False in \<open>auto simp: file_inode_def add.commute\<close>)
  qed
qed

theorem inode_write_read_witness:
  "\<exists>k u. andthen (inode_write env1 sb1 True 1 [1, 2, 3] 6144 3) (inode_read env1 1 6144 3) (tree2 k) = Inr ((3, [1, 2, 3]), u) \<and>
     num_bytes (entry (itab u 1)) = 6147"
proof -
  obtain k where k: "pool_rep 0xffff000000100000 0 k {} 12" using pool2 by blast
  let ?V = "disk_view sb1 (fst (store1 k))" and ?f = "few (pool_rep 0xffff000000100000 0)"
  have k': "?f k {} 12" using k by (auto simp: few_def EVICTION_THRESHOLD_def)
  have w: "new_far entry2 ?V 6144 (length [1, 2, 3 :: u8])" and f: "fresh_indirect True entry2 = 1"
    and b: "blocks_in 6144 (length [1, 2, 3 :: u8]) = 1" and e: "entry2 = entry (itab (tree2 k) 1)"
    by (auto simp: new_far_def entry2_bmap fs_sizes fresh_indirect_def entry2_def zero_entry_def blocks_in_def tree2_def bmap_def)
  have fr: "1 + 1 \<le> card {x \<in> data_space sb1. ?V x = None}" using store1_free [of k] by simp
  have inv: "store_inv ?f sb1 (base (tree2 k)) ?V
      (Suc (2 * 1) + (unat (num_blocks sb1) div BIT_PER_BLOCK + 5) * 1 + (unat (num_blocks sb1) div BIT_PER_BLOCK + 3) * 1) (Suc ((3 + of_bool True) * 1 + 2 * 1))"
    using fd.budget [OF store1_inv [of ?f, OF k'], of 11 7] by (simp add: tree2_def tree1_def sb1_def BIT_PER_BLOCK_def BLOCK_SIZE_def)
  have "runs (andthen (inode_write env1 sb1 True 1 [1, 2, 3] (of_nat 6144) (of_nat (length [1, 2, 3 :: u8])))
      (inode_read env1 1 (of_nat 6144) (of_nat (length [1, 2, 3 :: u8])))) (tree2 k) (\<lambda>r u. r = (3, [1, 2, 3]) \<and> num_bytes (entry (itab u 1)) = 6147)"
    by (rule runs_mono [OF inode_write_read [OF _ tree2_file e _ b [symmetric] _ f [symmetric] fr _ inv]])
      (use w in \<open>auto simp: env1_def entry2_def zero_entry_def INODE_REGULAR_def INODE_DEVICE_def fs_sizes wrote_file_def word_unat_eq_iff\<close>)
  then show ?thesis by (auto simp: runs_def)
qed

text \<open>
  C5. A name that a directory does not hold can be inserted, and \<^verbatim>\<open>inode_lookup\<close> then finds it with the given inode
  number at the offset \<^verbatim>\<open>inode_insert\<close> returned: the first slot whose entry was free, or a new one at the end.
  Every other entry of the directory is kept.
\<close>

theorem inode_insert_then_lookup:
  assumes "cache E = bcache_ops (arena_pool kend self me) sb" "file_inode sb t p V" "dir_ok (data_space sb) e V" "e = entry (itab t p)"
    and "dir_find e V name 0 = (0, None)" "dir_size e < INODE_NUM_DIRECT * BLOCK_SIZE div sizeof_DirEntry"
    and "1 \<le> card {x \<in> data_space sb. V x = None}" "k < 2 ^ 16" "k \<noteq> 0"
    and "store_inv (pool_rep kend self) sb (base t) V (2 * Suc (dir_size e) + (unat (num_blocks sb) div BIT_PER_BLOCK + 3) + 3 + 2 * dir_size e + 2 * dir_size e) 4"
  shows "runs (bind (inode_insert E sb de0 True p name k) (\<lambda>off. bind (inode_lookup E de1 p name) (\<lambda>r. ret (off, r)))) t
    (\<lambda>(off, r) u. r = (k, Some off) \<and> off = of_nat (sizeof_DirEntry * free_slot e V 0) \<and>
      (\<exists>V'. store_inv (pool_rep kend self) sb (base u) V' 0 0 \<and> dir_ok (data_space sb) (entry (itab u p)) V' \<and>
        dir_upd e V (free_slot e V 0) \<lparr>dino = ucast k, dname = strncpy_l name FILE_NAME_MAX_LENGTH\<rparr> (entry (itab u p)) V'))"
proof -
  obtain d where f: "ivalid (itab t p)" "to_block_no sb (inode_no (itab t p)) \<notin> data_space sb" "V (to_block_no sb (inode_no (itab t p))) = Some d"
    using assms(2) by (auto simp: file_inode_def)
  show ?thesis
    by (rule runs_mono [OF fs.insert_lookup [OF assms(1,4) f(1) assms(3) refl f(2,3) assms(5-10)]]) auto
qed

theorem inode_insert_then_lookup_witness:
  "\<exists>k u. bind (inode_insert env1 sb1 [] True 1 [97, 98] 7) (\<lambda>off. bind (inode_lookup env1 [] 1 [97, 98]) (\<lambda>r. ret (off, r)))
     (tree1 INODE_DIRECTORY k) = Inr ((0, (7, Some 0)), u)"
proof -
  obtain k where k: "pool_rep 0xffff000000100000 0 k {} 12" using pool2 by blast
  let ?t = "tree1 INODE_DIRECTORY k" and ?V = "disk_view sb1 (fst (store1 k))"
  let ?e = "entry (itab ?t 1)"
  have size: "dir_size ?e = 0" by (simp add: dir_size_def tree1_def zero_entry_def)
  have dir: "dir_ok (data_space sb1) ?e ?V"
    using tree1_file [of INODE_DIRECTORY k 1] size by (auto simp: dir_ok_def file_inode_def) (simp_all add: tree1_def zero_entry_def)
  have inv: "store_inv (pool_rep 0xffff000000100000 0) sb1 (base ?t) ?V
      (2 * Suc (dir_size ?e) + (unat (num_blocks sb1) div BIT_PER_BLOCK + 3) + 3 + 2 * dir_size ?e + 2 * dir_size ?e) 4"
    unfolding size using fs.budget [OF store1_inv [of "pool_rep 0xffff000000100000 0", OF k], of 8 4] by (simp add: tree1_def sb1_def BIT_PER_BLOCK_def BLOCK_SIZE_def)
  have one: "1 \<le> card {x \<in> data_space sb1. ?V x = None}" using store1_free [of k] by simp
  have slot: "free_slot ?e ?V 0 = 0" by (simp add: free_slot_def size)
  have "runs (bind (inode_insert env1 sb1 [] True 1 [97, 98] 7) (\<lambda>off. bind (inode_lookup env1 [] 1 [97, 98]) (\<lambda>r. ret (off, r)))) ?t
      (\<lambda>x u. x = (0, (7, Some 0)))"
    by (rule runs_mono [OF inode_insert_then_lookup [OF _ tree1_file dir refl _ _ one _ _ inv]])
      (auto simp: env1_def size slot dir_find_def fs_sizes)
  then show ?thesis by (auto simp: runs_def)
qed

text \<open>
  C26. The names the loop of \<^verbatim>\<open>namex\<close> walks through are the nonempty pieces of the path between slashes, each
  cut to the 14 bytes of a directory entry's name.
\<close>

theorem skipelem_splits_path:
  assumes "0 \<notin> set path"
  shows "map (takeWhile (\<lambda>c. c \<noteq> 0)) (walk path name) = map (take FILE_NAME_MAX_LENGTH) (elements path)"
  by (rule walk_elements [OF assms])

theorem skipelem_splits_path_witness:
  "map (takeWhile (\<lambda>c. c \<noteq> 0)) (walk [47, 97, 47, 47, 98, 99, 47] []) = [[97], [98, 99]]"
  using skipelem_splits_path [of "[47, 97, 47, 47, 98, 99, 47]" "[]"]
  by (simp add: elements_def slash_def FILE_NAME_MAX_LENGTH_def)

end
