(* ===== verification/Console.thy ===== *)
theory Console
  imports Format Inode
begin

text \<open>
  The console (\<^verbatim>\<open>src/core/console.c\<close>): messages of the kernel, and the line editor between the keyboard interrupt
  and readers of the console device. Bytes sent to the UART are appended to \<open>uart\<close>. The characters that \<^verbatim>\<open>getc\<close>
  returns in one interrupt are a list. \<^verbatim>\<open>sleep\<close> and \<^verbatim>\<open>no_return\<close> are the fault \<open>Blocked\<close>. The console state is part
  of the state below the inode layer, so that \<^verbatim>\<open>console_read\<close> and \<^verbatim>\<open>console_write\<close> are the functions the inode layer
  calls for a device.
\<close>

section \<open>State\<close>

definition INPUT_BUF :: nat where "INPUT_BUF = 128"

record console =
  ctx_locked :: bool
  panicked_flag :: bool
  uart :: "u8 list"
  cons_locked :: bool
  ibuf :: "u8 list"
  ir :: usize
  iw :: usize
  ie :: usize
  wakeups :: nat

definition init_console :: "'s console_scheme \<Rightarrow> 's console_scheme" where
  "init_console s = s\<lparr>ctx_locked := False, cons_locked := False\<rparr>"

definition device_put :: "u8 \<Rightarrow> ('s console_scheme, unit) cm" where
  "device_put c = modify (\<lambda>s. s\<lparr>uart := uart s @ [c]\<rparr>)"

fun device_puts :: "u8 list \<Rightarrow> ('s console_scheme, unit) cm" where
  "device_puts [] = ret ()"
| "device_puts (c # cs) = andthen (device_put c) (device_puts cs)"

definition byte_of :: "char \<Rightarrow> u8" where
  "byte_of c = of_nat (of_char c)"

section \<open>Messages\<close>

definition lock_ctx :: "('s console_scheme, unit) cm" where
  "lock_ctx = andthen (guard_cm Blocked (\<lambda>s. \<not> ctx_locked s)) (modify (\<lambda>s. s\<lparr>ctx_locked := True\<rparr>))"

definition unlock_ctx :: "('s console_scheme, unit) cm" where
  "unlock_ctx = modify (\<lambda>s. s\<lparr>ctx_locked := False\<rparr>)"

definition check_panicked :: "('s console_scheme, unit) cm" where
  "check_panicked = guard_cm Blocked (\<lambda>s. \<not> panicked_flag s)"

definition NEWLINE :: u8 where "NEWLINE = 10"

definition console_puts :: "u8 list \<Rightarrow> ('s console_scheme, unit) cm" where
  "console_puts str =
     andthen lock_ctx
     (andthen check_panicked
     (andthen (device_puts str)
     (andthen (device_put NEWLINE)
       unlock_ctx)))"

definition format_out :: "string \<Rightarrow> va_arg list \<Rightarrow> ('s console_scheme, unit) cm" where
  "format_out fmt arg = (case vformat fmt arg of Inl e \<Rightarrow> fail e | Inr txt \<Rightarrow> device_puts (map byte_of txt))"

definition vprintf :: "string \<Rightarrow> va_arg list \<Rightarrow> ('s console_scheme, unit) cm" where
  "vprintf fmt arg =
     andthen lock_ctx
     (andthen check_panicked
     (andthen (format_out fmt arg)
       unlock_ctx))"

definition PANIC_BAR_CHAR :: u8 where "PANIC_BAR_CHAR = 61"

definition PANIC_BAR_LENGTH :: nat where "PANIC_BAR_LENGTH = 32"

text \<open>\<^verbatim>\<open>_panic\<close> up to the call of \<^verbatim>\<open>no_return\<close>.\<close>

definition panic_print :: "u64 \<Rightarrow> va_arg \<Rightarrow> u64 \<Rightarrow> string \<Rightarrow> va_arg list \<Rightarrow> ('s console_scheme, unit) cm" where
  "panic_print cid file line fmt arg =
     andthen lock_ctx
     (andthen check_panicked
     (andthen (modify (\<lambda>s. s\<lparr>panicked_flag := True\<rparr>))
     (andthen (device_puts (replicate PANIC_BAR_LENGTH PANIC_BAR_CHAR))
     (andthen (device_put NEWLINE)
     (andthen (format_out (''KERNEL PANIC at CPU %zu:'' @ [CHR 0x0A]) [AInt cid])
     (andthen (format_out (''file: %s'' @ [CHR 0x0A]) [file])
     (andthen (format_out (''line: %zu'' @ [CHR 0x0A]) [AInt line])
     (andthen (format_out fmt arg)
     (andthen (device_put NEWLINE)
       unlock_ctx)))))))))"

section \<open>The line editor\<close>

text \<open>\<^verbatim>\<open>panicked\<close> is never assigned after its initialisation.\<close>

definition panicked :: int where "panicked = - 1"

definition ctrl :: "u8 \<Rightarrow> u8" where
  "ctrl x = x - 64"

text \<open>\<^verbatim>\<open>consputc(BACKSPACE)\<close> and \<^verbatim>\<open>consputc(c)\<close> for a character.\<close>

definition rubout :: "('s console_scheme, unit) cm" where
  "rubout = device_puts [8, 32, 8]"

definition consputc :: "u8 \<Rightarrow> ('s console_scheme, unit) cm" where
  "consputc c = device_put c"

definition lock_cons :: "('s console_scheme, unit) cm" where
  "lock_cons = andthen (guard_cm Blocked (\<lambda>s. \<not> cons_locked s)) (modify (\<lambda>s. s\<lparr>cons_locked := True\<rparr>))"

definition unlock_cons :: "('s console_scheme, unit) cm" where
  "unlock_cons = modify (\<lambda>s. s\<lparr>cons_locked := False\<rparr>)"

definition islot :: "usize \<Rightarrow> nat" where
  "islot i = unat (i mod of_nat INPUT_BUF)"

text \<open>The loop for \<^verbatim>\<open>C('U')\<close>. \<open>n\<close> bounds the number of steps by the number of characters being edited.\<close>

fun kill_line :: "nat \<Rightarrow> ('s console_scheme, unit) cm" where
  "kill_line 0 = ret ()"
| "kill_line (Suc n) =
     bind (gets (\<lambda>s. ie s \<noteq> iw s \<and> ibuf s ! islot (ie s - 1) \<noteq> 10)) (\<lambda>more.
       if more then andthen (modify (\<lambda>s. s\<lparr>ie := ie s - 1\<rparr>)) (andthen rubout (kill_line n)) else ret ())"

definition intr_char :: "u8 \<Rightarrow> ('s console_scheme, unit) cm" where
  "intr_char c =
     (if c = ctrl 80 then ret ()
      else if c = ctrl 85 then bind (gets (\<lambda>s. unat (ie s - iw s))) kill_line
      else if c = ctrl 72 \<or> c = 127 then
        bind (gets (\<lambda>s. ie s \<noteq> iw s)) (\<lambda>b.
          if b then andthen (modify (\<lambda>s. s\<lparr>ie := ie s - 1\<rparr>)) rubout else ret ())
      else
        bind (gets (\<lambda>s. c \<noteq> 0 \<and> ie s - ir s < of_nat INPUT_BUF)) (\<lambda>b.
          if b then
            (let c' = (if c = 13 then 10 else c) in
             andthen (modify (\<lambda>s. s\<lparr>ibuf := (ibuf s)[islot (ie s) := c'], ie := ie s + 1\<rparr>))
             (andthen (consputc c')
             (bind (gets (\<lambda>s. c' = 10 \<or> c' = ctrl 68 \<or> ie s = ir s + of_nat INPUT_BUF)) (\<lambda>full.
               if full then modify (\<lambda>s. s\<lparr>iw := ie s, wakeups := wakeups s + 1\<rparr>) else ret ()))))
          else ret ()))"

fun intr_chars :: "u8 list \<Rightarrow> ('s console_scheme, unit) cm" where
  "intr_chars [] = ret ()"
| "intr_chars (c # cs) = andthen (intr_char c) (intr_chars cs)"

text \<open>\<open>cs\<close> is what \<^verbatim>\<open>getc\<close> returns before it returns \<^verbatim>\<open>0xff\<close>.\<close>

definition console_intr :: "u8 list \<Rightarrow> ('s console_scheme, unit) cm" where
  "console_intr cs =
     andthen lock_cons
     (andthen (guard_cm Blocked (\<lambda>_. \<not> panicked \<ge> 0))
     (andthen (intr_chars cs)
       unlock_cons))"

text \<open>
  The loop of \<^verbatim>\<open>console_read\<close>, with \<open>n\<close> bytes still to read and \<open>dst\<close> the bytes stored so far. The result says
  whether the process was killed, how many bytes were left to read, and what was stored.
\<close>

fun read_chars :: "bool \<Rightarrow> usize \<Rightarrow> nat \<Rightarrow> u8 list \<Rightarrow> ('s console_scheme, bool \<times> nat \<times> u8 list) cm" where
  "read_chars killed target 0 dst = ret (False, 0, dst)"
| "read_chars killed target (Suc n) dst =
     bind (gets (\<lambda>s. ir s = iw s)) (\<lambda>empty.
       if empty then (if killed then ret (True, Suc n, dst) else fail Blocked)
       else
         bind (gets (\<lambda>s. ibuf s ! islot (ir s))) (\<lambda>c.
         andthen (modify (\<lambda>s. s\<lparr>ir := ir s + 1\<rparr>))
           (if c = ctrl 68 then
              andthen (if of_nat (Suc n) < target then modify (\<lambda>s. s\<lparr>ir := ir s - 1\<rparr>) else ret ())
                (ret (False, Suc n, dst))
            else if c = 10 then ret (False, n, dst @ [c])
            else read_chars killed target n (dst @ [c]))))"

definition console_write :: "u64 \<Rightarrow> u8 list \<Rightarrow> usize \<Rightarrow> ('s console_scheme itree, usize) cm" where
  "console_write ip buf n =
     andthen (inode_unlock ip)
     (andthen (below lock_cons)
     (andthen (guard_cm BadAccess (\<lambda>_. nat (sint n) \<le> length buf))
     (andthen (below (device_puts (take (nat (sint n)) buf)))
     (andthen (below unlock_cons)
     (andthen (inode_lock ip)
       (ret n))))))"

definition console_read :: "bool \<Rightarrow> u64 \<Rightarrow> usize \<Rightarrow> ('s console_scheme itree, usize \<times> u8 list) cm" where
  "console_read killed ip n =
     andthen (inode_unlock ip)
     (andthen (below lock_cons)
     (bind (below (read_chars killed n (nat (sint n)) [])) (\<lambda>(dead, left, dst).
       andthen (below unlock_cons)
       (andthen (inode_lock ip)
         (ret (if dead then - 1 else n - (if sint n > 0 then of_nat left else n), dst))))))"

section \<open>The ring as two lists\<close>

definition chars :: "u8 list \<Rightarrow> usize \<Rightarrow> nat \<Rightarrow> u8 list" where
  "chars buf i n = map (\<lambda>k. buf ! islot (i + of_nat k)) [0..<n]"

text \<open>Complete lines that can be read, and the line that is being edited.\<close>

definition committed :: "'s console_scheme \<Rightarrow> u8 list" where
  "committed s = chars (ibuf s) (ir s) (unat (iw s - ir s))"

definition pending :: "'s console_scheme \<Rightarrow> u8 list" where
  "pending s = chars (ibuf s) (iw s) (unat (ie s - iw s))"

definition con_inv :: "'s console_scheme \<Rightarrow> bool" where
  "con_inv s \<longleftrightarrow> length (ibuf s) = INPUT_BUF \<and> unat (iw s - ir s) + unat (ie s - iw s) \<le> INPUT_BUF \<and>
     10 \<notin> set (pending s)"

text \<open>The line editor the console implements, on the complete lines, the line being edited and the echo.\<close>

definition edit :: "u8 \<Rightarrow> u8 list \<times> u8 list \<times> u8 list \<Rightarrow> u8 list \<times> u8 list \<times> u8 list" where
  "edit c = (\<lambda>(done, line, echo).
     if c = ctrl 80 then (done, line, echo)
     else if c = ctrl 85 then (done, [], echo @ concat (replicate (length line) [8, 32, 8]))
     else if c = ctrl 72 \<or> c = 127 then (done, butlast line, echo @ (if line = [] then [] else [8, 32, 8]))
     else if c = 0 \<or> length done + length line \<ge> INPUT_BUF then (done, line, echo)
     else
       let c' = if c = 13 then 10 else c; line' = line @ [c'] in
       if c' = 10 \<or> c' = ctrl 68 \<or> length done + length line' = INPUT_BUF then (done @ line', [], echo @ [c'])
       else (done, line', echo @ [c']))"

definition editor :: "'s console_scheme \<Rightarrow> u8 list \<times> u8 list \<times> u8 list" where
  "editor s = (committed s, pending s, uart s)"

lemma islot_add: "islot (i + of_nat k) = (unat i + k) mod 128"
proof -
  have "unat (i + of_nat k) mod 128 = (unat i + k) mod 128"
    by (simp add: unat_word_ariths unat_of_nat mod_mod_cancel mod_add_right_eq)
  then show ?thesis
    by (simp add: islot_def INPUT_BUF_def unat_mod)
qed

lemma length_chars [simp]: "length (chars buf i n) = n"
  by (simp add: chars_def)

lemma chars_append: "chars buf i (m + n) = chars buf i m @ chars buf (i + of_nat m) n"
  by (auto simp: chars_def nth_append add.assoc intro!: nth_equalityI)

lemma chars_Suc: "chars buf i (Suc n) = chars buf i n @ [buf ! islot (i + of_nat n)]"
  by (simp add: chars_def)

lemma chars_butlast: "butlast (chars buf i n) = chars buf i (n - 1)"
  by (cases n) (simp_all add: chars_Suc, simp add: chars_def)

lemma chars_update:
  assumes "i + of_nat k = j + of_nat m" "m < 128" "n \<le> m"
  shows "chars (buf[islot (i + of_nat k) := c]) j n = chars buf j n"
proof -
  have "islot (j + of_nat m) \<noteq> islot (j + of_nat l)" if "l < n" for l
  proof
    assume "islot (j + of_nat m) = islot (j + of_nat l)"
    then have "(unat j + m) mod 128 = (unat j + l) mod 128"
      by (simp only: islot_add)
    then have "128 dvd (unat j + m) - (unat j + l)"
      using that assms(3) by (intro mod_eq_dvd_iff_nat [THEN iffD1]) auto
    then show False
      using that assms(2,3) by (auto dest: dvd_imp_le)
  qed
  then show ?thesis
    using assms(1) by (simp add: chars_def)
qed

text \<open>The invariant in terms of the two lengths.\<close>

lemma con_split:
  fixes s :: "'s console_scheme"
  obtains a b where "a = unat (iw s - ir s)" "b = unat (ie s - iw s)" "iw s = ir s + of_nat a"
    "ie s = iw s + of_nat b"
  by (auto intro: that)

lemma con_lengths:
  fixes r w e :: usize
  assumes "a + b \<le> 128" "w = r + of_nat a" "e = w + of_nat b"
  shows "unat (w - r) = a" "unat (e - w) = b" "unat (e - r) = a + b"
proof -
  have "e - r = of_nat (a + b)"
    by (simp add: assms)
  then show "unat (w - r) = a" "unat (e - w) = b" "unat (e - r) = a + b"
    using assms(1) by (simp_all add: assms(2,3) unat_of_nat_lt del: of_nat_add)
qed

lemma runs_device_puts [wp]: "runs (device_puts cs) s Q \<longleftrightarrow> Q () (s\<lparr>uart := uart s @ cs\<rparr>)"
  by (induction cs arbitrary: s) (simp_all add: wp device_put_def)

lemma runs_device_put [wp]: "runs (device_put c) s Q \<longleftrightarrow> Q () (s\<lparr>uart := uart s @ [c]\<rparr>)"
  by (simp add: wp device_put_def)

declare device_puts.simps [simp del]

text \<open>What an interrupt does not change; when it completes a line it wakes the readers.\<close>

definition quiet :: "'s console_scheme \<Rightarrow> 's console_scheme \<Rightarrow> bool" where
  "quiet s t \<longleftrightarrow> ctx_locked t = ctx_locked s \<and> panicked_flag t = panicked_flag s \<and> cons_locked t = cons_locked s \<and>
     ir t = ir s \<and> console.more t = console.more s \<and>
     wakeups s \<le> wakeups t \<and> (committed t = committed s \<or> wakeups s < wakeups t)"

lemma rubout_one:
  assumes "con_inv s" "ie s \<noteq> iw s"
  shows "con_inv (s\<lparr>ie := ie s - 1\<rparr>)" "pending (s\<lparr>ie := ie s - 1\<rparr>) = butlast (pending s)"
    "unat (ie s - 1 - iw s) = unat (ie s - iw s) - 1" "unat (ie s - iw s) > 0"
proof -
  have pos: "unat (ie s - iw s) > 0"
    using assms(2) by (simp add: unat_gt_0)
  have "ie s - 1 - iw s = (ie s - iw s) - 1"
    by simp
  then show l: "unat (ie s - 1 - iw s) = unat (ie s - iw s) - 1"
    using pos unat_minus_one [of "ie s - iw s"] by (metis unat_0 less_irrefl)
  then show b: "pending (s\<lparr>ie := ie s - 1\<rparr>) = butlast (pending s)"
    by (simp add: pending_def chars_butlast)
  show "con_inv (s\<lparr>ie := ie s - 1\<rparr>)"
    using assms(1) l b by (auto simp: con_inv_def dest: in_set_butlastD)
  show "unat (ie s - iw s) > 0"
    by (rule pos)
qed

lemma kill_line_spec:
  assumes "con_inv s" "n = length (pending s)"
  shows "runs (kill_line n) s (\<lambda>_ t. con_inv t \<and> quiet s t \<and>
    editor t = (committed s, [], uart s @ concat (replicate n [8, 32, 8])))"
  using assms
proof (induction n arbitrary: s)
  case 0
  then show ?case
    by (simp add: wp editor_def quiet_def)
next
  case (Suc n)
  have ne: "ie s \<noteq> iw s"
    using Suc.prems(2) by (auto simp: pending_def)
  have len: "unat (ie s - iw s) = Suc n"
    using Suc.prems(2) by (simp add: pending_def)
  have "of_nat (unat (ie s - iw s)) = ie s - iw s"
    by simp
  then have "ie s - 1 = iw s + of_nat n"
    unfolding len by (simp add: algebra_simps)
  then have "ibuf s ! islot (ie s - 1) \<in> set (pending s)"
    using len by (simp add: pending_def chars_Suc)
  then have nl: "ibuf s ! islot (ie s - 1) \<noteq> 10"
    using Suc.prems(1) by (auto simp: con_inv_def)
  let ?t = "s\<lparr>ie := ie s - 1, uart := uart s @ [8, 32, 8]\<rparr>"
  have t: "con_inv ?t" "pending ?t = butlast (pending s)" "committed ?t = committed s" "quiet s ?t"
    using rubout_one [OF Suc.prems(1) ne] by (simp_all add: con_inv_def pending_def committed_def quiet_def)
  have "runs (kill_line n) ?t (\<lambda>_ u. con_inv u \<and> quiet ?t u \<and>
      editor u = (committed ?t, [], uart ?t @ concat (replicate n [8, 32, 8])))"
    using Suc.prems(2) t by (intro Suc.IH) auto
  then have "runs (kill_line n) ?t (\<lambda>_ u. con_inv u \<and> quiet s u \<and>
      editor u = (committed s, [], uart s @ concat (replicate (Suc n) [8, 32, 8])))"
    by (rule runs_mono) (auto simp: quiet_def t(3))
  then show ?case
    using ne nl by (simp add: wp rubout_def)
qed

lemma backspace_spec:
  assumes "con_inv s" "c = ctrl 72 \<or> c = 127"
  shows "runs (intr_char c) s (\<lambda>_ t. con_inv t \<and> quiet s t \<and> editor t = edit c (editor s))"
proof (cases "ie s = iw s")
  case True
  then have "pending s = []"
    by (simp add: pending_def chars_def)
  then show ?thesis
    using assms True by (auto simp: intr_char_def edit_def editor_def wp quiet_def ctrl_def)
next
  case False
  note r = rubout_one [OF assms(1) False]
  have "pending s \<noteq> []"
    using r(4) by (metis length_0_conv length_chars less_irrefl pending_def)
  then show ?thesis
    using assms False r(1,2)
    by (auto simp: intr_char_def edit_def editor_def wp quiet_def ctrl_def rubout_def con_inv_def committed_def pending_def)
qed

lemma add_char:
  fixes s :: "'s console_scheme" and c :: u8
  assumes inv: "con_inv s" and room: "length (committed s) + length (pending s) < INPUT_BUF"
  defines "t \<equiv> s\<lparr>ibuf := (ibuf s)[islot (ie s) := c], ie := ie s + 1\<rparr>"
  shows "committed t = committed s" "pending t = pending s @ [c]"
    "unat (iw t - ir t) = length (committed s)" "unat (ie t - iw t) = Suc (length (pending s))"
    "ie s - ir s = of_nat (length (committed s) + length (pending s))"
    "length (ibuf t) = INPUT_BUF"
    "chars (ibuf t) (ir t) (unat (ie t - ir t)) = committed s @ pending s @ [c]"
    "unat (ie t - ir t) = length (committed s) + Suc (length (pending s))"
proof -
  obtain a b where ab: "a = unat (iw s - ir s)" "b = unat (ie s - iw s)" "iw s = ir s + of_nat a"
    "ie s = iw s + of_nat b"
    by (rule con_split)
  have lt: "a + b < 128" and len: "length (ibuf s) = 128"
    using inv room ab(1,2) by (simp_all add: con_inv_def committed_def pending_def INPUT_BUF_def)
  have e: "ie t = iw s + of_nat (Suc b)" "ie s = ir s + of_nat (a + b)"
    using ab by (simp_all add: t_def)
  have tw: "iw t = iw s" "ir t = ir s"
    by (simp_all add: t_def)
  have l: "unat (ie t - iw s) = Suc b" "unat (ie t - ir s) = a + Suc b"
    using con_lengths(2,3) [of a "Suc b" "iw s" "ir s" "ie t"] lt ab(3) e(1) by auto
  have 1: "chars (ibuf t) (ir s) a = chars (ibuf s) (ir s) a" "chars (ibuf t) (iw s) b = chars (ibuf s) (iw s) b"
    using chars_update [of "iw s" b "ir s" "a + b" a "ibuf s" c] chars_update [of "iw s" b "iw s" b b "ibuf s" c] lt ab(3,4)
    by (simp_all add: t_def)
  have 2: "ibuf t ! islot (iw s + of_nat b) = c"
    using len ab(4) by (simp add: t_def islot_add islot_def INPUT_BUF_def unat_mod)
  have cs: "committed s = chars (ibuf s) (ir s) a" and ps: "pending s = chars (ibuf s) (iw s) b"
    by (simp_all add: committed_def pending_def ab(1,2))
  show c: "committed t = committed s"
    by (simp add: committed_def tw 1(1) flip: ab(1))
  show p: "pending t = pending s @ [c]"
    by (simp add: pending_def [of t] tw l(1) chars_Suc 1(2) 2 ps)
  show "unat (iw t - ir t) = length (committed s)" "unat (ie t - iw t) = Suc (length (pending s))"
    by (simp_all add: tw cs ps l(1) flip: ab(1))
  show "ie s - ir s = of_nat (length (committed s) + length (pending s))"
    using e(2) by (simp add: cs ps)
  show "length (ibuf t) = INPUT_BUF"
    using len by (simp add: t_def INPUT_BUF_def)
  show "unat (ie t - ir t) = length (committed s) + Suc (length (pending s))"
    by (simp add: tw cs ps l(2))
  have "chars (ibuf t) (ir s) (a + Suc b) = chars (ibuf t) (ir s) a @ chars (ibuf t) (iw s) (Suc b)"
    using chars_append [of "ibuf t" "ir s" a "Suc b"] unfolding ab(3) [symmetric] .
  then show "chars (ibuf t) (ir t) (unat (ie t - ir t)) = committed s @ pending s @ [c]"
    unfolding tw(2) l(2) by (simp add: cs ps chars_Suc 1 2)
qed

lemma room_iff:
  assumes "con_inv s"
  shows "ie s - ir s < of_nat INPUT_BUF \<longleftrightarrow> length (committed s) + length (pending s) < INPUT_BUF"
proof -
  obtain a b where ab: "a = unat (iw s - ir s)" "b = unat (ie s - iw s)" "iw s = ir s + of_nat a"
    "ie s = iw s + of_nat b"
    by (rule con_split)
  have "a + b \<le> 128"
    using assms by (simp add: con_inv_def INPUT_BUF_def ab(1,2))
  then have "unat (ie s - ir s) = a + b"
    using ab(3,4) by (rule con_lengths(3))
  then show ?thesis
    by (simp add: word_less_nat_alt committed_def pending_def INPUT_BUF_def flip: ab(1,2))
qed

lemma plain_spec:
  assumes inv: "con_inv s" and c: "c \<noteq> ctrl 80" "c \<noteq> ctrl 85" "c \<noteq> ctrl 72" "c \<noteq> 127"
  shows "runs (intr_char c) s (\<lambda>_ t. con_inv t \<and> quiet s t \<and> editor t = edit c (editor s))"
proof (cases "c \<noteq> 0 \<and> length (committed s) + length (pending s) < INPUT_BUF")
  case False
  then show ?thesis
    using c room_iff [OF inv] inv
    by (auto simp: intr_char_def edit_def editor_def wp quiet_def not_less)
next
  case True
  let ?c = "if c = 13 then 10 else c"
  let ?t = "s\<lparr>ibuf := (ibuf s)[islot (ie s) := ?c], ie := ie s + 1\<rparr>"
  let ?u = "?t\<lparr>uart := uart s @ [?c]\<rparr>"
  have f: "committed ?t = committed s" "pending ?t = pending s @ [?c]"
    "unat (iw ?t - ir ?t) = length (committed s)" "unat (ie ?t - iw ?t) = Suc (length (pending s))"
    "length (ibuf ?t) = INPUT_BUF" "chars (ibuf ?t) (ir ?t) (unat (ie ?t - ir ?t)) = committed s @ pending s @ [?c]"
    "unat (ie ?t - ir ?t) = length (committed s) + Suc (length (pending s))"
    using add_char(1-4,6-8) [OF inv, where c = ?c] True by blast+
  have full: "ie s + 1 = ir s + of_nat INPUT_BUF \<longleftrightarrow> length (committed s) + Suc (length (pending s)) = INPUT_BUF"
  proof -
    have "ie s + 1 = ir s + of_nat INPUT_BUF \<longleftrightarrow> ie s + 1 - ir s = of_nat INPUT_BUF"
      by (auto simp: algebra_simps)
    also have "\<dots> \<longleftrightarrow> unat (ie s + 1 - ir s) = INPUT_BUF"
      by (simp add: word_unat_eq_iff INPUT_BUF_def)
    finally show ?thesis
      using f(7) by simp
  qed
  have commit: "con_inv (?u\<lparr>iw := ie s + 1, wakeups := wakeups s + 1\<rparr>) \<and>
    editor (?u\<lparr>iw := ie s + 1, wakeups := wakeups s + 1\<rparr>) = (committed s @ pending s @ [?c], [], uart s @ [?c])"
    using f(5,6,7) True by (simp add: con_inv_def editor_def committed_def pending_def chars_def)
  have keep: "con_inv ?u \<and> editor ?u = (committed s, pending s @ [?c], uart s @ [?c])" if "?c \<noteq> 10"
    using f(1-5) True that inv by (auto simp: con_inv_def editor_def committed_def pending_def)
  show ?thesis
  proof (cases "?c = 10 \<or> ?c = ctrl 68 \<or> ie s + 1 = ir s + of_nat INPUT_BUF")
    case True
    then show ?thesis
      using c room_iff [OF inv] \<open>c \<noteq> 0 \<and> _\<close> commit full
      by (auto simp: intr_char_def edit_def editor_def wp quiet_def Let_def consputc_def not_less)
  next
    case False
    then show ?thesis
      using c room_iff [OF inv] \<open>c \<noteq> 0 \<and> _\<close> keep full
      by (auto simp: intr_char_def edit_def editor_def wp quiet_def Let_def consputc_def not_less)
  qed
qed

lemma intr_char_spec:
  assumes "con_inv s"
  shows "runs (intr_char c) s (\<lambda>_ t. con_inv t \<and> quiet s t \<and> editor t = edit c (editor s))"
proof -
  consider "c = ctrl 80" | "c = ctrl 85" | "c = ctrl 72 \<or> c = 127"
    | "c \<noteq> ctrl 80" "c \<noteq> ctrl 85" "c \<noteq> ctrl 72" "c \<noteq> 127"
    by blast
  then show ?thesis
  proof cases
    case 1
    then show ?thesis
      using assms by (simp add: intr_char_def wp edit_def editor_def quiet_def)
  next
    case 2
    then show ?thesis
      using kill_line_spec [OF assms refl]
      by (simp add: intr_char_def wp edit_def editor_def pending_def ctrl_def)
  qed (use assms backspace_spec plain_spec in blast)+
qed

lemma intr_chars_spec:
  "con_inv s \<Longrightarrow> runs (intr_chars cs) s (\<lambda>_ t. con_inv t \<and> quiet s t \<and> editor t = fold edit cs (editor s))"
proof (induction cs arbitrary: s)
  case Nil
  then show ?case
    by (simp add: wp quiet_def)
next
  case (Cons c cs)
  have "runs (intr_char c) s (\<lambda>_ t. con_inv t \<and> quiet s t \<and> editor t = edit c (editor s))"
    using Cons.prems by (rule intr_char_spec)
  then have "runs (intr_char c) s (\<lambda>_ t. runs (intr_chars cs) t
      (\<lambda>_ u. con_inv u \<and> quiet s u \<and> editor u = fold edit (c # cs) (editor s)))"
  proof (rule runs_mono)
    fix x t assume t: "con_inv t \<and> quiet s t \<and> editor t = edit c (editor s)"
    then have "runs (intr_chars cs) t (\<lambda>_ u. con_inv u \<and> quiet t u \<and> editor u = fold edit cs (editor t))"
      by (intro Cons.IH) simp
    then show "runs (intr_chars cs) t
      (\<lambda>_ u. con_inv u \<and> quiet s u \<and> editor u = fold edit (c # cs) (editor s))"
      by (rule runs_mono) (use t in \<open>auto simp: quiet_def\<close>)
  qed
  then show ?case
    by (simp add: wp)
qed

section \<open>Reading lines\<close>

text \<open>
  What a read of at most \<open>n\<close> more bytes takes from the complete lines: a line, or what is before the end-of-file
  character, which stays for the next read unless nothing is before it. \<open>None\<close>: the reader has to wait.
\<close>

fun read_line :: "nat \<Rightarrow> u8 list \<Rightarrow> u8 list \<Rightarrow> (u8 list \<times> u8 list) option" where
  "read_line 0 cs acc = Some (acc, cs)"
| "read_line (Suc n) [] acc = None"
| "read_line (Suc n) (c # cs) acc =
     (if c = ctrl 68 then Some (acc, if acc = [] then cs else c # cs)
      else if c = 10 then Some (acc @ [c], cs)
      else read_line n cs (acc @ [c]))"

lemma chars_first: "chars buf i (Suc n) = buf ! islot i # chars buf (i + 1) n"
  using chars_append [of buf i 1 n] by (simp add: chars_def)

lemma committed_first:
  assumes inv: "con_inv s" and cs: "committed s = c # cs"
  shows "ir s \<noteq> iw s" "ibuf s ! islot (ir s) = c" "committed (s\<lparr>ir := ir s + 1\<rparr>) = cs"
    "con_inv (s\<lparr>ir := ir s + 1\<rparr>)"
proof -
  obtain n where n: "unat (iw s - ir s) = Suc n"
    using cs by (cases "unat (iw s - ir s)") (auto simp: committed_def chars_def)
  then show "ir s \<noteq> iw s"
    by auto
  have "iw s - (ir s + 1) = (iw s - ir s) - 1"
    by simp
  then have l: "unat (iw s - (ir s + 1)) = n"
    using n unat_minus_one [of "iw s - ir s"] by (metis diff_Suc_1 nat.simps(3) unat_0)
  show "ibuf s ! islot (ir s) = c" "committed (s\<lparr>ir := ir s + 1\<rparr>) = cs"
    using cs n l by (simp_all add: committed_def chars_first)
  show "con_inv (s\<lparr>ir := ir s + 1\<rparr>)"
    using inv n l by (simp add: con_inv_def pending_def)
qed

text \<open>What a read leaves as it is: everything but the read position.\<close>

definition only_ir :: "'s console_scheme \<Rightarrow> 's console_scheme \<Rightarrow> bool" where
  "only_ir s t \<longleftrightarrow> t = s\<lparr>ir := ir t\<rparr>"

lemma only_ir_step: "only_ir (s\<lparr>ir := r\<rparr>) t \<Longrightarrow> only_ir s t"
  by (simp add: only_ir_def)

lemma read_chars_spec:
  assumes "con_inv s" "length dst + n = unat target" "read_line n (committed s) dst = Some (txt, rest)"
  shows "runs (read_chars killed target n dst) s (\<lambda>(dead, left, d) t.
    \<not> dead \<and> d = txt \<and> left + length txt = unat target \<and> con_inv t \<and> committed t = rest \<and> only_ir s t)"
  using assms
proof (induction n arbitrary: s dst)
  case 0
  then show ?case
    by (auto simp: wp only_ir_def)
next
  case (Suc n)
  then obtain c cs where cs: "committed s = c # cs"
    by (cases "committed s") auto
  note f = committed_first [OF Suc.prems(1) cs]
  have lt: "of_nat (Suc n) < target \<longleftrightarrow> dst \<noteq> []"
  proof -
    have "unat (of_nat (Suc n) :: usize) = Suc n"
      using Suc.prems(2) unsigned_less [of target, where ?'a = nat] by (intro unat_of_nat_lt) simp
    then show ?thesis
      using Suc.prems(2) by (cases dst) (auto simp: word_less_nat_alt simp del: of_nat_Suc)
  qed
  show ?case
  proof (cases "c = ctrl 68 \<or> c = 10")
    case True
    then show ?thesis
      using Suc.prems f lt cs
      by (auto simp: wp only_ir_def ctrl_def simp del: of_nat_Suc)
  next
    case False
    let ?t = "s\<lparr>ir := ir s + 1\<rparr>"
    have "runs (read_chars killed target n (dst @ [c])) ?t (\<lambda>(dead, left, d) t.
      \<not> dead \<and> d = txt \<and> left + length txt = unat target \<and> con_inv t \<and> committed t = rest \<and> only_ir ?t t)"
      using Suc.prems(2,3) False f(3,4) cs by (intro Suc.IH) auto
    then have "runs (read_chars killed target n (dst @ [c])) ?t (\<lambda>(dead, left, d) t.
      \<not> dead \<and> d = txt \<and> left + length txt = unat target \<and> con_inv t \<and> committed t = rest \<and> only_ir s t)"
      by (rule runs_mono) (auto dest: only_ir_step)
    then show ?thesis
      using False f(1,2) by (simp add: wp)
  qed
qed

lemma runs_below: "runs (below m) t Q \<longleftrightarrow> runs m (base t) (\<lambda>x s. Q x (t\<lparr>base := s\<rparr>))"
  by (auto simp: runs_def below_def split: sum.split)

lemma relock:
  assumes "ilock (itab t p)" "sint (count (irc (itab t p))) > 0"
  shows "runs (inode_unlock p) t Q \<longleftrightarrow> Q () (t\<lparr>itab := (itab t)(p := itab t p\<lparr>ilock := False\<rparr>)\<rparr>)"
    "runs (inode_lock p) (t\<lparr>itab := (itab t)(p := itab t p\<lparr>ilock := False\<rparr>), base := s\<rparr>) Q \<longleftrightarrow> Q () (t\<lparr>base := s\<rparr>)"
proof -
  have i: "itab t p\<lparr>ilock := True\<rparr> = itab t p"
    using assms(1) by (cases "itab t p") simp
  have b: "t\<lparr>base := s, itab := itab t\<rparr> = t\<lparr>base := s\<rparr>"
    by (cases t) simp
  show "runs (inode_unlock p) t Q \<longleftrightarrow> Q () (t\<lparr>itab := (itab t)(p := itab t p\<lparr>ilock := False\<rparr>)\<rparr>)"
    "runs (inode_lock p) (t\<lparr>itab := (itab t)(p := itab t p\<lparr>ilock := False\<rparr>), base := s\<rparr>) Q \<longleftrightarrow> Q () (t\<lparr>base := s\<rparr>)"
    using assms by (simp_all add: inode_unlock_def inode_lock_def assert_cm_def upd_inode_def wp i b)
qed

lemma con_inv_locked: "con_inv (s\<lparr>cons_locked := b\<rparr>) \<longleftrightarrow> con_inv s"
  "committed (s\<lparr>cons_locked := b\<rparr>) = committed s" "pending (s\<lparr>cons_locked := b\<rparr>) = pending s"
  by (simp_all add: con_inv_def committed_def pending_def)

lemma runsD: "runs m s Q \<Longrightarrow> \<exists>x t. m s = Inr (x, t) \<and> Q x t"
  by (auto simp: runs_def split: sum.splits)

section \<open>Claims\<close>

text \<open>
  C16. Handling keyboard input always succeeds on a well-formed console and does what the line editor does: erasing
  a character, erasing the line, completing it at a newline, at end of file or when the buffer is full, and
  echoing; a completed line wakes the readers. The ring works across the wrap-around of its positions.
\<close>

theorem console_intr_edits:
  assumes "con_inv s" "\<not> cons_locked s"
  shows "\<exists>t. console_intr cs s = Inr ((), t) \<and> con_inv t \<and> quiet s t \<and> editor t = fold edit cs (editor s)"
proof -
  let ?s = "s\<lparr>cons_locked := True\<rparr>"
  have "runs (intr_chars cs) ?s (\<lambda>_ t. con_inv t \<and> quiet ?s t \<and> editor t = fold edit cs (editor ?s))"
    using assms(1) by (intro intr_chars_spec) (simp add: con_inv_locked)
  then have "runs (intr_chars cs) ?s (\<lambda>_ t. con_inv (t\<lparr>cons_locked := False\<rparr>) \<and> quiet s (t\<lparr>cons_locked := False\<rparr>) \<and>
      editor (t\<lparr>cons_locked := False\<rparr>) = fold edit cs (editor s))"
    by (rule runs_mono) (use assms(2) in \<open>auto simp: con_inv_locked quiet_def editor_def\<close>)
  then have "runs (console_intr cs) s (\<lambda>_ t. con_inv t \<and> quiet s t \<and> editor t = fold edit cs (editor s))"
    using assms(2) by (simp add: console_intr_def lock_cons_def unlock_cons_def wp panicked_def)
  then show ?thesis
    by (auto dest: runsD)
qed

text \<open>An empty console whose positions are about to wrap around, below an inode layer with one locked inode.\<close>

definition console0 :: console where
  "console0 = \<lparr>ctx_locked = False, panicked_flag = False, uart = [], cons_locked = False,
     ibuf = replicate 128 0, ir = - 2, iw = - 2, ie = - 2, wakeups = 0\<rparr>"

lemma console0_inv: "con_inv console0" "\<not> cons_locked console0" "editor console0 = ([], [], [])"
  by (simp_all add: console0_def con_inv_def editor_def committed_def pending_def chars_def INPUT_BUF_def)

theorem console_intr_edits_witness:
  "con_inv console0 \<and> \<not> cons_locked console0 \<and>
   (\<exists>t. console_intr [104, 120, 8, 105, 13] console0 = Inr ((), t) \<and> con_inv t \<and> quiet console0 t \<and>
     editor t = ([104, 105, 10], [], [104, 120, 8, 32, 8, 105, 10]))"
proof -
  have "fold edit [104, 120, 8, 105, 13] ([], [], []) = ([104, 105, 10], [], [104, 120, 8, 32, 8, 105, 10])"
    by (simp add: edit_def ctrl_def INPUT_BUF_def Let_def)
  then show ?thesis
    using console_intr_edits [OF console0_inv(1,2), of "[104, 120, 8, 105, 13]"] console0_inv by simp
qed

text \<open>
  C22. \<^verbatim>\<open>console_read\<close> with a complete line in the buffer returns exactly what the line editor hands out: at most
  \<^verbatim>\<open>n\<close> bytes, up to the newline or the end of file; it consumes that much, echoes nothing and leaves the inode locked as before.
\<close>

theorem console_read_line:
  assumes con: "con_inv (base t)" "\<not> cons_locked (base t)"
    and ip: "ilock (itab t ip)" "sint (count (irc (itab t ip))) > 0"
    and n: "0 \<le> sint n" "read_line (unat n) (committed (base t)) [] = Some (txt, rest)"
  shows "\<exists>s. console_read killed ip n t = Inr ((of_nat (length txt), txt), t\<lparr>base := s\<rparr>) \<and> con_inv s \<and>
    length txt \<le> unat n \<and> editor s = (rest, pending (base t), uart (base t)) \<and> \<not> cons_locked s"
proof -
  let ?b = "base t\<lparr>cons_locked := True\<rparr>"
  have nn: "nat (sint n) = unat n"
    using n(1) unsigned_less [of n, where ?'a = int] by (auto simp: sint_u64 split: if_splits)
  have "runs (read_chars killed n (unat n) []) ?b (\<lambda>(dead, left, d) s. \<not> dead \<and> d = txt \<and>
      left + length txt = unat n \<and> con_inv s \<and> committed s = rest \<and> only_ir ?b s)"
    using con(1) n(2) by (intro read_chars_spec) (simp_all add: con_inv_locked)
  then obtain left s where s: "read_chars killed n (unat n) [] ?b = Inr ((False, left, txt), s)"
    "left + length txt = unat n" "con_inv s" "committed s = rest" "only_ir ?b s"
    by (auto dest: runsD)
  have e: "editor (s\<lparr>cons_locked := False\<rparr>) = (rest, pending (base t), uart (base t))"
  proof -
    obtain r where "s = base t\<lparr>cons_locked := True, ir := r\<rparr>"
      using s(5) unfolding only_ir_def by blast
    then have "pending s = pending (base t)" "uart s = uart (base t)"
      by (simp_all add: pending_def)
    then show ?thesis
      using s(4) by (simp add: editor_def con_inv_locked committed_def pending_def)
  qed
  have r: "n - (if 0 < sint n then of_nat left else n) = of_nat (length txt)"
  proof (cases "0 < sint n")
    case True
    have "n = of_nat (left + length txt)"
      unfolding s(2) by simp
    then show ?thesis
      using True by simp
  next
    case False
    then have "unat n = 0"
      using n(1) nn by simp
    then show ?thesis
      using False s(2) by simp
  qed
  have "runs (console_read killed ip n) t (\<lambda>x u. x = (of_nat (length txt), txt) \<and> u = t\<lparr>base := s\<lparr>cons_locked := False\<rparr>\<rparr>)"
    using con(2) ip s(1) r
    by (auto simp: console_read_def wp runs_below relock lock_cons_def unlock_cons_def nn
        runs_def [of "read_chars _ _ _ _"] split: if_splits)
  then show ?thesis
    using s(2,3) e by (auto dest!: runsD simp: con_inv_locked intro!: exI [of _ "s\<lparr>cons_locked := False\<rparr>"])
qed

definition console1 :: console where
  "console1 = console0\<lparr>ibuf := (replicate 128 0)[126 := 104, 127 := 105, 0 := 10], iw := 1, ie := 1\<rparr>"

definition tree_con :: "console itree" where
  "tree_con = \<lparr>base = console1,
     itab = (\<lambda>_. \<lparr>ilock = True, irc = init_rc\<lparr>count := 1\<rparr>, inode_no = 2, ivalid = True, entry = zero_entry\<rparr>),
     ilist = [], tree_locked = False, root = 0\<rparr>"

lemma console1_facts: "con_inv console1" "\<not> cons_locked console1" "editor console1 = ([104, 105, 10], [], [])"
proof -
  have 1: "islot (- 2) = 126" "islot (- 1) = 127" "islot 0 = 0"
    by code_simp+
  have 2: "unat (1 - (- 2) :: usize) = 3"
    by simp
  show "con_inv console1" "\<not> cons_locked console1" "editor console1 = ([104, 105, 10], [], [])"
    using 1 2 by (simp_all add: console1_def console0_def con_inv_def editor_def committed_def pending_def
        chars_def INPUT_BUF_def upt_rec numeral_3_eq_3 nth_list_update)
qed

theorem console_read_line_witness:
  "con_inv (base tree_con) \<and> read_line 100 (committed (base tree_con)) [] = Some ([104, 105, 10], []) \<and>
   (\<exists>s. console_read False 5 100 tree_con = Inr ((3, [104, 105, 10]), tree_con\<lparr>base := s\<rparr>) \<and> con_inv s \<and>
     editor s = ([], [], []) \<and> \<not> cons_locked s)"
proof -
  have b: "con_inv (base tree_con)" "\<not> cons_locked (base tree_con)" "ilock (itab tree_con 5)"
    "sint (count (irc (itab tree_con 5))) > 0" "0 \<le> sint (100 :: usize)"
    using console1_facts by (simp_all add: tree_con_def)
  have e: "committed (base tree_con) = [104, 105, 10]" "pending (base tree_con) = []" "uart (base tree_con) = []"
    using console1_facts(3) by (simp_all add: tree_con_def editor_def)
  have "read_line 100 [104, 105, 10] [] = Some ([104, 105, 10], [])"
    by code_simp
  then show ?thesis
    using console_read_line [OF b, of "[104, 105, 10]" "[]" False] b(1) by (simp add: e)
qed

end
