(* ===== verification/Shell.thy ===== *)
theory Shell
  imports Prelude "HOL-Library.Sublist"
begin

text \<open>
  The command parser of the shell (\<^verbatim>\<open>src/user/sh/main.c\<close>). A pointer into the command line is the rest of
  the line from there, so the position of \<^verbatim>\<open>s\<close> in a line of length \<open>n\<close> is \<open>n - length s\<close>. \<^verbatim>\<open>exit(1)\<close> after a
  message is the fault \<open>Panic\<close>. The recursive-descent functions carry fuel; \<open>parse_fuel\<close> shows that the
  amount \<^verbatim>\<open>parsecmd\<close> starts with is never used up.
\<close>

section \<open>Commands\<close>

definition MAXARGS :: nat where "MAXARGS = 10"

definition MAXN :: nat where "MAXN = 10000"

type_synonym token_ptr = "string \<times> string"

text \<open>The type of strings in a command is a parameter: the parser builds commands of \<open>token_ptr\<close>.
  \<open>Exec\<close> holds the pairs \<^verbatim>\<open>argv[i]\<close>, \<^verbatim>\<open>eargv[i]\<close>, \<open>Redir\<close> the command, the pair \<^verbatim>\<open>file\<close>, \<^verbatim>\<open>efile\<close>, \<^verbatim>\<open>mode\<close> and \<^verbatim>\<open>fd\<close>.\<close>

datatype mode = RDONLY | WRONLY_CREAT

datatype 'a cmd =
    Exec "'a list"
  | Redir "'a cmd" 'a mode nat
  | Pipe "'a cmd" "'a cmd"
  | List "'a cmd" "'a cmd"
  | Back "'a cmd"

type_synonym pcmd = "token_ptr cmd"

text \<open>The sizes of the structures on AArch64.\<close>

definition sizeof_execcmd :: nat where "sizeof_execcmd = 8 + 2 * (8 * MAXARGS)"

definition sizeof_redircmd :: nat where "sizeof_redircmd = 40"

definition sizeof_pipecmd :: nat where "sizeof_pipecmd = 24"

definition sizeof_listcmd :: nat where "sizeof_listcmd = 24"

definition sizeof_backcmd :: nat where "sizeof_backcmd = 16"

text \<open>The state: the rest of the line at \<^verbatim>\<open>*ps\<close>, and how much of \<^verbatim>\<open>malloc1\<close>'s memory is used.\<close>

record sh =
  ps :: string
  mused :: nat

definition malloc1 :: "nat \<Rightarrow> (sh, unit) cm" where
  "malloc1 sz =
     andthen (modify (\<lambda>s. s\<lparr>mused := mused s + sz\<rparr>))
       (guard_cm (Panic ''malloc1: memory used out'') (\<lambda>s. \<not> mused s > MAXN))"

definition execcmd :: "(sh, unit) cm" where
  "execcmd = malloc1 sizeof_execcmd"

definition redircmd :: "pcmd \<Rightarrow> token_ptr \<Rightarrow> mode \<Rightarrow> nat \<Rightarrow> (sh, pcmd) cm" where
  "redircmd subcmd f m fd = andthen (malloc1 sizeof_redircmd) (ret (Redir subcmd f m fd))"

definition pipecmd :: "pcmd \<Rightarrow> pcmd \<Rightarrow> (sh, pcmd) cm" where
  "pipecmd l r = andthen (malloc1 sizeof_pipecmd) (ret (Pipe l r))"

definition listcmd :: "pcmd \<Rightarrow> pcmd \<Rightarrow> (sh, pcmd) cm" where
  "listcmd l r = andthen (malloc1 sizeof_listcmd) (ret (List l r))"

definition backcmd :: "pcmd \<Rightarrow> (sh, pcmd) cm" where
  "backcmd c = andthen (malloc1 sizeof_backcmd) (ret (Back c))"

section \<open>Tokens\<close>

definition whitespace :: string where
  "whitespace = [CHR 0x20, CHR 0x09, CHR 0x0D, CHR 0x0A, CHR 0x0B]"

definition symbols :: string where
  "symbols = ''<|>&;()''"

definition is_ws :: "char \<Rightarrow> bool" where
  "is_ws c \<longleftrightarrow> c \<in> set whitespace"

definition is_word :: "char \<Rightarrow> bool" where
  "is_word c \<longleftrightarrow> c \<notin> set whitespace \<and> c \<notin> set symbols"

text \<open>The token at a position without leading blanks: its code and the rest of the line behind it.\<close>

fun token :: "string \<Rightarrow> char \<times> string" where
  "token [] = (CHR 0x00, [])"
| "token (c # t) =
     (if c \<in> set ''|();&<'' then (c, t)
      else if c = CHR ''>'' then (if t \<noteq> [] \<and> hd t = CHR ''>'' then (CHR ''+'', tl t) else (c, t))
      else (CHR ''a'', dropWhile is_word (c # t)))"

definition gettoken :: "(sh, char \<times> token_ptr) cm" where
  "gettoken = bind (gets (\<lambda>s. dropWhile is_ws (ps s))) (\<lambda>q.
     case token q of (tok, eq) \<Rightarrow>
       andthen (modify (\<lambda>s. s\<lparr>ps := dropWhile is_ws eq\<rparr>)) (ret (tok, (q, eq))))"

definition peek :: "string \<Rightarrow> (sh, bool) cm" where
  "peek toks =
     andthen (modify (\<lambda>s. s\<lparr>ps := dropWhile is_ws (ps s)\<rparr>))
       (gets (\<lambda>s. ps s \<noteq> [] \<and> hd (ps s) \<in> set toks))"

section \<open>The parser\<close>

definition redir_of :: "char \<Rightarrow> pcmd \<Rightarrow> token_ptr \<Rightarrow> (sh, pcmd) cm" where
  "redir_of tok c f =
     (if tok = CHR ''<'' then redircmd c f RDONLY 0
      else if tok = CHR ''>'' \<or> tok = CHR ''+'' then redircmd c f WRONLY_CREAT 1
      else ret c)"

fun parseredirs :: "nat \<Rightarrow> pcmd \<Rightarrow> (sh, pcmd) cm" where
  "parseredirs 0 c = fail Blocked"
| "parseredirs (Suc n) c =
     bind (peek ''<>'') (\<lambda>b.
       if b then
         bind gettoken (\<lambda>(tok, _).
           bind gettoken (\<lambda>(k, f).
             if k \<noteq> CHR ''a'' then fail (Panic ''missing file for redirection'')
             else bind (redir_of tok c f) (\<lambda>c'. parseredirs n c')))
       else ret c)"

text \<open>
  The loop of \<^verbatim>\<open>parseexec\<close>. \<open>ret\<close> is the command so far: the redirections around the command whose arguments
  are being collected, which \<open>put_args\<close> reaches as \<^verbatim>\<open>cmd\<close> does.
\<close>

fun put_args :: "token_ptr list \<Rightarrow> pcmd \<Rightarrow> pcmd" where
  "put_args as (Exec _) = Exec as"
| "put_args as (Redir c f m fd) = Redir (put_args as c) f m fd"
| "put_args as c = c"

fun parseargs :: "nat \<Rightarrow> token_ptr list \<Rightarrow> pcmd \<Rightarrow> (sh, pcmd) cm" where
  "parseargs 0 as c = fail Blocked"
| "parseargs (Suc n) as c =
     bind (peek ''|)&;'') (\<lambda>b.
       if b then ret (put_args as c)
       else
         bind gettoken (\<lambda>(tok, f).
           if tok = CHR 0x00 then ret (put_args as c)
           else if tok \<noteq> CHR ''a'' then fail (Panic ''syntax'')
           else if length (as @ [f]) \<ge> MAXARGS then fail (Panic ''too many args'')
           else bind (parseredirs n c) (\<lambda>c'. parseargs n (as @ [f]) c')))"

text \<open>The loop of \<^verbatim>\<open>parseline\<close> over \<^verbatim>\<open>&\<close>.\<close>

fun parsebacks :: "nat \<Rightarrow> pcmd \<Rightarrow> (sh, pcmd) cm" where
  "parsebacks 0 c = fail Blocked"
| "parsebacks (Suc n) c =
     bind (peek ''&'') (\<lambda>b. if b then andthen gettoken (bind (backcmd c) (parsebacks n)) else ret c)"

fun parseline :: "nat \<Rightarrow> (sh, pcmd) cm" and parsepipe :: "nat \<Rightarrow> (sh, pcmd) cm"
  and parseblock :: "nat \<Rightarrow> (sh, pcmd) cm" and parseexec :: "nat \<Rightarrow> (sh, pcmd) cm" where
  "parseline 0 = fail Blocked"
| "parseline (Suc n) =
     bind (parsepipe n) (\<lambda>c.
     bind (parsebacks n c) (\<lambda>c.
     bind (peek '';'') (\<lambda>b.
       if b then andthen gettoken (bind (parseline n) (\<lambda>r. listcmd c r)) else ret c)))"
| "parsepipe 0 = fail Blocked"
| "parsepipe (Suc n) =
     bind (parseexec n) (\<lambda>c.
     bind (peek ''|'') (\<lambda>b.
       if b then andthen gettoken (bind (parsepipe n) (\<lambda>r. pipecmd c r)) else ret c))"
| "parseblock 0 = fail Blocked"
| "parseblock (Suc n) =
     bind (peek ''('') (\<lambda>b.
       if \<not> b then fail (Panic ''parseblock'')
       else
         andthen gettoken
         (bind (parseline n) (\<lambda>c.
          bind (peek '')'') (\<lambda>b.
            if \<not> b then fail (Panic ''syntax - missing )'')
            else andthen gettoken (parseredirs n c)))))"
| "parseexec 0 = fail Blocked"
| "parseexec (Suc n) =
     bind (peek ''('') (\<lambda>b.
       if b then parseblock n
       else
         andthen execcmd (bind (parseredirs n (Exec [])) (\<lambda>c. parseargs n [] c)))"

definition parse_fuel :: "string \<Rightarrow> nat" where
  "parse_fuel s = 5 * length s + 5"

section \<open>Terminating the strings\<close>

text \<open>The buffer is the line with its final zero; \<open>nul_at\<close> writes a zero where a pointer into it points.\<close>

definition nul_at :: "string \<Rightarrow> string \<Rightarrow> string" where
  "nul_at eq buf = buf[length buf - 1 - length eq := CHR 0x00]"

fun nulterminate :: "pcmd \<Rightarrow> string \<Rightarrow> string" where
  "nulterminate (Exec as) buf = fold (\<lambda>(q, eq). nul_at eq) as buf"
| "nulterminate (Redir c (q, eq) m fd) buf = nul_at eq (nulterminate c buf)"
| "nulterminate (Pipe l r) buf = nulterminate r (nulterminate l buf)"
| "nulterminate (List l r) buf = nulterminate r (nulterminate l buf)"
| "nulterminate (Back c) buf = nulterminate c buf"

definition parsecmd :: "string \<Rightarrow> nat \<Rightarrow> fault + pcmd \<times> string \<times> nat" where
  "parsecmd s m =
     (case bind (parseline (parse_fuel s)) (\<lambda>c.
        andthen (peek []) (andthen (guard_cm (Panic ''syntax'') (\<lambda>t. ps t = [])) (ret c))) \<lparr>ps = s, mused = m\<rparr> of
        Inl e \<Rightarrow> Inl e
      | Inr (c, t) \<Rightarrow> Inr (c, nulterminate c (s @ [CHR 0x00]), mused t))"


section \<open>Every outcome of the parser\<close>

declare dropWhile_eq_Nil_conv [simp del]

text \<open>\<open>outcome m s Q\<close>: \<open>m\<close> returns and \<open>Q\<close> holds then, or it ends the program with a message.\<close>

fun exits :: "fault \<Rightarrow> bool" where
  "exits (Panic msg) = True"
| "exits _ = False"

definition outcome :: "('s, 'a) cm \<Rightarrow> 's \<Rightarrow> ('a \<Rightarrow> 's \<Rightarrow> bool) \<Rightarrow> bool" where
  "outcome m s Q \<longleftrightarrow> (case m s of Inl e \<Rightarrow> exits e | Inr (x, t) \<Rightarrow> Q x t)"

named_theorems out

lemma outcome_ret [out]: "outcome (ret x) s Q \<longleftrightarrow> Q x s"
  by (simp add: outcome_def ret_def)

lemma outcome_fail [out]: "outcome (fail e) s Q \<longleftrightarrow> exits e"
  by (simp add: outcome_def fail_def)

lemma outcome_gets [out]: "outcome (gets f) s Q \<longleftrightarrow> Q (f s) s"
  by (simp add: outcome_def gets_def)

lemma outcome_modify [out]: "outcome (modify f) s Q \<longleftrightarrow> Q () (f s)"
  by (simp add: outcome_def modify_def)

lemma outcome_guard [out]: "outcome (guard_cm e b) s Q \<longleftrightarrow> (if b s then Q () s else exits e)"
  by (simp add: outcome_def guard_cm_def)

lemma outcome_bind [out]: "outcome (bind m f) s Q \<longleftrightarrow> outcome m s (\<lambda>x t. outcome (f x) t Q)"
  by (auto simp: outcome_def bind_def split: sum.split)

lemma outcome_andthen [out]: "outcome (andthen m k) s Q \<longleftrightarrow> outcome m s (\<lambda>_ t. outcome k t Q)"
  by (simp add: andthen_def outcome_bind)

lemma outcome_if [out]:
  "outcome (if b then m else k) s Q \<longleftrightarrow> (if b then outcome m s Q else outcome k s Q)"
  by simp

lemma outcome_mono: "outcome m s P \<Longrightarrow> (\<And>x t. P x t \<Longrightarrow> Q x t) \<Longrightarrow> outcome m s Q"
  by (auto simp: outcome_def split: sum.splits)

text \<open>
  A token of the line \<open>s\<close>: a nonempty piece of word characters, behind which the line ends or has another
  character.
\<close>

definition tok_ok :: "string \<Rightarrow> token_ptr \<Rightarrow> bool" where
  "tok_ok s t \<longleftrightarrow> suffix (fst t) s \<and>
     (\<exists>w. w \<noteq> [] \<and> list_all is_word w \<and> fst t = w @ snd t \<and> (snd t = [] \<or> \<not> is_word (hd (snd t))))"

text \<open>What every function of the parser keeps: the position moves forward and the tokens are tokens of the line.\<close>

definition moved :: "string \<Rightarrow> sh \<Rightarrow> pcmd \<Rightarrow> sh \<Rightarrow> bool" where
  "moved s t0 c t \<longleftrightarrow> suffix (ps t) (ps t0) \<and> (\<forall>k\<in>set_cmd c. tok_ok s k)"

lemma outcome_peek [out]:
  "outcome (peek toks) s Q \<longleftrightarrow>
     Q (dropWhile is_ws (ps s) \<noteq> [] \<and> hd (dropWhile is_ws (ps s)) \<in> set toks)
       (s\<lparr>ps := dropWhile is_ws (ps s)\<rparr>)"
  by (simp add: peek_def out)

lemma outcome_gettoken [out]:
  "outcome gettoken s Q \<longleftrightarrow>
     Q (fst (token (dropWhile is_ws (ps s))), dropWhile is_ws (ps s), snd (token (dropWhile is_ws (ps s))))
       (s\<lparr>ps := dropWhile is_ws (snd (token (dropWhile is_ws (ps s))))\<rparr>)"
  by (simp add: gettoken_def out split: prod.split)

lemma outcome_malloc1 [out]:
  "outcome (malloc1 n) s Q \<longleftrightarrow> (mused s + n \<le> MAXN \<longrightarrow> Q () (s\<lparr>mused := mused s + n\<rparr>))"
  by (simp add: malloc1_def out not_less)

lemma outcome_redir_of:
  "outcome (redir_of tok c f) s Q"
  if "\<And>c' n. set_cmd c' \<subseteq> insert f (set_cmd c) \<Longrightarrow> Q c' (s\<lparr>mused := n\<rparr>)"
proof -
  have "Q c s"
    using that [of c "mused s"] by (simp add: subset_insertI)
  then show ?thesis
    using that by (simp add: redir_of_def redircmd_def out)
qed

lemma suffix_skip: "suffix (dropWhile is_ws p) p"
  by (rule suffix_dropWhile)

lemma skip_length: "length (dropWhile is_ws p) \<le> length p"
  by (rule length_dropWhile_le)

lemma token_suffix: "suffix (snd (token q)) q"
proof (cases q)
  case (Cons c t)
  have "suffix (tl t) (c # t)"
    by (meson suffix_ConsI suffix_tl)
  then show ?thesis
    using Cons suffix_dropWhile [of is_word q] by (simp add: suffix_ConsI)
qed simp

lemma token_less:
  assumes "dropWhile is_ws p \<noteq> []"
  shows "length (snd (token (dropWhile is_ws p))) < length (dropWhile is_ws p)"
proof -
  obtain c t where ct: "dropWhile is_ws p = c # t"
    using assms by (cases "dropWhile is_ws p") auto
  then have "\<not> is_ws c"
    using hd_dropWhile [of is_ws p] by simp
  then have "is_word c" if "c \<notin> set ''|();&<''" "c \<noteq> CHR ''>''"
    using that by (auto simp: is_word_def is_ws_def symbols_def)
  then show ?thesis
    using length_dropWhile_le [of is_word t] by (auto simp: ct le_imp_less_Suc)
qed

lemma token_none: "fst (token q) = CHR 0x00 \<longleftrightarrow> q = []"
  by (cases q) auto

lemma token_word:
  assumes a: "fst (token (dropWhile is_ws p)) = CHR ''a''" and s: "suffix (dropWhile is_ws p) s"
  shows "tok_ok s (dropWhile is_ws p, snd (token (dropWhile is_ws p)))"
proof -
  obtain c t where ct: "dropWhile is_ws p = c # t"
    using a by (cases "dropWhile is_ws p") auto
  then have "\<not> is_ws c"
    using hd_dropWhile [of is_ws p] by simp
  moreover have c: "c \<notin> set ''|();&<''" "c \<noteq> CHR ''>''"
    using a by (auto simp: ct split: if_splits)
  ultimately have w: "is_word c"
    by (auto simp: is_word_def is_ws_def symbols_def)
  have "list_all is_word (takeWhile is_word (c # t))"
    by (metis list_all_iff set_takeWhileD)
  moreover have "dropWhile is_word (c # t) = [] \<or> \<not> is_word (hd (dropWhile is_word (c # t)))"
    using hd_dropWhile [of is_word "c # t"] by blast
  moreover have "c # t = takeWhile is_word (c # t) @ dropWhile is_word (c # t)"
    by (simp only: takeWhile_dropWhile_id)
  moreover have "takeWhile is_word (c # t) \<noteq> []"
    using w by simp
  moreover have "snd (token (c # t)) = dropWhile is_word (c # t)"
    using c by simp
  ultimately show ?thesis
    using s unfolding tok_ok_def ct fst_conv snd_conv by metis
qed

text \<open>One token further on: the rest of the line after the blanks behind the next token.\<close>

definition after :: "string \<Rightarrow> string" where
  "after p = dropWhile is_ws (snd (token (dropWhile is_ws p)))"

lemma after_suffix: "suffix (after p) p"
  unfolding after_def using suffix_skip token_suffix suffix_order.order_trans by metis

lemma after_less: "dropWhile is_ws p \<noteq> [] \<Longrightarrow> length (after p) < length p"
  unfolding after_def using token_less skip_length le_less_trans less_le_trans by metis

lemma skip_skip [simp]: "dropWhile is_ws (dropWhile is_ws p) = dropWhile is_ws p"
  by (rule dropWhile_idem)

lemma skip_after [simp]: "dropWhile is_ws (after p) = after p"
  by (simp add: after_def)

lemma after_skip [simp]: "after (dropWhile is_ws p) = after p"
  by (simp add: after_def)

lemma gettoken_after [out]:
  "outcome gettoken s Q \<longleftrightarrow>
     Q (fst (token (dropWhile is_ws (ps s))), dropWhile is_ws (ps s), snd (token (dropWhile is_ws (ps s))))
       (s\<lparr>ps := after (ps s)\<rparr>)"
  by (simp add: outcome_gettoken after_def)

declare outcome_gettoken [out del]

lemma moved_from: "outcome m u (moved s u) \<Longrightarrow> suffix (ps u) (ps t) \<Longrightarrow> outcome m u (moved s t)"
  by (erule outcome_mono) (auto simp: moved_def intro: suffix_order.order_trans)

lemma outcome_then:
  assumes "outcome m u (moved s u)" "suffix (ps u) (ps t)"
    and "\<And>c v. moved s t c v \<Longrightarrow> length (ps v) \<le> length (ps u) \<Longrightarrow> outcome (f c) v Q"
  shows "outcome m u (\<lambda>c v. outcome (f c) v Q)"
  using assms(1) by (rule outcome_mono)
    (use assms(2,3) in \<open>auto simp: moved_def suffix_length_le intro: suffix_order.order_trans\<close>)

lemma moved_skip: "suffix (ps v) (ps t) \<Longrightarrow> \<forall>k\<in>set_cmd c. tok_ok s k \<Longrightarrow>
    moved s t c (v\<lparr>ps := dropWhile is_ws (ps v)\<rparr>)"
  using suffix_skip [of "ps v"] by (auto simp: moved_def intro: suffix_order.order_trans)

lemma redirs_outcome:
  assumes "length (ps t) < n" "suffix (ps t) s" "\<forall>k\<in>set_cmd c. tok_ok s k"
  shows "outcome (parseredirs n c) t (moved s t)"
  using assms
proof (induction n arbitrary: c t)
  case (Suc n)
  let ?p = "dropWhile is_ws (ps t)"
  have sp: "suffix ?p s"
    using Suc.prems(2) suffix_skip suffix_order.order_trans by blast
  show ?case
  proof (cases "?p \<noteq> [] \<and> hd ?p \<in> set ''<>''")
    case True
    let ?a = "after (ps t)" and ?b = "after (after (ps t))"
    have ss: "suffix ?a (ps t)" "suffix ?b ?a"
      by (rule after_suffix)+
    have step: "outcome (parseredirs n c') u (moved s t)"
      if "set_cmd c' \<subseteq> insert (?a, snd (token ?a)) (set_cmd c)" "fst (token ?a) = CHR ''a''" "ps u = ?b" for c' u
    proof -
      have "tok_ok s (dropWhile is_ws ?a, snd (token (dropWhile is_ws ?a)))"
        using that(2) ss(1) Suc.prems(2) suffix_order.order_trans by (intro token_word) (auto simp only: skip_after)
      then have "\<forall>k\<in>set_cmd c'. tok_ok s k"
        using that(1) Suc.prems(3) by auto
      moreover have "length ?b \<le> length ?a" "length ?a < length (ps t)"
        using suffix_length_le [OF ss(2)] after_less True by auto
      ultimately have "outcome (parseredirs n c') u (moved s u)"
        using that(3) ss Suc.prems(1,2) suffix_order.order_trans
        by (intro Suc.IH) auto
      then show ?thesis
        using that(3) ss suffix_order.order_trans by (metis moved_from)
    qed
    show ?thesis
      unfolding parseredirs.simps
      using True by (auto simp: out split: prod.split intro!: outcome_redir_of step)
  next
    case False
    then show ?thesis
      unfolding parseredirs.simps
      using Suc.prems(3) suffix_skip by (auto simp: out moved_def)
  qed
qed simp

lemma put_args_set: "set_cmd (put_args as c) \<subseteq> set as \<union> set_cmd c"
  by (induction as c rule: put_args.induct) auto

lemma args_outcome:
  assumes "length (ps t) < n" "suffix (ps t) s" "\<forall>k\<in>set as \<union> set_cmd c. tok_ok s k"
  shows "outcome (parseargs n as c) t (moved s t)"
  using assms
proof (induction n arbitrary: as c t)
  case (Suc n)
  let ?p = "dropWhile is_ws (ps t)" and ?a = "after (ps t)"
  have stop: "moved s t (put_args as c) u" if "ps u = ?p \<or> ps u = ?a" for u
    using that Suc.prems(3) put_args_set [of as c] suffix_skip after_suffix by (fastforce simp: moved_def)
  have step: "outcome (bind (parseredirs n c) (\<lambda>c'. parseargs n (as @ [(?p, snd (token ?p))]) c')) u (moved s t)"
    if a: "fst (token ?p) = CHR ''a''" and u: "ps u = ?a" for u
  proof -
    have sa: "suffix ?a s" "suffix ?p s"
      using Suc.prems(2) suffix_skip after_suffix suffix_order.order_trans by blast+
    have "?p \<noteq> []"
      using a token_none [of ?p] by auto
    then have l: "length ?a < n"
      using Suc.prems(1) after_less [of "ps t"] by simp
    have k: "tok_ok s (?p, snd (token ?p))"
      using a sa(2) by (rule token_word)
    have "outcome (parseredirs n c) u (moved s u)"
      using l u sa(1) Suc.prems(3) by (intro redirs_outcome) auto
    moreover have "suffix (ps u) (ps t)"
      using u after_suffix by simp
    ultimately show ?thesis
      unfolding outcome_bind
    proof (rule outcome_then)
      fix c' v assume v: "moved s t c' v" "length (ps v) \<le> length (ps u)"
      then have "suffix (ps v) (ps t)"
        by (simp add: moved_def)
      moreover have "outcome (parseargs n (as @ [(?p, snd (token ?p))]) c') v (moved s v)"
        using v k l u Suc.prems(2,3) calculation suffix_order.order_trans
        by (intro Suc.IH) (auto simp: moved_def)
      ultimately show "outcome (parseargs n (as @ [(?p, snd (token ?p))]) c') v (moved s t)"
        by (rule moved_from [rotated])
    qed
  qed
  show ?case
    unfolding parseargs.simps using stop step by (simp add: outcome_peek outcome_if outcome_ret outcome_fail
        outcome_bind [of gettoken] outcome_bind [of "peek _"] gettoken_after token_none)
qed simp

lemma backs_outcome:
  assumes "length (ps t) < n" "suffix (ps t) s" "\<forall>k\<in>set_cmd c. tok_ok s k"
  shows "outcome (parsebacks n c) t (moved s t)"
  using assms
proof (induction n arbitrary: c t)
  case (Suc n)
  have step: "outcome (parsebacks n (Back c)) u (moved s t)"
    if "dropWhile is_ws (ps t) \<noteq> []" "ps u = after (ps t)" for u
  proof (rule moved_from)
    show "suffix (ps u) (ps t)"
      using that(2) after_suffix by simp
    then show "outcome (parsebacks n (Back c)) u (moved s u)"
      using that Suc.prems after_less [of "ps t"] suffix_order.order_trans by (intro Suc.IH) auto
  qed
  show ?case
    unfolding parsebacks.simps using step moved_skip [of t t] Suc.prems(3)
    by (auto simp: out backcmd_def)
qed simp

text \<open>The four functions together: the fuel they need, and what they keep.\<close>

definition goes :: "string \<Rightarrow> nat \<Rightarrow> nat \<Rightarrow> (sh, pcmd) cm \<Rightarrow> bool" where
  "goes s k n m \<longleftrightarrow> (\<forall>t. 5 * length (ps t) + k \<le> n \<longrightarrow> suffix (ps t) s \<longrightarrow> outcome m t (moved s t))"

lemma goesD: "goes s k n m \<Longrightarrow> 5 * length (ps t) + k \<le> n \<Longrightarrow> suffix (ps t) s \<Longrightarrow> outcome m t (moved s t)"
  by (simp add: goes_def)

lemma pair_outcome:
  assumes c: "moved s t c v" and v: "suffix (ps v) s" and ne: "dropWhile is_ws (ps v) \<noteq> []"
    and n: "5 * length (ps v) \<le> n" and m: "goes s 5 n m"
    and f: "\<And>r. f r = andthen (malloc1 k) (ret (g r))" "\<And>r. set_cmd (g r) = set_cmd c \<union> set_cmd r"
    and u: "ps u = after (ps v)"
  shows "outcome (bind m f) u (moved s t)"
  unfolding outcome_bind
proof (rule outcome_then [where t = v])
  have "length (ps u) < length (ps v)"
    using ne u after_less by simp
  then show "outcome m u (moved s u)"
    using n u v after_suffix suffix_order.order_trans by (intro goesD [OF m]) auto
  show "suffix (ps u) (ps v)"
    using u after_suffix by simp
  fix r w assume "moved s v r w"
  then show "outcome (f r) w (moved s t)"
    using c by (auto simp: f out moved_def intro: suffix_order.order_trans)
qed

lemma line_outcome:
  assumes "goes s 4 n (parsepipe n)" "goes s 5 n (parseline n)"
  shows "goes s 5 (Suc n) (parseline (Suc n))"
  unfolding goes_def
proof (intro allI impI)
  fix t :: sh
  assume t: "5 * length (ps t) + 5 \<le> Suc n" "suffix (ps t) s"
  show "outcome (parseline (Suc n)) t (moved s t)"
    unfolding parseline.simps outcome_bind [of "parsepipe n"]
  proof (rule outcome_then [OF goesD [OF assms(1)], where t = t])
    fix c v assume v: "moved s t c v" "length (ps v) \<le> length (ps t)"
    then have sv: "suffix (ps v) s" "\<forall>k\<in>set_cmd c. tok_ok s k" "suffix (ps v) (ps t)"
      using t(2) suffix_order.order_trans by (auto simp: moved_def)
    show "outcome (bind (parsebacks n c) (\<lambda>c. bind (peek '';'') (\<lambda>b.
        if b then andthen gettoken (bind (parseline n) (\<lambda>r. listcmd c r)) else ret c))) v (moved s t)"
      unfolding outcome_bind [of "parsebacks n c"]
    proof (rule outcome_then [OF backs_outcome, where t = t])
      fix c' w assume w: "moved s t c' w" "length (ps w) \<le> length (ps v)"
      have "outcome (bind (parseline n) (\<lambda>r. listcmd c' r)) u (moved s t)"
        if "dropWhile is_ws (ps w) \<noteq> []" "ps u = after (ps w)" for u
        using w t v suffix_order.order_trans that assms(2)
        by (intro pair_outcome [where v = w and c = c']) (auto simp: listcmd_def moved_def)
      then show "outcome (bind (peek '';'') (\<lambda>b.
          if b then andthen gettoken (bind (parseline n) (\<lambda>r. listcmd c' r)) else ret c')) w (moved s t)"
        using w(1) [unfolded moved_def] moved_skip [of w t]
        by (simp add: outcome_bind [of "peek _"] outcome_andthen [of gettoken] gettoken_after outcome_peek
            outcome_if outcome_ret)
    qed (use v t sv in auto)
  qed (use t in auto)
qed

lemma pipe_outcome:
  assumes "goes s 3 n (parseexec n)" "goes s 4 n (parsepipe n)"
  shows "goes s 4 (Suc n) (parsepipe (Suc n))"
  unfolding goes_def
proof (intro allI impI)
  fix t :: sh
  assume t: "5 * length (ps t) + 4 \<le> Suc n" "suffix (ps t) s"
  show "outcome (parsepipe (Suc n)) t (moved s t)"
    unfolding parsepipe.simps outcome_bind [of "parseexec n"]
  proof (rule outcome_then [OF goesD [OF assms(1)], where t = t])
    fix c w assume w: "moved s t c w" "length (ps w) \<le> length (ps t)"
    have "outcome (bind (parsepipe n) (\<lambda>r. pipecmd c r)) u (moved s t)"
      if "dropWhile is_ws (ps w) \<noteq> []" "ps u = after (ps w)" for u
      using w t suffix_order.order_trans that assms(2)
      by (intro pair_outcome [where v = w and c = c]) (auto simp: pipecmd_def moved_def goes_def)
    then show "outcome (bind (peek ''|'') (\<lambda>b.
          if b then andthen gettoken (bind (parsepipe n) (\<lambda>r. pipecmd c r)) else ret c)) w (moved s t)"
      using w(1) [unfolded moved_def] moved_skip [of w t]
      by (simp add: outcome_bind [of "peek _"] outcome_andthen [of gettoken] gettoken_after outcome_peek
          outcome_if outcome_ret)
  qed (use t in auto)
qed

lemma block_outcome:
  assumes "goes s 5 n (parseline n)"
  shows "goes s 2 (Suc n) (parseblock (Suc n))"
  unfolding goes_def
proof (intro allI impI)
  fix t :: sh
  assume t: "5 * length (ps t) + 2 \<le> Suc n" "suffix (ps t) s"
  let ?close = "\<lambda>c. bind (peek '')'') (\<lambda>b. if \<not> b then fail (Panic ''syntax - missing )'')
    else andthen gettoken (parseredirs n c))"
  have close: "outcome (?close c) w (moved s t)" if w: "moved s t c w" "length (ps w) \<le> length (ps t)" for c w
  proof -
    have "outcome (parseredirs n c) u (moved s t)" if "ps u = after (ps w)" for u
    proof (rule moved_from)
      show u: "suffix (ps u) (ps t)"
        using w(1) that after_suffix [of "ps w"] suffix_order.order_trans by (auto simp: moved_def)
      show "outcome (parseredirs n c) u (moved s u)"
        using u w t suffix_length_le [OF u] suffix_order.order_trans
        by (intro redirs_outcome) (auto simp: moved_def)
    qed
    then show ?thesis
      by (simp add: outcome_bind [of "peek _"] outcome_andthen [of gettoken] gettoken_after outcome_peek
          outcome_if outcome_fail)
  qed
  have "outcome (bind (parseline n) ?close) u (moved s t)"
    if ne: "dropWhile is_ws (ps t) \<noteq> []" and u: "ps u = after (ps t)" for u
    unfolding outcome_bind [of "parseline n"]
  proof (rule outcome_then [OF goesD [OF assms], where t = t])
    show "5 * length (ps u) + 5 \<le> n"
      using t(1) u after_less [OF ne] by simp
    show "suffix (ps u) s" "suffix (ps u) (ps t)"
      using u t(2) after_suffix suffix_order.order_trans by auto
    fix c w assume w: "moved s t c w"
    then have "length (ps w) \<le> length (ps t)"
      using suffix_length_le moved_def by blast
    then show "outcome (?close c) w (moved s t)"
      by (rule close [OF w])
  qed
  then show "outcome (parseblock (Suc n)) t (moved s t)"
    unfolding parseblock.simps
    by (simp add: outcome_bind [of "peek _"] outcome_andthen [of gettoken] gettoken_after outcome_peek
        outcome_if outcome_fail)
qed

lemma exec_outcome:
  assumes "goes s 2 n (parseblock n)"
  shows "goes s 3 (Suc n) (parseexec (Suc n))"
  unfolding goes_def
proof (intro allI impI)
  fix t :: sh
  assume t: "5 * length (ps t) + 3 \<le> Suc n" "suffix (ps t) s"
  let ?p = "dropWhile is_ws (ps t)"
  have p: "length ?p \<le> length (ps t)" "suffix ?p (ps t)" "suffix ?p s"
    using skip_length suffix_skip suffix_order.order_trans [OF suffix_skip t(2)] by simp_all
  have block: "outcome (parseblock n) u (moved s t)" if "ps u = ?p" for u
    using that p t by (simp add: moved_from [OF goesD [OF assms]])
  have args: "outcome (bind (parseredirs n (Exec [])) (\<lambda>c. parseargs n [] c)) u (moved s t)" if "ps u = ?p" for u
    unfolding outcome_bind
  proof (rule outcome_then [where t = t])
    show "outcome (parseredirs n (Exec [])) u (moved s u)"
      using that p t by (intro redirs_outcome) simp_all
    show "suffix (ps u) (ps t)"
      using that p by simp
    fix c v assume v: "moved s t c v" "length (ps v) \<le> length (ps u)"
    then have "suffix (ps v) (ps t)" "suffix (ps v) s" "\<forall>k\<in>set_cmd c. tok_ok s k"
      using t(2) suffix_order.order_trans unfolding moved_def by blast+
    moreover have "length (ps v) < n"
      using v(2) that p(1) t(1) by simp
    ultimately show "outcome (parseargs n [] c) v (moved s t)"
      by (simp add: moved_from [OF args_outcome])
  qed
  show "outcome (parseexec (Suc n)) t (moved s t)"
    unfolding parseexec.simps using block args
    by (simp add: outcome_bind [of "peek _"] outcome_andthen outcome_malloc1 execcmd_def outcome_peek
        outcome_if)
qed

lemma parse_outcome:
  "goes s 5 n (parseline n) \<and> goes s 4 n (parsepipe n) \<and> goes s 2 n (parseblock n) \<and> goes s 3 n (parseexec n)"
proof (induction n)
  case 0
  then show ?case
    by (simp add: goes_def)
next
  case (Suc n)
  then show ?case
    using line_outcome pipe_outcome block_outcome exec_outcome by blast
qed

lemma parsecmd_outcome:
  "case parsecmd s m of
     Inl e \<Rightarrow> exits e
   | Inr (c, buf, m') \<Rightarrow> buf = nulterminate c (s @ [CHR 0x00]) \<and> (\<forall>k\<in>set_cmd c. tok_ok s k)"
proof -
  let ?t = "\<lparr>ps = s, mused = m\<rparr>"
  let ?fin = "\<lambda>c. andthen (peek []) (andthen (guard_cm (Panic ''syntax'') (\<lambda>t. ps t = [])) (ret c))"
  have "outcome (parseline (parse_fuel s)) ?t (moved s ?t)"
    using parse_outcome [of s "parse_fuel s"] by (auto simp: goes_def parse_fuel_def)
  then have "outcome (bind (parseline (parse_fuel s)) ?fin) ?t (\<lambda>c _. \<forall>k\<in>set_cmd c. tok_ok s k)"
    unfolding outcome_bind by (rule outcome_mono) (simp add: out moved_def)
  then show ?thesis
    unfolding parsecmd_def outcome_def by (auto split: sum.splits)
qed

text \<open>\<open>nulterminate\<close> writes zeros exactly where the tokens end.\<close>

definition ends :: "string \<Rightarrow> token_ptr set \<Rightarrow> nat set" where
  "ends s K = (\<lambda>k. length s - length (snd k)) ` K"

definition nulled :: "string \<Rightarrow> token_ptr set \<Rightarrow> string \<Rightarrow> string \<Rightarrow> bool" where
  "nulled s K buf buf' \<longleftrightarrow> length buf' = length buf \<and>
     (\<forall>i\<le>length s. buf' ! i = (if i \<in> ends s K then CHR 0x00 else buf ! i))"

lemma nulled_trans:
  "nulled s K a b \<Longrightarrow> nulled s L b c \<Longrightarrow> nulled s (K \<union> L) a c"
  by (auto simp: nulled_def ends_def)

lemma nul_at_nulled:
  assumes "length buf = Suc (length s)"
  shows "nulled s {(q, eq)} buf (nul_at eq buf)"
  using assms by (auto simp: nulled_def ends_def nul_at_def nth_list_update)

lemma nul_all:
  "length buf = Suc (length s) \<Longrightarrow> nulled s (set as) buf (fold (\<lambda>(q, eq). nul_at eq) as buf)"
proof (induction as arbitrary: buf)
  case Nil
  then show ?case
    by (simp add: nulled_def ends_def)
next
  case (Cons a as)
  obtain q eq where a: "a = (q, eq)"
    by (cases a)
  have "nulled s {(q, eq)} buf (nul_at eq buf)"
    using Cons.prems by (rule nul_at_nulled)
  moreover have "nulled s (set as) (nul_at eq buf) (fold (\<lambda>(q, eq). nul_at eq) as (nul_at eq buf))"
    using Cons.prems by (intro Cons.IH) (simp add: nul_at_def)
  ultimately show ?case
    using nulled_trans a by fastforce
qed

lemma nulterminate_nulled:
  "length buf = Suc (length s) \<Longrightarrow> nulled s (set_cmd c) buf (nulterminate c buf)"
proof (induction c buf rule: nulterminate.induct)
  case (2 c q eq md fd buf)
  then have "nulled s (set_cmd c) buf (nulterminate c buf)"
    by simp
  moreover have "nulled s {(q, eq)} (nulterminate c buf) (nul_at eq (nulterminate c buf))"
    using calculation 2(2) by (intro nul_at_nulled) (simp add: nulled_def)
  ultimately show ?case
    using nulled_trans by fastforce
next
  case (3 l r buf)
  moreover have "length (nulterminate l buf) = Suc (length s)"
    using 3(1,3) by (simp add: nulled_def)
  ultimately show ?case
    using nulled_trans by fastforce
next
  case (4 l r buf)
  moreover have "length (nulterminate l buf) = Suc (length s)"
    using 4(1,3) by (simp add: nulled_def)
  ultimately show ?case
    using nulled_trans by fastforce
qed (auto intro: nul_all)

text \<open>The C string at a pointer into the buffer.\<close>

definition cstring_at :: "string \<Rightarrow> nat \<Rightarrow> string" where
  "cstring_at buf i = takeWhile (\<lambda>c. c \<noteq> CHR 0x00) (drop i buf)"

definition text_of :: "token_ptr \<Rightarrow> string" where
  "text_of t = take (length (fst t) - length (snd t)) (fst t)"

lemma tok_text:
  assumes "tok_ok s (q, eq)"
  obtains i w where "i + length w \<le> length s" "text_of (q, eq) = w" "w \<noteq> []" "list_all is_word w"
    "length s - length q = i" "length s - length eq = i + length w" "take (length w) (drop i s) = w"
    "i + length w = length s \<or> \<not> is_word (s ! (i + length w))"
proof -
  obtain p w where pw: "s = p @ q" "q = w @ eq" "w \<noteq> []" "list_all is_word w" "eq = [] \<or> \<not> is_word (hd eq)"
    using assms by (auto simp: tok_ok_def suffix_def)
  moreover have "eq \<noteq> [] \<Longrightarrow> s ! (length p + length w) = hd eq"
    using pw(1,2) by (simp add: nth_append hd_conv_nth)
  ultimately show ?thesis
    by (intro that [of "length p" w]) (auto simp: text_of_def)
qed

lemma drop_split:
  assumes "i + length w < length b" "\<And>j. j < length w \<Longrightarrow> b ! (i + j) = w ! j"
  shows "drop i b = w @ b ! (i + length w) # drop (Suc (i + length w)) b"
proof -
  have "take (length w) (drop i b) = w"
    using assms by (intro nth_equalityI) auto
  moreover have "drop (length w) (drop i b) = b ! (i + length w) # drop (Suc (i + length w)) b"
    using assms(1) by (simp add: Cons_nth_drop_Suc add.commute)
  ultimately show ?thesis
    by (metis append_take_drop_id)
qed

lemma terminated_string:
  assumes k: "k \<in> set_cmd c" "\<forall>k\<in>set_cmd c. tok_ok s k" and z: "CHR 0x00 \<notin> set s"
  shows "cstring_at (nulterminate c (s @ [CHR 0x00])) (length s - length (fst k)) = text_of k"
proof -
  let ?b = "nulterminate c (s @ [CHR 0x00])"
  have n: "nulled s (set_cmd c) (s @ [CHR 0x00]) ?b"
    by (rule nulterminate_nulled) simp
  obtain q eq where kq: "k = (q, eq)"
    by (cases k)
  then obtain i w where w: "i + length w \<le> length s" "text_of k = w" "list_all is_word w"
    "length s - length q = i" "length s - length eq = i + length w" "take (length w) (drop i s) = w"
    using tok_text [of s q eq] k by metis
  have wi: "s ! (i + j) = w ! j" if "j < length w" for j
    using that w(1,6) by (metis add.commute nth_drop nth_take add_leD1 le_add_diff_inverse2)
  have notend: "i + j \<notin> ends s (set_cmd c)" if "j < length w" for j
  proof
    assume "i + j \<in> ends s (set_cmd c)"
    then obtain q' eq' where e: "(q', eq') \<in> set_cmd c" "i + j = length s - length eq'"
      by (auto simp: ends_def)
    then have "i + j = length s \<or> \<not> is_word (s ! (i + j))"
      using tok_text [of s q' eq'] k(2) by metis
    then show False
      using that wi w(1,3) by (auto simp: list_all_length)
  qed
  have "length s - length eq \<in> ends s (set_cmd c)"
    using k(1) kq by (force simp: ends_def)
  then have z0: "?b ! (i + length w) = CHR 0x00"
    using n w(1,5) by (simp add: nulled_def)
  have l: "length ?b = Suc (length s)"
    using n by (simp add: nulled_def)
  have bj: "?b ! (i + j) = w ! j" if "j < length w" for j
    using n notend that wi w(1) by (simp add: nulled_def nth_append)
  have "drop i ?b = w @ CHR 0x00 # drop (Suc (i + length w)) ?b"
    using drop_split [of i w ?b] l w(1) z0 bj by simp
  moreover have "CHR 0x00 \<notin> set w"
    using w(6) z by (metis in_set_takeD in_set_dropD)
  ultimately show ?thesis
    by (auto simp: cstring_at_def kq w(2,4)[unfolded kq] takeWhile_append)
qed

section \<open>Writing a command down\<close>

text \<open>
  The text of a command: words and file names are followed by a blank, and every part that is not a plain
  command stands in parentheses.
\<close>

definition redir_text :: "string \<Rightarrow> mode \<Rightarrow> string" where
  "redir_text f md = (if md = RDONLY then ''<'' else ''>'') @ f @ '' ''"

definition words_text :: "string list \<Rightarrow> string" where
  "words_text ws = concat (map (\<lambda>w. w @ '' '') ws)"

fun render :: "string cmd \<Rightarrow> string" and atom :: "string cmd \<Rightarrow> string" where
  "render (Exec ws) = words_text ws"
| "render (Redir c f md fd) = atom c @ redir_text f md"
| "render (Pipe l r) = atom l @ ''|'' @ atom r"
| "render (List l r) = atom l @ '';'' @ atom r"
| "render (Back c) = atom c @ ''&''"
| "atom (Exec ws) = words_text ws"
| "atom (Redir c f md fd) = ''('' @ (atom c @ redir_text f md) @ '')''"
| "atom (Pipe l r) = ''('' @ (atom l @ ''|'' @ atom r) @ '')''"
| "atom (List l r) = ''('' @ (atom l @ '';'' @ atom r) @ '')''"
| "atom (Back c) = ''('' @ (atom c @ ''&'') @ '')''"

text \<open>The commands that can be written down, and the memory their parts take.\<close>

definition word_ok :: "string \<Rightarrow> bool" where
  "word_ok w \<longleftrightarrow> w \<noteq> [] \<and> list_all is_word w \<and> CHR 0x00 \<notin> set w"

definition redir_fd :: "mode \<Rightarrow> nat" where
  "redir_fd md = (if md = RDONLY then 0 else 1)"

fun writable :: "string cmd \<Rightarrow> bool" where
  "writable (Exec ws) \<longleftrightarrow> length ws < MAXARGS \<and> list_all word_ok ws"
| "writable (Redir c f md fd) \<longleftrightarrow> writable c \<and> word_ok f \<and> fd = redir_fd md"
| "writable (Pipe l r) \<longleftrightarrow> writable l \<and> writable r"
| "writable (List l r) \<longleftrightarrow> writable l \<and> writable r"
| "writable (Back c) \<longleftrightarrow> writable c"

fun cost :: "'a cmd \<Rightarrow> nat" where
  "cost (Exec ws) = sizeof_execcmd"
| "cost (Redir c f md fd) = cost c + sizeof_redircmd"
| "cost (Pipe l r) = cost l + cost r + sizeof_pipecmd"
| "cost (List l r) = cost l + cost r + sizeof_listcmd"
| "cost (Back c) = cost c + sizeof_backcmd"

subsection \<open>Steps of the parser on such a text\<close>

definition noblank :: "string \<Rightarrow> bool" where
  "noblank p \<longleftrightarrow> p = [] \<or> \<not> is_ws (hd p)"

lemma noblank_skip: "noblank p \<Longrightarrow> dropWhile is_ws p = p"
  by (cases p) (auto simp: noblank_def)

lemma symbol_not_ws: "c \<in> set symbols \<Longrightarrow> \<not> is_ws c"
  by (auto simp: is_ws_def symbols_def whitespace_def)

lemma word_not_ws: "is_word c \<Longrightarrow> \<not> is_ws c"
  by (simp add: is_word_def is_ws_def)

lemma word_noblank: "word_ok w \<Longrightarrow> noblank (w @ p)"
  by (cases w) (auto simp: word_ok_def noblank_def word_not_ws)

lemma word_first: "word_ok w \<Longrightarrow> hd (w @ p) \<notin> set symbols \<and> w @ p \<noteq> []"
  by (cases w) (auto simp: word_ok_def is_word_def)

lemma peek_at: "noblank (ps u) \<Longrightarrow> peek toks u = Inr (ps u \<noteq> [] \<and> hd (ps u) \<in> set toks, u)"
  by (simp add: peek_def andthen_def bind_def modify_def gets_def noblank_skip)

lemma gettoken_symbol:
  assumes "ps u = c # r" "c \<in> set symbols" "noblank r" "c = CHR ''>'' \<Longrightarrow> r \<noteq> [] \<Longrightarrow> hd r \<noteq> CHR ''>''"
  shows "gettoken u = Inr ((c, (ps u, r)), u\<lparr>ps := r\<rparr>)"
proof -
  have "dropWhile is_ws (ps u) = ps u"
    using assms(1,2) symbol_not_ws by simp
  moreover have "token (ps u) = (c, r)"
    using assms(1,2,4) by (auto simp: symbols_def)
  ultimately show ?thesis
    using assms(3) by (simp add: gettoken_def bind_def gets_def andthen_def modify_def ret_def noblank_skip)
qed

lemma blank_char: "is_ws CHR '' ''" "\<not> is_word CHR '' ''"
  by (simp_all add: is_ws_def is_word_def whitespace_def)

lemma gettoken_word:
  assumes "ps u = w @ '' '' @ r" "word_ok w" "noblank r"
  shows "gettoken u = Inr ((CHR ''a'', (ps u, '' '' @ r)), u\<lparr>ps := r\<rparr>)"
proof -
  have "noblank (ps u)"
    using assms(1,2) word_noblank by simp
  moreover have "token (ps u) = (CHR ''a'', '' '' @ r)"
  proof -
    obtain c v where w: "w = c # v"
      using assms(2) by (cases w) (auto simp: word_ok_def)
    then have "is_word c" "list_all is_word w"
      using assms(2) by (auto simp: word_ok_def)
    then have "dropWhile is_word (w @ '' '' @ r) = '' '' @ r"
      using blank_char by (simp add: dropWhile_append list_all_iff)
    then show ?thesis
      using \<open>is_word c\<close> by (auto simp: assms(1) w is_word_def symbols_def)
  qed
  ultimately show ?thesis
    using assms(3) blank_char
    by (simp add: gettoken_def bind_def gets_def andthen_def modify_def ret_def noblank_skip)
qed

lemma malloc1_at:
  "mused u + k \<le> MAXN \<Longrightarrow> malloc1 k u = Inr ((), u\<lparr>mused := mused u + k\<rparr>)"
  by (simp add: malloc1_def andthen_def bind_def modify_def guard_cm_def)

text \<open>What may follow a command inside a line, and a whole line.\<close>

definition stop :: "string \<Rightarrow> bool" where
  "stop p \<longleftrightarrow> p = [] \<or> hd p \<in> set ''|)&;''"

lemma stop_noblank: "stop p \<Longrightarrow> noblank p"
  using symbol_not_ws by (auto simp: stop_def noblank_def symbols_def)

lemma redirs_none:
  assumes "noblank (ps u)" "ps u \<noteq> [] \<Longrightarrow> hd (ps u) \<notin> set ''<>''"
  shows "parseredirs (Suc n) c u = Inr (c, u)"
  using assms by (auto simp: bind_def peek_at ret_def)

lemma redirs_one:
  assumes "ps u = redir_text f md @ r" "stop r" "word_ok f" "mused u + sizeof_redircmd \<le> MAXN" "2 \<le> n"
  shows "\<exists>k. text_of k = f \<and> parseredirs n c u =
           Inr (Redir c k md (redir_fd md), \<lparr>ps = r, mused = mused u + sizeof_redircmd\<rparr>)"
proof -
  obtain n' where n: "n = Suc (Suc n')"
    using assms(5) by (metis Suc_le_D numeral_2_eq_2 Suc_le_mono)
  let ?d = "if md = RDONLY then CHR ''<'' else CHR ''>''"
  let ?u1 = "u\<lparr>ps := f @ '' '' @ r\<rparr>" and ?u2 = "u\<lparr>ps := r\<rparr>"
  have p: "ps u = ?d # f @ '' '' @ r"
    using assms(1) by (simp add: redir_text_def)
  have d: "?d \<in> set symbols" "?d \<in> set ''<>''"
    by (simp_all add: symbols_def)
  have 1: "peek ''<>'' u = Inr (True, u)"
    using p d symbol_not_ws [OF d(1)] by (subst peek_at) (auto simp: noblank_def)
  have 2: "gettoken u = Inr ((?d, (ps u, f @ '' '' @ r)), ?u1)"
    using p d(1) word_noblank [OF assms(3)] word_first [OF assms(3), of "'' '' @ r"]
    by (intro gettoken_symbol) (auto simp: symbols_def)
  have 3: "gettoken ?u1 = Inr ((CHR ''a'', (f @ '' '' @ r, '' '' @ r)), ?u2)"
    using gettoken_word [of ?u1 f r] assms(3) stop_noblank [OF assms(2)] by simp
  have 4: "redir_of ?d c (f @ '' '' @ r, '' '' @ r) ?u2 =
      Inr (Redir c (f @ '' '' @ r, '' '' @ r) md (redir_fd md), \<lparr>ps = r, mused = mused u + sizeof_redircmd\<rparr>)"
    using assms(4) by (cases md) (simp_all add: redir_of_def redircmd_def andthen_def bind_def malloc1_at
        ret_def redir_fd_def)
  have 5: "parseredirs (Suc n') x \<lparr>ps = r, mused = m\<rparr> = Inr (x, \<lparr>ps = r, mused = m\<rparr>)" for x m
    using assms(2) by (intro redirs_none) (auto simp: stop_noblank, auto simp: stop_def)
  show ?thesis
    using 1 2 3 4 5 unfolding n parseredirs.simps(2) [of "Suc n'"]
    by (auto simp: bind_def text_of_def simp del: parseredirs.simps)
qed

text \<open>An optional redirection behind a command.\<close>

definition wrap :: "('a \<times> mode) option \<Rightarrow> 'a cmd \<Rightarrow> 'a cmd" where
  "wrap rd c = (case rd of None \<Rightarrow> c | Some (f, md) \<Rightarrow> Redir c f md (redir_fd md))"

definition rd_text :: "(string \<times> mode) option \<Rightarrow> string" where
  "rd_text rd = (case rd of None \<Rightarrow> [] | Some (f, md) \<Rightarrow> redir_text f md)"

definition rd_ok :: "(string \<times> mode) option \<Rightarrow> bool" where
  "rd_ok rd = (case rd of None \<Rightarrow> True | Some (f, md) \<Rightarrow> word_ok f)"

definition rd_cost :: "('a \<times> mode) option \<Rightarrow> nat" where
  "rd_cost rd = (case rd of None \<Rightarrow> 0 | Some _ \<Rightarrow> sizeof_redircmd)"

lemma map_wrap: "map_cmd f (wrap rd c) = wrap (map_option (map_prod f id) rd) (map_cmd f c)"
  by (simp add: wrap_def split: option.split)

lemma put_args_wrap: "put_args as (wrap rd c) = wrap rd (put_args as c)"
  by (simp add: wrap_def split: option.split)

lemma redirs_opt:
  assumes "ps u = rd_text rd @ r" "stop r" "rd_ok rd" "mused u + rd_cost rd \<le> MAXN" "2 \<le> n"
  shows "\<exists>k. map_option (map_prod text_of id) k = rd \<and>
           parseredirs n c u = Inr (wrap k c, \<lparr>ps = r, mused = mused u + rd_cost rd\<rparr>)"
proof (cases rd)
  case None
  obtain n' where "n = Suc n'"
    using assms(5) by (cases n) auto
  then have "parseredirs n c u = Inr (c, u)"
    using assms(1,2) None redirs_none [of u n' c] stop_noblank by (auto simp: rd_text_def stop_def)
  then show ?thesis
    using None assms(1) by (intro exI [of _ None]) (auto simp: wrap_def rd_cost_def rd_text_def)
next
  case (Some fm)
  then obtain f md where "rd = Some (f, md)"
    by (cases fm) auto
  moreover from this obtain k where "text_of k = f" "parseredirs n c u =
      Inr (Redir c k md (redir_fd md), \<lparr>ps = r, mused = mused u + sizeof_redircmd\<rparr>)"
    using assms redirs_one [of u f md r n c] by (auto simp: rd_text_def rd_ok_def rd_cost_def)
  ultimately show ?thesis
    by (intro exI [of _ "Some (k, md)"]) (simp add: wrap_def rd_cost_def)
qed

lemma redir_text_noblank: "noblank (redir_text f md @ p)"
  by (simp add: redir_text_def noblank_def is_ws_def whitespace_def)

lemma words_noblank:
  "list_all word_ok ws \<Longrightarrow> stop r \<Longrightarrow> noblank (words_text ws @ rd_text rd @ r)"
  by (cases ws; cases rd)
    (auto simp: words_text_def rd_text_def word_noblank redir_text_noblank stop_noblank)

lemma args_end:
  assumes "stop r"
  shows "parseargs (Suc n) as c \<lparr>ps = r, mused = m\<rparr> = Inr (put_args as c, \<lparr>ps = r, mused = m\<rparr>)"
proof (cases r)
  case Nil
  then show ?thesis
    by (simp add: bind_def peek_at noblank_def ret_def gettoken_def gets_def andthen_def modify_def)
next
  case (Cons x xs)
  then show ?thesis
    using assms stop_noblank [OF assms] by (simp add: bind_def peek_at ret_def stop_def)
qed

lemma words_loop:
  assumes "ps u = words_text ws @ rd_text rd @ r" "stop r" "rd_ok rd" "list_all word_ok ws"
    "length as + length ws < MAXARGS" "mused u + rd_cost rd \<le> MAXN" "length (ps u) + 2 \<le> n"
  shows "\<exists>c. bind (parseredirs n (Exec [])) (parseargs n as) u =
             Inr (c, \<lparr>ps = r, mused = mused u + rd_cost rd\<rparr>) \<and>
           map_cmd text_of c = wrap rd (Exec (map text_of as @ ws))"
  using assms
proof (induction ws arbitrary: as u n)
  case Nil
  then obtain k where k: "map_option (map_prod text_of id) k = rd"
    "parseredirs n (Exec []) u = Inr (wrap k (Exec []), \<lparr>ps = r, mused = mused u + rd_cost rd\<rparr>)"
    using redirs_opt [of u rd r n] by (auto simp: words_text_def)
  moreover obtain n' where "n = Suc n'"
    using Nil.prems(7) by (cases n) auto
  ultimately show ?case
    using args_end [OF Nil.prems(2), of n' as]
    by (simp add: bind_def put_args_wrap map_wrap del: parseargs.simps parseredirs.simps)
next
  case (Cons w ws)
  let ?R = "words_text ws @ rd_text rd @ r" and ?u = "u\<lparr>ps := words_text ws @ rd_text rd @ r\<rparr>"
  obtain n' where n: "n = Suc n'"
    using Cons.prems(7) by (cases n) auto
  have p: "ps u = w @ '' '' @ ?R" and w: "word_ok w" "list_all word_ok ws"
    using Cons.prems(1,4) by (simp_all add: words_text_def)
  have f: "noblank (ps u)" "ps u \<noteq> []" "hd (ps u) \<notin> set symbols"
    using p word_noblank [OF w(1)] word_first [OF w(1)] by auto
  have 1: "parseredirs n (Exec []) u = Inr (Exec [], u)"
    using f unfolding n by (intro redirs_none) (auto simp: symbols_def)
  have 2: "peek ''|)&;'' u = Inr (False, u)"
    using f by (subst peek_at) (auto simp: symbols_def)
  have 3: "gettoken u = Inr ((CHR ''a'', (ps u, '' '' @ ?R)), ?u)"
    using p w words_noblank [OF w(2) Cons.prems(2)] by (intro gettoken_word) auto
  have t: "text_of (ps u, '' '' @ ?R) = w"
    using p by (simp add: text_of_def)
  obtain c where c: "bind (parseredirs n' (Exec [])) (parseargs n' (as @ [(ps u, '' '' @ ?R)])) ?u =
      Inr (c, \<lparr>ps = r, mused = mused u + rd_cost rd\<rparr>)"
    "map_cmd text_of c = wrap rd (Exec (map text_of (as @ [(ps u, '' '' @ ?R)]) @ ws))"
    using Cons.IH [of ?u "as @ [(ps u, '' '' @ ?R)]" n'] Cons.prems(2,3,5,6,7) p w n by auto
  have "bind (parseredirs n (Exec [])) (parseargs n as) u =
      bind (parseredirs n' (Exec [])) (parseargs n' (as @ [(ps u, '' '' @ ?R)])) ?u"
    unfolding bind_def [of "parseredirs n (Exec [])"] 1
    using 2 3 Cons.prems(5) by (simp add: n bind_def [of "peek _"] bind_def [of gettoken])
  then show ?case
    using c t by auto
qed

subsection \<open>Levels of the grammar\<close>

text \<open>\<open>parses p k txt c r\<close>: with fuel for \<open>k\<close> levels, \<open>p\<close> reads \<open>txt\<close> as the command \<open>c\<close> and stops before \<open>r\<close>.\<close>

definition parses :: "(nat \<Rightarrow> (sh, pcmd) cm) \<Rightarrow> nat \<Rightarrow> string \<Rightarrow> string cmd \<Rightarrow> string \<Rightarrow> bool" where
  "parses p k txt c r \<longleftrightarrow>
     (\<forall>n u. ps u = txt @ r \<longrightarrow> 5 * length (ps u) + k \<le> n \<longrightarrow> mused u + cost c \<le> MAXN \<longrightarrow>
        (\<exists>c'. p n u = Inr (c', \<lparr>ps = r, mused = mused u + cost c\<rparr>) \<and> map_cmd text_of c' = c))"

lemma parsesD:
  assumes "parses p k txt c r" "ps u = txt @ r" "5 * length (ps u) + k \<le> n" "mused u + cost c \<le> MAXN"
  obtains c' where "p n u = Inr (c', \<lparr>ps = r, mused = mused u + cost c\<rparr>)" "map_cmd text_of c' = c"
  using assms unfolding parses_def by metis

lemma parsesI:
  assumes "\<And>n u. ps u = txt @ r \<Longrightarrow> 5 * length (ps u) + k \<le> Suc n \<Longrightarrow> mused u + cost c \<le> MAXN \<Longrightarrow>
      \<exists>c'. p (Suc n) u = Inr (c', \<lparr>ps = r, mused = mused u + cost c\<rparr>) \<and> map_cmd text_of c' = c"
    and "0 < k"
  shows "parses p k txt c r"
  unfolding parses_def
proof (intro allI impI)
  fix n and u :: sh
  assume u: "ps u = txt @ r" "5 * length (ps u) + k \<le> n" "mused u + cost c \<le> MAXN"
  then obtain n' where "n = Suc n'"
    using assms(2) by (cases n) auto
  then show "\<exists>c'. p n u = Inr (c', \<lparr>ps = r, mused = mused u + cost c\<rparr>) \<and> map_cmd text_of c' = c"
    using assms(1) u by blast
qed

lemma cost_wrap: "cost (wrap rd c) = cost c + rd_cost rd"
  by (simp add: wrap_def rd_cost_def split: option.split)

lemma exec_words:
  assumes "writable (Exec ws)" "rd_ok rd" "stop r"
  shows "parses parseexec 3 (words_text ws @ rd_text rd) (wrap rd (Exec ws)) r"
proof (rule parsesI)
  fix n and u :: sh
  assume u: "ps u = (words_text ws @ rd_text rd) @ r" "5 * length (ps u) + 3 \<le> Suc n"
    "mused u + cost (wrap rd (Exec ws)) \<le> MAXN"
  have nb: "noblank (ps u)"
    using u(1) assms words_noblank by simp
  have "hd (ps u) \<noteq> CHR ''(''" if "ps u \<noteq> []"
  proof (cases ws)
    case Nil
    then show ?thesis
      using that u(1) assms(3) by (cases rd) (auto simp: words_text_def rd_text_def redir_text_def stop_def split: if_splits)
  next
    case (Cons w ws')
    then show ?thesis
      using u(1) assms(1) word_first [of w] by (auto simp: words_text_def symbols_def)
  qed
  then have p: "peek ''('' u = Inr (False, u)"
    using nb by (auto simp: peek_at)
  let ?u = "u\<lparr>mused := mused u + sizeof_execcmd\<rparr>"
  have e: "execcmd u = Inr ((), ?u)"
    using u(3) by (simp add: execcmd_def malloc1_at cost_wrap)
  obtain c where "bind (parseredirs n (Exec [])) (parseargs n []) ?u =
      Inr (c, \<lparr>ps = r, mused = mused ?u + rd_cost rd\<rparr>)" "map_cmd text_of c = wrap rd (Exec (map text_of [] @ ws))"
    using words_loop [of ?u ws rd r "[]" n] assms u by (auto simp: cost_wrap)
  then show "\<exists>c'. parseexec (Suc n) u = Inr (c', \<lparr>ps = r, mused = mused u + cost (wrap rd (Exec ws))\<rparr>) \<and>
      map_cmd text_of c' = wrap rd (Exec ws)"
    using p e by (simp add: bind_def [of "peek _"] andthen_def bind_def [of execcmd] cost_wrap add.assoc)
qed simp

lemma rd_noblank: "stop r \<Longrightarrow> noblank (rd_text rd @ r)"
  using words_noblank [of "[]" r rd] by (simp add: words_text_def)

lemma exec_block:
  assumes l: "\<And>r'. parses parseline 5 txt c (CHR '')'' # r')" and nb: "\<And>r'. noblank (txt @ CHR '')'' # r')"
    and "rd_ok rd" "stop r"
  shows "parses parseexec 3 ((''('' @ txt @ '')'') @ rd_text rd) (wrap rd c) r"
proof (rule parsesI)
  fix n and u :: sh
  assume u: "ps u = ((''('' @ txt @ '')'') @ rd_text rd) @ r" "5 * length (ps u) + 3 \<le> Suc n"
    "mused u + cost (wrap rd c) \<le> MAXN"
  obtain n' where n: "n = Suc n'"
    using u(2) by (cases n) auto
  let ?r = "rd_text rd @ r" and ?u1 = "u\<lparr>ps := txt @ CHR '')'' # rd_text rd @ r\<rparr>"
  have open_p: "peek ''('' u = Inr (True, u)" "gettoken u = Inr ((CHR ''('', (ps u, ps ?u1)), ?u1)"
    using u(1) nb [of ?r] gettoken_symbol [of u "CHR ''(''" "ps ?u1"]
    by (simp_all add: peek_at noblank_def is_ws_def whitespace_def symbols_def)
  obtain c' where c': "parseline n' ?u1 = Inr (c', \<lparr>ps = CHR '')'' # ?r, mused = mused u + cost c\<rparr>)"
    "map_cmd text_of c' = c"
    using parsesD [OF l, of ?u1 ?r n'] u n by (auto simp: cost_wrap)
  let ?u2 = "\<lparr>ps = CHR '')'' # ?r, mused = mused u + cost c\<rparr>"
  have close_p: "peek '')'' ?u2 = Inr (True, ?u2)"
    "gettoken ?u2 = Inr ((CHR '')'', (ps ?u2, ?r)), \<lparr>ps = ?r, mused = mused u + cost c\<rparr>)"
    using rd_noblank [OF assms(4)] gettoken_symbol [of ?u2 "CHR '')''" ?r]
    by (simp_all add: peek_at noblank_def is_ws_def whitespace_def symbols_def)
  obtain k where k: "map_option (map_prod text_of id) k = rd"
    "parseredirs n' c' \<lparr>ps = ?r, mused = mused u + cost c\<rparr> =
      Inr (wrap k c', \<lparr>ps = r, mused = mused u + cost c + rd_cost rd\<rparr>)"
    using redirs_opt [of "\<lparr>ps = ?r, mused = mused u + cost c\<rparr>" rd r n' c'] assms(3,4) u n
    by (auto simp: cost_wrap)
  have "parseexec (Suc n) u = Inr (wrap k c', \<lparr>ps = r, mused = mused u + cost c + rd_cost rd\<rparr>)"
    using open_p c'(1) close_p k(2)
    by (simp add: n bind_def [of "peek _"] andthen_def bind_def [of gettoken] bind_def [of "parseline n'"])
  then show "\<exists>c'. parseexec (Suc n) u = Inr (c', \<lparr>ps = r, mused = mused u + cost (wrap rd c)\<rparr>) \<and>
      map_cmd text_of c' = wrap rd c"
    using k(1) c'(2) by (auto simp: cost_wrap map_wrap add.assoc)
qed simp

lemma symbol_step:
  assumes "c \<in> set ''|&;''" "noblank r"
  shows "gettoken \<lparr>ps = c # r, mused = m\<rparr> = Inr ((c, (c # r, r)), \<lparr>ps = r, mused = m\<rparr>)"
    "peek toks \<lparr>ps = c # r, mused = m\<rparr> = Inr (c \<in> set toks, \<lparr>ps = c # r, mused = m\<rparr>)"
proof -
  have c: "c \<in> set symbols" "c \<noteq> CHR ''>''"
    using assms(1) by (auto simp: symbols_def)
  show "gettoken \<lparr>ps = c # r, mused = m\<rparr> = Inr ((c, (c # r, r)), \<lparr>ps = r, mused = m\<rparr>)"
    using gettoken_symbol [of "\<lparr>ps = c # r, mused = m\<rparr>" c r] c assms(2) by simp
  show "peek toks \<lparr>ps = c # r, mused = m\<rparr> = Inr (c \<in> set toks, \<lparr>ps = c # r, mused = m\<rparr>)"
    using symbol_not_ws [OF c(1)] by (simp add: peek_at noblank_def)
qed

lemma peek_not:
  "stop r \<Longrightarrow> (r \<noteq> [] \<Longrightarrow> hd r \<notin> set toks) \<Longrightarrow> peek toks \<lparr>ps = r, mused = m\<rparr> = Inr (False, \<lparr>ps = r, mused = m\<rparr>)"
  using stop_noblank by (auto simp: peek_at)

lemma pipe_one:
  assumes "parses parseexec 3 txt c r" "stop r" "r \<noteq> [] \<Longrightarrow> hd r \<noteq> CHR ''|''"
  shows "parses parsepipe 4 txt c r"
proof (rule parsesI)
  fix n and u :: sh
  assume u: "ps u = txt @ r" "5 * length (ps u) + 4 \<le> Suc n" "mused u + cost c \<le> MAXN"
  then obtain c' where "parseexec n u = Inr (c', \<lparr>ps = r, mused = mused u + cost c\<rparr>)" "map_cmd text_of c' = c"
    using parsesD [OF assms(1), of u n] by auto
  then show "\<exists>c'. parsepipe (Suc n) u = Inr (c', \<lparr>ps = r, mused = mused u + cost c\<rparr>) \<and> map_cmd text_of c' = c"
    using peek_not [OF assms(2)] assms(3) by (simp add: bind_def ret_def)
qed simp

lemma pipe_two:
  assumes "parses parseexec 3 t1 l (CHR ''|'' # t2 @ r)" "parses parsepipe 4 t2 c r" "noblank (t2 @ r)"
  shows "parses parsepipe 4 (t1 @ ''|'' @ t2) (Pipe l c) r"
proof (rule parsesI)
  fix n and u :: sh
  assume u: "ps u = (t1 @ ''|'' @ t2) @ r" "5 * length (ps u) + 4 \<le> Suc n" "mused u + cost (Pipe l c) \<le> MAXN"
  let ?m = "mused u + cost l"
  obtain l' where l': "parseexec n u = Inr (l', \<lparr>ps = CHR ''|'' # t2 @ r, mused = ?m\<rparr>)" "map_cmd text_of l' = l"
    using parsesD [OF assms(1), of u n] u by auto
  obtain c' where c': "parsepipe n \<lparr>ps = t2 @ r, mused = ?m\<rparr> = Inr (c', \<lparr>ps = r, mused = ?m + cost c\<rparr>)"
    "map_cmd text_of c' = c"
    using parsesD [OF assms(2), of "\<lparr>ps = t2 @ r, mused = ?m\<rparr>" n] u by auto
  show "\<exists>c'. parsepipe (Suc n) u = Inr (c', \<lparr>ps = r, mused = mused u + cost (Pipe l c)\<rparr>) \<and>
      map_cmd text_of c' = Pipe l c"
    using l' c' u(3) symbol_step [where c = "CHR ''|''" and r = "t2 @ r" and m = ?m] assms(3)
    by (simp add: bind_def andthen_def pipecmd_def malloc1_at ret_def)
qed simp

definition eol :: "string \<Rightarrow> bool" where
  "eol r \<longleftrightarrow> r = [] \<or> hd r = CHR '')''"

lemma eol_stop: "eol r \<Longrightarrow> stop r"
  by (auto simp: eol_def stop_def)

lemma backs_none:
  "stop r \<Longrightarrow> (r \<noteq> [] \<Longrightarrow> hd r \<noteq> CHR ''&'') \<Longrightarrow>
     parsebacks (Suc n) c \<lparr>ps = r, mused = m\<rparr> = Inr (c, \<lparr>ps = r, mused = m\<rparr>)"
  using peek_not [of r "''&''"] by (simp add: bind_def ret_def)

lemma line_one:
  assumes "parses parsepipe 4 txt c r" "eol r"
  shows "parses parseline 5 txt c r"
proof (rule parsesI)
  fix n and u :: sh
  assume u: "ps u = txt @ r" "5 * length (ps u) + 5 \<le> Suc n" "mused u + cost c \<le> MAXN"
  let ?v = "\<lparr>ps = r, mused = mused u + cost c\<rparr>"
  obtain n' where n: "n = Suc n'"
    using u(2) by (cases n) auto
  obtain c' where c': "parsepipe n u = Inr (c', ?v)" "map_cmd text_of c' = c"
    using parsesD [OF assms(1) u(1), of n] u by auto
  have "parsebacks n c' ?v = Inr (c', ?v)" "peek '';'' ?v = Inr (False, ?v)"
    unfolding n using assms(2) eol_stop by (intro backs_none peek_not; auto simp: eol_def)+
  then show "\<exists>c'. parseline (Suc n) u = Inr (c', ?v) \<and> map_cmd text_of c' = c"
    using c' by (simp add: bind_def ret_def)
qed simp

lemma line_back:
  assumes "parses parsepipe 4 txt c (CHR ''&'' # r)" "eol r"
  shows "parses parseline 5 (txt @ ''&'') (Back c) r"
proof (rule parsesI)
  fix n and u :: sh
  assume u: "ps u = (txt @ ''&'') @ r" "5 * length (ps u) + 5 \<le> Suc n" "mused u + cost (Back c) \<le> MAXN"
  let ?m = "mused u + cost c"
  let ?v = "\<lparr>ps = r, mused = ?m + sizeof_backcmd\<rparr>"
  obtain n' where n: "n = Suc (Suc n')"
    using u(1,2) by (cases n; cases "n - 1") auto
  obtain c' where c': "parsepipe n u = Inr (c', \<lparr>ps = CHR ''&'' # r, mused = ?m\<rparr>)" "map_cmd text_of c' = c"
    using parsesD [OF assms(1), of u n] u by auto
  have e: "parsebacks (Suc n') (Back c') ?v = Inr (Back c', ?v)" "peek '';'' ?v = Inr (False, ?v)"
    using assms(2) eol_stop by (intro backs_none peek_not; auto simp: eol_def)+
  have "parsebacks n c' \<lparr>ps = CHR ''&'' # r, mused = ?m\<rparr> = Inr (Back c', ?v)"
    using e(1) u(3) symbol_step [where c = "CHR ''&''" and r = r and m = ?m] stop_noblank [OF eol_stop [OF assms(2)]]
    unfolding n parsebacks.simps(2) [of "Suc n'"]
    by (simp add: bind_def andthen_def backcmd_def malloc1_at ret_def del: parsebacks.simps)
  then show "\<exists>c'. parseline (Suc n) u = Inr (c', \<lparr>ps = r, mused = mused u + cost (Back c)\<rparr>) \<and>
      map_cmd text_of c' = Back c"
    using c' e(2) by (simp add: bind_def ret_def add.assoc)
qed simp

lemma line_list:
  assumes "parses parsepipe 4 t1 l (CHR '';'' # t2 @ r)" "parses parseline 5 t2 c r" "noblank (t2 @ r)"
  shows "parses parseline 5 (t1 @ '';'' @ t2) (List l c) r"
proof (rule parsesI)
  fix n and u :: sh
  assume u: "ps u = (t1 @ '';'' @ t2) @ r" "5 * length (ps u) + 5 \<le> Suc n" "mused u + cost (List l c) \<le> MAXN"
  let ?m = "mused u + cost l"
  let ?v = "\<lparr>ps = CHR '';'' # t2 @ r, mused = ?m\<rparr>"
  obtain n' where n: "n = Suc n'"
    using u(2) by (cases n) auto
  obtain l' where l': "parsepipe n u = Inr (l', ?v)" "map_cmd text_of l' = l"
    using parsesD [OF assms(1), of u n] u by auto
  obtain c' where c': "parseline n \<lparr>ps = t2 @ r, mused = ?m\<rparr> = Inr (c', \<lparr>ps = r, mused = ?m + cost c\<rparr>)"
    "map_cmd text_of c' = c"
    using parsesD [OF assms(2), of "\<lparr>ps = t2 @ r, mused = ?m\<rparr>" n] u by auto
  have b: "parsebacks n l' ?v = Inr (l', ?v)"
    unfolding n by (rule backs_none) (auto simp: stop_def)
  show "\<exists>c'. parseline (Suc n) u = Inr (c', \<lparr>ps = r, mused = mused u + cost (List l c)\<rparr>) \<and>
      map_cmd text_of c' = List l c"
    using l' c' b u(3) symbol_step [where c = "CHR '';''" and r = "t2 @ r" and m = ?m] assms(3)
    by (simp add: bind_def andthen_def listcmd_def malloc1_at ret_def)
qed simp

lemma noblank_symbol: "noblank (CHR ''('' # p)" "noblank (CHR ''|'' # p)" "noblank (CHR '';'' # p)"
  "noblank (CHR ''&'' # p)" "noblank (CHR '')'' # p)"
  by (simp_all add: noblank_def is_ws_def whitespace_def)

lemma text_noblank:
  "writable c \<Longrightarrow> noblank r \<Longrightarrow> noblank (render c @ r) \<and> noblank (atom c @ r)"
proof (induction c arbitrary: r)
  case (Exec ws)
  then show ?case
    by (cases ws) (auto simp: words_text_def word_noblank)
next
  case (Redir c f md fd)
  then show ?case
    using redir_text_noblank by (simp add: noblank_symbol)
qed (simp_all add: noblank_symbol)

lemma block_level:
  assumes "\<And>r. eol r \<Longrightarrow> parses parseline 5 (render c) c r" "writable c" "stop r" "rd_ok rd"
  shows "parses parseexec 3 ((''('' @ render c @ '')'') @ rd_text rd) (wrap rd c) r"
  using assms text_noblank by (intro exec_block) (auto simp: eol_def noblank_symbol)

definition levels :: "string cmd \<Rightarrow> bool" where
  "levels c \<longleftrightarrow> (\<forall>r. eol r \<longrightarrow> parses parseline 5 (render c) c r) \<and>
     (\<forall>r rd. stop r \<longrightarrow> rd_ok rd \<longrightarrow> parses parseexec 3 (atom c @ rd_text rd) (wrap rd c) r)"

lemma levels_atom: "levels c \<Longrightarrow> stop r \<Longrightarrow> parses parseexec 3 (atom c) c r"
proof -
  assume l: "levels c" and r: "stop r"
  have "parses parseexec 3 (atom c @ rd_text None) (wrap None c) r"
    using l r unfolding levels_def by (metis (no_types) rd_ok_def option.simps(4))
  then show ?thesis
    by (simp add: rd_text_def wrap_def)
qed

lemma levels_pipe:
  "levels c \<Longrightarrow> stop r \<Longrightarrow> (r \<noteq> [] \<Longrightarrow> hd r \<noteq> CHR ''|'') \<Longrightarrow> parses parsepipe 4 (atom c) c r"
  using levels_atom pipe_one by blast

lemma levelsI:
  assumes "\<And>r. eol r \<Longrightarrow> parses parseline 5 (render c) c r" "writable c" "atom c = ''('' @ render c @ '')''"
  shows "levels c"
  using assms block_level [OF assms(1,2)] unfolding levels_def by metis

lemma eol_not: "eol r \<Longrightarrow> r \<noteq> [] \<Longrightarrow> hd r \<noteq> CHR ''|''"
  by (auto simp: eol_def)

lemma render_levels: "writable c \<Longrightarrow> levels c"
proof (induction c)
  case (Exec ws)
  have "parses parsepipe 4 (words_text ws) (Exec ws) r" if "eol r" for r
    using exec_words [OF Exec, of None r] that eol_stop eol_not
    by (intro pipe_one) (auto simp: rd_text_def rd_ok_def wrap_def)
  then show ?case
    using exec_words [OF Exec] line_one by (simp add: levels_def)
next
  case (Redir c f md fd)
  then have l: "levels c" and f: "word_ok f" "fd = redir_fd md"
    by auto
  have "parses parseline 5 (render (Redir c f md fd)) (Redir c f md fd) r" if r: "eol r" for r
  proof -
    have "parses parseexec 3 (atom c @ rd_text (Some (f, md))) (wrap (Some (f, md)) c) r"
      using l f eol_stop [OF r] by (simp add: levels_def rd_ok_def)
    then show ?thesis
      using f(2) r eol_stop eol_not by (intro line_one pipe_one) (auto simp: rd_text_def wrap_def)
  qed
  then show ?case
    using Redir.prems by (intro levelsI) simp_all
next
  case (Pipe l c)
  then have lv: "levels l" "levels c" "writable c"
    by auto
  have "parses parseline 5 (render (Pipe l c)) (Pipe l c) r" if r: "eol r" for r
  proof -
    have "parses parseexec 3 (atom l) l (CHR ''|'' # atom c @ r)"
      using lv(1) by (rule levels_atom) (simp add: stop_def)
    then show ?thesis
      using pipe_two levels_pipe [OF lv(2)] text_noblank [OF lv(3)] eol_stop [OF r] stop_noblank eol_not [OF r]
        line_one [OF _ r] by simp
  qed
  then show ?case
    using Pipe.prems by (intro levelsI) simp_all
next
  case (List l c)
  then have lv: "levels l" "levels c" "writable c"
    by auto
  have "parses parseline 5 (render (List l c)) (List l c) r" if r: "eol r" for r
  proof -
    have "parses parsepipe 4 (atom l) l (CHR '';'' # atom c @ r)"
      using lv(1) by (rule levels_pipe) (simp_all add: stop_def)
    moreover have "parses parseline 5 (atom c) c r"
      using levels_pipe [OF lv(2)] eol_stop [OF r] eol_not [OF r] line_one [OF _ r] by simp
    ultimately show ?thesis
      using line_list text_noblank [OF lv(3)] eol_stop [OF r] stop_noblank by simp
  qed
  then show ?case
    using List.prems by (intro levelsI) simp_all
next
  case (Back c)
  then have lv: "levels c"
    by auto
  have "parses parseline 5 (render (Back c)) (Back c) r" if r: "eol r" for r
    using line_back [OF levels_pipe [OF lv] r] by (simp add: stop_def)
  then show ?case
    using Back.prems by (intro levelsI) simp_all
qed

lemma words_no_nul: "list_all word_ok ws \<Longrightarrow> CHR 0x00 \<notin> set (words_text ws)"
  by (auto simp: words_text_def word_ok_def list_all_iff)

lemma text_no_nul: "writable c \<Longrightarrow> CHR 0x00 \<notin> set (render c) \<and> CHR 0x00 \<notin> set (atom c)"
  by (induction c) (auto simp: words_no_nul redir_text_def word_ok_def)

section \<open>Claims\<close>

text \<open>
  C27. The parser always ends: on every line \<^verbatim>\<open>parsecmd\<close> returns a command or exits with a message.
\<close>

theorem parsecmd_terminates:
  "(\<exists>c buf m'. parsecmd s m = Inr (c, buf, m')) \<or> (\<exists>msg. parsecmd s m = Inl (Panic msg))"
proof (cases "parsecmd s m")
  case (Inl e)
  then show ?thesis
    using parsecmd_outcome [of s m] by (cases e) auto
next
  case (Inr x)
  then show ?thesis
    by (cases x) auto
qed

text \<open>
  C17. After \<^verbatim>\<open>parsecmd\<close> every argument and file name of the command is a nonempty zero-terminated string in the
  line buffer: exactly the word it was parsed from, although the zeros of other words were written too.
\<close>

theorem parsecmd_strings:
  assumes "parsecmd s m = Inr (c, buf, m')" "CHR 0x00 \<notin> set s" "k \<in> set_cmd c"
  shows "cstring_at buf (length s - length (fst k)) = text_of k \<and> word_ok (text_of k) \<and> suffix (fst k) s \<and>
    fst k = text_of k @ snd k"
proof -
  have p: "buf = nulterminate c (s @ [CHR 0x00])" "\<forall>k\<in>set_cmd c. tok_ok s k"
    using parsecmd_outcome [of s m] assms(1) by auto
  obtain w where w: "fst k = w @ snd k" "w \<noteq> []" "list_all is_word w" "suffix (fst k) s"
    using p(2) assms(3) unfolding tok_ok_def by metis
  then have "text_of k = w"
    by (simp add: text_of_def)
  moreover have "CHR 0x00 \<notin> set w"
    using w(1,4) assms(2) by (auto simp: suffix_def)
  ultimately show ?thesis
    using terminated_string [OF assms(3) p(2) assms(2)] p(1) w by (simp add: word_ok_def)
qed

lemma redirect_line: "parsecmd ''ls>f'' 0 =
    Inr (Redir (Exec [(''ls>f'', ''>f'')]) (''f'', []) WRONLY_CREAT 1, ''ls'' @ [CHR 0x00] @ ''f'' @ [CHR 0x00], 208)"
  by code_simp

theorem parsecmd_strings_witness:
  "parsecmd ''ls>f'' 0 =
     Inr (Redir (Exec [(''ls>f'', ''>f'')]) (''f'', []) WRONLY_CREAT 1, ''ls'' @ [CHR 0x00] @ ''f'' @ [CHR 0x00], 208) \<and>
   cstring_at (''ls'' @ [CHR 0x00] @ ''f'' @ [CHR 0x00]) 0 = ''ls''"
  using parsecmd_strings [OF redirect_line, of "(''ls>f'', ''>f'')"] redirect_line by (simp add: text_of_def)

text \<open>
  C12. Writing a command down and parsing the text gives the command back, with every word as a terminated string
  in the buffer, and takes the memory of its parts.
\<close>

theorem parse_render:
  assumes "writable c" "m + cost c \<le> MAXN"
  shows "\<exists>c' buf. parsecmd (render c) m = Inr (c', buf, m + cost c) \<and>
    map_cmd (\<lambda>k. cstring_at buf (length (render c) - length (fst k))) c' = c"
proof -
  let ?s = "render c"
  have "parses parseline 5 ?s c []"
    using render_levels [OF assms(1)] by (simp add: levels_def eol_def)
  then obtain c' where c': "parseline (parse_fuel ?s) \<lparr>ps = ?s, mused = m\<rparr> = Inr (c', \<lparr>ps = [], mused = m + cost c\<rparr>)"
    "map_cmd text_of c' = c"
    using parsesD [of parseline 5 ?s c "[]" "\<lparr>ps = ?s, mused = m\<rparr>" "parse_fuel ?s"] assms(2)
    by (auto simp: parse_fuel_def)
  then have r: "parsecmd ?s m = Inr (c', nulterminate c' (?s @ [CHR 0x00]), m + cost c)"
    by (simp add: parsecmd_def bind_def andthen_def peek_def modify_def gets_def guard_cm_def ret_def)
  then have "\<forall>k\<in>set_cmd c'. tok_ok ?s k"
    using parsecmd_outcome [of ?s m] by auto
  then have "map_cmd (\<lambda>k. cstring_at (nulterminate c' (?s @ [CHR 0x00])) (length ?s - length (fst k))) c' = map_cmd text_of c'"
    using terminated_string [of _ c' ?s] text_no_nul [OF assms(1)] by (intro cmd.map_cong) auto
  then show ?thesis
    using r c'(2) by auto
qed

theorem parse_render_witness:
  "writable (Pipe (Redir (Exec [''cat'']) ''f'' RDONLY 0) (Exec [''wc'', ''-l''])) \<and>
   render (Pipe (Redir (Exec [''cat'']) ''f'' RDONLY 0) (Exec [''wc'', ''-l''])) = ''(cat <f )|wc -l '' \<and>
   (\<exists>c' buf. parsecmd ''(cat <f )|wc -l '' 0 = Inr (c', buf, 400) \<and>
     map_cmd (\<lambda>k. cstring_at buf (16 - length (fst k))) c' =
       Pipe (Redir (Exec [''cat'']) ''f'' RDONLY 0) (Exec [''wc'', ''-l'']))"
proof -
  let ?c = "Pipe (Redir (Exec [''cat'']) ''f'' RDONLY 0) (Exec [''wc'', ''-l''])"
  have w: "writable ?c" "render ?c = ''(cat <f )|wc -l ''" "cost ?c = 400" "0 + cost ?c \<le> MAXN"
    by code_simp+
  have l: "length ''(cat <f )|wc -l '' = 16"
    by simp
  show ?thesis
    using parse_render [OF w(1,4)] w(1) unfolding w(2,3) l by simp
qed

end
