(* ===== verification/Container.thy ===== *)
theory Container
  imports Prelude
begin

text \<open>
  Process numbers (\<^verbatim>\<open>src/core/container.c\<close>): every container has a table of \<^verbatim>\<open>NPID\<close> numbers and hands the next one out
  when a process is created in it or in a container below it. Containers and processes are named by indices; a
  spinlock that is held already is the fault \<open>Blocked\<close>.
\<close>

definition NPID :: nat where "NPID = 64"

record pid_mapping =
  valid :: bool
  pid_local :: u32
  pm_proc :: nat

record container =
  clocked :: bool
  cparent :: nat
  sched_pid :: u32
  pmap :: "pid_mapping list"

text \<open>The loop of \<^verbatim>\<open>alloc_resource\<close> for \<^verbatim>\<open>PID\<close>: the first free entry of the table, if there is one.\<close>

fun free_pid :: "nat \<Rightarrow> pid_mapping list \<Rightarrow> nat option" where
  "free_pid i [] = None"
| "free_pid i (m # ms) = (if \<not> valid m then Some i else free_pid (Suc i) ms)"

definition take_pid :: "nat \<Rightarrow> container \<Rightarrow> container" where
  "take_pid p c =
     (case free_pid 0 (pmap c) of
        Some i \<Rightarrow> c\<lparr>sched_pid := sched_pid c + 1,
                      pmap := (pmap c)[i := \<lparr>valid = True, pid_local = sched_pid c + 1, pm_proc = p\<rparr>]\<rparr>
      | None \<Rightarrow> c)"

definition unlocked_containers :: "container list \<Rightarrow> nat" where
  "unlocked_containers cs = length (filter (\<lambda>c. \<not> clocked c) cs)"

lemma unlocked_less:
  "c < length cs \<Longrightarrow> \<not> clocked (cs ! c) \<Longrightarrow> clocked x \<Longrightarrow> unlocked_containers (cs[c := x]) < unlocked_containers cs"
proof (induction cs arbitrary: c)
  case (Cons a cs)
  then show ?case
    by (cases c) (auto simp: unlocked_containers_def)
qed simp

lemma take_pid_locked: "clocked (take_pid p c) = clocked c"
  by (simp add: take_pid_def split: option.split)

function alloc_resource :: "nat \<Rightarrow> nat \<Rightarrow> container list \<Rightarrow> fault + u32 \<times> container list" where
  "alloc_resource c p cs =
     (if \<not> c < length cs then Inl BadAccess
      else if clocked (cs ! c) then Inl Blocked
      else
        let cs1 = cs[c := take_pid p ((cs ! c)\<lparr>clocked := True\<rparr>)];
            r = (if cparent (cs ! c) \<noteq> c then
                   (case alloc_resource (cparent (cs ! c)) p cs1 of Inl e \<Rightarrow> Inl e | Inr (_, cs2) \<Rightarrow> Inr cs2)
                 else Inr cs1)
        in case r of
             Inl e \<Rightarrow> Inl e
           | Inr cs2 \<Rightarrow> Inr (sched_pid (cs2 ! c), cs2[c := (cs2 ! c)\<lparr>clocked := False\<rparr>]))"
  by pat_completeness auto
termination
  by (relation "measure (\<lambda>(c, p, cs). unlocked_containers cs)") (auto intro!: unlocked_less simp: take_pid_locked)

declare alloc_resource.simps [simp del]

section \<open>Numbers of the root container\<close>

definition fresh_container :: container where
  "fresh_container = \<lparr>clocked = False, cparent = 0, sched_pid = 0,
     pmap = replicate NPID \<lparr>valid = False, pid_local = 0, pm_proc = 0\<rparr>\<rparr>"

text \<open>Creating processes one after the other, with the numbers they get.\<close>

fun alloc_pids :: "nat list \<Rightarrow> container list \<Rightarrow> fault + u32 list \<times> container list" where
  "alloc_pids [] cs = Inr ([], cs)"
| "alloc_pids (p # ps) cs =
     (case alloc_resource 0 p cs of
        Inl e \<Rightarrow> Inl e
      | Inr (n, cs') \<Rightarrow> (case alloc_pids ps cs' of Inl e \<Rightarrow> Inl e | Inr (ns, cs'') \<Rightarrow> Inr (n # ns, cs'')))"

text \<open>After \<open>k\<close> allocations: the first \<open>k\<close> entries are taken and the last number is \<open>k\<close>.\<close>

definition pids_used :: "nat \<Rightarrow> container \<Rightarrow> bool" where
  "pids_used k c \<longleftrightarrow> \<not> clocked c \<and> cparent c = 0 \<and> length (pmap c) = NPID \<and> k \<le> NPID \<and> sched_pid c = of_nat k \<and>
     (\<forall>i<NPID. valid (pmap c ! i) \<longleftrightarrow> i < k)"

lemma free_pid_least:
  "(\<And>i. i < length ms \<Longrightarrow> valid (ms ! i) \<longleftrightarrow> i < k) \<Longrightarrow>
     free_pid j ms = (if k < length ms then Some (j + k) else None)"
proof (induction ms arbitrary: j k)
  case (Cons m ms)
  show ?case
  proof (cases k)
    case 0
    then show ?thesis
      using Cons.prems [of 0] by simp
  next
    case (Suc k')
    have "free_pid (Suc j) ms = (if k' < length ms then Some (Suc j + k') else None)"
      using Cons.prems [of "Suc _"] Suc by (intro Cons.IH) auto
    then show ?thesis
      using Cons.prems [of 0] Suc by simp
  qed
qed simp

lemma alloc_resource_root:
  assumes "pids_used k c"
  shows "\<exists>c'. alloc_resource 0 p [c] = Inr (of_nat (min (Suc k) NPID), [c']) \<and> pids_used (min (Suc k) NPID) c'"
proof -
  have f: "free_pid 0 (pmap c) = (if k < NPID then Some k else None)"
    using assms free_pid_least [of "pmap c" k 0] by (simp add: pids_used_def)
  let ?c = "(take_pid p (c\<lparr>clocked := True\<rparr>))\<lparr>clocked := False\<rparr>"
  have "pids_used (min (Suc k) NPID) ?c \<and> sched_pid ?c = of_nat (min (Suc k) NPID)"
    using assms f by (auto simp: pids_used_def take_pid_def nth_list_update split: if_splits)
  moreover have "alloc_resource 0 p [c] = Inr (sched_pid ?c, [?c])"
    using assms by (simp add: alloc_resource.simps [of 0 p "[c]"] pids_used_def Let_def)
  ultimately show ?thesis
    by auto
qed

lemma alloc_pids_root:
  "pids_used k c \<Longrightarrow>
     \<exists>c'. alloc_pids ps [c] = Inr (map (\<lambda>i. of_nat (min (k + Suc i) NPID)) [0..<length ps], [c'])"
proof (induction ps arbitrary: k c)
  case (Cons p ps)
  obtain c' where c': "alloc_resource 0 p [c] = Inr (of_nat (min (Suc k) NPID), [c'])" "pids_used (min (Suc k) NPID) c'"
    using alloc_resource_root [OF Cons.prems] by blast
  obtain c'' where "alloc_pids ps [c'] =
      Inr (map (\<lambda>i. of_nat (min (min (Suc k) NPID + Suc i) NPID)) [0..<length ps], [c''])"
    using Cons.IH [OF c'(2)] by blast
  moreover have "map (\<lambda>i. of_nat (min (min (Suc k) NPID + Suc i) NPID)) [0..<length ps] =
      (map (\<lambda>i. of_nat (min (k + Suc (Suc i)) NPID)) [0..<length ps] :: u32 list)"
    by (simp add: min_def)
  moreover have "[0..<length (p # ps)] = 0 # map Suc [0..<length ps]"
    by (simp add: upt_conv_Cons map_Suc_upt del: upt_Suc)
  ultimately show ?case
    using c'(1) by (simp add: comp_def del: upt_Suc)
qed simp

section \<open>Claims\<close>

text \<open>
  C40. The processes created in a new root container get the numbers 1, 2, 3 and so on, all different, up to 64. Every
  later process gets the number 64 again: the table is never emptied, and when it is full the number is
  returned without being increased.
\<close>

theorem pids_run_out:
  "\<exists>c'. alloc_pids ps [fresh_container] = Inr (map (\<lambda>i. of_nat (min (Suc i) 64)) [0..<length ps], [c'])"
  using alloc_pids_root [of 0 fresh_container ps] by (simp add: pids_used_def fresh_container_def NPID_def)

end
