(* ===== verification/File.thy ===== *)
theory File
  imports Inode
begin

text \<open>
  Open files (\<^verbatim>\<open>src/fs/file.c\<close>). A \<^verbatim>\<open>struct file *\<close> is an index into the file table, the state of the inode layer is
  part of the state. The memory a file is written from is the list of bytes at \<^verbatim>\<open>addr\<close>, the bytes read are returned.
\<close>

section \<open>The file table\<close>

definition NFILE :: nat where "NFILE = 100"

datatype fdtype = FD_NONE | FD_PIPE | FD_INODE

record File =
  ftype :: fdtype
  ref :: u32
  readable :: bool
  writable :: bool
  pipe :: u64
  fip :: u64
  off :: usize

record 's fstate =
  tree :: "'s itree"
  ftable :: "File list"
  ft_locked :: bool

definition on_tree :: "('s itree, 'a) cm \<Rightarrow> ('s fstate, 'a) cm" where
  "on_tree m = (\<lambda>s. case m (tree s) of Inl e \<Rightarrow> Inl e | Inr (a, t) \<Rightarrow> Inr (a, s\<lparr>tree := t\<rparr>))"

definition upd_file :: "nat \<Rightarrow> (File \<Rightarrow> File) \<Rightarrow> ('s fstate, unit) cm" where
  "upd_file f u = modify (\<lambda>s. s\<lparr>ftable := (ftable s)[f := u (ftable s ! f)]\<rparr>)"

definition lock_ft :: "('s fstate, unit) cm" where
  "lock_ft = andthen (guard_cm Blocked (\<lambda>s. \<not> ft_locked s)) (modify (\<lambda>s. s\<lparr>ft_locked := True\<rparr>))"

definition unlock_ft :: "('s fstate, unit) cm" where
  "unlock_ft = andthen (guard_cm (Panic ''release: lock not held'') ft_locked) (modify (\<lambda>s. s\<lparr>ft_locked := False\<rparr>))"

definition fileinit :: "'s fstate \<Rightarrow> 's fstate" where
  "fileinit s = s\<lparr>ft_locked := False\<rparr>"

text \<open>The loop of \<^verbatim>\<open>filealloc\<close>: the first entry without references.\<close>

fun free_file :: "nat \<Rightarrow> File list \<Rightarrow> nat option" where
  "free_file i [] = None"
| "free_file i (f # fs) = (if ref f = 0 then Some i else free_file (Suc i) fs)"

definition filealloc :: "('s fstate, nat option) cm" where
  "filealloc =
     andthen lock_ft
     (bind (gets (\<lambda>s. free_file 0 (ftable s))) (\<lambda>r.
        case r of
          Some i \<Rightarrow> andthen (upd_file i (\<lambda>f. f\<lparr>ref := 1\<rparr>)) (andthen unlock_ft (ret (Some i)))
        | None \<Rightarrow> andthen unlock_ft (ret None)))"

definition filedup :: "nat \<Rightarrow> ('s fstate, nat) cm" where
  "filedup f =
     andthen lock_ft
     (andthen (guard_cm (Panic ''up a ref0 file'') (\<lambda>s. \<not> sint (ref (ftable s ! f)) < 1))
     (andthen (upd_file f (\<lambda>x. x\<lparr>ref := ref x + 1\<rparr>))
     (andthen unlock_ft
       (ret f))))"

text \<open>
  The part of \<^verbatim>\<open>fileclose\<close> under the lock, with the file that is to be given up if this was the last reference, and the
  whole function: giving up the inode may sleep.
\<close>

definition fileclose_ref :: "nat \<Rightarrow> ('s fstate, File option) cm" where
  "fileclose_ref f =
     andthen lock_ft
     (andthen (guard_cm (Panic ''close a ref0 file'') (\<lambda>s. \<not> sint (ref (ftable s ! f)) < 1))
     (andthen (upd_file f (\<lambda>x. x\<lparr>ref := ref x - 1\<rparr>))
     (bind (gets (\<lambda>s. ftable s ! f)) (\<lambda>ff.
        if sint (ref ff) > 0 then andthen unlock_ft (ret None)
        else
          andthen (upd_file f (\<lambda>x. x\<lparr>ref := 0, ftype := FD_NONE\<rparr>))
          (andthen unlock_ft (ret (Some ff)))))))"

definition fileclose :: "'s fs_env \<Rightarrow> SuperBlock \<Rightarrow> nat \<Rightarrow> ('s fstate, unit) cm" where
  "fileclose E sb f = bind (fileclose_ref f) (\<lambda>r.
     case r of
       None \<Rightarrow> ret ()
     | Some ff \<Rightarrow>
        if ftype ff = FD_INODE then
          andthen (on_tree (below (begin_op (cache E))))
          (andthen (on_tree (inode_put E sb True (fip ff)))
            (on_tree (below (end_op (cache E)))))
        else ret ())"

definition filestat :: "u32 \<Rightarrow> u32 \<Rightarrow> nat \<Rightarrow> ('s fstate, stat option) cm" where
  "filestat S_IFREG S_IFDIR f = bind (gets (\<lambda>s. ftable s ! f)) (\<lambda>x.
     if ftype x = FD_INODE then
       andthen (on_tree (inode_lock (fip x)))
       (bind (on_tree (stati S_IFREG S_IFDIR (fip x))) (\<lambda>st.
          andthen (on_tree (inode_unlock (fip x))) (ret (Some st))))
     else ret None)"

definition fileread :: "'s fs_env \<Rightarrow> nat \<Rightarrow> usize \<Rightarrow> ('s fstate, usize \<times> u8 list) cm" where
  "fileread E f n = bind (gets (\<lambda>s. ftable s ! f)) (\<lambda>x.
     if \<not> readable x then ret (- 1, [])
     else if ftype x = FD_INODE then
       andthen (on_tree (inode_lock (fip x)))
       (bind (on_tree (inode_read E (fip x) (off x) n)) (\<lambda>(sz, bs).
          andthen (if sz > 0 then upd_file f (\<lambda>y. y\<lparr>off := off y + sz\<rparr>) else ret ())
          (andthen (on_tree (inode_unlock (fip x)))
            (ret (sz, bs)))))
     else fail (Panic ''not inode''))"

text \<open>\<^verbatim>\<open>(OP_MAX_NUM_BLOCKS - 1 - 1 - 2) / 2 * 512\<close>\<close>

definition write_mx :: usize where
  "write_mx = word_of_int ((OP_MAX_NUM_BLOCKS - 1 - 1 - 2) div 2 * 512)"

definition write_n1 :: "usize \<Rightarrow> usize \<Rightarrow> usize" where
  "write_n1 n i = (if n - i > write_mx then write_mx else n - i)"

text \<open>One round of the loop of \<^verbatim>\<open>filewrite\<close>: it passes \<^verbatim>\<open>n\<close>, not \<^verbatim>\<open>n1\<close>, to the inode layer.\<close>

definition write_round :: "'s fs_env \<Rightarrow> SuperBlock \<Rightarrow> nat \<Rightarrow> u8 list \<Rightarrow> usize \<Rightarrow> usize \<Rightarrow> ('s fstate, usize) cm" where
  "write_round E sb f src n i = bind (gets (\<lambda>s. fip (ftable s ! f))) (\<lambda>ip.
     andthen (on_tree (below (begin_op (cache E))))
     (andthen (on_tree (inode_lock ip))
     (bind (gets (\<lambda>s. off (ftable s ! f))) (\<lambda>o1.
      bind (on_tree (inode_write E sb True ip (drop (unat i) src) o1 n)) (\<lambda>sz.
        andthen (if sz > 0 then upd_file f (\<lambda>y. y\<lparr>off := off y + sz\<rparr>) else ret ())
        (andthen (on_tree (inode_unlock ip))
        (andthen (on_tree (below (end_op (cache E))))
          (ret sz))))))))"

function filewrite_loop :: "'s fs_env \<Rightarrow> SuperBlock \<Rightarrow> nat \<Rightarrow> u8 list \<Rightarrow> usize \<Rightarrow> usize \<Rightarrow> ('s fstate, usize) cm" where
  "filewrite_loop E sb f src n i =
     (if i < n then
        bind (write_round E sb f src n i) (\<lambda>sz.
          if sz \<noteq> write_n1 n i then fail (Panic ''short filewrite'')
          else filewrite_loop E sb f src n (i + write_n1 n i))
      else ret i)"
  by pat_completeness auto
termination
proof (relation "measure (\<lambda>(E, sb, f, src, n, i). unat (n - i))", goal_cases)
  case (2 E sb f src n i)
  have "unat (n - (i + write_n1 n i)) < unat (n - i)"
  proof -
    have "write_n1 n i \<le> n - i" "write_n1 n i > 0"
      using 2(1) by (auto simp: write_n1_def write_mx_def OP_MAX_NUM_BLOCKS_def word_gt_0 not_less)
    then have "unat (n - i - write_n1 n i) < unat (n - i)"
      by (simp add: unat_minus_word word_le_nat_alt word_less_nat_alt)
    then show ?thesis
      by (simp add: diff_diff_eq)
  qed
  then show ?case
    by simp
qed simp

declare filewrite_loop.simps [simp del]

definition filewrite :: "'s fs_env \<Rightarrow> SuperBlock \<Rightarrow> nat \<Rightarrow> u8 list \<Rightarrow> usize \<Rightarrow> ('s fstate, usize) cm" where
  "filewrite E sb f src n = bind (gets (\<lambda>s. ftable s ! f)) (\<lambda>x.
     if \<not> writable x then ret (- 1)
     else if ftype x = FD_INODE then
       bind (filewrite_loop E sb f src n 0) (\<lambda>i. ret (if i = n then n else - 1))
     else fail (Panic ''not inode''))"

section \<open>Writes of more than one round\<close>

lemma inode_write_count:
  assumes "inode_write E sb ctx p src offset cnt t = Inr (r, t')" "itype (entry (itab t p)) \<noteq> INODE_DEVICE"
  shows "r = cnt"
  using assms by (auto simp: inode_write_def assert_cm_def cm_simps split: if_splits sum.splits prod.splits)

lemma on_tree_InrE:
  assumes "on_tree m s = Inr (r, s')"
  obtains t where "m (tree s) = Inr (r, t)" "s' = s\<lparr>tree := t\<rparr>"
  using assms by (auto simp: on_tree_def split: sum.splits)

lemma below_itab: "below m t = Inr (r, t') \<Longrightarrow> itab t' = itab t"
  by (auto simp: below_def split: sum.splits)

lemma inode_lock_entry: "inode_lock p t = Inr (r, t') \<Longrightarrow> entry (itab t' p) = entry (itab t p)"
  by (auto simp: inode_lock_def upd_inode_def assert_cm_def cm_simps split: if_splits)

lemma write_round_count:
  assumes "write_round E sb f src n i s = Inr (r, s')" "itype (entry (itab (tree s) (fip (ftable s ! f)))) \<noteq> INODE_DEVICE"
  shows "r = n"
  using assms(1) unfolding write_round_def andthen_def
  by (elim bind_InrE on_tree_InrE; simp only: gets_run ret_run sum.inject prod.inject)
    (use assms(2) in \<open>auto dest!: below_itab inode_lock_entry dest: inode_write_count\<close>)

text \<open>
  C38. A write of more than 1536 bytes to a file or directory never succeeds: \<^verbatim>\<open>filewrite\<close> asks the inode layer for all \<^verbatim>\<open>n\<close>
  bytes in its first round, gets more than it has counted on, and panics although the bytes have been written.
\<close>

theorem filewrite_large_panics:
  assumes "writable (ftable s ! f)" "ftype (ftable s ! f) = FD_INODE"
    and "itype (entry (itab (tree s) (fip (ftable s ! f)))) \<noteq> INODE_DEVICE" "n > write_mx"
  shows "(\<exists>e. filewrite E sb f src n s = Inl e) \<and>
    (\<forall>r s'. write_round E sb f src n 0 s = Inr (r, s') \<longrightarrow> filewrite E sb f src n s = Inl (Panic ''short filewrite''))"
proof -
  have "write_n1 n 0 = write_mx" "n > 0" "write_mx \<noteq> n"
    using assms(4) by (auto simp: write_n1_def intro: le_less_trans word_zero_le)
  then have "filewrite_loop E sb f src n 0 s =
      (case write_round E sb f src n 0 s of Inl e \<Rightarrow> Inl e | Inr (r, s') \<Rightarrow> Inl (Panic ''short filewrite''))"
    using write_round_count [OF _ assms(3)] unfolding filewrite_loop.simps [of E sb f src n 0]
    by (auto simp: cm_simps split: sum.split)
  then show ?thesis
    using assms(1,2) by (auto simp: filewrite_def cm_simps split: sum.split)
qed

text \<open>A block cache whose blocks hold nothing, and one open file on it.\<close>

definition no_cache :: "unit BlockCache" where
  "no_cache = \<lparr>acquire = (\<lambda>_. ret 0), release = (\<lambda>_. ret ()), begin_op = ret (), sync = (\<lambda>_ _. ret ()), end_op = ret (),
     alloc = (\<lambda>_. fail BadAccess), bfree = (\<lambda>_ _. ret ()), get_data = (\<lambda>_ _. []), set_data = (\<lambda>_ _ s. s)\<rparr>"

definition no_fs :: "unit fs_env" where
  "no_fs = \<lparr>cache = no_cache, ialloc = ret 0, ifree = (\<lambda>_. ret ()), con_read = (\<lambda>_ _. ret (0, [])), con_write = (\<lambda>_ _ _. ret 0)\<rparr>"

definition no_super :: SuperBlock where
  "no_super = \<lparr>num_blocks = 0, num_data_blocks = 0, num_inodes = 0, num_log_blocks = 0, log_start = 0, inode_start = 0, bitmap_start = 0\<rparr>"

definition one_file :: "unit fstate" where
  "one_file =
     \<lparr>tree = \<lparr>base = (), itab = (\<lambda>_. \<lparr>ilock = False, irc = init_rc\<lparr>count := 1\<rparr>, inode_no = 2, ivalid = True,
          entry = zero_entry\<lparr>itype := INODE_REGULAR, num_bytes := 4096, addrs := replicate INODE_NUM_DIRECT 1\<rparr>\<rparr>),
        ilist = [1], tree_locked = False, root = 1\<rparr>,
      ftable = [\<lparr>ftype = FD_INODE, ref = 1, readable = True, writable = True, pipe = 0, fip = 1, off = 0\<rparr>], ft_locked = False\<rparr>"

lemma one_file_round: "\<exists>r s'. write_round no_fs no_super 0 (replicate 1537 0) 1537 0 one_file = Inr (r, s')"
  by (simp add: write_round_def one_file_def no_fs_def no_cache_def on_tree_def below_def inode_lock_def inode_unlock_def assert_cm_def
      upd_inode_def inode_write_def write_loop.simps inode_map_def chunk_def block_data_def set_block_def BLOCK_SIZE_def
      INODE_NUM_DIRECT_def INODE_MAX_BYTES_def INODE_MAX_BLOCKS_def INODE_NUM_INDIRECT_def INODE_REGULAR_def INODE_DEVICE_def zero_entry_def init_rc_def upd_file_def cm_simps)

theorem filewrite_large_panics_witness:
  "filewrite no_fs no_super 0 (replicate 1537 0) 1537 one_file = Inl (Panic ''short filewrite'')"
proof -
  have "writable (ftable one_file ! 0)" "ftype (ftable one_file ! 0) = FD_INODE"
    "itype (entry (itab (tree one_file) (fip (ftable one_file ! 0)))) \<noteq> INODE_DEVICE" "1537 > write_mx"
    by (simp_all add: one_file_def INODE_REGULAR_def INODE_DEVICE_def write_mx_def OP_MAX_NUM_BLOCKS_def)
  then show ?thesis
    using filewrite_large_panics [of one_file 0 1537 no_fs no_super "replicate 1537 0"] one_file_round by blast
qed

end
