(* ===== verification/VirtMem.thy ===== *)
theory VirtMem
  imports PhysMem
begin

text \<open>
  User page tables (\<^verbatim>\<open>src/core/virtual_memory.c\<close>, with the constants of \<^verbatim>\<open>src/aarch64/mmu.h\<close>): four levels
  of tables of 512 entries that live in pages of the byte memory and come from \<^verbatim>\<open>kalloc\<close>. The theory has
  the walk, mapping, unmapping, growing, copying and freeing of an address space, the invariant of the
  tree of tables, and what the walk and the mapping do to the translation of every address.
\<close>

section \<open>Entries\<close>

definition PTE_VALID :: u64 where "PTE_VALID = 0x1"

definition PTE_TABLE :: u64 where "PTE_TABLE = 0x3"

definition PTE_PAGE :: u64 where "PTE_PAGE = 0x3"

definition PTE_USER :: u64 where "PTE_USER = push_bit 6 1"

definition MT_NORMAL :: u64 where "MT_NORMAL = 0x1"

definition SH_OUTER :: u64 where "SH_OUTER = push_bit 8 2"

definition AF_USED :: u64 where "AF_USED = push_bit 10 1"

definition PTE_NORMAL :: u64 where "PTE_NORMAL = push_bit 2 MT_NORMAL OR AF_USED OR SH_OUTER"

definition PTE_USER_DATA :: u64 where "PTE_USER_DATA = PTE_USER OR PTE_NORMAL OR PTE_PAGE"

text \<open>\<^verbatim>\<open>~0xFFFu\<close> is a 32-bit constant: the address of an entry is cut to 32 bits.\<close>

definition PTE_ADDRESS :: "u64 \<Rightarrow> u64" where
  "PTE_ADDRESS pte = pte AND ucast (NOT (0xFFF :: u32))"

definition PTE_FLAGS :: "u64 \<Rightarrow> u64" where
  "PTE_FLAGS pte = pte AND 0xFFF"

definition N_PTE_PER_TABLE :: nat where "N_PTE_PER_TABLE = 512"

definition PGSIZE :: u64 where "PGSIZE = 4096"

definition PGSHIFT :: nat where "PGSHIFT = 12"

definition PXMASK :: u64 where "PXMASK = 0x1FF"

definition PXSHIFT :: "nat \<Rightarrow> nat" where
  "PXSHIFT level = PGSHIFT + 9 * level"

definition PX :: "nat \<Rightarrow> u64 \<Rightarrow> u64" where
  "PX level va = drop_bit (PXSHIFT level) va AND PXMASK"

text \<open>The address of \<^verbatim>\<open>pgdir[i]\<close>.\<close>

definition slot :: "u64 \<Rightarrow> u64 \<Rightarrow> u64" where
  "slot pgdir i = pgdir + 8 * i"

definition load :: "u64 \<Rightarrow> (PMemory, u64) cm" where
  "load a = gets (\<lambda>s. read64 (kmem s) a)"

definition store :: "u64 \<Rightarrow> u64 \<Rightarrow> (PMemory, unit) cm" where
  "store a v = modify (\<lambda>s. s\<lparr>kmem := write64 (kmem s) a v\<rparr>)"

definition free_cm :: "u64 \<Rightarrow> nat \<Rightarrow> u64 \<Rightarrow> (PMemory, unit) cm" where
  "free_cm kend me p = (\<lambda>s. case kfree kend me p s of Inl e \<Rightarrow> Inl e | Inr s' \<Rightarrow> Inr ((), s'))"

section \<open>The walk\<close>

definition pgdir_init :: "nat \<Rightarrow> (PMemory, u64) cm" where
  "pgdir_init me = kalloc me"

fun walk_levels :: "nat \<Rightarrow> u64 \<Rightarrow> bool \<Rightarrow> nat \<Rightarrow> u64 \<Rightarrow> (PMemory, u64) cm" where
  "walk_levels me vak alloc 0 pgdir = ret (slot pgdir (PX 0 vak))"
| "walk_levels me vak alloc (Suc l) pgdir =
     bind (load (slot pgdir (PX (Suc l) vak))) (\<lambda>pte.
       if pte AND PTE_VALID \<noteq> 0 then walk_levels me vak alloc l (P2K (PTE_ADDRESS pte))
       else if \<not> alloc then ret 0
       else
         bind (kalloc me) (\<lambda>p.
           if p = 0 then ret 0
           else andthen (store (slot pgdir (PX (Suc l) vak)) (K2P p OR PTE_TABLE)) (walk_levels me vak alloc l p)))"

definition pgdir_walk :: "nat \<Rightarrow> u64 \<Rightarrow> u64 \<Rightarrow> bool \<Rightarrow> (PMemory, u64) cm" where
  "pgdir_walk me pgdir vak alloc = walk_levels me vak alloc 3 pgdir"

section \<open>Freeing\<close>

fun for_each :: "('a \<Rightarrow> ('s, unit) cm) \<Rightarrow> 'a list \<Rightarrow> ('s, unit) cm" where
  "for_each f [] = ret ()"
| "for_each f (x # xs) = andthen (f x) (for_each f xs)"

text \<open>The first argument is \<^verbatim>\<open>3 - x\<close>.\<close>

fun vm_free_r :: "u64 \<Rightarrow> nat \<Rightarrow> nat \<Rightarrow> u64 \<Rightarrow> (PMemory, unit) cm" where
  "vm_free_r kend me 0 pgdir =
     for_each (\<lambda>i. bind (load (slot pgdir (of_nat i))) (\<lambda>pte.
       if pte AND PTE_VALID \<noteq> 0 then free_cm kend me (P2K (PTE_ADDRESS pte)) else ret ())) [0..<N_PTE_PER_TABLE]"
| "vm_free_r kend me (Suc d) pgdir =
     andthen
       (for_each (\<lambda>i. bind (load (slot pgdir (of_nat i))) (\<lambda>pte.
          if pte AND PTE_VALID \<noteq> 0 then vm_free_r kend me d (P2K (PTE_ADDRESS pte)) else ret ())) [0..<N_PTE_PER_TABLE])
       (free_cm kend me pgdir)"

definition vm_free :: "u64 \<Rightarrow> nat \<Rightarrow> u64 \<Rightarrow> (PMemory, unit) cm" where
  "vm_free kend me pgdir = vm_free_r kend me 3 pgdir"

section \<open>Mapping and unmapping\<close>

lemma page_step: "\<not> (n :: u64) - a < PGSIZE \<Longrightarrow> unat (n - (a + PGSIZE)) < unat (n - a)"
proof -
  assume "\<not> n - a < PGSIZE"
  then have "PGSIZE \<le> n - a" by simp
  then have "unat (n - a - PGSIZE) = unat (n - a) - unat PGSIZE" by (rule unat_minus_word)
  moreover have "unat PGSIZE \<le> unat (n - a)" using \<open>PGSIZE \<le> n - a\<close> by (simp add: word_le_nat_alt)
  ultimately show ?thesis by (simp add: PGSIZE_def diff_diff_eq)
qed

text \<open>
  The loop of \<^verbatim>\<open>uvm_map\<close>. \<open>a\<close> and \<open>lst\<close> are multiples of the page size, so \<open>a\<close> meets \<open>lst\<close>; between
  addresses that are not it would never end.
\<close>

function map_loop :: "nat \<Rightarrow> u64 \<Rightarrow> u64 \<Rightarrow> u64 \<Rightarrow> u64 \<Rightarrow> (PMemory, int) cm" where
  "map_loop me pgdir a lst pa =
     bind (pgdir_walk me pgdir a True) (\<lambda>pte.
       if pte = 0 then ret (- 1)
       else
         bind (load pte) (\<lambda>e.
           if e AND PTE_VALID \<noteq> 0 then fail (Panic ''remap'')
           else
             andthen (store pte (pa OR PTE_USER_DATA))
               (if a = lst then ret 0
                else if lst - a < PGSIZE then fail Blocked
                else map_loop me pgdir (a + PGSIZE) lst (pa + PGSIZE))))"
  by pat_completeness auto
termination
  by (relation "measure (\<lambda>(me, pgdir, a, lst, pa). unat (lst - a))") (auto simp: page_step)

definition uvm_map :: "nat \<Rightarrow> u64 \<Rightarrow> u64 \<Rightarrow> u64 \<Rightarrow> u64 \<Rightarrow> (PMemory, int) cm" where
  "uvm_map me pgdir va sz pa =
     (if sz = 0 then fail (Panic ''map:sz 0'')
      else map_loop me pgdir (ROUNDDOWN va PGSIZE) (ROUNDDOWN (va + sz - 1) PGSIZE) pa)"

text \<open>
  The loop of \<^verbatim>\<open>uvm_copy\<close>; a memory of \<open>2\<^sup>5\<^sup>2\<close> pages would be needed for \<open>i\<close> to wrap around. When \<^verbatim>\<open>kalloc\<close> has no
  page left the copy goes through a null pointer.
\<close>

function copy_loop_vm :: "nat \<Rightarrow> u64 \<Rightarrow> u64 \<Rightarrow> u64 \<Rightarrow> (PMemory, u64) cm" where
  "copy_loop_vm me pgdir newpgdir i =
     bind (pgdir_walk me pgdir i False) (\<lambda>pte.
       if pte = 0 then ret newpgdir
       else
         bind (load pte) (\<lambda>e.
           if e AND PTE_VALID = 0 then ret newpgdir
           else
             bind (kalloc me) (\<lambda>mem.
               andthen (guard_cm BadAccess (\<lambda>_. mem \<noteq> 0))
               (andthen (modify (\<lambda>s. s\<lparr>kmem := memmove (kmem s) mem (P2K (PTE_ADDRESS e)) PGSIZE\<rparr>))
               (bind (uvm_map me newpgdir i PGSIZE (K2P mem)) (\<lambda>_.
                  if i < i + PGSIZE then copy_loop_vm me pgdir newpgdir (i + PGSIZE) else fail Blocked))))))"
  by pat_completeness auto
termination
proof (relation "measure (\<lambda>(me, pgdir, newpgdir, i). 2 ^ 64 - unat i)")
  fix i :: u64 and me :: nat and pgdir newpgdir :: u64
  assume "i < i + PGSIZE"
  then show "((me, pgdir, newpgdir, i + PGSIZE), me, pgdir, newpgdir, i) \<in> measure (\<lambda>(me, pgdir, newpgdir, i). 2 ^ 64 - unat i)"
    using unsigned_less [of "i + PGSIZE", where ?'a = nat] by (simp add: word_less_nat_alt)
qed simp

definition uvm_copy :: "nat \<Rightarrow> u64 \<Rightarrow> (PMemory, u64) cm" where
  "uvm_copy me pgdir = bind (pgdir_init me) (\<lambda>newpgdir. copy_loop_vm me pgdir newpgdir 0)"

text \<open>One round of \<^verbatim>\<open>uvmunmap\<close>, and its loop over \<^verbatim>\<open>a < va + npages * PGSIZE\<close>.\<close>

definition unmap_page :: "u64 \<Rightarrow> nat \<Rightarrow> u64 \<Rightarrow> bool \<Rightarrow> u64 \<Rightarrow> (PMemory, unit) cm" where
  "unmap_page kend me pgdir do_free a =
     bind (pgdir_walk me pgdir a False) (\<lambda>pte.
       if pte = 0 then fail (Panic ''walk'')
       else
         bind (load pte) (\<lambda>e.
           if e AND PTE_VALID = 0 then fail (Panic ''not mapped'')
           else if PTE_FLAGS e = PTE_VALID then fail (Panic ''not a leaf'')
           else
             andthen (if do_free then free_cm kend me (P2K (PTE_ADDRESS e)) else ret ())
               (store pte 0)))"

function unmap_loop :: "u64 \<Rightarrow> nat \<Rightarrow> u64 \<Rightarrow> bool \<Rightarrow> u64 \<Rightarrow> u64 \<Rightarrow> (PMemory, unit) cm" where
  "unmap_loop kend me pgdir do_free a stop =
     (if a < stop then
        andthen (unmap_page kend me pgdir do_free a)
          (if a < a + PGSIZE then unmap_loop kend me pgdir do_free (a + PGSIZE) stop else fail Blocked)
      else ret ())"
  by pat_completeness auto
termination
proof (relation "measure (\<lambda>(kend, me, pgdir, do_free, a, stop). 2 ^ 64 - unat a)")
  fix a kend pgdir stop :: u64 and me :: nat and do_free :: bool
  assume "a < a + PGSIZE"
  then show "((kend, me, pgdir, do_free, a + PGSIZE, stop), kend, me, pgdir, do_free, a, stop)
      \<in> measure (\<lambda>(kend, me, pgdir, do_free, a, stop). 2 ^ 64 - unat a)"
    using unsigned_less [of "a + PGSIZE", where ?'a = nat] by (simp add: word_less_nat_alt)
qed simp

definition uvmunmap :: "u64 \<Rightarrow> nat \<Rightarrow> u64 \<Rightarrow> u64 \<Rightarrow> u64 \<Rightarrow> bool \<Rightarrow> (PMemory, unit) cm" where
  "uvmunmap kend me pgdir va npages do_free =
     (if va mod PGSIZE \<noteq> 0 then fail (Panic ''not aligned'')
      else unmap_loop kend me pgdir do_free va (va + npages * PGSIZE))"

text \<open>A size returned as a C \<^verbatim>\<open>int\<close>.\<close>

definition to_int :: "u64 \<Rightarrow> int" where
  "to_int n = sint (ucast n :: u32)"

definition uvm_dealloc :: "u64 \<Rightarrow> nat \<Rightarrow> u64 \<Rightarrow> usize \<Rightarrow> usize \<Rightarrow> usize \<Rightarrow> (PMemory, int) cm" where
  "uvm_dealloc kend me pgdir b oldsz newsz =
     (if newsz \<ge> oldsz then ret (to_int oldsz)
      else
        andthen
          (if ROUNDUP newsz PGSIZE < ROUNDUP oldsz PGSIZE then
             uvmunmap kend me pgdir (ROUNDUP newsz PGSIZE)
               (word_of_int (to_int ((ROUNDUP oldsz PGSIZE - ROUNDUP newsz PGSIZE) div PGSIZE))) True
           else ret ())
          (ret 0))"

text \<open>The loop of \<^verbatim>\<open>uvm_alloc\<close>: it goes on after a page could not be mapped.\<close>

function alloc_loop :: "u64 \<Rightarrow> nat \<Rightarrow> u64 \<Rightarrow> usize \<Rightarrow> usize \<Rightarrow> usize \<Rightarrow> u64 \<Rightarrow> (PMemory, int) cm" where
  "alloc_loop kend me pgdir b oldsz newsz a =
     (if a < newsz then
        bind (kalloc me) (\<lambda>mem.
          if mem = 0 then andthen (uvm_dealloc kend me pgdir b a oldsz) (ret 0)
          else
            andthen (modify (\<lambda>s. s\<lparr>kmem := memset (kmem s) mem 0 PGSIZE\<rparr>))
            (bind (uvm_map me pgdir a PGSIZE (K2P mem)) (\<lambda>r.
             andthen (if r \<noteq> 0 then andthen (free_cm kend me mem) (andthen (uvm_dealloc kend me pgdir b a oldsz) (ret ()))
                      else ret ())
             (if a < a + PGSIZE then alloc_loop kend me pgdir b oldsz newsz (a + PGSIZE) else fail Blocked))))
      else ret (to_int newsz))"
  by pat_completeness auto
termination
proof (relation "measure (\<lambda>(kend, me, pgdir, b, oldsz, newsz, a). 2 ^ 64 - unat a)")
  fix kend pgdir :: u64 and me :: nat and a b oldsz newsz :: u64
  assume "a < a + PGSIZE"
  then show "((kend, me, pgdir, b, oldsz, newsz, a + PGSIZE), kend, me, pgdir, b, oldsz, newsz, a)
      \<in> measure (\<lambda>(kend, me, pgdir, b, oldsz, newsz, a). 2 ^ 64 - unat a)"
    using unsigned_less [of "a + PGSIZE", where ?'a = nat] by (simp add: word_less_nat_alt)
qed simp

definition uvm_alloc :: "u64 \<Rightarrow> nat \<Rightarrow> u64 \<Rightarrow> usize \<Rightarrow> usize \<Rightarrow> usize \<Rightarrow> usize \<Rightarrow> (PMemory, int) cm" where
  "uvm_alloc kend me pgdir b stksz oldsz newsz =
     (if newsz < oldsz then ret (to_int oldsz)
      else alloc_loop kend me pgdir b (ROUNDUP oldsz PGSIZE) newsz (ROUNDUP oldsz PGSIZE))"

section \<open>User addresses\<close>

definition clearpteu :: "nat \<Rightarrow> u64 \<Rightarrow> u64 \<Rightarrow> (PMemory, unit) cm" where
  "clearpteu me pgdir uva =
     bind (pgdir_walk me pgdir uva False) (\<lambda>pte.
       if pte = 0 then fail (Panic ''clearpteu'')
       else bind (load pte) (\<lambda>e. store pte (e AND NOT PTE_USER)))"

definition uva2ka :: "nat \<Rightarrow> u64 \<Rightarrow> u64 \<Rightarrow> (PMemory, u64) cm" where
  "uva2ka me pgdir uva =
     bind (pgdir_walk me pgdir uva False) (\<lambda>pte.
       andthen (guard_cm BadAccess (\<lambda>_. pte \<noteq> 0))
         (bind (load pte) (\<lambda>e.
            if e AND PTE_VALID = 0 then ret 0
            else if e AND PTE_USER = 0 then ret 0
            else ret (P2K (PTE_ADDRESS e)))))"

definition uva2ka1 :: "nat \<Rightarrow> u64 \<Rightarrow> u64 \<Rightarrow> (PMemory, u64) cm" where
  "uva2ka1 me pgdir uva =
     bind (pgdir_walk me pgdir uva True) (\<lambda>pte.
       andthen (guard_cm BadAccess (\<lambda>_. pte \<noteq> 0))
         (bind (load pte) (\<lambda>e. ret (P2K (PTE_ADDRESS e)))))"

definition out_chunk :: "u64 \<Rightarrow> usize \<Rightarrow> usize" where
  "out_chunk va len = (let n = PAGE_SIZE - (va - ROUNDDOWN va PAGE_SIZE) in if n > len then len else n)"

lemma out_chunk_bounds: "len > 0 \<Longrightarrow> 0 < unat (out_chunk va len) \<and> unat (out_chunk va len) \<le> unat len"
proof -
  assume "len > 0"
  have "va - ROUNDDOWN va PAGE_SIZE = va mod PAGE_SIZE" by (simp add: ROUNDDOWN_def)
  moreover have "va mod PAGE_SIZE < PAGE_SIZE" by (simp add: PAGE_SIZE_def word_less_nat_alt unat_mod)
  ultimately have "PAGE_SIZE - (va - ROUNDDOWN va PAGE_SIZE) \<noteq> 0" by auto
  then show ?thesis using \<open>len > 0\<close> by (auto simp: out_chunk_def Let_def word_le_nat_alt word_less_nat_alt unat_gt_0)
qed

function copyout :: "nat \<Rightarrow> u64 \<Rightarrow> u64 \<Rightarrow> u64 \<Rightarrow> usize \<Rightarrow> (PMemory, int) cm" where
  "copyout me pgdir va p len =
     (if len > 0 then
        bind (uva2ka1 me pgdir (ROUNDDOWN va PAGE_SIZE)) (\<lambda>pa0.
          if pa0 = 0 then ret (- 1)
          else
            andthen (modify (\<lambda>s. s\<lparr>kmem := memmove (kmem s) (pa0 + (va - ROUNDDOWN va PAGE_SIZE)) p (out_chunk va len)\<rparr>))
              (copyout me pgdir (ROUNDDOWN va PAGE_SIZE + PAGE_SIZE) (p + out_chunk va len) (len - out_chunk va len)))
      else ret 0)"
  by pat_completeness auto
termination
proof (relation "measure (\<lambda>(me, pgdir, va, p, len). unat len)")
  fix va len p pgdir :: u64 and me :: nat
  assume "len > 0"
  then show "((me, pgdir, ROUNDDOWN va PAGE_SIZE + PAGE_SIZE, p + out_chunk va len, len - out_chunk va len), me, pgdir, va, p, len)
      \<in> measure (\<lambda>(me, pgdir, va, p, len). unat len)"
    using out_chunk_bounds [of len va] unat_minus_word [of "out_chunk va len" len] by (simp add: word_le_nat_alt)
qed simp

declare map_loop.simps [simp del] copy_loop_vm.simps [simp del] unmap_loop.simps [simp del] alloc_loop.simps [simp del]
  copyout.simps [simp del]

section \<open>Slots of a table\<close>

lemma PX_lt: "PX l va < 512"
proof -
  have "PX l va \<le> PXMASK" unfolding PX_def by (simp add: word_and_le2 word_and_le1)
  then show ?thesis by (simp add: PXMASK_def word_le_nat_alt word_less_nat_alt)
qed

lemma slot_byte:
  assumes "i < 512" "x - slot a i < 8"
  shows "unat (x - a) div 8 = unat i" "in_page a x"
proof -
  have i: "unat i < 512" and k: "unat (x - slot a i) < 8" using assms by (simp_all add: word_less_nat_alt)
  have eq: "x - a = 8 * i + (x - slot a i)" by (simp add: slot_def)
  have "unat (x - a) = 8 * unat i + unat (x - slot a i)"
    unfolding eq using i k by (simp add: unat_word_ariths)
  then show "unat (x - a) div 8 = unat i" "in_page a x"
    using i k by (simp_all add: in_page_def PAGE_SIZE_def word_less_nat_alt)
qed

lemma slot_write:
  assumes "aligned a" "aligned b" "i < 512" "j < 512"
  shows "read64 (write64 m (slot a i) v) (slot b j) = (if a = b \<and> i = j then v else read64 m (slot b j))"
proof (cases "a = b \<and> i = j")
  case False
  have "write64 m (slot a i) v x = m x" if x: "x - slot b j < 8" for x
  proof (rule write64_outside, rule notI)
    assume y: "x - slot a i < 8"
    have "a = b" using pages_disjoint [OF assms(1,2)] slot_byte(2) [OF assms(3) y] slot_byte(2) [OF assms(4) x] by blast
    then have "unat i = unat j" using slot_byte(1) [OF assms(3) y] slot_byte(1) [OF assms(4) x] by simp
    then show False using False \<open>a = b\<close> by (simp add: word_unat_eq_iff)
  qed
  then have "read64 (write64 m (slot a i) v) (slot b j) = read64 m (slot b j)" by (rule read64_cong)
  then show ?thesis using False by (simp only: if_False)
qed simp

lemma slot_frame:
  assumes "j < 512" "\<And>x. in_page b x \<Longrightarrow> m' x = m x"
  shows "read64 m' (slot b j) = read64 m (slot b j)"
  by (rule read64_cong) (use assms slot_byte(2) in blast)

lemma slot_zero: "j < 512 \<Longrightarrow> (\<And>x. in_page b x \<Longrightarrow> m x = 0) \<Longrightarrow> read64 m (slot b j) = 0"
  using slot_byte(2) by (intro read64_zero) blast

lemma slot_nonzero: "valid_page kend a \<Longrightarrow> KSPACE_MASK \<le> kend \<Longrightarrow> i < 512 \<Longrightarrow> slot a i \<noteq> 0"
proof -
  assume a: "valid_page kend a" "KSPACE_MASK \<le> kend" "i < 512"
  have "unat KSPACE_MASK \<le> unat a" "unat a < unat (P2K phystop)"
    using a(1,2) by (auto simp: valid_page_def word_le_nat_alt word_less_nat_alt)
  moreover have "unat i < 512" using a(3) by (simp add: word_less_nat_alt)
  ultimately have "unat (slot a i) = unat a + 8 * unat i"
    by (simp add: slot_def unat_word_ariths P2K_phystop)
  then show ?thesis using \<open>unat KSPACE_MASK \<le> unat a\<close> by (auto simp: KSPACE_MASK_def)
qed

text \<open>An entry made from the address of a page and flags gives the address back.\<close>

lemma entry_address:
  assumes "x AND 0xFFF = 0" "x < 2 ^ 32" "f AND 0xFFF = f"
  shows "PTE_ADDRESS (x OR f) = x"
proof (rule bit_word_eqI)
  fix n assume n: "n < LENGTH(64)"
  have m: "(0xFFF :: u64) = mask 12" "(0xFFF :: u32) = mask 12" by (simp_all add: mask_eq_exp_minus_1)
  have lo: "\<not> bit x n" if "n < 12"
    using arg_cong [OF assms(1), of "\<lambda>w. bit w n"] that n by (simp add: m bit_simps)
  have hi: "\<not> bit x n" if "n \<ge> 32"
  proof -
    have "x = take_bit 32 x"
      using assms(2) by (simp add: word_unat_eq_iff unsigned_take_bit_eq word_less_nat_alt take_bit_nat_eq_self)
    then have "bit x n = bit (take_bit 32 x) n" by simp
    then show ?thesis using that by (simp add: bit_take_bit_iff)
  qed
  have f: "bit f n \<Longrightarrow> n < 12"
    using arg_cong [OF assms(3), of "\<lambda>w. bit w n"] by (simp add: m bit_simps)
  show "bit (PTE_ADDRESS (x OR f)) n = bit x n"
    unfolding PTE_ADDRESS_def m using lo hi f n by (cases "n < 12"; cases "n < 32") (auto simp: bit_simps)
qed

lemma K2P_page:
  assumes "valid_page kend p" "KSPACE_MASK \<le> kend"
  shows "K2P p AND 0xFFF = 0" "K2P p < 2 ^ 32" "P2K (K2P p) = p"
proof -
  show "P2K (K2P p) = p" by (simp add: P2K_def K2P_def)
  have b: "KSPACE_MASK \<le> p" "p < P2K phystop" "aligned p" using assms by (auto simp: valid_page_def)
  then have u: "unat (K2P p) = unat p - unat KSPACE_MASK" unfolding K2P_def by (intro unat_minus_word) simp
  show "K2P p < 2 ^ 32"
    using u b(2) by (simp add: word_less_nat_alt P2K_phystop KSPACE_MASK_def)
  have "(0xFFF :: u64) = mask 12" by (simp add: mask_eq_exp_minus_1)
  then have "K2P p AND 0xFFF = take_bit 12 (K2P p)" by (simp add: take_bit_eq_mask)
  also have "\<dots> = 0"
  proof -
    have "unat p mod 4096 = 0" "unat KSPACE_MASK mod 4096 = 0" using b(3) by (simp_all add: aligned_unat KSPACE_MASK_def)
    then have "unat (K2P p) mod 4096 = 0" using u b(1) by (simp add: word_le_nat_alt mod_eq_0_iff_dvd dvd_diff_nat)
    then show ?thesis by (simp add: word_unat_eq_iff take_bit_eq_mod unat_mod)
  qed
  finally show "K2P p AND 0xFFF = 0" .
qed

lemma table_entry:
  assumes "valid_page kend p" "KSPACE_MASK \<le> kend"
  shows "(K2P p OR PTE_TABLE) AND PTE_VALID \<noteq> 0" "P2K (PTE_ADDRESS (K2P p OR PTE_TABLE)) = p"
proof -
  show "P2K (PTE_ADDRESS (K2P p OR PTE_TABLE)) = p"
    using entry_address [OF K2P_page(1,2) [OF assms], of PTE_TABLE] K2P_page(3) [OF assms] by (simp add: PTE_TABLE_def)
  have "bit ((K2P p OR PTE_TABLE) AND PTE_VALID) 0" by (simp add: PTE_TABLE_def PTE_VALID_def bit_simps)
  then show "(K2P p OR PTE_TABLE) AND PTE_VALID \<noteq> 0" by (metis bit_0_eq bot_apply bot_bool_def)
qed

section \<open>The tree of tables\<close>

text \<open>
  \<open>T\<close> gives the table at the end of a path of indices from the root. The invariant: tables are distinct valid
  pages off the free list, and an entry of an upper table is valid exactly when the path through it has a
  table, whose address it then holds.
\<close>

type_synonym tables = "u64 list \<rightharpoonup> u64"

definition entry_ok :: "u64 \<Rightarrow> u64 option \<Rightarrow> bool" where
  "entry_ok e t = (case t of None \<Rightarrow> e AND PTE_VALID = 0 | Some b \<Rightarrow> e AND PTE_VALID \<noteq> 0 \<and> P2K (PTE_ADDRESS e) = b)"

definition pt_inv :: "u64 \<Rightarrow> PMemory \<Rightarrow> u64 list \<Rightarrow> u64 \<Rightarrow> tables \<Rightarrow> bool" where
  "pt_inv kend s ps pgdir T \<longleftrightarrow> KSPACE_MASK \<le> kend \<and> pm_rep kend s ps \<and> T [] = Some pgdir \<and>
     (\<forall>p a. T p = Some a \<longrightarrow> valid_page kend a \<and> a \<notin> set ps \<and> length p \<le> 3) \<and>
     (\<forall>p q a. T p = Some a \<longrightarrow> T q = Some a \<longrightarrow> p = q) \<and>
     (\<forall>p i. T (p @ [i]) \<noteq> None \<longrightarrow> T p \<noteq> None) \<and>
     (\<forall>p a i. T p = Some a \<longrightarrow> length p < 3 \<longrightarrow> i < 512 \<longrightarrow> entry_ok (read64 (kmem s) (slot a i)) (T (p @ [i])))"

text \<open>The path to the table above level \<open>l\<close>, and the last-level entry of an address, 0 when there is no table for it.\<close>

definition table_path :: "nat \<Rightarrow> u64 \<Rightarrow> u64 list" where
  "table_path l va = map (\<lambda>k. PX k va) (rev [Suc l..<4])"

definition leaf :: "PMemory \<Rightarrow> tables \<Rightarrow> u64 \<Rightarrow> u64" where
  "leaf s T va = (case T (table_path 0 va) of None \<Rightarrow> 0 | Some a \<Rightarrow> read64 (kmem s) (slot a (PX 0 va)))"

definition same_frame :: "u64 set \<Rightarrow> PMemory \<Rightarrow> PMemory \<Rightarrow> bool" where
  "same_frame P s t \<longleftrightarrow> (\<forall>x. (\<forall>q \<in> P. \<not> in_page q x) \<longrightarrow> kmem t x = kmem s x)"

text \<open>More tables, out of the free pages, and the same translation.\<close>

definition grown :: "PMemory \<Rightarrow> u64 list \<Rightarrow> tables \<Rightarrow> PMemory \<Rightarrow> u64 list \<Rightarrow> tables \<Rightarrow> bool" where
  "grown s ps T t ps' T' \<longleftrightarrow> (\<forall>va. leaf t T' va = leaf s T va) \<and> set ps' \<union> ran T' = set ps \<union> ran T \<and>
     same_frame (set ps \<union> ran T) s t \<and> T \<subseteq>\<^sub>m T'"

lemma table_path_Suc: "l < 3 \<Longrightarrow> table_path l va = table_path (Suc l) va @ [PX (Suc l) va]"
  by (simp add: table_path_def upt_rec [of "Suc l"])

lemma table_path_simps: "table_path 3 va = []" "length (table_path l va) = 3 - l"
  by (simp_all add: table_path_def)

lemma grown_refl: "grown s ps T s ps T"
  by (simp add: grown_def same_frame_def)

lemma grown_trans: "grown s ps T t qs U \<Longrightarrow> grown t qs U u rs W \<Longrightarrow> grown s ps T u rs W"
  by (auto simp: grown_def same_frame_def intro: map_le_trans)

lemma pt_invD:
  assumes "pt_inv kend s ps pgdir T" "T p = Some a"
  shows "valid_page kend a" "aligned a" "a \<notin> set ps" "length p \<le> 3" "T q = Some a \<Longrightarrow> q = p"
    "length p < 3 \<Longrightarrow> i < 512 \<Longrightarrow> entry_ok (read64 (kmem s) (slot a i)) (T (p @ [i]))"
proof -
  show "valid_page kend a" "a \<notin> set ps" "length p \<le> 3" using assms by (simp_all add: pt_inv_def)
  then show "aligned a" by (simp add: valid_page_def)
  show "T q = Some a \<Longrightarrow> q = p" using assms unfolding pt_inv_def by blast
  show "length p < 3 \<Longrightarrow> i < 512 \<Longrightarrow> entry_ok (read64 (kmem s) (slot a i)) (T (p @ [i]))" using assms by (simp add: pt_inv_def)
qed

text \<open>Writing a slot of a table keeps the free list.\<close>

lemma pm_rep_store:
  assumes "pm_rep kend s ps" "valid_page kend a" "a \<notin> set ps" "i < 512"
  shows "pm_rep kend (s\<lparr>kmem := write64 (kmem s) (slot a i) v\<rparr>) ps"
proof -
  have "pm_inv kend (s\<lparr>kmem := write64 (kmem s) (slot a i) v\<rparr>) ps"
  proof (rule pm_inv_write)
    show "pm_inv kend s ps" using assms(1) by (simp add: pm_rep_def)
    show "write64 (kmem s) (slot a i) v x = kmem s x" if "p \<in> set ps" "in_page p x" for p x
    proof (rule write64_outside, rule notI)
      assume "x - slot a i < 8"
      then have "in_page a x" using assms(4) slot_byte(2) by blast
      moreover have "aligned p" "aligned a" using that(1) pm.rep_ok [OF assms(1)] assms(2) by (auto simp: valid_page_def)
      ultimately have "p = a" using that(2) pages_disjoint by blast
      then show False using that(1) assms(3) by simp
    qed
  qed
  then show ?thesis using assms(1) by (simp add: pm_rep_def)
qed

lemma slot_same_frame: "i < 512 \<Longrightarrow> a \<in> P \<Longrightarrow> same_frame P s (s\<lparr>kmem := write64 (kmem s) (slot a i) v\<rparr>)"
  using slot_byte(2) [of i _ a] by (auto simp: same_frame_def intro!: write64_outside)

text \<open>The step of the walk that adds a table.\<close>

lemma add_table:
  assumes inv: "pt_inv kend s (q # ps) pgdir T" and a: "T p = Some a" "length p < 3" "i < 512" "T (p @ [i]) = None"
    and t: "pm_rep kend t ps" "kmem t = (\<lambda>x. if in_page q x then 0 else kmem s x)"
    and u: "u = t\<lparr>kmem := write64 (kmem t) (slot a i) (K2P q OR PTE_TABLE)\<rparr>"
  shows "pt_inv kend u ps pgdir (T(p @ [i] \<mapsto> q))" "grown s (q # ps) T u ps (T(p @ [i] \<mapsto> q))"
proof -
  let ?T = "T(p @ [i] \<mapsto> q)"
  note A = pt_invD [OF inv a(1)]
  have m: "KSPACE_MASK \<le> kend" "pm_rep kend s (q # ps)" using inv by (simp_all add: pt_inv_def)
  have q: "valid_page kend q" "q \<notin> set ps" "aligned q" using pm.rep_ok [OF m(2)] by (auto simp: valid_page_def)
  have neq: "b \<noteq> q" if "T r = Some b" for r b using pt_invD(3) [OF inv that] by auto
  have rd: "read64 (kmem u) (slot b j) = (if b = a \<and> j = i then K2P q OR PTE_TABLE else read64 (kmem s) (slot b j))"
    if "T r = Some b" "j < 512" for r b j
  proof -
    have "read64 (kmem t) (slot b j) = read64 (kmem s) (slot b j)"
      using t(2) neq [OF that(1)] pages_disjoint [OF q(3) pt_invD(2) [OF inv that(1)]] by (intro slot_frame [OF that(2)]) auto
    then show ?thesis using slot_write [OF A(2) pt_invD(2) [OF inv that(1)] a(3) that(2)] u by auto
  qed
  have rq: "read64 (kmem u) (slot q j) = 0" if "j < 512" for j
  proof -
    have "read64 (kmem t) (slot q j) = 0" using t(2) that by (intro slot_zero) simp_all
    then show ?thesis using slot_write [OF A(2) q(3) a(3) that] u neq [OF a(1)] by auto
  qed
  have sub: "T (p @ [i] @ r) = None" for r
  proof (induction r rule: rev_induct)
    case (snoc x r)
    then show ?case using inv unfolding pt_inv_def by (metis append_assoc)
  qed (use a(4) in simp)
  have ent: "entry_ok (read64 (kmem u) (slot b j)) (?T (r @ [j]))" if r: "?T r = Some b" "length r < 3" "j < 512" for r b j
  proof (cases "r = p @ [i]")
    case True
    then have "b = q" "?T (r @ [j]) = None" using r(1) sub [of "[j]"] by auto
    then show ?thesis using rq [OF r(3)] by (simp add: entry_ok_def)
  next
    case False
    then have T: "T r = Some b" using r(1) by simp
    show ?thesis
    proof (cases "r = p \<and> j = i")
      case True
      then show ?thesis using rd [OF T r(3)] T a(1) table_entry [OF q(1) m(1)] by (simp add: entry_ok_def)
    next
      case False
      then have "\<not> (b = a \<and> j = i)" using pt_invD(5) [OF inv a(1)] T by blast
      then show ?thesis using False rd [OF T r(3)] pt_invD(6) [OF inv T r(2,3)] by auto
    qed
  qed
  have free: "pm_rep kend u ps" unfolding u by (rule pm_rep_store [OF t(1) A(1) _ a(3)]) (use A(3) in simp)
  show "pt_inv kend u ps pgdir ?T"
    unfolding pt_inv_def
  proof (intro conjI allI impI)
    fix r1 r2 b assume "?T r1 = Some b" "?T r2 = Some b"
    then show "r1 = r2" using neq pt_invD(5) [OF inv] by (auto split: if_splits)
  next
    fix r j assume "?T (r @ [j]) \<noteq> None"
    moreover have "T (r @ [j]) \<noteq> None \<Longrightarrow> T r \<noteq> None" using inv unfolding pt_inv_def by blast
    ultimately show "?T r \<noteq> None" using a(1) by (auto split: if_splits)
  qed (use inv free m q a ent pt_invD [OF inv] in \<open>auto simp: pt_inv_def split: if_splits\<close>)
  have "leaf u ?T va = leaf s T va" for va
  proof (cases "table_path 0 va = p @ [i]")
    case True
    then show ?thesis using a(4) rq [OF PX_lt] by (simp add: leaf_def)
  next
    case False
    show ?thesis
    proof (cases "T (table_path 0 va)")
      case (Some b)
      have "b \<noteq> a" using pt_invD(5) [OF inv a(1)] Some a(2) table_path_simps(2) [of 0 va] by auto
      then show ?thesis using False Some rd [OF Some PX_lt] by (simp add: leaf_def)
    qed (use False in \<open>simp add: leaf_def\<close>)
  qed
  moreover have "same_frame (set (q # ps) \<union> ran T) s u"
  proof -
    have "same_frame (set (q # ps) \<union> ran T) s t" using t(2) by (auto simp: same_frame_def)
    moreover have "same_frame (set (q # ps) \<union> ran T) t u" unfolding u by (rule slot_same_frame [OF a(3)]) (use a(1) in \<open>auto intro: ranI\<close>)
    ultimately show ?thesis by (simp add: same_frame_def)
  qed
  ultimately show "grown s (q # ps) T u ps ?T"
    using a(4) by (auto simp: grown_def ran_map_upd map_le_def)
qed

lemma runs_vm_steps [wp]:
  "runs (load a) s Q \<longleftrightarrow> Q (read64 (kmem s) a) s"
  "runs (store a v) s R \<longleftrightarrow> R () (s\<lparr>kmem := write64 (kmem s) a v\<rparr>)"
  by (simp_all add: load_def store_def wp)

lemma runs_kalloc:
  assumes "pm_rep kend s (q # ps)"
    and "\<And>t. pm_rep kend t ps \<Longrightarrow> kmem t = (\<lambda>x. if in_page q x then 0 else kmem s x) \<Longrightarrow> R q t"
  shows "runs (kalloc me) s R"
  using pm.alloc_some [OF assms(1), of me] assms(2) by (auto simp: runs_def)

lemma walk_alloc:
  assumes "pt_inv kend s ps pgdir T" "T (table_path l va) = Some a" "l \<le> 3" "l \<le> length ps"
    and R: "\<And>t ps' T' b. pt_inv kend t ps' pgdir T' \<Longrightarrow> grown s ps T t ps' T' \<Longrightarrow> T' (table_path 0 va) = Some b \<Longrightarrow>
      length ps \<le> length ps' + l \<Longrightarrow> R (slot b (PX 0 va)) t"
  shows "runs (walk_levels me va True l a) s R"
  using assms
proof (induction l arbitrary: s ps T a)
  case 0
  have "R (slot a (PX 0 va)) s" by (rule 0(5) [OF 0(1) grown_refl 0(2)]) simp
  then show ?case by (simp add: wp)
next
  case (Suc l)
  let ?i = "PX (Suc l) va" and ?p = "table_path (Suc l) va"
  have up: "table_path l va = ?p @ [?i]" "length ?p < 3" using Suc.prems(3) by (simp_all add: table_path_Suc table_path_simps)
  have e: "entry_ok (read64 (kmem s) (slot a ?i)) (T (?p @ [?i]))"
    by (rule pt_invD(6) [OF Suc.prems(1,2) up(2) PX_lt])
  show ?case
  proof (cases "T (?p @ [?i])")
    case (Some b)
    have "runs (walk_levels me va True l b) s R"
      by (rule Suc.IH [OF Suc.prems(1)]) (use Some up Suc.prems in auto)
    then show ?thesis using e Some by (simp add: wp entry_ok_def)
  next
    case None
    obtain q qs where ps: "ps = q # qs" using Suc.prems(4) by (cases ps) auto
    have rep: "pm_rep kend s (q # qs)" "KSPACE_MASK \<le> kend" using Suc.prems(1) ps by (simp_all add: pt_inv_def)
    have "valid_page kend q" using pm.rep_ok [OF rep(1)] by simp
    then have q0: "q \<noteq> 0" by (simp add: valid_page_def)
    have "runs (walk_levels me va True l q) (t\<lparr>kmem := write64 (kmem t) (slot a ?i) (K2P q OR PTE_TABLE)\<rparr>) R"
      if t: "pm_rep kend t qs" "kmem t = (\<lambda>x. if in_page q x then 0 else kmem s x)" for t
    proof -
      note A = add_table [OF Suc.prems(1) [unfolded ps] Suc.prems(2) up(2) PX_lt None t refl]
      show ?thesis
      proof (rule Suc.IH [OF A(1)])
        show "R (slot b (PX 0 va)) u" if "pt_inv kend u ps' pgdir T'" "T' (table_path 0 va) = Some b" "length qs \<le> length ps' + l"
          "grown (t\<lparr>kmem := write64 (kmem t) (slot a ?i) (K2P q OR PTE_TABLE)\<rparr>) qs (T(?p @ [?i] \<mapsto> q)) u ps' T'" for u ps' T' b
          by (rule Suc.prems(5) [OF that(1) _ that(2)]) (use grown_trans [OF A(2) that(4)] that(3) ps in simp_all)
      qed (use up Suc.prems(3,4) ps in simp_all)
    qed
    then have "runs (kalloc me) s (\<lambda>p s'. runs (if p = 0 then ret 0
        else andthen (store (slot a ?i) (K2P p OR PTE_TABLE)) (walk_levels me va True l p)) s' R)"
      using q0 by (intro runs_kalloc [OF rep(1)]) (simp add: wp)
    then show ?thesis using e None by (simp add: wp entry_ok_def)
  qed
qed

lemma table_path_None:
  assumes "pt_inv kend s ps pgdir T" "T (table_path l va) = None" "l < 3"
  shows "T (table_path 0 va) = None"
  using assms(2,3)
proof (induction l)
  case (Suc l)
  have "table_path l va = table_path (Suc l) va @ [PX (Suc l) va]" using Suc.prems(2) by (simp add: table_path_Suc)
  moreover have "\<forall>p i. T (p @ [i]) \<noteq> None \<longrightarrow> T p \<noteq> None" using assms(1) by (simp add: pt_inv_def)
  ultimately have "T (table_path l va) = None" using Suc.prems(1) by metis
  then show ?case using Suc by simp
qed simp

lemma walk_found:
  assumes inv: "pt_inv kend s ps pgdir T" and "T (table_path l va) = Some a" "l \<le> 3"
  shows "walk_levels me va False l a s = Inr (case T (table_path 0 va) of None \<Rightarrow> 0 | Some b \<Rightarrow> slot b (PX 0 va), s)"
  using assms(2,3)
proof (induction l arbitrary: a)
  case 0
  then show ?case by (simp add: cm_simps)
next
  case (Suc l)
  let ?i = "PX (Suc l) va" and ?p = "table_path (Suc l) va"
  have up: "table_path l va = ?p @ [?i]" "length ?p < 3" using Suc.prems(2) by (simp_all add: table_path_Suc table_path_simps)
  have e: "entry_ok (read64 (kmem s) (slot a ?i)) (T (?p @ [?i]))"
    by (rule pt_invD(6) [OF inv Suc.prems(1) up(2) PX_lt])
  show ?case
  proof (cases "T (?p @ [?i])")
    case None
    then have "T (table_path 0 va) = None" using table_path_None [OF inv, of l va] up Suc.prems(2) by simp
    then show ?thesis using e None by (simp add: cm_simps load_def entry_ok_def)
  next
    case (Some b)
    then show ?thesis using e Suc.IH [of b] up Suc.prems(2) by (simp add: cm_simps load_def entry_ok_def)
  qed
qed

section \<open>The translation of an address\<close>

lemma PX_bit: "bit (PX k va) n \<longleftrightarrow> n < 9 \<and> bit va (12 + 9 * k + n)"
proof -
  have m: "PXMASK = mask 9" by (simp add: PXMASK_def mask_eq_exp_minus_1)
  show ?thesis unfolding PX_def m
    using bit_imp_le_length [of va "12 + 9 * k + n"] by (auto simp: PXSHIFT_def PGSHIFT_def bit_simps)
qed

lemma PX_eq: "PX k va = PX k vb \<longleftrightarrow> (\<forall>n < 9. bit va (12 + 9 * k + n) = bit vb (12 + 9 * k + n))"
proof
  assume "PX k va = PX k vb"
  then have "bit (PX k va) n = bit (PX k vb) n" for n by simp
  then show "\<forall>n < 9. bit va (12 + 9 * k + n) = bit vb (12 + 9 * k + n)" unfolding PX_bit by metis
qed (auto intro!: bit_word_eqI simp: PX_bit)

lemma same_page:
  assumes "va < 2 ^ 48" "vb < 2 ^ 48"
  shows "table_path 0 va = table_path 0 vb \<and> PX 0 va = PX 0 vb \<longleftrightarrow> unat va div 4096 = unat vb div 4096"
proof -
  have hi: "\<not> bit v n" if "v < 2 ^ 48" "n \<ge> 48" for v :: u64 and n
  proof -
    have "v = take_bit 48 v"
      using that(1) by (simp add: word_unat_eq_iff unsigned_take_bit_eq word_less_nat_alt take_bit_nat_eq_self)
    then have "bit v n = bit (take_bit 48 v) n" by simp
    then show ?thesis using that(2) by (simp add: bit_take_bit_iff)
  qed
  have up: "table_path 0 v = [PX 3 v, PX 2 v, PX 1 v]" for v by (simp add: table_path_def upt_rec [of "Suc 0"] upt_rec [of "Suc (Suc 0)"] numeral_3_eq_3 eval_nat_numeral)
  have "table_path 0 va = table_path 0 vb \<and> PX 0 va = PX 0 vb \<longleftrightarrow> (\<forall>k < 4. PX k va = PX k vb)"
    unfolding up by (auto simp: less_Suc_eq eval_nat_numeral)
  also have "\<dots> \<longleftrightarrow> (\<forall>k < 4. \<forall>n < 9. bit va (12 + 9 * k + n) = bit vb (12 + 9 * k + n))"
    by (simp add: PX_eq)
  also have "\<dots> \<longleftrightarrow> (\<forall>m < 36. bit va (12 + m) = bit vb (12 + m))"
  proof
    assume a: "\<forall>k < 4. \<forall>n < 9. bit va (12 + 9 * k + n) = bit vb (12 + 9 * k + n)"
    show "\<forall>m < 36. bit va (12 + m) = bit vb (12 + m)"
    proof (intro allI impI)
      fix m :: nat assume "m < 36"
      then have "m div 9 < 4" by (intro less_mult_imp_div_less) simp
      then show "bit va (12 + m) = bit vb (12 + m)" using a [rule_format, of "m div 9" "m mod 9"] by (simp add: add.commute)
    qed
  qed (auto simp: add.assoc)
  also have "\<dots> \<longleftrightarrow> drop_bit 12 va = drop_bit 12 vb" (is "?l \<longleftrightarrow> ?r")
  proof
    assume ?l
    show ?r
    proof (rule bit_word_eqI)
      fix n
      show "bit (drop_bit 12 va) n = bit (drop_bit 12 vb) n"
        using \<open>?l\<close> hi [OF assms(1), of "12 + n"] hi [OF assms(2), of "12 + n"] by (cases "n < 36") (simp_all add: bit_drop_bit_eq)
    qed
  next
    assume ?r
    then have "bit (drop_bit 12 va) n = bit (drop_bit 12 vb) n" for n by simp
    then show ?l by (simp add: bit_drop_bit_eq)
  qed
  also have "\<dots> \<longleftrightarrow> unat va div 4096 = unat vb div 4096"
    by (simp add: word_unat_eq_iff drop_bit_eq_div unat_div)
  finally show ?thesis .
qed

lemma store_leaf:
  assumes inv: "pt_inv kend s ps pgdir T" and b: "T (table_path 0 va) = Some b"
    and u: "u = s\<lparr>kmem := write64 (kmem s) (slot b (PX 0 va)) v\<rparr>"
  shows "pt_inv kend u ps pgdir T" "same_frame (set ps \<union> ran T) s u"
    "leaf u T va' = (if table_path 0 va' = table_path 0 va \<and> PX 0 va' = PX 0 va then v else leaf s T va')"
proof -
  note B = pt_invD [OF inv b]
  have rd: "read64 (kmem u) (slot c j) = (if r = table_path 0 va \<and> j = PX 0 va then v else read64 (kmem s) (slot c j))"
    if "T r = Some c" "j < 512" for r c j
  proof -
    have "b = c \<longleftrightarrow> r = table_path 0 va" using pt_invD(5) [OF inv b, of r] b that(1) by auto
    then show ?thesis
      using slot_write [OF B(2) pt_invD(2) [OF inv that(1)] PX_lt [of 0 va] that(2), of "kmem s" v] u by auto
  qed
  show "same_frame (set ps \<union> ran T) s u" unfolding u by (rule slot_same_frame [OF PX_lt]) (use b in \<open>auto intro: ranI\<close>)
  have "pm_rep kend u ps" unfolding u using inv by (intro pm_rep_store [OF _ B(1,3) PX_lt]) (simp add: pt_inv_def)
  moreover have "entry_ok (read64 (kmem u) (slot c j)) (T (r @ [j]))" if r: "T r = Some c" "length r < 3" "j < 512" for r c j
  proof -
    have "r \<noteq> table_path 0 va" using r(2) table_path_simps(2) [of 0 va] by auto
    then show ?thesis using rd [OF r(1,3)] pt_invD(6) [OF inv r] by simp
  qed
  ultimately show "pt_inv kend u ps pgdir T" using inv unfolding pt_inv_def by blast
  show "leaf u T va' = (if table_path 0 va' = table_path 0 va \<and> PX 0 va' = PX 0 va then v else leaf s T va')"
    using rd [OF _ PX_lt] b by (auto simp: leaf_def split: option.splits)
qed

text \<open>
  What \<^verbatim>\<open>uvm_map\<close> is for: the pages from \<open>a\<close> on translate to consecutive physical pages from \<open>pa\<close> on, every other
  user address as before; only tables and free pages have been written.
\<close>

definition mapped :: "PMemory \<Rightarrow> u64 list \<Rightarrow> tables \<Rightarrow> u64 \<Rightarrow> nat \<Rightarrow> u64 \<Rightarrow> PMemory \<Rightarrow> u64 list \<Rightarrow> tables \<Rightarrow> bool" where
  "mapped s ps T a n pa t ps' T' \<longleftrightarrow>
     (\<forall>va < 2 ^ 48. leaf t T' va =
       (if unat a div 4096 \<le> unat va div 4096 \<and> unat va div 4096 < unat a div 4096 + n
        then (pa + of_nat (4096 * (unat va div 4096 - unat a div 4096))) OR PTE_USER_DATA else leaf s T va)) \<and>
     set ps' \<union> ran T' = set ps \<union> ran T \<and> same_frame (set ps \<union> ran T) s t"

lemma page_add:
  assumes "unat a + 4096 \<le> 2 ^ 48"
  shows "unat (a + PGSIZE) = unat a + 4096" "unat (a + PGSIZE) div 4096 = Suc (unat a div 4096)"
  using assms by (simp_all add: PGSIZE_def unat_word_ariths)

lemma mapped_one:
  assumes g: "grown s ps T t ps' T'" and inv: "pt_inv kend t ps' pgdir T'" and b: "T' (table_path 0 a) = Some b"
    and u: "u = t\<lparr>kmem := write64 (kmem t) (slot b (PX 0 a)) (pa OR PTE_USER_DATA)\<rparr>" and a: "a < 2 ^ 48"
  shows "pt_inv kend u ps' pgdir T'" "mapped s ps T a 1 pa u ps' T'"
proof -
  note S = store_leaf [OF inv b u]
  show "pt_inv kend u ps' pgdir T'" by (rule S(1))
  have "leaf u T' va = (if unat va div 4096 = unat a div 4096 then pa OR PTE_USER_DATA else leaf s T va)" if "va < 2 ^ 48" for va
    using S(3) [of va] same_page [OF that a] g by (simp add: grown_def)
  then show "mapped s ps T a 1 pa u ps' T'"
    using g S(2) by (auto simp: mapped_def grown_def same_frame_def)
qed

lemma mapped_step:
  assumes "mapped s ps T a 1 pa t qs U" "mapped t qs U (a + PGSIZE) n (pa + PGSIZE) u rs W" "unat a + 4096 \<le> 2 ^ 48"
  shows "mapped s ps T a (Suc n) pa u rs W"
proof -
  note A = page_add [OF assms(3)]
  have "leaf u W va = (if unat a div 4096 \<le> unat va div 4096 \<and> unat va div 4096 < unat a div 4096 + Suc n
      then (pa + of_nat (4096 * (unat va div 4096 - unat a div 4096))) OR PTE_USER_DATA else leaf s T va)" if va: "va < 2 ^ 48" for va
  proof (cases "Suc (unat a div 4096) \<le> unat va div 4096 \<and> unat va div 4096 < Suc (unat a div 4096) + n")
    case True
    then have "unat va div 4096 - unat a div 4096 = Suc (unat va div 4096 - Suc (unat a div 4096))" by linarith
    then have eq: "pa + of_nat (4096 * (unat va div 4096 - unat a div 4096)) =
        pa + PGSIZE + of_nat (4096 * (unat va div 4096 - Suc (unat a div 4096)))"
      by (simp add: PGSIZE_def)
    have "\<forall>va < 2 ^ 48. leaf u W va = (if Suc (unat a div 4096) \<le> unat va div 4096 \<and> unat va div 4096 < Suc (unat a div 4096) + n
        then (pa + PGSIZE + of_nat (4096 * (unat va div 4096 - Suc (unat a div 4096)))) OR PTE_USER_DATA else leaf t U va)"
      using assms(2) unfolding mapped_def A(2) by (rule conjunct1)
    then have "leaf u W va = (pa + PGSIZE + of_nat (4096 * (unat va div 4096 - Suc (unat a div 4096)))) OR PTE_USER_DATA"
      using va True by (simp only: if_True simp_thms)
    moreover have "unat a div 4096 \<le> unat va div 4096 \<and> unat va div 4096 < unat a div 4096 + Suc n" using True by linarith
    ultimately show ?thesis by (simp only: eq if_True simp_thms)
  next
    case False
    then have "leaf u W va = leaf t U va" using assms(2) va A(2) by (auto simp: mapped_def)
    moreover have "unat a div 4096 \<le> unat va div 4096 \<and> unat va div 4096 < unat a div 4096 + Suc n \<longleftrightarrow> unat va div 4096 = unat a div 4096"
      using False by auto
    moreover have "leaf t U va = (if unat va div 4096 = unat a div 4096 then pa OR PTE_USER_DATA else leaf s T va)"
      using assms(1) va by (auto simp: mapped_def)
    ultimately show ?thesis by simp
  qed
  then show ?thesis using assms(1,2) by (auto simp: mapped_def same_frame_def)
qed

lemma map_page:
  assumes inv: "pt_inv kend s ps pgdir T" and a: "a < 2 ^ 48" and "3 \<le> length ps" "leaf s T a AND PTE_VALID = 0"
    and K: "\<And>t ps' T'. pt_inv kend t ps' pgdir T' \<Longrightarrow> mapped s ps T a 1 pa t ps' T' \<Longrightarrow> length ps \<le> length ps' + 3 \<Longrightarrow> runs K t R"
  shows "runs (bind (pgdir_walk me pgdir a True) (\<lambda>pte. if pte = 0 then ret (- 1) else bind (load pte) (\<lambda>e.
    if e AND PTE_VALID \<noteq> 0 then fail (Panic ''remap'') else andthen (store pte (pa OR PTE_USER_DATA)) K))) s R"
  unfolding pgdir_walk_def runs_bind [of "walk_levels _ _ _ _ _"]
proof (rule walk_alloc [OF inv])
  show "T (table_path 3 a) = Some pgdir" using inv by (simp add: pt_inv_def table_path_simps)
  fix t ps' T' b
  assume t: "pt_inv kend t ps' pgdir T'" "grown s ps T t ps' T'" "T' (table_path 0 a) = Some b" "length ps \<le> length ps' + 3"
  have "leaf t T' a AND PTE_VALID = 0" using assms(4) t(2) by (simp add: grown_def)
  then have v: "read64 (kmem t) (slot b (PX 0 a)) AND PTE_VALID = 0" using t(3) by (simp add: leaf_def)
  have "KSPACE_MASK \<le> kend" using inv by (simp add: pt_inv_def)
  then have nz: "slot b (PX 0 a) \<noteq> 0" using slot_nonzero [OF pt_invD(1) [OF t(1,3)] _ PX_lt] by simp
  have "runs K (t\<lparr>kmem := write64 (kmem t) (slot b (PX 0 a)) (pa OR PTE_USER_DATA)\<rparr>) R"
    by (rule K) (use mapped_one [OF t(2,1,3) refl a] t(4) in simp_all)
  then show "runs (if slot b (PX 0 a) = 0 then ret (- 1) else bind (load (slot b (PX 0 a))) (\<lambda>e.
      if e AND PTE_VALID \<noteq> 0 then fail (Panic ''remap'') else andthen (store (slot b (PX 0 a)) (pa OR PTE_USER_DATA)) K)) t R"
    using v nz by (simp add: wp)
qed (use assms(3) in simp_all)

lemma map_loop_spec:
  assumes "pt_inv kend s ps pgdir T" "unat a + 4096 * Suc n \<le> 2 ^ 48" "3 * Suc n \<le> length ps"
    and "\<And>k. k \<le> n \<Longrightarrow> leaf s T (a + of_nat (4096 * k)) AND PTE_VALID = 0"
    and R: "\<And>t ps' T'. pt_inv kend t ps' pgdir T' \<Longrightarrow> mapped s ps T a (Suc n) pa t ps' T' \<Longrightarrow> length ps \<le> length ps' + 3 * Suc n \<Longrightarrow> R 0 t"
  shows "runs (map_loop me pgdir a (a + of_nat (4096 * n)) pa) s R"
  using assms
proof (induction n arbitrary: s ps T a pa)
  case 0
  have "a < 2 ^ 48" using 0(2) by (simp add: word_less_nat_alt)
  then show ?case unfolding map_loop.simps [of me pgdir a]
    by (intro map_page [OF 0(1)]) (use 0(3,5) 0(4) [of 0] in \<open>auto simp: wp\<close>)
next
  case (Suc n)
  let ?l = "a + of_nat (4096 * Suc n)" and ?b = "a + PGSIZE"
  have a: "a < 2 ^ 48" "unat a + 4096 \<le> 2 ^ 48" using Suc.prems(2) by (simp_all add: word_less_nat_alt)
  note A = page_add [OF a(2)]
  have d: "unat (?l - a) = 4096 * Suc n"
    unfolding add_diff_cancel_left' by (rule unat_of_nat_lt) (use Suc.prems(2) in simp)
  then have ne: "a \<noteq> ?l" "\<not> ?l - a < PGSIZE" by (auto simp: word_less_nat_alt PGSIZE_def)
  have l: "?l = ?b + of_nat (4096 * n)" by (simp add: PGSIZE_def)
  have step: "runs (map_loop me pgdir ?b ?l (pa + PGSIZE)) t R"
    if t: "pt_inv kend t ps' pgdir T'" "mapped s ps T a 1 pa t ps' T'" "length ps \<le> length ps' + 3" for t ps' T'
    unfolding l
  proof (rule Suc.IH [OF t(1)])
    show "unat ?b + 4096 * Suc n \<le> 2 ^ 48" "3 * Suc n \<le> length ps'" using A Suc.prems(2,3) t(3) by simp_all
    show "leaf t T' (?b + of_nat (4096 * k)) AND PTE_VALID = 0" if k: "k \<le> n" for k
    proof -
      have eq: "?b + of_nat (4096 * k) = a + of_nat (4096 * Suc k)" by (simp add: PGSIZE_def)
      have u: "unat (a + of_nat (4096 * Suc k)) = unat a + 4096 * Suc k"
      proof -
        have "unat (of_nat (4096 * Suc k) :: u64) = 4096 * Suc k" by (rule unat_of_nat_lt) (use Suc.prems(2) k in simp)
        then show ?thesis using Suc.prems(2) k unfolding unat_word_ariths(1) by simp
      qed
      then have lt: "a + of_nat (4096 * Suc k) < 2 ^ 48" using Suc.prems(2) k by (simp add: word_less_nat_alt del: of_nat_mult)
      have dv: "(unat a + 4096 * Suc k) div 4096 = unat a div 4096 + Suc k" by simp
      have "leaf t T' (a + of_nat (4096 * Suc k)) = leaf s T (a + of_nat (4096 * Suc k))"
        using t(2) [unfolded mapped_def, THEN conjunct1, rule_format, OF lt] unfolding u dv by simp
      then show ?thesis unfolding eq using Suc.prems(4) [of "Suc k"] k by simp
    qed
    show "R 0 u" if "pt_inv kend u rs pgdir W" "mapped t ps' T' ?b (Suc n) (pa + PGSIZE) u rs W" "length ps' \<le> length rs + 3 * Suc n" for u rs W
      by (rule Suc.prems(5) [OF that(1) mapped_step [OF t(2) that(2) a(2)]]) (use t(3) that(3) in simp)
  qed
  have "3 \<le> length ps" using Suc.prems(3) by simp
  then show ?case unfolding map_loop.simps [of me pgdir a]
    by (intro map_page [OF Suc.prems(1) a(1)]) (use Suc.prems(4) [of 0] step ne in \<open>simp_all del: of_nat_mult mult_Suc_right\<close>)
qed

lemma ROUNDDOWN_page: "unat (ROUNDDOWN va PGSIZE) = unat va - unat va mod 4096"
proof -
  have "va mod PGSIZE \<le> va" by (simp add: word_le_nat_alt unat_mod)
  then show ?thesis unfolding ROUNDDOWN_def by (simp add: unat_minus_word unat_mod PGSIZE_def)
qed

lemma uvm_map_spec:
  assumes inv: "pt_inv kend s ps pgdir T" and "0 < sz" "unat va + unat sz \<le> 2 ^ 48"
    and n: "n = (unat va + unat sz - 1) div 4096 - unat va div 4096" and "3 * Suc n \<le> length ps"
    and free: "\<And>v. unat va div 4096 \<le> unat v div 4096 \<Longrightarrow> unat v div 4096 \<le> unat va div 4096 + n \<Longrightarrow> leaf s T v AND PTE_VALID = 0"
    and R: "\<And>t ps' T'. pt_inv kend t ps' pgdir T' \<Longrightarrow> mapped s ps T va (Suc n) pa t ps' T' \<Longrightarrow> R 0 t"
  shows "runs (uvm_map me pgdir va sz pa) s R"
proof -
  let ?a = "ROUNDDOWN va PGSIZE"
  have sz: "1 \<le> unat sz" using assms(2) by (simp add: word_less_nat_alt)
  have ua: "unat ?a = 4096 * (unat va div 4096)" by (simp add: ROUNDDOWN_page minus_mod_eq_mult_div)
  have ul: "unat (va + sz - 1) = unat va + unat sz - 1"
  proof -
    have "unat (va + sz) = unat va + unat sz" using assms(3) by (simp add: unat_word_ariths)
    moreover have "1 \<le> va + sz" using calculation sz by (simp add: word_le_nat_alt)
    ultimately show ?thesis by (simp add: unat_minus_word)
  qed
  have le: "unat va div 4096 \<le> (unat va + unat sz - 1) div 4096" using sz by (intro div_le_mono) simp
  then have top: "unat va div 4096 + n = (unat va + unat sz - 1) div 4096" using n by simp
  have "4096 * ((unat va + unat sz - 1) div 4096) \<le> unat va + unat sz - 1" by simp
  also have "\<dots> < 4096 * 2 ^ 36" using assms(3) sz by simp
  finally have "(unat va + unat sz - 1) div 4096 < 2 ^ 36" by simp
  then have fit: "unat ?a + 4096 * Suc n \<le> 2 ^ 48" using top ua by simp
  have off: "unat (?a + of_nat (4096 * k)) = 4096 * (unat va div 4096 + k)" if "k \<le> n" for k
  proof -
    have "unat (of_nat (4096 * k) :: u64) = 4096 * k" by (rule unat_of_nat_lt) (use fit that in simp)
    then show ?thesis using fit that ua unfolding unat_word_ariths(1) by (simp add: distrib_left)
  qed
  have lst: "ROUNDDOWN (va + sz - 1) PGSIZE = ?a + of_nat (4096 * n)"
    unfolding word_unat_eq_iff off [OF order_refl] top by (simp add: ROUNDDOWN_page ul minus_mod_eq_mult_div)
  have "runs (map_loop me pgdir ?a (?a + of_nat (4096 * n)) pa) s R"
  proof (rule map_loop_spec [OF inv fit assms(5)])
    show "leaf s T (?a + of_nat (4096 * k)) AND PTE_VALID = 0" if "k \<le> n" for k
      by (rule free) (use off [OF that] that in simp_all)
    show "R 0 t" if "pt_inv kend t ps' pgdir T'" "mapped s ps T ?a (Suc n) pa t ps' T'" for t ps' T'
      by (rule R [OF that(1)]) (use that(2) ua in \<open>simp add: mapped_def\<close>)
  qed
  moreover have "sz \<noteq> 0" using assms(2) by auto
  ultimately show ?thesis by (simp add: uvm_map_def lst)
qed

text \<open>A physical address for which the walk found an empty entry.\<close>

lemma uva2ka1_spec:
  assumes inv: "pt_inv kend s ps pgdir T" and "3 \<le> length ps"
    and R: "\<And>t ps' T'. pt_inv kend t ps' pgdir T' \<Longrightarrow> grown s ps T t ps' T' \<Longrightarrow> R (P2K (PTE_ADDRESS (leaf s T va))) t"
  shows "runs (uva2ka1 me pgdir va) s R"
  unfolding uva2ka1_def pgdir_walk_def runs_bind [of "walk_levels _ _ _ _ _"]
proof (rule walk_alloc [OF inv])
  show "T (table_path 3 va) = Some pgdir" using inv by (simp add: pt_inv_def table_path_simps)
  fix t ps' T' b
  assume t: "pt_inv kend t ps' pgdir T'" "grown s ps T t ps' T'" "T' (table_path 0 va) = Some b" "length ps \<le> length ps' + 3"
  have "KSPACE_MASK \<le> kend" using inv by (simp add: pt_inv_def)
  then have nz: "slot b (PX 0 va) \<noteq> 0" using slot_nonzero [OF pt_invD(1) [OF t(1,3)] _ PX_lt] by simp
  have "leaf t T' va = leaf s T va" using t(2) by (simp add: grown_def)
  then have "read64 (kmem t) (slot b (PX 0 va)) = leaf s T va" using t(3) by (simp add: leaf_def)
  then show "runs (andthen (guard_cm BadAccess (\<lambda>_. slot b (PX 0 va) \<noteq> 0)) (bind (load (slot b (PX 0 va))) (\<lambda>e. ret (P2K (PTE_ADDRESS e))))) t R"
    using nz R [OF t(1,2)] by (simp add: wp)
qed (use assms(2) in simp_all)

section \<open>An example\<close>

text \<open>A kernel with an empty page directory and three free pages.\<close>

definition free3 :: "u64 list" where
  "free3 = [0xffff000000103000, 0xffff000000102000, 0xffff000000101000]"

lemma root_example: "\<exists>s. pt_inv 0xffff000000100000 s free3 0xffff000000100000 [[] \<mapsto> 0xffff000000100000]"
proof -
  let ?k = "0xffff000000100000 :: u64"
  have v: "valid_page ?k ?k" "valid_page ?k 0xffff000000101000" "valid_page ?k 0xffff000000102000" "valid_page ?k 0xffff000000103000"
    by (simp_all add: valid_page_def aligned_def PAGE_SIZE_def P2K_phystop)
  have z: "kmem one_page x = 0" for x by (simp add: one_page_def)
  obtain s0 where s0: "pm_rep ?k s0 []" "\<forall>x. kmem s0 x = 0"
    using pm.alloc_some [OF one_page_rep, of 0] z by auto
  obtain s1 where s1: "pm_rep ?k s1 [0xffff000000101000]" "\<forall>x. \<not> in_page 0xffff000000101000 x \<longrightarrow> kmem s1 x = kmem s0 x"
    using pm.free_page [OF s0(1) v(2), of 0] by auto
  obtain s2 where s2: "pm_rep ?k s2 [0xffff000000102000, 0xffff000000101000]" "\<forall>x. \<not> in_page 0xffff000000102000 x \<longrightarrow> kmem s2 x = kmem s1 x"
    using pm.free_page [OF s1(1) v(3), of 0] by auto
  obtain s3 where s3: "pm_rep ?k s3 free3" "\<forall>x. \<not> in_page 0xffff000000103000 x \<longrightarrow> kmem s3 x = kmem s2 x"
    using pm.free_page [OF s2(1) v(4), of 0] by (auto simp: free3_def)
  have al: "aligned q" if "valid_page ?k q" for q using that by (simp add: valid_page_def)
  have out: "\<not> in_page q x" if "in_page ?k x" "valid_page ?k q" "q \<noteq> ?k" for q x
    using pages_disjoint [OF al [OF v(1)] al [OF that(2)] that(1)] that(3) by blast
  have "kmem s3 x = 0" if "in_page ?k x" for x
    using s0(2) s1(2) s2(2) s3(2) out [OF that] v by simp
  then have "read64 (kmem s3) (slot ?k i) = 0" if "i < 512" for i using that by (intro slot_zero)
  then show ?thesis using s3(1) v(1)
    by (intro exI [of _ s3]) (auto simp: pt_inv_def KSPACE_MASK_def entry_ok_def free3_def split: if_splits)
qed

lemma leaf_empty: "leaf s [[] \<mapsto> pgdir] va = 0"
  by (simp add: leaf_def table_path_def)

section \<open>Claims\<close>

text \<open>
  C19. \<^verbatim>\<open>pgdir_walk\<close> with \<^verbatim>\<open>alloc\<close> set returns the address of the last-level entry of its address, and so does every
  later walk of it. It keeps the tree of tables well formed, takes the tables it adds from the free pages and
  changes the translation of no address.
\<close>

theorem pgdir_walk_keeps_tables:
  assumes "pt_inv kend s ps pgdir T" "3 \<le> length ps"
  shows "runs (pgdir_walk me pgdir va True) s (\<lambda>r t. \<exists>ps' T' b. pt_inv kend t ps' pgdir T' \<and> grown s ps T t ps' T' \<and>
    T' (table_path 0 va) = Some b \<and> r = slot b (PX 0 va) \<and> pgdir_walk me pgdir va False t = Inr (r, t))"
  unfolding pgdir_walk_def
proof (rule walk_alloc [OF assms(1)])
  show root: "T (table_path 3 va) = Some pgdir" using assms(1) by (simp add: pt_inv_def table_path_simps)
  fix t ps' T' b
  assume t: "pt_inv kend t ps' pgdir T'" "grown s ps T t ps' T'" "T' (table_path 0 va) = Some b"
  have "T' (table_path 3 va) = Some pgdir" using t(1) by (simp add: pt_inv_def table_path_simps)
  from walk_found [OF t(1) this, of me] t show "\<exists>ps'' T'' b'. pt_inv kend t ps'' pgdir T'' \<and> grown s ps T t ps'' T'' \<and>
      T'' (table_path 0 va) = Some b' \<and> slot b (PX 0 va) = slot b' (PX 0 va) \<and>
      walk_levels me va False 3 pgdir t = Inr (slot b (PX 0 va), t)" by auto
qed (use assms(2) in simp_all)

theorem pgdir_walk_keeps_tables_witness:
  "\<exists>s r t. pgdir_walk 0 0xffff000000100000 0x1000 True s = Inr (r, t) \<and> pgdir_walk 0 0xffff000000100000 0x1000 False t = Inr (r, t)"
proof -
  obtain s where "pt_inv 0xffff000000100000 s free3 0xffff000000100000 [[] \<mapsto> 0xffff000000100000]" using root_example by blast
  from pgdir_walk_keeps_tables [OF this, of 0 "0x1000"] show ?thesis by (auto simp: runs_def free3_def)
qed

text \<open>
  C10. \<^verbatim>\<open>uvm_map\<close> of a range that was not mapped returns 0, and then the pages of the range translate to the
  consecutive physical pages from \<^verbatim>\<open>pa\<close> on with the flags of user data, every other user address translates as
  before, and no memory outside the tables and the free pages has changed.
\<close>

theorem uvm_map_translates:
  assumes "pt_inv kend s ps pgdir T" "0 < sz" "unat va + unat sz \<le> 2 ^ 48"
    and "n = (unat va + unat sz - 1) div 4096 - unat va div 4096" "3 * Suc n \<le> length ps"
    and "\<forall>v. unat va div 4096 \<le> unat v div 4096 \<longrightarrow> unat v div 4096 \<le> unat va div 4096 + n \<longrightarrow> leaf s T v AND PTE_VALID = 0"
  shows "runs (uvm_map me pgdir va sz pa) s (\<lambda>r t. r = 0 \<and> (\<exists>ps' T'. pt_inv kend t ps' pgdir T' \<and> mapped s ps T va (Suc n) pa t ps' T'))"
  by (rule uvm_map_spec [OF assms(1-5)]) (use assms(6) in auto)

theorem uvm_map_translates_witness:
  "\<exists>s t T. uvm_map 0 0xffff000000100000 0x1234 100 0x200000 s = Inr (0, t) \<and> leaf t T 0x1000 = 0x200000 OR PTE_USER_DATA"
proof -
  obtain s where "pt_inv 0xffff000000100000 s free3 0xffff000000100000 [[] \<mapsto> 0xffff000000100000]" using root_example by blast
  from uvm_map_translates [OF this, of 100 "0x1234" 0 0 "0x200000"]
  have "runs (uvm_map 0 0xffff000000100000 0x1234 100 0x200000) s
      (\<lambda>r t. r = 0 \<and> (\<exists>ps' T'. mapped s free3 [[] \<mapsto> 0xffff000000100000] 0x1234 (Suc 0) 0x200000 t ps' T'))"
    by (auto simp: leaf_empty free3_def elim!: runs_mono)
  moreover have "leaf t T' 0x1000 = 0x200000 OR PTE_USER_DATA" if "mapped s free3 T 0x1234 (Suc 0) 0x200000 t ps' T'" for t ps' T T'
    using that by (simp add: mapped_def)
  ultimately show ?thesis by (fastforce simp: runs_def)
qed

text \<open>
  C37. \<^verbatim>\<open>copyout\<close> to a user page that is not mapped does not allocate a page for it: it returns success, the page is
  still not mapped, and the bytes have been written to the first physical page.
\<close>

theorem copyout_unmapped_page:
  assumes "pt_inv kend s ps pgdir T" "3 \<le> length ps" "leaf s T (ROUNDDOWN va PAGE_SIZE) = 0"
    and "0 < len" "unat va mod 4096 + unat len \<le> 4096" "unat p + unat len \<le> 2 ^ 64"
    and "\<forall>i < len. \<forall>q \<in> set ps \<union> ran T. \<not> in_page q (p + i)"
  shows "runs (copyout me pgdir va p len) s (\<lambda>r t. r = 0 \<and>
    (\<forall>i < len. kmem t (P2K 0 + va mod PAGE_SIZE + i) = kmem s (p + i)))"
proof -
  have chunk: "out_chunk va len = len"
  proof -
    have e: "va - ROUNDDOWN va PAGE_SIZE = va mod PAGE_SIZE" by (simp add: ROUNDDOWN_def)
    have "unat (PAGE_SIZE - va mod PAGE_SIZE) = 4096 - unat va mod 4096"
      by (subst unat_minus_word) (simp_all add: PAGE_SIZE_def unat_mod word_le_nat_alt order.strict_implies_order)
    then show ?thesis using assms(5) by (auto simp: out_chunk_def Let_def e word_less_nat_alt word_unat_eq_iff)
  qed
  let ?d = "P2K 0 + va mod PAGE_SIZE"
  have um: "unat (va mod PAGE_SIZE) = unat va mod 4096" by (simp add: PAGE_SIZE_def unat_mod)
  have ud: "unat ?d = unat KSPACE_MASK + unat va mod 4096"
    using um mod_less_divisor [of 4096 "unat va"] by (simp add: P2K_def KSPACE_MASK_def unat_word_ariths)
  have dl: "unat ?d + unat len \<le> 2 ^ 64" using ud assms(5) by (simp add: KSPACE_MASK_def)
  have pa: "P2K (PTE_ADDRESS 0) = P2K 0" "P2K 0 \<noteq> 0" by (simp_all add: PTE_ADDRESS_def P2K_def KSPACE_MASK_def)
  have "runs (uva2ka1 me pgdir (ROUNDDOWN va PAGE_SIZE)) s (\<lambda>pa0 t. runs (if pa0 = 0 then ret (- 1) else
      andthen (modify (\<lambda>s. s\<lparr>kmem := memmove (kmem s) (pa0 + (va - ROUNDDOWN va PAGE_SIZE)) p (out_chunk va len)\<rparr>))
        (copyout me pgdir (ROUNDDOWN va PAGE_SIZE + PAGE_SIZE) (p + out_chunk va len) (len - out_chunk va len))) t
      (\<lambda>r t. r = 0 \<and> (\<forall>i < len. kmem t (?d + i) = kmem s (p + i))))"
  proof (rule uva2ka1_spec [OF assms(1,2)], unfold assms(3) pa(1))
    fix t ps' T'
    assume "grown s ps T t ps' T'"
    then have "kmem t (p + i) = kmem s (p + i)" if "i < len" for i
      using assms(7) that by (simp add: grown_def same_frame_def)
    moreover have "memmove (kmem t) ?d p len (?d + i) = kmem t (p + i)" if "i < len" for i
      using that memmove_moved [OF assms(6) dl, of "kmem t"] by (simp add: moved_def word_less_nat_alt)
    ultimately show "runs (if P2K 0 = 0 then ret (- 1) else
      andthen (modify (\<lambda>s. s\<lparr>kmem := memmove (kmem s) (P2K 0 + (va - ROUNDDOWN va PAGE_SIZE)) p (out_chunk va len)\<rparr>))
        (copyout me pgdir (ROUNDDOWN va PAGE_SIZE + PAGE_SIZE) (p + out_chunk va len) (len - out_chunk va len))) t
      (\<lambda>r t. r = 0 \<and> (\<forall>i < len. kmem t (?d + i) = kmem s (p + i)))"
      using pa(2) unfolding chunk by (simp add: wp ROUNDDOWN_def copyout.simps [of me pgdir _ _ 0])
  qed
  then show ?thesis using assms(4) by (subst copyout.simps) (simp add: runs_bind)
qed

theorem copyout_unmapped_page_witness:
  "\<exists>s t. copyout 0 0xffff000000100000 0x1000 0xffff000000200000 4 s = Inr (0, t) \<and>
     kmem t 0xffff000000000003 = kmem s 0xffff000000200003"
proof -
  obtain s where s: "pt_inv 0xffff000000100000 s free3 0xffff000000100000 [[] \<mapsto> 0xffff000000100000]" using root_example by blast
  have "\<forall>i < (4 :: u64). \<forall>q \<in> set free3 \<union> ran [[] \<mapsto> 0xffff000000100000]. \<not> in_page q (0xffff000000200000 + i)"
  proof (intro allI impI ballI)
    fix i q :: u64 assume i: "i < 4" and q: "q \<in> set free3 \<union> ran [[] \<mapsto> 0xffff000000100000]"
    have "unat (0xffff000000200000 + i) = 0xffff000000200000 + unat i" using i by (simp add: unat_word_ariths word_less_nat_alt)
    then have "unat (0xffff000000200000 + i) div 4096 = 0xffff000000200" using i by (simp add: word_less_nat_alt)
    then show "\<not> in_page q (0xffff000000200000 + i)"
      using q by (auto simp: free3_def in_page_div aligned_def PAGE_SIZE_def)
  qed
  from copyout_unmapped_page [OF s _ _ _ _ _ this, of "0x1000" 0]
  have "runs (copyout 0 0xffff000000100000 0x1000 0xffff000000200000 4) s (\<lambda>r t. r = 0 \<and>
      (\<forall>i < 4. kmem t (P2K 0 + 0x1000 mod PAGE_SIZE + i) = kmem s (0xffff000000200000 + i)))"
    by (simp add: leaf_empty free3_def)
  then have "runs (copyout 0 0xffff000000100000 0x1000 0xffff000000200000 4) s (\<lambda>r t. r = 0 \<and>
      kmem t 0xffff000000000003 = kmem s 0xffff000000200003)"
    by (rule runs_mono) (auto simp: P2K_def KSPACE_MASK_def PAGE_SIZE_def dest!: spec [of _ 3])
  then show ?thesis by (auto simp: runs_def)
qed

end
