(* ===== verification/Proc.thy ===== *)
theory Proc
  imports Container SleepLock File VirtMem
begin

text \<open>
  Processes and the scheduler (\<^verbatim>\<open>src/core/proc.c\<close>, \<^verbatim>\<open>src/core/sched.c\<close>) over one process table. A \<^verbatim>\<open>struct proc *\<close> is an index
  into the table. Trap frames and saved contexts lie in the memory of the page allocator. A function that gives
  up the CPU is modelled up to its call of \<^verbatim>\<open>sched\<close>, and its rest as a function of its own; the switch itself is a step
  of the scheduler.
\<close>

section \<open>State\<close>

definition NPROC :: nat where "NPROC = 14"

definition NOFILE :: nat where "NOFILE = 8"

definition KSTACKSIZE :: u64 where "KSTACKSIZE = 4096"

text \<open>What a process sleeps on: nothing, a process, or another object.\<close>

datatype waitchan = NoChan | OnProc nat | OnAddr u64

definition chan_of :: "nat option \<Rightarrow> waitchan" where
  "chan_of p = (case p of None \<Rightarrow> NoChan | Some i \<Rightarrow> OnProc i)"

record proc =
  sz :: u64
  pgdir :: u64
  kstack :: u64
  state :: procstate
  pid :: u32
  parent :: "nat option"
  tf :: u64
  ctxp :: u64
  chan :: waitchan
  killed :: bool
  pname :: "u8 list"
  ofile :: "nat option list"
  cwd :: u64
  stksz :: u64
  pbase :: u64

record 's kernel =
  mem_k :: PMemory
  fsys :: "'s fstate"
  ptable :: "proc list"
  pt_locked :: bool
  cur :: "nat option"
  initproc :: "nat option"
  conts :: "container list"

text \<open>
  Parameters: the layers below the files, the file system's geometry, the CPU, the end of the kernel image, what the
  stack holds, and the address of \<^verbatim>\<open>initenter\<close>.
\<close>

record 's kenv =
  fsenv :: "'s fs_env"
  super :: SuperBlock
  cpuid :: nat
  kend :: u64
  stack0 :: "u8 list"
  initenter :: u64

definition on_mem :: "(PMemory, 'a) cm \<Rightarrow> ('s kernel, 'a) cm" where
  "on_mem m = (\<lambda>k. case m (mem_k k) of Inl e \<Rightarrow> Inl e | Inr (a, s) \<Rightarrow> Inr (a, k\<lparr>mem_k := s\<rparr>))"

definition on_fs :: "('s fstate, 'a) cm \<Rightarrow> ('s kernel, 'a) cm" where
  "on_fs m = (\<lambda>k. case m (fsys k) of Inl e \<Rightarrow> Inl e | Inr (a, s) \<Rightarrow> Inr (a, k\<lparr>fsys := s\<rparr>))"

definition upd_proc :: "nat \<Rightarrow> (proc \<Rightarrow> proc) \<Rightarrow> ('s kernel, unit) cm" where
  "upd_proc p u = modify (\<lambda>k. k\<lparr>ptable := (ptable k)[p := u (ptable k ! p)]\<rparr>)"

definition get_proc :: "nat \<Rightarrow> ('s kernel, proc) cm" where
  "get_proc p = gets (\<lambda>k. ptable k ! p)"

definition thisproc :: "('s kernel, nat) cm" where
  "thisproc = bind (gets cur) (\<lambda>c. case c of None \<Rightarrow> fail BadAccess | Some p \<Rightarrow> ret p)"

section \<open>The process table\<close>

definition acquire_sched_lock :: "('s kernel, unit) cm" where
  "acquire_sched_lock = andthen (guard_cm Blocked (\<lambda>k. \<not> pt_locked k)) (modify (\<lambda>k. k\<lparr>pt_locked := True\<rparr>))"

definition release_sched_lock :: "('s kernel, unit) cm" where
  "release_sched_lock = andthen (guard_cm (Panic ''release: lock not held'') pt_locked) (modify (\<lambda>k. k\<lparr>pt_locked := False\<rparr>))"

definition find_unused :: "proc list \<Rightarrow> nat option" where
  "find_unused ps = find (\<lambda>i. state (ps ! i) = UNUSED) [0..<NPROC]"

definition get_pid :: "nat \<Rightarrow> ('s kernel, u32) cm" where
  "get_pid p = (\<lambda>k. case alloc_resource 0 p (conts k) of Inl e \<Rightarrow> Inl e | Inr (n, cs) \<Rightarrow> Inr (n, k\<lparr>conts := cs\<rparr>))"

definition alloc_pcb :: "('s kernel, nat option) cm" where
  "alloc_pcb =
     andthen acquire_sched_lock
     (bind (gets (\<lambda>k. find_unused (ptable k))) (\<lambda>r.
        case r of
          Some i \<Rightarrow>
            bind (get_pid i) (\<lambda>n.
              andthen (upd_proc i (\<lambda>p. p\<lparr>pid := n\<rparr>)) (andthen release_sched_lock (ret (Some i))))
        | None \<Rightarrow> andthen release_sched_lock (ret None)))"

definition sizeof_Trapframe :: u64 where "sizeof_Trapframe = 35 * 8"

definition sizeof_context :: u64 where "sizeof_context = 16 * 8"

text \<open>Places of the registers in a trap frame.\<close>

definition tf_elr :: u64 where "tf_elr = 8"

definition tf_spsr :: u64 where "tf_spsr = 16"

definition tf_sp :: u64 where "tf_sp = 24"

definition tf_x :: "nat \<Rightarrow> u64" where "tf_x n = 32 + 8 * of_nat n"

definition ctx_r30 :: u64 where "ctx_r30 = 15 * 8"

definition alloc_proc :: "'s kenv \<Rightarrow> ('s kernel, nat option) cm" where
  "alloc_proc K = bind alloc_pcb (\<lambda>r.
     case r of
       None \<Rightarrow> ret None
     | Some p \<Rightarrow>
        andthen (upd_proc p (\<lambda>x. x\<lparr>state := EMBRYO\<rparr>))
        (bind (on_mem (kalloc (cpuid K))) (\<lambda>stp.
          if stp = 0 then andthen (upd_proc p (\<lambda>x. x\<lparr>state := UNUSED\<rparr>)) (ret None)
          else
            andthen (upd_proc p (\<lambda>x. x\<lparr>kstack := stp + KSTACKSIZE, tf := stp + KSTACKSIZE - sizeof_Trapframe,
                ctxp := stp + KSTACKSIZE - sizeof_Trapframe - sizeof_context\<rparr>))
            (andthen (on_mem (store (stp + KSTACKSIZE - sizeof_Trapframe - sizeof_context + ctx_r30) (initenter K)))
              (ret (Some p))))))"

fun write_bytes :: "u64 \<Rightarrow> u8 list \<Rightarrow> mem \<Rightarrow> mem" where
  "write_bytes a [] m = m"
| "write_bytes a (b # bs) m = write_bytes (a + 1) bs (m(a := b))"

text \<open>A first user process with the program \<open>code\<close> at address 0: the part the three functions below share.\<close>

definition spawn_code :: "'s kenv \<Rightarrow> u8 list \<Rightarrow> u8 list \<Rightarrow> ('s kernel, nat) cm" where
  "spawn_code K nm code = bind (alloc_proc K) (\<lambda>r.
     case r of
       None \<Rightarrow> fail (Panic ''failed alloc proc'')
     | Some p \<Rightarrow>
        bind (on_mem (pgdir_init (cpuid K))) (\<lambda>newpgdir.
          if newpgdir = 0 then fail (Panic ''failed to alloc pgdir'')
          else
            andthen (upd_proc p (\<lambda>x. x\<lparr>pgdir := newpgdir\<rparr>))
            (bind (on_mem (kalloc (cpuid K))) (\<lambda>newpage.
              andthen (on_mem (modify (\<lambda>s. s\<lparr>kmem := write_bytes newpage code (kmem s)\<rparr>)))
              (andthen (upd_proc p (\<lambda>x. x\<lparr>pname := strncpy_l nm 16\<rparr>))
              (andthen (on_mem (uvm_map (cpuid K) newpgdir 0 PGSIZE (K2P newpage)))
              (bind (get_proc p) (\<lambda>x.
                andthen (on_mem (store (tf x + tf_elr) 0))
                (andthen (on_mem (store (tf x + tf_spsr) 0))
                (andthen (on_mem (store (tf x + tf_sp) PGSIZE))
                (andthen (on_mem (store (tf x + tf_x 30) 0))
                (andthen (upd_proc p (\<lambda>x. x\<lparr>state := RUNNABLE, sz := PGSIZE\<rparr>))
                  (ret p)))))))))))))"

definition op_begin :: "'s kenv \<Rightarrow> ('s kernel, unit) cm" where
  "op_begin K = on_fs (on_tree (below (begin_op (cache (fsenv K)))))"

definition op_end :: "'s kenv \<Rightarrow> ('s kernel, unit) cm" where
  "op_end K = on_fs (on_tree (below (end_op (cache (fsenv K)))))"

text \<open>\<^verbatim>\<open>namei\<close> starts at the working directory of the current process.\<close>

definition cwd_of :: "'s kernel \<Rightarrow> u64" where
  "cwd_of k = (case cur k of None \<Rightarrow> 0 | Some p \<Rightarrow> cwd (ptable k ! p))"

definition namei_k :: "'s kenv \<Rightarrow> u8 list \<Rightarrow> ('s kernel, u64) cm" where
  "namei_k K path = bind (gets cwd_of) (\<lambda>d. on_fs (on_tree (namei (fsenv K) (super K) (stack0 K) True d path)))"

definition put_k :: "'s kenv \<Rightarrow> u64 \<Rightarrow> ('s kernel, unit) cm" where
  "put_k K ip = on_fs (on_tree (inode_put (fsenv K) (super K) True ip))"

definition spawn_init_process :: "'s kenv \<Rightarrow> u8 list \<Rightarrow> ('s kernel, unit) cm" where
  "spawn_init_process K icode = bind (spawn_code K [105, 110, 105, 116, 112, 114, 111, 99] icode) (\<lambda>p.
     andthen (modify (\<lambda>k. k\<lparr>initproc := Some p\<rparr>))
     (andthen (op_begin K)
     (bind (namei_k K [47]) (\<lambda>ip.
       andthen (upd_proc p (\<lambda>x. x\<lparr>cwd := ip\<rparr>)) (op_end K)))))"

definition spawn_init_process_sd :: "'s kenv \<Rightarrow> u8 list \<Rightarrow> ('s kernel, unit) cm" where
  "spawn_init_process_sd K ispin = andthen (spawn_code K [115, 100, 112, 114, 111, 99] ispin) (ret ())"

fun add_loop_test :: "'s kenv \<Rightarrow> u8 list \<Rightarrow> nat \<Rightarrow> ('s kernel, unit) cm" where
  "add_loop_test K lp 0 = ret ()"
| "add_loop_test K lp (Suc n) =
     andthen (spawn_code K [105, 110, 105, 116, 112, 114, 111, 99] lp) (add_loop_test K lp n)"

section \<open>Giving up the CPU and waking up\<close>

definition wakeup1 :: "waitchan \<Rightarrow> ('s kernel, unit) cm" where
  "wakeup1 c = modify (\<lambda>k. k\<lparr>ptable :=
     map (\<lambda>i. if Some i \<noteq> cur k \<and> state (ptable k ! i) = SLEEPING \<and> chan (ptable k ! i) = c
               then (ptable k ! i)\<lparr>state := RUNNABLE\<rparr> else ptable k ! i) [0..<length (ptable k)]\<rparr>)"

definition wakeup :: "waitchan \<Rightarrow> ('s kernel, unit) cm" where
  "wakeup c = andthen acquire_sched_lock (andthen (wakeup1 c) release_sched_lock)"

text \<open>\<^verbatim>\<open>sched_simple\<close> up to the switch.\<close>

definition sched :: "('s kernel, unit) cm" where
  "sched =
     andthen (guard_cm (Panic ''sched: not holding ptable lock'') pt_locked)
     (bind thisproc (\<lambda>p.
        guard_cm (Panic ''sched: process running'') (\<lambda>k. state (ptable k ! p) \<noteq> RUNNING)))"

definition yield_enter :: "('s kernel, unit) cm" where
  "yield_enter = andthen acquire_sched_lock
     (bind thisproc (\<lambda>p. andthen (upd_proc p (\<lambda>x. x\<lparr>state := RUNNABLE\<rparr>)) sched))"

definition yield_leave :: "('s kernel, unit) cm" where
  "yield_leave = release_sched_lock"

text \<open>\<^verbatim>\<open>sleep(chan, lock)\<close> with another lock: \<open>unlock\<close> releases it.\<close>

definition sleep_enter :: "waitchan \<Rightarrow> ('s kernel, unit) cm \<Rightarrow> ('s kernel, unit) cm" where
  "sleep_enter c unlock =
     andthen acquire_sched_lock
     (andthen unlock
     (bind thisproc (\<lambda>p. andthen (upd_proc p (\<lambda>x. x\<lparr>chan := c, state := SLEEPING\<rparr>)) sched)))"

definition sleep_leave :: "('s kernel, unit) cm \<Rightarrow> ('s kernel, unit) cm" where
  "sleep_leave relock =
     bind thisproc (\<lambda>p. andthen (upd_proc p (\<lambda>x. x\<lparr>chan := NoChan\<rparr>)) (andthen release_sched_lock relock))"

section \<open>Exit\<close>

definition close_fd :: "'s kenv \<Rightarrow> nat \<Rightarrow> nat \<Rightarrow> ('s kernel, unit) cm" where
  "close_fd K p fd = bind (get_proc p) (\<lambda>x.
     case ofile x ! fd of
       None \<Rightarrow> ret ()
     | Some f \<Rightarrow>
        andthen (on_fs (fileclose (fsenv K) (super K) f)) (upd_proc p (\<lambda>x. x\<lparr>ofile := (ofile x)[fd := None]\<rparr>)))"

text \<open>One round of the loop that hands the children of an exiting process to the first process.\<close>

definition reparent :: "nat \<Rightarrow> nat \<Rightarrow> ('s kernel, unit) cm" where
  "reparent p i = bind (get_proc i) (\<lambda>q.
     if parent q = Some p then
       bind (gets initproc) (\<lambda>ini.
         andthen (upd_proc i (\<lambda>x. x\<lparr>parent := ini\<rparr>))
           (if state q = ZOMBIE then wakeup1 (chan_of ini) else ret ()))
     else ret ())"

text \<open>The part of \<^verbatim>\<open>exit\<close> under the lock of the process table.\<close>

definition exit_sched :: "nat \<Rightarrow> ('s kernel, unit) cm" where
  "exit_sched p = andthen acquire_sched_lock
     (bind (get_proc p) (\<lambda>x.
       andthen (wakeup1 (chan_of (parent x)))
       (andthen (for_each (reparent p) [0..<NPROC])
       (andthen (upd_proc p (\<lambda>x. x\<lparr>state := ZOMBIE\<rparr>))
         sched))))"

definition exit_proc :: "'s kenv \<Rightarrow> ('s kernel, unit) cm" where
  "exit_proc K = bind thisproc (\<lambda>p.
     andthen (guard_cm (Panic ''exit INITPROC'') (\<lambda>k. initproc k \<noteq> Some p))
     (andthen (for_each (close_fd K p) [0..<NOFILE])
     (andthen (op_begin K)
     (bind (get_proc p) (\<lambda>x.
       andthen (put_k K (cwd x))
       (andthen (op_end K)
       (andthen (upd_proc p (\<lambda>x. x\<lparr>cwd := 0\<rparr>))
         (exit_sched p))))))))"

section \<open>Fork and wait\<close>

text \<open>\<^verbatim>\<open>(usize)(int)n\<close> for the 32-bit results and arguments of the memory functions.\<close>

definition sext :: "u32 \<Rightarrow> u64" where
  "sext n = scast n"

definition growproc :: "'s kenv \<Rightarrow> u32 \<Rightarrow> ('s kernel, int) cm" where
  "growproc K n = bind thisproc (\<lambda>p. bind (get_proc p) (\<lambda>x.
     if sint n > 0 then
       bind (on_mem (uvm_alloc (kend K) (cpuid K) (pgdir x) (pbase x) (stksz x) (sz x) (sz x + sext n))) (\<lambda>r.
         if (word_of_int r :: u64) = 0 then ret (- 1)
         else andthen (upd_proc p (\<lambda>x. x\<lparr>sz := word_of_int r\<rparr>)) (ret 0))
     else if sint n < 0 then
       bind (on_mem (uvm_dealloc (kend K) (cpuid K) (pgdir x) (pbase x) (sz x) (sz x + sext n))) (\<lambda>r.
         andthen (upd_proc p (\<lambda>x. x\<lparr>sz := word_of_int r\<rparr>)) (ret 0))
     else ret 0))"

definition copy_tf :: "u64 \<Rightarrow> u64 \<Rightarrow> (PMemory, unit) cm" where
  "copy_tf dst src = for_each (\<lambda>i. bind (load (src + 8 * of_nat i)) (\<lambda>v. store (dst + 8 * of_nat i) v)) [0..<35]"

definition dup_fd :: "nat \<Rightarrow> nat \<Rightarrow> nat \<Rightarrow> ('s kernel, unit) cm" where
  "dup_fd p np fd = bind (get_proc p) (\<lambda>x.
     case ofile x ! fd of
       None \<Rightarrow> ret ()
     | Some f \<Rightarrow> bind (on_fs (filedup f)) (\<lambda>g. upd_proc np (\<lambda>y. y\<lparr>ofile := (ofile y)[fd := Some g]\<rparr>)))"

text \<open>\<^verbatim>\<open>fork\<close>: the child \<open>np\<close> of \<open>p\<close> once it has an address space, and the whole function.\<close>

definition fork_child :: "nat \<Rightarrow> nat \<Rightarrow> proc \<Rightarrow> ('s kernel, u32) cm" where
  "fork_child p np x = bind (get_proc np) (\<lambda>y.
     andthen (upd_proc np (\<lambda>y. y\<lparr>sz := sz x\<rparr>))
     (andthen (on_mem (copy_tf (tf y) (tf x)))
     (andthen (on_mem (store (tf y + tf_x 0) 0))
     (andthen (upd_proc np (\<lambda>y. y\<lparr>parent := Some p\<rparr>))
     (andthen (for_each (dup_fd p np) [0..<NOFILE])
     (andthen (upd_proc np (\<lambda>y. y\<lparr>pname := strncpy_l (pname x) 16\<rparr>))
     (bind (on_fs (on_tree (inode_share (cwd x)))) (\<lambda>c.
       andthen (upd_proc np (\<lambda>y. y\<lparr>cwd := c, state := RUNNABLE\<rparr>))
         (bind (get_proc np) (\<lambda>y. ret (pid y)))))))))))"

definition fork :: "'s kenv \<Rightarrow> ('s kernel, u32) cm" where
  "fork K = bind thisproc (\<lambda>p. bind (alloc_proc K) (\<lambda>r.
     case r of
       None \<Rightarrow> ret (- 1)
     | Some np \<Rightarrow>
        bind (get_proc p) (\<lambda>x.
        bind (on_mem (uvm_copy (cpuid K) (pgdir x))) (\<lambda>d.
          andthen (upd_proc np (\<lambda>y. y\<lparr>pgdir := d\<rparr>))
          (if d = 0 then
             bind (get_proc np) (\<lambda>y.
               andthen (on_mem (free_cm (kend K) (cpuid K) (kstack y - KSTACKSIZE)))
               (andthen (upd_proc np (\<lambda>y. y\<lparr>kstack := 0, state := UNUSED\<rparr>))
                 (ret (- 1))))
           else fork_child p np x)))))"

text \<open>
  \<^verbatim>\<open>wait\<close>: the scan over the table with whether a child was seen, what is done with a dead child, and one round of
  the loop. \<open>None\<close>: the process sleeps; after it has been woken, \<open>wait_resume\<close> goes on.
\<close>

definition reap :: "'s kenv \<Rightarrow> nat \<Rightarrow> ('s kernel, u32) cm" where
  "reap K i = bind (get_proc i) (\<lambda>q.
     andthen (upd_proc i (\<lambda>x. x\<lparr>killed := False, state := UNUSED, pid := 0, parent := None\<rparr>))
     (andthen (on_mem (vm_free (kend K) (cpuid K) (pgdir q)))
     (andthen (on_mem (free_cm (kend K) (cpuid K) (kstack q - KSTACKSIZE)))
     (andthen release_sched_lock
       (ret (pid q))))))"

fun wait_scan :: "'s kenv \<Rightarrow> nat \<Rightarrow> nat list \<Rightarrow> bool \<Rightarrow> ('s kernel, u32 + bool) cm" where
  "wait_scan K tp [] kids = ret (Inr kids)"
| "wait_scan K tp (i # is) kids = bind (get_proc i) (\<lambda>q.
     if parent q \<noteq> Some tp then wait_scan K tp is kids
     else if state q = ZOMBIE then bind (reap K i) (\<lambda>n. ret (Inl n))
     else wait_scan K tp is True)"

definition wait_round :: "'s kenv \<Rightarrow> ('s kernel, u32 option) cm" where
  "wait_round K = bind thisproc (\<lambda>tp. bind (wait_scan K tp [0..<NPROC] False) (\<lambda>r.
     case r of
       Inl n \<Rightarrow> ret (Some n)
     | Inr kids \<Rightarrow>
        bind (get_proc tp) (\<lambda>x.
          if \<not> kids \<or> killed x then andthen release_sched_lock (ret (Some (- 1)))
          else andthen (upd_proc tp (\<lambda>x. x\<lparr>chan := OnProc tp, state := SLEEPING\<rparr>)) (andthen sched (ret None)))))"

definition wait :: "'s kenv \<Rightarrow> ('s kernel, u32 option) cm" where
  "wait K = andthen acquire_sched_lock (wait_round K)"

definition wait_resume :: "'s kenv \<Rightarrow> ('s kernel, u32 option) cm" where
  "wait_resume K = bind thisproc (\<lambda>p. andthen (upd_proc p (\<lambda>x. x\<lparr>chan := NoChan\<rparr>)) (wait_round K))"

end
