(* ===== verification/Syscall.thy ===== *)
theory Syscall
  imports Proc
begin

text \<open>
  System calls (\<^verbatim>\<open>src/core/syscall.c\<close>, \<^verbatim>\<open>src/core/sysfile.c\<close>, \<^verbatim>\<open>src/core/sysproc.c\<close>). Arguments are read from the trap frame of
  the current process. User memory is reached through the page table of the current process, as the MMU does it; an
  access to an address that is not mapped is \<^term>\<open>BadAccess\<close>. Constants and structures of the C library are
  parameters. Messages printed by the calls have no effect here. A fetched argument is an option: \<open>None\<close> is the
  result \<^verbatim>\<open>-1\<close>.
\<close>

section \<open>User memory\<close>

record libc =
  AT_FDCWD :: u32
  O_CREAT :: u32
  O_WRONLY :: u32
  O_RDWR :: u32
  S_IFREG :: u32
  S_IFDIR :: u32
  sizeof_stat :: usize
  stat_bytes :: "stat \<Rightarrow> u8 list"

definition USERTOP :: u64 where "USERTOP = 0x0001000000000000"

definition translate :: "nat \<Rightarrow> u64 \<Rightarrow> u64 \<Rightarrow> (PMemory, u64) cm" where
  "translate me dir va = bind (pgdir_walk me dir va False) (\<lambda>pte.
     if pte = 0 then fail BadAccess
     else
       bind (load pte) (\<lambda>e.
         if e AND PTE_VALID = 0 then fail BadAccess else ret (P2K (PTE_ADDRESS e) + va mod PAGE_SIZE)))"

definition user_byte :: "nat \<Rightarrow> u64 \<Rightarrow> u64 \<Rightarrow> (PMemory, u8) cm" where
  "user_byte me dir va = bind (translate me dir va) (\<lambda>a. gets (\<lambda>s. kmem s a))"

fun user_bytes :: "nat \<Rightarrow> u64 \<Rightarrow> u64 \<Rightarrow> nat \<Rightarrow> (PMemory, u8 list) cm" where
  "user_bytes me dir va 0 = ret []"
| "user_bytes me dir va (Suc n) =
     bind (user_byte me dir va) (\<lambda>b. bind (user_bytes me dir (va + 1) n) (\<lambda>bs. ret (b # bs)))"

fun user_write :: "nat \<Rightarrow> u64 \<Rightarrow> u64 \<Rightarrow> u8 list \<Rightarrow> (PMemory, unit) cm" where
  "user_write me dir va [] = ret ()"
| "user_write me dir va (b # bs) =
     bind (translate me dir va) (\<lambda>a.
       andthen (modify (\<lambda>s. s\<lparr>kmem := (kmem s)(a := b)\<rparr>)) (user_write me dir (va + 1) bs))"

section \<open>Arguments\<close>

definition in_user :: "proc \<Rightarrow> u64 \<Rightarrow> usize \<Rightarrow> bool" where
  "in_user p s n \<longleftrightarrow>
     pbase p \<le> s \<and> s + n \<le> sz p \<or> USERTOP - stksz p \<le> s \<and> s + n \<le> USERTOP"

definition this_proc :: "('s kernel, proc) cm" where
  "this_proc = bind thisproc get_proc"

definition fetchint :: "'s kenv \<Rightarrow> u64 \<Rightarrow> ('s kernel, u64) cm" where
  "fetchint K addr = bind this_proc (\<lambda>p.
     bind (on_mem (user_bytes (cpuid K) (pgdir p) addr 8)) (\<lambda>bs. ret (of_le bs)))"

text \<open>The bytes before the first zero among the next \<open>n\<close>.\<close>

fun fetch_until_nul :: "nat \<Rightarrow> u64 \<Rightarrow> u64 \<Rightarrow> nat \<Rightarrow> (PMemory, u8 list option) cm" where
  "fetch_until_nul me dir a 0 = ret None"
| "fetch_until_nul me dir a (Suc n) =
     bind (user_byte me dir a) (\<lambda>b.
       if b = 0 then ret (Some [])
       else bind (fetch_until_nul me dir (a + 1) n) (\<lambda>r. ret (map_option (\<lambda>bs. b # bs) r)))"

definition fetchstr :: "'s kenv \<Rightarrow> u64 \<Rightarrow> ('s kernel, u8 list option) cm" where
  "fetchstr K addr = bind this_proc (\<lambda>p.
     if pbase p \<le> addr \<and> addr < sz p then
       on_mem (fetch_until_nul (cpuid K) (pgdir p) addr (unat (sz p - addr)))
     else if USERTOP - stksz p \<le> addr \<and> addr < USERTOP then
       on_mem (fetch_until_nul (cpuid K) (pgdir p) addr (unat (USERTOP - addr)))
     else ret None)"

definition argu64 :: "nat \<Rightarrow> ('s kernel, u64 option) cm" where
  "argu64 n =
     (if n > 5 then ret None
      else bind this_proc (\<lambda>p. bind (on_mem (load (tf p + tf_x n))) (\<lambda>v. ret (Some v))))"

definition argint :: "nat \<Rightarrow> ('s kernel, u32 option) cm" where
  "argint n =
     (if n > 5 then ret None
      else bind this_proc (\<lambda>p. bind (on_mem (load (tf p + tf_x n))) (\<lambda>v. ret (Some (ucast v)))))"

definition argptr :: "nat \<Rightarrow> usize \<Rightarrow> ('s kernel, u64 option) cm" where
  "argptr n len = bind (argu64 n) (\<lambda>r.
     case r of
       None \<Rightarrow> ret None
     | Some i \<Rightarrow> bind this_proc (\<lambda>p. ret (if in_user p i len then Some i else None)))"

definition argstr :: "'s kenv \<Rightarrow> nat \<Rightarrow> ('s kernel, u8 list option) cm" where
  "argstr K n = bind (argu64 n) (\<lambda>r. case r of None \<Rightarrow> ret None | Some addr \<Rightarrow> fetchstr K addr)"

definition argfd :: "nat \<Rightarrow> ('s kernel, (nat \<times> nat) option) cm" where
  "argfd n = bind (argint n) (\<lambda>r.
     case r of
       None \<Rightarrow> ret None
     | Some fd \<Rightarrow>
        bind this_proc (\<lambda>p.
          ret (if sint fd < 0 \<or> sint fd \<ge> int NOFILE then None
               else map_option (\<lambda>f. (unat fd, f)) (ofile p ! unat fd))))"

text \<open>Go on with an argument, or return \<^verbatim>\<open>-1\<close>.\<close>

definition need :: "('s kernel, 'a option) cm \<Rightarrow> ('a \<Rightarrow> ('s kernel, u64) cm) \<Rightarrow> ('s kernel, u64) cm" where
  "need m f = bind m (\<lambda>r. case r of None \<Rightarrow> ret (- 1) | Some x \<Rightarrow> f x)"

text \<open>The first free descriptor.\<close>

definition free_fd :: "nat option list \<Rightarrow> nat option" where
  "free_fd ds = find (\<lambda>i. ds ! i = None) [0..<NOFILE]"

definition fdalloc :: "nat \<Rightarrow> ('s kernel, nat option) cm" where
  "fdalloc f = bind thisproc (\<lambda>p. bind (get_proc p) (\<lambda>x.
     case free_fd (ofile x) of
       None \<Rightarrow> ret None
     | Some i \<Rightarrow> andthen (upd_proc p (\<lambda>x. x\<lparr>ofile := (ofile x)[i := Some f]\<rparr>)) (ret (Some i))))"

section \<open>Calls on open files\<close>

definition sys_dup :: "('s kernel, u64) cm" where
  "sys_dup = need (argfd 0) (\<lambda>(_, f). need (fdalloc f) (\<lambda>fd. andthen (on_fs (filedup f)) (ret (of_nat fd))))"

definition sys_read :: "'s kenv \<Rightarrow> ('s kernel, u64) cm" where
  "sys_read K = need (argfd 0) (\<lambda>(_, f). need (argint 2) (\<lambda>n. need (argptr 1 (sext n)) (\<lambda>p.
     bind (on_fs (fileread (fsenv K) f (sext n))) (\<lambda>(r, bs).
     bind this_proc (\<lambda>x.
       andthen (on_mem (user_write (cpuid K) (pgdir x) p bs)) (ret r))))))"

text \<open>The bytes a write can take from user memory: \<open>n\<close> of them for each of its rounds.\<close>

definition user_src :: "'s kenv \<Rightarrow> u64 \<Rightarrow> usize \<Rightarrow> ('s kernel, u8 list) cm" where
  "user_src K p n = bind this_proc (\<lambda>x. on_mem (user_bytes (cpuid K) (pgdir x) p (unat n)))"

definition sys_write :: "'s kenv \<Rightarrow> ('s kernel, u64) cm" where
  "sys_write K = need (argfd 0) (\<lambda>(_, f). need (argint 2) (\<lambda>n. need (argptr 1 (sext n)) (\<lambda>p.
     bind (user_src K p (sext n)) (\<lambda>src. on_fs (filewrite (fsenv K) (super K) f src (sext n))))))"

fun writev_loop :: "'s kenv \<Rightarrow> nat \<Rightarrow> u64 \<Rightarrow> nat \<Rightarrow> usize \<Rightarrow> ('s kernel, u64) cm" where
  "writev_loop K f p 0 tot = ret tot"
| "writev_loop K f p (Suc n) tot =
     bind (fetchint K p) (\<lambda>iov_base. bind (fetchint K (p + 8)) (\<lambda>iov_len.
     bind this_proc (\<lambda>x.
       if \<not> in_user x iov_base iov_len then ret (- 1)
       else
         bind (user_src K iov_base iov_len) (\<lambda>src.
         bind (on_fs (filewrite (fsenv K) (super K) f src iov_len)) (\<lambda>r.
           writev_loop K f (p + 16) n (tot + r))))))"

text \<open>\<open>junk\<close> is the upper half of \<^verbatim>\<open>iovcnt\<close>, which \<^verbatim>\<open>argint\<close> does not set.\<close>

definition sys_writev :: "'s kenv \<Rightarrow> u64 \<Rightarrow> ('s kernel, u64) cm" where
  "sys_writev K junk = need (argfd 0) (\<lambda>(_, f). need (argint 2) (\<lambda>c.
     (let iovcnt = (junk AND NOT (mask 32)) OR ucast c in
      need (argptr 1 (iovcnt * 16)) (\<lambda>iov. writev_loop K f iov (nat (sint iovcnt)) 0))))"

definition sys_close :: "'s kenv \<Rightarrow> ('s kernel, u64) cm" where
  "sys_close K = need (argfd 0) (\<lambda>(fd, f). bind thisproc (\<lambda>p.
     andthen (upd_proc p (\<lambda>x. x\<lparr>ofile := (ofile x)[fd := None]\<rparr>))
     (andthen (on_fs (fileclose (fsenv K) (super K) f)) (ret 0))))"

definition sys_fstat :: "libc \<Rightarrow> 's kenv \<Rightarrow> ('s kernel, u64) cm" where
  "sys_fstat L K = need (argfd 0) (\<lambda>(_, f). need (argptr 1 (sizeof_stat L)) (\<lambda>st.
     bind (on_fs (filestat (S_IFREG L) (S_IFDIR L) f)) (\<lambda>r.
       case r of
         None \<Rightarrow> ret (- 1)
       | Some v \<Rightarrow> bind this_proc (\<lambda>x. andthen (on_mem (user_write (cpuid K) (pgdir x) st (stat_bytes L v))) (ret 0)))))"

section \<open>Calls on paths\<close>

definition lock_k :: "u64 \<Rightarrow> ('s kernel, unit) cm" where
  "lock_k ip = on_fs (on_tree (inode_lock ip))"

definition unlock_k :: "u64 \<Rightarrow> ('s kernel, unit) cm" where
  "unlock_k ip = on_fs (on_tree (inode_unlock ip))"

definition sync_k :: "'s kenv \<Rightarrow> u64 \<Rightarrow> ('s kernel, unit) cm" where
  "sync_k K ip = on_fs (on_tree (inode_sync (fsenv K) (super K) True ip True))"

definition get_k :: "'s kenv \<Rightarrow> usize \<Rightarrow> ('s kernel, u64) cm" where
  "get_k K n = on_fs (on_tree (inode_get (fsenv K) (super K) n))"

definition inode_of :: "u64 \<Rightarrow> ('s kernel, Inode) cm" where
  "inode_of ip = gets (\<lambda>k. itab (tree (fsys k)) ip)"

definition upd_entry_k :: "u64 \<Rightarrow> (InodeEntry \<Rightarrow> InodeEntry) \<Rightarrow> ('s kernel, unit) cm" where
  "upd_entry_k ip f = on_fs (on_tree (upd_entry ip f))"

definition insert_k :: "'s kenv \<Rightarrow> u64 \<Rightarrow> u8 list \<Rightarrow> usize \<Rightarrow> ('s kernel, usize) cm" where
  "insert_k K ip nm n = on_fs (on_tree (inode_insert (fsenv K) (super K) (stack0 K) True ip nm n))"

definition sys_fstatat :: "libc \<Rightarrow> 's kenv \<Rightarrow> ('s kernel, u64) cm" where
  "sys_fstatat L K = need (argint 0) (\<lambda>dirfd. need (argstr K 1) (\<lambda>path.
     need (argptr 2 (sizeof_stat L)) (\<lambda>st. need (argint 3) (\<lambda>flags.
       if dirfd \<noteq> AT_FDCWD L then ret (- 1)
       else if flags \<noteq> 0 then ret (- 1)
       else
         andthen (op_begin K)
         (bind (namei_k K path) (\<lambda>ip.
            if ip = 0 then andthen (op_end K) (ret (- 1))
            else
              andthen (lock_k ip)
              (bind (on_fs (on_tree (stati (S_IFREG L) (S_IFDIR L) ip))) (\<lambda>v.
               bind this_proc (\<lambda>x.
                 andthen (on_mem (user_write (cpuid K) (pgdir x) st (stat_bytes L v)))
                 (andthen (unlock_k ip)
                 (andthen (put_k K ip)
                 (andthen (op_end K)
                   (ret 0)))))))))))))"

text \<open>
  \<^verbatim>\<open>create\<close>; 0 is the null pointer. A name that exists is only good for opening a regular file; otherwise the
  code calls \<^verbatim>\<open>inodes.put(ip, ctx)\<close> with its arguments exchanged and takes the operation on the stack for an inode.
\<close>

definition create_existing :: "'s kenv \<Rightarrow> u64 \<Rightarrow> u32 \<Rightarrow> u16 \<Rightarrow> ('s kernel, u64) cm" where
  "create_existing K dp ipn ty = bind (get_k K (ucast ipn)) (\<lambda>ip.
     andthen (unlock_k dp)
     (andthen (put_k K dp)
     (andthen (lock_k ip)
     (bind (inode_of ip) (\<lambda>i.
        if ty = INODE_REGULAR \<and> itype (entry i) = INODE_REGULAR then ret ip
        else andthen (unlock_k ip) (fail BadAccess))))))"

definition create_new :: "'s kenv \<Rightarrow> u64 \<Rightarrow> u8 list \<Rightarrow> u16 \<Rightarrow> u16 \<Rightarrow> u16 \<Rightarrow> ('s kernel, u64) cm" where
  "create_new K dp nm ty maj mnr =
     bind (on_fs (on_tree (inode_alloc (fsenv K) (super K) True ty))) (\<lambda>n.
     bind (get_k K n) (\<lambda>ip.
       andthen (guard_cm (Panic ''alloc failed'') (\<lambda>_. ip \<noteq> 0))
       (andthen (lock_k ip)
       (andthen (upd_entry_k ip (\<lambda>e. e\<lparr>major := maj, minor := mnr, num_links := 1\<rparr>))
       (andthen (sync_k K ip)
       (bind (inode_of ip) (\<lambda>i.
       bind (inode_of dp) (\<lambda>d.
         andthen
           (if ty = INODE_DIRECTORY then
              andthen (upd_entry_k dp (\<lambda>e. e\<lparr>num_links := num_links e + 1\<rparr>))
              (andthen (sync_k K dp)
              (andthen (insert_k K ip [46] (inode_no i))
              (andthen (insert_k K ip [46, 46] (inode_no d))
                (ret ()))))
            else ret ())
           (andthen (insert_k K dp nm (inode_no i))
           (andthen (unlock_k dp)
           (andthen (put_k K dp)
             (ret ip))))))))))))"

definition create :: "'s kenv \<Rightarrow> u8 list \<Rightarrow> u16 \<Rightarrow> u16 \<Rightarrow> u16 \<Rightarrow> ('s kernel, u64) cm" where
  "create K path ty maj mnr =
     bind (gets cwd_of) (\<lambda>d.
     bind (on_fs (on_tree (nameiparent (fsenv K) (super K) (stack0 K) True d path (replicate FILE_NAME_MAX_LENGTH 0)))) (\<lambda>(dp, nm).
       if dp = 0 then ret 0
       else
         andthen (lock_k dp)
         (bind (on_fs (on_tree (inode_lookup (fsenv K) (stack0 K) dp nm))) (\<lambda>(n, _).
            if (ucast n :: u32) \<noteq> 0 then create_existing K dp (ucast n) ty
            else create_new K dp nm ty maj mnr))))"

definition sys_openat :: "libc \<Rightarrow> 's kenv \<Rightarrow> ('s kernel, u64) cm" where
  "sys_openat L K = need (argint 0) (\<lambda>dirfd. need (argstr K 1) (\<lambda>path. need (argint 2) (\<lambda>omode.
     if dirfd \<noteq> AT_FDCWD L then ret (- 1)
     else
       andthen (op_begin K)
       (bind (if omode AND O_CREAT L \<noteq> 0 then create K path INODE_REGULAR 0 0
              else bind (namei_k K path) (\<lambda>ip. if ip = 0 then ret 0 else andthen (lock_k ip) (ret ip))) (\<lambda>ip.
          if ip = 0 then andthen (op_end K) (ret (- 1))
          else
            (let give_up = andthen (unlock_k ip) (andthen (put_k K ip) (andthen (op_end K) (ret (- 1)))) in
             bind (on_fs filealloc) (\<lambda>r.
               case r of
                 None \<Rightarrow> give_up
               | Some f \<Rightarrow>
                  bind (fdalloc f) (\<lambda>q.
                    case q of
                      None \<Rightarrow> andthen (on_fs (fileclose (fsenv K) (super K) f)) give_up
                    | Some fd \<Rightarrow>
                       andthen (unlock_k ip)
                       (andthen (op_end K)
                       (andthen (on_fs (upd_file f (\<lambda>x. x\<lparr>ftype := FD_INODE, fip := ip, off := 0,
                            readable := omode AND O_WRONLY L = 0,
                            writable := omode AND O_WRONLY L \<noteq> 0 \<or> omode AND O_RDWR L \<noteq> 0\<rparr>)))
                         (ret (of_nat fd))))))))))))"

text \<open>The end of \<^verbatim>\<open>sys_mkdirat\<close> and \<^verbatim>\<open>sys_mknodat\<close>.\<close>

definition created :: "'s kenv \<Rightarrow> u64 \<Rightarrow> ('s kernel, u64) cm" where
  "created K ip =
     (if ip = 0 then andthen (op_end K) (ret (- 1))
      else andthen (unlock_k ip) (andthen (put_k K ip) (andthen (op_end K) (ret 0))))"

definition sys_mkdirat :: "libc \<Rightarrow> 's kenv \<Rightarrow> ('s kernel, u64) cm" where
  "sys_mkdirat L K = need (argint 0) (\<lambda>dirfd. need (argstr K 1) (\<lambda>path. need (argint 2) (\<lambda>mode.
     if dirfd \<noteq> AT_FDCWD L then ret (- 1)
     else if mode \<noteq> 0 then ret (- 1)
     else andthen (op_begin K) (bind (create K path INODE_DIRECTORY 0 0) (created K)))))"

definition sys_mknodat :: "libc \<Rightarrow> 's kenv \<Rightarrow> ('s kernel, u64) cm" where
  "sys_mknodat L K = need (argint 0) (\<lambda>dirfd. need (argstr K 1) (\<lambda>path. need (argint 2) (\<lambda>maj. need (argint 3) (\<lambda>mnr.
     if dirfd \<noteq> AT_FDCWD L then ret (- 1)
     else andthen (op_begin K) (bind (create K path INODE_DEVICE (ucast maj) (ucast mnr)) (created K))))))"

definition sys_chdir :: "'s kenv \<Rightarrow> ('s kernel, u64) cm" where
  "sys_chdir K = bind thisproc (\<lambda>p.
     andthen (op_begin K)
     (bind (argstr K 0) (\<lambda>r.
      bind (case r of None \<Rightarrow> ret 0 | Some path \<Rightarrow> namei_k K path) (\<lambda>ip.
        if ip = 0 then andthen (op_end K) (ret (- 1))
        else
          andthen (lock_k ip)
          (bind (inode_of ip) (\<lambda>i.
             if itype (entry i) \<noteq> INODE_DIRECTORY then
               andthen (unlock_k ip) (andthen (put_k K ip) (andthen (op_end K) (ret (- 1))))
             else
               andthen (unlock_k ip)
               (bind (get_proc p) (\<lambda>x.
                 andthen (put_k K (cwd x))
                 (andthen (op_end K)
                 (andthen (upd_proc p (\<lambda>x. x\<lparr>cwd := ip\<rparr>))
                   (ret 0)))))))))))"

section \<open>Calls on processes\<close>

definition sys_gettid :: "('s kernel, u64) cm" where
  "sys_gettid = bind this_proc (\<lambda>p. ret (sext (pid p)))"

definition sys_ioctl :: "('s kernel, u64) cm" where
  "sys_ioctl = bind this_proc (\<lambda>p. bind (on_mem (load (tf p + tf_x 1))) (\<lambda>v.
     if v \<noteq> 0x5413 then fail (Panic ''sys_ioctl'') else ret 0))"

definition sys_sigprocmask :: "('s kernel, u64) cm" where
  "sys_sigprocmask = ret 0"

definition sys_default :: "('s kernel, u64) cm" where
  "sys_default = ret 0"

definition sys_brk :: "'s kenv \<Rightarrow> ('s kernel, u64) cm" where
  "sys_brk K = need (argint 0) (\<lambda>n. bind this_proc (\<lambda>p.
     bind (growproc K n) (\<lambda>r. if r < 0 then ret (- 1) else ret (sz p))))"

definition sys_clone :: "'s kenv \<Rightarrow> ('s kernel, u64) cm" where
  "sys_clone K = need (argint 0) (\<lambda>flag. need (argint 1) (\<lambda>_.
     if flag \<noteq> 17 then ret (- 1) else bind (fork K) (\<lambda>n. ret (sext n))))"

text \<open>\<^verbatim>\<open>sys_wait4\<close> and \<^verbatim>\<open>sys_yield\<close> up to the point where the process gives up the CPU: \<open>None\<close>.\<close>

definition sys_wait4 :: "'s kenv \<Rightarrow> ('s kernel, u64 option) cm" where
  "sys_wait4 K = bind (argint 0) (\<lambda>a. bind (argint 1) (\<lambda>b. bind (argint 2) (\<lambda>c. bind (argint 3) (\<lambda>d.
     if a = None \<or> b = None \<or> c = None \<or> d = None then ret (Some (- 1))
     else bind (wait K) (\<lambda>r. ret (map_option sext r))))))"

definition sys_yield :: "('s kernel, u64 option) cm" where
  "sys_yield = andthen yield_enter (ret None)"

definition sys_exit :: "'s kenv \<Rightarrow> ('s kernel, u64 option) cm" where
  "sys_exit K = andthen (exit_proc K) (ret None)"

section \<open>Blocks of user memory\<close>

definition user_addr :: "proc \<Rightarrow> u64 \<Rightarrow> bool" where
  "user_addr p a \<longleftrightarrow> pbase p \<le> a \<and> a < sz p \<or> USERTOP - stksz p \<le> a \<and> a < USERTOP"

lemma block_bytes:
  fixes s n :: u64
  assumes "unat s + unat n < 2 ^ 64" "i < unat n"
  shows "s \<le> s + of_nat i" "s + of_nat i < s + n"
proof -
  have i: "unat (of_nat i :: u64) = i"
    using assms(2) unsigned_less [of n, where ?'a = nat] by (intro unat_of_nat_lt) simp
  then have "unat (s + of_nat i) = unat s + i" "unat (s + n) = unat s + unat n"
    using assms by (simp_all add: unat_word_ariths)
  then show "s \<le> s + of_nat i" "s + of_nat i < s + n"
    using assms(2) by (simp_all add: word_le_nat_alt word_less_nat_alt)
qed

lemma in_user_bytes:
  assumes "in_user p s n" "unat s + unat n < 2 ^ 64" "i < unat n"
  shows "user_addr p (s + of_nat i)"
  using assms(1) block_bytes [OF assms(2,3)] by (auto simp: in_user_def user_addr_def)

lemma in_user_wrapped:
  assumes "1 < sz p" "sz p \<le> USERTOP" "pbase p < sz p"
  shows "in_user p (sz p - 1) (1 - sz p) \<and> unat (USERTOP - (sz p - 1)) < unat (1 - sz p) \<and> \<not> user_addr p (sz p - 1 + of_nat (unat (USERTOP - (sz p - 1))))"
proof -
  have u: "unat (sz p - 1) = unat (sz p) - 1" "unat (sz p) \<le> 281474976710656" "unat (sz p) > 1"
    using assms(1,2) by (simp_all add: unat_minus_word word_le_nat_alt word_less_nat_alt USERTOP_def)
  have "pbase p \<le> sz p - 1"
    using assms(3) u(1) by (simp add: word_le_nat_alt word_less_nat_alt)
  then have "in_user p (sz p - 1) (1 - sz p)"
    by (simp add: in_user_def)
  moreover have "unat (1 - sz p) = 2 ^ 64 - (unat (sz p) - 1)"
    using u by (simp add: unat_sub_if')
  moreover have "unat (USERTOP - (sz p - 1)) \<le> 281474976710656"
    using u by (simp add: unat_minus_word word_le_nat_alt USERTOP_def)
  moreover have "\<not> user_addr p (sz p - 1 + of_nat (unat (USERTOP - (sz p - 1))))"
    using assms(2) by (auto simp: user_addr_def)
  ultimately show ?thesis
    using u(2,3) by simp
qed

text \<open>
  C39. A block that \<^verbatim>\<open>in_user\<close> accepts and that does not wrap around the address space consists of user addresses only; but
  the sum in \<^verbatim>\<open>in_user\<close> is not checked for overflow, so every process has an accepted block with addresses outside its user space.
\<close>

theorem in_user_checks_unwrapped:
  assumes "1 < sz p" "sz p \<le> USERTOP" "pbase p < sz p"
  shows "(\<forall>s n i. in_user p s n \<and> unat s + unat n < 2 ^ 64 \<and> i < unat n \<longrightarrow> user_addr p (s + of_nat i)) \<and>
    (\<exists>s n i. in_user p s n \<and> i < unat n \<and> \<not> user_addr p (s + of_nat i))"
  using in_user_bytes [of p] in_user_wrapped [OF assms] by blast

definition small_proc :: proc where
  "small_proc = \<lparr>sz = 0x5000, pgdir = 0, kstack = 0, state = RUNNING, pid = 1, parent = None, tf = 0, ctxp = 0, chan = NoChan, killed = False,
     pname = [], ofile = replicate NOFILE None, cwd = 0, stksz = 0x2000, pbase = 0\<rparr>"

theorem in_user_checks_unwrapped_witness:
  "\<exists>s n i. in_user small_proc s n \<and> i < unat n \<and> \<not> user_addr small_proc (s + of_nat i)"
  using in_user_checks_unwrapped [of small_proc] by (simp add: small_proc_def USERTOP_def)

end
