(* ===== verification/Exec.thy ===== *)
theory Exec
  imports Syscall
begin

text \<open>
  Loading a program (\<^verbatim>\<open>src/core/exec.c\<close>), the call \<^verbatim>\<open>sys_exec\<close> of \<^verbatim>\<open>src/core/sysfile.c\<close> and the table of system calls in
  \<^verbatim>\<open>src/core/syscall.c\<close>. The layout of an ELF file is that of the standard; the numbers of the system calls come from
  the C library's headers and are parameters.
\<close>

section \<open>ELF files\<close>

definition sizeof_Ehdr :: nat where "sizeof_Ehdr = 64"

definition sizeof_Phdr :: nat where "sizeof_Phdr = 56"

definition ELFMAG :: "u8 list" where "ELFMAG = [0x7F, 69, 76, 70]"

definition PT_LOAD :: u32 where "PT_LOAD = 1"

record Phdr =
  p_type :: u32
  p_offset :: u64
  p_vaddr :: u64
  p_filesz :: u64
  p_memsz :: u64

definition phdr_of :: "u8 list \<Rightarrow> Phdr" where
  "phdr_of bs = \<lparr>p_type = of_le (field 0 4 bs), p_offset = of_le (field 8 8 bs), p_vaddr = of_le (field 16 8 bs),
     p_filesz = of_le (field 32 8 bs), p_memsz = of_le (field 40 8 bs)\<rparr>"

definition e_entry :: "u8 list \<Rightarrow> u64" where "e_entry bs = of_le (field 24 8 bs)"

definition e_phoff :: "u8 list \<Rightarrow> u64" where "e_phoff bs = of_le (field 32 8 bs)"

definition e_phnum :: "u8 list \<Rightarrow> u16" where "e_phnum bs = of_le (field 56 2 bs)"

definition read_k :: "'s kenv \<Rightarrow> u64 \<Rightarrow> usize \<Rightarrow> usize \<Rightarrow> ('s kernel, usize \<times> u8 list) cm" where
  "read_k K ip o1 n = on_fs (on_tree (inode_read (fsenv K) ip o1 n))"

section \<open>Loading segments\<close>

text \<open>The bytes of a segment that go to the page of \<open>va\<close>.\<close>

definition seg_chunk :: "u64 \<Rightarrow> u32 \<Rightarrow> u32" where
  "seg_chunk va n = (let room = PGSIZE - (va - ROUNDDOWN va PAGE_SIZE) in if room < ucast n then ucast room else n)"

lemma seg_chunk_bounds: "n > 0 \<Longrightarrow> 0 < unat (seg_chunk va n) \<and> unat (seg_chunk va n) \<le> unat n"
proof -
  assume n: "n > 0"
  let ?room = "PGSIZE - (va - ROUNDDOWN va PAGE_SIZE)"
  have "va - ROUNDDOWN va PAGE_SIZE = va mod 4096"
    by (simp add: ROUNDDOWN_def PAGE_SIZE_def)
  moreover have "unat (va mod 4096) < 4096"
    by (simp add: unat_mod)
  ultimately have r: "0 < unat ?room" "unat ?room \<le> 4096"
    by (simp_all add: PGSIZE_def unat_minus_word word_le_nat_alt)
  have "unat (ucast ?room :: u32) = unat ?room"
    using r(2) by (simp add: unsigned_ucast_eq take_bit_nat_eq_self)
  moreover have "unat (ucast n :: u64) = unat n"
    using unsigned_less [of n, where ?'a = nat] by (simp add: unsigned_ucast_eq take_bit_nat_eq_self)
  ultimately show ?thesis
    using n r by (auto simp: seg_chunk_def Let_def word_less_nat_alt)
qed

function loaduvm :: "'s kenv \<Rightarrow> u64 \<Rightarrow> u64 \<Rightarrow> u64 \<Rightarrow> u32 \<Rightarrow> u32 \<Rightarrow> ('s kernel, int) cm" where
  "loaduvm K dir va ip offset n =
     (if n > 0 then
        bind (on_mem (uva2ka (cpuid K) dir (ROUNDDOWN va PAGE_SIZE))) (\<lambda>pa.
          if pa = 0 then fail (Panic ''addr not exist'')
          else
            bind (read_k K ip (ucast offset) (ucast (seg_chunk va n))) (\<lambda>(r, bs).
              andthen (on_mem (modify (\<lambda>s. s\<lparr>kmem := write_bytes (pa + (va - ROUNDDOWN va PAGE_SIZE)) bs (kmem s)\<rparr>)))
                (if r \<noteq> ucast (seg_chunk va n) then ret (- 1)
                 else loaduvm K dir (va + ucast (seg_chunk va n)) ip (offset + seg_chunk va n) (n - seg_chunk va n))))
      else ret 0)"
  by pat_completeness auto
termination
proof (relation "measure (\<lambda>(K, dir, va, ip, offset, n). unat n)", goal_cases)
  case (2 K dir va ip offset n)
  then show ?case
    using seg_chunk_bounds [of n va] unat_minus_word [of "seg_chunk va n" n] by (simp add: word_le_nat_alt)
qed simp

declare loaduvm.simps [simp del]

text \<open>The loop over the program headers: the new size, or \<open>None\<close> for \<^verbatim>\<open>goto bad\<close>.\<close>

fun load_segments :: "'s kenv \<Rightarrow> u64 \<Rightarrow> u64 \<Rightarrow> nat \<Rightarrow> u64 \<Rightarrow> u64 \<Rightarrow> ('s kernel, u64 option) cm" where
  "load_segments K dir ip 0 o1 szv = ret (Some szv)"
| "load_segments K dir ip (Suc i) o1 szv =
     bind (read_k K ip o1 (of_nat sizeof_Phdr)) (\<lambda>(r, bs).
       if r \<noteq> of_nat sizeof_Phdr then ret None
       else
         (let ph = phdr_of bs; next_off = o1 + of_nat sizeof_Phdr in
          if p_type ph \<noteq> PT_LOAD then load_segments K dir ip i next_off szv
          else if p_memsz ph < p_filesz ph then ret None
          else
            bind (on_mem (uvm_alloc (kend K) (cpuid K) dir 0 8192 szv (p_vaddr ph + p_memsz ph))) (\<lambda>v.
              if (word_of_int v :: u64) = 0 then ret None
              else
                bind (loaduvm K dir (p_vaddr ph) ip (ucast (p_offset ph)) (ucast (p_filesz ph))) (\<lambda>l.
                  if l < 0 then ret None
                  else load_segments K dir ip i next_off (word_of_int v)))))"

section \<open>The new stack\<close>

text \<open>\<^verbatim>\<open>copyout\<close> of bytes the kernel has at hand.\<close>

function copyout_bytes :: "nat \<Rightarrow> u64 \<Rightarrow> u64 \<Rightarrow> u8 list \<Rightarrow> (PMemory, int) cm" where
  "copyout_bytes me dir va bs =
     (if bs \<noteq> [] then
        bind (uva2ka1 me dir (ROUNDDOWN va PAGE_SIZE)) (\<lambda>pa0.
          if pa0 = 0 then ret (- 1)
          else
            (let n = min (length bs) (4096 - unat (va mod PAGE_SIZE)) in
             andthen (modify (\<lambda>s. s\<lparr>kmem := write_bytes (pa0 + (va - ROUNDDOWN va PAGE_SIZE)) (take n bs) (kmem s)\<rparr>))
               (copyout_bytes me dir (ROUNDDOWN va PAGE_SIZE + PAGE_SIZE) (drop n bs))))
      else ret 0)"
  by pat_completeness auto
termination
proof (relation "measure (\<lambda>(me, dir, va, bs). length bs)", goal_cases)
  case (2 me dir va bs x n)
  have "unat (va mod PAGE_SIZE) < 4096"
    by (simp add: PAGE_SIZE_def unat_mod)
  then show ?case
    using 2 by (cases bs) auto
qed simp

declare copyout_bytes.simps [simp del]

definition round16 :: "u64 \<Rightarrow> u64" where
  "round16 a = ROUNDDOWN a 16"

text \<open>The loop over \<^verbatim>\<open>argv\<close>: the stack pointer and the addresses of the strings, or \<open>None\<close> for \<^verbatim>\<open>goto bad\<close>.\<close>

fun push_args :: "'s kenv \<Rightarrow> u64 \<Rightarrow> u8 list list \<Rightarrow> u64 \<Rightarrow> u64 list \<Rightarrow> ('s kernel, (u64 \<times> u64 list) option) cm" where
  "push_args K dir [] sp ustk = ret (Some (sp, ustk))"
| "push_args K dir (a # as) sp ustk =
     (if length ustk > 32 then ret None
      else
        (let sp' = round16 (sp - (of_nat (length a) + 1)) in
         bind (on_mem (copyout_bytes (cpuid K) dir sp' (a @ [0]))) (\<lambda>r.
           if r < 0 then ret None else push_args K dir as sp' (ustk @ [sp']))))"

text \<open>A sequence of \<^verbatim>\<open>copyout\<close> calls, each of which may fail.\<close>

fun copyouts :: "'s kenv \<Rightarrow> u64 \<Rightarrow> (u64 \<times> u8 list) list \<Rightarrow> ('s kernel, bool) cm" where
  "copyouts K dir [] = ret True"
| "copyouts K dir ((a, bs) # cs) =
     bind (on_mem (copyout_bytes (cpuid K) dir a bs)) (\<lambda>r. if r < 0 then ret False else copyouts K dir cs)"

definition exec_bad :: "'s kenv \<Rightarrow> u64 \<Rightarrow> u64 \<Rightarrow> ('s kernel, u64) cm" where
  "exec_bad K dir ip =
     andthen (if dir \<noteq> 0 then on_mem (vm_free (kend K) (cpuid K) dir) else ret ())
     (andthen (if ip \<noteq> 0 then andthen (unlock_k ip) (put_k K ip) else ret ())
       (ret (- 1)))"

text \<open>
  The stack and the new image of the process. The 8 bytes at \<^verbatim>\<open>&argc\<close> are the 4 bytes of \<^verbatim>\<open>argc\<close> and 4 bytes of the
  kernel stack. A path too long for \<^verbatim>\<open>name\<close> is written over the fields behind it.
\<close>

definition exec_stack :: "'s kenv \<Rightarrow> u64 \<Rightarrow> u64 \<Rightarrow> u8 list list \<Rightarrow> ('s kernel, u64 option) cm" where
  "exec_stack K dir szv argv = bind (push_args K dir argv szv []) (\<lambda>r.
     case r of
       None \<Rightarrow> ret None
     | Some (sp, ustk) \<Rightarrow>
        (let argc = length ustk;
             sp1 = (if even argc then sp - 8 else sp);
             auxv = concat (map (to_le 8) [0, 6, PGSIZE, 0 :: u64]);
             sp2 = sp1 - 32; sp3 = sp2 - 8; sp4 = sp3 - of_nat (argc + 1) * 8; sp5 = sp4 - 8;
             nargc = to_le 4 (of_nat argc :: u32) @ take 4 (stack0 K)
         in bind this_proc (\<lambda>p.
              andthen (on_mem (store (tf p + tf_x 0) (of_nat argc)))
              (bind (copyouts K dir [(sp2, auxv), (sp3, to_le 8 (0 :: u64))]) (\<lambda>ok1.
                if \<not> ok1 then ret None
                else
                  andthen (on_mem (store (tf p + tf_x 1) sp4))
                  (bind (copyouts K dir [(sp4, concat (map (to_le 8) (ustk @ [0]))), (sp5, nargc)]) (\<lambda>ok2.
                    ret (if ok2 then Some sp5 else None))))))))"

definition exec_commit :: "'s kenv \<Rightarrow> u64 \<Rightarrow> u64 \<Rightarrow> u64 \<Rightarrow> u64 \<Rightarrow> u8 list \<Rightarrow> ('s kernel, u64) cm" where
  "exec_commit K dir szv sp pc path = bind thisproc (\<lambda>p. bind (get_proc p) (\<lambda>x.
     andthen (guard_cm BadAccess (\<lambda>_. length path < 16))
     (andthen (upd_proc p (\<lambda>x. x\<lparr>pname := path @ [0] @ drop (length path + 1) (pname x), pgdir := dir, sz := szv\<rparr>))
     (andthen (on_mem (store (tf x + tf_sp) sp))
     (andthen (on_mem (store (tf x + tf_elr) pc))
     (andthen (on_mem (vm_free (kend K) (cpuid K) (pgdir x)))
       (ret 0)))))))"

definition execve :: "'s kenv \<Rightarrow> u8 list \<Rightarrow> u8 list list \<Rightarrow> ('s kernel, u64) cm" where
  "execve K path argv =
     andthen (op_begin K)
     (bind (namei_k K path) (\<lambda>ip.
        if ip = 0 then ret (- 1)
        else
          andthen (lock_k ip)
          (bind (read_k K ip 0 (of_nat sizeof_Ehdr)) (\<lambda>(r, elf).
             if r < of_nat sizeof_Ehdr then exec_bad K 0 ip
             else if strncmp_l elf ELFMAG 4 \<noteq> 0 then fail (Panic ''bad magic'')
             else
               bind (on_mem (pgdir_init (cpuid K))) (\<lambda>dir.
                 if dir = 0 then exec_bad K 0 ip
                 else
                   bind (load_segments K dir ip (unat (e_phnum elf)) (e_phoff elf) 0) (\<lambda>s.
                     case s of
                       None \<Rightarrow> exec_bad K dir ip
                     | Some szv \<Rightarrow>
                        andthen (unlock_k ip)
                        (andthen (put_k K ip)
                        (andthen (op_end K)
                        (bind (on_mem (uvm_alloc (kend K) (cpuid K) dir 0 8192 (ROUNDUP szv PGSIZE)
                                 (ROUNDUP szv PGSIZE + push_bit 1 PGSIZE))) (\<lambda>v.
                           (let top = word_of_int v in
                            if top = 0 then exec_bad K dir 0
                            else
                              andthen (on_mem (clearpteu (cpuid K) dir (top - push_bit 1 PGSIZE)))
                              (bind (exec_stack K dir top argv) (\<lambda>t.
                                 case t of
                                   None \<Rightarrow> exec_bad K dir 0
                                 | Some sp \<Rightarrow> exec_commit K dir top sp (e_entry elf) path)))))))))))))"

text \<open>\<^verbatim>\<open>sys_exec\<close> collects the arguments; too many are the branch \<^verbatim>\<open>bbad\<close>, which frees user addresses.\<close>

fun fetch_argv :: "'s kenv \<Rightarrow> nat \<Rightarrow> u64 \<Rightarrow> (u64 \<times> u8 list) list \<Rightarrow> ('s kernel, (u64 \<times> u8 list) list option + (u64 \<times> u8 list) list) cm" where
  "fetch_argv K 0 a acc = ret (Inr acc)"
| "fetch_argv K (Suc n) a acc = bind (fetchint K a) (\<lambda>uarg.
     if uarg = 0 then ret (Inl (Some acc))
     else bind (fetchstr K uarg) (\<lambda>r.
       case r of
         None \<Rightarrow> ret (Inl None)
       | Some str \<Rightarrow> fetch_argv K n (a + 8) (acc @ [(uarg, str)])))"

definition sys_exec :: "'s kenv \<Rightarrow> ('s kernel, u64) cm" where
  "sys_exec K = need (argstr K 0) (\<lambda>path. need (argu64 1) (\<lambda>uargv. need (argu64 2) (\<lambda>_.
     if uargv = 0 then execve K path []
     else
       bind (fetch_argv K 32 uargv []) (\<lambda>r.
         case r of
           Inl None \<Rightarrow> ret (- 1)
         | Inl (Some as) \<Rightarrow> execve K path (map snd as)
         | Inr as \<Rightarrow>
            andthen (for_each (\<lambda>(a, _). on_mem (free_cm (kend K) (cpuid K) a)) as) (ret (- 1))))))"

section \<open>The table of system calls\<close>

definition NR_SYSCALL :: nat where "NR_SYSCALL = 512"

definition SYS_myyield :: nat where "SYS_myyield = 459"

record sysnos =
  SYS_set_tid_address :: nat
  SYS_ioctl :: nat
  SYS_gettid :: nat
  SYS_rt_sigprocmask :: nat
  SYS_brk :: nat
  SYS_execve :: nat
  SYS_sched_yield :: nat
  SYS_clone :: nat
  SYS_wait4 :: nat
  SYS_exit_group :: nat
  SYS_exit :: nat
  SYS_dup :: nat
  SYS_chdir :: nat
  SYS_fstat :: nat
  SYS_newfstatat :: nat
  SYS_mkdirat :: nat
  SYS_mknodat :: nat
  SYS_openat :: nat
  SYS_writev :: nat
  SYS_read :: nat
  SYS_write :: nat
  SYS_close :: nat

definition returns :: "('s kernel, u64) cm \<Rightarrow> ('s kernel, u64 option) cm" where
  "returns m = bind m (\<lambda>r. ret (Some r))"

definition syscall_entries ::
  "libc \<Rightarrow> sysnos \<Rightarrow> 's kenv \<Rightarrow> u64 \<Rightarrow> (nat \<times> ('s kernel, u64 option) cm) list" where
  "syscall_entries L N K junk =
     [(SYS_set_tid_address N, returns sys_gettid), (SYS_ioctl N, returns sys_ioctl), (SYS_gettid N, returns sys_gettid),
      (SYS_rt_sigprocmask N, returns sys_sigprocmask), (SYS_brk N, returns (sys_brk K)),
      (SYS_execve N, returns (sys_exec K)), (SYS_sched_yield N, sys_yield), (SYS_clone N, returns (sys_clone K)),
      (SYS_wait4 N, sys_wait4 K), (SYS_exit_group N, sys_exit K), (SYS_exit N, sys_exit K), (SYS_dup N, returns sys_dup),
      (SYS_chdir N, returns (sys_chdir K)), (SYS_fstat N, returns (sys_fstat L K)),
      (SYS_newfstatat N, returns (sys_fstatat L K)), (SYS_mkdirat N, returns (sys_mkdirat L K)),
      (SYS_mknodat N, returns (sys_mknodat L K)), (SYS_openat N, returns (sys_openat L K)),
      (SYS_writev N, returns (sys_writev K junk)), (SYS_read N, returns (sys_read K)), (SYS_write N, returns (sys_write K)),
      (SYS_close N, returns (sys_close K)), (SYS_myyield, sys_yield)]"

text \<open>A later initialiser of the same place overrides an earlier one.\<close>

definition syscall_table ::
  "libc \<Rightarrow> sysnos \<Rightarrow> 's kenv \<Rightarrow> u64 \<Rightarrow> nat \<Rightarrow> ('s kernel, u64 option) cm" where
  "syscall_table L N K junk i =
     (case find (\<lambda>(n, _). n = i) (rev (syscall_entries L N K junk)) of
        None \<Rightarrow> returns sys_default
      | Some (_, h) \<Rightarrow> h)"

text \<open>\<^verbatim>\<open>syscall_dispatch\<close>: the number is not checked against the size of the table; the result is an \<^verbatim>\<open>int\<close>.\<close>

definition syscall_dispatch ::
  "libc \<Rightarrow> sysnos \<Rightarrow> 's kenv \<Rightarrow> u64 \<Rightarrow> u64 \<Rightarrow> ('s kernel, u64 option) cm" where
  "syscall_dispatch L N K junk frame = bind (on_mem (load (frame + tf_x 8))) (\<lambda>v.
     (let sysno = sint (ucast v :: u32) in
      if sysno < 0 \<or> sysno \<ge> int NR_SYSCALL then fail BadAccess
      else bind (syscall_table L N K junk (nat sysno)) (\<lambda>r.
        case r of
          None \<Rightarrow> ret None
        | Some x \<Rightarrow> andthen (on_mem (store (frame + tf_x 0) (sext (ucast x)))) (ret (Some (sext (ucast x)))))))"

end
