(* ===== verification/FileRefs.thy ===== *)
theory FileRefs
  imports Exec
begin

text \<open>
  Reference counts of open files. The part of the kernel's state that matters is a view: the descriptors and the
  state of every process, the reference count and the type of every file, and the current process. Every
  operation of the kernel is described by what it does to the view, so that the proofs do not depend on
  the layers below.
\<close>

section \<open>The view\<close>

record view =
  vo :: "nat option list list"
  vs :: "procstate list"
  vr :: "u32 list"
  vt :: "fdtype list"
  vc :: "nat option"

definition view :: "'s kernel \<Rightarrow> view" where
  "view k = \<lparr>vo = map ofile (ptable k), vs = map state (ptable k), vr = map ref (ftable (fsys k)),
     vt = map ftype (ftable (fsys k)), vc = cur k\<rparr>"

text \<open>\<open>vends m v Q\<close>: when \<open>m\<close> returns from a state with view \<open>v\<close>, \<open>Q\<close> holds of the result and the new view.\<close>

definition vends :: "('s kernel, 'a) cm \<Rightarrow> view \<Rightarrow> ('a \<Rightarrow> view \<Rightarrow> bool) \<Rightarrow> bool" where
  "vends m v Q \<longleftrightarrow> (\<forall>k x k'. view k = v \<longrightarrow> m k = Inr (x, k') \<longrightarrow> Q x (view k'))"

definition frame :: "('s kernel, 'a) cm \<Rightarrow> bool" where
  "frame m \<longleftrightarrow> (\<forall>k x k'. m k = Inr (x, k') \<longrightarrow> view k' = view k)"

named_theorems frames

lemma vends_frame: "frame m \<Longrightarrow> (\<And>x. Q x v) \<Longrightarrow> vends m v Q"
  by (auto simp: vends_def frame_def)

lemma vends_mono: "vends m v P \<Longrightarrow> (\<And>x v'. P x v' \<Longrightarrow> Q x v') \<Longrightarrow> vends m v Q"
  by (auto simp: vends_def)

lemma vends_ret: "Q x v \<Longrightarrow> vends (ret x) v Q"
  by (auto simp: vends_def ret_def)

lemma vends_fail: "vends (fail e) v Q"
  by (auto simp: vends_def fail_def)

lemma vends_bind: "vends m v (\<lambda>x v'. vends (f x) v' Q) \<Longrightarrow> vends (bind m f) v Q"
  by (fastforce simp: vends_def bind_def split: sum.splits)

lemma vends_andthen: "vends m v (\<lambda>_ v'. vends n v' Q) \<Longrightarrow> vends (andthen m n) v Q"
  by (simp add: andthen_def vends_bind)

lemma vends_if: "(b \<Longrightarrow> vends m v Q) \<Longrightarrow> (\<not> b \<Longrightarrow> vends n v Q) \<Longrightarrow> vends (if b then m else n) v Q"
  by simp

lemma vends_gets: "(\<And>k. view k = v \<Longrightarrow> Q (g k) v) \<Longrightarrow> vends (gets g) v Q"
  by (auto simp: vends_def gets_def)

lemma vends_guard: "Q () v \<Longrightarrow> vends (guard_cm e b) v Q"
  by (auto simp: vends_def guard_cm_def split: if_splits)

lemma vends_conj: "vends m v P \<Longrightarrow> vends m v Q \<Longrightarrow> vends m v (\<lambda>x v'. P x v' \<and> Q x v')"
  by (auto simp: vends_def)

lemma frame_ret [frames]: "frame (ret x)"
  by (simp add: frame_def ret_def)

lemma frame_fail [frames]: "frame (fail e)"
  by (simp add: frame_def fail_def)

lemma frame_gets [frames]: "frame (gets g)"
  by (simp add: frame_def gets_def)

lemma frame_guard [frames]: "frame (guard_cm e b)"
  by (auto simp: frame_def guard_cm_def split: if_splits)

lemma frame_bind [frames]: "frame m \<Longrightarrow> (\<And>x. frame (f x)) \<Longrightarrow> frame (bind m f)"
  by (fastforce simp: frame_def bind_def split: sum.splits)

lemma frame_andthen [frames]: "frame m \<Longrightarrow> frame n \<Longrightarrow> frame (andthen m n)"
  by (simp add: andthen_def frame_bind)

lemma frame_if [frames]: "(b \<Longrightarrow> frame m) \<Longrightarrow> (\<not> b \<Longrightarrow> frame n) \<Longrightarrow> frame (if b then m else n)"
  by simp

lemma frame_option [frames]: "frame m \<Longrightarrow> (\<And>x. frame (f x)) \<Longrightarrow> frame (case r of None \<Rightarrow> m | Some x \<Rightarrow> f x)"
  by (simp split: option.split)

lemma frame_prod [frames]: "(\<And>a b. frame (f a b)) \<Longrightarrow> frame (case p of (a, b) \<Rightarrow> f a b)"
  by (simp split: prod.split)

lemma frame_let [frames]: "frame (f x) \<Longrightarrow> frame (let y = x in f y)"
  by simp

lemma frame_on_mem [frames]: "frame (on_mem m)"
  by (auto simp: frame_def on_mem_def view_def split: sum.splits)

lemma frame_on_tree [frames]: "frame (on_fs (on_tree m))"
  by (auto simp: frame_def on_fs_def on_tree_def view_def split: sum.splits)

lemma frame_modify: "(\<And>k. view (f k) = view k) \<Longrightarrow> frame (modify f)"
  by (auto simp: frame_def modify_def)

lemma frame_locks [frames]: "frame acquire_sched_lock" "frame release_sched_lock"
  by (auto simp: acquire_sched_lock_def release_sched_lock_def view_def intro!: frames frame_modify)

lemma frame_get_pid [frames]: "frame (get_pid p)"
  by (auto simp: frame_def get_pid_def view_def split: sum.splits)

lemma frame_get_proc [frames]: "frame (get_proc p)" "frame thisproc" "frame this_proc"
  unfolding get_proc_def thisproc_def this_proc_def by (intro frames)+

text \<open>A change of a process that leaves its descriptors and its state alone.\<close>

lemma frame_upd_proc:
  "(\<And>x. ofile (u x) = ofile x) \<Longrightarrow> (\<And>x. state (u x) = state x) \<Longrightarrow> frame (upd_proc p u)"
  by (auto simp: upd_proc_def view_def map_update list_update_same_conv intro!: frame_modify)
    (metis list_update_beyond list_update_same_conv length_map linorder_not_less map_update nth_map)+

lemma frame_for_each [frames]: "(\<And>x. frame (f x)) \<Longrightarrow> frame (for_each f xs)"
  by (induction xs) (auto intro: frames)

lemma frame_ops [frames]: "frame (op_begin K)" "frame (op_end K)" "frame (namei_k K path)" "frame (put_k K ip)"
  "frame (lock_k ip)" "frame (unlock_k ip)" "frame (sync_k K ip)" "frame (get_k K n)" "frame (inode_of ip)"
  "frame (upd_entry_k ip e)" "frame (insert_k K ip nm n)"
  unfolding op_begin_def op_end_def namei_k_def put_k_def lock_k_def unlock_k_def sync_k_def get_k_def inode_of_def
    upd_entry_k_def insert_k_def by (intro frames)+

lemma frame_args [frames]: "frame (argu64 n)" "frame (argint n)" "frame (fetchstr K a)" "frame (argstr K n)"
  "frame (argfd n)"
proof -
  show u: "frame (argu64 n)" for n
    unfolding argu64_def by (intro frames)
  show i: "frame (argint n)" for n
    unfolding argint_def by (intro frames)
  show f: "frame (fetchstr K a)" for a
    unfolding fetchstr_def by (intro frames)
  show "frame (argstr K n)"
    unfolding argstr_def by (intro frames u f)
  show "frame (argfd n)"
    unfolding argfd_def by (intro frames i)
qed

lemma frame_create [frames]: "frame (create K path ty maj mnr)"
proof -
  have "frame (create_existing K dp n ty)" for dp n
    unfolding create_existing_def by (intro frames)
  moreover have "frame (create_new K dp nm ty maj mnr)" for dp nm
    unfolding create_new_def by (intro frames)
  ultimately show ?thesis
    unfolding create_def by (intro frames) auto
qed

section \<open>What the file functions do to the view\<close>

lemma vends_thisproc: "(\<And>p. vc v = Some p \<Longrightarrow> Q p v) \<Longrightarrow> vends thisproc v Q"
  unfolding thisproc_def
  by (intro vends_bind vends_gets) (auto simp: view_def split: option.split intro: vends_ret vends_fail)

lemma vends_get_proc:
  "(\<And>x. p < length (vo v) \<Longrightarrow> ofile x = vo v ! p \<Longrightarrow> state x = vs v ! p \<Longrightarrow> Q x v) \<Longrightarrow>
     p < length (vo v) \<Longrightarrow> vends (get_proc p) v Q"
  unfolding get_proc_def by (rule vends_gets) (auto simp: view_def)

lemma vends_upd_proc:
  assumes "\<And>x. ofile (u x) = fo (ofile x)" "\<And>x. state (u x) = fs (state x)"
    "Q () (v\<lparr>vo := (vo v)[p := fo (vo v ! p)], vs := (vs v)[p := fs (vs v ! p)]\<rparr>)"
  shows "vends (upd_proc p u) v Q"
  unfolding vends_def upd_proc_def modify_def
proof (intro allI impI)
  fix k x k' assume k: "view k = v" "Inr ((), k\<lparr>ptable := (ptable k)[p := u (ptable k ! p)]\<rparr>) = Inr (x, k')"
  have "view k' = v\<lparr>vo := (vo v)[p := fo (vo v ! p)], vs := (vs v)[p := fs (vs v ! p)]\<rparr>"
    using k assms(1,2) by (cases "p < length (ptable k)") (auto simp: view_def map_update not_less list_update_beyond)
  then show "Q x (view k')"
    using assms(3) by simp
qed

lemma vends_set_state:
  "Q () (v\<lparr>vs := (vs v)[p := st]\<rparr>) \<Longrightarrow> (\<And>x. ofile (u x) = ofile x) \<Longrightarrow> (\<And>x. state (u x) = st) \<Longrightarrow>
     vends (upd_proc p u) v Q"
  by (rule vends_upd_proc [where fo = "\<lambda>x. x" and fs = "\<lambda>_. st"]) simp_all

lemma vends_set_fd:
  "Q () (v\<lparr>vo := (vo v)[p := (vo v ! p)[fd := y]]\<rparr>) \<Longrightarrow>
     vends (upd_proc p (\<lambda>x. x\<lparr>ofile := (ofile x)[fd := y]\<rparr>)) v Q"
  by (rule vends_upd_proc [where fo = "\<lambda>x. x[fd := y]" and fs = "\<lambda>x. x"]) simp_all

text \<open>The same for the file table, under the kernel's state.\<close>

definition fends :: "('s fstate, 'a) cm \<Rightarrow> u32 list \<Rightarrow> fdtype list \<Rightarrow> ('a \<Rightarrow> u32 list \<Rightarrow> fdtype list \<Rightarrow> bool) \<Rightarrow> bool" where
  "fends m rcs tys Q \<longleftrightarrow> (\<forall>s x s'. map ref (ftable s) = rcs \<longrightarrow> map ftype (ftable s) = tys \<longrightarrow> m s = Inr (x, s') \<longrightarrow>
     Q x (map ref (ftable s')) (map ftype (ftable s')))"

lemma vends_on_fs:
  "fends m (vr v) (vt v) (\<lambda>x rcs tys. Q x (v\<lparr>vr := rcs, vt := tys\<rparr>)) \<Longrightarrow> vends (on_fs m) v Q"
  by (auto simp: vends_def fends_def on_fs_def view_def split: sum.splits)

lemma upd_file_refs:
  "map ref ((ftable s)[f := u (ftable s ! f)]) = (map ref (ftable s))[f := ref (u (ftable s ! f))]"
  "map ftype ((ftable s)[f := u (ftable s ! f)]) = (map ftype (ftable s))[f := ftype (u (ftable s ! f))]"
  by (simp_all add: map_update)

lemma map_same_update [simp]: "(map f xs)[i := f (xs ! i)] = map f xs"
  by (metis list_update_id map_update)

lemma free_file_Some: "free_file i fs = Some j \<Longrightarrow> i \<le> j \<and> j < i + length fs \<and> ref (fs ! (j - i)) = 0"
  by (induction fs arbitrary: i) (force split: if_splits simp: nth_Cons')+

lemma fends_filealloc:
  "(\<And>f. f < length rcs \<Longrightarrow> rcs ! f = 0 \<Longrightarrow> Q (Some f) (rcs[f := 1]) tys) \<Longrightarrow> Q None rcs tys \<Longrightarrow> fends filealloc rcs tys Q"
  by (auto simp: fends_def filealloc_def lock_ft_def unlock_ft_def upd_file_def cm_simps map_update
      list_update_same_conv split: option.splits dest!: free_file_Some)

lemma fends_filedup:
  "f < length rcs \<Longrightarrow> (\<not> sint (rcs ! f) < 1 \<Longrightarrow> Q f (rcs[f := rcs ! f + 1]) tys) \<Longrightarrow> fends (filedup f) rcs tys Q"
  by (auto simp: fends_def filedup_def lock_ft_def unlock_ft_def upd_file_def cm_simps map_update split: if_splits)

lemma fends_fileclose:
  assumes "f < length rcs"
    "\<not> sint (rcs ! f) < 1 \<Longrightarrow> sint (rcs ! f - 1) > 0 \<Longrightarrow> Q () (rcs[f := rcs ! f - 1]) tys"
    "\<not> sint (rcs ! f) < 1 \<Longrightarrow> \<not> sint (rcs ! f - 1) > 0 \<Longrightarrow> Q () (rcs[f := 0]) (tys[f := FD_NONE])"
  shows "fends (fileclose E sb f) rcs tys Q"
  using assms
  by (auto simp: fends_def fileclose_def fileclose_ref_def lock_ft_def unlock_ft_def upd_file_def on_tree_def cm_simps map_update
      split: if_splits sum.splits prod.splits) (metis map_same_update)+

lemma fends_open:
  "Q () rcs (tys[f := FD_INODE]) \<Longrightarrow>
     fends (upd_file f (\<lambda>x. x\<lparr>ftype := FD_INODE, fip := ip, off := 0, readable := a, writable := b\<rparr>)) rcs tys Q"
  by (auto simp: fends_def upd_file_def modify_def map_update)

section \<open>The invariant\<close>

definition refcount :: "nat option list list \<Rightarrow> nat \<Rightarrow> nat" where
  "refcount os f = sum_list (map (\<lambda>ds. count_list ds (Some f)) os)"

definition no_files :: "nat option list \<Rightarrow> bool" where
  "no_files ds \<longleftrightarrow> (\<forall>d\<in>set ds. d = None)"

definition dead :: "procstate \<Rightarrow> bool" where
  "dead st \<longleftrightarrow> st = UNUSED \<or> st = ZOMBIE"

text \<open>
  Every count is the number of descriptors that refer to the file, a file without references has no type, and a
  process that is not in use or has exited has no descriptors.
\<close>

definition refs_ok :: "view \<Rightarrow> bool" where
  "refs_ok v \<longleftrightarrow> length (vo v) = NPROC \<and> length (vs v) = NPROC \<and> (\<forall>ds\<in>set (vo v). length ds = NOFILE) \<and>
     length (vr v) = NFILE \<and> length (vt v) = NFILE \<and>
     (\<forall>f<NFILE. unat (vr v ! f) = refcount (vo v) f \<and> (vr v ! f = 0 \<longrightarrow> vt v ! f = FD_NONE)) \<and>
     (\<forall>f. refcount (vo v) f > 0 \<longrightarrow> f < NFILE) \<and>
     (\<forall>p<NPROC. dead (vs v ! p) \<longrightarrow> no_files (vo v ! p))"

lemma count_list_update:
  "i < length xs \<Longrightarrow>
     count_list (xs[i := y]) z + (if xs ! i = z then 1 else 0) = count_list xs z + (if y = z then 1 else 0)"
proof (induction xs arbitrary: i)
  case (Cons x xs)
  then show ?case
  proof (cases i)
    case (Suc j)
    then show ?thesis
      using Cons.IH [of j] Cons.prems by (simp split: if_splits)
  qed simp
qed simp

lemma sum_list_nat_update:
  "i < length xs \<Longrightarrow> sum_list (xs[i := y]) + xs ! i = sum_list xs + (y :: nat)"
proof (induction xs arbitrary: i)
  case (Cons x xs)
  then show ?case
    by (cases i) auto
qed simp

lemma refcount_update:
  assumes "p < length os" "fd < length (os ! p)"
  shows "refcount (os[p := (os ! p)[fd := y]]) f + (if os ! p ! fd = Some f then 1 else 0) =
    refcount os f + (if y = Some f then 1 else 0)"
proof -
  let ?c = "\<lambda>ds. count_list ds (Some f)"
  have "refcount (os[p := (os ! p)[fd := y]]) f + ?c (os ! p) = refcount os f + ?c ((os ! p)[fd := y])"
    using sum_list_nat_update [of p "map ?c os" "?c ((os ! p)[fd := y])"] assms(1) by (simp add: refcount_def map_update)
  then show ?thesis
    using count_list_update [OF assms(2), of y "Some f"] by simp
qed

lemma count_list_le: "count_list xs y \<le> length xs"
  by (induction xs) auto

lemma refcount_bound: "(\<forall>ds\<in>set os. length ds = n) \<Longrightarrow> refcount os f \<le> n * length os"
proof (induction os)
  case (Cons ds os)
  then show ?case
    using count_list_le [of ds "Some f"] by (simp add: refcount_def)
qed (simp add: refcount_def)

lemma refcount_pos:
  assumes "p < length os" "fd < length (os ! p)" "os ! p ! fd = Some f"
  shows "refcount os f > 0"
proof -
  have "count_list (os ! p) (Some f) > 0"
    using assms by (metis count_list_0_iff gr0I nth_mem)
  moreover have "count_list (os ! p) (Some f) \<le> refcount os f"
    unfolding refcount_def using assms(1) by (intro member_le_sum_list) (auto simp: image_iff intro: nth_mem)
  ultimately show ?thesis
    by simp
qed

lemma refs_okD:
  assumes "refs_ok v"
  shows "length (vo v) = 14" "length (vs v) = 14" "p < 14 \<Longrightarrow> length (vo v ! p) = 8" "length (vr v) = 100"
    "length (vt v) = 100" "f < 100 \<Longrightarrow> unat (vr v ! f) = refcount (vo v) f" "refcount (vo v) f > 0 \<Longrightarrow> f < 100"
    "p < 14 \<Longrightarrow> dead (vs v ! p) \<Longrightarrow> no_files (vo v ! p)"
    "f < 100 \<Longrightarrow> vr v ! f = 0 \<Longrightarrow> vt v ! f = FD_NONE"
  using assms by (auto simp: refs_ok_def NPROC_def NOFILE_def NFILE_def)

lemma ref_small:
  assumes "refs_ok v" "f < 100"
  shows "unat (vr v ! f) \<le> 112" "sint (vr v ! f) = int (refcount (vo v) f)"
proof -
  have "refcount (vo v) f \<le> NOFILE * length (vo v)"
    using assms(1) by (intro refcount_bound) (auto simp: refs_ok_def)
  then show u: "unat (vr v ! f) \<le> 112"
    using refs_okD(1,6) [OF assms(1)] assms(2) by (simp add: NOFILE_def)
  have "uint (vr v ! f) = int (unat (vr v ! f))"
    by simp
  then show "sint (vr v ! f) = int (refcount (vo v) f)"
    using u refs_okD(6) [OF assms] by (simp add: sint_u32)
qed

text \<open>One descriptor changes, and the counts and types with it.\<close>

lemma refs_change:
  assumes ok: "refs_ok v" and p: "p < 14" "fd < 8"
    and y: "y = None \<or> \<not> dead (vs v ! p)"
    and len: "length rcs = 100" "length tys = 100"
    and cnt: "\<And>g. g < 100 \<Longrightarrow> unat (rcs ! g) + (if vo v ! p ! fd = Some g then 1 else 0) =
        unat (vr v ! g) + (if y = Some g then 1 else 0)"
    and ty: "\<And>g. g < 100 \<Longrightarrow> rcs ! g = 0 \<Longrightarrow> tys ! g = FD_NONE"
    and f: "\<And>g. y = Some g \<Longrightarrow> g < 100"
  shows "refs_ok (v\<lparr>vo := (vo v)[p := (vo v ! p)[fd := y]], vr := rcs, vt := tys\<rparr>)"
proof -
  let ?os = "(vo v)[p := (vo v ! p)[fd := y]]"
  note o = refs_okD [OF ok]
  have up: "refcount ?os g + (if vo v ! p ! fd = Some g then 1 else 0) = refcount (vo v) g + (if y = Some g then 1 else 0)" for g
    using refcount_update [of p "vo v" fd y g] p o(1,3) by simp
  have "unat (rcs ! g) = refcount ?os g" if "g < 100" for g
    using up [of g] cnt [OF that] o(6) [OF that] by linarith
  moreover have "g < 100" if "refcount ?os g > 0" for g
    using up [of g] that f [of g] o(7) [of g] by (auto split: if_splits)
  moreover have "no_files (?os ! q)" if "q < 14" "dead (vs v ! q)" for q
    using o(1) o(8) [OF that] that p y by (cases "q = p") (auto simp: no_files_def dest: set_update_subset_insert [THEN subsetD])
  moreover have "length ds = 8" if "ds \<in> set ?os" for ds
    using that o(1) o(3) p(1) by (auto simp: in_set_conv_nth nth_list_update split: if_splits)
  ultimately show ?thesis
    using o(1,2) len ty by (auto simp: refs_ok_def NPROC_def NOFILE_def NFILE_def)
qed

lemma refs_dup:
  assumes ok: "refs_ok v" and p: "p < 14" "fd < 8" "vo v ! p ! fd = None" "\<not> dead (vs v ! p)" and f: "f < 100" "vr v ! f \<noteq> 0"
  shows "refs_ok (v\<lparr>vo := (vo v)[p := (vo v ! p)[fd := Some f]], vr := (vr v)[f := vr v ! f + 1]\<rparr>)"
proof -
  have "unat (vr v ! f + 1) = unat (vr v ! f) + 1"
    using ref_small(1) [OF ok f(1)] unat_plus1 [of "vr v ! f" 113] by (simp add: word_less_nat_alt)
  moreover from this have "vr v ! f + 1 \<noteq> 0"
    by (metis add_is_0 unat_0 zero_neq_one)
  ultimately have "refs_ok (v\<lparr>vo := (vo v)[p := (vo v ! p)[fd := Some f]], vr := (vr v)[f := vr v ! f + 1], vt := vt v\<rparr>)"
    using ok p f refs_okD(4,5,9) [OF ok] by (intro refs_change) (auto simp: nth_list_update split: if_splits)
  then show ?thesis
    by simp
qed

lemma refs_open:
  assumes ok: "refs_ok v" and p: "p < 14" "fd < 8" "vo v ! p ! fd = None" "\<not> dead (vs v ! p)" and f: "f < 100" "vr v ! f = 0"
  shows "refs_ok (v\<lparr>vo := (vo v)[p := (vo v ! p)[fd := Some f]], vr := (vr v)[f := 1], vt := (vt v)[f := t]\<rparr>)"
  using ok p f refs_okD(4,5,9) [OF ok] by (intro refs_change) (auto simp: nth_list_update split: if_splits)

lemma refs_close:
  assumes ok: "refs_ok v" and p: "p < 14" "fd < 8" "vo v ! p ! fd = Some f"
  shows "f < 100" "unat (vr v ! f) > 0"
    "sint (vr v ! f - 1) > 0 \<Longrightarrow> refs_ok (v\<lparr>vo := (vo v)[p := (vo v ! p)[fd := None]], vr := (vr v)[f := vr v ! f - 1]\<rparr>)"
    "\<not> sint (vr v ! f - 1) > 0 \<Longrightarrow>
       refs_ok (v\<lparr>vo := (vo v)[p := (vo v ! p)[fd := None]], vr := (vr v)[f := 0], vt := (vt v)[f := FD_NONE]\<rparr>)"
proof -
  note o = refs_okD [OF ok]
  have "refcount (vo v) f > 0"
    using p o(1,3) by (intro refcount_pos) auto
  then show f: "f < 100" and pos: "unat (vr v ! f) > 0"
    using o(6,7) by auto
  have m: "unat (vr v ! f - 1) = unat (vr v ! f) - 1"
    using pos unat_minus_word [of 1 "vr v ! f"] by (simp add: word_le_nat_alt)
  have u: "uint (vr v ! f - 1) = int (unat (vr v ! f) - 1)"
    unfolding m [symmetric] by simp
  have "int (unat (vr v ! f) - 1) < 2 ^ 31"
    using ref_small(1) [OF ok f] by simp
  then have "sint (vr v ! f - 1) = int (unat (vr v ! f) - 1)"
    unfolding sint_u32 u by simp
  moreover have "0 < int (n - 1) \<longleftrightarrow> n > 1" for n
    by auto
  ultimately have s1: "sint (vr v ! f - 1) > 0 \<longleftrightarrow> unat (vr v ! f) > 1"
    by metis
  then have "unat (vr v ! f) = 1" if "\<not> sint (vr v ! f - 1) > 0"
    using that pos by simp
  then show "\<not> sint (vr v ! f - 1) > 0 \<Longrightarrow>
       refs_ok (v\<lparr>vo := (vo v)[p := (vo v ! p)[fd := None]], vr := (vr v)[f := 0], vt := (vt v)[f := FD_NONE]\<rparr>)"
    using ok p f pos o(4,5,9) by (intro refs_change) (auto simp: nth_list_update)
  have "refs_ok (v\<lparr>vo := (vo v)[p := (vo v ! p)[fd := None]], vr := (vr v)[f := vr v ! f - 1], vt := vt v\<rparr>)"
    if "sint (vr v ! f - 1) > 0"
    using ok p f pos o(4,5,9) m that [unfolded s1] by (intro refs_change) (auto simp: nth_list_update unat_eq_zero split: if_splits)
  then show "sint (vr v ! f - 1) > 0 \<Longrightarrow> refs_ok (v\<lparr>vo := (vo v)[p := (vo v ! p)[fd := None]], vr := (vr v)[f := vr v ! f - 1]\<rparr>)"
    by simp
qed

lemma refs_state:
  "refs_ok v \<Longrightarrow> p < 14 \<Longrightarrow> \<not> dead st \<or> no_files (vo v ! p) \<Longrightarrow> refs_ok (v\<lparr>vs := (vs v)[p := st]\<rparr>)"
  by (auto simp: refs_ok_def NPROC_def nth_list_update)

section \<open>Calls that do not touch descriptors\<close>

definition fframe :: "('s fstate, 'a) cm \<Rightarrow> bool" where
  "fframe m \<longleftrightarrow> (\<forall>s x s'. m s = Inr (x, s') \<longrightarrow>
     map ref (ftable s') = map ref (ftable s) \<and> map ftype (ftable s') = map ftype (ftable s))"

named_theorems fframes

lemma fframe_basic [fframes]: "fframe (ret x)" "fframe (fail e)" "fframe (gets g)" "fframe (on_tree t)"
  by (auto simp: fframe_def ret_def fail_def gets_def on_tree_def split: sum.splits)

lemma fframe_bind [fframes]: "fframe m \<Longrightarrow> (\<And>x. fframe (f x)) \<Longrightarrow> fframe (bind m f)"
  by (fastforce simp: fframe_def bind_def split: sum.splits)

lemma fframe_andthen [fframes]: "fframe m \<Longrightarrow> fframe n \<Longrightarrow> fframe (andthen m n)"
  by (simp add: andthen_def fframe_bind)

lemma fframe_if [fframes]: "fframe m \<Longrightarrow> fframe n \<Longrightarrow> fframe (if b then m else n)"
  by simp

lemma fframe_prod [fframes]: "(\<And>a b. fframe (f a b)) \<Longrightarrow> fframe (case p of (a, b) \<Rightarrow> f a b)"
  by (simp split: prod.split)

lemma fframe_off [fframes]: "fframe (upd_file f (\<lambda>y. y\<lparr>off := off y + d\<rparr>))"
  by (auto simp: fframe_def upd_file_def modify_def map_update)

lemma fframe_write_loop [fframes]: "fframe (filewrite_loop E sb f src n i)"
proof (induction E sb f src n i rule: filewrite_loop.induct)
  case (1 E sb f src n i)
  have "fframe (write_round E sb f src n i)"
    unfolding write_round_def by (intro fframes)
  then show ?case
    using 1 unfolding filewrite_loop.simps [of E sb f src n i] by (auto intro!: fframes)
qed

lemma fframe_on_fs: "fframe m \<Longrightarrow> frame (on_fs m)"
  by (fastforce simp: frame_def fframe_def on_fs_def view_def split: sum.splits)

lemma frame_file_io [frames]: "frame (on_fs (fileread E f n))" "frame (on_fs (filewrite E sb f src n))"
  "frame (on_fs (filestat a b f))"
  unfolding fileread_def filewrite_def filestat_def by (intro fframe_on_fs fframes)+

lemma frame_need [frames]: "frame m \<Longrightarrow> (\<And>x. frame (f x)) \<Longrightarrow> frame (need m f)"
  unfolding need_def by (intro frames)

lemma frame_argptr [frames]: "frame (argptr n len)" "frame (fetchint K a)" "frame (user_src K p l)"
  unfolding argptr_def fetchint_def user_src_def by (intro frames)+

lemma frame_writev_loop [frames]: "frame (writev_loop K f p n tot)"
proof (induction n arbitrary: p tot)
  case (Suc n)
  then show ?case
    unfolding writev_loop.simps by (intro frames)
qed (simp add: frames)

lemma frame_upd_fields [frames]:
  "frame (upd_proc p (\<lambda>x. x\<lparr>sz := a x\<rparr>))" "frame (upd_proc p (\<lambda>x. x\<lparr>pgdir := b\<rparr>))" "frame (upd_proc p (\<lambda>x. x\<lparr>pid := i\<rparr>))"
  "frame (upd_proc p (\<lambda>x. x\<lparr>cwd := c\<rparr>))" "frame (upd_proc p (\<lambda>x. x\<lparr>parent := d\<rparr>))" "frame (upd_proc p (\<lambda>x. x\<lparr>chan := e\<rparr>))"
  "frame (upd_proc p (\<lambda>x. x\<lparr>pname := g x\<rparr>))" "frame (upd_proc p (\<lambda>x. x\<lparr>kstack := k1, tf := k2, ctxp := k3\<rparr>))"
  "frame (upd_proc p (\<lambda>x. x\<lparr>pname := g x, pgdir := b, sz := q\<rparr>))"
  by (rule frame_upd_proc; simp)+

lemma frame_growproc [frames]: "frame (growproc K n)"
  unfolding growproc_def by (intro frames)

lemma frame_calls [frames]: "frame (sys_read K)" "frame (sys_write K)" "frame (sys_writev K junk)" "frame (sys_fstat L K)"
  "frame (sys_fstatat L K)" "frame (sys_mkdirat L K)" "frame (sys_mknodat L K)" "frame (sys_chdir K)" "frame sys_gettid"
  "frame sys_ioctl" "frame (sys_brk K)" "frame sys_sigprocmask" "frame sys_default"
  unfolding sys_read_def sys_write_def sys_writev_def sys_fstat_def sys_fstatat_def sys_mkdirat_def sys_mknodat_def
    sys_chdir_def sys_gettid_def sys_ioctl_def sys_brk_def sys_sigprocmask_def sys_default_def created_def Let_def
  by (intro frames)+

lemma frame_sum [frames]: "(\<And>x. frame (f x)) \<Longrightarrow> (\<And>y. frame (g y)) \<Longrightarrow> frame (case r of Inl x \<Rightarrow> f x | Inr y \<Rightarrow> g y)"
  by (simp split: sum.split)

lemma frame_read_k [frames]: "frame (read_k K ip a n)"
  unfolding read_k_def by (intro frames)

lemma frame_loaduvm [frames]: "frame (loaduvm K dir va ip offset n)"
proof (induction K dir va ip offset n rule: loaduvm.induct)
  case (1 K dir va ip offset n)
  then show ?case
    unfolding loaduvm.simps [of K dir va ip offset n] by (intro frames) auto
qed

lemma frame_load_segments [frames]: "frame (load_segments K dir ip n a b)"
proof (induction n arbitrary: a b)
  case (Suc n)
  then show ?case
    unfolding load_segments.simps Let_def by (intro frames)
qed (simp add: frames)

lemma frame_push_args [frames]: "frame (push_args K dir as sp ustk)"
proof (induction as arbitrary: sp ustk)
  case (Cons a as)
  then show ?case
    unfolding push_args.simps Let_def by (intro frames)
qed (simp add: frames)

lemma frame_copyouts [frames]: "frame (copyouts K dir cs)"
proof (induction cs)
  case (Cons c cs)
  then show ?case
    by (cases c) (auto intro!: frames)
qed (simp add: frames)

lemma frame_exec [frames]: "frame (execve K path argv)"
proof -
  have "frame (exec_bad K dir ip)" for dir ip
    unfolding exec_bad_def by (intro frames)
  moreover have "frame (exec_stack K dir n argv)" for dir n
    unfolding exec_stack_def Let_def by (intro frames)
  moreover have "frame (exec_commit K dir n sp pc path)" for dir n sp pc
    unfolding exec_commit_def by (intro frames)
  ultimately show ?thesis
    unfolding execve_def Let_def by (intro frames)
qed

lemma frame_fetch_argv [frames]: "frame (fetch_argv K n a acc)"
proof (induction n arbitrary: a acc)
  case (Suc n)
  then show ?case
    unfolding fetch_argv.simps by (intro frames)
qed (simp add: frames)

lemma frame_sys_exec [frames]: "frame (sys_exec K)"
  unfolding sys_exec_def by (intro frames)

section \<open>Calls that change descriptors\<close>

text \<open>The current process is alive and the invariant holds; a call keeps both, or ends with the process dead.\<close>

definition alive :: "view \<Rightarrow> nat \<Rightarrow> bool" where
  "alive v p \<longleftrightarrow> refs_ok v \<and> vc v = Some p \<and> p < 14 \<and> \<not> dead (vs v ! p)"

lemma aliveD:
  "alive v p \<Longrightarrow> refs_ok v" "alive v p \<Longrightarrow> vc v = Some p" "alive v p \<Longrightarrow> p < 14" "alive v p \<Longrightarrow> \<not> dead (vs v ! p)"
  "alive v p \<Longrightarrow> p < length (vo v)"
  using refs_okD(1) by (auto simp: alive_def)

lemma vends_need:
  assumes "frame m" "refs_ok v" "\<And>x. vends (f x) v (\<lambda>_ v'. refs_ok v')"
  shows "vends (need m f) v (\<lambda>_ v'. refs_ok v')"
  unfolding need_def using assms
  by (intro vends_bind vends_frame [OF assms(1)]) (auto split: option.split intro: vends_ret)

lemma vends_argfd:
  assumes v: "alive v p" and f: "\<And>fd f. fd < 8 \<Longrightarrow> vo v ! p ! fd = Some f \<Longrightarrow> vends (g (fd, f)) v (\<lambda>_ v'. refs_ok v')"
  shows "vends (need (argfd n) g) v (\<lambda>_ v'. refs_ok v')"
proof -
  have fd: "unat fd < 8" if "\<not> sint fd < 0" "\<not> int NOFILE \<le> sint fd" for fd :: u32
  proof -
    have "uint fd < 8"
      using that unsigned_less [of fd, where ?'a = int] by (auto simp: sint_u32 NOFILE_def split: if_splits)
    moreover have "int (unat fd) = uint fd"
      by simp
    ultimately show ?thesis
      by linarith
  qed
  have t: "vends this_proc v Q" if "\<And>x. ofile x = vo v ! p \<Longrightarrow> Q x v" for Q
    unfolding this_proc_def using v that
    by (intro vends_bind vends_thisproc) (auto simp: aliveD intro!: vends_get_proc)
  have "vends (argfd n) v (\<lambda>r v'. v' = v \<and> (\<forall>fd f. r = Some (fd, f) \<longrightarrow> fd < 8 \<and> vo v ! p ! fd = Some f))"
    unfolding argfd_def
    by (rule vends_bind, rule vends_frame [OF frame_args(2)])
      (auto split: option.split if_splits intro!: vends_ret vends_bind t simp: fd)
  then have "vends (argfd n) v (\<lambda>r v'. vends (case r of None \<Rightarrow> ret (- 1) | Some x \<Rightarrow> g x) v' (\<lambda>_ v'. refs_ok v'))"
    by (rule vends_mono) (use aliveD(1) [OF v] in \<open>auto split: option.split intro!: vends_ret f\<close>)
  then show ?thesis
    unfolding need_def by (rule vends_bind)
qed

lemma fd_free:
  assumes "free_fd ds = Some fd"
  shows "fd < 8" "ds ! fd = None"
  using assms by (auto simp: free_fd_def NOFILE_def find_Some_iff dest!: nth_mem)

text \<open>\<^verbatim>\<open>fdalloc\<close> fills a free descriptor of the current process.\<close>

lemma vends_fdalloc:
  assumes v: "vc v = Some p" "p < length (vo v)" and none: "Q None v"
    and some: "\<And>fd. fd < 8 \<Longrightarrow> vo v ! p ! fd = None \<Longrightarrow> Q (Some fd) (v\<lparr>vo := (vo v)[p := (vo v ! p)[fd := Some f]]\<rparr>)"
  shows "vends (fdalloc f) v Q"
  unfolding fdalloc_def
proof (intro vends_bind vends_thisproc)
  fix q assume "vc v = Some q"
  then have q: "q = p"
    using v(1) by simp
  show "vends (get_proc q) v (\<lambda>x v'. vends (case free_fd (ofile x) of
      None \<Rightarrow> ret None
    | Some i \<Rightarrow> andthen (upd_proc q (\<lambda>x. x\<lparr>ofile := (ofile x)[i := Some f]\<rparr>)) (ret (Some i))) v' Q)"
    unfolding q using v(2)
  proof (rule vends_get_proc [rotated])
    fix x assume x: "ofile x = vo v ! p"
    show "vends (case free_fd (ofile x) of
        None \<Rightarrow> ret None
      | Some i \<Rightarrow> andthen (upd_proc p (\<lambda>x. x\<lparr>ofile := (ofile x)[i := Some f]\<rparr>)) (ret (Some i))) v Q"
      using none some fd_free [of "ofile x"] x
      by (auto split: option.split intro!: vends_ret vends_andthen vends_set_fd)
  qed
qed

lemma sys_dup_refs:
  assumes v: "alive v p"
  shows "vends sys_dup v (\<lambda>_ v'. refs_ok v')"
  unfolding sys_dup_def
proof (rule vends_argfd [OF v], clarsimp)
  fix fd f assume f: "fd < 8" "vo v ! p ! fd = Some f"
  note c = refs_close(1,2) [OF aliveD(1) [OF v] aliveD(3) [OF v] f]
  let ?v = "\<lambda>fd. v\<lparr>vo := (vo v)[p := (vo v ! p)[fd := Some f]]\<rparr>"
  have dup: "vends (andthen (on_fs (filedup f)) (ret (of_nat i))) (?v i) (\<lambda>_ v'. refs_ok v')"
    if i: "i < 8" "vo v ! p ! i = None" for i
  proof (intro vends_andthen vends_on_fs fends_filedup vends_ret)
    show "f < length (vr (?v i))"
      using c(1) refs_okD(4) [OF aliveD(1) [OF v]] by simp
    have "vr v ! f \<noteq> 0"
      using c(2) by (metis less_irrefl unat_0)
    then show "refs_ok (?v i\<lparr>vr := (vr (?v i))[f := vr (?v i) ! f + 1], vt := vt (?v i)\<rparr>)"
      using refs_dup [OF aliveD(1) [OF v] aliveD(3) [OF v] i aliveD(4) [OF v] c(1)] by simp
  qed
  show "vends (need (fdalloc f) (\<lambda>fd. andthen (on_fs (filedup f)) (ret (of_nat fd)))) v (\<lambda>_ v'. refs_ok v')"
    unfolding need_def using v dup
    by (intro vends_bind vends_fdalloc) (auto simp: aliveD intro!: vends_ret)
qed

lemma close_step:
  assumes v: "alive v p" and f: "fd < 8" "vo v ! p ! fd = Some f"
    and q: "\<And>rcs tys. refs_ok (v\<lparr>vo := (vo v)[p := (vo v ! p)[fd := None]], vr := rcs, vt := tys\<rparr>) \<Longrightarrow> Q () rcs tys"
  shows "fends (fileclose E sb f) (vr v) (vt v) Q"
proof (rule fends_fileclose)
  note c = refs_close [OF aliveD(1) [OF v] aliveD(3) [OF v] f]
  show "f < length (vr v)"
    using c(1) refs_okD(4) [OF aliveD(1) [OF v]] by simp
  have "refs_ok (v\<lparr>vo := (vo v)[p := (vo v ! p)[fd := None]], vr := (vr v)[f := vr v ! f - 1], vt := vt v\<rparr>)"
    if "0 < sint (vr v ! f - 1)"
    using c(3) [OF that] by simp
  then show "0 < sint (vr v ! f - 1) \<Longrightarrow> Q () ((vr v)[f := vr v ! f - 1]) (vt v)"
    by (rule q)
  show "\<not> 0 < sint (vr v ! f - 1) \<Longrightarrow> Q () ((vr v)[f := 0]) ((vt v)[f := FD_NONE])"
    using c(4) by (rule q)
qed

lemma sys_close_refs:
  assumes v: "alive v p"
  shows "vends (sys_close K) v (\<lambda>_ v'. refs_ok v')"
  unfolding sys_close_def
proof (rule vends_argfd [OF v], clarsimp)
  fix fd f assume f: "fd < 8" "vo v ! p ! fd = Some f"
  let ?v = "v\<lparr>vo := (vo v)[p := (vo v ! p)[fd := None]]\<rparr>"
  have "fends (fileclose (fsenv K) (super K) f) (vr v) (vt v) (\<lambda>x rcs tys. vends (ret 0) (?v\<lparr>vr := rcs, vt := tys\<rparr>) (\<lambda>_ v'. refs_ok v'))"
    by (rule close_step [OF v f]) (rule vends_ret)
  then show "vends (bind thisproc (\<lambda>p. andthen (upd_proc p (\<lambda>x. x\<lparr>ofile := (ofile x)[fd := None]\<rparr>))
      (andthen (on_fs (fileclose (fsenv K) (super K) f)) (ret 0)))) v (\<lambda>_ v'. refs_ok v')"
    using aliveD(2) [OF v]
    by (intro vends_bind vends_thisproc vends_andthen vends_set_fd vends_on_fs) simp
qed

text \<open>A file that was taken for opening and is given back.\<close>

lemma refs_reopen:
  assumes "refs_ok v" "f < 100" "vr v ! f = 0"
  shows "refs_ok (v\<lparr>vr := (vr v)[f := 0], vt := (vt v)[f := FD_NONE]\<rparr>)"
proof -
  have "(vr v)[f := 0] = vr v" "(vt v)[f := FD_NONE] = vt v"
    using assms refs_okD(9) [OF assms] by (metis list_update_id)+
  then show ?thesis
    using assms(1) by simp
qed

lemma open_tail_refs:
  assumes v: "alive v p" and g: "frame give_up"
  shows "vends (bind (on_fs filealloc) (\<lambda>r.
     case r of
       None \<Rightarrow> give_up
     | Some f \<Rightarrow>
        bind (fdalloc f) (\<lambda>q.
          case q of
            None \<Rightarrow> andthen (on_fs (fileclose (fsenv K) (super K) f)) give_up
          | Some fd \<Rightarrow>
             andthen (unlock_k ip) (andthen (op_end K)
               (andthen (on_fs (upd_file f (\<lambda>x. x\<lparr>ftype := FD_INODE, fip := ip, off := 0, readable := a, writable := b\<rparr>)))
                 (ret (of_nat fd))))))) v (\<lambda>_ v'. refs_ok v')"
proof (intro vends_bind vends_on_fs fends_filealloc, goal_cases)
  case (1 f)
  note o = refs_okD [OF aliveD(1) [OF v]]
  let ?v = "v\<lparr>vr := (vr v)[f := 1], vt := vt v\<rparr>"
  have f: "f < 100" "vr v ! f = 0"
    using 1 o(4) by auto
  have none: "vends (andthen (on_fs (fileclose (fsenv K) (super K) f)) give_up) ?v (\<lambda>_ v'. refs_ok v')"
    using f o(4) refs_reopen [OF aliveD(1) [OF v] f]
    by (intro vends_andthen vends_on_fs fends_fileclose vends_frame [OF g]) simp_all
  have some: "vends (andthen (unlock_k ip) (andthen (op_end K)
      (andthen (on_fs (upd_file f (\<lambda>x. x\<lparr>ftype := FD_INODE, fip := ip, off := 0, readable := a, writable := b\<rparr>)))
        (ret (of_nat fd))))) (?v\<lparr>vo := (vo v)[p := (vo v ! p)[fd := Some f]]\<rparr>) (\<lambda>_ v'. refs_ok v')"
    if fd: "fd < 8" "vo v ! p ! fd = None" for fd
  proof -
    have "refs_ok (v\<lparr>vo := (vo v)[p := (vo v ! p)[fd := Some f]], vr := (vr v)[f := 1], vt := (vt v)[f := FD_INODE]\<rparr>)"
      using aliveD(1,3) [OF v] fd aliveD(4) [OF v] f by (rule refs_open)
    then show ?thesis
      by (intro vends_andthen vends_frame [OF frame_ops(6)] vends_frame [OF frame_ops(2)] vends_on_fs fends_open vends_ret)
        simp
  qed
  show ?case
    using none some aliveD(2,5) [OF v] by (auto intro!: vends_bind vends_fdalloc)
next
  case 2
  show ?case
    using aliveD(1) [OF v] by (auto intro: vends_frame [OF g])
qed

lemma sys_openat_refs:
  assumes v: "alive v p"
  shows "vends (sys_openat L K) v (\<lambda>_ v'. refs_ok v')"
proof -
  have fr: "frame (if omode AND O_CREAT L \<noteq> 0 then create K path INODE_REGULAR 0 0
              else bind (namei_k K path) (\<lambda>ip. if ip = 0 then ret 0 else andthen (lock_k ip) (ret ip)))" for omode path
    by (intro frames)
  have g: "frame (andthen (unlock_k ip) (andthen (put_k K ip) (andthen (op_end K) (ret (- 1)))) :: ('a kernel, u64) cm)" for ip
    by (intro frames)
  have e: "frame (andthen (op_end K) (ret (- 1)) :: ('a kernel, u64) cm)"
    by (intro frames)
  have tail: "vends (bind (if omode AND O_CREAT L \<noteq> 0 then create K path INODE_REGULAR 0 0
      else bind (namei_k K path) (\<lambda>ip. if ip = 0 then ret 0 else andthen (lock_k ip) (ret ip))) f) v (\<lambda>_ v'. refs_ok v')"
    if "\<And>ip. vends (f ip) v (\<lambda>_ v'. refs_ok v')" for omode path and f :: "u64 \<Rightarrow> ('a kernel, u64) cm"
    by (rule vends_bind, rule vends_frame [OF fr]) (rule that)
  show ?thesis
    unfolding sys_openat_def Let_def
    by (intro vends_need frame_args aliveD(1) [OF v] vends_if vends_ret vends_andthen vends_frame [OF frame_ops(1)] tail
        open_tail_refs [OF v g] vends_frame [OF frame_ops(2)])
qed

section \<open>Exit, fork and wait\<close>

text \<open>Some processes that slept have been woken.\<close>

definition woken :: "view \<Rightarrow> view \<Rightarrow> bool" where
  "woken v v' \<longleftrightarrow> vo v' = vo v \<and> vr v' = vr v \<and> vt v' = vt v \<and> vc v' = vc v \<and> length (vs v') = length (vs v) \<and>
     (\<forall>i<length (vs v). vs v' ! i = vs v ! i \<or> vs v ! i = SLEEPING \<and> vs v' ! i = RUNNABLE \<and> vc v \<noteq> Some i)"

lemma woken_refl: "woken v v"
  by (simp add: woken_def)

lemma woken_trans: "woken u v \<Longrightarrow> woken v w \<Longrightarrow> woken u w"
  unfolding woken_def by (intro conjI allI impI; (simp; fail)?) (metis procstate.distinct)

lemma woken_fields: "woken v v' \<Longrightarrow> vo v' = vo v \<and> vr v' = vr v \<and> vt v' = vt v \<and> vc v' = vc v"
  by (simp add: woken_def)

lemma woken_refs:
  assumes "refs_ok v" "woken v v'"
  shows "refs_ok v'"
proof -
  have "dead (vs v ! i)" if "i < 14" "dead (vs v' ! i)" for i
    using assms(2) refs_okD(2) [OF assms(1)] that by (auto simp: woken_def dead_def)
  then show ?thesis
    using assms(1) woken_fields [OF assms(2)] assms(2) by (auto simp: refs_ok_def woken_def NPROC_def)
qed

lemma woken_alive: "alive v p \<Longrightarrow> woken v v' \<Longrightarrow> alive v' p \<and> vs v' ! p = vs v ! p"
proof -
  assume v: "alive v p" and w: "woken v v'"
  then have "vs v' ! p = vs v ! p"
    using refs_okD(2) [OF aliveD(1) [OF v]] aliveD(2,3) [OF v] by (auto simp: woken_def)
  then show ?thesis
    using v w woken_refs [of v v'] by (simp add: alive_def woken_def)
qed

lemma vends_wakeup1: "vends (wakeup1 c) v (\<lambda>_ v'. woken v v')"
  unfolding vends_def wakeup1_def modify_def
  by (auto simp: view_def woken_def intro!: nth_equalityI split: if_splits)

lemma vends_reparent:
  assumes "i < length (vo v)"
  shows "vends (reparent p i) v (\<lambda>_ v'. woken v v')"
  unfolding reparent_def using assms
  by (intro vends_bind vends_get_proc vends_if vends_andthen vends_gets vends_ret vends_frame [OF frame_upd_fields(5)]
      vends_wakeup1 woken_refl)

lemma vends_reparents:
  "\<forall>i\<in>set is. i < length (vo v) \<Longrightarrow> vends (for_each (reparent p :: nat \<Rightarrow> ('s kernel, unit) cm) is) v (\<lambda>_ v'. woken v v')"
proof (induction "is" arbitrary: v)
  case (Cons i js)
  have "vends (reparent p i :: ('s kernel, unit) cm) v (\<lambda>_ v'. woken v v')"
    using Cons.prems by (intro vends_reparent) simp
  then have "vends (reparent p i :: ('s kernel, unit) cm) v (\<lambda>_ v'. vends (for_each (reparent p :: nat \<Rightarrow> ('s kernel, unit) cm) js) v' (\<lambda>_ w. woken v w))"
  proof (rule vends_mono)
    fix x v' assume w: "woken v v'"
    have "vends (for_each (reparent p :: nat \<Rightarrow> ('s kernel, unit) cm) js) v' (\<lambda>_ w. woken v' w)"
      using Cons.prems woken_fields [OF w] by (intro Cons.IH) simp
    then show "vends (for_each (reparent p :: nat \<Rightarrow> ('s kernel, unit) cm) js) v' (\<lambda>_ w. woken v w)"
      by (rule vends_mono) (rule woken_trans [OF w])
  qed
  then show ?case
    by (simp add: vends_andthen)
qed (simp add: vends_ret woken_refl)

lemma view_swap: "v\<lparr>vr := a, vt := b, vo := c\<rparr> = v\<lparr>vo := c, vr := a, vt := b\<rparr>"
  by (cases v) simp

lemma vends_close_fd:
  assumes v: "alive v p" and fd: "fd < 8"
  shows "vends (close_fd K p fd) v (\<lambda>_ v'. alive v' p \<and> vs v' = vs v \<and> vo v' = (vo v)[p := (vo v ! p)[fd := None]])"
  unfolding close_fd_def
proof (rule vends_bind, rule vends_get_proc)
  show "p < length (vo v)"
    by (rule aliveD(5) [OF v])
  fix x assume x: "ofile x = vo v ! p"
  show "vends (case ofile x ! fd of None \<Rightarrow> ret ()
      | Some f \<Rightarrow> andthen (on_fs (fileclose (fsenv K) (super K) f)) (upd_proc p (\<lambda>x. x\<lparr>ofile := (ofile x)[fd := None]\<rparr>)))
      v (\<lambda>_ v'. alive v' p \<and> vs v' = vs v \<and> vo v' = (vo v)[p := (vo v ! p)[fd := None]])"
  proof (cases "vo v ! p ! fd")
    case None
    then have "(vo v ! p)[fd := None] = vo v ! p"
      by (metis list_update_id)
    then show ?thesis
      using None v x by (simp add: vends_ret)
  next
    case (Some f)
    have "fends (fileclose (fsenv K) (super K) f) (vr v) (vt v) (\<lambda>_ rcs tys.
        alive (v\<lparr>vo := (vo v)[p := (vo v ! p)[fd := None]], vr := rcs, vt := tys\<rparr>) p)"
      by (rule close_step [OF v fd Some]) (use v in \<open>auto simp: alive_def\<close>)
    then have "fends (fileclose (fsenv K) (super K) f) (vr v) (vt v) (\<lambda>_ rcs tys.
        vends (upd_proc p (\<lambda>x. x\<lparr>ofile := (ofile x)[fd := None]\<rparr>) :: ('a kernel, unit) cm) (v\<lparr>vr := rcs, vt := tys\<rparr>)
          (\<lambda>_ v'. alive v' p \<and> vs v' = vs v \<and> vo v' = (vo v)[p := (vo v ! p)[fd := None]]))"
      by (auto simp: fends_def view_swap intro!: vends_set_fd)
    then show ?thesis
      using Some x by (auto intro: vends_andthen vends_on_fs)
  qed
qed

lemma vends_close_all:
  "alive v p \<Longrightarrow> set fds \<subseteq> {..<8} \<Longrightarrow>
     vends (for_each (close_fd K p) fds) v (\<lambda>_ v'. alive v' p \<and> vs v' = vs v \<and>
       (\<forall>fd<8. vo v' ! p ! fd = (if fd \<in> set fds then None else vo v ! p ! fd)))"
proof (induction fds arbitrary: v)
  case (Cons fd fds)
  have "vends (close_fd K p fd) v (\<lambda>_ v'. alive v' p \<and> vs v' = vs v \<and> vo v' = (vo v)[p := (vo v ! p)[fd := None]])"
    using Cons.prems by (intro vends_close_fd) auto
  then have "vends (close_fd K p fd) v (\<lambda>_ v'. vends (for_each (close_fd K p) fds) v' (\<lambda>_ w. alive w p \<and> vs w = vs v \<and>
      (\<forall>g<8. vo w ! p ! g = (if g \<in> set (fd # fds) then None else vo v ! p ! g))))"
  proof (rule vends_mono, elim conjE)
    fix x v' assume v': "alive v' p" "vs v' = vs v" "vo v' = (vo v)[p := (vo v ! p)[fd := None]]"
    have "vo v' ! p ! g = (if g = fd then None else vo v ! p ! g)" if "g < 8" for g
      using that v'(3) aliveD [OF Cons.prems(1)] refs_okD(1,3) [of v] by (simp add: nth_list_update)
    moreover have "vends (for_each (close_fd K p) fds) v' (\<lambda>_ w. alive w p \<and> vs w = vs v' \<and>
      (\<forall>g<8. vo w ! p ! g = (if g \<in> set fds then None else vo v' ! p ! g)))"
      using Cons.prems(2) by (intro Cons.IH [OF v'(1)]) simp
    ultimately show "vends (for_each (close_fd K p) fds) v' (\<lambda>_ w. alive w p \<and> vs w = vs v \<and>
      (\<forall>g<8. vo w ! p ! g = (if g \<in> set (fd # fds) then None else vo v ! p ! g)))"
      using v'(2) by (elim vends_mono) auto
  qed
  then show ?case
    by (simp add: vends_andthen)
qed (simp add: vends_ret)

lemma frame_sched [frames]: "frame sched"
  unfolding sched_def by (intro frames)

text \<open>The process is dead, and some processes that slept have been woken.\<close>

definition exited :: "nat \<Rightarrow> view \<Rightarrow> view \<Rightarrow> bool" where
  "exited p v v' \<longleftrightarrow> refs_ok v' \<and> vc v' = vc v \<and> vs v' ! p = ZOMBIE \<and>
     (\<forall>q<14. q \<noteq> p \<longrightarrow> vs v' ! q = vs v ! q \<or> vs v ! q = SLEEPING \<and> vs v' ! q = RUNNABLE)"

lemma exited_zombie:
  assumes w: "alive w p" "no_files (vo w ! p)" and vw: "woken v w"
  shows "exited p v (w\<lparr>vs := (vs w)[p := ZOMBIE]\<rparr>)"
  using refs_state [OF aliveD(1,3) [OF w(1)], of ZOMBIE] w vw refs_okD(2) [OF aliveD(1) [OF w(1)]] aliveD(3) [OF w(1)]
  by (auto simp: exited_def woken_def)

lemma exit_sched_refs:
  assumes "alive v p" "no_files (vo v ! p)"
  shows "vends (exit_sched p :: ('s kernel, unit) cm) v (\<lambda>_ v'. exited p v v')"
proof -
  have zombie: "vends (andthen (upd_proc p (\<lambda>x. x\<lparr>state := ZOMBIE\<rparr>)) sched :: ('s kernel, unit) cm) w (\<lambda>_ v'. exited p v v')"
    if "alive w p" "no_files (vo w ! p)" "woken v w" for w
    using exited_zombie [OF that]
    by (intro vends_andthen vends_set_state [where st = ZOMBIE] vends_frame [OF frame_sched]) auto
  have children: "vends (andthen (for_each (reparent p) [0..<NPROC]) (andthen (upd_proc p (\<lambda>x. x\<lparr>state := ZOMBIE\<rparr>)) sched) :: ('s kernel, unit) cm)
      w (\<lambda>_ v'. exited p v v')" if w: "alive w p" "no_files (vo w ! p)" "woken v w" for w
    by (rule vends_andthen, rule vends_mono [OF vends_reparents])
      (use w(2,3) refs_okD(1) [OF aliveD(1) [OF w(1)]] in
        \<open>auto simp: NPROC_def woken_fields intro!: zombie intro: woken_trans dest: woken_alive [OF w(1)]\<close>)
  show ?thesis
    unfolding exit_sched_def
    by (rule vends_andthen, rule vends_frame [OF frame_locks(1)], rule vends_bind, rule vends_frame [OF frame_get_proc(1)],
        rule vends_andthen, rule vends_mono [OF vends_wakeup1])
      (use assms(2) in \<open>auto simp: woken_fields intro!: children dest: woken_alive [OF assms(1)]\<close>)
qed

lemma exit_refs:
  assumes v: "alive v p"
  shows "vends (exit_proc K) v (\<lambda>_ v'. exited p v v')"
proof -
  have closed: "no_files (vo w ! p)" if w: "alive w p" "\<forall>fd<8. vo w ! p ! fd = (if fd \<in> set [0..<NOFILE] then None else vo v ! p ! fd)" for w
    using w refs_okD(3) [OF aliveD(1) [OF w(1)] aliveD(3) [OF w(1)]]
    by (auto simp: no_files_def NOFILE_def in_set_conv_nth)
  have rest: "vends (andthen (op_begin K) (bind (get_proc p) (\<lambda>x. andthen (put_k K (cwd x)) (andthen (op_end K)
      (andthen (upd_proc p (\<lambda>x. x\<lparr>cwd := 0\<rparr>)) (exit_sched p)))))) w (\<lambda>_ v'. exited p v v')"
    if w: "alive w p" "no_files (vo w ! p)" "vs w = vs v" for w
  proof -
    have e: "exited p w = exited p v"
      using w(3) aliveD(2) [OF w(1)] aliveD(2) [OF v] by (auto simp: exited_def fun_eq_iff)
    show ?thesis
      by (rule vends_andthen, rule vends_frame [OF frame_ops(1)], rule vends_bind, rule vends_frame [OF frame_get_proc(1)],
        rule vends_andthen, rule vends_frame [OF frame_ops(4)], rule vends_andthen, rule vends_frame [OF frame_ops(2)],
        rule vends_andthen, rule vends_frame [OF frame_upd_fields(4)], rule exit_sched_refs [OF w(1,2), unfolded e])
  qed
  have files: "vends (andthen (for_each (close_fd K p) [0..<NOFILE]) (andthen (op_begin K) (bind (get_proc p) (\<lambda>x.
      andthen (put_k K (cwd x)) (andthen (op_end K) (andthen (upd_proc p (\<lambda>x. x\<lparr>cwd := 0\<rparr>)) (exit_sched p))))))) v (\<lambda>_ v'. exited p v v')"
    by (rule vends_andthen, rule vends_mono [OF vends_close_all [OF v]]) (use rest closed in \<open>auto simp: NOFILE_def\<close>)
  show ?thesis
    unfolding exit_proc_def
    by (rule vends_bind, rule vends_thisproc, rule vends_andthen, rule vends_guard)
      (use files aliveD(2) [OF v] in simp)
qed

text \<open>A new process: an unused entry that is in preparation now.\<close>

lemma find_unused_Some:
  assumes "find_unused ps = Some i"
  shows "i < 14" "state (ps ! i) = UNUSED"
  using assms by (auto simp: find_unused_def NPROC_def find_Some_iff dest!: nth_mem)

lemma vends_alloc_pcb:
  assumes "length (vs v) = 14"
  shows "vends alloc_pcb v (\<lambda>r v'. v' = v \<and> (\<forall>i. r = Some i \<longrightarrow> i < 14 \<and> vs v ! i = UNUSED))"
proof -
  have find: "vends (gets (\<lambda>k. find_unused (ptable k)) :: ('s kernel, nat option) cm) v
      (\<lambda>r v'. v' = v \<and> (\<forall>i. r = Some i \<longrightarrow> i < 14 \<and> vs v ! i = UNUSED))"
    by (rule vends_gets) (use assms in \<open>auto simp: view_def find_unused_Some\<close>)
  show ?thesis
    unfolding alloc_pcb_def
    by (rule vends_andthen, rule vends_frame [OF frame_locks(1)], rule vends_bind, rule vends_mono [OF find])
      (auto split: option.split intro!: vends_andthen vends_bind vends_ret vends_frame [OF frame_locks(2)]
        vends_frame [OF frame_get_pid] vends_frame [OF frame_upd_fields(3)])
qed

lemma vends_alloc_proc:
  assumes "length (vs v) = 14"
  shows "vends (alloc_proc K) v (\<lambda>r v'. case r of None \<Rightarrow> v' = v
    | Some np \<Rightarrow> np < 14 \<and> vs v ! np = UNUSED \<and> v' = v\<lparr>vs := (vs v)[np := EMBRYO]\<rparr>)"
proof -
  have undo: "(vs v)[np := UNUSED] = vs v" if "vs v ! np = UNUSED" for np
    using that by (metis list_update_id)
  show ?thesis
    unfolding alloc_proc_def
    by (rule vends_bind, rule vends_mono [OF vends_alloc_pcb [OF assms]])
      (auto split: option.split simp: undo intro!: vends_ret vends_andthen vends_bind vends_if vends_set_state
        vends_frame [OF frame_on_mem] vends_frame [OF frame_upd_fields(8)])
qed

lemma vends_dup_to:
  assumes "f < length (vr v)" "Q () (v\<lparr>vo := (vo v)[np := (vo v ! np)[fd := Some f]], vr := (vr v)[f := vr v ! f + 1]\<rparr>)"
  shows "vends (bind (on_fs (filedup f)) (\<lambda>g. upd_proc np (\<lambda>y. y\<lparr>ofile := (ofile y)[fd := Some g]\<rparr>))) v Q"
proof -
  have "v\<lparr>vo := a, vr := c\<rparr> = v\<lparr>vr := c, vo := a\<rparr>" for a c
    by (cases v) simp
  then have "Q () (v\<lparr>vr := (vr v)[f := vr v ! f + 1], vo := (vo v)[np := (vo v ! np)[fd := Some f]]\<rparr>)"
    using assms(2) by metis
  then show ?thesis
    using assms(1) by (intro vends_bind vends_on_fs fends_filedup vends_set_fd) simp_all
qed

lemma vends_dup_fd:
  assumes v: "alive v p" and np: "np < 14" "\<not> dead (vs v ! np)" and fd: "fd < 8" "vo v ! np ! fd = None"
  shows "vends (dup_fd p np fd :: ('s kernel, unit) cm) v (\<lambda>_ v'. alive v' p \<and> vs v' = vs v \<and>
    (\<forall>g<8. g \<noteq> fd \<longrightarrow> vo v' ! np ! g = vo v ! np ! g))"
    (is "vends _ _ ?Q")
  unfolding dup_fd_def
proof (rule vends_bind, rule vends_get_proc)
  show "p < length (vo v)"
    by (rule aliveD(5) [OF v])
  fix x assume x: "ofile x = vo v ! p"
  note o = refs_okD [OF aliveD(1) [OF v]]
  have "vends (bind (on_fs (filedup f)) (\<lambda>g. upd_proc np (\<lambda>y. y\<lparr>ofile := (ofile y)[fd := Some g]\<rparr>)) :: ('s kernel, unit) cm) v ?Q"
    if f: "vo v ! p ! fd = Some f" for f
  proof (rule vends_dup_to)
    note c = refs_close(1,2) [OF aliveD(1) [OF v] aliveD(3) [OF v] fd(1) f]
    show "f < length (vr v)"
      using c(1) o(4) by simp
    have "vr v ! f \<noteq> 0"
      using c(2) by (metis less_irrefl unat_0)
    then show "?Q () (v\<lparr>vo := (vo v)[np := (vo v ! np)[fd := Some f]], vr := (vr v)[f := vr v ! f + 1]\<rparr>)"
      using refs_dup [OF aliveD(1) [OF v] np(1) fd np(2) c(1)] v np(1) o(1) by (simp add: alive_def)
  qed
  then show "vends ((case ofile x ! fd of None \<Rightarrow> ret ()
      | Some f \<Rightarrow> bind (on_fs (filedup f)) (\<lambda>g. upd_proc np (\<lambda>y. y\<lparr>ofile := (ofile y)[fd := Some g]\<rparr>))) :: ('s kernel, unit) cm) v ?Q"
    using v x by (auto split: option.split intro: vends_ret)
qed

lemma vends_dup_all:
  "alive v p \<Longrightarrow> np < 14 \<Longrightarrow> \<not> dead (vs v ! np) \<Longrightarrow> distinct fds \<Longrightarrow> set fds \<subseteq> {..<8} \<Longrightarrow>
     \<forall>fd\<in>set fds. vo v ! np ! fd = None \<Longrightarrow>
     vends (for_each (dup_fd p np) fds :: ('s kernel, unit) cm) v (\<lambda>_ v'. alive v' p \<and> vs v' = vs v)"
proof (induction fds arbitrary: v)
  case (Cons fd fds)
  have "vends (dup_fd p np fd :: ('s kernel, unit) cm) v (\<lambda>_ v'. vends (for_each (dup_fd p np) fds :: ('s kernel, unit) cm) v'
      (\<lambda>_ w. alive w p \<and> vs w = vs v))"
  proof (rule vends_mono [OF vends_dup_fd])
    fix x v' assume v': "alive v' p \<and> vs v' = vs v \<and> (\<forall>g<8. g \<noteq> fd \<longrightarrow> vo v' ! np ! g = vo v ! np ! g)"
    then have "vends (for_each (dup_fd p np) fds :: ('s kernel, unit) cm) v' (\<lambda>_ w. alive w p \<and> vs w = vs v')"
      using Cons.prems by (intro Cons.IH) (auto simp: subset_iff)
    then show "vends (for_each (dup_fd p np) fds :: ('s kernel, unit) cm) v' (\<lambda>_ w. alive w p \<and> vs w = vs v)"
      using v' by simp
  qed (use Cons.prems in auto)
  then show ?case
    by (simp add: vends_andthen)
qed (simp add: vends_ret)

end
