(* ===== verification/KernelInv.thy ===== *)
theory KernelInv
  imports FileRefs
begin

text \<open>
  The descriptors' invariant over whole system calls: fork, wait, and every entry of the system call table.
\<close>

section \<open>Fork and wait\<close>

lemma view_undo:
  assumes "vs v ! np = st"
  shows "v\<lparr>vs := (vs v)[np := st]\<rparr> = v"
proof -
  have "(vs v)[np := st] = vs v"
    using assms by (metis list_update_id)
  then show ?thesis
    by simp
qed

lemma embryo_alive:
  assumes v: "alive v p" and np: "np < 14" "vs v ! np = UNUSED"
  shows "alive (v\<lparr>vs := (vs v)[np := EMBRYO]\<rparr>) p" "fd < 8 \<Longrightarrow> vo v ! np ! fd = None" "np \<noteq> p"
proof -
  note o = refs_okD [OF aliveD(1) [OF v]]
  have n: "no_files (vo v ! np)"
    using o(8) [OF np(1)] np(2) by (simp add: dead_def)
  then show "fd < 8 \<Longrightarrow> vo v ! np ! fd = None"
    using o(3) [OF np(1)] by (simp add: no_files_def)
  show "np \<noteq> p"
    using aliveD(4) [OF v] np(2) by (auto simp: dead_def)
  then show "alive (v\<lparr>vs := (vs v)[np := EMBRYO]\<rparr>) p"
    using v refs_state [OF aliveD(1) [OF v] np(1), of EMBRYO] by (simp add: alive_def dead_def)
qed

text \<open>The child after its entry has been taken.\<close>

definition forked :: "view \<Rightarrow> view \<Rightarrow> bool" where
  "forked v v' \<longleftrightarrow> refs_ok v' \<and> vc v' = vc v \<and>
     (vs v' = vs v \<or> (\<exists>np<14. vs v ! np = UNUSED \<and> vs v' = (vs v)[np := RUNNABLE]))"

lemma fork_child_refs:
  assumes v: "alive v p" and np: "np < 14" "vs v ! np = UNUSED"
  shows "vends (fork_child p np x :: ('s kernel, u32) cm) (v\<lparr>vs := (vs v)[np := EMBRYO]\<rparr>) (\<lambda>_ v'. forked v v')"
proof -
  let ?rest = "andthen (upd_proc np (\<lambda>y. y\<lparr>pname := strncpy_l (pname x) 16\<rparr>))
      (bind (on_fs (on_tree (inode_share (cwd x)))) (\<lambda>c.
        andthen (upd_proc np (\<lambda>y. y\<lparr>cwd := c, state := RUNNABLE\<rparr>))
          (bind (get_proc np) (\<lambda>y. ret (pid y))))) :: ('s kernel, u32) cm"
  have rest: "vends ?rest w (\<lambda>_ v'. forked v v')" if w: "alive w p" "vs w = (vs v)[np := EMBRYO]" for w
  proof -
    have "forked v (w\<lparr>vs := (vs w)[np := RUNNABLE]\<rparr>)"
      using w np aliveD(2) [OF v] aliveD(1,2) [of w p] refs_state [of w np RUNNABLE] by (auto simp: forked_def dead_def)
    then show ?thesis
      by (intro vends_andthen vends_bind vends_frame [OF frame_upd_fields(7)] vends_frame [OF frame_on_tree] vends_set_state
          vends_frame [OF frame_get_proc(1)] vends_ret) simp_all
  qed
  have "\<not> dead (vs (v\<lparr>vs := (vs v)[np := EMBRYO]\<rparr>) ! np)"
    using np(1) refs_okD(2) [OF aliveD(1) [OF v]] by (simp add: dead_def)
  then have "vends (andthen (for_each (dup_fd p np) [0..<NOFILE]) ?rest) (v\<lparr>vs := (vs v)[np := EMBRYO]\<rparr>) (\<lambda>_ v'. forked v v')"
    by (intro vends_andthen, rule vends_mono [OF vends_dup_all [OF embryo_alive(1) [OF v np] np(1)]])
      (use embryo_alive(2) [OF v np] rest in \<open>auto simp: NOFILE_def\<close>)
  then show ?thesis
    unfolding fork_child_def
    by (intro vends_andthen [OF vends_frame [OF frame_upd_fields(1)]] vends_andthen [OF vends_frame [OF frame_on_mem]]
        vends_andthen [OF vends_frame [OF frame_upd_fields(5)]] vends_bind [OF vends_frame [OF frame_get_proc(1)]])
qed

lemma fork_refs:
  assumes v: "alive v p"
  shows "vends (fork K) v (\<lambda>_ v'. forked v v')"
proof -
  have same: "forked v v"
    using aliveD(1) [OF v] by (simp add: forked_def)
  then have undo: "forked v (v\<lparr>vs := (vs v)[np := EMBRYO, np := UNUSED]\<rparr>)" if "vs v ! np = UNUSED" for np
    using view_undo [OF that] by simp
  show ?thesis
    unfolding fork_def
    by (rule vends_bind, rule vends_thisproc, rule vends_bind,
        rule vends_mono [OF vends_alloc_proc [OF refs_okD(2) [OF aliveD(1) [OF v]]]])
      (use aliveD(2) [OF v] same undo in \<open>auto split: option.splits intro!: vends_ret vends_bind [OF vends_frame [OF frame_get_proc(1)]]
        vends_bind [OF vends_frame [OF frame_on_mem]] vends_andthen [OF vends_frame [OF frame_on_mem]]
        vends_andthen [OF vends_frame [OF frame_upd_fields(2)]] fork_child_refs [OF v] vends_andthen [OF vends_set_state [where st = UNUSED]]\<close>)
qed

text \<open>A round of wait: a dead child's entry is unused again, or the process sleeps, or nothing changes.\<close>

definition reaped :: "view \<Rightarrow> view \<Rightarrow> bool" where
  "reaped v v' \<longleftrightarrow> refs_ok v' \<and> vc v' = vc v \<and> (\<exists>i<14. vs v ! i = ZOMBIE \<and> vs v' = (vs v)[i := UNUSED])"

definition waited :: "nat \<Rightarrow> view \<Rightarrow> u32 option \<Rightarrow> view \<Rightarrow> bool" where
  "waited p v r v' \<longleftrightarrow> (case r of
     None \<Rightarrow> refs_ok v' \<and> vc v' = vc v \<and> vs v' = (vs v)[p := SLEEPING]
   | Some n \<Rightarrow> v' = v \<or> reaped v v')"

lemma reap_refs:
  assumes v: "refs_ok v" and i: "i < 14" "vs v ! i = ZOMBIE"
  shows "vends (reap K i) v (\<lambda>_ v'. reaped v v')"
proof -
  have "no_files (vo v ! i)"
    using refs_okD(8) [OF v i(1)] i(2) by (simp add: dead_def)
  then have "reaped v (v\<lparr>vs := (vs v)[i := UNUSED]\<rparr>)"
    using i refs_state [OF v i(1)] by (auto simp: reaped_def)
  then show ?thesis
    unfolding reap_def
    by (intro vends_bind [OF vends_frame [OF frame_get_proc(1)]] vends_andthen [OF vends_set_state [where st = UNUSED]]
        vends_andthen [OF vends_frame [OF frame_on_mem]] vends_andthen [OF vends_frame [OF frame_locks(2)]] vends_ret) simp_all
qed

lemma wait_scan_refs:
  assumes v: "refs_ok v"
  shows "\<forall>i\<in>set is. i < 14 \<Longrightarrow>
    vends (wait_scan K tp is kids) v (\<lambda>r v'. case r of Inl n \<Rightarrow> reaped v v' | Inr b \<Rightarrow> v' = v)"
proof (induction "is" arbitrary: kids)
  case (Cons i js)
  have "vends (reap K i) v (\<lambda>n v'. vends (ret (Inl n :: u32 + bool)) v'
      (\<lambda>r v'. case r of Inl n \<Rightarrow> reaped v v' | Inr b \<Rightarrow> v' = v))" if "vs v ! i = ZOMBIE"
    by (rule vends_mono [OF reap_refs [OF v]]) (use Cons.prems that in \<open>auto intro: vends_ret\<close>)
  then show ?case
    unfolding wait_scan.simps using Cons refs_okD(1) [OF v]
    by (intro vends_bind vends_get_proc vends_if) auto
qed (simp add: vends_ret)

lemma wait_round_refs:
  assumes v: "alive v p"
  shows "vends (wait_round K) v (waited p v)"
proof -
  have all: "\<forall>i\<in>set [0..<NPROC]. i < 14"
    by (simp add: NPROC_def)
  have "refs_ok (v\<lparr>vs := (vs v)[p := SLEEPING]\<rparr>)"
    by (rule refs_state [OF aliveD(1,3) [OF v]]) (simp add: dead_def)
  then have s: "waited p v None (v\<lparr>vs := (vs v)[p := SLEEPING]\<rparr>)"
    by (simp add: waited_def)
  show ?thesis
    unfolding wait_round_def
    by (rule vends_bind, rule vends_thisproc, rule vends_bind, rule vends_mono [OF wait_scan_refs [OF aliveD(1) [OF v] all]])
      (use aliveD(2) [OF v] s in \<open>auto split: sum.splits simp: waited_def [of _ _ "Some _"]
        intro!: vends_ret vends_bind [OF vends_frame [OF frame_get_proc(1)]] vends_if vends_andthen [OF vends_frame [OF frame_locks(2)]]
        vends_andthen [OF vends_set_state [where st = SLEEPING]] vends_andthen [OF vends_frame [OF frame_sched]]\<close>)
qed

lemma wait_refs: "alive v p \<Longrightarrow> vends (wait K) v (waited p v)"
  unfolding wait_def by (intro vends_andthen [OF vends_frame [OF frame_locks(1)]] wait_round_refs)

lemma wait_resume_refs: "alive v p \<Longrightarrow> vends (wait_resume K) v (waited p v)"
  unfolding wait_resume_def
  by (intro vends_bind [OF vends_frame [OF frame_get_proc(2)]] vends_andthen [OF vends_frame [OF frame_upd_fields(6)]] wait_round_refs)

lemma yield_refs:
  assumes v: "alive v p"
  shows "vends (yield_enter :: ('s kernel, unit) cm) v (\<lambda>_ v'. v' = v\<lparr>vs := (vs v)[p := RUNNABLE]\<rparr> \<and> refs_ok v')"
proof -
  have "refs_ok (v\<lparr>vs := (vs v)[p := RUNNABLE]\<rparr>)"
    by (rule refs_state [OF aliveD(1,3) [OF v]]) (simp add: dead_def)
  then show ?thesis
    unfolding yield_enter_def using aliveD(2) [OF v]
    by (intro vends_andthen [OF vends_frame [OF frame_locks(1)]] vends_bind vends_thisproc vends_andthen
        vends_set_state [where st = RUNNABLE] vends_frame [OF frame_sched]) auto
qed

section \<open>The states of the processes\<close>

text \<open>A computation that leaves the states of all processes and the current process alone.\<close>

definition still :: "('s kernel, 'a) cm \<Rightarrow> bool" where
  "still m \<longleftrightarrow> (\<forall>k x k'. m k = Inr (x, k') \<longrightarrow> vs (view k') = vs (view k) \<and> vc (view k') = vc (view k))"

named_theorems stills

lemma still_frame: "frame m \<Longrightarrow> still m"
  by (auto simp: still_def frame_def)

lemma still_vends:
  assumes "still m" "vends m v Q"
  shows "vends m v (\<lambda>x v'. Q x v' \<and> vs v' = vs v \<and> vc v' = vc v)"
  using assms by (auto simp: still_def vends_def)

lemma still_basic [stills]: "still (ret x)" "still (fail e)" "still (gets g)"
  by (auto intro!: still_frame frames)

lemma still_bind [stills]: "still m \<Longrightarrow> (\<And>x. still (f x)) \<Longrightarrow> still (bind m f)"
  by (fastforce simp: still_def bind_def split: sum.splits)

lemma still_andthen [stills]: "still m \<Longrightarrow> still n \<Longrightarrow> still (andthen m n)"
  by (simp add: andthen_def still_bind)

lemma still_if [stills]: "still m \<Longrightarrow> still n \<Longrightarrow> still (if b then m else n)"
  by simp

lemma still_option [stills]: "still m \<Longrightarrow> (\<And>x. still (f x)) \<Longrightarrow> still (case r of None \<Rightarrow> m | Some x \<Rightarrow> f x)"
  by (simp split: option.split)

lemma still_prod [stills]: "(\<And>a b. still (f a b)) \<Longrightarrow> still (case p of (a, b) \<Rightarrow> f a b)"
  by (simp split: prod.split)

lemma still_on_fs [stills]: "still (on_fs m)"
  by (auto simp: still_def on_fs_def view_def split: sum.splits)

lemma still_files [stills]: "still (upd_proc p (\<lambda>x. x\<lparr>ofile := f x\<rparr>))"
  by (auto simp: still_def upd_proc_def modify_def view_def map_update)

lemma still_need [stills]: "still m \<Longrightarrow> (\<And>x. still (f x)) \<Longrightarrow> still (need m f)"
  unfolding need_def by (intro stills)

lemmas still_calls [stills] = frame_args [THEN still_frame] frame_get_proc [THEN still_frame] frame_ops [THEN still_frame]
  frame_create [THEN still_frame]

lemma still_sys: "still sys_dup" "still (sys_close K)" "still (sys_openat L K)"
  unfolding sys_dup_def sys_close_def sys_openat_def fdalloc_def Let_def by (intro stills)+

section \<open>System calls\<close>

text \<open>
  What a call of process \<open>p\<close> does to the view: the invariant holds, no other process that can run stops being able
  to run, none begins to run; and when the call returns (\<open>b\<close>) the state of \<open>p\<close> is what it was, when it gives up the CPU
  \<open>p\<close> no longer runs.
\<close>

definition called :: "nat \<Rightarrow> view \<Rightarrow> bool \<Rightarrow> view \<Rightarrow> bool" where
  "called p v b v' \<longleftrightarrow> refs_ok v' \<and> vc v' = vc v \<and>
     (\<forall>q<14. q \<noteq> p \<longrightarrow> (vs v ! q = RUNNABLE \<longrightarrow> vs v' ! q = RUNNABLE) \<and> (vs v' ! q = RUNNING \<longrightarrow> vs v ! q = RUNNING)) \<and>
     (if b then vs v' ! p = vs v ! p else vs v' ! p \<noteq> RUNNING)"

lemma called_same: "refs_ok v' \<Longrightarrow> vs v' = vs v \<Longrightarrow> vc v' = vc v \<Longrightarrow> called p v True v'"
  by (simp add: called_def)

lemma called_forked:
  assumes "alive v p" "forked v v'"
  shows "called p v True v'"
  using assms aliveD(4) [OF assms(1)] refs_okD(2) [OF aliveD(1) [OF assms(1)]]
  by (auto simp: forked_def called_def nth_list_update dead_def split: if_splits)

abbreviation proper :: "nat \<Rightarrow> view \<Rightarrow> 'b option \<Rightarrow> view \<Rightarrow> bool" where
  "proper p v r v' \<equiv> called p v (case r of None \<Rightarrow> False | Some _ \<Rightarrow> True) v'"

lemma called_waited:
  assumes "alive v p" "waited p v r v'"
  shows "proper p v r v'"
  using assms aliveD(1,3,4) [OF assms(1)] refs_okD(2) [OF aliveD(1) [OF assms(1)]]
  by (auto simp: waited_def reaped_def called_def nth_list_update dead_def split: option.splits if_splits)

lemma called_exited: "exited p v v' \<Longrightarrow> called p v False v'"
  by (auto simp: exited_def called_def)

lemma called_yield: "alive v p \<Longrightarrow> refs_ok v' \<Longrightarrow> v' = v\<lparr>vs := (vs v)[p := RUNNABLE]\<rparr> \<Longrightarrow> called p v False v'"
  using refs_okD(2) aliveD(1,3) by (force simp: called_def)

lemma returns_frame:
  assumes "alive v p" "frame m"
  shows "vends (returns m) v (proper p v)"
  unfolding returns_def using called_same [of v v p] aliveD(1) [OF assms(1)]
  by (intro vends_bind [OF vends_frame [OF assms(2)]] vends_ret) simp

lemma returns_still:
  assumes "vends m v (\<lambda>_ v'. refs_ok v')" "still m"
  shows "vends (returns m) v (proper p v)"
  unfolding returns_def
  by (rule vends_bind, rule vends_mono [OF still_vends [OF assms(2,1)]]) (auto intro!: vends_ret simp: called_same)

lemma clone_proper:
  assumes v: "alive v p"
  shows "vends (returns (sys_clone K)) v (proper p v)"
proof -
  have f: "vends (bind (fork K) (\<lambda>n. ret (sext n))) v (\<lambda>_ v'. called p v True v')"
    by (rule vends_bind, rule vends_mono [OF fork_refs [OF v]]) (auto intro: vends_ret called_forked [OF v])
  have s: "called p v True v"
    by (rule called_same) (simp_all add: aliveD(1) [OF v])
  have "vends (sys_clone K) v (\<lambda>_ v'. called p v True v')"
    unfolding sys_clone_def need_def
    by (intro vends_bind [OF vends_frame [OF frame_args(2)]])
      (auto split: option.split intro!: vends_ret s vends_bind [OF vends_frame [OF frame_args(2)]] f)
  then show ?thesis
    unfolding returns_def by (intro vends_bind) (auto elim!: vends_mono intro!: vends_ret)
qed

lemma wait4_proper:
  assumes v: "alive v p"
  shows "vends (sys_wait4 K) v (proper p v)"
proof -
  have w: "vends (bind (wait K) (\<lambda>r. ret (map_option sext r))) v (proper p v)"
    by (rule vends_bind, rule vends_mono [OF wait_refs [OF v]]) (use called_waited [OF v] in \<open>auto intro!: vends_ret simp: option.case_eq_if\<close>)
  have "called p v True v"
    by (rule called_same) (simp_all add: aliveD(1) [OF v])
  then show ?thesis
    unfolding sys_wait4_def
    by (intro vends_bind [OF vends_frame [OF frame_args(2)]] vends_if vends_ret w) simp
qed

lemma exit_proper:
  assumes v: "alive v p"
  shows "vends (sys_exit K) v (proper p v)"
  unfolding sys_exit_def
  by (rule vends_andthen, rule vends_mono [OF exit_refs [OF v]]) (auto intro!: vends_ret simp: called_exited)

lemma yield_proper:
  assumes v: "alive v p"
  shows "vends sys_yield v (proper p v)"
  unfolding sys_yield_def
  by (rule vends_andthen, rule vends_mono [OF yield_refs [OF v]]) (auto intro!: vends_ret called_yield [OF v])

lemma entry_proper:
  assumes v: "alive v p" and h: "(n, h) \<in> set (syscall_entries L N K junk)"
  shows "vends h v (proper p v)"
proof -
  note proper = returns_frame [OF v] clone_proper [OF v] wait4_proper [OF v] exit_proper [OF v] yield_proper [OF v]
    returns_still [OF sys_dup_refs [OF v] still_sys(1)] returns_still [OF sys_close_refs [OF v] still_sys(2)]
    returns_still [OF sys_openat_refs [OF v] still_sys(3)]
  show ?thesis
    using h unfolding syscall_entries_def list.set Un_insert_left insert_iff empty_iff prod.inject
    by (elim disjE conjE FalseE; hypsubst) (intro proper frames)+
qed

end
