(* ===== verification/Trap.thy ===== *)
theory Trap
  imports Exec
begin

text \<open>
  Exceptions and interrupts (\<^verbatim>\<open>src/core/trap.c\<close>, \<^verbatim>\<open>src/driver/interrupt.c\<close>, \<^verbatim>\<open>src/driver/clock.c\<close>). What a read of a device or system
  register returns is an argument. The handlers of devices are a table of computations. The clock handler is \<^verbatim>\<open>hello\<close> of
  \<^verbatim>\<open>src/main.c\<close>, which gives up the CPU: the trap handler is modelled up to that point, and its rest as a function of its own.
\<close>

unbundle bit_operations_syntax

section \<open>Interrupts\<close>

definition NUM_IRQ_TYPES :: nat where "NUM_IRQ_TYPES = 64"

definition IRQ_SRC_GPU :: u32 where "IRQ_SRC_GPU = push_bit 8 1"

definition IRQ_SRC_CNTPNSIRQ :: u32 where "IRQ_SRC_CNTPNSIRQ = push_bit 1 1"

type_synonym 's handler = "('s, unit) cm"

definition init_interrupt :: "'s handler option list" where
  "init_interrupt = replicate NUM_IRQ_TYPES None"

definition set_interrupt_handler :: "nat \<Rightarrow> 's handler \<Rightarrow> 's handler option list \<Rightarrow> 's handler option list" where
  "set_interrupt_handler ty h hs = hs[ty := Some h]"

definition invoke_clock_handler :: "'s handler option \<Rightarrow> 's handler" where
  "invoke_clock_handler c = (case c of None \<Rightarrow> fail (Panic ''no clock handler'') | Some h \<Rightarrow> h)"

definition handle_irq :: "'s handler option list \<Rightarrow> u64 \<Rightarrow> nat \<Rightarrow> 's handler" where
  "handle_irq hs pend i =
     (if drop_bit i pend AND 1 \<noteq> 0 then
        (case hs ! i of Some h \<Rightarrow> h | None \<Rightarrow> fail (Panic ''unknown interrupt type: %d''))
      else ret ())"

text \<open>The part of \<^verbatim>\<open>interrupt_global_handler\<close> behind the clock, with the sources that are left.\<close>

definition interrupt_devices :: "'s handler option list \<Rightarrow> u32 \<Rightarrow> u32 \<Rightarrow> u32 \<Rightarrow> 's handler" where
  "interrupt_devices hs source pend1 pend2 =
     (let pend = ucast pend1 OR push_bit 32 (ucast pend2);
          rest = (if source AND IRQ_SRC_GPU \<noteq> 0 then source XOR IRQ_SRC_GPU else source)
      in andthen (if source AND IRQ_SRC_GPU \<noteq> 0 then for_each (handle_irq hs pend) [0..<NUM_IRQ_TYPES] else ret ())
           (if rest \<noteq> 0 then fail (Panic ''unknown interrupt sources: %x'') else ret ()))"

definition interrupt_global_handler :: "'s handler option \<Rightarrow> 's handler option list \<Rightarrow> u32 \<Rightarrow> u32 \<Rightarrow> u32 \<Rightarrow> 's handler" where
  "interrupt_global_handler clock hs source pend1 pend2 =
     (if source AND IRQ_SRC_CNTPNSIRQ \<noteq> 0
      then andthen (invoke_clock_handler clock) (interrupt_devices hs (source XOR IRQ_SRC_CNTPNSIRQ) pend1 pend2)
      else interrupt_devices hs source pend1 pend2)"

section \<open>Traps\<close>

definition ESR_EC_SHIFT :: nat where "ESR_EC_SHIFT = 26"

definition ESR_ISS_MASK :: u64 where "ESR_ISS_MASK = 0xFFFFFF"

definition ESR_IR_MASK :: u64 where "ESR_IR_MASK = push_bit 25 1"

definition ESR_EC_UNKNOWN :: u64 where "ESR_EC_UNKNOWN = 0"

definition ESR_EC_SVC64 :: u64 where "ESR_EC_SVC64 = 0x15"

definition esr_ec :: "u64 \<Rightarrow> u64" where "esr_ec esr = drop_bit ESR_EC_SHIFT esr"

text \<open>What the hardware reports: the syndrome, the interrupt sources of the CPU and the pending device interrupts.\<close>

record trap_in =
  esr :: u64
  irq_source :: u32
  irq_pend1 :: u32
  irq_pend2 :: u32

text \<open>
  \<^verbatim>\<open>trap_global_handler\<close> until it returns (\<open>Some\<close>) or has given up the CPU (\<open>None\<close>). \<open>trap_irq\<close> is \<^verbatim>\<open>interrupt_global_handler\<close>
  with the clock handler \<^verbatim>\<open>hello\<close>, in the same sense.
\<close>

definition trap_irq :: "'s kernel handler option list \<Rightarrow> trap_in \<Rightarrow> ('s kernel, u64 option) cm" where
  "trap_irq hs t =
     (if irq_source t AND IRQ_SRC_CNTPNSIRQ \<noteq> 0 then andthen yield_enter (ret None)
      else andthen (interrupt_devices hs (irq_source t) (irq_pend1 t) (irq_pend2 t)) (ret (Some 0)))"

definition check_iss :: "u64 \<Rightarrow> ('s kernel, unit) cm" where
  "check_iss e = guard_cm (Panic ''iss!=0'') (\<lambda>_. e AND ESR_ISS_MASK = 0)"

definition trap_global_handler ::
  "libc \<Rightarrow> sysnos \<Rightarrow> 's kenv \<Rightarrow> u64 \<Rightarrow> 's kernel handler option list \<Rightarrow> trap_in \<Rightarrow> u64 \<Rightarrow> ('s kernel, u64 option) cm" where
  "trap_global_handler L N K junk hs t frame =
     (if esr_ec (esr t) = ESR_EC_UNKNOWN then
        (if esr t AND ESR_IR_MASK \<noteq> 0 then fail (Panic ''unknown error'') else trap_irq hs t)
      else if esr_ec (esr t) = ESR_EC_SVC64 then
        bind (syscall_dispatch L N K junk frame) (\<lambda>r.
          case r of None \<Rightarrow> ret None | Some x \<Rightarrow> andthen (check_iss (esr t)) (ret (Some x)))
      else andthen (exit_proc K) (ret None))"

definition trap_error_handler :: "u64 \<Rightarrow> ('s kernel, unit) cm" where
  "trap_error_handler ty = fail (Panic ''unknown trap type: %d'')"

section \<open>Which handlers run\<close>

lemma pending_bit: "drop_bit i (w :: u64) AND 1 \<noteq> 0 \<longleftrightarrow> bit w i"
  by (simp add: and_one_eq bit_iff_odd_drop_bit odd_iff_mod_2_eq_one)

lemma pending_words:
  "bit (ucast (a :: u32) OR push_bit 32 (ucast (b :: u32)) :: u64) i \<longleftrightarrow> (if i < 32 then bit a i else i < 64 \<and> bit b (i - 32))"
  by (auto simp: bit_or_iff bit_push_bit_iff bit_ucast_iff dest: bit_imp_le_length)

lemma handle_irq_bit:
  "handle_irq hs w i = (if bit w i then (case hs ! i of Some h \<Rightarrow> h | None \<Rightarrow> fail (Panic ''unknown interrupt type: %d'')) else ret ())"
  unfolding handle_irq_def pending_bit ..

lemma for_each_filter:
  assumes "\<And>i. i \<in> set is \<Longrightarrow> P i \<Longrightarrow> f i = g i" "\<And>i. i \<in> set is \<Longrightarrow> \<not> P i \<Longrightarrow> f i = ret ()"
  shows "for_each f is = for_each g (filter P is)"
  using assms by (induction "is") (auto simp: andthen_def bind_def ret_def fun_eq_iff split: sum.split)

lemma andthen_units: "andthen (ret ()) m = m" "andthen m (ret ()) = (m :: ('s, unit) cm)"
  by (auto simp: andthen_def bind_def ret_def fun_eq_iff split: sum.split)

definition irq_pending :: "u32 \<Rightarrow> u32 \<Rightarrow> nat \<Rightarrow> bool" where
  "irq_pending pend1 pend2 i \<longleftrightarrow> (if i < 32 then bit pend1 i else bit pend2 (i - 32))"

lemma devices_served:
  assumes "\<forall>i<NUM_IRQ_TYPES. irq_pending pend1 pend2 i \<longrightarrow> hs ! i \<noteq> None"
  shows "for_each (handle_irq hs (ucast pend1 OR push_bit 32 (ucast pend2))) [0..<NUM_IRQ_TYPES] =
    for_each (\<lambda>i. the (hs ! i)) (filter (irq_pending pend1 pend2) [0..<NUM_IRQ_TYPES])"
  using assms
  by (intro for_each_filter) (auto simp: handle_irq_bit pending_words irq_pending_def NUM_IRQ_TYPES_def split: if_splits)

lemma source_bits:
  "(source AND IRQ_SRC_CNTPNSIRQ \<noteq> 0) = bit source 1" "(source AND IRQ_SRC_GPU \<noteq> 0) = bit source 8"
proof -
  have b: "(w AND push_bit n 1 \<noteq> 0) = bit w n" if "n < 32" for w :: u32 and n
    using that bit_eq_iff [of "w AND push_bit n 1" 0] by (auto simp: bit_and_iff bit_exp_iff)
  show "(source AND IRQ_SRC_CNTPNSIRQ \<noteq> 0) = bit source 1" "(source AND IRQ_SRC_GPU \<noteq> 0) = bit source 8"
    unfolding IRQ_SRC_CNTPNSIRQ_def IRQ_SRC_GPU_def by (rule b, simp)+
qed

lemma sources_left:
  assumes "source AND NOT (IRQ_SRC_CNTPNSIRQ OR IRQ_SRC_GPU) = 0"
  shows "(if bit source 1 then source XOR IRQ_SRC_CNTPNSIRQ else source) = (if bit source 8 then IRQ_SRC_GPU else 0)"
proof (rule bit_word_eqI)
  fix n assume n: "n < LENGTH(32)"
  have k: "bit (push_bit k 1 :: u32) n \<longleftrightarrow> n = k" if "k < 32" for k
    using n that by (auto simp: bit_exp_iff)
  have b: "bit IRQ_SRC_CNTPNSIRQ n \<longleftrightarrow> n = 1" "bit IRQ_SRC_GPU n \<longleftrightarrow> n = 8"
    unfolding IRQ_SRC_CNTPNSIRQ_def IRQ_SRC_GPU_def by (rule k, simp)+
  have "\<not> bit (source AND NOT (IRQ_SRC_CNTPNSIRQ OR IRQ_SRC_GPU)) n"
    using assms by simp
  then show "bit (if bit source 1 then source XOR IRQ_SRC_CNTPNSIRQ else source) n = bit (if bit source 8 then IRQ_SRC_GPU else 0) n"
    using n b by (auto simp: bit_and_iff bit_not_iff bit_or_iff bit_xor_iff)
qed

lemma devices_only:
  assumes "\<forall>i<NUM_IRQ_TYPES. irq_pending pend1 pend2 i \<longrightarrow> hs ! i \<noteq> None"
  shows "interrupt_devices hs (if b then IRQ_SRC_GPU else 0) pend1 pend2 =
    (if b then for_each (\<lambda>i. the (hs ! i)) (filter (irq_pending pend1 pend2) [0..<NUM_IRQ_TYPES]) else ret ())"
  using devices_served [OF assms] by (simp add: interrupt_devices_def Let_def andthen_units IRQ_SRC_GPU_def)

text \<open>
  C28. An interrupt is served completely: when its sources are the clock and the devices and every pending device has a
  handler, \<^verbatim>\<open>interrupt_global_handler\<close> runs the clock handler exactly when the clock is a source, then the handler of
  every pending device once, in the order of their numbers, and never panics by itself.
\<close>

theorem interrupts_served:
  assumes "source AND NOT (IRQ_SRC_CNTPNSIRQ OR IRQ_SRC_GPU) = 0"
    and "\<forall>i<NUM_IRQ_TYPES. irq_pending pend1 pend2 i \<longrightarrow> hs ! i \<noteq> None"
  shows "interrupt_global_handler (Some clock) hs source pend1 pend2 =
    andthen (if bit source 1 then clock else ret ())
      (if bit source 8 then for_each (\<lambda>i. the (hs ! i)) (filter (irq_pending pend1 pend2) [0..<NUM_IRQ_TYPES]) else ret ())"
  using sources_left [OF assms(1)] devices_only [OF assms(2), of "bit source 8"]
  by (auto simp: interrupt_global_handler_def source_bits invoke_clock_handler_def andthen_units split: if_splits)

text \<open>The handlers of \<^verbatim>\<open>IRQ_AUX\<close> (29) and \<^verbatim>\<open>IRQ_ARASANSDIO\<close> (62) note that they have been called.\<close>

definition noting :: "nat \<Rightarrow> nat list handler" where
  "noting i = modify (\<lambda>l. l @ [i])"

lemma pending_29_62: "irq_pending (2 ^ 29) (2 ^ 30) i \<longleftrightarrow> i = 29 \<or> i = 62"
  by (auto simp: irq_pending_def bit_exp_iff simp del: power_numeral)

theorem interrupts_served_witness:
  "interrupt_global_handler (Some (noting 0)) (set_interrupt_handler 62 (noting 62) (set_interrupt_handler 29 (noting 29) init_interrupt))
     (2 ^ 1 OR 2 ^ 8) (2 ^ 29) (2 ^ 30) [] = Inr ((), [0, 29, 62])"
proof -
  let ?hs = "set_interrupt_handler 62 (noting 62) (set_interrupt_handler 29 (noting 29) init_interrupt)"
  have b: "bit (2 ^ 1 OR 2 ^ 8 :: u32) 1" "bit (2 ^ 1 OR 2 ^ 8 :: u32) 8"
    by (simp_all add: bit_or_iff bit_exp_iff del: power_numeral)
  have h: "?hs ! 29 = Some (noting 29)" "?hs ! 62 = Some (noting 62)"
    by (simp_all add: set_interrupt_handler_def init_interrupt_def NUM_IRQ_TYPES_def)
  have "filter (irq_pending (2 ^ 29) (2 ^ 30)) [0..<NUM_IRQ_TYPES] = [29, 62]"
    unfolding pending_29_62 NUM_IRQ_TYPES_def by code_simp
  moreover have "\<forall>i<NUM_IRQ_TYPES. irq_pending (2 ^ 29) (2 ^ 30) i \<longrightarrow> ?hs ! i \<noteq> None"
    unfolding pending_29_62 using h by auto
  moreover have "(2 ^ 1 OR 2 ^ 8) AND NOT (IRQ_SRC_CNTPNSIRQ OR IRQ_SRC_GPU) = (0 :: u32)"
    by (simp add: IRQ_SRC_CNTPNSIRQ_def IRQ_SRC_GPU_def)
  ultimately show ?thesis
    using interrupts_served [of "2 ^ 1 OR 2 ^ 8" "2 ^ 29" "2 ^ 30" ?hs "noting 0"] b h
    by (simp add: noting_def andthen_def bind_def modify_def ret_def)
qed

end
