(* ===== verification/Scheduler.thy ===== *)
theory Scheduler
  imports KernelInv Trap
begin

text \<open>
  The scheduler of the root container (\<^verbatim>\<open>scheduler_simple\<close> in \<^verbatim>\<open>src/core/sched.c\<close>) and the processes it runs, as one state
  machine of one CPU. Between two steps the CPU is in the loop over the process table, has just switched to a process, runs
  it in user mode, or has just switched back. What a process does after it has been switched to depends on where it gave up
  the CPU. For the root container \<^verbatim>\<open>yield_scheduler\<close> returns at once; tables of other containers are not part of the machine.
\<close>

section \<open>The loop\<close>

text \<open>The body of the inner loop up to the switch: whether the entry is switched to. \<open>sched_back\<close> is the rest of the body.\<close>

definition sched_try :: "nat \<Rightarrow> ('s kernel, bool) cm" where
  "sched_try i = andthen acquire_sched_lock (bind (get_proc i) (\<lambda>p.
     if state p = RUNNABLE then
       andthen (upd_proc i (\<lambda>x. x\<lparr>state := RUNNING\<rparr>)) (andthen (modify (\<lambda>k. k\<lparr>cur := Some i\<rparr>)) (ret True))
     else andthen release_sched_lock (ret False)))"

definition sched_back :: "('s kernel, unit) cm" where
  "sched_back = andthen (modify (\<lambda>k. k\<lparr>cur := None\<rparr>)) release_sched_lock"

text \<open>What follows the inner loop.\<close>

definition sched_turn :: "('s kernel, unit) cm" where
  "sched_turn = andthen acquire_sched_lock release_sched_lock"

section \<open>Processes\<close>

text \<open>Where a process continues: in \<^verbatim>\<open>forkret\<close>, or behind the switch in \<^verbatim>\<open>yield\<close>, \<^verbatim>\<open>sleep\<close> or \<^verbatim>\<open>wait\<close>, with the rest of its trap.\<close>

datatype saved = AtForkret | AtTimer trap_in | AtSleep | AtYield u64 | AtWait u64

definition saved_at :: "trap_in \<Rightarrow> procstate \<Rightarrow> saved" where
  "saved_at t st =
     (if st = ZOMBIE then AtForkret
      else if esr_ec (esr t) = ESR_EC_UNKNOWN then AtTimer t
      else if st = SLEEPING then AtWait (esr t) else AtYield (esr t))"

text \<open>The end of a system call that gave up the CPU: \<^verbatim>\<open>syscall_dispatch\<close> stores the result, the trap handler tests the syndrome.\<close>

definition call_return :: "nat \<Rightarrow> u64 \<Rightarrow> u32 \<Rightarrow> ('s kernel, unit) cm" where
  "call_return i e r = bind (get_proc i) (\<lambda>p. andthen (on_mem (store (tf p + tf_x 0) (sext r))) (check_iss e))"

text \<open>\<^verbatim>\<open>forkret\<close>: the second process that starts also starts the file system (\<open>initfs\<close>) and the first user program.\<close>

definition forkret :: "'s kenv \<Rightarrow> ('s itree, unit) cm \<Rightarrow> u8 list \<Rightarrow> nat \<Rightarrow> ('s kernel, unit) cm" where
  "forkret K initfs icode procnum =
     andthen release_sched_lock
       (if procnum + 1 = 2 then andthen (on_fs (on_tree initfs)) (spawn_init_process K icode) else ret ())"

text \<open>Handlers of devices wake the processes that wait for them.\<close>

definition wakers :: "waitchan list option list \<Rightarrow> 's kernel handler option list" where
  "wakers ws = map (map_option (for_each wakeup)) ws"

definition resume ::
  "'s kenv \<Rightarrow> ('s itree, unit) cm \<Rightarrow> u8 list \<Rightarrow> waitchan list option list \<Rightarrow> nat \<Rightarrow> nat \<Rightarrow> saved \<Rightarrow> ('s kernel, bool) cm" where
  "resume K initfs icode ws procnum i sv = (case sv of
     AtForkret \<Rightarrow> andthen (forkret K initfs icode procnum) (ret True)
   | AtTimer t \<Rightarrow> andthen yield_leave
       (andthen (interrupt_devices (wakers ws) (irq_source t XOR IRQ_SRC_CNTPNSIRQ) (irq_pend1 t) (irq_pend2 t)) (ret True))
   | AtSleep \<Rightarrow> andthen (sleep_leave (ret ())) (ret True)
   | AtYield e \<Rightarrow> andthen yield_leave (andthen (call_return i e 0) (ret True))
   | AtWait e \<Rightarrow> bind (wait_resume K) (\<lambda>r.
       case r of None \<Rightarrow> ret False | Some n \<Rightarrow> andthen (call_return i e n) (ret True)))"

section \<open>The machine\<close>

datatype cpu_pos = Scan nat | Resume nat | User nat | Back nat

record 's machine =
  kern :: "'s kernel"
  pos :: cpu_pos
  saves :: "saved list"
  procnum :: nat

text \<open>Everything that comes from outside: the C library, the environment of the kernel, the first program, the file system's start.\<close>

record 's world =
  wlibc :: libc
  wnos :: sysnos
  wenv :: "'s kenv"
  winit :: "('s itree, unit) cm"
  wcode :: "u8 list"

inductive kstep :: "'s world \<Rightarrow> 's machine \<Rightarrow> 's machine \<Rightarrow> bool" for W :: "'s world" where
  skip: "pos m = Scan i \<Longrightarrow> i < NPROC \<Longrightarrow> sched_try i (kern m) = Inr (False, k) \<Longrightarrow>
    kstep W m (m\<lparr>kern := k, pos := Scan (Suc i)\<rparr>)"
| pick: "pos m = Scan i \<Longrightarrow> i < NPROC \<Longrightarrow> sched_try i (kern m) = Inr (True, k) \<Longrightarrow>
    kstep W m (m\<lparr>kern := k, pos := Resume i\<rparr>)"
| turn: "pos m = Scan NPROC \<Longrightarrow> sched_turn (kern m) = Inr ((), k) \<Longrightarrow> kstep W m (m\<lparr>kern := k, pos := Scan 0\<rparr>)"
| wake: "pos m = Scan i \<Longrightarrow> Proc.wakeup c (kern m) = Inr ((), k) \<Longrightarrow> kstep W m (m\<lparr>kern := k\<rparr>)"
| cont: "pos m = Resume i \<Longrightarrow> length ws = NUM_IRQ_TYPES \<Longrightarrow> resume (wenv W) (winit W) (wcode W) ws (procnum m) i (saves m ! i) (kern m) = Inr (b, k) \<Longrightarrow>
    kstep W m (m\<lparr>kern := k, pos := (if b then User i else Back i),
      procnum := (if saves m ! i = AtForkret then procnum m + 1 else procnum m)\<rparr>)"
| trap: "pos m = User i \<Longrightarrow> length ws = NUM_IRQ_TYPES \<Longrightarrow>
    trap_global_handler (wlibc W) (wnos W) (wenv W) junk (wakers ws) t (tf (ptable (kern m) ! i)) (kern m) = Inr (Some r, k) \<Longrightarrow>
    kstep W m (m\<lparr>kern := k\<rparr>)"
| leave: "pos m = User i \<Longrightarrow> length ws = NUM_IRQ_TYPES \<Longrightarrow>
    trap_global_handler (wlibc W) (wnos W) (wenv W) junk (wakers ws) t (tf (ptable (kern m) ! i)) (kern m) = Inr (None, k) \<Longrightarrow>
    kstep W m (m\<lparr>kern := k, pos := Back i, saves := (saves m)[i := saved_at t (state (ptable k ! i))]\<rparr>)"
| block: "pos m = User i \<Longrightarrow> sleep_enter c (ret ()) (kern m) = Inr ((), k) \<Longrightarrow>
    kstep W m (m\<lparr>kern := k, pos := Back i, saves := (saves m)[i := AtSleep]\<rparr>)"
| switched: "pos m = Back i \<Longrightarrow> sched_back (kern m) = Inr ((), k) \<Longrightarrow> kstep W m (m\<lparr>kern := k, pos := Scan (Suc i)\<rparr>)"

text \<open>Machines that can be reached: \<^verbatim>\<open>main\<close> enters the loop with processes that have not run yet.\<close>

definition booted :: "'s machine \<Rightarrow> bool" where
  "booted m \<longleftrightarrow> pos m = Scan 0 \<and> saves m = replicate NPROC AtForkret \<and> procnum m = 0 \<and> length (ptable (kern m)) = NPROC \<and> length (ftable (fsys (kern m))) = NFILE \<and>
     (\<forall>p\<in>set (ptable (kern m)). state p \<in> {UNUSED, RUNNABLE} \<and> ofile p = replicate NOFILE None) \<and>
     (\<forall>f\<in>set (ftable (fsys (kern m))). ref f = 0 \<and> ftype f = FD_NONE)"

inductive reached :: "'s world \<Rightarrow> 's machine \<Rightarrow> bool" for W :: "'s world" where
  boot: "booted m \<Longrightarrow> reached W m"
| step: "reached W m \<Longrightarrow> kstep W m m' \<Longrightarrow> reached W m'"

inductive_cases kstepE: "kstep W m m'"

section \<open>The invariant of the machine\<close>

definition none_running :: "view \<Rightarrow> nat option \<Rightarrow> bool" where
  "none_running v e \<longleftrightarrow> (\<forall>q<14. e \<noteq> Some q \<longrightarrow> vs v ! q \<noteq> RUNNING)"

definition minv :: "view \<Rightarrow> cpu_pos \<Rightarrow> bool" where
  "minv v ps \<longleftrightarrow> refs_ok v \<and> (case ps of
     Scan i \<Rightarrow> i \<le> 14 \<and> none_running v None
   | Resume i \<Rightarrow> i < 14 \<and> vc v = Some i \<and> vs v ! i = RUNNING \<and> none_running v (Some i)
   | User i \<Rightarrow> i < 14 \<and> vc v = Some i \<and> vs v ! i = RUNNING \<and> none_running v (Some i)
   | Back i \<Rightarrow> i < 14 \<and> none_running v None)"

text \<open>A step of the view: the invariant holds again, and a process that could run still can unless it has been picked.\<close>

definition vstep :: "view \<Rightarrow> view \<Rightarrow> cpu_pos \<Rightarrow> bool" where
  "vstep v v' ps \<longleftrightarrow> minv v' ps \<and> (\<forall>q<14. vs v ! q = RUNNABLE \<longrightarrow> ps \<noteq> Resume q \<longrightarrow> vs v' ! q = RUNNABLE)"

lemma minv_alive: "minv v (Resume i) \<Longrightarrow> alive v i" "minv v (User i) \<Longrightarrow> alive v i"
  by (auto simp: minv_def alive_def dead_def)

lemma vends_cur: "Q () (v\<lparr>vc := c\<rparr>) \<Longrightarrow> vends (modify (\<lambda>k. k\<lparr>cur := c\<rparr>)) v Q"
  by (auto simp: vends_def modify_def view_def)

lemma refs_cur: "refs_ok (v\<lparr>vc := c\<rparr>) = refs_ok v"
  by (simp add: refs_ok_def)

lemma sched_try_step:
  assumes v: "minv v (Scan i)" and i: "i < 14"
  shows "vends (sched_try i) v (\<lambda>b v'. vstep v v' (if b then Resume i else Scan (Suc i)) \<and> (vs v ! i = RUNNABLE \<longrightarrow> b))"
proof -
  have r: "refs_ok v" "none_running v None"
    using v by (simp_all add: minv_def)
  note o = refs_okD [OF r(1)]
  have "refs_ok (v\<lparr>vs := (vs v)[i := RUNNING]\<rparr>)"
    by (rule refs_state [OF r(1) i]) (simp add: dead_def)
  then have run: "vstep v (v\<lparr>vs := (vs v)[i := RUNNING], vc := Some i\<rparr>) (Resume i)"
    using i r(2) o(2) by (auto simp: vstep_def minv_def refs_cur none_running_def)
  have idle: "vstep v v (Scan (Suc i))"
    using i r by (simp add: vstep_def minv_def)
  show ?thesis
    unfolding sched_try_def
    by (intro vends_andthen [OF vends_frame [OF frame_locks(1)]] vends_bind vends_get_proc vends_if
        vends_andthen [OF vends_set_state [where st = RUNNING]] vends_andthen [OF vends_cur]
        vends_andthen [OF vends_frame [OF frame_locks(2)]] vends_ret)
      (use run idle i o(1) in simp_all)
qed

lemma called_step:
  assumes v: "minv v (User i)" and c: "called i v b v'"
  shows "vstep v v' (if b then User i else Back i)"
proof -
  have i: "i < 14" "vs v ! i = RUNNING" "none_running v (Some i)" "vc v = Some i"
    using v by (simp_all add: minv_def)
  have "vs v' ! q = RUNNABLE" if "q < 14" "vs v ! q = RUNNABLE" for q
    using c i(2) that by (cases "q = i") (auto simp: called_def)
  then show ?thesis
    using c i by (auto simp: called_def vstep_def minv_def none_running_def)
qed

lemma called_resumed: "minv v (Resume i) = minv v (User i)"
  by (simp add: minv_def)

section \<open>Steps of a process\<close>

lemma called_woken:
  assumes "alive v p" "woken v v'"
  shows "called p v True v'"
  using assms woken_refs [OF aliveD(1) [OF assms(1)] assms(2)] woken_alive [OF assms] refs_okD(2) [OF aliveD(1) [OF assms(1)]]
  by (auto simp: called_def woken_def)

lemma vends_each_woken:
  "(\<And>i v. i \<in> set is \<Longrightarrow> vends (f i :: ('s kernel, unit) cm) v (\<lambda>_. woken v)) \<Longrightarrow> vends (for_each f is) v (\<lambda>_. woken v)"
proof (induction "is" arbitrary: v)
  case (Cons i js)
  have "vends (f i) v (\<lambda>_ v'. vends (for_each f js) v' (\<lambda>_. woken v))"
  proof (rule vends_mono)
    show "vends (f i) v (\<lambda>_. woken v)"
      using Cons.prems by simp
    fix x v' assume "woken v v'"
    moreover have "vends (for_each f js) v' (\<lambda>_. woken v')"
      using Cons.prems by (intro Cons.IH) simp
    ultimately show "vends (for_each f js) v' (\<lambda>_. woken v)"
      by (auto elim!: vends_mono intro: woken_trans)
  qed
  then show ?case
    by (simp add: vends_andthen)
qed (simp add: vends_ret woken_refl)

lemma vends_wakeup: "vends (Proc.wakeup c) v (\<lambda>_. woken v)"
  unfolding Proc.wakeup_def
  by (rule vends_andthen, rule vends_frame [OF frame_locks(1)], rule vends_andthen, rule vends_mono [OF vends_wakeup1])
    (auto intro: vends_frame [OF frame_locks(2)])

lemma vends_devices:
  assumes "length ws = NUM_IRQ_TYPES"
  shows "vends (interrupt_devices (wakers ws) src p1 p2 :: ('s kernel, unit) cm) v (\<lambda>_. woken v)"
proof -
  have "vends (handle_irq (wakers ws) w i :: ('s kernel, unit) cm) u (\<lambda>_. woken u)" if "i \<in> set [0..<NUM_IRQ_TYPES]" for w i u
    using that assms
    by (auto simp: handle_irq_def wakers_def woken_refl split: option.split intro!: vends_ret vends_fail vends_each_woken vends_wakeup)
  then have d: "vends (for_each (handle_irq (wakers ws) w) [0..<NUM_IRQ_TYPES] :: ('s kernel, unit) cm) v (\<lambda>_. woken v)" for w
    by (rule vends_each_woken)
  show ?thesis
    unfolding interrupt_devices_def Let_def
    by (rule vends_andthen, rule vends_mono [where P = "\<lambda>_. woken v"])
      (use d in \<open>auto intro!: vends_ret vends_fail simp: woken_refl\<close>)
qed

lemma dispatch_proper:
  assumes v: "alive v p"
  shows "vends (syscall_dispatch L N K junk frame1) v (proper p v)"
proof -
  have t: "vends (syscall_table L N K junk n) v (proper p v)" for n
  proof (cases "find (\<lambda>(m, _). m = n) (rev (syscall_entries L N K junk))")
    case None
    show ?thesis
      unfolding syscall_table_def None option.case by (rule returns_frame [OF v frame_calls(13)])
  next
    case (Some e)
    then have "e \<in> set (rev (syscall_entries L N K junk))"
      unfolding find_Some_iff by (metis nth_mem)
    then have "(fst e, snd e) \<in> set (syscall_entries L N K junk)"
      by simp
    then show ?thesis
      unfolding syscall_table_def Some option.case case_prod_beta by (rule entry_proper [OF v])
  qed
  have s: "vends ((case r of None \<Rightarrow> ret None
      | Some x \<Rightarrow> andthen (on_mem (store (frame1 + tf_x 0) (sext (ucast x)))) (ret (Some (sext (ucast x) :: u64)))) :: ('a kernel, u64 option) cm)
      v' (proper p v)" if "proper p v r v'" for r v'
    using that by (auto split: option.split intro!: vends_ret vends_andthen [OF vends_frame [OF frame_on_mem]])
  show ?thesis
    unfolding syscall_dispatch_def Let_def
    by (rule vends_bind, rule vends_frame [OF frame_on_mem], rule vends_if, rule vends_fail, rule vends_bind,
        rule vends_mono [OF t], rule s)
qed

lemma trap_proper:
  assumes v: "alive v p" and ws: "length ws = NUM_IRQ_TYPES"
  shows "vends (trap_global_handler L N K junk (wakers ws) t frame1) v (proper p v)"
proof -
  have irq: "vends (trap_irq (wakers ws) t) v (proper p v)"
    unfolding trap_irq_def
    by (intro vends_if vends_andthen, rule vends_mono [OF yield_refs [OF v]], (auto intro!: vends_ret called_yield [OF v])[1],
        rule vends_mono [OF vends_devices [OF ws]]) (auto intro!: vends_ret simp: called_woken [OF v])
  have iss: "vends ((case r of None \<Rightarrow> ret None | Some x \<Rightarrow> andthen (check_iss e) (ret (Some x))) :: ('a kernel, u64 option) cm) v' (proper p v)"
    if "proper p v r v'" for r e v'
    using that by (auto simp: check_iss_def split: option.split intro!: vends_ret vends_andthen vends_guard)
  show ?thesis
    unfolding trap_global_handler_def
    by (intro vends_if vends_fail irq vends_bind, rule vends_mono [OF dispatch_proper [OF v]], erule iss,
        rule vends_andthen, rule vends_mono [OF exit_refs [OF v]]) (auto intro!: vends_ret simp: called_exited)
qed

lemma spawn_code_forked:
  assumes v: "refs_ok v"
  shows "vends (spawn_code K nm code) v (\<lambda>_. forked v)"
proof -
  have f: "forked v (v\<lparr>vs := (vs v)[np := RUNNABLE]\<rparr>)" if "np < 14" "vs v ! np = UNUSED" for np
    using that refs_state [OF v that(1), of RUNNABLE] by (auto simp: forked_def dead_def)
  show ?thesis
    unfolding spawn_code_def
    by (rule vends_bind, rule vends_mono [OF vends_alloc_proc [OF refs_okD(2) [OF v]]])
      (auto split: option.splits intro!: vends_fail vends_bind [OF vends_frame [OF frame_on_mem]] vends_if
        vends_andthen [OF vends_frame [OF frame_upd_fields(2)]] vends_andthen [OF vends_frame [OF frame_on_mem]]
        vends_andthen [OF vends_frame [OF frame_upd_fields(7)]] vends_bind [OF vends_frame [OF frame_get_proc(1)]]
        vends_andthen [OF vends_set_state [where st = RUNNABLE]] vends_ret f)
qed

lemma spawn_init_forked:
  assumes v: "refs_ok v"
  shows "vends (spawn_init_process K icode) v (\<lambda>_. forked v)"
  unfolding spawn_init_process_def
  by (rule vends_bind, rule vends_mono [OF spawn_code_forked [OF v]])
    (auto intro!: vends_andthen [OF vends_frame [OF frame_modify]] vends_andthen [OF vends_frame [OF frame_ops(1)]]
      vends_bind [OF vends_frame [OF frame_ops(3)]] vends_andthen [OF vends_frame [OF frame_upd_fields(4)]] vends_frame [OF frame_ops(2)]
      simp: view_def)

lemma called_refl: "alive v p \<Longrightarrow> called p v True v"
  by (simp add: called_same aliveD(1))

lemma forkret_called:
  assumes v: "alive v p"
  shows "vends (forkret K initfs icode n) v (\<lambda>_. called p v True)"
  unfolding forkret_def
  by (intro vends_andthen [OF vends_frame [OF frame_locks(2)]] vends_if vends_andthen [OF vends_frame [OF frame_on_tree]]
      vends_mono [OF spawn_init_forked [OF aliveD(1) [OF v]]] vends_ret called_forked [OF v] called_refl [OF v])

lemma frame_call_return: "frame (call_return i e r)"
  unfolding call_return_def check_iss_def by (intro frames)

lemma frame_leave: "frame yield_leave" "frame (sleep_leave (ret ()))"
  unfolding yield_leave_def sleep_leave_def by (intro frames)+

lemma resume_called:
  assumes v: "alive v p" and ws: "length ws = NUM_IRQ_TYPES"
  shows "vends (resume K initfs icode ws n p sv) v (\<lambda>b. called p v b)"
proof (cases sv)
  case AtForkret
  have "vends (andthen (forkret K initfs icode n) (ret True)) v (\<lambda>b. called p v b)"
    by (rule vends_andthen, rule vends_mono [OF forkret_called [OF v]]) (auto intro: vends_ret)
  then show ?thesis
    by (simp add: resume_def AtForkret)
next
  case (AtTimer t)
  have "vends (andthen yield_leave (andthen (interrupt_devices (wakers ws) (irq_source t XOR IRQ_SRC_CNTPNSIRQ)
      (irq_pend1 t) (irq_pend2 t)) (ret True)) :: ('a kernel, bool) cm) v (\<lambda>b. called p v b)"
    by (intro vends_andthen [OF vends_frame [OF frame_leave(1)]] vends_andthen, rule vends_mono [OF vends_devices [OF ws]])
      (auto intro: vends_ret called_woken [OF v])
  then show ?thesis
    by (simp add: resume_def AtTimer)
next
  case (AtWait e)
  have "vends ((case r of None \<Rightarrow> ret False | Some m \<Rightarrow> andthen (call_return p e m) (ret True)) :: ('a kernel, bool) cm) v' (\<lambda>b. called p v b)"
    if "proper p v r v'" for r v'
    using that by (auto split: option.split intro!: vends_ret vends_andthen [OF vends_frame [OF frame_call_return]])
  then have "vends (bind (wait_resume K) (\<lambda>r. case r of None \<Rightarrow> ret False | Some m \<Rightarrow> andthen (call_return p e m) (ret True))) v (\<lambda>b. called p v b)"
    by (intro vends_bind vends_mono [OF wait_resume_refs [OF v]]) (auto dest: called_waited [OF v])
  then show ?thesis
    by (simp add: resume_def AtWait)
qed (use called_refl [OF v] in \<open>auto simp: resume_def intro!: vends_andthen [OF vends_frame [OF frame_leave(1)]]
  vends_andthen [OF vends_frame [OF frame_leave(2)]] vends_andthen [OF vends_frame [OF frame_call_return]] vends_ret\<close>)

lemma block_called:
  assumes v: "alive v p"
  shows "vends (sleep_enter c (ret ()) :: ('s kernel, unit) cm) v (\<lambda>_. called p v False)"
proof -
  have "refs_ok (v\<lparr>vs := (vs v)[p := SLEEPING]\<rparr>)"
    by (rule refs_state [OF aliveD(1,3) [OF v]]) (simp add: dead_def)
  then have c: "called p v False (v\<lparr>vs := (vs v)[p := SLEEPING]\<rparr>)"
    using refs_okD(2) [OF aliveD(1) [OF v]] aliveD(3) [OF v] by (simp add: called_def)
  show ?thesis
    unfolding sleep_enter_def
    by (intro vends_andthen [OF vends_frame [OF frame_locks(1)]] vends_andthen [OF vends_frame [OF frame_ret]] vends_bind vends_thisproc
        vends_andthen [OF vends_set_state [where st = SLEEPING]] vends_frame [OF frame_sched]) (use c aliveD(2) [OF v] in simp_all)
qed

section \<open>Every step keeps the invariant\<close>

abbreviation mview :: "'s machine \<Rightarrow> view" where
  "mview m \<equiv> view (kern m)"

lemma vendsD: "vends m v Q \<Longrightarrow> view k = v \<Longrightarrow> m k = Inr (x, k') \<Longrightarrow> Q x (view k')"
  by (auto simp: vends_def)

lemma woken_step: "minv v (Scan i) \<Longrightarrow> woken v v' \<Longrightarrow> vstep v v' (Scan i)"
  using woken_refs [of v v'] refs_okD(2) [of v] by (auto simp: minv_def vstep_def none_running_def woken_def)

lemma back_step: "minv v (Back i) \<Longrightarrow> vends sched_back v (\<lambda>_ v'. vstep v v' (Scan (Suc i)))"
  unfolding sched_back_def
  by (intro vends_andthen [OF vends_cur] vends_frame [OF frame_locks(2)]) (auto simp: minv_def vstep_def refs_cur none_running_def)

lemma turn_step: "minv v (Scan i) \<Longrightarrow> vends sched_turn v (\<lambda>_ v'. vstep v v' (Scan 0))"
  unfolding sched_turn_def
  by (intro vends_andthen [OF vends_frame [OF frame_locks(1)]] vends_frame [OF frame_locks(2)]) (simp add: minv_def vstep_def)

lemma kstep_vstep:
  assumes "kstep W m m'" "minv (mview m) (pos m)"
  shows "vstep (mview m) (mview m') (pos m')"
  using assms
proof (cases rule: kstep.cases)
  case (skip i k)
  then show ?thesis
    using assms(2) vendsD [OF sched_try_step _ skip(4)] by (auto simp: NPROC_def)
next
  case (pick i k)
  then show ?thesis
    using assms(2) vendsD [OF sched_try_step _ pick(4)] by (auto simp: NPROC_def)
next
  case (turn k)
  then show ?thesis
    using assms(2) vendsD [OF turn_step _ turn(3)] by auto
next
  case (wake i c k)
  then show ?thesis
    using assms(2) vendsD [OF vends_wakeup _ wake(3)] by (auto intro: woken_step)
next
  case (cont i ws b k)
  have "minv (mview m) (Resume i)"
    using assms(2) cont(2) by simp
  then show ?thesis
    using vendsD [OF resume_called [OF minv_alive(1) cont(3)] _ cont(4)] called_step [of _ i b] cont(1) by (auto simp: called_resumed)
next
  case (trap i ws junk t r k)
  have "minv (mview m) (User i)"
    using assms(2) trap(2) by simp
  then show ?thesis
    using vendsD [OF trap_proper [OF minv_alive(2) trap(3)] _ trap(4)] called_step [of _ i True] trap(1,2) by auto
next
  case (leave i ws junk t k)
  have "minv (mview m) (User i)"
    using assms(2) leave(2) by simp
  then show ?thesis
    using vendsD [OF trap_proper [OF minv_alive(2) leave(3)] _ leave(4)] called_step [of _ i False] leave(1) by auto
next
  case (block i c k)
  have "minv (mview m) (User i)"
    using assms(2) block(2) by simp
  then show ?thesis
    using vendsD [OF block_called [OF minv_alive(2)] _ block(3)] called_step [of _ i False] block(1) by auto
next
  case (switched i k)
  then show ?thesis
    using assms(2) vendsD [OF back_step _ switched(3)] by auto
qed

lemma refcount_none: "(\<forall>ds\<in>set os. no_files ds) \<Longrightarrow> refcount os f = 0"
  by (auto simp: refcount_def no_files_def sum_list_eq_0_iff count_list_0_iff)

lemma booted_minv:
  assumes "booted m"
  shows "minv (mview m) (pos m)"
proof -
  let ?k = "kern m"
  have b: "length (ptable ?k) = 14" "length (ftable (fsys ?k)) = 100" "pos m = Scan 0"
    and p: "\<And>q. q < 14 \<Longrightarrow> state (ptable ?k ! q) \<in> {UNUSED, RUNNABLE} \<and> ofile (ptable ?k ! q) = replicate 8 None"
    and f: "\<And>g. g < 100 \<Longrightarrow> ref (ftable (fsys ?k) ! g) = 0 \<and> ftype (ftable (fsys ?k) ! g) = FD_NONE"
    using assms by (simp_all add: booted_def NPROC_def NFILE_def NOFILE_def)
  have os: "vo (mview m) = replicate 14 (replicate 8 None)"
    by (rule nth_equalityI) (use b(1) p in \<open>simp_all add: view_def\<close>)
  have "refs_ok (mview m)"
    unfolding refs_ok_def os using b f refcount_none [of "replicate 14 (replicate 8 None)"]
    by (auto simp: view_def NPROC_def NOFILE_def NFILE_def no_files_def)
  moreover have "none_running (mview m) None"
    using b(1) p by (fastforce simp: none_running_def view_def)
  ultimately show ?thesis
    using b(3) by (simp add: minv_def)
qed

lemma reached_minv: "reached W m \<Longrightarrow> minv (mview m) (pos m)"
proof (induction rule: reached.induct)
  case (boot m)
  then show ?case
    by (rule booted_minv)
next
  case (step m m')
  then show ?case
    using kstep_vstep [of W m m'] by (simp add: vstep_def)
qed

lemma refcount_card:
  "refcount os f = card {(p, fd). p < length os \<and> fd < length (os ! p) \<and> os ! p ! fd = Some f}"
proof -
  have c: "count_list ds (Some f) = card {fd. fd < length ds \<and> ds ! fd = Some f}" for ds
    by (simp add: count_list_eq_length_filter length_filter_conv_card eq_commute)
  have "refcount os f = (\<Sum>p<length os. card {fd. fd < length (os ! p) \<and> os ! p ! fd = Some f})"
    by (simp add: refcount_def c sum_list_sum_nth atLeast0LessThan)
  also have "\<dots> = card (SIGMA p:{..<length os}. {fd. fd < length (os ! p) \<and> os ! p ! fd = Some f})"
    by (simp add: card_SigmaI)
  also have "(SIGMA p:{..<length os}. {fd. fd < length (os ! p) \<and> os ! p ! fd = Some f}) =
      {(p, fd). p < length os \<and> fd < length (os ! p) \<and> os ! p ! fd = Some f}"
    by auto
  finally show ?thesis .
qed

end
