(* ===== verification/Liveness.thy ===== *)
theory Liveness
  imports Scheduler
begin

text \<open>
  What the scheduler and the system calls guarantee over whole runs of the machine: the counts of open files are right, at most
  one process runs, and a process that can run is run eventually.
\<close>

section \<open>Every reached state\<close>



section \<open>Every process that can run is run\<close>

text \<open>How many entries the loop looks at before it is at entry \<open>p\<close>; behind the switch to \<open>i\<close> the next is \<open>i + 1\<close>.\<close>

definition away :: "nat \<Rightarrow> nat \<Rightarrow> nat" where
  "away p i = (if i \<le> p then p - i else 15 - i + p)"

definition distance :: "nat \<Rightarrow> cpu_pos \<Rightarrow> nat" where
  "distance p ps = (case ps of Scan i \<Rightarrow> away p i | Resume i \<Rightarrow> away p (Suc i) | User i \<Rightarrow> away p (Suc i) | Back i \<Rightarrow> away p (Suc i))"

lemma away_Suc: "i \<noteq> p \<Longrightarrow> i < 14 \<Longrightarrow> p < 14 \<Longrightarrow> Suc (away p (Suc i)) = away p i"
  by (auto simp: away_def)

definition waiting :: "nat \<Rightarrow> 's machine \<Rightarrow> bool" where
  "waiting p m \<longleftrightarrow> minv (mview m) (pos m) \<and> vs (mview m) ! p = RUNNABLE"

text \<open>One step: \<open>p\<close> is run, or still waits and the loop has not moved away from it.\<close>

lemma waiting_step:
  assumes s: "kstep W m m'" and p: "p < 14" "waiting p m"
  shows "pos m' = Resume p \<or>
    waiting p m' \<and> distance p (pos m') \<le> distance p (pos m) \<and>
    (\<forall>i. pos m = Scan i \<longrightarrow> pos m' \<noteq> Scan i \<longrightarrow> distance p (pos m') < distance p (pos m))"
proof -
  have v: "minv (mview m) (pos m)" "vs (mview m) ! p = RUNNABLE"
    using p(2) by (simp_all add: waiting_def)
  have w: "waiting p m'" if "pos m' \<noteq> Resume p"
    using kstep_vstep [OF s v(1)] v(2) p(1) that by (simp add: vstep_def waiting_def)
  from s show ?thesis
  proof (cases rule: kstep.cases)
    case (skip i k)
    then have "i \<noteq> p"
      using vendsD [OF sched_try_step _ skip(4), of "mview m"] v by (auto simp: NPROC_def)
    then show ?thesis
      using skip w away_Suc [of i p] p(1) by (simp add: distance_def NPROC_def)
  next
    case (pick i k)
    then show ?thesis
      using w away_Suc [of i p] p(1) by (cases "i = p") (simp_all add: distance_def NPROC_def)
  next
    case (turn k)
    then show ?thesis
      using w p(1) by (simp add: distance_def NPROC_def away_def)
  qed (use w in \<open>auto simp: distance_def\<close>)
qed

lemma waiting_run:
  assumes "\<forall>n. kstep W (r n) (r (Suc n))" "p < 14" "waiting p (r n)"
  shows "(\<exists>j\<le>d. pos (r (n + j)) = Resume p) \<or> waiting p (r (n + d)) \<and> distance p (pos (r (n + d))) \<le> distance p (pos (r n))"
proof (induction d)
  case (Suc d)
  then show ?case
  proof
    assume "waiting p (r (n + d)) \<and> distance p (pos (r (n + d))) \<le> distance p (pos (r n))"
    then show ?thesis
      using waiting_step [OF assms(1) [THEN spec] assms(2), of "n + d"] by fastforce
  qed (use le_SucI in blast)
qed (use assms(3) in simp)

lemma waiting_until:
  assumes r: "\<forall>n. kstep W (r n) (r (Suc n))" "\<forall>n. \<exists>m\<ge>n. \<exists>i. pos (r m) = Scan i \<and> pos (r (Suc m)) \<noteq> Scan i"
    and p: "p < 14"
  shows "waiting p (r n) \<Longrightarrow> \<exists>m\<ge>n. pos (r m) = Resume p"
proof (induction "distance p (pos (r n))" arbitrary: n rule: less_induct)
  case less
  obtain m i where m: "m \<ge> n" "pos (r m) = Scan i" "pos (r (Suc m)) \<noteq> Scan i"
    using r(2) by blast
  have nm: "n + (m - n) = m"
    using m(1) by simp
  show ?case
    using waiting_run [OF r(1) p less.prems, of "m - n"] unfolding nm
  proof
    assume w: "waiting p (r m) \<and> distance p (pos (r m)) \<le> distance p (pos (r n))"
    show ?thesis
    proof (cases "pos (r (Suc m)) = Resume p")
      case True
      then show ?thesis
        using m(1) le_SucI by blast
    next
      case False
      then have "waiting p (r (Suc m)) \<and> distance p (pos (r (Suc m))) < distance p (pos (r n))"
        using waiting_step [OF r(1) [THEN spec] p, of m] w m by fastforce
      then obtain m' where "m' \<ge> Suc m" "pos (r m') = Resume p"
        using less.hyps by blast
      then show ?thesis
        using m(1) by (intro exI [of _ m']) simp
    qed
  next
    assume "\<exists>j\<le>m - n. pos (r (n + j)) = Resume p"
    then show ?thesis
      using le_add1 by blast
  qed
qed

lemma reached_run: "reached W (r 0) \<Longrightarrow> \<forall>n. kstep W (r n) (r (Suc n)) \<Longrightarrow> reached W (r n)"
  by (induction n) (auto intro: reached.step)

text \<open>
  C3. No process starves: in every infinite run in which the CPU comes back to the scheduler's loop again and again (the timer
  interrupt sees to that) and goes on from there, a process that can run is switched to later, and is then running.
\<close>

theorem runnable_is_run:
  assumes "reached W (r 0)" "\<forall>n. kstep W (r n) (r (Suc n))"
    and "\<forall>n. \<exists>m\<ge>n. \<exists>i. pos (r m) = Scan i \<and> pos (r (Suc m)) \<noteq> Scan i"
    and "p < NPROC" "state (ptable (kern (r n)) ! p) = RUNNABLE"
  shows "\<exists>m\<ge>n. pos (r m) = Resume p \<and> state (ptable (kern (r m)) ! p) = RUNNING"
proof -
  have inv: "minv (mview (r m)) (pos (r m))" for m
    by (rule reached_minv [OF reached_run [OF assms(1,2)]])
  have s: "vs (mview (r m)) ! p = state (ptable (kern (r m)) ! p)" for m
    using inv [of m] refs_okD(2) [of "mview (r m)"] assms(4) by (simp add: minv_def view_def NPROC_def)
  have "waiting p (r n)"
    using inv assms(5) s by (simp add: waiting_def)
  then obtain m where "m \<ge> n" "pos (r m) = Resume p"
    using waiting_until [OF assms(2,3)] assms(4) by (auto simp: NPROC_def)
  then show ?thesis
    using inv [of m] s [of m] by (auto simp: minv_def)
qed

section \<open>A run\<close>

text \<open>
  A machine with one process that only computes and is interrupted by the timer; it has no file system. One turn of the
  loop takes 18 steps: four for the process, thirteen for the other entries, one for the end of the loop.
\<close>

definition world0 :: "unit world" where
  "world0 =
     \<lparr>wlibc = \<lparr>AT_FDCWD = -100, O_CREAT = 64, O_WRONLY = 1, O_RDWR = 2, S_IFREG = 32768, S_IFDIR = 16384, sizeof_stat = 128, stat_bytes = (\<lambda>_. [])\<rparr>,
      wnos = \<lparr>SYS_set_tid_address = 96, SYS_ioctl = 29, SYS_gettid = 178, SYS_rt_sigprocmask = 135, SYS_brk = 214, SYS_execve = 221,
        SYS_sched_yield = 124, SYS_clone = 220, SYS_wait4 = 260, SYS_exit_group = 94, SYS_exit = 93, SYS_dup = 23, SYS_chdir = 49, SYS_fstat = 80,
        SYS_newfstatat = 79, SYS_mkdirat = 34, SYS_mknodat = 33, SYS_openat = 56, SYS_writev = 66, SYS_read = 63, SYS_write = 64, SYS_close = 57\<rparr>,
      wenv = \<lparr>fsenv = no_fs, super = no_super, cpuid = 0, kend = 0, stack0 = [], initenter = 0\<rparr>,
      winit = ret (), wcode = []\<rparr>"

definition proc0 :: "procstate \<Rightarrow> proc" where
  "proc0 st = \<lparr>sz = 0, pgdir = 0, kstack = 0, state = st, pid = 1, parent = None, tf = 0, ctxp = 0, chan = NoChan, killed = False,
     pname = [], ofile = replicate NOFILE None, cwd = 0, stksz = 0, pbase = 0\<rparr>"

definition kernel0 :: "procstate \<Rightarrow> bool \<Rightarrow> nat option \<Rightarrow> unit kernel" where
  "kernel0 st l c =
     \<lparr>mem_k = \<lparr>kmem = (\<lambda>_. 0), head_next = 0, pm_lock = \<lparr>locked = False, cpu = None, lock_name = ''memory''\<rparr>\<rparr>,
      fsys = \<lparr>tree = \<lparr>base = (), itab = (\<lambda>_. \<lparr>ilock = False, irc = init_rc, inode_no = 0, ivalid = False, entry = zero_entry\<rparr>),
          ilist = [], tree_locked = False, root = 0\<rparr>,
        ftable = replicate NFILE \<lparr>ftype = FD_NONE, ref = 0, readable = False, writable = False, pipe = 0, fip = 0, off = 0\<rparr>, ft_locked = False\<rparr>,
      ptable = (replicate NPROC (proc0 UNUSED))[0 := proc0 st], pt_locked = l, cur = c, initproc = None, conts = []\<rparr>"

definition tick :: trap_in where
  "tick = \<lparr>esr = 0, irq_source = IRQ_SRC_CNTPNSIRQ, irq_pend1 = 0, irq_pend2 = 0\<rparr>"

definition run0 :: "nat \<Rightarrow> unit machine" where
  "run0 n = (let j = n mod 18 in
     \<lparr>kern = (if j = 1 then kernel0 RUNNING True (Some 0) else if j = 2 then kernel0 RUNNING False (Some 0)
              else if j = 3 then kernel0 RUNNABLE True (Some 0) else kernel0 RUNNABLE False None),
      pos = (if j = 0 then Scan 0 else if j = 1 then Resume 0 else if j = 2 then User 0 else if j = 3 then Back 0 else Scan (j - 3)),
      saves = (if n < 3 then replicate NPROC AtForkret else (replicate NPROC AtForkret)[0 := AtTimer tick]),
      procnum = (if n < 2 then 0 else 1)\<rparr>)"

lemma kernel0_sel [simp]:
  "pt_locked (kernel0 st l c) = l" "cur (kernel0 st l c) = c" "i < 14 \<Longrightarrow> ptable (kernel0 st l c) ! i = proc0 (if i = 0 then st else UNUSED)"
  "kernel0 st l c\<lparr>pt_locked := l'\<rparr> = kernel0 st l' c" "kernel0 st l c\<lparr>cur := c'\<rparr> = kernel0 st l c'"
  "kernel0 st l c\<lparr>ptable := (ptable (kernel0 st l c))[0 := proc0 st']\<rparr> = kernel0 st' l c"
  "state (proc0 st) = st" "proc0 st\<lparr>state := st'\<rparr> = proc0 st'"
  by (simp_all add: kernel0_def proc0_def NPROC_def)

lemmas run0_simps = acquire_sched_lock_def release_sched_lock_def cm_simps get_proc_def upd_proc_def thisproc_def

lemma sched_try0:
  "sched_try 0 (kernel0 RUNNABLE False None) = Inr (True, kernel0 RUNNING True (Some 0))"
  "0 < i \<Longrightarrow> i < 14 \<Longrightarrow> sched_try i (kernel0 RUNNABLE False None) = Inr (False, kernel0 RUNNABLE False None)"
  by (simp_all add: sched_try_def run0_simps)

lemma back0: "sched_back (kernel0 st True (Some 0)) = Inr ((), kernel0 st False None)"
  "sched_turn (kernel0 st False None) = Inr ((), kernel0 st False None)"
  by (simp_all add: sched_back_def sched_turn_def run0_simps)

lemma yield0: "yield_enter (kernel0 RUNNING False (Some 0)) = Inr ((), kernel0 RUNNABLE True (Some 0))"
  by (simp add: yield_enter_def sched_def run0_simps)

lemma trap0:
  "trap_global_handler L N K junk hs tick fr (kernel0 RUNNING False (Some 0)) = Inr (None, kernel0 RUNNABLE True (Some 0))"
  by (simp add: trap_global_handler_def trap_irq_def tick_def esr_ec_def ESR_EC_UNKNOWN_def IRQ_SRC_CNTPNSIRQ_def yield0 cm_simps)

lemma resume0:
  "resume K initfs icode ws 0 0 AtForkret (kernel0 RUNNING True (Some 0)) = Inr (True, kernel0 RUNNING False (Some 0))"
  "resume K initfs icode ws (Suc 0) 0 (AtTimer tick) (kernel0 RUNNING True (Some 0)) = Inr (True, kernel0 RUNNING False (Some 0))"
  by (simp_all add: resume_def forkret_def yield_leave_def interrupt_devices_def Let_def tick_def run0_simps IRQ_SRC_CNTPNSIRQ_def IRQ_SRC_GPU_def)

lemma run0_next:
  "Suc n mod 18 = (if n mod 18 = 17 then 0 else Suc (n mod 18))"
  by (simp add: mod_Suc)

lemma run0_process:
  "n mod 18 = 0 \<Longrightarrow> kstep world0 (run0 n) (run0 (Suc n))"
  "n mod 18 = 1 \<Longrightarrow> kstep world0 (run0 n) (run0 (Suc n))"
  "n mod 18 = 2 \<Longrightarrow> kstep world0 (run0 n) (run0 (Suc n))"
  "n mod 18 = 3 \<Longrightarrow> kstep world0 (run0 n) (run0 (Suc n))"
proof -
  have late: "n < 3 \<longleftrightarrow> n = n mod 18" if "n mod 18 < 3"
    using that by (cases "n < 18") auto
  {
    assume j: "n mod 18 = 0"
    then have "Suc n < 3 \<longleftrightarrow> n < 3" "Suc n < 2 \<longleftrightarrow> n < 2"
      using late by auto
    then show "kstep world0 (run0 n) (run0 (Suc n))"
      using kstep.pick [of "run0 n" 0 "kernel0 RUNNING True (Some 0)" world0] sched_try0(1) j
      by (simp add: run0_def run0_next Let_def NPROC_def)
  next
    assume j: "n mod 18 = 1"
    then have "n = 1 \<or> \<not> n < 18"
      using late by auto
    then show "kstep world0 (run0 n) (run0 (Suc n))"
      using kstep.cont [of "run0 n" 0 "replicate 64 None" world0 True "kernel0 RUNNING False (Some 0)"] j
      by (auto simp: run0_def run0_next Let_def NPROC_def NUM_IRQ_TYPES_def resume0)
  next
    assume j: "n mod 18 = 2"
    then have "n = 2 \<or> \<not> n < 18"
      using late by auto
    moreover have "saved_at tick RUNNABLE = AtTimer tick"
      by (simp add: saved_at_def tick_def esr_ec_def ESR_EC_UNKNOWN_def)
    ultimately show "kstep world0 (run0 n) (run0 (Suc n))"
      using kstep.leave [of "run0 n" 0 "replicate 64 None" world0 0 tick "kernel0 RUNNABLE True (Some 0)"] j
      by (auto simp: run0_def run0_next Let_def NPROC_def NUM_IRQ_TYPES_def trap0)
  next
    assume j: "n mod 18 = 3"
    then show "kstep world0 (run0 n) (run0 (Suc n))"
      using kstep.switched [of "run0 n" 0 "kernel0 RUNNABLE False None" world0] j back0(1) [of RUNNABLE]
      by (cases "n < 3") (auto simp: run0_def run0_next Let_def)
  }
qed

lemma run0_step: "kstep world0 (run0 n) (run0 (Suc n))"
proof -
  have n: "\<not> n < 3" if "n mod 18 > 3"
    using that by (cases "n < 3") auto
  consider "n mod 18 \<le> 3" | "3 < n mod 18" "n mod 18 < 17" | "n mod 18 = 17"
    using mod_less_divisor [of 18 n] by linarith
  then show ?thesis
  proof cases
    case 1
    then show ?thesis
      using run0_process [of n] by linarith
  next
    case 2
    then have "n mod 18 - 3 < 14" "Suc (n mod 18 - 3) = n mod 18 - 2"
      by auto
    then show ?thesis
      using 2 kstep.skip [of "run0 n" "n mod 18 - 3" "kernel0 RUNNABLE False None" world0] sched_try0(2) [of "n mod 18 - 3"] n
      by (simp add: run0_def run0_next Let_def NPROC_def)
  next
    case 3
    then show ?thesis
      using kstep.turn [of "run0 n" "kernel0 RUNNABLE False None" world0] back0(2) [of RUNNABLE] n
      by (simp add: run0_def run0_next Let_def NPROC_def)
  qed
qed

lemma run0_booted: "reached world0 (run0 0)"
  by (rule reached.boot)
    (auto simp: booted_def run0_def kernel0_def proc0_def NFILE_def Let_def dest!: set_update_subset_insert [THEN subsetD])


lemma run0_fair: "\<exists>m\<ge>n. \<exists>i. pos (run0 m) = Scan i \<and> pos (run0 (Suc m)) \<noteq> Scan i"
  by (rule exI [of _ "18 * n"]) (simp add: run0_def Let_def run0_next)



theorem runnable_is_run_witness:
  "state (ptable (kern (run0 5)) ! 0) = RUNNABLE \<and>
     (\<exists>m. m \<ge> 5 \<and> pos (run0 m) = Resume 0 \<and> state (ptable (kern (run0 m)) ! 0) = RUNNING)"
proof -
  have "state (ptable (kern (run0 5)) ! 0) = RUNNABLE"
    by (simp add: run0_def Let_def)
  then show ?thesis
    using runnable_is_run [of world0 run0 0 5] run0_booted run0_step run0_fair by (auto simp: NPROC_def)
qed

end
