(* ===== verification/BufQueue.thy ===== *)
theory BufQueue
  imports Prelude
begin

text \<open>
  The request queue of the SD driver (\<^verbatim>\<open>src/driver/buf.c\<close>): buffers linked through
  their own \<^verbatim>\<open>Prev\<close> and \<^verbatim>\<open>Next\<close> fields, with a \<^verbatim>\<open>begin\<close> and an \<^verbatim>\<open>end\<close> pointer and a
  length. The operations work on a heap of buffers, as the C code does, and refine a list of
  buffer addresses; the contract is the locale \<open>fifo\<close>, which the driver relies on.
\<close>

section \<open>Buffers and queues\<close>

definition B_VALID :: int where "B_VALID = 2"

definition B_DIRTY :: int where "B_DIRTY = 4"

record 'p buf =
  flags :: int
  blockno :: u32
  bdata :: "u8 list"
  Prev :: "'p option"
  Next :: "'p option"

record 'p bufQueue =
  qbegin :: "'p option"
  qend :: "'p option"
  qsz :: int

type_synonym 'p qheap = "('p \<Rightarrow> 'p buf) \<times> 'p bufQueue"

definition initBufQueue :: "'p qheap \<Rightarrow> 'p qheap" where
  "initBufQueue s = (fst s, \<lparr>qbegin = None, qend = None, qsz = 0\<rparr>)"

definition push :: "'p qheap \<Rightarrow> 'p \<Rightarrow> fault + 'p qheap" where
  "push s y = (case s of (h, x) \<Rightarrow>
     if qsz x = 0 then Inr (h, x\<lparr>qbegin := Some y, qend := Some y, qsz := 1\<rparr>)
     else case qend x of
         None \<Rightarrow> Inl BadAccess
       | Some e \<Rightarrow>
          (let h1 = h(e := (h e)\<lparr>Next := Some y\<rparr>);
               h2 = h1(y := (h1 y)\<lparr>Prev := qend x\<rparr>)
           in Inr (h2, x\<lparr>qend := Some y, qsz := qsz x + 1\<rparr>)))"

definition pop :: "'p qheap \<Rightarrow> fault + 'p qheap" where
  "pop s = (case s of (h, x) \<Rightarrow>
     if qsz x = 0 then Inl (Panic ''EMPTY'')
     else if qsz x = 1 then Inr (h, x\<lparr>qbegin := None, qend := None, qsz := 0\<rparr>)
     else case qbegin x of
         None \<Rightarrow> Inl BadAccess
       | Some b \<Rightarrow>
          (case Next (h b) of
             None \<Rightarrow> Inl BadAccess
           | Some b' \<Rightarrow> Inr (h(b' := (h b')\<lparr>Prev := None\<rparr>), x\<lparr>qbegin := Some b', qsz := qsz x - 1\<rparr>)))"

definition front :: "'p qheap \<Rightarrow> fault + 'p option" where
  "front s = (if qsz (snd s) = 0 then Inl (Panic ''EMPTY'') else Inr (qbegin (snd s)))"

definition back_q :: "'p qheap \<Rightarrow> fault + 'p option" where
  "back_q s = (if qsz (snd s) = 0 then Inl (Panic ''EMPTY'') else Inr (qend (snd s)))"

definition empty_q :: "'p qheap \<Rightarrow> bool" where
  "empty_q s \<longleftrightarrow> qsz (snd s) = 0"

section \<open>The list a queue stands for\<close>

fun chain :: "('p \<Rightarrow> 'p buf) \<Rightarrow> 'p list \<Rightarrow> bool" where
  "chain h [] = True"
| "chain h [y] = True"
| "chain h (y # z # ys) = (Next (h y) = Some z \<and> chain h (z # ys))"

definition queue_of :: "'p qheap \<Rightarrow> 'p list \<Rightarrow> bool" where
  "queue_of s ys \<longleftrightarrow> distinct ys \<and> chain (fst s) ys \<and> qsz (snd s) = int (length ys) \<and>
     (ys \<noteq> [] \<longrightarrow> qbegin (snd s) = Some (hd ys) \<and> qend (snd s) = Some (last ys))"

lemma chain_frame: "(\<And>y. y \<in> set (butlast ys) \<Longrightarrow> Next (h' y) = Next (h y)) \<Longrightarrow> chain h' ys = chain h ys"
  by (induction h ys rule: chain.induct) auto

lemma chain_snoc: "chain h (ys @ [y]) \<longleftrightarrow> chain h ys \<and> (ys \<noteq> [] \<longrightarrow> Next (h (last ys)) = Some y)"
  by (induction h ys rule: chain.induct) auto

lemma queue_init: "queue_of (initBufQueue s) []"
  by (simp add: queue_of_def initBufQueue_def)

lemma queue_push:
  assumes "queue_of s ys" "y \<notin> set ys"
  shows "\<exists>s'. push s y = Inr s' \<and> queue_of s' (ys @ [y])"
proof (cases "ys = []")
  case True
  then show ?thesis using assms by (cases s) (auto simp: queue_of_def push_def)
next
  case False
  obtain h x where s: "s = (h, x)" by (cases s)
  let ?e = "last ys"
  let ?h1 = "h(?e := (h ?e)\<lparr>Next := Some y\<rparr>)"
  let ?h2 = "?h1(y := (?h1 y)\<lparr>Prev := qend x\<rparr>)"
  have e: "?e \<noteq> y" using False assms(2) by (metis last_in_set)
  have "?e \<notin> set (butlast ys)"
    using assms(1) False unfolding queue_of_def
    by (metis append_butlast_last_id distinct_append disjoint_insert(1) list.simps(15))
  then have "chain ?h2 ys = chain h ys"
    using e by (intro chain_frame) auto
  moreover have "Next (?h2 ?e) = Some y" using e by simp
  ultimately have "chain ?h2 (ys @ [y])" using assms(1) s by (simp add: chain_snoc queue_of_def)
  then show ?thesis using assms False s by (auto simp: queue_of_def push_def)
qed

lemma queue_pop:
  assumes "queue_of s (y # ys)"
  shows "\<exists>s'. pop s = Inr s' \<and> queue_of s' ys"
proof (cases ys)
  case Nil
  then show ?thesis using assms by (cases s) (auto simp: queue_of_def pop_def)
next
  case (Cons z zs)
  obtain h x where s: "s = (h, x)" by (cases s)
  have "chain (h(z := (h z)\<lparr>Prev := None\<rparr>)) (z # zs) = chain h (z # zs)"
    by (intro chain_frame) auto
  then show ?thesis using assms Cons s by (auto simp: queue_of_def pop_def)
qed

section \<open>The contract\<close>

text \<open>
  A sequence of requests: append a buffer, or take the first one out (\<^verbatim>\<open>front\<close> then \<^verbatim>\<open>pop\<close>).
  \<open>spec_run\<close> is the meaning on a list; \<open>run_ops\<close> runs the same requests with given operations.
  Both return the buffers taken out, in order.
\<close>

datatype 'a qop = Enq 'a | Deq

definition served :: "'a \<Rightarrow> fault + 'a list \<times> 's \<Rightarrow> fault + 'a list \<times> 's" where
  "served y r = (case r of Inl e \<Rightarrow> Inl e | Inr (ys, s) \<Rightarrow> Inr (y # ys, s))"

fun spec_run :: "'a qop list \<Rightarrow> 'a list \<Rightarrow> fault + 'a list \<times> 'a list" where
  "spec_run [] ys = Inr ([], ys)"
| "spec_run (Enq y # ops) ys = spec_run ops (ys @ [y])"
| "spec_run (Deq # ops) [] = Inl (Panic ''EMPTY'')"
| "spec_run (Deq # ops) (y # ys) = served y (spec_run ops ys)"

fun run_ops ::
  "('s \<Rightarrow> 'a \<Rightarrow> fault + 's) \<Rightarrow> ('s \<Rightarrow> fault + 's) \<Rightarrow> ('s \<Rightarrow> fault + 'a option) \<Rightarrow>
   'a qop list \<Rightarrow> 's \<Rightarrow> fault + 'a list \<times> 's" where
  "run_ops enq deq first [] s = Inr ([], s)"
| "run_ops enq deq first (Enq y # ops) s =
     (case enq s y of Inl e \<Rightarrow> Inl e | Inr s' \<Rightarrow> run_ops enq deq first ops s')"
| "run_ops enq deq first (Deq # ops) s =
     (case first s of
        Inl e \<Rightarrow> Inl e
      | Inr None \<Rightarrow> Inl BadAccess
      | Inr (Some y) \<Rightarrow>
         (case deq s of Inl e \<Rightarrow> Inl e | Inr s' \<Rightarrow> served y (run_ops enq deq first ops s')))"

text \<open>No buffer is appended while it is in the queue.\<close>

fun fresh :: "'a qop list \<Rightarrow> 'a list \<Rightarrow> bool" where
  "fresh [] ys = True"
| "fresh (Enq y # ops) ys = (y \<notin> set ys \<and> fresh ops (ys @ [y]))"
| "fresh (Deq # ops) ys = fresh ops (tl ys)"

locale fifo =
  fixes rep :: "'s \<Rightarrow> 'a list \<Rightarrow> bool"
    and enq :: "'s \<Rightarrow> 'a \<Rightarrow> fault + 's"
    and deq :: "'s \<Rightarrow> fault + 's"
    and first :: "'s \<Rightarrow> fault + 'a option"
    and is_empty :: "'s \<Rightarrow> bool"
  assumes rep_enq: "rep s ys \<Longrightarrow> y \<notin> set ys \<Longrightarrow> \<exists>s'. enq s y = Inr s' \<and> rep s' (ys @ [y])"
    and rep_deq: "rep s (y # ys) \<Longrightarrow> \<exists>s'. deq s = Inr s' \<and> rep s' ys"
    and rep_first: "rep s (y # ys) \<Longrightarrow> first s = Inr (Some y)"
    and rep_empty: "rep s ys \<Longrightarrow> is_empty s \<longleftrightarrow> ys = []"
    and deq_empty: "rep s [] \<Longrightarrow> deq s = Inl (Panic ''EMPTY'') \<and> first s = Inl (Panic ''EMPTY'')"
begin

lemma run_refines:
  assumes "rep s ys" "fresh ops ys"
  shows "case spec_run ops ys of
      Inl e \<Rightarrow> run_ops enq deq first ops s = Inl e
    | Inr (out, zs) \<Rightarrow> \<exists>s'. run_ops enq deq first ops s = Inr (out, s') \<and> rep s' zs"
  using assms
proof (induction ops ys arbitrary: s rule: spec_run.induct)
  case (2 y ops ys)
  then obtain s1 where "enq s y = Inr s1" "rep s1 (ys @ [y])" using rep_enq [of s ys y] by auto
  then show ?case using "2.IH" [of s1] "2.prems" by (simp split: sum.splits prod.splits)
next
  case (4 ops y ys)
  then obtain s1 where "deq s = Inr s1" "rep s1 ys" using rep_deq by blast
  then show ?case using "4.IH" [of s1] "4.prems"
    by (auto simp: rep_first served_def split: sum.splits prod.splits)
qed (auto simp: deq_empty)

end

lemma fifo_queue: "fifo queue_of push pop front empty_q"
proof
  show "\<exists>s'. push s y = Inr s' \<and> queue_of s' (ys @ [y])"
    if "queue_of s ys" "y \<notin> set ys" for s :: "'p qheap" and ys y
    using that by (rule queue_push)
  show "\<exists>s'. pop s = Inr s' \<and> queue_of s' ys" if "queue_of s (y # ys)" for s :: "'p qheap" and ys y
    using that by (rule queue_pop)
qed (auto simp: queue_of_def front_def empty_q_def pop_def split: prod.splits)

interpretation bq: fifo queue_of push pop front empty_q
  by (rule fifo_queue)

section \<open>Claims\<close>

text \<open>
  C18. The linked request queue refines a list: run from any queue that stands for the list \<open>ys\<close>,
  a sequence of pushes and of front-and-pop requests serves the same buffers in the same order as
  on the list and ends standing for the same list, and panics exactly where the list would be empty, as long as no buffer is
  pushed while it is queued.
\<close>

theorem bufqueue_refines_list:
  assumes "queue_of s ys" and "fresh ops ys"
  shows "case spec_run ops ys of
      Inl e \<Rightarrow> run_ops push pop front ops s = Inl e
    | Inr (out, zs) \<Rightarrow> \<exists>s'. run_ops push pop front ops s = Inr (out, s') \<and> queue_of s' zs"
  using assms by (rule bq.run_refines)

theorem bufqueue_refines_list_witness:
  "\<exists>s'. run_ops push pop front [Enq 1, Enq 2, Deq, Enq 1, Deq]
      (initBufQueue (\<lambda>_. \<lparr>flags = 0, blockno = 0, bdata = [], Prev = None, Next = None\<rparr>,
         \<lparr>qbegin = None, qend = None, qsz = 7\<rparr>)) = Inr ([1, 2], s') \<and>
     queue_of s' [1 :: nat]"
  using bufqueue_refines_list [OF queue_init,
      of "[Enq (1 :: nat), Enq 2, Deq, Enq 1, Deq]"
         "(\<lambda>_. \<lparr>flags = 0, blockno = 0, bdata = [], Prev = None, Next = None\<rparr>,
           \<lparr>qbegin = None, qend = None, qsz = 7\<rparr>)"]
  by (simp add: served_def)

end
