(* ===== verification/SdCard.thy ===== *)
theory SdCard
  imports Prelude
begin

text \<open>
  The SD card behind its host controller (\<^verbatim>\<open>src/driver/sd.c\<close>): commands, responses, the clock and the initialisation of the
  card. The controller is a parameter: a \<open>bus\<close> says what a read of a register returns and what reads, writes and waiting
  do to the device, so every access of the code is one step in the model. An \<^verbatim>\<open>int\<close> result is a 32-bit word. The
  loops that poll a register count down as in the code and therefore end. Messages are left out, except for the registers they read. Macros that only name a bit or a number are abbreviations.
\<close>

unbundle bit_operations_syntax

section \<open>Registers and constants\<close>

datatype reg = EMMC_BLKSIZECNT | EMMC_ARG1 | EMMC_CMDTM | EMMC_RESP0 | EMMC_RESP1 | EMMC_RESP2 | EMMC_RESP3 | EMMC_DATA
  | EMMC_STATUS | EMMC_CONTROL0 | EMMC_CONTROL1 | EMMC_INTERRUPT | EMMC_IRPT_MASK | EMMC_IRPT_EN | EMMC_SLOTISR_VER
  | GPFSEL4 | GPFSEL5 | GPEDS1 | GPHEN1 | GPPUD | GPPUDCLK1

definition INT_AUTO_ERROR :: u32 where "INT_AUTO_ERROR = 0x01000000"

definition INT_DATA_END_ERR :: u32 where "INT_DATA_END_ERR = 0x00400000"

definition INT_DATA_CRC_ERR :: u32 where "INT_DATA_CRC_ERR = 0x00200000"

definition INT_DATA_TIMEOUT :: u32 where "INT_DATA_TIMEOUT = 0x00100000"

definition INT_INDEX_ERROR :: u32 where "INT_INDEX_ERROR = 0x00080000"

definition INT_END_ERROR :: u32 where "INT_END_ERROR = 0x00040000"

definition INT_CRC_ERROR :: u32 where "INT_CRC_ERROR = 0x00020000"

definition INT_CMD_TIMEOUT :: u32 where "INT_CMD_TIMEOUT = 0x00010000"

definition INT_ERR :: u32 where "INT_ERR = 0x00008000"

definition INT_READ_RDY :: u32 where "INT_READ_RDY = 0x00000020"

definition INT_WRITE_RDY :: u32 where "INT_WRITE_RDY = 0x00000010"

definition INT_DATA_DONE :: u32 where "INT_DATA_DONE = 0x00000002"

definition INT_CMD_DONE :: u32 where "INT_CMD_DONE = 0x00000001"

abbreviation C0_HCTL_DWITDH :: u32 where "C0_HCTL_DWITDH \<equiv> 0x00000002"

abbreviation C1_SRST_HC :: u32 where "C1_SRST_HC \<equiv> 0x01000000"

abbreviation C1_TOUNIT_MAX :: u32 where "C1_TOUNIT_MAX \<equiv> 0x000e0000"

abbreviation C1_CLK_EN :: u32 where "C1_CLK_EN \<equiv> 0x00000004"

abbreviation C1_CLK_STABLE :: u32 where "C1_CLK_STABLE \<equiv> 0x00000002"

abbreviation C1_CLK_INTLEN :: u32 where "C1_CLK_INTLEN \<equiv> 0x00000001"

abbreviation HOST_SPEC_NUM :: u32 where "HOST_SPEC_NUM \<equiv> 0x00ff0000"

definition HOST_SPEC_V2 :: u32 where "HOST_SPEC_V2 = 1"

abbreviation SR_READ_AVAILABLE :: u32 where "SR_READ_AVAILABLE \<equiv> 0x00000800"

abbreviation SR_DAT_INHIBIT :: u32 where "SR_DAT_INHIBIT \<equiv> 0x00000002"

abbreviation SR_CMD_INHIBIT :: u32 where "SR_CMD_INHIBIT \<equiv> 0x00000001"

abbreviation ACMD41_HCS :: u32 where "ACMD41_HCS \<equiv> 0x40000000"

abbreviation ACMD41_SDXC_POWER :: u32 where "ACMD41_SDXC_POWER \<equiv> 0x10000000"

abbreviation ACMD41_S18R :: u32 where "ACMD41_S18R \<equiv> 0x01000000"

abbreviation ACMD41_VOLTAGE :: u32 where "ACMD41_VOLTAGE \<equiv> 0x00ff8000"

abbreviation ST_CARD_STATE :: u32 where "ST_CARD_STATE \<equiv> 0x00001e00"

abbreviation ST_APP_CMD :: u32 where "ST_APP_CMD \<equiv> 0x00000020"

abbreviation R1_ERRORS_MASK :: u32 where "R1_ERRORS_MASK \<equiv> 0xfff9c004"

abbreviation R3_COMPLETE :: u32 where "R3_COMPLETE \<equiv> 0x80000000"

abbreviation R3_CCS :: u32 where "R3_CCS \<equiv> 0x40000000"

abbreviation R3_S18A :: u32 where "R3_S18A \<equiv> 0x01000000"

abbreviation R6_RCA_MASK :: u32 where "R6_RCA_MASK \<equiv> 0xffff0000"

abbreviation CSD0_VERSION :: u32 where "CSD0_VERSION \<equiv> 0x00c00000"

abbreviation CSD0_V1 :: u32 where "CSD0_V1 \<equiv> 0x00000000"

abbreviation CSD1VN_READ_BL_LEN :: u32 where "CSD1VN_READ_BL_LEN \<equiv> 0x00000f00"

abbreviation CSD3VN_FILE_FORMAT :: u32 where "CSD3VN_FILE_FORMAT \<equiv> 0x0000000c"

abbreviation CSD3VN_FILE_FORMAT_HDD :: u32 where "CSD3VN_FILE_FORMAT_HDD \<equiv> 0x00000000"

abbreviation CSD3VN_FILE_FORMAT_DOSFAT :: u32 where "CSD3VN_FILE_FORMAT_DOSFAT \<equiv> 0x00000004"

abbreviation CSD1V1_C_SIZEH :: u32 where "CSD1V1_C_SIZEH \<equiv> 0x00000003"

abbreviation CSD2V1_C_SIZEL :: u32 where "CSD2V1_C_SIZEL \<equiv> 0xffc00000"

abbreviation CSD2V1_C_SIZE_MULT :: u32 where "CSD2V1_C_SIZE_MULT \<equiv> 0x00000380"

abbreviation CSD2V2_C_SIZE :: u32 where "CSD2V2_C_SIZE \<equiv> 0x3fffff00"

abbreviation SCR_SD_BUS_WIDTH_1 :: u32 where "SCR_SD_BUS_WIDTH_1 \<equiv> 0x00000100"

abbreviation SCR_SD_BUS_WIDTH_4 :: u32 where "SCR_SD_BUS_WIDTH_4 \<equiv> 0x00000400"

abbreviation SCR_CMD_SUPP_SET_BLKCNT :: u32 where "SCR_CMD_SUPP_SET_BLKCNT \<equiv> 0x02000000"

abbreviation SCR_CMD_SUPP_SPEED_CLASS :: u32 where "SCR_CMD_SUPP_SPEED_CLASS \<equiv> 0x01000000"

abbreviation SD_SUPP_SET_BLOCK_COUNT :: u32 where "SD_SUPP_SET_BLOCK_COUNT \<equiv> 0x80000000"

abbreviation SD_SUPP_SPEED_CLASS :: u32 where "SD_SUPP_SPEED_CLASS \<equiv> 0x40000000"

abbreviation SD_SUPP_BUS_WIDTH_4 :: u32 where "SD_SUPP_BUS_WIDTH_4 \<equiv> 0x20000000"

abbreviation SD_SUPP_BUS_WIDTH_1 :: u32 where "SD_SUPP_BUS_WIDTH_1 \<equiv> 0x10000000"

abbreviation CMD_IS_DATA :: u32 where "CMD_IS_DATA \<equiv> 0x00200000"

abbreviation CMD_RSPNS_NO :: u32 where "CMD_RSPNS_NO \<equiv> 0x00000000"

abbreviation CMD_RSPNS_136 :: u32 where "CMD_RSPNS_136 \<equiv> 0x00010000"

abbreviation CMD_RSPNS_48 :: u32 where "CMD_RSPNS_48 \<equiv> 0x00020000"

abbreviation CMD_RSPNS_48B :: u32 where "CMD_RSPNS_48B \<equiv> 0x00030000"

abbreviation TM_MULTI_BLOCK :: u32 where "TM_MULTI_BLOCK \<equiv> 0x00000020"

abbreviation TM_DAT_DIR_HC :: u32 where "TM_DAT_DIR_HC \<equiv> 0x00000000"

abbreviation TM_DAT_DIR_CH :: u32 where "TM_DAT_DIR_CH \<equiv> 0x00000010"

abbreviation TM_BLKCNT_EN :: u32 where "TM_BLKCNT_EN \<equiv> 0x00000002"

definition FREQ_SETUP :: u32 where "FREQ_SETUP = 400000"

definition FREQ_NORMAL :: u32 where "FREQ_NORMAL = 25000000"

abbreviation R1_CARD_STATE_SHIFT :: nat where "R1_CARD_STATE_SHIFT \<equiv> 9"

abbreviation HOST_SPEC_NUM_SHIFT :: nat where "HOST_SPEC_NUM_SHIFT \<equiv> 16"

abbreviation CSD1VN_READ_BL_LEN_SHIFT :: nat where "CSD1VN_READ_BL_LEN_SHIFT \<equiv> 8"

abbreviation CSD1V1_C_SIZEH_SHIFT :: nat where "CSD1V1_C_SIZEH_SHIFT \<equiv> 10"

abbreviation CSD2V1_C_SIZEL_SHIFT :: nat where "CSD2V1_C_SIZEL_SHIFT \<equiv> 22"

abbreviation CSD2V1_C_SIZE_MULT_SHIFT :: nat where "CSD2V1_C_SIZE_MULT_SHIFT \<equiv> 7"

abbreviation CSD2V2_C_SIZE_SHIFT :: nat where "CSD2V2_C_SIZE_SHIFT \<equiv> 8"

abbreviation RESP_NO :: u8 where "RESP_NO \<equiv> 0"

abbreviation RESP_R1 :: u8 where "RESP_R1 \<equiv> 1"

abbreviation RESP_R1b :: u8 where "RESP_R1b \<equiv> 11"

abbreviation RESP_R2I :: u8 where "RESP_R2I \<equiv> 2"

abbreviation RESP_R2S :: u8 where "RESP_R2S \<equiv> 12"

abbreviation RESP_R3 :: u8 where "RESP_R3 \<equiv> 3"

abbreviation RESP_R6 :: u8 where "RESP_R6 \<equiv> 6"

abbreviation RESP_R7 :: u8 where "RESP_R7 \<equiv> 7"

abbreviation RCA_NO :: u8 where "RCA_NO \<equiv> 1"

abbreviation RCA_YES :: u8 where "RCA_YES \<equiv> 2"

abbreviation SD_TYPE_1 :: u8 where "SD_TYPE_1 \<equiv> 2"

abbreviation SD_TYPE_2_SC :: u8 where "SD_TYPE_2_SC \<equiv> 3"

abbreviation SD_TYPE_2_HC :: u8 where "SD_TYPE_2_HC \<equiv> 4"

abbreviation IX_GO_IDLE_STATE :: nat where "IX_GO_IDLE_STATE \<equiv> 0"

abbreviation IX_ALL_SEND_CID :: nat where "IX_ALL_SEND_CID \<equiv> 1"

abbreviation IX_SEND_REL_ADDR :: nat where "IX_SEND_REL_ADDR \<equiv> 2"

abbreviation IX_CARD_SELECT :: nat where "IX_CARD_SELECT \<equiv> 5"

abbreviation IX_SEND_IF_COND :: nat where "IX_SEND_IF_COND \<equiv> 6"

abbreviation IX_SEND_CSD :: nat where "IX_SEND_CSD \<equiv> 7"

abbreviation IX_SET_BLOCKLEN :: nat where "IX_SET_BLOCKLEN \<equiv> 13"

abbreviation IX_READ_SINGLE :: nat where "IX_READ_SINGLE \<equiv> 14"

abbreviation IX_WRITE_SINGLE :: nat where "IX_WRITE_SINGLE \<equiv> 19"

abbreviation IX_APP_CMD :: nat where "IX_APP_CMD \<equiv> 29"

abbreviation IX_APP_CMD_RCA :: nat where "IX_APP_CMD_RCA \<equiv> 30"

abbreviation IX_APP_CMD_START :: nat where "IX_APP_CMD_START \<equiv> 32"

abbreviation IX_SET_BUS_WIDTH :: nat where "IX_SET_BUS_WIDTH \<equiv> 32"

abbreviation IX_APP_SEND_OP_COND :: nat where "IX_APP_SEND_OP_COND \<equiv> 36"

abbreviation IX_SEND_SCR :: nat where "IX_SEND_SCR \<equiv> 38"

abbreviation TM_MULTI_DATA :: u32 where "TM_MULTI_DATA \<equiv> CMD_IS_DATA OR TM_MULTI_BLOCK OR TM_BLKCNT_EN"

definition INT_ERROR_MASK :: u32 where
  "INT_ERROR_MASK = INT_CRC_ERROR OR INT_END_ERROR OR INT_INDEX_ERROR OR INT_DATA_TIMEOUT OR INT_DATA_CRC_ERR OR
     INT_DATA_END_ERR OR INT_ERR OR INT_AUTO_ERROR"

abbreviation ACMD41_ARG_HC :: u32 where "ACMD41_ARG_HC \<equiv> ACMD41_HCS OR ACMD41_SDXC_POWER OR ACMD41_VOLTAGE OR ACMD41_S18R"

abbreviation ACMD41_ARG_SC :: u32 where "ACMD41_ARG_SC \<equiv> ACMD41_VOLTAGE OR ACMD41_S18R"

definition SD_OK :: u32 where "SD_OK = 0"

definition SD_ERROR :: u32 where "SD_ERROR = 1"

definition SD_TIMEOUT :: u32 where "SD_TIMEOUT = 2"

definition SD_BUSY :: u32 where "SD_BUSY = 3"

definition SD_ERROR_RESET :: u32 where "SD_ERROR_RESET = 6"

definition SD_ERROR_CLOCK :: u32 where "SD_ERROR_CLOCK = 7"

definition SD_ERROR_VOLTAGE :: u32 where "SD_ERROR_VOLTAGE = 8"

definition SD_ERROR_APP_CMD :: u32 where "SD_ERROR_APP_CMD = 9"

definition SD_CARD_CHANGED :: u32 where "SD_CARD_CHANGED = 10"

definition SD_CARD_REINSERTED :: u32 where "SD_CARD_REINSERTED = 12"

section \<open>Commands and the card\<close>

record EMMCCommand =
  cname :: string
  code :: u32
  resp :: u8
  crca :: u8
  cdelay :: u32

definition sdCommandTable :: "EMMCCommand list" where
  "sdCommandTable =
     [\<lparr>cname = ''GO_IDLE_STATE'', code = 0x00000000 OR CMD_RSPNS_NO, resp = RESP_NO, crca = RCA_NO, cdelay = 0\<rparr>,
      \<lparr>cname = ''ALL_SEND_CID'', code = 0x02000000 OR CMD_RSPNS_136, resp = RESP_R2I, crca = RCA_NO, cdelay = 0\<rparr>,
      \<lparr>cname = ''SEND_REL_ADDR'', code = 0x03000000 OR CMD_RSPNS_48, resp = RESP_R6, crca = RCA_NO, cdelay = 0\<rparr>,
      \<lparr>cname = ''SET_DSR'', code = 0x04000000 OR CMD_RSPNS_NO, resp = RESP_NO, crca = RCA_NO, cdelay = 0\<rparr>,
      \<lparr>cname = ''SWITCH_FUNC'', code = 0x06000000 OR CMD_RSPNS_48, resp = RESP_R1, crca = RCA_NO, cdelay = 0\<rparr>,
      \<lparr>cname = ''CARD_SELECT'', code = 0x07000000 OR CMD_RSPNS_48B, resp = RESP_R1b, crca = RCA_YES, cdelay = 0\<rparr>,
      \<lparr>cname = ''SEND_IF_COND'', code = 0x08000000 OR CMD_RSPNS_48, resp = RESP_R7, crca = RCA_NO, cdelay = 100\<rparr>,
      \<lparr>cname = ''SEND_CSD'', code = 0x09000000 OR CMD_RSPNS_136, resp = RESP_R2S, crca = RCA_YES, cdelay = 0\<rparr>,
      \<lparr>cname = ''SEND_CID'', code = 0x0A000000 OR CMD_RSPNS_136, resp = RESP_R2I, crca = RCA_YES, cdelay = 0\<rparr>,
      \<lparr>cname = ''VOLT_SWITCH'', code = 0x0B000000 OR CMD_RSPNS_48, resp = RESP_R1, crca = RCA_NO, cdelay = 0\<rparr>,
      \<lparr>cname = ''STOP_TRANS'', code = 0x0C000000 OR CMD_RSPNS_48B, resp = RESP_R1b, crca = RCA_NO, cdelay = 0\<rparr>,
      \<lparr>cname = ''SEND_STATUS'', code = 0x0D000000 OR CMD_RSPNS_48, resp = RESP_R1, crca = RCA_YES, cdelay = 0\<rparr>,
      \<lparr>cname = ''GO_INACTIVE'', code = 0x0F000000 OR CMD_RSPNS_NO, resp = RESP_NO, crca = RCA_YES, cdelay = 0\<rparr>,
      \<lparr>cname = ''SET_BLOCKLEN'', code = 0x10000000 OR CMD_RSPNS_48, resp = RESP_R1, crca = RCA_NO, cdelay = 0\<rparr>,
      \<lparr>cname = ''READ_SINGLE'', code = 0x11000000 OR CMD_RSPNS_48 OR CMD_IS_DATA OR TM_DAT_DIR_CH, resp = RESP_R1, crca = RCA_NO, cdelay = 0\<rparr>,
      \<lparr>cname = ''READ_MULTI'', code = 0x12000000 OR CMD_RSPNS_48 OR TM_MULTI_DATA OR TM_DAT_DIR_CH, resp = RESP_R1, crca = RCA_NO, cdelay = 0\<rparr>,
      \<lparr>cname = ''SEND_TUNING'', code = 0x13000000 OR CMD_RSPNS_48, resp = RESP_R1, crca = RCA_NO, cdelay = 0\<rparr>,
      \<lparr>cname = ''SPEED_CLASS'', code = 0x14000000 OR CMD_RSPNS_48B, resp = RESP_R1b, crca = RCA_NO, cdelay = 0\<rparr>,
      \<lparr>cname = ''SET_BLOCKCNT'', code = 0x17000000 OR CMD_RSPNS_48, resp = RESP_R1, crca = RCA_NO, cdelay = 0\<rparr>,
      \<lparr>cname = ''WRITE_SINGLE'', code = 0x18000000 OR CMD_RSPNS_48 OR CMD_IS_DATA OR TM_DAT_DIR_HC, resp = RESP_R1, crca = RCA_NO, cdelay = 0\<rparr>,
      \<lparr>cname = ''WRITE_MULTI'', code = 0x19000000 OR CMD_RSPNS_48 OR TM_MULTI_DATA OR TM_DAT_DIR_HC, resp = RESP_R1, crca = RCA_NO, cdelay = 0\<rparr>,
      \<lparr>cname = ''PROGRAM_CSD'', code = 0x1B000000 OR CMD_RSPNS_48, resp = RESP_R1, crca = RCA_NO, cdelay = 0\<rparr>,
      \<lparr>cname = ''SET_WRITE_PR'', code = 0x1C000000 OR CMD_RSPNS_48B, resp = RESP_R1b, crca = RCA_NO, cdelay = 0\<rparr>,
      \<lparr>cname = ''CLR_WRITE_PR'', code = 0x1D000000 OR CMD_RSPNS_48B, resp = RESP_R1b, crca = RCA_NO, cdelay = 0\<rparr>,
      \<lparr>cname = ''SND_WRITE_PR'', code = 0x1E000000 OR CMD_RSPNS_48, resp = RESP_R1, crca = RCA_NO, cdelay = 0\<rparr>,
      \<lparr>cname = ''ERASE_WR_ST'', code = 0x20000000 OR CMD_RSPNS_48, resp = RESP_R1, crca = RCA_NO, cdelay = 0\<rparr>,
      \<lparr>cname = ''ERASE_WR_END'', code = 0x21000000 OR CMD_RSPNS_48, resp = RESP_R1, crca = RCA_NO, cdelay = 0\<rparr>,
      \<lparr>cname = ''ERASE'', code = 0x26000000 OR CMD_RSPNS_48B, resp = RESP_R1b, crca = RCA_NO, cdelay = 0\<rparr>,
      \<lparr>cname = ''LOCK_UNLOCK'', code = 0x2A000000 OR CMD_RSPNS_48, resp = RESP_R1, crca = RCA_NO, cdelay = 0\<rparr>,
      \<lparr>cname = ''APP_CMD'', code = 0x37000000 OR CMD_RSPNS_NO, resp = RESP_NO, crca = RCA_NO, cdelay = 100\<rparr>,
      \<lparr>cname = ''APP_CMD'', code = 0x37000000 OR CMD_RSPNS_48, resp = RESP_R1, crca = RCA_YES, cdelay = 0\<rparr>,
      \<lparr>cname = ''GEN_CMD'', code = 0x38000000 OR CMD_RSPNS_48, resp = RESP_R1, crca = RCA_NO, cdelay = 0\<rparr>,
      \<lparr>cname = ''SET_BUS_WIDTH'', code = 0x06000000 OR CMD_RSPNS_48, resp = RESP_R1, crca = RCA_NO, cdelay = 0\<rparr>,
      \<lparr>cname = ''SD_STATUS'', code = 0x0D000000 OR CMD_RSPNS_48, resp = RESP_R1, crca = RCA_YES, cdelay = 0\<rparr>,
      \<lparr>cname = ''SEND_NUM_WRBL'', code = 0x16000000 OR CMD_RSPNS_48, resp = RESP_R1, crca = RCA_NO, cdelay = 0\<rparr>,
      \<lparr>cname = ''SEND_NUM_ERS'', code = 0x17000000 OR CMD_RSPNS_48, resp = RESP_R1, crca = RCA_NO, cdelay = 0\<rparr>,
      \<lparr>cname = ''SD_SENDOPCOND'', code = 0x29000000 OR CMD_RSPNS_48, resp = RESP_R3, crca = RCA_NO, cdelay = 1000\<rparr>,
      \<lparr>cname = ''SET_CLR_DET'', code = 0x2A000000 OR CMD_RSPNS_48, resp = RESP_R1, crca = RCA_NO, cdelay = 0\<rparr>,
      \<lparr>cname = ''SEND_SCR'', code = 0x33000000 OR CMD_RSPNS_48 OR CMD_IS_DATA OR TM_DAT_DIR_CH, resp = RESP_R1, crca = RCA_NO, cdelay = 0\<rparr>]"

record SDDescriptor =
  capacity :: u64
  cid :: "u32 list"
  csd :: "u32 list"
  scr :: "u32 list"
  ocr :: u32
  support :: u32
  fileFormat :: u32
  ctype :: u8
  uhsi :: u8
  inited :: bool
  absent :: bool
  rca :: u32
  cardState :: u32
  cstatus :: u32
  lastCmd :: "EMMCCommand option"
  lastArg :: u32

text \<open>The controller: reads, writes, waiting, and the base clock that the firmware reports through its mailbox (\<^verbatim>\<open>src/driver/mbox.c\<close>).\<close>

record 'd bus =
  rd :: "reg \<Rightarrow> 'd \<Rightarrow> u32 \<times> 'd"
  wr :: "reg \<Rightarrow> u32 \<Rightarrow> 'd \<Rightarrow> 'd"
  delayus :: "u32 \<Rightarrow> 'd \<Rightarrow> 'd"
  delay :: "u32 \<Rightarrow> 'd \<Rightarrow> 'd"
  clock_rate :: "'d \<Rightarrow> u32 \<times> 'd"

record 'd sd =
  dev :: 'd
  sdCard :: SDDescriptor
  sdHostVer :: u32
  sdBaseClock :: u32

definition get_r :: "'d bus \<Rightarrow> reg \<Rightarrow> ('d sd, u32) cm" where
  "get_r B r = (\<lambda>s. case rd B r (dev s) of (v, d) \<Rightarrow> Inr (v, s\<lparr>dev := d\<rparr>))"

definition put_r :: "'d bus \<Rightarrow> reg \<Rightarrow> u32 \<Rightarrow> ('d sd, unit) cm" where
  "put_r B r v = modify (\<lambda>s. s\<lparr>dev := wr B r v (dev s)\<rparr>)"

definition upd_card :: "(SDDescriptor \<Rightarrow> SDDescriptor) \<Rightarrow> ('d sd, unit) cm" where
  "upd_card f = modify (\<lambda>s. s\<lparr>sdCard := f (sdCard s)\<rparr>)"

definition get_card :: "('d sd, SDDescriptor) cm" where
  "get_card = gets sdCard"

definition sd_delayus :: "'d bus \<Rightarrow> u32 \<Rightarrow> ('d sd, unit) cm" where
  "sd_delayus B c = modify (\<lambda>s. s\<lparr>dev := delayus B (c * 3) (dev s)\<rparr>)"

definition delay_sd :: "'d bus \<Rightarrow> u32 \<Rightarrow> ('d sd, unit) cm" where
  "delay_sd B c = modify (\<lambda>s. s\<lparr>dev := delay B c (dev s)\<rparr>)"

text \<open>A register changed by a function of its value.\<close>

definition mod_r :: "'d bus \<Rightarrow> reg \<Rightarrow> (u32 \<Rightarrow> u32) \<Rightarrow> ('d sd, unit) cm" where
  "mod_r B r f = bind (get_r B r) (\<lambda>v. put_r B r (f v))"

definition read_all :: "'d bus \<Rightarrow> reg list \<Rightarrow> ('d sd, unit) cm" where
  "read_all B rs = foldr (\<lambda>r m. bind (get_r B r) (\<lambda>_. m)) rs (ret ())"

section \<open>Polling\<close>

text \<open>\<^verbatim>\<open>while (c && count--) w;\<close> and \<^verbatim>\<open>while (c && --count) w;\<close>, with the value of \<^verbatim>\<open>count\<close> afterwards.\<close>

fun poll :: "('s, bool) cm \<Rightarrow> ('s, unit) cm \<Rightarrow> nat \<Rightarrow> ('s, int) cm" where
  "poll c w 0 = bind c (\<lambda>b. ret (if b then - 1 else 0))"
| "poll c w (Suc n) = bind c (\<lambda>b. if b then andthen w (poll c w n) else ret (int (Suc n)))"

fun poll_pre :: "('s, bool) cm \<Rightarrow> ('s, unit) cm \<Rightarrow> nat \<Rightarrow> ('s, int) cm" where
  "poll_pre c w 0 = ret 0"
| "poll_pre c w (Suc n) = bind c (\<lambda>b.
     if \<not> b then ret (int (Suc n)) else if n = 0 then ret 0 else andthen w (poll_pre c w n))"

definition sdDebugResponse :: "'d bus \<Rightarrow> u32 \<Rightarrow> ('d sd, u32) cm" where
  "sdDebugResponse B r = bind get_card (\<lambda>c.
     if lastCmd c = None then fail BadAccess
     else
       andthen (read_all B [EMMC_RESP3, EMMC_RESP2, EMMC_RESP1, EMMC_RESP0, EMMC_STATUS, EMMC_CONTROL1, EMMC_INTERRUPT])
         (ret r))"

definition sdWaitForInterrupt :: "'d bus \<Rightarrow> u32 \<Rightarrow> ('d sd, u32) cm" where
  "sdWaitForInterrupt B msk =
     bind (poll (bind (get_r B EMMC_INTERRUPT) (\<lambda>v. ret (v AND (msk OR INT_ERROR_MASK) = 0))) (sd_delayus B 1) 1000000) (\<lambda>count.
     bind (get_r B EMMC_INTERRUPT) (\<lambda>ival.
       if count \<le> 0 \<or> ival AND INT_CMD_TIMEOUT \<noteq> 0 \<or> ival AND INT_DATA_TIMEOUT \<noteq> 0 then
         andthen (put_r B EMMC_INTERRUPT ival) (ret SD_TIMEOUT)
       else if ival AND INT_ERROR_MASK \<noteq> 0 then
         andthen (read_all B [EMMC_STATUS, EMMC_RESP0]) (andthen (put_r B EMMC_INTERRUPT ival) (ret SD_ERROR))
       else andthen (put_r B EMMC_INTERRUPT msk) (ret SD_OK)))"

text \<open>The inhibit bit \<open>b\<close> is set and no error is flagged.\<close>

definition inhibited :: "'d bus \<Rightarrow> u32 \<Rightarrow> ('d sd, bool) cm" where
  "inhibited B b = bind (get_r B EMMC_STATUS) (\<lambda>v.
     if v AND b = 0 then ret False else bind (get_r B EMMC_INTERRUPT) (\<lambda>w. ret (w AND INT_ERROR_MASK = 0)))"

definition sdWaitForCommand :: "'d bus \<Rightarrow> ('d sd, u32) cm" where
  "sdWaitForCommand B = bind (poll (inhibited B SR_CMD_INHIBIT) (sd_delayus B 1) 1000000) (\<lambda>count.
     bind (if count \<le> 0 then ret True else bind (get_r B EMMC_INTERRUPT) (\<lambda>v. ret (v AND INT_ERROR_MASK \<noteq> 0))) (\<lambda>bad.
       if bad then andthen (read_all B [EMMC_STATUS, EMMC_INTERRUPT, EMMC_RESP0]) (ret SD_BUSY) else ret SD_OK))"

text \<open>Here the code counts up to 500000.\<close>

definition sdWaitForData :: "'d bus \<Rightarrow> ('d sd, u32) cm" where
  "sdWaitForData B = bind (poll_pre (inhibited B SR_DAT_INHIBIT) (sd_delayus B 1) 500000) (\<lambda>left.
     bind (if left \<le> 0 then ret True else bind (get_r B EMMC_INTERRUPT) (\<lambda>v. ret (v AND INT_ERROR_MASK \<noteq> 0))) (\<lambda>bad.
       if bad then andthen (read_all B [EMMC_STATUS, EMMC_INTERRUPT, EMMC_RESP0]) (ret SD_BUSY) else ret SD_OK))"

section \<open>Sending commands\<close>

text \<open>The status that a response of type R6 carries.\<close>

definition r6_status :: "u32 \<Rightarrow> u32" where
  "r6_status r = (r AND 0x1fff) OR push_bit 6 (r AND 0x2000) OR push_bit 8 (r AND 0x4000) OR push_bit 8 (r AND 0x8000)"

definition card_state :: "u32 \<Rightarrow> u32" where
  "card_state r = drop_bit R1_CARD_STATE_SHIFT (r AND ST_CARD_STATE)"

definition handle_resp :: "'d bus \<Rightarrow> EMMCCommand \<Rightarrow> u32 \<Rightarrow> u32 \<Rightarrow> ('d sd, u32) cm" where
  "handle_resp B c arg resp0 =
     (if resp c = RESP_NO then ret SD_OK
      else if resp c = RESP_R1 \<or> resp c = RESP_R1b then
        andthen (upd_card (\<lambda>d. d\<lparr>cardState := card_state resp0, cstatus := resp0\<rparr>)) (ret (resp0 AND R1_ERRORS_MASK))
      else if resp c = RESP_R2I \<or> resp c = RESP_R2S then
        bind (get_r B EMMC_RESP3) (\<lambda>r3. bind (get_r B EMMC_RESP2) (\<lambda>r2. bind (get_r B EMMC_RESP1) (\<lambda>r1.
          andthen (upd_card (\<lambda>d. if resp c = RESP_R2I then d\<lparr>cid := [r3, r2, r1, resp0], cstatus := 0\<rparr>
            else d\<lparr>csd := [r3, r2, r1, resp0], cstatus := 0\<rparr>)) (ret SD_OK))))
      else if resp c = RESP_R3 then andthen (upd_card (\<lambda>d. d\<lparr>ocr := resp0, cstatus := 0\<rparr>)) (ret SD_OK)
      else if resp c = RESP_R6 then
        andthen (upd_card (\<lambda>d. d\<lparr>rca := resp0 AND R6_RCA_MASK, cardState := card_state resp0, cstatus := r6_status resp0\<rparr>))
          (ret (r6_status resp0 AND R1_ERRORS_MASK))
      else if resp c = RESP_R7 then
        andthen (upd_card (\<lambda>d. d\<lparr>cstatus := 0\<rparr>)) (ret (if resp0 = arg then SD_OK else SD_ERROR))
      else fail (Panic ''Unexpected response.''))"

definition sdSendCommandP :: "'d bus \<Rightarrow> EMMCCommand \<Rightarrow> u32 \<Rightarrow> ('d sd, u32) cm" where
  "sdSendCommandP B c arg = bind (sdWaitForCommand B) (\<lambda>w.
     if w \<noteq> 0 then ret SD_BUSY
     else
       andthen (upd_card (\<lambda>d. d\<lparr>lastCmd := Some c, lastArg := arg\<rparr>))
       (andthen (mod_r B EMMC_INTERRUPT (\<lambda>v. v))
       (andthen (put_r B EMMC_ARG1 arg)
       (andthen (put_r B EMMC_CMDTM (code c))
       (andthen (if cdelay c \<noteq> 0 then sd_delayus B (cdelay c) else ret ())
       (bind (sdWaitForInterrupt B INT_CMD_DONE) (\<lambda>result.
          if result \<noteq> 0 then ret result
          else bind (get_r B EMMC_RESP0) (\<lambda>resp0. handle_resp B c arg resp0))))))))"

definition sdSendAppCommand :: "'d bus \<Rightarrow> ('d sd, u32) cm" where
  "sdSendAppCommand B = bind get_card (\<lambda>c.
     if rca c = 0 then andthen (sdSendCommandP B (sdCommandTable ! IX_APP_CMD) 0) (ret SD_OK)
     else
       bind (sdSendCommandP B (sdCommandTable ! IX_APP_CMD_RCA) (rca c)) (\<lambda>r.
         if r \<noteq> 0 then sdDebugResponse B r
         else bind get_card (\<lambda>c. if cstatus c AND ST_APP_CMD = 0 then ret SD_ERROR else ret SD_OK)))"

text \<open>What \<^verbatim>\<open>sdSendCommand\<close> and \<^verbatim>\<open>sdSendCommandA\<close> share: the argument depends on the card when the command is sent.\<close>

definition send_with :: "'d bus \<Rightarrow> nat \<Rightarrow> (SDDescriptor \<Rightarrow> u32) \<Rightarrow> ('d sd, u32) cm" where
  "send_with B ix arg =
     bind (if ix \<ge> IX_APP_CMD_START then sdSendAppCommand B else ret 0) (\<lambda>r.
       if r \<noteq> 0 then sdDebugResponse B r
       else
         bind get_card (\<lambda>c.
         bind (sdSendCommandP B (sdCommandTable ! ix) (arg c)) (\<lambda>r.
           if r \<noteq> 0 then ret r
           else bind get_card (\<lambda>c.
             if ix \<ge> IX_APP_CMD_START \<and> rca c \<noteq> 0 \<and> cstatus c AND ST_APP_CMD = 0 then ret SD_ERROR_APP_CMD else ret r))))"

definition sdSendCommand :: "'d bus \<Rightarrow> nat \<Rightarrow> ('d sd, u32) cm" where
  "sdSendCommand B ix = send_with B ix (\<lambda>c. if crca (sdCommandTable ! ix) = RCA_YES then rca c else 0)"

definition sdSendCommandA :: "'d bus \<Rightarrow> nat \<Rightarrow> u32 \<Rightarrow> ('d sd, u32) cm" where
  "sdSendCommandA B ix arg = send_with B ix (\<lambda>_. arg)"

text \<open>\<^verbatim>\<open>sdReadSCR\<close>: the loop that fills the two words \<^verbatim>\<open>scr\<close>, with the number read.\<close>

function scr_loop :: "'d bus \<Rightarrow> nat \<Rightarrow> nat \<Rightarrow> ('d sd, nat) cm" where
  "scr_loop B numRead count =
     (if numRead < 2 then
        bind (get_r B EMMC_STATUS) (\<lambda>v.
          if v AND SR_READ_AVAILABLE \<noteq> 0 then
            bind (get_r B EMMC_DATA) (\<lambda>w.
              andthen (upd_card (\<lambda>d. d\<lparr>scr := (scr d)[numRead := w]\<rparr>)) (scr_loop B (Suc numRead) count))
          else andthen (sd_delayus B 1) (if count - 1 = 0 then ret numRead else scr_loop B numRead (count - 1)))
      else ret numRead)"
  by pat_completeness auto
termination
  by (relation "measure (\<lambda>(B, numRead, count). (2 - numRead) + count)") auto

declare scr_loop.simps [simp del]

definition scr_support :: "u32 \<Rightarrow> u32 \<Rightarrow> u32" where
  "scr_support scr0 old = old
     OR (if scr0 AND SCR_SD_BUS_WIDTH_4 \<noteq> 0 then SD_SUPP_BUS_WIDTH_4 else 0)
     OR (if scr0 AND SCR_SD_BUS_WIDTH_1 \<noteq> 0 then SD_SUPP_BUS_WIDTH_1 else 0)
     OR (if scr0 AND SCR_CMD_SUPP_SET_BLKCNT \<noteq> 0 then SD_SUPP_SET_BLOCK_COUNT else 0)
     OR (if scr0 AND SCR_CMD_SUPP_SPEED_CLASS \<noteq> 0 then SD_SUPP_SPEED_CLASS else 0)"

text \<open>\<^verbatim>\<open>if ((resp = m)) return f(resp);\<close>\<close>

definition unless_ok :: "('s, u32) cm \<Rightarrow> (u32 \<Rightarrow> ('s, u32) cm) \<Rightarrow> ('s, u32) cm \<Rightarrow> ('s, u32) cm" where
  "unless_ok m f k = bind m (\<lambda>r. if r \<noteq> 0 then f r else k)"

definition sdReadSCR :: "'d bus \<Rightarrow> ('d sd, u32) cm" where
  "sdReadSCR B =
     unless_ok (sdWaitForData B) (\<lambda>_. ret SD_TIMEOUT)
     (andthen (put_r B EMMC_BLKSIZECNT (push_bit 16 1 OR 8))
     (unless_ok (sdSendCommand B IX_SEND_SCR) (sdDebugResponse B)
     (unless_ok (sdWaitForInterrupt B INT_READ_RDY) (sdDebugResponse B)
     (bind (scr_loop B 0 100000) (\<lambda>numRead.
        if numRead \<noteq> 2 then andthen (read_all B [EMMC_STATUS, EMMC_INTERRUPT, EMMC_RESP0]) (ret SD_TIMEOUT)
        else andthen (upd_card (\<lambda>d. d\<lparr>support := scr_support (scr d ! 0) (support d)\<rparr>)) (ret SD_OK))))))"

section \<open>The clock\<close>

definition fls_long :: "u64 \<Rightarrow> int" where
  "fls_long x =
     (if x = 0 then 0
      else
        let (x, r) = (if x AND 0xffff0000 = 0 then (push_bit 16 x, 32 - 16) else (x, 32));
            (x, r) = (if x AND 0xff000000 = 0 then (push_bit 8 x, r - 8) else (x, r));
            (x, r) = (if x AND 0xf0000000 = 0 then (push_bit 4 x, r - 4) else (x, r));
            (x, r) = (if x AND 0xc0000000 = 0 then (push_bit 2 x, r - 2) else (x, r));
            (x, r) = (if x AND 0x80000000 = 0 then (push_bit 1 x, r - 1) else (x, r))
        in r)"

definition roundup_pow_of_two :: "u64 \<Rightarrow> u64" where
  "roundup_pow_of_two x = push_bit (nat (fls_long (x - 1))) 1"

text \<open>\<^verbatim>\<open>sdGetClockDivider\<close>: the divisor, and where its bits go in the register. The frequency is not 0.\<close>

definition clock_divisor :: "u32 \<Rightarrow> u32 \<Rightarrow> u32" where
  "clock_divisor ver freq =
     (let closest = 41666666 div freq;
          shiftcount = (word_of_int (fls_long (ucast (closest - 1))) :: u32);
          shiftcount = (if shiftcount > 0 then shiftcount - 1 else shiftcount);
          shiftcount = (if shiftcount > 7 then 7 else shiftcount);
          divisor = (if ver > HOST_SPEC_V2 then closest else push_bit (unat shiftcount) 1)
      in if divisor \<le> 2 then 2 else divisor)"

definition sdGetClockDivider :: "u32 \<Rightarrow> u32 \<Rightarrow> u32" where
  "sdGetClockDivider ver freq =
     (let divisor = clock_divisor ver freq;
          hi = (if ver > HOST_SPEC_V2 then drop_bit 2 (divisor AND 0x300) else 0);
          lo = divisor AND 0xff
      in push_bit 8 lo + hi)"

definition sdSetClock :: "'d bus \<Rightarrow> u32 \<Rightarrow> ('d sd, u32) cm" where
  "sdSetClock B freq =
     bind (poll_pre (bind (get_r B EMMC_STATUS) (\<lambda>v. ret (v AND (SR_CMD_INHIBIT OR SR_DAT_INHIBIT) \<noteq> 0))) (sd_delayus B 1) 100000) (\<lambda>count.
       if count \<le> 0 then andthen (read_all B [EMMC_STATUS]) (ret SD_ERROR_CLOCK)
       else
         bind (gets sdHostVer) (\<lambda>ver.
           andthen (mod_r B EMMC_CONTROL1 (\<lambda>v. v AND NOT C1_CLK_EN))
           (andthen (sd_delayus B 10)
           (andthen (mod_r B EMMC_CONTROL1 (\<lambda>v. (v AND 0xffff003f) OR sdGetClockDivider ver freq))
           (andthen (sd_delayus B 10)
           (andthen (mod_r B EMMC_CONTROL1 (\<lambda>v. v OR C1_CLK_EN))
           (andthen (sd_delayus B 10)
           (bind (poll (bind (get_r B EMMC_CONTROL1) (\<lambda>v. ret (v AND C1_CLK_STABLE = 0))) (sd_delayus B 10) 10000) (\<lambda>count.
              if count \<le> 0 then ret SD_ERROR_CLOCK
              else andthen (read_all B [EMMC_STATUS, EMMC_CONTROL1]) (ret SD_OK))))))))))"

section \<open>Initialisation\<close>

definition sdResetCard :: "'d bus \<Rightarrow> u32 \<Rightarrow> ('d sd, u32) cm" where
  "sdResetCard B resetType =
     andthen (put_r B EMMC_CONTROL0 0)
     (andthen (mod_r B EMMC_CONTROL1 (\<lambda>v. v OR resetType))
     (andthen (sd_delayus B 10)
     (bind (poll (bind (get_r B EMMC_CONTROL1) (\<lambda>v. ret (v AND resetType \<noteq> 0))) (sd_delayus B 10) 10000) (\<lambda>count.
        if count \<le> 0 then ret SD_ERROR_RESET
        else
          andthen (mod_r B EMMC_CONTROL1 (\<lambda>v. v OR C1_CLK_INTLEN OR C1_TOUNIT_MAX))
          (andthen (sd_delayus B 10)
          (unless_ok (sdSetClock B FREQ_SETUP) ret
          (andthen (put_r B EMMC_IRPT_EN (NOT INT_CMD_DONE AND NOT INT_WRITE_RDY))
          (andthen (put_r B EMMC_IRPT_MASK 0xffffffff)
          (andthen (upd_card (\<lambda>d. d\<lparr>ocr := 0, ctype := 0, uhsi := 0, rca := 0, cstatus := 0, lastCmd := None, lastArg := 0\<rparr>))
            (sdSendCommand B IX_GO_IDLE_STATE))))))))))"

text \<open>The repetition of ACMD41: \<open>Some\<close> is the early return.\<close>

definition bad_acmd :: "u32 \<Rightarrow> bool" where
  "bad_acmd r \<longleftrightarrow> r \<noteq> 0 \<and> r \<noteq> SD_TIMEOUT"

fun op_cond_loop :: "'d bus \<Rightarrow> u32 \<Rightarrow> nat \<Rightarrow> ('d sd, u32 option) cm" where
  "op_cond_loop B arg 0 = ret None"
| "op_cond_loop B arg (Suc n) = bind get_card (\<lambda>c.
     if ocr c AND R3_COMPLETE \<noteq> 0 then ret None
     else
       andthen (read_all B [EMMC_STATUS])
       (andthen (delay_sd B 50000)
       (bind (sdSendCommandA B IX_APP_SEND_OP_COND arg) (\<lambda>r.
          if bad_acmd r then ret (Some r) else op_cond_loop B arg n))))"

definition sdAppSendOpCond :: "'d bus \<Rightarrow> u32 \<Rightarrow> ('d sd, u32) cm" where
  "sdAppSendOpCond B arg =
     andthen (read_all B [EMMC_STATUS])
     (bind (sdSendCommandA B IX_APP_SEND_OP_COND arg) (\<lambda>r.
        if bad_acmd r then ret r
        else bind (op_cond_loop B arg 6) (\<lambda>q.
          case q of
            Some r \<Rightarrow> ret r
          | None \<Rightarrow> bind get_card (\<lambda>c.
              if ocr c AND R3_COMPLETE = 0 then ret SD_TIMEOUT
              else if ocr c AND ACMD41_VOLTAGE = 0 then ret SD_ERROR_VOLTAGE
              else ret SD_OK))))"

text \<open>The pull-up sequence for some pins, and the pins of the card.\<close>

definition pull_up :: "'d bus \<Rightarrow> u32 \<Rightarrow> ('d sd, unit) cm" where
  "pull_up B pins =
     andthen (put_r B GPPUD 2) (andthen (delay_sd B 150) (andthen (put_r B GPPUDCLK1 pins)
     (andthen (delay_sd B 150) (andthen (put_r B GPPUD 0) (put_r B GPPUDCLK1 0)))))"

definition sdInitGPIO :: "'d bus \<Rightarrow> ('d sd, unit) cm" where
  "sdInitGPIO B =
     andthen (mod_r B GPFSEL4 (\<lambda>r. r AND NOT (push_bit (7 * 3) 7)))
     (andthen (pull_up B (push_bit 15 1))
     (andthen (mod_r B GPHEN1 (\<lambda>r. r OR push_bit 15 1))
     (andthen (mod_r B GPFSEL4 (\<lambda>r. r OR push_bit (8 * 3) 7 OR push_bit (9 * 3) 7))
     (andthen (pull_up B (push_bit 16 1 OR push_bit 17 1))
     (andthen (mod_r B GPFSEL5 (\<lambda>r. r OR push_bit 0 7 OR push_bit (1 * 3) 7 OR push_bit (2 * 3) 7 OR push_bit (3 * 3) 7))
       (pull_up B (push_bit 18 1 OR push_bit 19 1 OR push_bit 20 1 OR push_bit 21 1)))))))"

definition sdGetBaseClock :: "'d bus \<Rightarrow> ('d sd, u32) cm" where
  "sdGetBaseClock B = (\<lambda>s. case clock_rate B (dev s) of (v, d) \<Rightarrow>
     Inr (if v = - 1 then SD_ERROR else SD_OK, s\<lparr>dev := d, sdBaseClock := v\<rparr>))"

definition sdParseCSD :: "SDDescriptor \<Rightarrow> SDDescriptor" where
  "sdParseCSD d =
     (let c1 = csd d ! 1; c2 = csd d ! 2;
          cap = (if csd d ! 0 AND CSD0_VERSION = CSD0_V1 then
                   (let csize = push_bit CSD1V1_C_SIZEH_SHIFT (c1 AND CSD1V1_C_SIZEH) + drop_bit CSD2V1_C_SIZEL_SHIFT (c2 AND CSD2V1_C_SIZEL);
                        mult = (push_bit (unat (drop_bit CSD2V1_C_SIZE_MULT_SHIFT (c2 AND CSD2V1_C_SIZE_MULT) + 2)) 1 :: u32);
                        blockSize = (push_bit (unat (drop_bit CSD1VN_READ_BL_LEN_SHIFT (c1 AND CSD1VN_READ_BL_LEN))) 1 :: u32);
                        numBlocks = (ucast csize + 1) * (ucast mult :: u64)
                    in numBlocks * ucast blockSize)
                 else
                   (let csize = ucast (drop_bit CSD2V2_C_SIZE_SHIFT (c2 AND CSD2V2_C_SIZE)) in (csize + 1) * 512 * 1024))
      in d\<lparr>capacity := cap, fileFormat := csd d ! 3 AND CSD3VN_FILE_FORMAT\<rparr>)"

text \<open>The part of \<^verbatim>\<open>sdInit\<close> that finds out what kind of card there is.\<close>

definition sd_identify :: "'d bus \<Rightarrow> ('d sd, u32) cm \<Rightarrow> ('d sd, u32) cm" where
  "sd_identify B k = bind (sdSendCommandA B IX_SEND_IF_COND 0x1AA) (\<lambda>r.
     if r = SD_OK then
       andthen (delay_sd B 50)
       (unless_ok (sdAppSendOpCond B ACMD41_ARG_HC) (sdDebugResponse B)
         (andthen (upd_card (\<lambda>d. d\<lparr>ctype := (if ocr d AND R3_CCS \<noteq> 0 then SD_TYPE_2_HC else SD_TYPE_2_SC)\<rparr>)) k))
     else if r = SD_BUSY then ret r
     else
       bind (get_r B EMMC_STATUS) (\<lambda>v.
         unless_ok (if v AND SR_CMD_INHIBIT \<noteq> 0 then sdResetCard B C1_SRST_HC else ret 0) ret
         (unless_ok (sdAppSendOpCond B ACMD41_ARG_SC) (sdDebugResponse B)
           (andthen (upd_card (\<lambda>d. d\<lparr>ctype := SD_TYPE_1\<rparr>)) k))))"

text \<open>The part behind it: addresses, size, speed, bus width and block length.\<close>

definition sd_configure :: "'d bus \<Rightarrow> u32 list \<Rightarrow> ('d sd, u32) cm" where
  "sd_configure B oldCID =
     unless_ok (sdSendCommand B IX_ALL_SEND_CID) (sdDebugResponse B)
     (unless_ok (sdSendCommand B IX_SEND_REL_ADDR) (sdDebugResponse B)
     (unless_ok (sdSendCommand B IX_SEND_CSD) (sdDebugResponse B)
     (andthen (upd_card sdParseCSD)
     (bind get_card (\<lambda>c.
        if fileFormat c \<noteq> CSD3VN_FILE_FORMAT_DOSFAT \<and> fileFormat c \<noteq> CSD3VN_FILE_FORMAT_HDD then ret SD_ERROR
        else
          unless_ok (sdSetClock B FREQ_NORMAL) (sdDebugResponse B)
          (unless_ok (sdSendCommand B IX_CARD_SELECT) (sdDebugResponse B)
          (unless_ok (sdReadSCR B) (sdDebugResponse B)
          (bind get_card (\<lambda>c.
             unless_ok (if support c AND SD_SUPP_BUS_WIDTH_4 \<noteq> 0 then
                 unless_ok (sdSendCommandA B IX_SET_BUS_WIDTH (rca c OR 2)) (sdDebugResponse B)
                   (andthen (mod_r B EMMC_CONTROL0 (\<lambda>v. v OR C0_HCTL_DWITDH)) (ret 0))
               else ret 0) ret
             (unless_ok (sdSendCommandA B IX_SET_BLOCKLEN 512) (sdDebugResponse B)
             (andthen (upd_card (\<lambda>d. d\<lparr>inited := True\<rparr>))
             (bind get_card (\<lambda>c. ret (if oldCID = cid c then SD_CARD_REINSERTED else SD_CARD_CHANGED))))))))))))))"

text \<open>
  \<^verbatim>\<open>sdInit\<close>. \<^verbatim>\<open>cardAbsent\<close> is the constant 0, and \<^verbatim>\<open>sdSwitchVoltage\<close> only prints. \<^verbatim>\<open>sdParseCID\<close> only prints what is in the CID.
\<close>

definition sdInit :: "'d bus \<Rightarrow> ('d sd, u32) cm" where
  "sdInit B = bind get_card (\<lambda>c0.
     andthen (if \<not> inited c0 then sdInitGPIO B else ret ())
     (bind (get_r B GPEDS1) (\<lambda>cardEjected.
        andthen (upd_card (\<lambda>d. d\<lparr>absent := False\<rparr>))
        (if inited c0 \<and> cardEjected AND push_bit (47 - 32) 1 = 0 then ret SD_OK
         else
           andthen (upd_card (\<lambda>d. d\<lparr>inited := False\<rparr>))
           (bind (get_r B EMMC_SLOTISR_VER) (\<lambda>v.
              andthen (modify (\<lambda>s. s\<lparr>sdHostVer := drop_bit HOST_SPEC_NUM_SHIFT (v AND HOST_SPEC_NUM)\<rparr>))
              (unless_ok (sdGetBaseClock B) ret
              (unless_ok (sdResetCard B C1_SRST_HC) ret
                (sd_identify B (sd_configure B (if inited c0 then cid c0 else [0, 0, 0, 0])))))))))))"

section \<open>The frequency\<close>

text \<open>
  The divisor that a host controller reads from bits 6 to 15 of \<^verbatim>\<open>CONTROL1\<close>: the low eight bits come first, the upper two are
  in bits 6 and 7. The clock of the card is the base clock divided by twice this number.
\<close>

definition clock_field :: "u32 \<Rightarrow> u32" where
  "clock_field v = (drop_bit 8 v AND 0xff) OR push_bit 2 (v AND 0xc0)"

lemma field_masks: "(0xff :: u32) = mask 8" "(0x300 :: u32) = push_bit 8 (mask 2)" "(0xc0 :: u32) = push_bit 6 (mask 2)"
  by (simp_all add: mask_eq_exp_minus_1 push_bit_eq_mult)

lemma split_divisor: "push_bit 8 (d AND 0xff) + drop_bit 2 (d AND 0x300) = (push_bit 8 (d AND 0xff) OR drop_bit 2 (d AND 0x300) :: u32)"
  unfolding field_masks by (rule disjunctive_add) (auto simp: bit_simps)

lemma clock_field_split:
  assumes "d < 0x400"
  shows "clock_field (push_bit 8 (d AND 0xff) OR drop_bit 2 (d AND 0x300)) = d"
proof (rule bit_word_eqI)
  fix n
  assume "n < LENGTH(32)"
  have "take_bit 10 d = d" using assms
    by (simp add: word_unat_eq_iff unsigned_take_bit_eq take_bit_nat_eq_self_iff word_less_nat_alt)
  then have "bit d n \<Longrightarrow> n < 10" by (metis bit_take_bit_iff)
  moreover have "8 \<le> n \<Longrightarrow> Suc (Suc (n - 2)) = n" by simp
  ultimately show "bit (clock_field (push_bit 8 (d AND 0xff) OR drop_bit 2 (d AND 0x300))) n \<longleftrightarrow> bit d n"
    unfolding clock_field_def field_masks by (cases "8 \<le> n") (auto simp: bit_simps)
qed

lemma divisor_large: "unat (clock_divisor ver freq) = max 2 (41666666 div unat freq)" if "ver > HOST_SPEC_V2"
  using that by (auto simp: clock_divisor_def Let_def unat_div max_def word_le_nat_alt)

lemma divider_large: "ver > HOST_SPEC_V2 \<Longrightarrow>
  sdGetClockDivider ver freq = push_bit 8 (clock_divisor ver freq AND 0xff) OR drop_bit 2 (clock_divisor ver freq AND 0x300)"
  unfolding sdGetClockDivider_def Let_def by (simp only: split_divisor if_True)

lemma divider_small: "ver \<le> HOST_SPEC_V2 \<Longrightarrow> sdGetClockDivider ver FREQ_SETUP = 0x4000"
  "ver \<le> HOST_SPEC_V2 \<Longrightarrow> sdGetClockDivider ver FREQ_NORMAL = 0x0200"
  by (simp_all add: sdGetClockDivider_def clock_divisor_def Let_def FREQ_SETUP_def FREQ_NORMAL_def fls_long_def not_less [symmetric])

lemma divider_in_field: "ver > HOST_SPEC_V2 \<Longrightarrow> sdGetClockDivider ver freq AND 0xffff003f = 0"
proof -
  have m: "(0xffff003f :: u32) = NOT (push_bit 6 (mask 10))" by (simp add: mask_eq_exp_minus_1 push_bit_eq_mult)
  show "ver > HOST_SPEC_V2 \<Longrightarrow> sdGetClockDivider ver freq AND 0xffff003f = 0"
    unfolding divider_large field_masks m by (rule bit_word_eqI) (auto simp: bit_simps)
qed

lemma divisor_bounds:
  assumes "40731 \<le> f"
  shows "max 2 (41666666 div f) < (0x400 :: nat)" "41666666 div (2 * max 2 (41666666 div f)) \<le> (f :: nat)"
proof -
  let ?q = "41666666 div f"
  have "?q \<le> 41666666 div 40731" using assms by (rule div_le_mono2 [rotated]) simp
  then show "max 2 ?q < 0x400" by simp
  have "41666666 < Suc ?q * f" using assms by (simp add: dividend_less_div_times)
  also have "\<dots> \<le> (2 * max 2 ?q) * f" by (rule mult_le_mono1) simp
  also have "\<dots> = f * (2 * max 2 ?q)" by (rule mult.commute)
  finally show "41666666 div (2 * max 2 ?q) \<le> f" by (intro less_imp_le less_mult_imp_div_less)
qed

section \<open>Claims\<close>

text \<open>
  C32. The clock divider keeps the card at or below the frequency that is asked for: for hosts of version 3 at every frequency from 40731 Hz,
  and for older hosts at the two frequencies the driver uses. The divisor fits the ten bits of its field and is at least 2, and nothing outside the
  field is set.
\<close>

theorem sd_clock_within:
  assumes "ver > HOST_SPEC_V2 \<and> freq \<ge> 40731 \<or> freq = FREQ_SETUP \<or> freq = FREQ_NORMAL"
  shows "2 \<le> clock_field (sdGetClockDivider ver freq) \<and>
    41666666 div (2 * unat (clock_field (sdGetClockDivider ver freq))) \<le> unat freq \<and>
    sdGetClockDivider ver freq AND 0xffff003f = 0"
proof (cases "ver > HOST_SPEC_V2")
  case True
  have "40731 \<le> freq" using assms by (auto simp: FREQ_SETUP_def FREQ_NORMAL_def)
  then have b: "unat (clock_divisor ver freq) < 0x400" "41666666 div (2 * unat (clock_divisor ver freq)) \<le> unat freq"
    using divisor_bounds [of "unat freq"] by (simp_all add: divisor_large [OF True] word_le_nat_alt)
  have "clock_field (sdGetClockDivider ver freq) = clock_divisor ver freq"
    unfolding divider_large [OF True] using b(1) by (intro clock_field_split) (simp add: word_less_nat_alt)
  then show ?thesis using b(2) divider_in_field [OF True] by (simp add: word_le_nat_alt divisor_large [OF True])
next
  case False
  then have "ver \<le> HOST_SPEC_V2" by simp
  note small = divider_small [OF this]
  from assms False consider "freq = FREQ_SETUP" | "freq = FREQ_NORMAL" by blast
  then show ?thesis
    by cases (simp_all add: small clock_field_def, simp_all add: FREQ_SETUP_def FREQ_NORMAL_def)
qed

theorem sd_clock_within_witness:
  "sdGetClockDivider 2 400000 = 0x6800 \<and> 41666666 div (2 * unat (clock_field (sdGetClockDivider 2 400000))) \<le> (400000 :: nat)"
  using sd_clock_within [of 2 400000]
  by (simp add: HOST_SPEC_V2_def sdGetClockDivider_def clock_divisor_def Let_def)

end
