(* ===== verification/SdDriver.thy ===== *)
theory SdDriver
  imports BufQueue SdCard DiskFormat
begin

text \<open>
  Requests to the SD card (\<^verbatim>\<open>sdrw\<close>, \<^verbatim>\<open>sd_intr\<close> and \<^verbatim>\<open>sd_start\<close> in \<^verbatim>\<open>src/driver/sd.c\<close>): a process puts its buffer into the queue and
  sleeps, the interrupt handler completes the first buffer, wakes its process and starts the next one. Every piece of code
  here runs with \<^verbatim>\<open>qlock\<close> held, from the point where it is acquired to the sleep or the release; so these pieces are the steps
  that processes and interrupts interleave. A request is named by its buffer. That \<^verbatim>\<open>data\<close> is aligned is a matter of the
  layout of \<^verbatim>\<open>struct buf\<close> and not modelled.
\<close>

unbundle bit_operations_syntax

section \<open>The driver\<close>

record ('p, 'd) drv =
  sds :: "'d sd"
  sdque :: "'p qheap"

definition on_sd :: "('d sd, 'a) cm \<Rightarrow> (('p, 'd) drv, 'a) cm" where
  "on_sd m = (\<lambda>s. case m (sds s) of Inl e \<Rightarrow> Inl e | Inr (a, t) \<Rightarrow> Inr (a, s\<lparr>sds := t\<rparr>))"

definition on_q :: "('p qheap \<Rightarrow> fault + 'p qheap) \<Rightarrow> (('p, 'd) drv, unit) cm" where
  "on_q f = (\<lambda>s. case f (sdque s) of Inl e \<Rightarrow> Inl e | Inr t \<Rightarrow> Inr ((), s\<lparr>sdque := t\<rparr>))"

definition front_buf :: "(('p, 'd) drv, 'p) cm" where
  "front_buf = (\<lambda>s. case front (sdque s) of Inl e \<Rightarrow> Inl e | Inr None \<Rightarrow> Inl BadAccess | Inr (Some b) \<Rightarrow> Inr (b, s))"

definition get_buf :: "'p \<Rightarrow> (('p, 'd) drv, 'p buf) cm" where
  "get_buf b = gets (\<lambda>s. fst (sdque s) b)"

definition upd_buf :: "'p \<Rightarrow> ('p buf \<Rightarrow> 'p buf) \<Rightarrow> (('p, 'd) drv, unit) cm" where
  "upd_buf b f = modify (\<lambda>s. s\<lparr>sdque := ((fst (sdque s))(b := f (fst (sdque s) b)), snd (sdque s))\<rparr>)"

text \<open>The 128 words of a block, in and out of the data register.\<close>

definition data_words :: "u8 list \<Rightarrow> u32 list" where
  "data_words bs = map (\<lambda>i. of_le (take 4 (drop (4 * i) bs))) [0..<128]"

fun write_words :: "'d bus \<Rightarrow> u32 list \<Rightarrow> ('d sd, unit) cm" where
  "write_words B [] = ret ()"
| "write_words B (w # ws) = andthen (put_r B EMMC_DATA w) (write_words B ws)"

fun read_words :: "'d bus \<Rightarrow> nat \<Rightarrow> ('d sd, u32 list) cm" where
  "read_words B 0 = ret []"
| "read_words B (Suc n) = bind (get_r B EMMC_DATA) (\<lambda>w. bind (read_words B n) (\<lambda>ws. ret (w # ws)))"

definition no_interrupt :: "'d bus \<Rightarrow> string \<Rightarrow> ('d sd, unit) cm" where
  "no_interrupt B msg = bind (get_r B EMMC_INTERRUPT) (\<lambda>v.
     if v \<noteq> 0 then andthen (read_all B [EMMC_INTERRUPT]) (fail (Panic msg)) else ret ())"

definition sd_start :: "'d bus \<Rightarrow> 'p buf \<Rightarrow> ('d sd, unit) cm" where
  "sd_start B b = bind get_card (\<lambda>c.
     (let bno = (if ctype c = SD_TYPE_2_HC then blockno b else push_bit 9 (blockno b));
          writes = flags b AND B_DIRTY \<noteq> 0
      in andthen (no_interrupt B ''emmc interrupt flag should be empty: 0x%x. '')
         (andthen (put_r B EMMC_BLKSIZECNT 512)
         (bind (sdSendCommandA B (if writes then IX_WRITE_SINGLE else IX_READ_SINGLE) bno) (\<lambda>r.
            if r \<noteq> 0 then fail (Panic ''* EMMC send command error.'')
            else if writes then
              bind (sdWaitForInterrupt B INT_WRITE_RDY) (\<lambda>r.
                if r \<noteq> 0 then fail (Panic ''* EMMC ERROR: Timeout waiting for ready to write'')
                else andthen (no_interrupt B ''%d '') (write_words B (data_words (bdata b))))
            else ret ())))))"

definition start_front :: "'d bus \<Rightarrow> (('p, 'd) drv, unit) cm" where
  "start_front B = bind front_buf (\<lambda>b. bind (get_buf b) (\<lambda>x. on_sd (sd_start B x)))"

text \<open>\<^verbatim>\<open>sdrw\<close> up to its first test of the flags, and the test: whether the call returns or the process sleeps.\<close>

definition sdrw_check :: "'p \<Rightarrow> (('p, 'd) drv, bool) cm" where
  "sdrw_check b = bind (get_buf b) (\<lambda>x. ret (flags x = B_VALID))"

definition sdrw_call :: "'d bus \<Rightarrow> 'p \<Rightarrow> (('p, 'd) drv, bool) cm" where
  "sdrw_call B b = bind (gets (\<lambda>s. empty_q (sdque s))) (\<lambda>e.
     andthen (on_q (\<lambda>q. push q b))
     (andthen (if e then start_front B else ret ())
       (sdrw_check b)))"

text \<open>\<^verbatim>\<open>sd_intr\<close>, with the buffer whose process is woken: reading the data of the block, completing the request, and the whole.\<close>

definition fetch :: "'d bus \<Rightarrow> 'p \<Rightarrow> (('p, 'd) drv, unit) cm" where
  "fetch B b = bind (on_sd (read_words B 128)) (\<lambda>ws.
     andthen (upd_buf b (\<lambda>x. x\<lparr>bdata := concat (map (to_le 4) ws)\<rparr>))
       (andthen (on_sd (sdWaitForInterrupt B INT_DATA_DONE)) (ret ())))"

definition sd_complete :: "'d bus \<Rightarrow> 'p \<Rightarrow> (('p, 'd) drv, unit) cm" where
  "sd_complete B b =
     andthen (upd_buf b (\<lambda>x. x\<lparr>flags := B_VALID\<rparr>))
     (andthen (on_q pop)
     (bind (gets (\<lambda>s. empty_q (sdque s))) (\<lambda>e. if \<not> e then start_front B else ret ())))"

definition sd_serve :: "'d bus \<Rightarrow> u32 \<Rightarrow> 'p \<Rightarrow> (('p, 'd) drv, 'p option) cm" where
  "sd_serve B intr bid =
     (if intr \<noteq> INT_READ_RDY \<and> intr \<noteq> INT_DATA_DONE then fail (Panic ''...'')
      else
        bind (get_buf bid) (\<lambda>x.
          (let is_write = flags x AND B_DIRTY \<noteq> 0 in
           if is_write \<and> intr \<noteq> INT_DATA_DONE \<or> \<not> is_write \<and> intr \<noteq> INT_READ_RDY then fail (Panic '',,,'')
           else andthen (if \<not> is_write then fetch B bid else ret ()) (andthen (sd_complete B bid) (ret (Some bid))))))"

definition sd_intr :: "'d bus \<Rightarrow> (('p, 'd) drv, 'p option) cm" where
  "sd_intr B = bind (gets (\<lambda>s. empty_q (sdque s))) (\<lambda>e.
     if e then ret None
     else
       bind (on_sd (get_r B EMMC_INTERRUPT)) (\<lambda>intr.
         andthen (on_sd (put_r B EMMC_INTERRUPT intr)) (bind front_buf (sd_serve B intr))))"

text \<open>\<^verbatim>\<open>sd_init\<close> reads the first block and finds the second partition in it; \<open>mbr\<close> is a buffer of zeros.\<close>

definition sd_init :: "'d bus \<Rightarrow> 'p buf \<Rightarrow> (('p, 'd) drv, u32 \<times> u32) cm" where
  "sd_init B mbr =
     andthen (on_sd (sdInit B))
     (andthen (modify (\<lambda>s. s\<lparr>sdque := initBufQueue (sdque s)\<rparr>))
     (andthen (on_sd (sd_start B mbr))
     (andthen (on_sd (sdWaitForInterrupt B INT_READ_RDY))
     (bind (on_sd (read_words B 128)) (\<lambda>ws.
        andthen (on_sd (sdWaitForInterrupt B INT_DATA_DONE))
          (let d = concat (map (to_le 4) ws) in ret (of_le (take 4 (drop 470 d)), of_le (take 4 (drop 474 d)))))))))"

section \<open>Requests\<close>

datatype rpc = Idle | Asleep | Woken

text \<open>The driver, what every requesting process is doing, and the requests issued and completed so far.\<close>

record ('p, 'd) requests =
  rdrv :: "('p, 'd) drv"
  rpcs :: "'p \<Rightarrow> rpc"
  issued :: "'p list"
  completed :: "'p list"

abbreviation rbuf :: "('p, 'd) requests \<Rightarrow> 'p \<Rightarrow> 'p buf" where
  "rbuf m b \<equiv> fst (sdque (rdrv m)) b"

inductive sdstep :: "'d bus \<Rightarrow> ('p, 'd) requests \<Rightarrow> ('p, 'd) requests \<Rightarrow> bool" for B :: "'d bus" where
  prepare: "rpcs m b = Idle \<Longrightarrow> upd_buf b (\<lambda>x. x\<lparr>flags := f, blockno := n, bdata := ds\<rparr>) (rdrv m) = Inr ((), d) \<Longrightarrow>
    sdstep B m (m\<lparr>rdrv := d\<rparr>)"
| request: "rpcs m b = Idle \<Longrightarrow> flags (rbuf m b) \<noteq> B_VALID \<Longrightarrow> sdrw_call B b (rdrv m) = Inr (r, d) \<Longrightarrow>
    sdstep B m (m\<lparr>rdrv := d, rpcs := (rpcs m)(b := if r then Idle else Asleep), issued := issued m @ [b]\<rparr>)"
| recheck: "rpcs m b = Woken \<Longrightarrow> sdrw_check b (rdrv m) = Inr (r, d) \<Longrightarrow>
    sdstep B m (m\<lparr>rdrv := d, rpcs := (rpcs m)(b := if r then Idle else Asleep)\<rparr>)"
| interrupt: "sd_intr B (rdrv m) = Inr (Some b, d) \<Longrightarrow>
    sdstep B m (m\<lparr>rdrv := d, rpcs := (rpcs m)(b := if rpcs m b = Asleep then Woken else rpcs m b), completed := completed m @ [b]\<rparr>)"
| spurious: "sd_intr B (rdrv m) = Inr (None, d) \<Longrightarrow> sdstep B m (m\<lparr>rdrv := d\<rparr>)"
| device: "sdstep B m (m\<lparr>rdrv := (rdrv m)\<lparr>sds := (sds (rdrv m))\<lparr>dev := e\<rparr>\<rparr>\<rparr>)"

text \<open>The queue is empty and no process has a request.\<close>

definition sd_ready :: "('p, 'd) requests \<Rightarrow> bool" where
  "sd_ready m \<longleftrightarrow> empty_q (sdque (rdrv m)) \<and> (\<forall>b. rpcs m b = Idle) \<and> issued m = [] \<and> completed m = []"

inductive sdreach :: "'d bus \<Rightarrow> ('p, 'd) requests \<Rightarrow> bool" for B :: "'d bus" where
  start: "sd_ready m \<Longrightarrow> sdreach B m"
| move: "sdreach B m \<Longrightarrow> sdstep B m m' \<Longrightarrow> sdreach B m'"

section \<open>No request is lost\<close>

lemma on_sd_InrE:
  assumes "on_sd m s = Inr (a, s')"
  obtains t where "m (sds s) = Inr (a, t)" "s' = s\<lparr>sds := t\<rparr>"
  using assms by (auto simp: on_sd_def split: sum.splits)

lemma on_sd_que: "on_sd m s = Inr (a, s') \<Longrightarrow> sdque s' = sdque s"
  by (auto elim: on_sd_InrE)

lemma push_fields: "push s y = Inr s' \<Longrightarrow> flags (fst s' b) = flags (fst s b)"
  by (auto simp: push_def Let_def split: prod.splits if_splits option.splits)

lemma pop_fields: "pop s = Inr s' \<Longrightarrow> flags (fst s' b) = flags (fst s b)"
  by (auto simp: pop_def split: prod.splits if_splits option.splits)

lemma start_front_que: "start_front B s = Inr (a, s') \<Longrightarrow> sdque s' = sdque s"
  unfolding start_front_def front_buf_def get_buf_def
  by (elim bind_InrE) (auto simp: gets_def dest: on_sd_que split: sum.splits option.splits)

lemma queue_upd:
  "queue_of (h, x) ys \<Longrightarrow> Next (f (h b)) = Next (h b) \<Longrightarrow> queue_of (h(b := f (h b)), x) ys"
  unfolding queue_of_def fst_conv snd_conv by (metis chain_frame fun_upd_apply)

lemma call_queue:
  assumes q: "queue_of (sdque s) ys" "b \<notin> set ys" and c: "sdrw_call B b s = Inr (r, s')"
  shows "queue_of (sdque s') (ys @ [b])" "flags (fst (sdque s') x) = flags (fst (sdque s) x)" "r = (flags (fst (sdque s) b) = B_VALID)"
proof -
  obtain q' where p: "push (sdque s) b = Inr q'" "queue_of q' (ys @ [b])"
    using bq.rep_enq [OF q] by blast
  have "sdque s' = q' \<and> r = (flags (fst q' b) = B_VALID)"
    using c unfolding sdrw_call_def sdrw_check_def get_buf_def andthen_def
    by (elim bind_InrE) (auto simp: on_q_def p(1) gets_def ret_def dest!: start_front_que split: if_splits)
  then show "queue_of (sdque s') (ys @ [b])" "flags (fst (sdque s') x) = flags (fst (sdque s) x)" "r = (flags (fst (sdque s) b) = B_VALID)"
    using p push_fields [OF p(1)] by auto
qed

lemma interrupt_empty: "queue_of (sdque s) [] \<Longrightarrow> sd_intr B s = Inr (None, s)"
  by (simp add: sd_intr_def bq.rep_empty cm_simps)

lemma complete_queue:
  assumes q: "queue_of (sdque s) (y # ys)" and c: "sd_complete B y s = Inr (u, s')"
  shows "queue_of (sdque s') ys" "flags (fst (sdque s') x) = (if x = y then B_VALID else flags (fst (sdque s) x))"
proof -
  obtain h v where s: "sdque s = (h, v)" by (cases "sdque s")
  let ?q = "(h(y := (h y)\<lparr>flags := B_VALID\<rparr>), v)"
  have "queue_of ?q (y # ys)" using q unfolding s by (rule queue_upd) simp
  from bq.rep_deq [OF this] obtain q' where p: "pop ?q = Inr q'" "queue_of q' ys" by (elim exE conjE)
  have "sdque s' = q'"
    using c unfolding sd_complete_def upd_buf_def
    by (elim andthen_InrE bind_InrE) (auto simp: cm_simps on_q_def s p(1) dest!: start_front_que split: if_splits)
  then show "queue_of (sdque s') ys" "flags (fst (sdque s') x) = (if x = y then B_VALID else flags (fst (sdque s) x))"
    using p pop_fields [OF p(1)] s by auto
qed

lemma fetch_queue:
  assumes q: "queue_of (sdque s) ys"
    and c: "fetch B y s = Inr (u, s')"
  shows "queue_of (sdque s') ys" "flags (fst (sdque s') x) = flags (fst (sdque s) x)"
proof -
  obtain h v where s: "sdque s = (h, v)" by (cases "sdque s")
  obtain d where d: "sdque s' = (h(y := (h y)\<lparr>bdata := d\<rparr>), v)"
    using c unfolding fetch_def upd_buf_def
    by (elim bind_InrE andthen_InrE) (auto simp: cm_simps s dest!: on_sd_que)
  show "queue_of (sdque s') ys" using q unfolding s d by (rule queue_upd) simp
  show "flags (fst (sdque s') x) = flags (fst (sdque s) x)" by (simp add: s d)
qed

lemma serve_queue:
  assumes q: "queue_of (sdque s) (y # ys)" and c: "sd_serve B i y s = Inr (r, s')"
  shows "r = Some y" "queue_of (sdque s') ys" "flags (fst (sdque s') x) = (if x = y then B_VALID else flags (fst (sdque s) x))"
proof -
  have "\<exists>s1. queue_of (sdque s1) (y # ys) \<and> flags (fst (sdque s1) x) = flags (fst (sdque s) x) \<and>
      andthen (sd_complete B y) (ret (Some y)) s1 = Inr (r, s')"
  proof -
    obtain w where "andthen (if w then fetch B y else ret ()) (andthen (sd_complete B y) (ret (Some y))) s = Inr (r, s')"
      using c unfolding sd_serve_def get_buf_def Let_def
      by (auto elim!: bind_InrE simp: gets_run fail_run split: if_splits)
    then obtain u s1 where "(if w then fetch B y else ret ()) s = Inr (u, s1)" "andthen (sd_complete B y) (ret (Some y)) s1 = Inr (r, s')"
      by (rule andthen_InrE)
    then show ?thesis using q fetch_queue [OF q] by (intro exI [of _ s1]) (cases w; simp add: ret_run)
  qed
  then obtain s1 where s1: "queue_of (sdque s1) (y # ys)" "flags (fst (sdque s1) x) = flags (fst (sdque s) x)"
    "andthen (sd_complete B y) (ret (Some y)) s1 = Inr (r, s')" by blast
  then have "r = Some y" "sd_complete B y s1 = Inr ((), s')" by (auto elim!: andthen_InrE simp: ret_run)
  then show "r = Some y" "queue_of (sdque s') ys" "flags (fst (sdque s') x) = (if x = y then B_VALID else flags (fst (sdque s) x))"
    using complete_queue [OF s1(1)] s1(2) by auto
qed

lemma interrupt_queue:
  assumes q: "queue_of (sdque s) (y # ys)" and c: "sd_intr B s = Inr (r, s')"
  shows "r = Some y" "queue_of (sdque s') ys" "flags (fst (sdque s') x) = (if x = y then B_VALID else flags (fst (sdque s) x))"
proof -
  obtain i e s0 s2 where s0: "sdque s0 = sdque s" and f: "front_buf s0 = Inr (e, s2)" and v: "sd_serve B i e s2 = Inr (r, s')"
    using c q unfolding sd_intr_def
    by (elim bind_InrE) (auto simp: gets_run bq.rep_empty elim!: bind_InrE andthen_InrE dest!: on_sd_que)
  have e: "e = y" "s2 = s0" using f bq.rep_first [OF q] by (simp_all add: front_buf_def s0)
  note serve = serve_queue [OF q [folded s0] v [unfolded e], unfolded s0]
  show "r = Some y" "queue_of (sdque s') ys" "flags (fst (sdque s') x) = (if x = y then B_VALID else flags (fst (sdque s) x))"
    by (fact serve)+
qed

lemma interrupt_first:
  assumes "queue_of (sdque s) ys" "sd_intr B s = Inr (r, d)"
  shows "r = (case ys of [] \<Rightarrow> None | y # zs \<Rightarrow> Some y) \<and> queue_of (sdque d) (tl ys)"
proof (cases ys)
  case Nil
  then show ?thesis using assms interrupt_empty [of s B] by simp
next
  case (Cons y zs)
  then show ?thesis using interrupt_queue(1, 2) [of s y zs B r d] assms by simp
qed

lemma sdrw_valid_stays_queued:
  assumes "queue_of (sdque s) ys" "b \<notin> set ys" "flags (fst (sdque s) b) = B_VALID" "sdrw_call B b s = Inr (r, s')"
  shows "r \<and> queue_of (sdque s') (ys @ [b])"
  using call_queue [OF assms(1, 2, 4)] assms(3) by simp

text \<open>The queue holds the buffers of the sleeping processes, and a process that was woken finds its request done.\<close>

definition requests_ok :: "('p, 'd) requests \<Rightarrow> bool" where
  "requests_ok m \<longleftrightarrow> (\<exists>ys. queue_of (sdque (rdrv m)) ys \<and> issued m = completed m @ ys \<and>
     (\<forall>b. rpcs m b = Asleep \<longleftrightarrow> b \<in> set ys) \<and> (\<forall>b \<in> set ys. flags (rbuf m b) \<noteq> B_VALID) \<and>
     (\<forall>b. rpcs m b = Woken \<longrightarrow> flags (rbuf m b) = B_VALID))"

lemma requests_okI:
  assumes "queue_of (sdque (rdrv m)) ys" "issued m = completed m @ ys" "\<And>b. rpcs m b = Asleep \<longleftrightarrow> b \<in> set ys"
    "\<And>b. b \<in> set ys \<Longrightarrow> flags (rbuf m b) \<noteq> B_VALID" "\<And>b. rpcs m b = Woken \<Longrightarrow> flags (rbuf m b) = B_VALID"
  shows "requests_ok m"
  using assms unfolding requests_ok_def by blast

lemma step_ok:
  assumes "sdstep B m m'" "requests_ok m"
  shows "requests_ok m'"
proof -
  obtain ys where q: "queue_of (sdque (rdrv m)) ys" and ys: "issued m = completed m @ ys"
    "\<And>b. rpcs m b = Asleep \<longleftrightarrow> b \<in> set ys" "\<And>b. b \<in> set ys \<Longrightarrow> flags (rbuf m b) \<noteq> B_VALID"
    "\<And>b. rpcs m b = Woken \<Longrightarrow> flags (rbuf m b) = B_VALID"
    using assms(2) unfolding requests_ok_def by blast
  from assms(1) show ?thesis
  proof cases
    case (prepare b ds n f d)
    obtain h v where s: "sdque (rdrv m) = (h, v)" by (cases "sdque (rdrv m)")
    have d: "sdque d = (h(b := (h b)\<lparr>flags := f, blockno := n, bdata := ds\<rparr>), v)"
      using prepare(3) by (auto simp: upd_buf_def modify_run s)
    have "b \<notin> set ys" using prepare(2) ys(2) [of b] by simp
    moreover have "queue_of (sdque d) ys" using q unfolding s d by (rule queue_upd) simp
    ultimately show ?thesis using prepare(1, 2) ys by (intro requests_okI [of _ ys]) (auto simp: d s)
  next
    case (request b r d)
    then have "b \<notin> set ys" using ys(2) [of b] by simp
    from call_queue [OF q this request(4)] show ?thesis
      using request(1 - 3) ys by (intro requests_okI [of _ "ys @ [b]"]) (auto split: if_splits)
  next
    case (recheck b r d)
    then have "d = rdrv m" "r" using ys(4) [of b] by (auto simp: sdrw_check_def get_buf_def cm_simps)
    then show ?thesis using recheck(1, 2) q ys by (intro requests_okI [of _ ys]) (auto split: if_splits)
  next
    case (interrupt b d)
    then obtain zs where zs: "ys = b # zs"
      using interrupt_empty [of "rdrv m" B] interrupt_queue(1) [of "rdrv m"] q by (cases ys) fastforce+
    note i = interrupt_queue [OF q [unfolded zs] interrupt(2)]
    have "b \<notin> set zs" using q zs by (simp add: queue_of_def)
    then show ?thesis using interrupt(1) i ys zs by (intro requests_okI [of _ zs]) (auto split: if_splits)
  next
    case (spurious d)
    then have "ys = []" using interrupt_queue(1) [of "rdrv m"] q by (cases ys) fastforce+
    then show ?thesis using spurious interrupt_empty [of "rdrv m" B] q ys by (intro requests_okI [of _ ys]) auto
  next
    case (device e)
    then show ?thesis using q ys by (intro requests_okI [of _ ys]) auto
  qed
qed

lemma reach_ok: "sdreach B m \<Longrightarrow> requests_ok m"
proof (induction rule: sdreach.induct)
  case (start m)
  then show ?case by (intro requests_okI [of _ "[]"]) (auto simp: sd_ready_def queue_of_def empty_q_def)
qed (rule step_ok)

section \<open>Claims\<close>

text \<open>
  C8. Requests to the card are served in the order in which they are made, and no wakeup is lost. However calls of \<^verbatim>\<open>sdrw\<close>, interrupts
  and changes of the device interleave, the requests made so far are those completed followed by those in the queue; a process
  sleeps in \<^verbatim>\<open>sdrw\<close> exactly while its buffer is in the queue; a process that was woken finds its buffer valid and returns;
  and when there is a request in the queue, an interrupt that is handled completes the first one. The buffers of the calls are not valid
  when they are made.
\<close>

theorem sd_requests_in_order:
  assumes "sdreach B m"
  shows "\<exists>ys. queue_of (sdque (rdrv m)) ys \<and> issued m = completed m @ ys \<and>
    (\<forall>b. rpcs m b = Asleep \<longleftrightarrow> b \<in> set ys) \<and>
    (\<forall>b. rpcs m b = Woken \<longrightarrow> sdrw_check b (rdrv m) = Inr (True, rdrv m)) \<and>
    (\<forall>r d. sd_intr B (rdrv m) = Inr (r, d) \<longrightarrow>
       r = (case ys of [] \<Rightarrow> None | y # zs \<Rightarrow> Some y) \<and> queue_of (sdque d) (tl ys))"
proof -
  obtain ys where ys: "queue_of (sdque (rdrv m)) ys" "issued m = completed m @ ys" "\<forall>b. rpcs m b = Asleep \<longleftrightarrow> b \<in> set ys"
    "\<forall>b. rpcs m b = Woken \<longrightarrow> flags (rbuf m b) = B_VALID"
    using reach_ok [OF assms] unfolding requests_ok_def by blast
  show ?thesis using ys interrupt_first [OF ys(1)] by (intro exI [of _ ys]) (auto simp: sdrw_check_def get_buf_def cm_simps)
qed

text \<open>A card that answers every command at once and has only zeros; its state is the interrupt register.\<close>

definition zero_bus :: "u32 bus" where
  "zero_bus = \<lparr>rd = (\<lambda>r d. if r = EMMC_INTERRUPT then (d, d) else if r = EMMC_DATA then (0, d OR INT_DATA_DONE) else (0, d)),
     wr = (\<lambda>r v d. if r = EMMC_INTERRUPT then d AND NOT v else if r = EMMC_CMDTM then d OR INT_CMD_DONE else d),
     delayus = (\<lambda>_ d. d), delay = (\<lambda>_ d. d), clock_rate = (\<lambda>d. (50000000, d))\<rparr>"

definition no_card :: SDDescriptor where
  "no_card = \<lparr>capacity = 0, cid = [0, 0, 0, 0], csd = [0, 0, 0, 0], scr = [0, 0], ocr = 0, support = 0, fileFormat = 0,
     ctype = SD_TYPE_2_HC, uhsi = 0, inited = True, absent = False, rca = 0, cardState = 0, cstatus = 0, lastCmd = None, lastArg = 0\<rparr>"

definition one_request :: "(nat, u32) requests" where
  "one_request = \<lparr>rdrv = \<lparr>sds = \<lparr>dev = 0, sdCard = no_card, sdHostVer = 2, sdBaseClock = 0\<rparr>,
       sdque = initBufQueue (\<lambda>_. \<lparr>flags = 0, blockno = 5, bdata = [], Prev = None, Next = None\<rparr>, \<lparr>qbegin = None, qend = None, qsz = 0\<rparr>)\<rparr>,
     rpcs = (\<lambda>_. Idle), issued = [], completed = []\<rparr>"

lemma poll_done: "c s = Inr (False, s') \<Longrightarrow> poll c w n s = Inr (int n, s')"
  by (cases n) (simp_all add: cm_simps)

lemma zero_regs:
  "get_r zero_bus EMMC_INTERRUPT s = Inr (dev s, s)"
  "r \<noteq> EMMC_INTERRUPT \<Longrightarrow> r \<noteq> EMMC_DATA \<Longrightarrow> get_r zero_bus r s = Inr (0, s)"
  "get_r zero_bus EMMC_DATA s = Inr (0, s\<lparr>dev := dev s OR INT_DATA_DONE\<rparr>)"
  "put_r zero_bus r v s = Inr ((), s\<lparr>dev := if r = EMMC_INTERRUPT then dev s AND NOT v else if r = EMMC_CMDTM then dev s OR INT_CMD_DONE else dev s\<rparr>)"
  by (simp_all add: get_r_def put_r_def zero_bus_def modify_run)

lemma zero_wait_interrupt:
  assumes "dev s = k" "k = INT_CMD_DONE \<or> k = INT_DATA_DONE"
  shows "sdWaitForInterrupt zero_bus k s = Inr (SD_OK, s\<lparr>dev := 0\<rparr>)"
proof -
  have k: "k \<noteq> 0" "k AND INT_CMD_TIMEOUT = 0" "k AND INT_DATA_TIMEOUT = 0" "k AND INT_ERROR_MASK = 0"
    using assms(2) by (auto simp: INT_CMD_DONE_def INT_DATA_DONE_def INT_ERROR_MASK_def INT_CMD_TIMEOUT_def INT_DATA_TIMEOUT_def
      INT_CRC_ERROR_def INT_END_ERROR_def INT_INDEX_ERROR_def INT_DATA_CRC_ERR_def INT_DATA_END_ERR_def INT_ERR_def INT_AUTO_ERROR_def)
  have "poll (bind (get_r zero_bus EMMC_INTERRUPT) (\<lambda>v. ret (v AND (k OR INT_ERROR_MASK) = 0))) (sd_delayus zero_bus 1) 1000000 s
      = Inr (int 1000000, s)"
    by (rule poll_done) (simp add: bind_run zero_regs ret_run assms(1) k(1))
  then show ?thesis by (simp add: sdWaitForInterrupt_def bind_run andthen_run ret_run zero_regs assms(1) k)
qed

lemma zero_wait_command: "dev s = 0 \<Longrightarrow> sdWaitForCommand zero_bus s = Inr (SD_OK, s)"
  using poll_done [of "inhibited zero_bus SR_CMD_INHIBIT" s s "sd_delayus zero_bus 1" 1000000]
  by (simp add: sdWaitForCommand_def inhibited_def bind_run ret_run zero_regs)

lemma zero_read: "\<exists>t. sdSendCommandA zero_bus IX_READ_SINGLE n s = Inr (0, t) \<and> dev t = 0" if "dev s = 0"
  using that
  by (simp add: sdSendCommandA_def send_with_def sdCommandTable_def sdSendCommandP_def
    cm_simps get_card_def upd_card_def mod_r_def zero_regs zero_wait_command zero_wait_interrupt handle_resp_def
    SD_OK_def)

lemma zero_start:
  assumes "dev s = 0" "flags b = 0"
  shows "\<exists>t. sd_start zero_bus b s = Inr ((), t) \<and> dev t = 0"
proof -
  obtain t where "sdSendCommandA zero_bus IX_READ_SINGLE (if ctype (sdCard s) = SD_TYPE_2_HC then blockno b else push_bit 9 (blockno b))
      (s\<lparr>dev := 0\<rparr>) = Inr (0, t)" "dev t = 0"
    using zero_read [of "s\<lparr>dev := 0\<rparr>"] by auto
  then show ?thesis using assms
    by (auto simp: sd_start_def get_card_def Let_def cm_simps no_interrupt_def zero_regs)
qed

lemma zero_words: "read_words zero_bus n s = Inr (replicate n 0, s\<lparr>dev := if n = 0 then dev s else dev s OR INT_DATA_DONE\<rparr>)"
  by (induction n arbitrary: s) (simp_all add: cm_simps zero_regs)

lemma zero_call:
  "\<exists>d. sdrw_call zero_bus 0 (rdrv one_request) = Inr (False, d) \<and> dev (sds d) = 0 \<and> flags (fst (sdque d) 0) = 0"
proof -
  let ?h = "\<lambda>_. \<lparr>flags = 0, blockno = 5, bdata = [], Prev = None, Next = None\<rparr> :: nat buf"
  obtain t where "sd_start zero_bus (?h 0) (sds (rdrv one_request)) = Inr ((), t)" "dev t = 0"
    using zero_start [of "sds (rdrv one_request)" "?h 0"] by (auto simp: one_request_def)
  then show ?thesis
    by (simp add: sdrw_call_def sdrw_check_def cm_simps one_request_def initBufQueue_def empty_q_def on_q_def push_def start_front_def
      front_buf_def front_def get_buf_def on_sd_def B_VALID_def)
qed

lemma zero_interrupt:
  assumes "queue_of (sdque d) [y]" "flags (fst (sdque d) y) = 0" "dev (sds d) = INT_READ_RDY"
  shows "\<exists>d'. sd_intr zero_bus d = Inr (Some y, d')"
proof -
  have q: "qsz (snd (sdque d)) = 1" "qbegin (snd (sdque d)) = Some y" using assms(1) by (simp_all add: queue_of_def)
  have w: "sdWaitForInterrupt zero_bus INT_DATA_DONE ((sds d)\<lparr>dev := INT_DATA_DONE\<rparr>) = Inr (SD_OK, (sds d)\<lparr>dev := 0\<rparr>)"
    by (simp add: zero_wait_interrupt)
  have i: "INT_READ_RDY \<noteq> INT_DATA_DONE" by (simp add: INT_READ_RDY_def INT_DATA_DONE_def)
  show ?thesis
    by (simp add: sd_intr_def cm_simps empty_q_def q on_sd_def zero_regs front_buf_def front_def sd_serve_def get_buf_def assms(2, 3) Let_def
      fetch_def zero_words upd_buf_def w sd_complete_def on_q_def pop_def split_beta i)
qed

theorem sd_requests_in_order_witness:
  "\<exists>m. sdreach zero_bus m \<and> issued m = [0] \<and> completed m = [0] \<and> rpcs m (0 :: nat) = Woken \<and>
     queue_of (sdque (rdrv m)) [] \<and> sdrw_check 0 (rdrv m) = Inr (True, rdrv m)"
proof -
  have r: "sdreach zero_bus one_request"
    by (rule sdreach.start) (simp add: sd_ready_def one_request_def initBufQueue_def empty_q_def)
  obtain d where d: "sdrw_call zero_bus 0 (rdrv one_request) = Inr (False, d)" "flags (fst (sdque d) 0) = 0"
    using zero_call by blast
  have "flags (rbuf one_request 0) \<noteq> B_VALID" by (simp add: one_request_def initBufQueue_def B_VALID_def)
  with sdreach.move [OF r sdstep.request [OF _ _ d(1)]]
  have r1: "sdreach zero_bus (one_request\<lparr>rdrv := d, rpcs := (\<lambda>_. Idle)(0 := Asleep), issued := [0]\<rparr>)" by (simp add: one_request_def)
  let ?d = "d\<lparr>sds := (sds d)\<lparr>dev := INT_READ_RDY\<rparr>\<rparr>"
  have "queue_of (sdque (rdrv one_request)) []" using queue_init by (simp add: one_request_def)
  with d(1) have q: "queue_of (sdque d) [0]" using call_queue(1) by fastforce
  obtain d' where "sd_intr zero_bus ?d = Inr (Some 0, d')" using zero_interrupt [of ?d 0] q d(2) by auto
  with sdreach.move [OF sdreach.move [OF r1 sdstep.device [of _ _ INT_READ_RDY]] sdstep.interrupt]
  have "sdreach zero_bus (one_request\<lparr>rdrv := d', rpcs := (\<lambda>_. Idle)(0 := Woken), issued := [0], completed := [0]\<rparr>)" (is "sdreach _ ?m")
    by (simp add: one_request_def)
  from this sd_requests_in_order [OF this] show ?thesis by (intro exI [of _ ?m]) simp
qed

end
