(* ===== verification/MkFs.thy ===== *)
theory MkFs
  imports InodeCache VirtMem
begin

text \<open>
  The program that builds the initial file system (\<^verbatim>\<open>src/user/mkfs/main.c\<close>). The image is the list of its blocks; a failed seek, read
  or write ends the program, here with a fault. What \<^verbatim>\<open>read\<close> returns for an input file is a list of chunks, and
  \<open>None\<close> stands for a file that cannot be opened. The conversions to little-endian are those of \<open>DiskFormat\<close>.
  The theorems say that the image holds the files, and that the file system of the kernel can start from it.
\<close>

section \<open>The layout\<close>

definition FSSIZE :: nat where "FSSIZE = 1000"

definition NINODES :: nat where "NINODES = 200"

definition nbitmap :: nat where "nbitmap = FSSIZE div (BLOCK_SIZE * 8) + 1"

definition ninodeblocks :: nat where "ninodeblocks = NINODES div INODE_PER_BLOCK + 1"

definition nmeta :: nat where "nmeta = 2 + LOG_MAX_SIZE + ninodeblocks + nbitmap"

definition mkfs_sb :: SuperBlock where
  "mkfs_sb = \<lparr>num_blocks = of_nat FSSIZE, num_data_blocks = of_nat (FSSIZE - nmeta), num_inodes = of_nat NINODES,
     num_log_blocks = of_nat LOG_MAX_SIZE, log_start = 2, inode_start = of_nat (2 + LOG_MAX_SIZE),
     bitmap_start = of_nat (2 + LOG_MAX_SIZE + ninodeblocks)\<rparr>"

definition sb_bytes :: "SuperBlock \<Rightarrow> u8 list" where
  "sb_bytes sb = concat (map (to_le 4) [num_blocks sb, num_data_blocks sb, num_inodes sb, num_log_blocks sb, log_start sb,
     inode_start sb, bitmap_start sb])"

lemmas mkfs_sizes = FSSIZE_def NINODES_def nbitmap_def ninodeblocks_def nmeta_def LOG_MAX_SIZE_def fs_sizes

section \<open>The program\<close>

record mkfs =
  image :: "u8 list list"
  freeinode :: u32
  freeblock :: u32

definition zeroes :: "u8 list" where "zeroes = replicate BLOCK_SIZE 0"

text \<open>The offset of a sector in the file is an unsigned product. Writing behind the last block leaves zeros in between.\<close>

definition sect :: "u32 \<Rightarrow> nat" where
  "sect sec = unat (sec * of_nat BLOCK_SIZE) div BLOCK_SIZE"

definition wsect :: "u32 \<Rightarrow> u8 list \<Rightarrow> (mkfs, unit) cm" where
  "wsect sec buf = modify (\<lambda>m. m\<lparr>image := (if sect sec < length (image m) then (image m)[sect sec := buf]
     else image m @ replicate (sect sec - length (image m)) zeroes @ [buf])\<rparr>)"

definition rsect :: "u32 \<Rightarrow> (mkfs, u8 list) cm" where
  "rsect sec = andthen (guard_cm (Panic ''read'') (\<lambda>m. sect sec < length (image m))) (gets (\<lambda>m. image m ! sect sec))"

definition IBLOCK :: "u32 \<Rightarrow> u32" where
  "IBLOCK i = i div of_nat INODE_PER_BLOCK + inode_start mkfs_sb"

definition winode :: "u32 \<Rightarrow> InodeEntry \<Rightarrow> (mkfs, unit) cm" where
  "winode inum e = bind (rsect (IBLOCK inum)) (\<lambda>buf. wsect (IBLOCK inum) (put_entry (ucast inum) e buf))"

definition rinode :: "u32 \<Rightarrow> (mkfs, InodeEntry) cm" where
  "rinode inum = bind (rsect (IBLOCK inum)) (\<lambda>buf. ret (get_entry buf (ucast inum)))"

definition mk_ialloc :: "u16 \<Rightarrow> (mkfs, u32) cm" where
  "mk_ialloc ty = bind (gets freeinode) (\<lambda>inum.
     andthen (modify (\<lambda>m. m\<lparr>freeinode := inum + 1\<rparr>))
     (andthen (winode inum (zero_entry\<lparr>itype := ty, num_links := 1, num_bytes := 0\<rparr>))
       (ret inum)))"

definition balloc :: "nat \<Rightarrow> (mkfs, unit) cm" where
  "balloc cnt = andthen (assert_cm (\<lambda>_. cnt < BLOCK_SIZE * 8))
     (wsect (bitmap_start mkfs_sb) (foldl cell_set zeroes [0..<cnt]))"

definition new_block :: "(mkfs, u32) cm" where
  "new_block = bind (gets freeblock) (\<lambda>b. andthen (modify (\<lambda>m. m\<lparr>freeblock := b + 1\<rparr>)) (ret b))"

text \<open>The block of \<^verbatim>\<open>iappend\<close> for number \<open>fbn\<close> of a file, with the entry as it is then.\<close>

definition block_for :: "InodeEntry \<Rightarrow> nat \<Rightarrow> (mkfs, u32 \<times> InodeEntry) cm" where
  "block_for e fbn =
     (if fbn < INODE_NUM_DIRECT then
        if addrs e ! fbn = 0 then bind new_block (\<lambda>b. ret (b, e\<lparr>addrs := (addrs e)[fbn := b]\<rparr>))
        else ret (addrs e ! fbn, e)
      else
        bind (if indirect e = 0 then bind new_block (\<lambda>b. ret (e\<lparr>indirect := b\<rparr>)) else ret e) (\<lambda>e.
        bind (rsect (indirect e)) (\<lambda>d.
          if get_addr d (fbn - INODE_NUM_DIRECT) = 0 then
            bind new_block (\<lambda>b. andthen (wsect (indirect e) (put_addr (fbn - INODE_NUM_DIRECT) b d)) (ret (b, e)))
          else ret (get_addr d (fbn - INODE_NUM_DIRECT), e))))"

function append_loop :: "InodeEntry \<Rightarrow> nat \<Rightarrow> u8 list \<Rightarrow> (mkfs, nat \<times> InodeEntry) cm" where
  "append_loop e off src =
     (if src = [] then ret (off, e)
      else
        andthen (assert_cm (\<lambda>_. off div BLOCK_SIZE < INODE_MAX_BLOCKS))
        (bind (block_for e (off div BLOCK_SIZE)) (\<lambda>(x, e).
         bind (rsect x) (\<lambda>buf.
           andthen (wsect x (patch (off mod BLOCK_SIZE) (take (chunk off (length src)) src) buf))
             (append_loop e (off + chunk off (length src)) (drop (chunk off (length src)) src))))))"
  by pat_completeness auto
termination by (relation "measure (\<lambda>(e, off, src). length src)") (use chunk_pos in auto)

declare append_loop.simps [simp del]

definition iappend :: "u32 \<Rightarrow> u8 list \<Rightarrow> (mkfs, unit) cm" where
  "iappend inum src = bind (rinode inum) (\<lambda>e.
     bind (append_loop e (unat (num_bytes e)) src) (\<lambda>(off, e). winode inum (e\<lparr>num_bytes := of_nat off\<rparr>)))"

text \<open>The last element of a path, without a leading underscore: the loop counts the bytes behind the last slash.\<close>

definition tail_len :: "u8 list \<Rightarrow> nat" where
  "tail_len s = foldl (\<lambda>j c. if c = slash then 0 else j + 1) 0 s"

definition file_name :: "u8 list \<Rightarrow> u8 list" where
  "file_name path = (let s = drop (length path - tail_len path) path in if s \<noteq> [] \<and> hd s = 95 then tl s else s)"

definition link_name :: "u32 \<Rightarrow> u8 list \<Rightarrow> (mkfs, unit) cm" where
  "link_name inum name = iappend 1 (bytes_of_dirent \<lparr>dino = ucast inum, dname = strncpy_l name FILE_NAME_MAX_LENGTH\<rparr>)"

definition add_file :: "u8 list \<times> u8 list list option \<Rightarrow> (mkfs, unit) cm" where
  "add_file f = (case f of (path, input) \<Rightarrow>
     andthen (assert_cm (\<lambda>_. slash \<notin> set (drop (length path - tail_len path) path)))
     (case input of
        None \<Rightarrow> fail (Panic ''open'')
      | Some chunks \<Rightarrow>
          bind (mk_ialloc INODE_REGULAR) (\<lambda>inum.
            andthen (link_name inum (file_name path)) (for_each (iappend inum) chunks))))"

definition fix_root :: "(mkfs, unit) cm" where
  "fix_root = bind (rinode 1) (\<lambda>din.
     winode 1 (din\<lparr>num_bytes := (num_bytes din div of_nat BLOCK_SIZE + 1) * of_nat BLOCK_SIZE\<rparr>))"

definition mkfs_start :: mkfs where
  "mkfs_start = \<lparr>image = [], freeinode = 1, freeblock = 0\<rparr>"

definition mkfs_main :: "(u8 list \<times> u8 list list option) list \<Rightarrow> (mkfs, unit) cm" where
  "mkfs_main files =
     andthen (modify (\<lambda>m. m\<lparr>freeblock := of_nat nmeta\<rparr>))
     (andthen (for_each (\<lambda>i. wsect (of_nat i) zeroes) [0..<FSSIZE])
     (andthen (wsect 1 (patch 0 (sb_bytes mkfs_sb) zeroes))
     (bind (mk_ialloc INODE_DIRECTORY) (\<lambda>rootino.
        andthen (assert_cm (\<lambda>_. rootino = 1))
        (andthen (link_name rootino [46])
        (andthen (link_name rootino [46, 46])
        (andthen (for_each add_file files)
        (andthen fix_root
          (bind (gets freeblock) (\<lambda>b. balloc (unat b)))))))))))"

section \<open>Files in blocks\<close>

text \<open>
  Entry \<open>e\<close> holds the bytes \<open>c\<close>: its first \<open>b\<close> blocks are mapped and no others, there is an indirect block when one is needed, and the bytes behind
  \<open>c\<close> are zero.
\<close>

definition holds :: "usize set \<Rightarrow> bview \<Rightarrow> InodeEntry \<Rightarrow> u8 list \<Rightarrow> nat \<Rightarrow> bool" where
  "holds S V e c b \<longleftrightarrow> file_ok S e V \<and> b \<le> INODE_MAX_BLOCKS \<and> length c \<le> BLOCK_SIZE * b \<and>
     (\<forall>i < INODE_MAX_BLOCKS. bmap e V i \<noteq> 0 \<longleftrightarrow> i < b) \<and> (indirect e \<noteq> 0 \<longleftrightarrow> INODE_NUM_DIRECT < b) \<and>
     (\<forall>k < INODE_MAX_BYTES. fbyte e V k = (if k < length c then c ! k else 0))"

lemmas get_addr_zeroes = get_addr_zero [folded zeroes_def]
lemmas zero_indirect = new_indirect [folded zeroes_def]
lemmas zero_via = new_via_indirect [folded zeroes_def]

text \<open>Mapping block \<open>b\<close>, the first one that is not mapped: directly, behind the indirect block, and with a new indirect block.\<close>

definition bcost :: "nat \<Rightarrow> nat" where
  "bcost b = (if INODE_NUM_DIRECT < b then Suc b else b)"

lemma holdsI:
  assumes "file_ok S e V" "b \<le> INODE_MAX_BLOCKS" "length c \<le> BLOCK_SIZE * b" "\<And>i. i < INODE_MAX_BLOCKS \<Longrightarrow> bmap e V i \<noteq> 0 \<longleftrightarrow> i < b"
    "indirect e \<noteq> 0 \<longleftrightarrow> INODE_NUM_DIRECT < b" "\<And>k. k < INODE_MAX_BYTES \<Longrightarrow> fbyte e V k = (if k < length c then c ! k else 0)"
  shows "holds S V e c b"
  using assms by (simp add: holds_def)

lemma holdsD:
  assumes "holds S V e c b"
  shows "file_ok S e V" "b \<le> INODE_MAX_BLOCKS" "length c \<le> BLOCK_SIZE * b" "i < INODE_MAX_BLOCKS \<Longrightarrow> bmap e V i \<noteq> 0 \<longleftrightarrow> i < b"
    "indirect e \<noteq> 0 \<longleftrightarrow> INODE_NUM_DIRECT < b" "k < INODE_MAX_BYTES \<Longrightarrow> fbyte e V k = (if k < length c then c ! k else 0)"
  using assms by (auto simp: holds_def)

lemma holds_new_direct:
  assumes h: "holds S V e c b" and b: "b < INODE_NUM_DIRECT" and n: "ucast n \<in> S" "V (ucast n) = None" "n \<noteq> 0"
    and e': "e' = e\<lparr>addrs := (addrs e)[b := n]\<rparr>" and V': "V' = V(ucast n \<mapsto> zeroes)"
  shows "addrs e ! b = 0" "holds S V' e' c (Suc b)" "bmap e' V' b = n" "ablocks e' V' \<subseteq> ablocks e V \<union> {ucast n}"
proof -
  note H = holdsD [OF h]
  have bM: "b < INODE_MAX_BLOCKS" using b by (simp add: INODE_MAX_BLOCKS_def)
  show z: "addrs e ! b = 0" using H(4) [OF bM] b by (simp add: bmap_def)
  have n': "(ucast n :: usize) \<noteq> 0" "(ucast n :: usize) < 2 ^ 32" "ucast (ucast n :: usize) = n"
    using n(3) unsigned_less [of n, where ?'a = nat] ucast_u32_inj [of n 0] by (simp_all add: word_less_nat_alt unsigned_ucast_eq take_bit_nat_eq_self)
  have e2: "e' = e\<lparr>addrs := (addrs e)[b := ucast (ucast n :: usize)]\<rparr>" and V2: "V' = V(ucast n \<mapsto> replicate BLOCK_SIZE 0)"
    by (simp_all add: e' n'(3) V' zeroes_def)
  note A' = file_alloc [OF H(1) b z n(1,2) n'(1,2) e2 V2, unfolded n'(3)]
  have bm: "bmap e' V' i = (if i = b then n else bmap e V i)" if "i < INODE_MAX_BLOCKS" for i
  proof (cases "indirect e = 0")
    case False
    then have "V (ucast (indirect e)) \<noteq> None" using H(1) by (simp add: file_ok_def)
    then show ?thesis using b H(1) n(2) A'(3) by (auto simp: bmap_def e' V' file_ok_def)
  qed (use b H(1) A'(3) in \<open>auto simp: bmap_def e' V' file_ok_def\<close>)
  show "bmap e' V' b = n" by (rule A'(3))
  have fb: "fbyte e' V' k = fbyte e V k" if "k < INODE_MAX_BYTES" for k using A'(2) [of 0] that by (simp add: wrote_def)
  have ie: "indirect e' = indirect e" by (simp add: e')
  show "holds S V' e' c (Suc b)"
  proof (rule holdsI)
    show "bmap e' V' i \<noteq> 0 \<longleftrightarrow> i < Suc b" if "i < INODE_MAX_BLOCKS" for i using H(4) [OF that] that n(3) by (auto simp: bm)
    show "indirect e' \<noteq> 0 \<longleftrightarrow> INODE_NUM_DIRECT < Suc b" using H(5) b by (simp add: ie)
    show "fbyte e' V' k = (if k < length c then c ! k else 0)" if "k < INODE_MAX_BYTES" for k using H(6) that by (simp add: fb)
  qed (use A'(1) H(3) bM in auto)
  show "ablocks e' V' \<subseteq> ablocks e V \<union> {ucast n}"
    by (rule ablocks_sub) (simp_all add: bm ie)
qed

lemma holds_via_indirect:
  assumes h: "holds S V e c b" and b: "INODE_NUM_DIRECT < b" "b < INODE_MAX_BLOCKS" and n: "ucast n \<in> S" "V (ucast n) = None" "n \<noteq> 0"
    and d: "V (ucast (indirect e)) = Some d" "length d = BLOCK_SIZE"
    and V': "V' = V(ucast n \<mapsto> zeroes, ucast (indirect e) \<mapsto> put_addr (b - INODE_NUM_DIRECT) n d)"
  shows "get_addr d (b - INODE_NUM_DIRECT) = 0" "holds S V' e c (Suc b)" "bmap e V' b = n" "ablocks e V' \<subseteq> ablocks e V \<union> {ucast n}"
proof -
  note H = holdsD [OF h]
  have i: "indirect e \<noteq> 0" "b - INODE_NUM_DIRECT < INODE_NUM_INDIRECT" using H(5) b by (simp_all add: INODE_MAX_BLOCKS_def)
  show z: "get_addr d (b - INODE_NUM_DIRECT) = 0" using H(4) [OF b(2)] i d(1) b(1) by (simp add: bmap_def)
  note N = zero_via [OF H(1) i(1) d i(2) z n V']
  show "bmap e V' b = n" using N(2) [OF b(2)] b(1) by simp
  show "holds S V' e c (Suc b)"
  proof (rule holdsI)
    show "bmap e V' i \<noteq> 0 \<longleftrightarrow> i < Suc b" if "i < INODE_MAX_BLOCKS" for i using H(4) [OF that] N(2) [OF that] n(3) b by auto
    show "indirect e \<noteq> 0 \<longleftrightarrow> INODE_NUM_DIRECT < Suc b" using i(1) b by simp
    show "fbyte e V' k = (if k < length c then c ! k else 0)" if "k < INODE_MAX_BYTES" for k using H(6) [OF that] N(3) [OF that] by simp
  qed (use N(1) H(3) b in auto)
  show "ablocks e V' \<subseteq> ablocks e V \<union> {ucast n}" by (rule ablocks_sub) (simp_all add: N(2))
qed

lemma holds_first_indirect:
  assumes h: "holds S V e c INODE_NUM_DIRECT" and n: "ucast n \<in> S" "V (ucast n) = None" "n \<noteq> 0"
    and n2: "ucast n2 \<in> S" "V (ucast n2) = None" "n2 \<noteq> 0" "n2 \<noteq> n"
    and e': "e' = e\<lparr>indirect := n\<rparr>" and V': "V' = V(ucast n \<mapsto> zeroes, ucast n2 \<mapsto> zeroes, ucast n \<mapsto> put_addr 0 n2 zeroes)"
  shows "indirect e = 0" "holds S V' e' c (Suc INODE_NUM_DIRECT)" "bmap e' V' INODE_NUM_DIRECT = n2"
    "ablocks e' V' \<subseteq> ablocks e V \<union> {ucast n, ucast n2}"
proof -
  note H = holdsD [OF h]
  show e0: "indirect e = 0" using H(5) by simp
  let ?V = "V(ucast n \<mapsto> zeroes)"
  note M = zero_indirect [OF H(1) e0 n e' refl]
  have D: "INODE_NUM_DIRECT < INODE_MAX_BLOCKS" "0 < INODE_NUM_INDIRECT" by (simp_all add: fs_sizes)
  have i: "indirect e' \<noteq> 0" "?V (ucast (indirect e')) = Some zeroes" "length zeroes = BLOCK_SIZE" "?V (ucast n2) = None"
    using n n2 by (simp_all add: e' zeroes_def ucast_u32_inj)
  have V'': "V' = ?V(ucast n2 \<mapsto> zeroes, ucast (indirect e') \<mapsto> put_addr 0 n2 zeroes)" by (simp add: V' e')
  note N = zero_via [OF M(1) i(1,2,3) D(2) get_addr_zeroes [OF D(2)] n2(1) i(4) n2(3) V'']
  have bm: "bmap e' V' i = (if i = INODE_NUM_DIRECT then n2 else bmap e V i)" if "i < INODE_MAX_BLOCKS" for i
    using N(2) M(2) that by simp
  show "bmap e' V' INODE_NUM_DIRECT = n2" using bm [OF D(1)] by simp
  show "holds S V' e' c (Suc INODE_NUM_DIRECT)"
  proof (rule holdsI)
    show "bmap e' V' i \<noteq> 0 \<longleftrightarrow> i < Suc INODE_NUM_DIRECT" if "i < INODE_MAX_BLOCKS" for i using H(4) [OF that] bm [OF that] n2(3) by auto
    show "fbyte e' V' k = (if k < length c then c ! k else 0)" if "k < INODE_MAX_BYTES" for k
      using H(6) [OF that] N(3) [OF that] M(3) [OF that] by simp
  qed (use N(1) H(3) D i(1) in auto)
  show "ablocks e' V' \<subseteq> ablocks e V \<union> {ucast n, ucast n2}"
  proof (rule ablocks_sub)
    show "indirect e' = 0 \<or> indirect e' = indirect e \<or> ucast (indirect e') \<in> {ucast n, ucast n2}" by (simp add: e')
  qed (simp add: bm)
qed

lemma holds_chunk:
  assumes h: "holds S V e c b" and off: "off = length c" "off div BLOCK_SIZE < b" and n: "0 < n" "off + n \<le> INODE_MAX_BYTES" "length src = chunk off n"
    and x: "x = bmap e V (off div BLOCK_SIZE)" "V (ucast x) = Some d" "length d = BLOCK_SIZE"
    and V': "V' = V(ucast x \<mapsto> patch (off mod BLOCK_SIZE) src d)"
  shows "holds S V' e (c @ src) b" "ablocks e V' = ablocks e V"
proof -
  note H = holdsD [OF h]
  have i: "off div BLOCK_SIZE < INODE_MAX_BLOCKS" using off(2) H(2) by simp
  have m: "bmap e V (off div BLOCK_SIZE) \<noteq> 0" using H(4) [OF i] off(2) by simp
  have len: "length (patch (off mod BLOCK_SIZE) src d) = BLOCK_SIZE" using x(3) n(3) by (simp add: chunk_def BLOCK_SIZE_def)
  note F = file_chunk [OF H(1) n m x(2) [unfolded x(1)] x(3) V' [unfolded x(1)]]
  note bm = file_patch(2) [OF H(1) i m x(2) [unfolded x(1)] x(3) len V' [unfolded x(1)]]
  have "chunk off n \<le> 512 - off mod 512" by (simp add: chunk_def BLOCK_SIZE_def)
  moreover have "512 * (off div 512) + off mod 512 = off" "off mod 512 < 512" by simp_all
  ultimately have "off + chunk off n \<le> BLOCK_SIZE * Suc (off div BLOCK_SIZE)" unfolding BLOCK_SIZE_def mult_Suc_right by linarith
  also have "\<dots> \<le> BLOCK_SIZE * b" by (rule mult_le_mono2) (use off(2) in simp)
  finally have l: "length (c @ src) \<le> BLOCK_SIZE * b" using off(1) n(3) by simp
  show "holds S V' e (c @ src) b"
  proof (rule holdsI)
    show "bmap e V' i \<noteq> 0 \<longleftrightarrow> i < b" if "i < INODE_MAX_BLOCKS" for i using H(4) [OF that] by (simp add: bm)
    show "fbyte e V' k = (if k < length (c @ src) then (c @ src) ! k else 0)" if "k < INODE_MAX_BYTES" for k
      using F(2) H(6) that off(1) by (auto simp: wrote_def nth_append)
  qed (use F(1) H(2,5) l in auto)
  show "ablocks e V' = ablocks e V" by (simp add: ablocks_def fblocks_def bm)
qed

section \<open>The image\<close>

text \<open>The blocks given out so far, and what holds of the image at all times: blocks not given out are zero, and the super block is in place.\<close>

definition mview :: "mkfs \<Rightarrow> bview" where
  "mview m n = (if nmeta \<le> unat n \<and> unat n < unat (freeblock m) then Some (image m ! unat n) else None)"

definition image_ok :: "mkfs \<Rightarrow> bool" where
  "image_ok m \<longleftrightarrow> length (image m) = FSSIZE \<and> (\<forall>n < FSSIZE. length (image m ! n) = BLOCK_SIZE) \<and>
     nmeta \<le> unat (freeblock m) \<and> unat (freeblock m) \<le> FSSIZE \<and> (\<forall>n. unat (freeblock m) \<le> n \<longrightarrow> n < FSSIZE \<longrightarrow> image m ! n = zeroes) \<and>
     image m ! 1 = patch 0 (sb_bytes mkfs_sb) zeroes"

lemma nmeta_val [simp]: "nmeta = 92" and FSSIZE_val [simp]: "FSSIZE = 1000"
  by (simp_all add: mkfs_sizes)

lemma data_space_mkfs: "n \<in> data_space mkfs_sb \<longleftrightarrow> nmeta \<le> unat n \<and> unat n < FSSIZE"
  by (auto simp: data_space_def meta_blocks_def mkfs_sb_def)

lemma sect_small: "unat x < 1000 \<Longrightarrow> sect x = unat x"
  by (simp add: sect_def BLOCK_SIZE_def unat_word_ariths)

lemma unat_up: "unat (ucast (x :: u32) :: usize) = unat x"
  using unsigned_less [of x, where ?'a = nat] by (simp add: unsigned_ucast_eq take_bit_nat_eq_self)

lemma mviewD:
  assumes "image_ok m" "mview m (ucast x) = Some d"
  shows "sect x = unat x" "unat x < 1000" "92 \<le> unat x" "unat x < unat (freeblock m)" "length d = BLOCK_SIZE" "image m ! unat x = d"
proof -
  show "92 \<le> unat x" "unat x < unat (freeblock m)" "image m ! unat x = d" using assms by (auto simp: mview_def unat_up split: if_splits)
  then show "unat x < 1000" "length d = BLOCK_SIZE" using assms(1) by (auto simp: image_ok_def)
  then show "sect x = unat x" by (simp add: sect_small)
qed

lemma rsect_rule: "image_ok m \<Longrightarrow> mview m (ucast x) = Some d \<Longrightarrow> runs (rsect x) m R \<longleftrightarrow> R d m"
  using mviewD [of m x d] by (simp add: rsect_def wp image_ok_def)

lemma wsect_rule:
  assumes m: "image_ok m" "mview m (ucast x) = Some d" "length d' = BLOCK_SIZE"
    and R: "\<And>m'. m' = m\<lparr>image := (image m)[unat x := d']\<rparr> \<Longrightarrow> image_ok m' \<Longrightarrow> mview m' = (mview m)(ucast x \<mapsto> d') \<Longrightarrow> R () m'"
  shows "runs (wsect x d') m R"
proof -
  note D = mviewD [OF m(1,2)]
  let ?m = "m\<lparr>image := (image m)[unat x := d']\<rparr>"
  have L: "length (image m) = 1000" using m(1) by (simp add: image_ok_def)
  have "image_ok ?m" using m D L by (auto simp: image_ok_def nth_list_update)
  moreover have "mview ?m = (mview m)(ucast x \<mapsto> d')"
    using D L by (auto simp: mview_def fun_eq_iff unat_up word_unat_eq_iff)
  ultimately have "R () ?m" by (intro R) simp_all
  then show ?thesis using D L by (simp add: wsect_def wp)
qed

lemma new_block_rule:
  assumes m: "image_ok m" "unat (freeblock m) < FSSIZE"
    and R: "\<And>n m'. n = freeblock m \<Longrightarrow> m' = m\<lparr>freeblock := n + 1\<rparr> \<Longrightarrow> image_ok m' \<Longrightarrow> mview m' = (mview m)(ucast n \<mapsto> zeroes) \<Longrightarrow>
      unat (freeblock m') = Suc (unat (freeblock m)) \<Longrightarrow> ucast n \<in> data_space mkfs_sb \<Longrightarrow> mview m (ucast n) = None \<Longrightarrow> n \<noteq> 0 \<Longrightarrow> R n m'"
  shows "runs new_block m R"
proof -
  let ?n = "freeblock m"
  let ?m = "m\<lparr>freeblock := ?n + 1\<rparr>"
  have u: "unat (?n + 1) = Suc (unat ?n)" using m(2) by (simp add: unat_word_ariths)
  have "image_ok ?m" using m by (auto simp: image_ok_def u)
  moreover have "mview ?m = (mview m)(ucast ?n \<mapsto> zeroes)"
    using m by (auto simp: mview_def fun_eq_iff u unat_up word_unat_eq_iff image_ok_def less_Suc_eq)
  moreover have "ucast ?n \<in> data_space mkfs_sb" "mview m (ucast ?n) = None" "?n \<noteq> 0"
    using m by (auto simp: data_space_mkfs unat_up mview_def image_ok_def)
  ultimately have "R ?n ?m" by (intro R) (simp_all add: u)
  then show ?thesis by (simp add: new_block_def wp)
qed

text \<open>From \<open>m\<close> to \<open>m'\<close> only blocks of the file \<open>e\<close> and blocks that were free have changed.\<close>

definition mgrown :: "mkfs \<Rightarrow> InodeEntry \<Rightarrow> mkfs \<Rightarrow> InodeEntry \<Rightarrow> bool" where
  "mgrown m e m' e' \<longleftrightarrow> freeinode m' = freeinode m \<and> (\<forall>n < nmeta. image m' ! n = image m ! n) \<and>
     (\<forall>x. mview m x \<noteq> None \<longrightarrow> mview m' x \<noteq> None \<and> (x \<notin> ablocks e (mview m) \<longrightarrow> mview m' x = mview m x)) \<and>
     ablocks e' (mview m') \<subseteq> ablocks e (mview m) \<union> {x. mview m x = None} \<and> e' = e\<lparr>addrs := addrs e', indirect := indirect e'\<rparr>"

lemma mgrown_refl: "mgrown m e m e"
  by (simp add: mgrown_def)

lemma mgrown_trans:
  assumes 1: "mgrown m e m1 e1" and 2: "mgrown m1 e1 m2 e2"
  shows "mgrown m e m2 e2"
proof -
  have "mview m2 x \<noteq> None \<and> (x \<notin> ablocks e (mview m) \<longrightarrow> mview m2 x = mview m x)" if x: "mview m x \<noteq> None" for x
  proof -
    have x1: "mview m1 x \<noteq> None" "x \<notin> ablocks e (mview m) \<Longrightarrow> mview m1 x = mview m x" using 1 x by (auto simp: mgrown_def)
    moreover have "x \<notin> ablocks e1 (mview m1)" if "x \<notin> ablocks e (mview m)" using 1 x that by (auto simp: mgrown_def)
    ultimately show ?thesis using 2 unfolding mgrown_def by metis
  qed
  moreover have "ablocks e2 (mview m2) \<subseteq> ablocks e (mview m) \<union> {x. mview m x = None}"
    using 1 2 unfolding mgrown_def by blast
  moreover have "e2 = e\<lparr>addrs := addrs e2, indirect := indirect e2\<rparr>"
  proof -
    have "e1 = e\<lparr>addrs := addrs e1, indirect := indirect e1\<rparr>" "e2 = e1\<lparr>addrs := addrs e2, indirect := indirect e2\<rparr>"
      using 1 2 by (simp_all add: mgrown_def)
    then show ?thesis by (cases e; cases e1; cases e2) simp
  qed
  ultimately show ?thesis using 1 2 by (simp add: mgrown_def)
qed

text \<open>Blocks that were free were given out or written, and possibly a block of the file.\<close>

lemma mgrownI:
  assumes "freeinode m' = freeinode m" "\<And>n. n < 92 \<Longrightarrow> image m' ! n = image m ! n"
    and "\<And>x. mview m x \<noteq> None \<Longrightarrow> mview m' x \<noteq> None" "\<And>x. mview m x \<noteq> None \<Longrightarrow> x \<notin> ablocks e (mview m) \<Longrightarrow> mview m' x = mview m x"
    and "ablocks e' (mview m') \<subseteq> ablocks e (mview m) \<union> B" "\<And>x. x \<in> B \<Longrightarrow> mview m x = None" "e' = e\<lparr>addrs := addrs e', indirect := indirect e'\<rparr>"
  shows "mgrown m e m' e'"
  using assms unfolding mgrown_def by auto

abbreviation dspace :: "usize set" where "dspace \<equiv> data_space mkfs_sb"

lemma block_for_mapped:
  assumes m: "image_ok m" "holds dspace (mview m) e c b" and i: "i < b" and R: "R (bmap e (mview m) i, e) m"
  shows "runs (block_for e i) m R"
proof -
  note H = holdsD [OF m(2)]
  have iM: "i < INODE_MAX_BLOCKS" using i H(2) by simp
  have mapped: "bmap e (mview m) i \<noteq> 0" using H(4) [OF iM] i by simp
  show ?thesis
  proof (cases "i < INODE_NUM_DIRECT")
    case True
    then show ?thesis using mapped R by (simp add: block_for_def bmap_def wp)
  next
    case False
    then have ind: "indirect e \<noteq> 0" using H(5) i by simp
    then obtain d where d: "mview m (ucast (indirect e)) = Some d" using H(1) by (auto simp: file_ok_def)
    then have "bmap e (mview m) i = get_addr d (i - INODE_NUM_DIRECT)" using False ind by (simp add: bmap_def)
    then show ?thesis using False ind mapped R by (simp add: block_for_def wp rsect_rule [OF m(1) d])
  qed
qed

lemma block_for_direct:
  assumes m: "image_ok m" "holds dspace (mview m) e c b" "unat (freeblock m) < FSSIZE" and b: "b < INODE_NUM_DIRECT"
    and R: "\<And>x e' m'. image_ok m' \<Longrightarrow> holds dspace (mview m') e' c (Suc b) \<Longrightarrow> x = bmap e' (mview m') b \<Longrightarrow>
      unat (freeblock m') = Suc (unat (freeblock m)) \<Longrightarrow> mgrown m e m' e' \<Longrightarrow> R (x, e') m'"
  shows "runs (block_for e b) m R"
proof -
  have "runs new_block m (\<lambda>n. R (n, e\<lparr>addrs := (addrs e)[b := n]\<rparr>))"
  proof (rule new_block_rule [OF m(1,3)])
    fix n m'
    let ?e = "e\<lparr>addrs := (addrs e)[b := n]\<rparr>"
    assume n: "n = freeblock m" "m' = m\<lparr>freeblock := n + 1\<rparr>" "image_ok m'" "mview m' = (mview m)(ucast n \<mapsto> zeroes)"
      "unat (freeblock m') = Suc (unat (freeblock m))" "ucast n \<in> dspace" "mview m (ucast n) = None" "n \<noteq> 0"
    note D = holds_new_direct [OF m(2) b n(6-8) refl n(4)]
    have "mgrown m e m' ?e" by (rule mgrownI [OF _ _ _ _ D(4)]) (use n in auto)
    then show "R (n, ?e) m'" using D n by (intro R) auto
  qed
  moreover have "addrs e ! b = 0"
    using holdsD(4) [OF m(2), of b] b by (simp add: bmap_def INODE_MAX_BLOCKS_def)
  ultimately show ?thesis using b by (simp add: block_for_def wp)
qed

lemma block_for_behind:
  assumes m: "image_ok m" "holds dspace (mview m) e c b" "unat (freeblock m) < FSSIZE" and b: "INODE_NUM_DIRECT < b" "b < INODE_MAX_BLOCKS"
    and R: "\<And>x e' m'. image_ok m' \<Longrightarrow> holds dspace (mview m') e' c (Suc b) \<Longrightarrow> x = bmap e' (mview m') b \<Longrightarrow>
      unat (freeblock m') = Suc (unat (freeblock m)) \<Longrightarrow> mgrown m e m' e' \<Longrightarrow> R (x, e') m'"
  shows "runs (block_for e b) m R"
proof -
  note H = holdsD [OF m(2)]
  have ind: "indirect e \<noteq> 0" using H(5) b by simp
  then obtain d where d: "mview m (ucast (indirect e)) = Some d" using H(1) by (auto simp: file_ok_def)
  note len = mviewD(5) [OF m(1) d] and pos = mviewD(3) [OF m(1) d]
  have z: "get_addr d (b - INODE_NUM_DIRECT) = 0" using H(4) [OF b(2)] b(1) ind d by (simp add: bmap_def)
  have "runs new_block m (\<lambda>n m1. runs (wsect (indirect e) (put_addr (b - INODE_NUM_DIRECT) n d)) m1 (\<lambda>_. R (n, e)))"
  proof (rule new_block_rule [OF m(1,3)])
    fix n m1
    assume n: "n = freeblock m" "m1 = m\<lparr>freeblock := n + 1\<rparr>" "image_ok m1" "mview m1 = (mview m)(ucast n \<mapsto> zeroes)"
      "unat (freeblock m1) = Suc (unat (freeblock m))" "ucast n \<in> dspace" "mview m (ucast n) = None" "n \<noteq> 0"
    have d1: "mview m1 (ucast (indirect e)) = Some d" using d n(4,7) by auto
    have l: "length (put_addr (b - INODE_NUM_DIRECT) n d) = BLOCK_SIZE"
      by (rule get_put_addr(2) [OF len, of _ "b - INODE_NUM_DIRECT"]) (use b in \<open>simp_all add: INODE_MAX_BLOCKS_def\<close>)
    show "runs (wsect (indirect e) (put_addr (b - INODE_NUM_DIRECT) n d)) m1 (\<lambda>_. R (n, e))"
    proof (rule wsect_rule [OF n(3) d1 l])
      fix m'
      assume m': "m' = m1\<lparr>image := (image m1)[unat (indirect e) := put_addr (b - INODE_NUM_DIRECT) n d]\<rparr>" "image_ok m'"
        "mview m' = (mview m1)(ucast (indirect e) \<mapsto> put_addr (b - INODE_NUM_DIRECT) n d)"
      note V = m'(3) [unfolded n(4)]
      note D = holds_via_indirect [OF m(2) b n(6-8) d len V]
      have a: "ucast (indirect e) \<in> ablocks e (mview m)" using ind by (simp add: ablocks_def)
      have "mgrown m e m' e" by (rule mgrownI [OF _ _ _ _ D(4)]) (use n m' V a pos in auto)
      then show "R (n, e) m'" using D n(5) m' by (intro R) auto
    qed
  qed
  then show ?thesis using b ind z by (simp add: block_for_def wp rsect_rule [OF m(1) d])
qed

lemma block_for_first_behind:
  assumes m: "image_ok m" "holds dspace (mview m) e c INODE_NUM_DIRECT" "Suc (unat (freeblock m)) < FSSIZE"
    and R: "\<And>x e' m'. image_ok m' \<Longrightarrow> holds dspace (mview m') e' c (Suc INODE_NUM_DIRECT) \<Longrightarrow> x = bmap e' (mview m') INODE_NUM_DIRECT \<Longrightarrow>
      unat (freeblock m') = Suc (Suc (unat (freeblock m))) \<Longrightarrow> mgrown m e m' e' \<Longrightarrow> R (x, e') m'"
  shows "runs (block_for e INODE_NUM_DIRECT) m R"
proof -
  have e0: "indirect e = 0" using holdsD(5) [OF m(2)] by simp
  have f: "unat (freeblock m) < FSSIZE" using m(3) by simp
  have "runs new_block m (\<lambda>n m1. runs (rsect n) m1 (\<lambda>d m1. get_addr d 0 = 0 \<and>
      runs new_block m1 (\<lambda>n2 m2. runs (wsect n (put_addr 0 n2 d)) m2 (\<lambda>_. R (n2, e\<lparr>indirect := n\<rparr>)))))"
  proof (rule new_block_rule [OF m(1) f])
    fix n m1
    assume n: "n = freeblock m" "m1 = m\<lparr>freeblock := n + 1\<rparr>" "image_ok m1" "mview m1 = (mview m)(ucast n \<mapsto> zeroes)"
      "unat (freeblock m1) = Suc (unat (freeblock m))" "ucast n \<in> dspace" "mview m (ucast n) = None" "n \<noteq> 0"
    have d: "mview m1 (ucast n) = Some zeroes" by (simp add: n(4))
    have f1: "unat (freeblock m1) < FSSIZE" using n(5) m(3) by simp
    have "runs new_block m1 (\<lambda>n2 m2. runs (wsect n (put_addr 0 n2 zeroes)) m2 (\<lambda>_. R (n2, e\<lparr>indirect := n\<rparr>)))"
    proof (rule new_block_rule [OF n(3) f1])
      fix n2 m2
      assume k: "n2 = freeblock m1" "m2 = m1\<lparr>freeblock := n2 + 1\<rparr>" "image_ok m2" "mview m2 = (mview m1)(ucast n2 \<mapsto> zeroes)"
        "unat (freeblock m2) = Suc (unat (freeblock m1))" "ucast n2 \<in> dspace" "mview m1 (ucast n2) = None" "n2 \<noteq> 0"
      have d2: "mview m2 (ucast n) = Some zeroes" "mview m (ucast n2) = None" "n2 \<noteq> n"
        using d k(4,7) n(4) by (auto split: if_splits)
      have l: "length (put_addr 0 n2 zeroes) = BLOCK_SIZE" by (simp add: put_addr_def zeroes_def BLOCK_SIZE_def)
      show "runs (wsect n (put_addr 0 n2 zeroes)) m2 (\<lambda>_. R (n2, e\<lparr>indirect := n\<rparr>))"
      proof (rule wsect_rule [OF k(3) d2(1) l])
        fix m'
        assume m': "m' = m2\<lparr>image := (image m2)[unat n := put_addr 0 n2 zeroes]\<rparr>" "image_ok m'" "mview m' = (mview m2)(ucast n \<mapsto> put_addr 0 n2 zeroes)"
        note V = m'(3) [unfolded k(4) n(4)]
        note D = holds_first_indirect [OF m(2) n(6-8) k(6) d2(2) k(8) d2(3) refl V]
        have "mgrown m e m' (e\<lparr>indirect := n\<rparr>)"
          by (rule mgrownI [OF _ _ _ _ D(4)]) (use n(1,2,7) k(1,2) m'(1) V d2(2) mviewD(3) [OF k(3) d2(1)] in auto)
        then show "R (n2, e\<lparr>indirect := n\<rparr>) m'" using D n(5) k(5) m' by (intro R) auto
      qed
    qed
    then show "runs (rsect n) m1 (\<lambda>d m1. get_addr d 0 = 0 \<and>
        runs new_block m1 (\<lambda>n2 m2. runs (wsect n (put_addr 0 n2 d)) m2 (\<lambda>_. R (n2, e\<lparr>indirect := n\<rparr>))))"
      by (simp add: rsect_rule [OF n(3) d] get_addr_zeroes fs_sizes)
  qed
  then show ?thesis using e0 by (simp add: block_for_def wp) (elim runs_mono, simp)
qed

lemma bcost_Suc: "bcost (Suc b) = (if b = INODE_NUM_DIRECT then Suc (Suc (bcost b)) else Suc (bcost b))"
  by (auto simp: bcost_def)

lemma bcost_mono: "a \<le> b \<Longrightarrow> bcost a \<le> bcost b"
  by (simp add: bcost_def)

lemma block_for_rule:
  assumes m: "image_ok m" "holds dspace (mview m) e c b" and i: "i \<le> b" "i < INODE_MAX_BLOCKS"
    and f: "unat (freeblock m) + bcost (max b (Suc i)) \<le> FSSIZE + bcost b"
    and R: "\<And>x e' m'. image_ok m' \<Longrightarrow> holds dspace (mview m') e' c (max b (Suc i)) \<Longrightarrow> x = bmap e' (mview m') i \<Longrightarrow>
      unat (freeblock m') + bcost b = unat (freeblock m) + bcost (max b (Suc i)) \<Longrightarrow> mgrown m e m' e' \<Longrightarrow> R (x, e') m'"
  shows "runs (block_for e i) m R"
proof (cases "i < b")
  case True
  then have "max b (Suc i) = b" by simp
  then show ?thesis using m by (intro block_for_mapped [OF m True] R) (simp_all add: mgrown_refl)
next
  case False
  then have b: "i = b" "max b (Suc i) = Suc b" using i by simp_all
  consider "b < INODE_NUM_DIRECT" | "b = INODE_NUM_DIRECT" | "INODE_NUM_DIRECT < b" by linarith
  then show ?thesis
  proof cases
    case 1
    show ?thesis unfolding b(1)
      by (rule block_for_direct [OF m _ 1], use f 1 in \<open>simp add: b bcost_Suc\<close>) (rule R; use 1 in \<open>simp add: b bcost_Suc\<close>)
  next
    case 2
    show ?thesis unfolding b(1) 2
      by (rule block_for_first_behind [OF m(1) m(2) [unfolded 2]], use f 2 in \<open>simp add: b bcost_Suc\<close>)
        (rule R; use 2 in \<open>simp add: b bcost_Suc\<close>)
  next
    case 3
    show ?thesis unfolding b(1)
      by (rule block_for_behind [OF m _ 3 i(2) [unfolded b(1)]], use f 3 in \<open>simp add: b bcost_Suc\<close>)
        (rule R; use 3 in \<open>simp add: b bcost_Suc\<close>)
  qed
qed

definition nblocks :: "nat \<Rightarrow> nat" where
  "nblocks n = (n + 511) div 512"

lemma nblocks_mono: "a \<le> b \<Longrightarrow> nblocks a \<le> nblocks b"
  unfolding nblocks_def by (intro div_le_mono) simp

lemma nblocks_add: "nblocks (512 * q + t) = q + nblocks t"
  unfolding nblocks_def by (simp add: add.assoc)

lemma nblocks_one: "0 < t \<Longrightarrow> t \<le> 512 \<Longrightarrow> nblocks t = 1"
  unfolding nblocks_def by (rule div_nat_eqI) simp_all

lemma nblocks_chunk:
  assumes "0 < n"
  shows "nblocks (off + chunk off n) = Suc (off div BLOCK_SIZE)" "off div BLOCK_SIZE \<le> nblocks off" "nblocks off \<le> Suc (off div BLOCK_SIZE)"
proof -
  define q r where qr: "q = off div 512" "r = off mod 512"
  then have off: "off = 512 * q + r" "r < 512" by simp_all
  have k: "0 < r + chunk off n" "r + chunk off n \<le> 512"
    using chunk_pos [OF assms, of off] off(2) qr by (simp_all add: chunk_def BLOCK_SIZE_def)
  have "off + chunk off n = 512 * q + (r + chunk off n)" using off(1) by simp
  then show "nblocks (off + chunk off n) = Suc (off div BLOCK_SIZE)" using nblocks_one [OF k] qr by (simp only: nblocks_add BLOCK_SIZE_def)
  have "nblocks r \<le> nblocks 512" using off(2) by (intro nblocks_mono) simp
  then have "nblocks r \<le> 1" using nblocks_one [of 512] by simp
  moreover have "nblocks off = q + nblocks r" by (metis off(1) nblocks_add)
  ultimately show "off div BLOCK_SIZE \<le> nblocks off" "nblocks off \<le> Suc (off div BLOCK_SIZE)"
    using qr(1) by (simp_all add: BLOCK_SIZE_def)
qed

lemma chunk_rule:
  assumes m: "image_ok m" "holds dspace (mview m) e c b" and i: "length c div BLOCK_SIZE < b" "x = bmap e (mview m) (length c div BLOCK_SIZE)"
    and n: "0 < n" "length c + n \<le> INODE_MAX_BYTES" "length src = chunk (length c) n"
    and R: "\<And>m'. image_ok m' \<Longrightarrow> holds dspace (mview m') e (c @ src) b \<Longrightarrow> freeblock m' = freeblock m \<Longrightarrow> mgrown m e m' e \<Longrightarrow> R m'"
  shows "runs (rsect x) m (\<lambda>buf m. runs (wsect x (patch (length c mod BLOCK_SIZE) src buf)) m (\<lambda>_. R))"
proof -
  note H = holdsD [OF m(2)]
  have iM: "length c div BLOCK_SIZE < INODE_MAX_BLOCKS" using i(1) H(2) by simp
  have x0: "x \<noteq> 0" using H(4) [OF iM] i by simp
  then obtain d where d: "mview m (ucast x) = Some d" using H(1) iM unfolding i(2) file_ok_def by blast
  note D = mviewD [OF m(1) d]
  have l: "length (patch (length c mod BLOCK_SIZE) src d) = BLOCK_SIZE" using D(5) n(3) by (simp add: chunk_def BLOCK_SIZE_def)
  have a: "ucast x \<in> ablocks e (mview m)" using iM x0 i(2) by (auto simp: ablocks_def fblocks_def)
  have "runs (wsect x (patch (length c mod BLOCK_SIZE) src d)) m (\<lambda>_. R)"
  proof (rule wsect_rule [OF m(1) d l])
    fix m'
    assume m': "m' = m\<lparr>image := (image m)[unat x := patch (length c mod BLOCK_SIZE) src d]\<rparr>" "image_ok m'"
      "mview m' = (mview m)(ucast x \<mapsto> patch (length c mod BLOCK_SIZE) src d)"
    note C = holds_chunk [OF m(2) refl i(1) n i(2) d D(5) m'(3)]
    have "mgrown m e m' e" by (rule mgrownI [where B = "{}"]) (use m' a C(2) D(3) in auto)
    then show "R m'" using m' C(1) by (intro R) simp_all
  qed
  then show ?thesis by (simp add: rsect_rule [OF m(1) d])
qed

lemma append_loop_rule:
  assumes "image_ok m" "holds dspace (mview m) e c (nblocks (length c))" "length c + length src \<le> INODE_MAX_BYTES"
    "unat (freeblock m) + bcost (nblocks (length c + length src)) \<le> FSSIZE + bcost (nblocks (length c))"
    "\<And>e' m'. image_ok m' \<Longrightarrow> holds dspace (mview m') e' (c @ src) (nblocks (length c + length src)) \<Longrightarrow>
      unat (freeblock m') + bcost (nblocks (length c)) = unat (freeblock m) + bcost (nblocks (length c + length src)) \<Longrightarrow> mgrown m e m' e' \<Longrightarrow>
      R (length c + length src, e') m'"
  shows "runs (append_loop e (length c) src) m R"
  using assms
proof (induction "length src" arbitrary: m e c src rule: less_induct)
  case less
  show ?case
  proof (cases "src = []")
    case True
    have "R (length c + length src, e) m" by (rule less.prems(5)) (use less.prems True mgrown_refl in auto)
    then show ?thesis using True by (simp add: append_loop.simps [of e] wp)
  next
    case False
    let ?o = "length c" and ?n = "length src"
    let ?k = "chunk ?o ?n" and ?i = "?o div BLOCK_SIZE"
    have n: "0 < ?n" and k: "0 < ?k" "?k \<le> ?n" using False chunk_pos [of ?n ?o] by simp_all
    note C = nblocks_chunk [OF n, of ?o]
    have mx: "max (nblocks ?o) (Suc ?i) = nblocks (?o + ?k)" using C by simp
    have iM: "?i < INODE_MAX_BLOCKS" by (rule div_block) (use less.prems(3) n in linarith)
    have mono: "bcost (nblocks (?o + ?k)) \<le> bcost (nblocks (?o + ?n))" using k by (intro bcost_mono nblocks_mono) simp
    have "runs (block_for e ?i) m (\<lambda>(x, e) m. runs (rsect x) m (\<lambda>buf m.
        runs (wsect x (patch (?o mod BLOCK_SIZE) (take ?k src) buf)) m (\<lambda>_ m. runs (append_loop e (?o + ?k) (drop ?k src)) m R)))"
    proof (rule block_for_rule [OF less.prems(1,2) C(2) iM], unfold mx prod.case)
      show "unat (freeblock m) + bcost (nblocks (?o + ?k)) \<le> FSSIZE + bcost (nblocks ?o)" using less.prems(4) mono by simp
      fix x e1 m1
      assume 1: "image_ok m1" "holds dspace (mview m1) e1 c (nblocks (?o + ?k))" "x = bmap e1 (mview m1) ?i"
        "unat (freeblock m1) + bcost (nblocks ?o) = unat (freeblock m) + bcost (nblocks (?o + ?k))" "mgrown m e m1 e1"
      show "runs (rsect x) m1 (\<lambda>buf m. runs (wsect x (patch (?o mod BLOCK_SIZE) (take ?k src) buf)) m
          (\<lambda>_ m. runs (append_loop e1 (?o + ?k) (drop ?k src)) m R))"
      proof (rule chunk_rule [OF 1(1,2) _ 1(3) n less.prems(3)])
        fix m2
        assume 2: "image_ok m2" "holds dspace (mview m2) e1 (c @ take ?k src) (nblocks (?o + ?k))" "freeblock m2 = freeblock m1" "mgrown m1 e1 m2 e1"
        have l: "length (c @ take ?k src) = ?o + ?k" "?o + ?k + length (drop ?k src) = ?o + ?n" using k by simp_all
        have "runs (append_loop e1 (length (c @ take ?k src)) (drop ?k src)) m2 R"
        proof (rule less.hyps [OF _ 2(1)], unfold l)
          fix e' m'
          assume 3: "image_ok m'" "holds dspace (mview m') e' ((c @ take ?k src) @ drop ?k src) (nblocks (?o + ?n))"
            "unat (freeblock m') + bcost (nblocks (?o + ?k)) = unat (freeblock m2) + bcost (nblocks (?o + ?n))" "mgrown m2 e1 m' e'"
          show "R (?o + ?n, e') m'"
            by (rule less.prems(5)) (use 1 2 3 mgrown_trans [OF mgrown_trans [OF 1(5) 2(4)] 3(4)] in simp_all)
        qed (use k 1 2 less.prems(3,4) in simp_all)
        then show "runs (append_loop e1 (?o + ?k) (drop ?k src)) m2 R" by (simp only: l)
      qed (use C k in simp_all)
    qed
    then show ?thesis using False iM by (simp add: append_loop.simps [of e] runs_andthen runs_bind runs_inode_steps(2)) (elim runs_mono, auto simp: runs_andthen runs_bind)
  qed
qed

section \<open>Inodes\<close>

definition ientry :: "mkfs \<Rightarrow> nat \<Rightarrow> InodeEntry" where
  "ientry m k = get_entry (image m ! (k div 8 + 65)) (of_nat k)"

lemma inode_consts: "inode_start mkfs_sb = 65" "bitmap_start mkfs_sb = 91" "INODE_PER_BLOCK = 8"
  by (simp_all add: mkfs_sb_def mkfs_sizes)

lemma IBLOCK_nat:
  assumes "k < 208"
  shows "unat (IBLOCK (of_nat k)) = k div 8 + 65" "sect (IBLOCK (of_nat k)) = k div 8 + 65" "k div 8 + 65 < 91" "ucast (of_nat k :: u32) = (of_nat k :: usize)"
proof -
  have k: "unat (of_nat k :: u32) = k" using assms by (intro unat_of_nat_lt) simp
  show b: "k div 8 + 65 < 91" using assms by (simp add: less_mult_imp_div_less)
  show "unat (IBLOCK (of_nat k)) = k div 8 + 65" using b k by (simp add: IBLOCK_def inode_consts unat_word_ariths unat_div)
  then show "sect (IBLOCK (of_nat k)) = k div 8 + 65" using b by (simp add: sect_small)
  show "ucast (of_nat k :: u32) = (of_nat k :: usize)" using k assms by (simp add: word_unat_eq_iff unat_up unat_of_nat_lt)
qed

lemma entry_at_nat: "k < 208 \<Longrightarrow> entry_at (of_nat k) = 64 * (k mod 8)"
  by (simp add: entry_at_def inode_consts fs_sizes unat_mod unat_of_nat_lt)

lemma winode_rule:
  assumes m: "image_ok m" "k < 208" "length (addrs e) = INODE_NUM_DIRECT"
    and R: "\<And>m'. image_ok m' \<Longrightarrow> mview m' = mview m \<Longrightarrow> freeblock m' = freeblock m \<Longrightarrow> freeinode m' = freeinode m \<Longrightarrow>
      (\<And>j. j < 208 \<Longrightarrow> ientry m' j = (if j = k then e else ientry m j)) \<Longrightarrow> (\<And>n. n < 65 \<Longrightarrow> image m' ! n = image m ! n) \<Longrightarrow> R () m'"
  shows "runs (winode (of_nat k) e) m R"
proof -
  note I = IBLOCK_nat [OF m(2)]
  let ?b = "k div 8 + 65"
  let ?d = "put_entry (of_nat k) e (image m ! ?b)"
  let ?m = "m\<lparr>image := (image m)[?b := ?d]\<rparr>"
  have L: "length (image m) = 1000" "length (image m ! ?b) = BLOCK_SIZE" using m(1) I(3) by (auto simp: image_ok_def)
  note P = get_put_entry [OF L(2) m(3)]
  have "image_ok ?m" using m(1) I(3) L P(2) by (auto simp: image_ok_def nth_list_update)
  moreover have "mview ?m = mview m" using I(3) by (auto simp: mview_def fun_eq_iff)
  moreover have "ientry ?m j = (if j = k then e else ientry m j)" if j: "j < 208" for j
  proof (cases "j div 8 = k div 8")
    case True
    have "entry_at (of_nat j) \<noteq> entry_at (of_nat k)" if "j \<noteq> k"
    proof -
      have "j mod 8 \<noteq> k mod 8" using that True by (metis div_mult_mod_eq)
      then show ?thesis using j m(2) by (simp add: entry_at_nat)
    qed
    then show ?thesis using True L I(3) P(1) P(3) by (auto simp: ientry_def)
  next
    case False
    then show ?thesis by (auto simp: ientry_def)
  qed
  ultimately have "R () ?m" using I(3) by (intro R) auto
  then show ?thesis using I L(1) by (simp add: winode_def rsect_def wsect_def wp)
qed

lemma rinode_rule: "image_ok m \<Longrightarrow> k < 208 \<Longrightarrow> runs (rinode (of_nat k)) m R \<longleftrightarrow> R (ientry m k) m"
  using IBLOCK_nat [of k] by (simp add: rinode_def rsect_def wp image_ok_def ientry_def)

lemma num_bytes_irrelevant [simp]:
  "bmap (e\<lparr>num_bytes := n\<rparr>) V i = bmap e V i" "fbyte (e\<lparr>num_bytes := n\<rparr>) V k = fbyte e V k" "file_ok T (e\<lparr>num_bytes := n\<rparr>) V = file_ok T e V"
  "ablocks (e\<lparr>num_bytes := n\<rparr>) V = ablocks e V" "holds T V (e\<lparr>num_bytes := n\<rparr>) c b = holds T V e c b"
proof -
  show bm: "bmap (e\<lparr>num_bytes := n\<rparr>) V i = bmap e V i" for i by (simp add: bmap_def)
  show fb: "fbyte (e\<lparr>num_bytes := n\<rparr>) V k = fbyte e V k" for k by (simp add: fbyte_def bm)
  show ok: "file_ok T (e\<lparr>num_bytes := n\<rparr>) V = file_ok T e V" by (simp add: file_ok_def bm)
  show "ablocks (e\<lparr>num_bytes := n\<rparr>) V = ablocks e V" by (simp add: ablocks_def fblocks_def bm)
  show "holds T V (e\<lparr>num_bytes := n\<rparr>) c b = holds T V e c b" by (simp add: holds_def bm fb ok)
qed

lemma ablocks_mapped: "file_ok T e V \<Longrightarrow> x \<in> ablocks e V \<Longrightarrow> V x \<noteq> None"
  by (auto simp: file_ok_def ablocks_def fblocks_def split: if_splits)

lemma holds_cong:
  assumes h: "holds T V e c b" and V': "\<And>x. x \<in> ablocks e V \<Longrightarrow> V' x = V x"
  shows "holds T V' e c b" "ablocks e V' = ablocks e V"
proof -
  have bm: "bmap e V' i = bmap e V i" for i
    by (rule bmap_cong) (use V' in \<open>auto simp: ablocks_def\<close>)
  have blk: "V' (ucast (bmap e V i)) = V (ucast (bmap e V i))" if "i < INODE_MAX_BLOCKS" "bmap e V i \<noteq> 0" for i
    using V' that by (auto simp: ablocks_def fblocks_def)
  have fb: "fbyte e V' k = fbyte e V k" if "k < INODE_MAX_BYTES" for k
    using blk [OF div_block [OF that]] by (simp add: fbyte_def bm)
  have ind: "indirect e \<noteq> 0 \<Longrightarrow> V' (ucast (indirect e)) = V (ucast (indirect e))" using V' by (simp add: ablocks_def)
  have "file_ok T e V'" using holdsD(1) [OF h] ind blk unfolding file_ok_def bm by simp
  then show "holds T V' e c b" using h fb by (simp add: holds_def bm)
  show "ablocks e V' = ablocks e V" by (simp add: ablocks_def fblocks_def bm)
qed

section \<open>The files of an image\<close>

text \<open>An image stands for a list of files, type and contents; the first one has inode 1. A file uses the blocks its size needs and no two files share one.\<close>

abbreviation fcost :: "u16 \<times> u8 list \<Rightarrow> nat" where
  "fcost f \<equiv> bcost (nblocks (length (snd f)))"

definition is_file :: "bview \<Rightarrow> InodeEntry \<Rightarrow> u16 \<times> u8 list \<Rightarrow> bool" where
  "is_file V e f \<longleftrightarrow> itype e = fst f \<and> num_links e = 1 \<and> unat (num_bytes e) = length (snd f) \<and> holds dspace V e (snd f) (nblocks (length (snd f)))"

definition mrep :: "mkfs \<Rightarrow> (u16 \<times> u8 list) list \<Rightarrow> bool" where
  "mrep m fs \<longleftrightarrow> image_ok m \<and> image m ! 1 = patch 0 (sb_bytes mkfs_sb) zeroes \<and> unat (freeinode m) = Suc (length fs) \<and> length fs \<le> 207 \<and>
     (\<forall>i < length fs. is_file (mview m) (ientry m (Suc i)) (fs ! i)) \<and>
     (\<forall>i < length fs. \<forall>j < length fs. i \<noteq> j \<longrightarrow> ablocks (ientry m (Suc i)) (mview m) \<inter> ablocks (ientry m (Suc j)) (mview m) = {}) \<and>
     unat (freeblock m) = nmeta + sum_list (map fcost fs)"

lemma new_entry:
  "is_file V (zero_entry\<lparr>itype := ty, num_links := 1, num_bytes := 0\<rparr>) (ty, [])"
  "ablocks (zero_entry\<lparr>itype := ty, num_links := 1, num_bytes := 0\<rparr>) V = {}"
proof -
  define e where "e = zero_entry\<lparr>itype := ty, num_links := 1, num_bytes := 0\<rparr>"
  have e: "itype e = ty" "num_links e = 1" "num_bytes e = 0" "indirect e = 0" "length (addrs e) = INODE_NUM_DIRECT"
    by (simp_all add: e_def zero_entry_def)
  have bm: "bmap e V i = 0" for i by (simp add: e_def bmap_def zero_entry_def)
  show "is_file V (zero_entry\<lparr>itype := ty, num_links := 1, num_bytes := 0\<rparr>) (ty, [])" "ablocks (zero_entry\<lparr>itype := ty, num_links := 1, num_bytes := 0\<rparr>) V = {}"
    unfolding e_def [symmetric] by (simp_all add: is_file_def holds_def file_ok_def fbyte_def bm e nblocks_def ablocks_def fblocks_def)
qed

lemma mk_ialloc_rule:
  assumes m: "mrep m fs" "length fs < 207" and R: "\<And>m'. mrep m' (fs @ [(ty, [])]) \<Longrightarrow> R (of_nat (Suc (length fs))) m'"
  shows "runs (mk_ialloc ty) m R"
proof -
  let ?k = "Suc (length fs)" and ?e = "zero_entry\<lparr>itype := ty, num_links := 1, num_bytes := 0\<rparr>"
  let ?m = "m\<lparr>freeinode := freeinode m + 1\<rparr>"
  have u: "unat (freeinode m) = ?k" using m(1) by (simp add: mrep_def)
  moreover have "unat (of_nat ?k :: u32) = ?k" by (rule unat_of_nat_lt) (use m(2) in simp)
  ultimately have n: "freeinode m = of_nat ?k" "unat (freeinode m) = ?k" by (simp_all only: word_unat_eq_iff)
  have h: "is_file V ?e (ty, [])" "ablocks ?e V = {}" for V by (rule new_entry)+
  have v: "mview ?m = mview m" "image_ok ?m" using m(1) by (simp_all add: mview_def fun_eq_iff image_ok_def mrep_def)
  have "runs (winode (of_nat ?k) ?e) ?m (\<lambda>_. R (of_nat ?k))"
  proof (rule winode_rule [OF v(2)])
    fix m'
    assume m': "image_ok m'" "mview m' = mview ?m" "freeblock m' = freeblock ?m" "freeinode m' = freeinode ?m"
      "\<And>j. j < 208 \<Longrightarrow> ientry m' j = (if j = ?k then ?e else ientry ?m j)" "\<And>n. n < 65 \<Longrightarrow> image m' ! n = image ?m ! n"
    have e: "ientry m' (Suc i) = (if i = length fs then ?e else ientry m (Suc i))" if "i < Suc (length fs)" for i
      using m'(5) [of "Suc i"] that m(2) by (simp add: ientry_def)
    have u': "unat (freeinode m') = Suc ?k" using u m(2) m'(4) by (simp add: unat_word_ariths)
    have c: "fcost (ty, []) = 0" by (simp add: bcost_def nblocks_def)
    show "R (of_nat ?k) m'"
      by (rule R) (use m m'(1-3,6) h v u' c in \<open>auto simp: mrep_def e less_Suc_eq nth_append\<close>)
  qed (use m(2) in \<open>simp_all add: zero_entry_def\<close>)
  then show ?thesis by (simp add: mk_ialloc_def wp n(1))
qed

lemma iappend_others:
  assumes m: "mrep m fs" and i: "i < length fs" and j: "j < length fs" "j \<noteq> i" and g: "mgrown m (ientry m (Suc i)) m' e'"
  shows "is_file (mview m') (ientry m (Suc j)) (fs ! j)" "ablocks (ientry m (Suc j)) (mview m') = ablocks (ientry m (Suc j)) (mview m)"
    "ablocks (ientry m (Suc j)) (mview m) \<inter> ablocks e' (mview m') = {}"
proof -
  let ?e = "ientry m (Suc j)"
  have f: "is_file (mview m) ?e (fs ! j)" and d: "ablocks ?e (mview m) \<inter> ablocks (ientry m (Suc i)) (mview m) = {}"
    using m i j by (auto simp: mrep_def)
  have h: "holds dspace (mview m) ?e (snd (fs ! j)) (nblocks (length (snd (fs ! j))))" using f by (simp add: is_file_def)
  have M: "mview m x \<noteq> None" if "x \<in> ablocks ?e (mview m)" for x using ablocks_mapped [OF holdsD(1) [OF h] that] .
  have V: "mview m' x = mview m x" if "x \<in> ablocks ?e (mview m)" for x
    using M [OF that] d that g unfolding mgrown_def by blast
  note C = holds_cong [OF h V]
  show "is_file (mview m') ?e (fs ! j)" using f C(1) by (simp add: is_file_def)
  show "ablocks ?e (mview m') = ablocks ?e (mview m)" by (rule C(2))
  show "ablocks ?e (mview m) \<inter> ablocks e' (mview m') = {}"
    using M d g unfolding mgrown_def by blast
qed

lemma sum_list_update_add: "i < length xs \<Longrightarrow> sum_list (map f (xs[i := y])) + f (xs ! i) = sum_list (map f xs) + (f y :: nat)"
  by (induction xs arbitrary: i) (auto split: nat.split)

lemma mrep_update:
  assumes m: "mrep m fs" "i < length fs" and g: "mgrown m (ientry m (Suc i)) m1 e'" "is_file (mview m1) e2 f" "ablocks e2 (mview m1) = ablocks e' (mview m1)"
    and m': "image_ok m'" "mview m' = mview m1" "freeinode m' = freeinode m1" "\<And>j. j < 208 \<Longrightarrow> ientry m' j = (if j = Suc i then e2 else ientry m1 j)"
      "\<And>n. n < 65 \<Longrightarrow> image m' ! n = image m1 ! n" "unat (freeblock m') = nmeta + sum_list (map fcost (fs[i := f]))"
  shows "mrep m' (fs[i := f])"
proof -
  have M: "length fs \<le> 207" "image m ! 1 = patch 0 (sb_bytes mkfs_sb) zeroes" "unat (freeinode m) = Suc (length fs)"
    "\<And>j k. j < length fs \<Longrightarrow> k < length fs \<Longrightarrow> j \<noteq> k \<Longrightarrow> ablocks (ientry m (Suc j)) (mview m) \<inter> ablocks (ientry m (Suc k)) (mview m) = {}"
    using m(1) by (auto simp: mrep_def)
  have G: "freeinode m1 = freeinode m" "\<And>n. n < 92 \<Longrightarrow> image m1 ! n = image m ! n" using g(1) by (auto simp: mgrown_def)
  have "ientry m1 j = ientry m j" if "j < 208" for j using G(2) [of "j div 8 + 65"] IBLOCK_nat(3) [OF that] by (simp add: ientry_def)
  then have e: "ientry m' (Suc j) = (if j = i then e2 else ientry m (Suc j))" if "j < length fs" for j using m'(4) [of "Suc j"] that M(1) by simp
  note O = iappend_others [OF m(1,2) _ _ g(1)]
  have files: "is_file (mview m') (ientry m' (Suc j)) (fs[i := f] ! j)" if "j < length fs" for j
    using O(1) [OF that] that g(2) by (cases "j = i") (simp_all add: e m'(2))
  have dis: "ablocks (ientry m' (Suc j)) (mview m') \<inter> ablocks (ientry m' (Suc k)) (mview m') = {}" if "j < length fs" "k < length fs" "j \<noteq> k" for j k
    using O(2,3) [OF that(1)] O(2,3) [OF that(2)] M(4) [OF that] that g(3)
    by (cases "j = i"; cases "k = i") (auto simp: e m'(2))
  show ?thesis using m' M G files dis by (simp add: mrep_def)
qed

lemma iappend_rule:
  assumes m: "mrep m fs" and i: "i < length fs" "fs ! i = (ty, c)" and n: "length c + length src \<le> INODE_MAX_BYTES"
    and f: "nmeta + sum_list (map fcost (fs[i := (ty, c @ src)])) \<le> FSSIZE"
    and R: "\<And>m'. mrep m' (fs[i := (ty, c @ src)]) \<Longrightarrow> R () m'"
  shows "runs (iappend (of_nat (Suc i)) src) m R"
proof -
  let ?e = "ientry m (Suc i)" and ?fs = "fs[i := (ty, c @ src)]"
  have M: "image_ok m" "is_file (mview m) ?e (ty, c)" "length fs \<le> 207" "unat (freeblock m) = nmeta + sum_list (map fcost fs)"
    using m i by (auto simp: mrep_def)
  have k: "Suc i < 208" using i M(3) by simp
  have cost: "sum_list (map fcost ?fs) + bcost (nblocks (length c)) = sum_list (map fcost fs) + bcost (nblocks (length c + length src))"
    using sum_list_update_add [OF i(1), of fcost "(ty, c @ src)"] i(2) by simp
  have "runs (append_loop ?e (length c) src) m (\<lambda>(off, e) m. runs (winode (of_nat (Suc i)) (e\<lparr>num_bytes := of_nat off\<rparr>)) m R)"
  proof (rule append_loop_rule [OF M(1)], unfold prod.case)
    fix e' m1
    assume 1: "image_ok m1" "holds dspace (mview m1) e' (c @ src) (nblocks (length c + length src))"
      "unat (freeblock m1) + bcost (nblocks (length c)) = unat (freeblock m) + bcost (nblocks (length c + length src))" "mgrown m ?e m1 e'"
    let ?e' = "e'\<lparr>num_bytes := of_nat (length c + length src)\<rparr>"
    have l: "length (addrs ?e') = INODE_NUM_DIRECT" using holdsD(1) [OF 1(2)] by (simp add: file_ok_def)
    show "runs (winode (of_nat (Suc i)) ?e') m1 R"
    proof (rule winode_rule [OF 1(1) k l])
      fix m'
      assume 2: "image_ok m'" "mview m' = mview m1" "freeblock m' = freeblock m1" "freeinode m' = freeinode m1"
        "\<And>j. j < 208 \<Longrightarrow> ientry m' j = (if j = Suc i then ?e' else ientry m1 j)" "\<And>n. n < 65 \<Longrightarrow> image m' ! n = image m1 ! n"
      have e': "e' = ?e\<lparr>addrs := addrs e', indirect := indirect e'\<rparr>" using 1(4) by (simp add: mgrown_def)
      have "itype e' = itype ?e" "num_links e' = num_links ?e" using arg_cong [OF e', of itype] arg_cong [OF e', of num_links] by simp_all
      moreover have "unat (of_nat (length c + length src) :: u32) = length c + length src" by (rule unat_of_nat_lt) (use n in \<open>simp add: fs_sizes\<close>)
      ultimately have "is_file (mview m1) ?e' (ty, c @ src)" using M(2) 1(2) by (simp add: is_file_def)
      then show "R () m'" by (intro R mrep_update [OF m i(1) 1(4)]) (use 1 2 M(4) cost in simp_all)
    qed
  qed (use M n f cost in \<open>auto simp: is_file_def\<close>)
  then show ?thesis
    using M(2) unfolding iappend_def runs_bind rinode_rule [OF M(1) k] is_file_def by (simp del: of_nat_Suc) (elim runs_mono, auto)
qed

lemma cost_le: "length a \<le> length b \<Longrightarrow> sum_list (map fcost (fs[i := (ty, a)])) \<le> sum_list (map fcost (fs[i := (ty, b)]))"
  by (induction fs arbitrary: i) (auto split: nat.split intro!: bcost_mono nblocks_mono)

lemma append_all_rule:
  assumes "mrep m fs" "i < length fs" "fs ! i = (ty, c)" "length c + length (concat cs) \<le> INODE_MAX_BYTES"
    "nmeta + sum_list (map fcost (fs[i := (ty, c @ concat cs)])) \<le> FSSIZE" "\<And>m'. mrep m' (fs[i := (ty, c @ concat cs)]) \<Longrightarrow> R () m'"
  shows "runs (for_each (iappend (of_nat (Suc i))) cs) m R"
  using assms
proof (induction cs arbitrary: m fs c)
  case Nil
  have "fs[i := (ty, c)] = fs" using Nil.prems(3) by (metis list_update_id)
  then show ?case using Nil.prems by (simp add: wp)
next
  case (Cons a cs)
  have le: "sum_list (map fcost (fs[i := (ty, c @ a)])) \<le> sum_list (map fcost (fs[i := (ty, c @ concat (a # cs))]))"
    by (rule cost_le) simp
  have "runs (iappend (of_nat (Suc i)) a) m (\<lambda>_ m. runs (for_each (iappend (of_nat (Suc i))) cs) m R)"
  proof (rule iappend_rule [OF Cons.prems(1-3)])
    fix m'
    assume "mrep m' (fs[i := (ty, c @ a)])"
    then show "runs (for_each (iappend (of_nat (Suc i))) cs) m' R"
      by (rule Cons.IH [of _ _ "c @ a"]) (use Cons.prems in simp_all)
  qed (use Cons.prems le in simp_all)
  then show ?case by (simp add: runs_andthen)
qed

section \<open>The whole image\<close>

definition dent :: "nat \<Rightarrow> u8 list \<Rightarrow> DirEntry" where
  "dent k name = \<lparr>dino = of_nat k, dname = strncpy_l name FILE_NAME_MAX_LENGTH\<rparr>"

text \<open>The entries for input files from inode \<open>k\<close> on, and the files of the image.\<close>

fun dents :: "nat \<Rightarrow> (u8 list \<times> u8 list list) list \<Rightarrow> DirEntry list" where
  "dents k [] = []"
| "dents k ((path, cs) # ins) = dent k (file_name path) # dents (Suc k) ins"

abbreviation dbytes :: "DirEntry list \<Rightarrow> u8 list" where
  "dbytes ds \<equiv> concat (map bytes_of_dirent ds)"

definition root_entries :: "(u8 list \<times> u8 list list) list \<Rightarrow> DirEntry list" where
  "root_entries ins = dent 1 [46] # dent 1 [46, 46] # dents 2 ins"

abbreviation inputs :: "(u8 list \<times> u8 list list) list \<Rightarrow> (u16 \<times> u8 list) list" where
  "inputs ins \<equiv> map (\<lambda>f. (INODE_REGULAR, concat (snd f))) ins"

lemma length_dirent: "length (bytes_of_dirent (dent k name)) = 16"
  by (simp add: dent_def bytes_of_dirent_def strncpy_l_def fs_sizes min_def)

lemma tail_len_rev: "tail_len s = length (takeWhile (\<lambda>c. c \<noteq> slash) (rev s))"
  unfolding tail_len_def by (induction s rule: rev_induct) simp_all

lemma tail_no_slash: "slash \<notin> set (drop (length s - tail_len s) s)"
proof -
  have "drop (length s - tail_len s) s = rev (takeWhile (\<lambda>c. c \<noteq> slash) (rev s))"
    unfolding tail_len_rev by (metis length_rev rev_rev_ident rev_take takeWhile_eq_take)
  then show ?thesis by (auto dest: set_takeWhileD)
qed

lemma num16: "k < 2 ^ 16 \<Longrightarrow> (ucast (of_nat k :: u32) :: u16) = of_nat k"
  by (simp add: word_unat_eq_iff unsigned_ucast_eq unsigned_take_bit_eq unat_of_nat_lt take_bit_nat_eq_self)

lemma add_file_rule:
  assumes m: "mrep m ((ty, r) # rest)" "length rest < 206" and n: "length r + 16 \<le> INODE_MAX_BYTES" "length (concat cs) \<le> INODE_MAX_BYTES"
    and f: "nmeta + sum_list (map fcost ((ty, r @ bytes_of_dirent (dent (length rest + 2) (file_name path))) # rest @ [(INODE_REGULAR, concat cs)])) \<le> FSSIZE"
    and R: "\<And>m'. mrep m' ((ty, r @ bytes_of_dirent (dent (length rest + 2) (file_name path))) # rest @ [(INODE_REGULAR, concat cs)]) \<Longrightarrow> R () m'"
  shows "runs (add_file (path, Some cs)) m R"
proof -
  let ?fs = "(ty, r) # rest" and ?k = "Suc (Suc (length rest))"
  let ?r = "r @ bytes_of_dirent (dent (length rest + 2) (file_name path))"
  have u: "(ucast (of_nat ?k :: u32) :: u16) = of_nat ?k" by (rule num16) (use m(2) in simp)
  have link: "link_name (of_nat ?k) (file_name path) = iappend (of_nat (Suc 0)) (bytes_of_dirent (dent (length rest + 2) (file_name path)))"
    unfolding link_name_def u by (simp add: dent_def)
  have "runs (mk_ialloc INODE_REGULAR) m (\<lambda>i m. i = of_nat ?k \<and>
      runs (iappend (of_nat (Suc 0)) (bytes_of_dirent (dent (length rest + 2) (file_name path)))) m (\<lambda>_ m. runs (for_each (iappend (of_nat ?k)) cs) m R))"
  proof (rule mk_ialloc_rule [OF m(1)])
    fix m1
    assume 1: "mrep m1 (?fs @ [(INODE_REGULAR, [])])"
    have "runs (iappend (of_nat (Suc 0)) (bytes_of_dirent (dent (length rest + 2) (file_name path)))) m1 (\<lambda>_ m. runs (for_each (iappend (of_nat ?k)) cs) m R)"
    proof (rule iappend_rule [OF 1])
      fix m2
      assume "mrep m2 ((?fs @ [(INODE_REGULAR, [])])[0 := (ty, ?r)])"
      then have "mrep m2 (((ty, ?r) # rest) @ [(INODE_REGULAR, [])])" by simp
      then show "runs (for_each (iappend (of_nat ?k)) cs) m2 R"
        by (rule append_all_rule [of _ _ "Suc (length rest)" INODE_REGULAR "[]"]) (use n f R in \<open>simp_all add: nth_append list_update_append\<close>)
    qed (use n f in \<open>simp_all add: length_dirent bcost_def nblocks_def\<close>)
    then show "of_nat (Suc (length ?fs)) = (of_nat ?k :: u32) \<and> runs (iappend (of_nat (Suc 0)) (bytes_of_dirent (dent (length rest + 2) (file_name path)))) m1
        (\<lambda>_ m. runs (for_each (iappend (of_nat ?k)) cs) m R)" by simp
  qed (use m(2) in simp)
  then show ?thesis
    using link by (simp add: add_file_def wp tail_no_slash del: of_nat_Suc) (elim runs_mono, simp del: of_nat_Suc)
qed

lemma length_dents: "length (dents k ins) = length ins" "length (dbytes (dents k ins)) = 16 * length ins"
  by (induction k ins rule: dents.induct) (simp_all add: length_dirent)

lemma add_files_rule:
  assumes "mrep m ((ty, r) # rest)" "length rest + length ins \<le> 206" "length r + 16 * length ins \<le> INODE_MAX_BYTES"
    "\<forall>f \<in> set ins. length (concat (snd f)) \<le> INODE_MAX_BYTES"
    "nmeta + bcost (nblocks (length r + 16 * length ins)) + sum_list (map fcost rest) + sum_list (map fcost (inputs ins)) \<le> FSSIZE"
    "\<And>m'. mrep m' ((ty, r @ dbytes (dents (length rest + 2) ins)) # rest @ inputs ins) \<Longrightarrow> R () m'"
  shows "runs (for_each add_file (map (\<lambda>(path, cs). (path, Some cs)) ins)) m R"
  using assms
proof (induction ins arbitrary: m r rest)
  case Nil
  then show ?case by (simp add: wp)
next
  case (Cons f ins)
  obtain path cs where f: "f = (path, cs)" by (cases f)
  let ?r = "r @ bytes_of_dirent (dent (length rest + 2) (file_name path))" and ?rest = "rest @ [(INODE_REGULAR, concat cs)]"
  have l: "length ?r = length r + 16" by (simp add: length_dirent)
  have le: "bcost (nblocks (length r + 16)) \<le> bcost (nblocks (length r + 16 * length (f # ins)))" by (intro bcost_mono nblocks_mono) simp
  have "runs (add_file (path, Some cs)) m (\<lambda>_ m. runs (for_each add_file (map (\<lambda>(path, cs). (path, Some cs)) ins)) m R)"
  proof (rule add_file_rule [OF Cons.prems(1)])
    fix m'
    assume "mrep m' ((ty, ?r) # ?rest)"
    then show "runs (for_each add_file (map (\<lambda>(path, cs). (path, Some cs)) ins)) m' R"
      by (rule Cons.IH) (use Cons.prems f in \<open>simp_all add: length_dirent add.assoc\<close>)
  qed (use Cons.prems f le in \<open>simp_all add: length_dirent\<close>)
  then show ?case by (simp add: f runs_andthen)
qed

lemma holds_pad:
  assumes "holds T V e c b" "length c + n \<le> BLOCK_SIZE * b"
  shows "holds T V e (c @ replicate n 0) b"
  using assms by (auto simp: holds_def nth_append)

lemma fix_root_rule:
  assumes m: "mrep m ((ty, r) # rest)" and r: "length r mod 512 \<noteq> 0" "length r < 65536"
    and R: "\<And>m'. mrep m' ((ty, r @ replicate (512 * nblocks (length r) - length r) 0) # rest) \<Longrightarrow> R () m'"
  shows "runs fix_root m R"
proof -
  let ?e = "ientry m (Suc 0)" and ?b = "nblocks (length r)"
  have M: "image_ok m" "is_file (mview m) ?e (ty, r)" "unat (freeblock m) = nmeta + sum_list (map fcost ((ty, r) # rest))"
    using m by (auto simp: mrep_def)
  have b: "?b = Suc (length r div 512)"
  proof -
    have "nblocks (512 * (length r div 512) + length r mod 512) = length r div 512 + nblocks (length r mod 512)" by (rule nblocks_add)
    then show ?thesis using nblocks_one [of "length r mod 512"] r(1) by simp
  qed
  have pad: "length r \<le> 512 * ?b" unfolding b by (simp add: less_imp_le div_less_iff_less_mult [symmetric])
  have nb: "nblocks (512 * ?b) = ?b" using nblocks_add [of ?b 0] by (simp add: nblocks_def)
  let ?z = "r @ replicate (512 * ?b - length r) 0"
  let ?e' = "?e\<lparr>num_bytes := (num_bytes ?e div of_nat BLOCK_SIZE + 1) * of_nat BLOCK_SIZE\<rparr>"
  have "unat (num_bytes ?e) = length r" "length r div 512 < 128" using M(2) r(2) by (simp_all add: is_file_def less_mult_imp_div_less)
  then have u: "unat (num_bytes ?e') = 512 * ?b" by (simp add: b unat_word_ariths unat_div BLOCK_SIZE_def)
  have h: "is_file (mview m) ?e' (ty, ?z)"
    using M(2) u pad holds_pad [of dspace "mview m" ?e r ?b "512 * ?b - length r"] nb by (simp add: is_file_def BLOCK_SIZE_def)
  have l: "length (addrs ?e') = INODE_NUM_DIRECT" using M(2) by (simp add: is_file_def holds_def file_ok_def)
  have "runs (winode (of_nat (Suc 0)) ?e') m R"
  proof (rule winode_rule [OF M(1) _ l])
    fix m'
    assume m': "image_ok m'" "mview m' = mview m" "freeblock m' = freeblock m" "freeinode m' = freeinode m"
      "\<And>j. j < 208 \<Longrightarrow> ientry m' j = (if j = Suc 0 then ?e' else ientry m j)" "\<And>n. n < 65 \<Longrightarrow> image m' ! n = image m ! n"
    have "mrep m' (((ty, r) # rest)[0 := (ty, ?z)])"
      by (rule mrep_update [OF m _ mgrown_refl h]) (use m' M(3) pad nb in simp_all)
    then show "R () m'" by (intro R) simp
  qed simp
  then show ?thesis using rinode_rule [OF M(1), of "Suc 0"] by (simp add: fix_root_def runs_bind)
qed

lemma mark_blocks:
  assumes "n \<le> 4096"
  shows "cell_get (foldl cell_set zeroes [0..<n]) j \<longleftrightarrow> j < n \<or> cell_get zeroes j" "length (foldl cell_set zeroes [0..<n]) = BLOCK_SIZE"
  using assms
proof (induction n)
  case (Suc n)
  let ?z = "foldl cell_set zeroes [0..<n]"
  { case 1
    then have "n < LENGTH(8) * length ?z" using Suc.IH(2) by (simp add: BLOCK_SIZE_def)
    then show ?case using Suc.IH(1) 1 by (auto simp: cells.get_set1)
  next
    case 2
    then show ?case using Suc.IH(2) by simp }
qed (simp_all add: zeroes_def)

lemma balloc_rule:
  assumes m: "mrep m fs"
    and R: "\<And>m'. mrep m' fs \<Longrightarrow> freeblock m' = freeblock m \<Longrightarrow> image m' ! 91 = foldl cell_set zeroes [0..<unat (freeblock m)] \<Longrightarrow> R () m'"
  shows "runs (balloc (unat (freeblock m))) m R"
proof -
  let ?d = "foldl cell_set zeroes [0..<unat (freeblock m)]"
  let ?m = "m\<lparr>image := (image m)[91 := ?d]\<rparr>"
  have M: "image_ok m" "length fs \<le> 207" using m by (simp_all add: mrep_def)
  have f: "unat (freeblock m) \<le> 1000" "length (image m) = 1000" using M(1) by (simp_all add: image_ok_def)
  have l: "length ?d = BLOCK_SIZE" using f by (intro mark_blocks) simp
  have ok: "image_ok ?m" using M(1) l f(2) by (auto simp: image_ok_def nth_list_update)
  have v: "mview ?m = mview m" by (auto simp: mview_def fun_eq_iff)
  have e: "ientry ?m j = ientry m j" if "j < 208" for j using IBLOCK_nat(3) [OF that] by (simp add: ientry_def)
  have "mrep ?m fs" using m ok v e M(2) by (simp add: mrep_def)
  then have "R () ?m" using f(2) by (intro R) simp_all
  then show ?thesis using f by (simp add: balloc_def wp wsect_def inode_consts sect_small BLOCK_SIZE_def)
qed

lemma zero_image: "image m = replicate k zeroes \<Longrightarrow> k \<le> n \<Longrightarrow> n \<le> 1000 \<Longrightarrow>
    runs (for_each (\<lambda>i. wsect (of_nat i) zeroes) [k..<n]) m R \<longleftrightarrow> R () (m\<lparr>image := replicate n zeroes\<rparr>)"
proof (induction "n - k" arbitrary: k m)
  case 0
  then have n: "n = k" by simp
  have "m\<lparr>image := replicate k zeroes\<rparr> = m" using 0(2) by (cases m) simp
  then show ?case by (simp add: n wp)
next
  case (Suc d)
  then have k: "[k..<n] = k # [Suc k..<n]" "sect (of_nat k) = k" by (simp_all add: upt_conv_Cons sect_small unat_of_nat_lt)
  have "replicate k zeroes @ [zeroes] = replicate (Suc k) zeroes" by (metis replicate_Suc replicate_append_same)
  then show ?case using Suc.hyps(1) [of "Suc k" "m\<lparr>image := replicate (Suc k) zeroes\<rparr>"] Suc.hyps(2) Suc.prems k
    by (simp add: wp wsect_def)
qed

lemma start_rep: "mrep \<lparr>image = (replicate FSSIZE zeroes)[1 := patch 0 (sb_bytes mkfs_sb) zeroes], freeinode = 1, freeblock = of_nat nmeta\<rparr> []"
proof -
  have "length (patch 0 (sb_bytes mkfs_sb) zeroes) = BLOCK_SIZE" by (simp add: sb_bytes_def zeroes_def BLOCK_SIZE_def)
  then show ?thesis by (auto simp: mrep_def image_ok_def nth_list_update zeroes_def)
qed

text \<open>Inputs that fit: enough inodes and blocks, no file larger than a file can be, and a root directory that does not fill its last block.\<close>

definition fits :: "(u8 list \<times> u8 list list) list \<Rightarrow> bool" where
  "fits ins \<longleftrightarrow> length ins + 2 \<le> NINODES \<and> (\<forall>f \<in> set ins. length (concat (snd f)) \<le> INODE_MAX_BYTES) \<and>
     nmeta + bcost (nblocks (16 * (length ins + 2))) + sum_list (map fcost (inputs ins)) \<le> FSSIZE \<and> (length ins + 2) mod 32 \<noteq> 0"

definition root_bytes :: "(u8 list \<times> u8 list list) list \<Rightarrow> u8 list" where
  "root_bytes ins = dbytes (root_entries ins) @ replicate (512 * nblocks (16 * (length ins + 2)) - 16 * (length ins + 2)) 0"

lemma mkfs_rule:
  assumes f: "fits ins"
    and R: "\<And>m. mrep m ((INODE_DIRECTORY, root_bytes ins) # inputs ins) \<Longrightarrow> image m ! 91 = foldl cell_set zeroes [0..<unat (freeblock m)] \<Longrightarrow> R () m"
  shows "runs (mkfs_main (map (\<lambda>(path, cs). (path, Some cs)) ins)) mkfs_start R"
proof -
  let ?m = "\<lparr>image = (replicate FSSIZE zeroes)[1 := patch 0 (sb_bytes mkfs_sb) zeroes], freeinode = 1, freeblock = of_nat nmeta\<rparr>"
  let ?fin = "andthen fix_root (bind (gets freeblock) (\<lambda>b. balloc (unat b)))"
  let ?add = "for_each add_file (map (\<lambda>(path, cs). (path, Some cs)) ins)"
  let ?d1 = "bytes_of_dirent (dent 1 [46])" and ?d2 = "bytes_of_dirent (dent 1 [46, 46])"
  have F: "length ins \<le> 198" "\<forall>f \<in> set ins. length (concat (snd f)) \<le> INODE_MAX_BYTES" "(length ins + 2) mod 32 \<noteq> 0"
    "bcost (nblocks (16 * (length ins + 2))) + sum_list (map fcost (inputs ins)) \<le> 908"
    using f by (simp_all add: fits_def NINODES_def)
  have l: "length (dbytes (root_entries ins)) = 16 * (length ins + 2)" by (simp add: root_entries_def length_dents length_dirent)
  have ne: "16 * (length ins + 2) mod 512 \<noteq> 0" using F(3) mult_mod_right [of 16 "length ins + 2" 32] by simp
  have fin: "runs ?fin m R" if "mrep m ((INODE_DIRECTORY, dbytes (root_entries ins)) # inputs ins)" for m
    unfolding runs_andthen
    by (rule fix_root_rule [OF that]) (use ne F(1) l R in \<open>auto simp: runs_bind runs_gets root_bytes_def intro!: balloc_rule\<close>)
  have add: "runs (andthen ?add ?fin) m R" if "mrep m [(INODE_DIRECTORY, ?d1 @ ?d2)]" for m
    unfolding runs_andthen [of ?add]
    by (rule add_files_rule [OF that]) (use F fin in \<open>simp_all add: length_dirent root_entries_def fs_sizes numeral_2_eq_2\<close>)
  have dot2: "runs (iappend (of_nat (Suc 0)) ?d2) m (\<lambda>_ m. runs (andthen ?add ?fin) m R)" if "mrep m [(INODE_DIRECTORY, ?d1)]" for m
    by (rule iappend_rule [OF that, of 0 INODE_DIRECTORY ?d1]) (use add in \<open>simp_all add: length_dirent fs_sizes bcost_def nblocks_def\<close>)
  have dots: "runs (iappend (of_nat (Suc 0)) ?d1) m (\<lambda>_ m. runs (iappend (of_nat (Suc 0)) ?d2) m (\<lambda>_ m. runs (andthen ?add ?fin) m R))"
    if "mrep m [(INODE_DIRECTORY, [])]" for m
    by (rule iappend_rule [OF that, of 0 INODE_DIRECTORY "[]"]) (use dot2 in \<open>simp_all add: length_dirent fs_sizes bcost_def nblocks_def\<close>)
  have L: "link_name 1 n = iappend (of_nat (Suc 0)) (bytes_of_dirent (dent 1 n))" for n by (simp add: link_name_def dent_def)
  have "runs (mk_ialloc INODE_DIRECTORY) ?m (\<lambda>i m. i = 1 \<and> runs (iappend (of_nat (Suc 0)) ?d1) m
      (\<lambda>_ m. runs (iappend (of_nat (Suc 0)) ?d2) m (\<lambda>_ m. runs (andthen ?add ?fin) m R)))"
    by (rule mk_ialloc_rule [OF start_rep]) (use dots in simp_all)
  then have "runs (bind (mk_ialloc INODE_DIRECTORY) (\<lambda>rootino. andthen (assert_cm (\<lambda>_. rootino = 1))
      (andthen (link_name rootino [46]) (andthen (link_name rootino [46, 46]) (andthen ?add ?fin))))) ?m R"
    unfolding runs_bind [of "mk_ialloc _"] by (rule runs_mono) (simp add: L runs_andthen runs_inode_steps(2))
  moreover have "runs (wsect 1 d) m Q \<longleftrightarrow> Q () (m\<lparr>image := (image m)[1 := d]\<rparr>)" if "length (image m) = 1000" for d m Q
    using that by (simp add: wsect_def sect_small runs_modify)
  ultimately show ?thesis
    by (simp add: mkfs_main_def mkfs_start_def runs_andthen [of "modify _"] runs_modify runs_andthen [of "for_each _ [_..<_]"] zero_image
      runs_andthen [of "wsect _ _"])
qed

section \<open>Starting from the image\<close>

text \<open>A cache that holds no block, over a disk with the image in the partition of the file system.\<close>

definition on_disk :: "mkfs \<Rightarrow> 'a bcache \<Rightarrow> bool" where
  "on_disk m s \<longleftrightarrow> lru s = [] \<and> (\<forall>n < FSSIZE. disk s (sector (of_nat n)) = image m ! n)"

definition disk_inode :: "'a bcache \<Rightarrow> usize \<Rightarrow> InodeEntry" where
  "disk_inode s n = get_entry (content s (to_block_no mkfs_sb n)) n"

lemma on_disk_content: "on_disk m s \<Longrightarrow> n < 1000 \<Longrightarrow> content s (of_nat n) = image m ! n"
  by (simp add: on_disk_def content_def cached_def)

lemma on_disk_content_word: "on_disk m s \<Longrightarrow> unat n < 1000 \<Longrightarrow> content s n = image m ! unat n"
  using on_disk_content [of m s "unat n"] by simp

lemma mkfs_geometry: "meta_blocks mkfs_sb = 92" "unat (num_blocks mkfs_sb) = 1000" "unat (bitmap_start mkfs_sb) = 91" "bitmap_no mkfs_sb n \<longleftrightarrow> unat n = 91"
  by (auto simp: meta_blocks_def mkfs_sb_def bitmap_no_def mkfs_sizes BIT_PER_BLOCK_def)

lemma boot_used:
  assumes m: "mrep m fs" "image m ! 91 = foldl cell_set zeroes [0..<unat (freeblock m)]" and s: "on_disk m s" and j: "j < 1000"
  shows "used_block mkfs_sb s j \<longleftrightarrow> j < unat (freeblock m)" "BBLOCK (of_nat j) mkfs_sb = 91"
proof -
  have f: "unat (freeblock m) \<le> 4096" using m(1) by (simp add: mrep_def image_ok_def)
  have "unat (BBLOCK (of_nat j) mkfs_sb) = 91"
    using j mkfs_geometry by (subst unat_BBLOCK) (simp_all add: BIT_PER_BLOCK_def BLOCK_SIZE_def)
  then show b: "BBLOCK (of_nat j) mkfs_sb = 91" by (simp add: word_unat_eq_iff)
  have z: "\<not> cell_get zeroes j" using j by (simp add: cell_get_def zeroes_def BLOCK_SIZE_def)
  have "content s 91 = image m ! 91" using on_disk_content [OF s, of 91] by simp
  then show "used_block mkfs_sb s j \<longleftrightarrow> j < unat (freeblock m)"
    using j z mark_blocks(1) [OF f] m(2) by (simp add: used_block_def b BIT_PER_BLOCK_def BLOCK_SIZE_def)
qed

lemma boot_disk:
  assumes m: "mrep m fs" "image m ! 91 = foldl cell_set zeroes [0..<unat (freeblock m)]" and s: "on_disk m s"
  shows "disk_ok mkfs_sb s" "mview m x \<noteq> None \<Longrightarrow> disk_view mkfs_sb s x = mview m x"
proof -
  have I: "image_ok m" using m(1) by (simp add: mrep_def)
  note U = boot_used [OF m s]
  have c: "length (content s n) = BLOCK_SIZE" if "unat n < 1000" for n using on_disk_content_word [OF s that] I that by (simp add: image_ok_def)
  show "disk_ok mkfs_sb s"
    unfolding disk_ok_def bitmap_ok_def mkfs_geometry
    using U c I by (auto simp: BIT_PER_BLOCK_def BLOCK_SIZE_def image_ok_def)
  show "disk_view mkfs_sb s x = mview m x" if "mview m x \<noteq> None"
    using that U(1) [of "unat x"] I on_disk_content_word [OF s, of x]
    by (auto simp: mview_def disk_view_def mkfs_geometry image_ok_def split: if_splits)
qed

lemma boot_inode:
  assumes m: "mrep m fs" "image m ! 91 = foldl cell_set zeroes [0..<unat (freeblock m)]" and s: "on_disk m s" and i: "i < length fs"
    and e: "e = disk_inode s (of_nat (Suc i))" and V: "V = disk_view mkfs_sb s"
  shows "itype e = fst (fs ! i)" "file_ok dspace e V" "file_full e V" "unat (num_bytes e) = length (snd (fs ! i))"
    "map (fbyte e V) [0..<unat (num_bytes e)] = snd (fs ! i)"
proof -
  have k: "Suc i < 208" using m(1) i by (simp add: mrep_def)
  have "unat (to_block_no mkfs_sb (of_nat (Suc i))) = Suc i div 8 + 65"
    using k by (simp add: to_block_no_def inode_consts unat_word_ariths unat_div unat_of_nat_lt del: of_nat_Suc)
  then have ie: "e = ientry m (Suc i)"
    using on_disk_content_word [OF s, of "to_block_no mkfs_sb (of_nat (Suc i))"] IBLOCK_nat(3) [OF k] by (simp add: e disk_inode_def ientry_def del: of_nat_Suc)
  have f: "is_file (mview m) e (fs ! i)" using m(1) i by (simp add: mrep_def ie)
  let ?c = "snd (fs ! i)"
  have h: "holds dspace (mview m) e ?c (nblocks (length ?c))" using f by (simp add: is_file_def)
  have "holds dspace V e ?c (nblocks (length ?c))"
    by (rule holds_cong(1) [OF h]) (simp add: V boot_disk(2) [OF m s ablocks_mapped [OF holdsD(1) [OF h]]])
  note H = holdsD [OF this]
  show "itype e = fst (fs ! i)" and u: "unat (num_bytes e) = length ?c" using f by (simp_all add: is_file_def)
  show "file_ok dspace e V" by (rule H(1))
  have mx: "length ?c \<le> INODE_MAX_BYTES" 
    unfolding INODE_MAX_BYTES_def mult.commute [of INODE_MAX_BLOCKS] by (rule le_trans [OF H(3) mult_le_mono2 [OF H(2)]])
  have "bmap e V (k div BLOCK_SIZE) \<noteq> 0" if "k < length ?c" for k
  proof -
    have "k < nblocks (length ?c) * BLOCK_SIZE" using that H(3) by (simp add: mult.commute)
    then show ?thesis using H(4) [OF div_block [OF less_le_trans [OF that mx]]] less_mult_imp_div_less by blast
  qed
  then show "file_full e V" using mx by (simp add: file_full_def u)
  show "map (fbyte e V) [0..<unat (num_bytes e)] = ?c" unfolding u by (rule nth_equalityI) (use H(6) mx in simp_all)
qed

text \<open>The kernel reads the super block before anything else (\<^verbatim>\<open>src/fs/block_device.c\<close>).\<close>

definition init_block_device :: "('a bcache, u8 list) cm" where
  "init_block_device = sd_read (0x20800 + 1)"

definition get_super_block :: "u8 list \<Rightarrow> SuperBlock" where
  "get_super_block d = \<lparr>num_blocks = get_addr d 0, num_data_blocks = get_addr d 1, num_inodes = get_addr d 2, num_log_blocks = get_addr d 3,
     log_start = get_addr d 4, inode_start = get_addr d 5, bitmap_start = get_addr d 6\<rparr>"

lemma super_block_roundtrip: "get_super_block (patch 0 (sb_bytes sb) zeroes) = sb"
  by (cases sb) (simp add: get_super_block_def get_addr_def sb_bytes_def patch_def field_array [of 0, simplified] field_def)

lemma boot_super_block:
  assumes "image_ok m" "on_disk m s"
  shows "runs init_block_device s (\<lambda>d s'. s' = s \<and> get_super_block d = mkfs_sb)"
proof -
  have "disk s (sector (of_nat 1)) = image m ! 1" using assms(2) unfolding on_disk_def FSSIZE_val by (elim conjE allE [of _ 1]) simp
  then have "disk s 0x20801 = patch 0 (sb_bytes mkfs_sb) zeroes" using assms(1) by (simp add: image_ok_def sector_def)
  then show ?thesis by (simp add: init_block_device_def sd_read_def runs_gets super_block_roundtrip)
qed

lemma pieces:
  assumes "\<And>d. d \<in> set ds \<Longrightarrow> length (f d) = 16" "k < length ds"
  shows "take 16 (drop (16 * k) (concat (map f ds) @ z)) = f (ds ! k)"
  using assms
proof (induction ds arbitrary: k)
  case (Cons d ds)
  then show ?case by (cases k) simp_all
qed simp

lemma dents_dent: "d \<in> set (dents k ins) \<Longrightarrow> \<exists>j name. d = dent j name"
  by (induction k ins rule: dents.induct) auto

lemma root_dent: "d \<in> set (root_entries ins) \<Longrightarrow> \<exists>j name. d = dent j name"
  by (auto simp: root_entries_def dest: dents_dent)

lemma root_dirent:
  assumes c: "map (fbyte e V) [0..<n] = root_bytes ins" "n = length (root_bytes ins)"
  shows "k < length ins + 2 \<Longrightarrow> dirent e V k = root_entries ins ! k"
    "length ins + 2 \<le> k \<Longrightarrow> k < n div 16 \<Longrightarrow> dino (dirent e V k) = 0"
proof -
  have l: "length (root_entries ins) = length ins + 2" "length (dbytes (root_entries ins)) = 16 * (length ins + 2)"
    by (simp_all add: root_entries_def length_dents length_dirent)
  have part: "map (fbyte e V) [16 * k..<16 * k + 16] = take 16 (drop (16 * k) (root_bytes ins))" if "16 * k + 16 \<le> n"
    unfolding c(1) [symmetric] using that by (simp add: take_map drop_map)
  show "dirent e V k = root_entries ins ! k" if k: "k < length ins + 2"
  proof -
    have d: "root_entries ins ! k \<in> set (root_entries ins)" using k l(1) by simp
    have "16 * k + 16 \<le> n" using k l(2) c(2) by (simp add: root_bytes_def)
    moreover have "take 16 (drop (16 * k) (root_bytes ins)) = bytes_of_dirent (root_entries ins ! k)"
      unfolding root_bytes_def by (rule pieces) (use k l(1) root_dent length_dirent in auto)
    moreover have "length (dname (root_entries ins ! k)) = FILE_NAME_MAX_LENGTH"
      using root_dent [OF d] by (auto simp: dent_def strncpy_l_def)
    ultimately show ?thesis using part by (simp add: dirent_def sizeof_DirEntry_def dirent_roundtrip)
  qed
  show "dino (dirent e V k) = 0" if k: "length ins + 2 \<le> k" "k < n div 16"
  proof -
    have "16 * k + 16 \<le> n" using k(2) by linarith
    moreover from this have "take 16 (drop (16 * k) (root_bytes ins)) = replicate 16 0"
      using k(1) l(2) c(2) by (simp add: root_bytes_def min_def)
    ultimately show ?thesis using part by (simp add: dirent_def sizeof_DirEntry_def dirent_of_def field_def numeral_eq_Suc)
  qed
qed

section \<open>Claims\<close>

text \<open>
  C11. The image that \<^verbatim>\<open>mkfs\<close> builds is one the kernel can start from. For all inputs that fit (enough inodes and blocks, no file too
  large, and a number of directory entries that is not a multiple of 32), \<^verbatim>\<open>mkfs\<close> returns, and for a kernel with an empty cache
  on a disk with this image: the kernel reads the super block that \<^verbatim>\<open>mkfs\<close> laid out; the disk satisfies the invariant of the file system;
  the root directory, inode 1, is well formed, lists itself twice and then the input files by name, and its other entries are free;
  and every file is a well-formed regular file with exactly the bytes of its input.
\<close>

theorem mkfs_image_boots:
  assumes "fits ins"
  shows "runs (mkfs_main (map (\<lambda>(path, cs). (path, Some cs)) ins)) mkfs_start (\<lambda>_ m. \<forall>s :: 'a bcache. on_disk m s \<longrightarrow>
    runs init_block_device s (\<lambda>d s'. s' = s \<and> get_super_block d = mkfs_sb) \<and> disk_ok mkfs_sb s \<and>
    dir_ok (data_space mkfs_sb) (disk_inode s 1) (disk_view mkfs_sb s) \<and>
    length ins + 2 \<le> dir_size (disk_inode s 1) \<and>
    (\<forall>k < length ins + 2. dirent (disk_inode s 1) (disk_view mkfs_sb s) k = root_entries ins ! k) \<and>
    (\<forall>k < dir_size (disk_inode s 1). length ins + 2 \<le> k \<longrightarrow> dino (dirent (disk_inode s 1) (disk_view mkfs_sb s) k) = 0) \<and>
    (\<forall>i < length ins. itype (disk_inode s (of_nat (i + 2))) = INODE_REGULAR \<and>
       file_ok (data_space mkfs_sb) (disk_inode s (of_nat (i + 2))) (disk_view mkfs_sb s) \<and>
       file_full (disk_inode s (of_nat (i + 2))) (disk_view mkfs_sb s) \<and>
       map (fbyte (disk_inode s (of_nat (i + 2))) (disk_view mkfs_sb s)) [0..<unat (num_bytes (disk_inode s (of_nat (i + 2))))] = concat (snd (ins ! i))))"
proof (rule mkfs_rule [OF assms], intro allI impI)
  fix m and s :: "'a bcache"
  let ?fs = "(INODE_DIRECTORY, root_bytes ins) # inputs ins" and ?V = "disk_view mkfs_sb s"
  assume m: "mrep m ?fs" "image m ! 91 = foldl cell_set zeroes [0..<unat (freeblock m)]" and s: "on_disk m s"
  note R = boot_inode [OF m s _ refl refl, of 0, simplified]
  have "length (root_bytes ins) = 512 * nblocks (16 * (length ins + 2))"
    by (simp add: root_bytes_def root_entries_def length_dents length_dirent nblocks_def)
  then have d: "dir_size (disk_inode s 1) = length (root_bytes ins) div 16" "length (root_bytes ins) = 16 * (length (root_bytes ins) div 16)"
    "length ins + 2 \<le> length (root_bytes ins) div 16"
    by (simp_all add: dir_size_def R(4) sizeof_DirEntry_def nblocks_def)
  have i: "i < length ins \<Longrightarrow> Suc i < length ?fs" "of_nat (i + 2) = (of_nat (Suc (Suc i)) :: usize)" for i by simp_all
  show "runs init_block_device s (\<lambda>d s'. s' = s \<and> get_super_block d = mkfs_sb) \<and> disk_ok mkfs_sb s \<and>
    dir_ok (data_space mkfs_sb) (disk_inode s 1) ?V \<and>
    length ins + 2 \<le> dir_size (disk_inode s 1) \<and>
    (\<forall>k < length ins + 2. dirent (disk_inode s 1) ?V k = root_entries ins ! k) \<and>
    (\<forall>k < dir_size (disk_inode s 1). length ins + 2 \<le> k \<longrightarrow> dino (dirent (disk_inode s 1) ?V k) = 0) \<and>
    (\<forall>i < length ins. itype (disk_inode s (of_nat (i + 2))) = INODE_REGULAR \<and>
       file_ok (data_space mkfs_sb) (disk_inode s (of_nat (i + 2))) ?V \<and> file_full (disk_inode s (of_nat (i + 2))) ?V \<and>
       map (fbyte (disk_inode s (of_nat (i + 2))) ?V) [0..<unat (num_bytes (disk_inode s (of_nat (i + 2))))] = concat (snd (ins ! i)))"
    using boot_super_block [OF _ s] boot_disk(1) [OF m s] R d root_dirent [OF R(5)] boot_inode [OF m s i(1) refl refl] m(1)
    by (simp add: dir_ok_def sizeof_DirEntry_def mrep_def i(2) del: of_nat_Suc)
qed

theorem mkfs_image_boots_witness:
  "fits [([97], [[1, 2, 3]])] \<and> (\<exists>m (s :: unit bcache). mkfs_main [([97], Some [[1, 2, 3]])] mkfs_start = Inr ((), m) \<and> on_disk m s \<and>
    runs init_block_device s (\<lambda>d s'. s' = s \<and> get_super_block d = mkfs_sb) \<and> disk_ok mkfs_sb s \<and>
    dir_ok (data_space mkfs_sb) (disk_inode s 1) (disk_view mkfs_sb s) \<and>
    dirent (disk_inode s 1) (disk_view mkfs_sb s) 2 = dent 2 [97] \<and> itype (disk_inode s 2) = INODE_REGULAR \<and>
    map (fbyte (disk_inode s 2) (disk_view mkfs_sb s)) [0..<unat (num_bytes (disk_inode s 2))] = [1, 2, 3])"
proof -
  have f: "fits [([97], [[1, 2, 3]])]"
    by (simp add: fits_def NINODES_def fs_sizes INODE_MAX_BYTES_def bcost_def nblocks_def)
  have "sector (of_nat n) = of_nat n + 0x20800" if "n < 1000" for n
    using that by (simp add: sector_def word_unat_eq_iff unat_word_ariths unsigned_ucast_eq take_bit_eq_mod unat_of_nat_lt)
  then have n: "unat (sector (of_nat n) - 0x20800) = n" if "n < 1000" for n using that by (simp add: unat_of_nat_lt)
  have e: "root_entries [([97], [[1, 2, 3]])] ! 2 = dent 2 [97]"
    by (simp add: root_entries_def file_name_def tail_len_def slash_def)
  note T = mkfs_image_boots [OF f, where 'a = unit, simplified]
  obtain m where m: "mkfs_main [([97], Some [[1, 2, 3]])] mkfs_start = Inr ((), m)"
    using T by (auto simp: runs_def split: sum.splits)
  let ?s = "(undefined :: unit bcache)\<lparr>lru := [], disk := \<lambda>x. image m ! unat (x - 0x20800)\<rparr>"
  have s: "on_disk m ?s" using n by (simp add: on_disk_def)
  show ?thesis
    by (intro conjI exI [of _ m] exI [of _ ?s] f m s) (use T m s e in \<open>auto simp: runs_def\<close>)
qed

end
