(* ===== verification/Spec2Isabelle.thy ===== *)
theory Spec2Isabelle
  imports CString SleepLock Format InodeCache Console Shell Liveness SdDriver MkFs
begin

text \<open>
  A verification of the OS2021 teaching kernel for AArch64 (Raspberry Pi 3): its C sources under \<^verbatim>\<open>src/\<close>, translated
  into executable HOL definitions, and the properties that make its parts correct. Paths below are relative to the
  directory \<^verbatim>\<open>src\<close> of the repository.

  \<^bold>\<open>The program.\<close> At the bottom are a page allocator (\<^verbatim>\<open>core/physical_memory.c\<close>) and an arena of fixed-size objects on
  top of it (\<^verbatim>\<open>core/arena.c\<close>), which use circular lists, bitmaps, spinlocks and byte strings (\<^verbatim>\<open>common/\<close>). The disk is an
  SD card (\<^verbatim>\<open>driver/sd.c\<close>) behind a queue of requests (\<^verbatim>\<open>driver/buf.c\<close>). The block cache (\<^verbatim>\<open>fs/cache.c\<close>) keeps blocks in
  objects of an arena and writes them through a log; inodes, directories and paths (\<^verbatim>\<open>fs/inode.c\<close>) use the cache through a table of
  functions, and open files (\<^verbatim>\<open>fs/file.c\<close>) use inodes and the console (\<^verbatim>\<open>core/console.c\<close>). Processes (\<^verbatim>\<open>core/proc.c\<close>) have user page tables
  (\<^verbatim>\<open>core/virtual_memory.c\<close>), numbers given out by containers (\<^verbatim>\<open>core/container.c\<close>) and descriptors of open files; they enter the kernel
  by traps (\<^verbatim>\<open>core/trap.c\<close>, \<^verbatim>\<open>core/syscall.c\<close>, \<^verbatim>\<open>core/sysfile.c\<close>, \<^verbatim>\<open>core/sysproc.c\<close>, \<^verbatim>\<open>core/exec.c\<close>) and interrupts
  (\<^verbatim>\<open>driver/interrupt.c\<close>), and leave it through the scheduler (\<^verbatim>\<open>core/sched.c\<close>). The shell (\<^verbatim>\<open>user/sh/main.c\<close>) is a user program, and
  the disk image is built on the host by \<^verbatim>\<open>mkfs\<close> (\<^verbatim>\<open>user/mkfs/main.c\<close>).

  \<^bold>\<open>How code becomes definitions.\<close> A C function is a HOL function of the same name on the state it changes. Fixed-width integers are
  words, and wrap as they do in C. A function that can stop the kernel has the type \<open>('s, 'a) cm\<close> of \<open>Prelude\<close>: a step on the state that
  gives a result or a fault. \<open>Panic msg\<close> is a call of \<^verbatim>\<open>PANIC\<close> or a failed assertion, with its message; \<open>Blocked\<close> is a wait that only another CPU or process
  could finish; \<open>BadAccess\<close> is a use of a null or dangling pointer. A pointer to a structure is an index or a key of a map, except where
  the bytes matter (the list threaded through free pages, page tables, trap frames, on-disk structures): there the model has
  bytes and the loads and stores of the code. A function that gives up the CPU is two definitions, for the part before and the part
  after the switch. Every loop is a recursion with a termination proof, except where fuel or partiality is named below.

  \<^bold>\<open>The theories.\<close>
  \<^item> \<open>Prelude\<close>: integer types of \<^verbatim>\<open>common/defines.h\<close>, faults, the combinators and their rules (\<open>cm_simps\<close> executes, \<open>runs\<close> is total
    correctness).
  \<^item> \<open>ListNode\<close> (\<^verbatim>\<open>common/list.c\<close>), \<open>Bitmap\<close> (\<^verbatim>\<open>common/bitmap.h\<close>), \<open>CString\<close> (\<^verbatim>\<open>common/string.c\<close>), \<open>Bytes\<close> (words in byte memory, pages),
    \<open>Format\<close> (\<^verbatim>\<open>common/format.c\<close>). The heap of list nodes refines lists of addresses; \<^verbatim>\<open>memmove\<close> copies overlapping ranges rightly; printed
    integers read back as the values of the arguments.
  \<^item> \<open>Locks\<close> (\<^verbatim>\<open>common/spinlock.c\<close>, \<^verbatim>\<open>common/rc.c\<close>) and \<open>SleepLock\<close> (\<^verbatim>\<open>core/sleeplock.c\<close>): step relations in which CPUs or processes interleave at every atomic access;
    mutual exclusion, and no lost wakeup.
  \<^item> \<open>PhysMem\<close> (\<^verbatim>\<open>core/physical_memory.c\<close>) and \<open>Arena\<close> (\<^verbatim>\<open>core/arena.c\<close>): the free list in memory, zeroed pages, conservation of pages; objects that do
    not overlap, allocation and release of exactly one object. The locale \<open>bit_array\<close> of \<open>Bitmap\<close>, \<open>node_list\<close> of \<open>ListNode\<close> and \<open>page_allocator\<close> of \<open>PhysMem\<close> are the contracts
    in between, each interpreted on the definitions of the component that provides it.
  \<^item> \<open>BufQueue\<close> (\<^verbatim>\<open>driver/buf.c\<close>): the linked queue implements the locale \<open>fifo\<close>. \<open>SdCard\<close> and \<open>SdDriver\<close> (\<^verbatim>\<open>driver/sd.c\<close>): the controller is a parameter, a \<open>bus\<close> that says what reads
    and writes of its registers do. Commands, responses, clock, initialisation and the partition table; requests as a step relation in
    which calls, interrupts and changes of the device interleave. Served in order, and no request is lost.
  \<^item> \<open>Cache\<close>, \<open>CacheInv\<close>, \<open>CacheLog\<close>, \<open>Transaction\<close> (\<^verbatim>\<open>fs/cache.c\<close>, \<^verbatim>\<open>fs/block_device.c\<close>): the cache with its list, the log, eviction, the bitmap of free blocks. The arena
    is a pair of functions with the contract \<open>object_pool\<close>, interpreted on \<open>Arena\<close>.
    The disk is a map from sectors to contents with the history of writes; a crash is a prefix of that history. Recovery after any crash
    in a commit gives all of the old or all of the new contents; reservations fit the log; allocation of blocks.
  \<^item> \<open>DiskFormat\<close>, \<open>Inode\<close>, \<open>InodeFile\<close>, \<open>InodeDir\<close>, \<open>InodeCache\<close> (\<^verbatim>\<open>fs/defines.h\<close>, \<^verbatim>\<open>fs/inode.c\<close>): the functions of the inode layer take the block cache as a
    record of functions, as the code takes a pointer to \<^verbatim>\<open>BlockCache\<close>. The locale \<open>block_store\<close> says what they need of it; \<open>InodeCache\<close> interprets it
    on the cache of \<open>Transaction\<close>, so that the claims are about both together: what is written is read back, what is inserted into a
    directory is found.
  \<^item> \<open>Console\<close> (\<^verbatim>\<open>core/console.c\<close>): the ring buffer refines a line editor; reads return whole lines.
  \<^item> \<open>VirtMem\<close> (\<^verbatim>\<open>core/virtual_memory.c\<close>, \<^verbatim>\<open>aarch64/mmu.h\<close>): four levels of tables in byte memory. Mapping translates as asked and changes nothing else.
  \<^item> \<open>File\<close> (\<^verbatim>\<open>fs/file.c\<close>), \<open>Container\<close>, \<open>Proc\<close>, \<open>Syscall\<close>, \<open>Exec\<close>, \<open>Trap\<close>, \<open>Scheduler\<close>: one state \<open>kernel\<close> with the process table, open files, page
    tables and locks; every system call of the table; the scheduler and the running processes as the step relation \<open>kstep\<close> of one CPU.
    \<open>FileRefs\<close>, \<open>KernelInv\<close> and \<open>Liveness\<close> hold the theorems: reference counts of files are right in every reached state, at most one process runs,
    and a process that can run is run eventually if the CPU keeps coming back to the scheduler.
  \<^item> \<open>Shell\<close> (\<^verbatim>\<open>user/sh/main.c\<close>): the parser of commands. It terminates, terminates every word in the buffer, and parses the text of a command
    back to the command.
  \<^item> \<open>MkFs\<close> (\<^verbatim>\<open>user/mkfs/main.c\<close>, \<^verbatim>\<open>fs/block_device.c\<close>): the program that builds the first file system, as a step on the list of blocks of the image. The image
    refines a list of files; the kernel finds on it its super block, the invariant of \<open>InodeCache\<close>, and the files with their contents.

  \<^bold>\<open>Bounds and fuel.\<close> The mutually recursive parser of the shell has fuel, \<open>5 * length s + 5\<close> for a line \<open>s\<close>; that it is never used up is part of a claim.
  The loops of \<^verbatim>\<open>clear_arena\<close> and \<^verbatim>\<open>strlen\<close>, which need not terminate on arbitrary memory, are partial functions; that they return is proved under the
  invariant of the arena and for strings. The polling loops of the SD driver count down from the numbers in the code (1000000, 500000, 100000, 10000, 6). A search for a free inode or a directory
  entry is bounded by the 32-bit counter of the code. Waiting for a lock that someone else holds, and sleeping, is not a loop but the outcome \<open>Blocked\<close> or
  a state of a step relation.

  \<^bold>\<open>Parameters.\<close> The C library's numbers of system calls and structures, which come from a submodule; the device registers; the contents of timers; and in
  \<open>Inode\<close> and \<open>File\<close> the functions of the block cache and of the console, as in the code.

  \<^bold>\<open>Not modelled.\<close> Assembly (\<^verbatim>\<open>start.S\<close>, \<^verbatim>\<open>asm/\<close>, \<^verbatim>\<open>boot/\<close>, \<^verbatim>\<open>user/*.S\<close>) and inline instructions: the model starts where they call C. Barriers and the
  weak memory of several CPUs: steps are sequentially consistent, and the kernel model has one CPU. The kernel's own page table (\<^verbatim>\<open>aarch64/kernel_pt.c\<close>) is a constant table.
  Register access in \<^verbatim>\<open>driver/uart.c\<close>, \<^verbatim>\<open>driver/mbox.c\<close> and the initialisation of clock and interrupts, and \<^verbatim>\<open>main.c\<close>, which calls the initialisations in turn. Nested schedulers of containers other than the root, whose
  branch in \<^verbatim>\<open>sched.c\<close> switches between schedulers; \<^verbatim>\<open>core/sched_simple.c\<close>, which the macro \<^verbatim>\<open>MULTI_SCHEDULER\<close> switches off, and \<^verbatim>\<open>fs/ocache.c\<close>, an earlier version of \<^verbatim>\<open>cache.c\<close>
  with the same symbols, of which the linker takes the first. The functions of \<^verbatim>\<open>core/sysproc_my.c\<close>, which only print, exit or yield and are in no table. The small user programs, which consist of calls of the C library. Running a parsed command in the shell (\<^verbatim>\<open>runcmd\<close>), which is made of system calls.
\<close>

end
